(* ===== verification/Prelude.thy ===== *)
theory Prelude
  imports Main "HOL-Library.Word"
begin

text \<open>
  Shared ground of the development: the machine integer types of \<^verbatim>\<open>types.h\<close>, the
  outcomes a piece of kernel code can have, the combinators in which the stateful code is
  written, their weakest-precondition calculus (collection \<open>wp\<close>), and generic lemmas on
  lists, options and words.

  A stateful C function is a function from a state to an \<open>outcome\<close>. It returns
  (\<open>Ok\<close>), it calls \<^verbatim>\<open>panic\<close> (\<open>Panic\<close>, with the message), it
  never comes back because it spins (\<open>Hang\<close>), it needs more rounds of a loop than the
  fuel it was given (\<open>NoFuel\<close>), or it reads or writes outside an object or through a
  null pointer (\<open>Undef\<close>).
\<close>

unbundle bit_operations_syntax

section \<open>Integer types\<close>

type_synonym u8 = "8 word"
type_synonym u16 = "16 word"
type_synonym u32 = "32 word"

text \<open>C's \<^verbatim>\<open>int\<close> is kept as a HOL integer; \<open>s32\<close> is the two's complement
  wrap-around of an arithmetic result that may leave the range.\<close>

definition s32 :: "int \<Rightarrow> int" where
  "s32 x = (x + 2147483648) mod 4294967296 - 2147483648"

definition in_s32 :: "int \<Rightarrow> bool" where
  "in_s32 x \<longleftrightarrow> - 2147483648 \<le> x \<and> x < 2147483648"

lemma s32_id [simp]: "in_s32 x \<Longrightarrow> s32 x = x"
  by (simp add: s32_def in_s32_def)

lemma in_s32_s32 [simp]: "in_s32 (s32 x)"
  using pos_mod_bound [of 4294967296 "x + 2147483648"] pos_mod_sign [of 4294967296 "x + 2147483648"]
  by (simp add: s32_def in_s32_def)

text \<open>String literals of the source as byte strings (without the terminating NUL).\<close>

definition bytes :: "string \<Rightarrow> u8 list" where
  "bytes s = map of_char s"

section \<open>Outcomes and the kernel monad\<close>

datatype ('s, 'a) outcome =
    Ok 'a 's
  | Panic string
  | Hang
  | NoFuel
  | Undef

type_synonym ('s, 'a) kop = "'s \<Rightarrow> ('s, 'a) outcome"

definition ret :: "'a \<Rightarrow> ('s, 'a) kop" where
  "ret a s = Ok a s"

definition bnd :: "('s, 'a) kop \<Rightarrow> ('a \<Rightarrow> ('s, 'b) kop) \<Rightarrow> ('s, 'b) kop" where
  "bnd m k s = (case m s of Ok a t \<Rightarrow> k a t | Panic e \<Rightarrow> Panic e | Hang \<Rightarrow> Hang
                | NoFuel \<Rightarrow> NoFuel | Undef \<Rightarrow> Undef)"

definition thn :: "('s, 'a) kop \<Rightarrow> ('s, 'b) kop \<Rightarrow> ('s, 'b) kop" where
  "thn m k = bnd m (\<lambda>_. k)"

definition panic :: "string \<Rightarrow> ('s, 'a) kop" where
  "panic e s = Panic e"

definition hang :: "('s, 'a) kop" where
  "hang s = Hang"

definition undef :: "('s, 'a) kop" where
  "undef s = Undef"

definition gets :: "('s \<Rightarrow> 'a) \<Rightarrow> ('s, 'a) kop" where
  "gets f s = Ok (f s) s"

definition modify :: "('s \<Rightarrow> 's) \<Rightarrow> ('s, unit) kop" where
  "modify f s = Ok () (f s)"

definition whenk :: "bool \<Rightarrow> ('s, unit) kop \<Rightarrow> ('s, unit) kop" where
  "whenk b m = (if b then m else ret ())"

text \<open>A pointer dereference or an array access that must be in range.\<close>

definition need :: "'a option \<Rightarrow> ('s, 'a) kop" where
  "need x = (case x of None \<Rightarrow> undef | Some a \<Rightarrow> ret a)"

definition at :: "'a list \<Rightarrow> nat \<Rightarrow> 'a option" where
  "at xs i = (if i < length xs then Some (xs ! i) else None)"

text \<open>Statements in sequence; a \<^verbatim>\<open>for\<close> loop over a range; a \<^verbatim>\<open>for\<close> loop that
  may leave by \<^verbatim>\<open>return\<close> or \<^verbatim>\<open>goto\<close> (the body answers \<open>Some\<close>); a loop
  with no bound of its own, with fuel.\<close>

primrec seqs :: "('s, unit) kop list \<Rightarrow> ('s, unit) kop" where
  "seqs [] = ret ()"
| "seqs (m # ms) = thn m (seqs ms)"

primrec for_each :: "'i list \<Rightarrow> ('i \<Rightarrow> ('s, unit) kop) \<Rightarrow> ('s, unit) kop" where
  "for_each [] body = ret ()"
| "for_each (i # is) body = thn (body i) (for_each is body)"

primrec for_find :: "'i list \<Rightarrow> ('i \<Rightarrow> ('s, 'a option) kop) \<Rightarrow> ('s, 'a option) kop" where
  "for_find [] body = ret None"
| "for_find (i # is) body =
     bnd (body i) (\<lambda>r. case r of None \<Rightarrow> for_find is body | Some v \<Rightarrow> ret (Some v))"

primrec loop_fuel :: "nat \<Rightarrow> ('x \<Rightarrow> ('s, 'x + 'a) kop) \<Rightarrow> 'x \<Rightarrow> ('s, 'a) kop" where
  "loop_fuel 0 body x = (\<lambda>s. NoFuel)"
| "loop_fuel (Suc n) body x =
     bnd (body x) (\<lambda>r. case r of Inl y \<Rightarrow> loop_fuel n body y | Inr a \<Rightarrow> ret a)"

lemma whenk_eq: "whenk b m s = (if b then m s else Ok () s)"
  by (simp add: whenk_def ret_def)

lemma need_eq: "need x s = (case x of None \<Rightarrow> Undef | Some a \<Rightarrow> Ok a s)"
  by (simp add: need_def undef_def ret_def split: option.split)

lemma kop_if: "(if b then m else m') s = (if b then m s else m' s)" for m :: "('s, 'a) kop"
  by simp

lemmas kop_defs = ret_def bnd_def thn_def panic_def hang_def undef_def gets_def modify_def
  whenk_eq need_eq kop_if

lemma bnd_cong [fundef_cong]:
  "m = m' \<Longrightarrow> (\<And>a t s. m' s = Ok a t \<Longrightarrow> k a t = k' a t) \<Longrightarrow> bnd m k = bnd m' k'"
  by (rule ext) (auto simp: bnd_def split: outcome.split)

section \<open>Weakest preconditions\<close>

text \<open>\<open>wp m Q s\<close>: from \<open>s\<close> the code \<open>m\<close> returns (no panic, no endless loop, no
  undefined access) and its result and final state satisfy \<open>Q\<close>.\<close>

definition wp :: "('s, 'a) kop \<Rightarrow> ('a \<Rightarrow> 's \<Rightarrow> bool) \<Rightarrow> 's \<Rightarrow> bool" where
  "wp m Q s = (case m s of Ok a t \<Rightarrow> Q a t | Panic e \<Rightarrow> False | Hang \<Rightarrow> False
                | NoFuel \<Rightarrow> False | Undef \<Rightarrow> False)"

named_theorems wp \<open>weakest-precondition rules of the kernel monad\<close>

lemma wp_iff: "wp m Q s \<longleftrightarrow> (\<exists>a t. m s = Ok a t \<and> Q a t)"
  by (cases "m s") (auto simp: wp_def)

lemma wpD: "wp m Q s \<Longrightarrow> \<exists>a t. m s = Ok a t \<and> Q a t"
  by (simp add: wp_iff)

lemma wpI: "m s = Ok a t \<Longrightarrow> Q a t \<Longrightarrow> wp m Q s"
  by (simp add: wp_iff)

lemma wp_mono: "wp m Q s \<Longrightarrow> (\<And>a t. Q a t \<Longrightarrow> R a t) \<Longrightarrow> wp m R s"
  by (auto simp: wp_iff)

lemma wp_conj: "wp m Q s \<Longrightarrow> wp m R s \<Longrightarrow> wp m (\<lambda>a t. Q a t \<and> R a t) s"
  by (auto simp: wp_iff)

lemma wp_ret [wp]: "wp (ret a) Q = Q a"
  by (simp add: fun_eq_iff wp_def ret_def)

lemma wp_bnd [wp]: "wp (bnd m k) Q = wp m (\<lambda>a. wp (k a) Q)"
  by (auto simp: fun_eq_iff wp_def bnd_def split: outcome.splits)

lemma wp_thn [wp]: "wp (thn m k) Q = wp m (\<lambda>_. wp k Q)"
  by (simp add: thn_def wp_bnd)

lemma wp_panic [wp]: "wp (panic e) Q s = False"
  by (simp add: wp_def panic_def)

lemma wp_hang [wp]: "wp hang Q s = False"
  by (simp add: wp_def hang_def)

lemma wp_undef [wp]: "wp undef Q s = False"
  by (simp add: wp_def undef_def)

lemma wp_gets [wp]: "wp (gets f) Q = (\<lambda>s. Q (f s) s)"
  by (simp add: fun_eq_iff wp_def gets_def)

lemma wp_modify [wp]: "wp (modify f) Q = (\<lambda>s. Q () (f s))"
  by (simp add: fun_eq_iff wp_def modify_def)

lemma wp_whenk [wp]: "wp (whenk b m) Q s = (if b then wp m Q s else Q () s)"
  by (simp add: whenk_def wp_ret)

lemma wp_need [wp]: "wp (need x) Q s = (\<exists>a. x = Some a \<and> Q a s)"
  by (cases x) (simp_all add: need_def wp_ret wp_undef)

lemma wp_if [wp]: "wp (if b then m else m') Q s = (if b then wp m Q s else wp m' Q s)"
  by simp

text \<open>Composition with a chosen intermediate assertion.\<close>

lemma wp_bndI: "wp m R s \<Longrightarrow> (\<And>a t. R a t \<Longrightarrow> wp (k a) Q t) \<Longrightarrow> wp (bnd m k) Q s"
  unfolding wp_bnd by (rule wp_mono)

lemma wp_gets_bnd: "wp (bnd (gets f) k) Q s = wp (k (f s)) Q s"
  by (simp add: wp_bnd wp_gets)

lemma wp_thnI: "wp m (\<lambda>_. R) s \<Longrightarrow> (\<And>t. R t \<Longrightarrow> wp k Q t) \<Longrightarrow> wp (thn m k) Q s"
  unfolding wp_thn by (rule wp_mono)

lemma wp_seqs_Nil [wp]: "wp (seqs []) Q = Q ()"
  by (simp add: wp_ret)

lemma wp_seqs_one: "wp (seqs [m]) Q = wp m Q"
  by (simp add: wp_thn wp_ret)

lemma wp_seqsI: "wp m (\<lambda>_. R) s \<Longrightarrow> (\<And>t. R t \<Longrightarrow> wp (seqs ms) Q t) \<Longrightarrow> wp (seqs (m # ms)) Q s"
  by (simp add: wp_thnI)

lemma wp_seqs_Cons [wp]: "wp (seqs (m # ms)) Q = wp m (\<lambda>_. wp (seqs ms) Q)"
  by (simp add: wp_thn)

lemma wp_for_each_Nil [wp]: "wp (for_each [] body) Q = Q ()"
  by (simp add: wp_ret)

lemma wp_for_each_Cons [wp]:
  "wp (for_each (i # is) body) Q = wp (body i) (\<lambda>_. wp (for_each is body) Q)"
  by (simp add: wp_thn)

text \<open>The invariant rule of a \<^verbatim>\<open>for\<close> loop: \<open>I\<close> speaks of the iterations still to
  do.\<close>

lemma wp_for_each:
  assumes "I xs s"
    and "\<And>i js t. I (i # js) t \<Longrightarrow> set (i # js) \<subseteq> set xs \<Longrightarrow> wp (body i) (\<lambda>_. I js) t"
  shows "wp (for_each xs body) (\<lambda>_. I []) s"
proof -
  have "I js t \<Longrightarrow> set js \<subseteq> set xs \<Longrightarrow> wp (for_each js body) (\<lambda>_. I []) t" for js t
  proof (induction js arbitrary: t)
    case (Cons j js)
    have "set js \<subseteq> set xs" using Cons.prems(2) by simp
    with assms(2) [OF Cons.prems] Cons.IH show ?case
      unfolding wp_for_each_Cons by (blast intro: wp_mono)
  qed (simp add: wp_ret)
  with assms(1) show ?thesis by blast
qed

lemma for_each_append: "for_each (xs @ ys) body s =
   (case for_each xs body s of Ok _ t \<Rightarrow> for_each ys body t | Panic e \<Rightarrow> Panic e | Hang \<Rightarrow> Hang
    | NoFuel \<Rightarrow> NoFuel | Undef \<Rightarrow> Undef)"
  by (induction xs arbitrary: s) (auto simp: thn_def bnd_def ret_def split: outcome.splits)

lemma wp_for_each_append:
  "wp (for_each (xs @ ys) body) Q = wp (for_each xs body) (\<lambda>_. wp (for_each ys body) Q)"
  by (auto simp: fun_eq_iff wp_def for_each_append split: outcome.splits)

text \<open>Loops with fuel: a measure that every round decreases, and fuel above it, give
  termination.\<close>

lemma wp_loop_fuel_0 [wp]: "wp (loop_fuel 0 body x) Q s = False"
  by (simp add: wp_iff)

lemma wp_loop_fuel_Suc:
  "wp (loop_fuel (Suc n) body x) Q s =
   wp (body x) (\<lambda>r t. case r of Inl y \<Rightarrow> wp (loop_fuel n body y) Q t | Inr a \<Rightarrow> Q a t) s"
  by (auto simp: wp_def bnd_def ret_def split: outcome.splits sum.splits)

lemma wp_loop_fuel:
  assumes "I x s" "\<mu> x s < n"
    and step: "\<And>y t. I y t \<Longrightarrow> wp (body y) (\<lambda>r u. case r of Inl z \<Rightarrow> I z u \<and> \<mu> z u < \<mu> y t | Inr a \<Rightarrow> Q a u) t"
  shows "wp (loop_fuel n body x) Q s"
  using assms(1,2)
proof (induction n arbitrary: x s)
  case (Suc n)
  show ?case unfolding wp_loop_fuel_Suc
    by (rule wp_mono [OF step [OF Suc.prems(1)]])
      (use Suc.prems(2) in \<open>auto split: sum.splits intro!: Suc.IH\<close>)
qed simp

lemma wp_for_find_Nil [wp]: "wp (for_find [] body) Q s = Q None s"
  by (simp add: wp_ret)

lemma wp_for_find_Cons [wp]:
  "wp (for_find (i # is) body) Q s =
   wp (body i) (\<lambda>r t. case r of None \<Rightarrow> wp (for_find is body) Q t | Some v \<Rightarrow> Q (Some v) t) s"
  by (auto simp: wp_def bnd_def ret_def split: outcome.splits option.splits)

text \<open>A scan whose body passes over an element without effect, or stops at it.\<close>

lemma wp_for_find_eq:
  assumes "\<And>i Q. i \<in> set xs \<Longrightarrow> \<not> P i \<Longrightarrow> wp (body i) Q s = Q None s"
    and "\<And>i Q. i \<in> set xs \<Longrightarrow> P i \<Longrightarrow> wp (body i) Q s = Q (Some (r i)) (g i)"
  shows "wp (for_find xs body) Q s =
    (case find P xs of None \<Rightarrow> Q None s | Some i \<Rightarrow> Q (Some (r i)) (g i))"
  using assms
proof (induction xs)
  case (Cons x xs)
  have "wp (for_find xs body) Q s = (case find P xs of None \<Rightarrow> Q None s | Some i \<Rightarrow> Q (Some (r i)) (g i))"
    by (rule Cons.IH) (use Cons.prems in auto)
  with Cons.prems show ?case by (simp add: wp_for_find_Cons del: for_find.simps)
qed (simp add: wp_ret)

lemma wp_for_find_first:
  assumes "\<And>i R. i \<in> set xs \<Longrightarrow> \<not> P i \<Longrightarrow> wp (body i) R s = R None s"
    and "\<And>i. find P xs = Some i \<Longrightarrow> wp (body i) (\<lambda>r t. \<exists>v. r = Some v \<and> Q (Some v) t) s"
    and "find P xs = None \<Longrightarrow> Q None s"
  shows "wp (for_find xs body) Q s"
  using assms
proof (induction xs)
  case (Cons x xs)
  show ?case
  proof (cases "P x")
    case True
    then show ?thesis using Cons.prems(2) [of x]
      by (simp add: wp_for_find_Cons del: for_find.simps) (erule wp_mono, auto)
  next
    case False
    have "wp (for_find xs body) Q s" by (rule Cons.IH) (use Cons.prems False in auto)
    with False Cons.prems(1) [of x] show ?thesis by (simp add: wp_for_find_Cons del: for_find.simps)
  qed
qed (simp add: wp_ret)

lemma find_upt_Some: "find P [0..<n] = Some i \<longleftrightarrow> i < n \<and> P i \<and> (\<forall>j < i. \<not> P j)"
  by (auto simp: find_Some_iff)

lemma find_upt_None: "find P [0..<n] = None \<longleftrightarrow> (\<forall>i < n. \<not> P i)"
  by (auto simp: find_None_iff)

declare seqs.simps [simp del] for_each.simps [simp del] for_find.simps [simp del]
  loop_fuel.simps [simp del]

lemma at_Some_iff [simp]: "at xs i = Some x \<longleftrightarrow> i < length xs \<and> x = xs ! i"
  by (auto simp: at_def)

lemma at_None_iff [simp]: "at xs i = None \<longleftrightarrow> \<not> i < length xs"
  by (simp add: at_def)

section \<open>Lists\<close>

lemma nth_list_update_if:
  "i < length xs \<Longrightarrow> xs[i := x] ! j = (if i = j then x else xs ! j)"
  by (simp add: nth_list_update)

text \<open>The first index of a list whose element satisfies a test, as a scan from the front
  finds it.\<close>

primrec find_index :: "('a \<Rightarrow> bool) \<Rightarrow> 'a list \<Rightarrow> nat option" where
  "find_index P [] = None"
| "find_index P (x # xs) = (if P x then Some 0 else map_option Suc (find_index P xs))"

lemma find_index_None_iff: "find_index P xs = None \<longleftrightarrow> (\<forall>x \<in> set xs. \<not> P x)"
  by (induction xs) auto

lemma find_index_SomeD:
  "find_index P xs = Some i \<Longrightarrow> i < length xs \<and> P (xs ! i) \<and> (\<forall>j < i. \<not> P (xs ! j))"
proof (induction xs arbitrary: i)
  case (Cons x xs)
  show ?case
  proof (cases "P x")
    case False
    with Cons.prems obtain k where "find_index P xs = Some k" "i = Suc k" by auto
    with Cons.IH [of k] False show ?thesis by (auto simp: nth_Cons split: nat.splits)
  qed (use Cons.prems in simp)
qed simp

lemma find_index_SomeI:
  "i < length xs \<Longrightarrow> P (xs ! i) \<Longrightarrow> (\<And>j. j < i \<Longrightarrow> \<not> P (xs ! j)) \<Longrightarrow> find_index P xs = Some i"
proof (induction xs arbitrary: i)
  case (Cons x xs)
  show ?case
  proof (cases i)
    case 0
    with Cons.prems show ?thesis by simp
  next
    case (Suc k)
    have "\<not> P x" using Cons.prems(3) [of 0] Suc by simp
    moreover have "find_index P xs = Some k"
    proof (rule Cons.IH)
      show "k < length xs" "P (xs ! k)" using Cons.prems Suc by simp_all
      show "\<not> P (xs ! j)" if "j < k" for j using Cons.prems(3) [of "Suc j"] Suc that by simp
    qed
    ultimately show ?thesis using Suc by simp
  qed
qed simp

section \<open>Words\<close>

lemma unat_add_of_nat: "unat (a :: u32) + k < 2 ^ 32 \<Longrightarrow> unat (a + of_nat k) = unat a + k"
  by (simp add: unat_word_ariths unat_of_nat)

lemma unat_add_lt: "unat (a :: u32) + unat b < 2 ^ 32 \<Longrightarrow> unat (a + b) = unat a + unat b"
  by (simp add: unat_word_ariths)

lemma of_nat_u32_nz: "0 < k \<Longrightarrow> k < 2 ^ 32 \<Longrightarrow> (of_nat k :: u32) \<noteq> 0"
  by (simp add: word_unat_eq_iff unat_of_nat)

lemma unat_lt32: "unat (a :: u32) < 2 ^ 32"
  using unsigned_less [of a] by simp

lemma sint_small:
  fixes w :: u32
  assumes "unat w < 2 ^ 31"
  shows "sint w = int (unat w)"
proof -
  have "int (unat w) < int (2 ^ 31)" using assms by (simp only: of_nat_less_iff)
  then have "uint w < 2 ^ 31" by simp
  moreover have "- (2 ^ 31) \<le> uint w" by (rule order_trans [of _ 0]) simp_all
  ultimately have "signed_take_bit 31 (uint w) = uint w" by (rule signed_take_bit_int_eq_self [rotated])
  then show ?thesis by (simp add: sint_uint)
qed

section \<open>Invariants of transition systems\<close>

text \<open>The interface of every state machine of the development: an initial condition, a step
  relation and a candidate invariant that holds initially and that every step keeps. What a
  client gets is that the invariant holds in every reachable state, and that any consequence
  of it does.\<close>

locale step_invariant =
  fixes init :: "'s \<Rightarrow> bool"
    and step :: "'s \<Rightarrow> 's \<Rightarrow> bool"
    and inv :: "'s \<Rightarrow> bool"
  assumes init_inv: "init s \<Longrightarrow> inv s"
    and step_inv: "inv s \<Longrightarrow> step s t \<Longrightarrow> inv t"
begin

lemma steps_inv: "step\<^sup>*\<^sup>* s t \<Longrightarrow> inv s \<Longrightarrow> inv t"
  by (induction rule: rtranclp_induct) (auto intro: step_inv)

lemma reachable_inv: "init s \<Longrightarrow> step\<^sup>*\<^sup>* s t \<Longrightarrow> inv t"
  by (blast intro: init_inv steps_inv)

end

end
