(* ===== verification/Machine.thy ===== *)
theory Machine
  imports Prelude
begin

text \<open>
  The x86 machine as the kernel sees it: flag and segment constants of \<^verbatim>\<open>mmu.h\<close>, the
  descriptor and gate formats with the macros that fill them, the saved register sets of
  \<^verbatim>\<open>x86.h\<close> and \<^verbatim>\<open>proc.h\<close>, the per-CPU structure, and the base state record on
  which every later layer builds. The lemmas show that the descriptor macros keep the base
  address, and the gate macro the handler address, they are given.
\<close>

section \<open>Constants (mmu.h, param.h)\<close>

definition FL_IF :: u32 where "FL_IF = 0x200"
definition PGSIZE :: u32 where "PGSIZE = 4096"
definition KSTACKSIZE :: u32 where "KSTACKSIZE = 4096"
definition PHYSTOP :: u32 where "PHYSTOP = 0x1000000"
definition NPROC :: nat where "NPROC = 64"
definition NOFILE :: nat where "NOFILE = 16"
definition NFILE :: nat where "NFILE = 100"
definition NBUF :: nat where "NBUF = 100"
definition NINODE :: nat where "NINODE = 50"
definition NDEV :: nat where "NDEV = 10"
definition ROOTDEV :: u32 where "ROOTDEV = 1"
definition QUANTA :: int where "QUANTA = 5"

definition DPL_USER :: u32 where "DPL_USER = 3"
definition SEG_KCODE :: nat where "SEG_KCODE = 1"
definition SEG_KDATA :: nat where "SEG_KDATA = 2"
definition SEG_KCPU :: nat where "SEG_KCPU = 3"
definition SEG_UCODE :: nat where "SEG_UCODE = 4"
definition SEG_UDATA :: nat where "SEG_UDATA = 5"
definition SEG_TSS :: nat where "SEG_TSS = 6"
definition STA_X :: u32 where "STA_X = 8"
definition STA_W :: u32 where "STA_W = 2"
definition STA_R :: u32 where "STA_R = 2"
definition STS_T32A :: u32 where "STS_T32A = 9"
definition STS_IG32 :: u32 where "STS_IG32 = 0xE"
definition STS_TG32 :: u32 where "STS_TG32 = 0xF"

text \<open>Trap numbers (traps.h).\<close>

definition T_SYSCALL :: u32 where "T_SYSCALL = 64"
definition T_IRQ0 :: u32 where "T_IRQ0 = 32"
definition IRQ_TIMER :: u32 where "IRQ_TIMER = 0"
definition IRQ_KBD :: u32 where "IRQ_KBD = 1"
definition IRQ_COM1 :: u32 where "IRQ_COM1 = 4"
definition IRQ_IDE :: u32 where "IRQ_IDE = 14"
definition IRQ_SPURIOUS :: u32 where "IRQ_SPURIOUS = 31"

lemmas limits = NPROC_def NOFILE_def NFILE_def NBUF_def NINODE_def NDEV_def

section \<open>Segment and gate descriptors\<close>

record segdesc =
  lim_15_0 :: u16
  base_15_0 :: u16
  base_23_16 :: u8
  sd_type :: "4 word"
  sd_s :: "1 word"
  sd_dpl :: "2 word"
  sd_p :: "1 word"
  lim_19_16 :: "4 word"
  sd_avl :: "1 word"
  sd_rsv1 :: "1 word"
  sd_db :: "1 word"
  sd_g :: "1 word"
  base_31_24 :: u8

definition SEG :: "u32 \<Rightarrow> u32 \<Rightarrow> u32 \<Rightarrow> u32 \<Rightarrow> segdesc" where
  "SEG ty base lim dpl =
    \<lparr>lim_15_0 = ucast (drop_bit 12 lim AND 0xffff), base_15_0 = ucast (base AND 0xffff),
     base_23_16 = ucast (drop_bit 16 base AND 0xff), sd_type = ucast ty, sd_s = 1,
     sd_dpl = ucast dpl, sd_p = 1, lim_19_16 = ucast (drop_bit 28 lim), sd_avl = 0,
     sd_rsv1 = 0, sd_db = 1, sd_g = 1, base_31_24 = ucast (drop_bit 24 base)\<rparr>"

definition SEG16 :: "u32 \<Rightarrow> u32 \<Rightarrow> u32 \<Rightarrow> u32 \<Rightarrow> segdesc" where
  "SEG16 ty base lim dpl =
    \<lparr>lim_15_0 = ucast (lim AND 0xffff), base_15_0 = ucast (base AND 0xffff),
     base_23_16 = ucast (drop_bit 16 base AND 0xff), sd_type = ucast ty, sd_s = 1,
     sd_dpl = ucast dpl, sd_p = 1, lim_19_16 = ucast (drop_bit 16 lim), sd_avl = 0,
     sd_rsv1 = 0, sd_db = 1, sd_g = 0, base_31_24 = ucast (drop_bit 24 base)\<rparr>"

record gatedesc =
  off_15_0 :: u16
  gd_cs :: u16
  gd_args :: "5 word"
  gd_rsv1 :: "3 word"
  gd_type :: "4 word"
  gd_s :: "1 word"
  gd_dpl :: "2 word"
  gd_p :: "1 word"
  off_31_16 :: u16

definition SETGATE :: "bool \<Rightarrow> u32 \<Rightarrow> u32 \<Rightarrow> u32 \<Rightarrow> gatedesc" where
  "SETGATE istrap sel off d =
    \<lparr>off_15_0 = ucast (off AND 0xffff), gd_cs = ucast sel, gd_args = 0, gd_rsv1 = 0,
     gd_type = ucast (if istrap then STS_TG32 else STS_IG32), gd_s = 0, gd_dpl = ucast d,
     gd_p = 1, off_31_16 = ucast (drop_bit 16 off)\<rparr>"

text \<open>The address the processor assembles from a descriptor or a gate.\<close>

definition seg_base :: "segdesc \<Rightarrow> u32" where
  "seg_base g = push_bit 24 (ucast (base_31_24 g)) OR push_bit 16 (ucast (base_23_16 g))
     OR ucast (base_15_0 g)"

definition gate_offset :: "gatedesc \<Rightarrow> u32" where
  "gate_offset g = push_bit 16 (ucast (off_31_16 g)) OR ucast (off_15_0 g)"

section \<open>Saved registers and per-CPU state (x86.h, proc.h)\<close>

record trapframe =
  tf_edi :: u32
  tf_esi :: u32
  tf_ebp :: u32
  tf_oesp :: u32
  tf_ebx :: u32
  tf_edx :: u32
  tf_ecx :: u32
  tf_eax :: u32
  tf_gs :: u16
  tf_fs :: u16
  tf_es :: u16
  tf_ds :: u16
  tf_trapno :: u32
  tf_err :: u32
  tf_eip :: u32
  tf_cs :: u16
  tf_eflags :: u32
  tf_esp :: u32
  tf_ss :: u16

definition tf_zero :: trapframe where
  "tf_zero = \<lparr>tf_edi = 0, tf_esi = 0, tf_ebp = 0, tf_oesp = 0, tf_ebx = 0, tf_edx = 0,
     tf_ecx = 0, tf_eax = 0, tf_gs = 0, tf_fs = 0, tf_es = 0, tf_ds = 0, tf_trapno = 0,
     tf_err = 0, tf_eip = 0, tf_cs = 0, tf_eflags = 0, tf_esp = 0, tf_ss = 0\<rparr>"

record ctxt =
  cx_edi :: u32
  cx_esi :: u32
  cx_ebx :: u32
  cx_ebp :: u32
  cx_eip :: u32

definition ctxt_zero :: ctxt where
  "ctxt_zero = \<lparr>cx_edi = 0, cx_esi = 0, cx_ebx = 0, cx_ebp = 0, cx_eip = 0\<rparr>"

text \<open>\<^verbatim>\<open>struct cpu\<close>, together with the registers of that processor the kernel uses:
  \<^verbatim>\<open>eflags\<close>, \<^verbatim>\<open>cr0\<close>, \<^verbatim>\<open>cr3\<close>, the task register, \<^verbatim>\<open>%gs\<close> and the loaded
  descriptor table (\<open>gdtr\<close>: the index of the processor structure it lies in). Processes
  are indices into \<^verbatim>\<open>ptable.proc\<close>; a null pointer is \<open>None\<close>.\<close>

record cpu =
  cpu_id :: u8
  ts_esp0 :: u32
  ts_ss0 :: u16
  gdt :: "nat \<Rightarrow> segdesc"
  booted :: u32
  ncli :: int
  intena :: u32
  cproc :: "nat option"
  eflags :: u32
  cr3 :: u32
  task_reg :: u16
  gs_reg :: u16
  cr0 :: u32
  gdtr :: "nat option"

section \<open>Locks, channels and the base state\<close>

text \<open>Every \<^verbatim>\<open>struct spinlock\<close> of the kernel has a name here: the static ones and the one
  inside each pipe (pipes are named by the address of their page).\<close>

datatype lockid =
    PtableLock
  | TicksLock
  | KmemLock
  | IdeLock
  | BcacheLock
  | IcacheLock
  | FtableLock
  | ConsLock
  | InputLock
  | PipeLock u32

record spinlock =
  locked :: u32
  lk_name :: string
  lk_cpu :: "nat option"
  pcs :: "u32 list"

text \<open>Sleep channels are addresses of kernel objects; distinct objects have distinct
  addresses, so a channel is named by the object. \<open>NoChan\<close> is the null pointer.\<close>

datatype chan =
    NoChan
  | ChProc nat
  | ChTicks
  | ChBuf nat
  | ChInode nat
  | ChPipeRead u32
  | ChPipeWrite u32
  | ChInput

text \<open>The base state: the processors, which of them executes (\<^verbatim>\<open>cpu\<close>, read through
  \<^verbatim>\<open>%gs:0\<close>), the locks, and the words of kernel stack memory that
  \<^verbatim>\<open>getcallerpcs\<close> follows from \<open>callframe\<close>.\<close>

record machine =
  cpus :: "nat \<Rightarrow> cpu"
  this_cpu :: nat
  locks :: "lockid \<Rightarrow> spinlock"
  stackmem :: "u32 \<Rightarrow> u32"
  callframe :: u32

abbreviation my_cpu :: "'a machine_scheme \<Rightarrow> cpu" where
  "my_cpu s \<equiv> cpus s (this_cpu s)"

definition upd_cpu :: "(cpu \<Rightarrow> cpu) \<Rightarrow> 'a machine_scheme \<Rightarrow> 'a machine_scheme" where
  "upd_cpu f s = s\<lparr>cpus := (cpus s)(this_cpu s := f (my_cpu s))\<rparr>"

definition upd_lock :: "lockid \<Rightarrow> (spinlock \<Rightarrow> spinlock) \<Rightarrow> 'a machine_scheme \<Rightarrow> 'a machine_scheme"
  where "upd_lock lk f s = s\<lparr>locks := (locks s)(lk := f (locks s lk))\<rparr>"

text \<open>A concrete state to run operations from: every processor idle with interrupts on, every
  lock free. Upper layers extend it with their own fields.\<close>

definition cpu_boot :: "nat \<Rightarrow> cpu" where
  "cpu_boot c = \<lparr>cpu_id = of_nat c, ts_esp0 = 0, ts_ss0 = 0, gdt = (\<lambda>_. SEG 0 0 0 0), booted = 1,
     ncli = 0, intena = 0, cproc = None, eflags = FL_IF, cr3 = 0, task_reg = 0, gs_reg = 0,
     cr0 = 0x11, gdtr = None\<rparr>"

definition machine_boot :: "'a \<Rightarrow> 'a machine_scheme" where
  "machine_boot x = \<lparr>cpus = cpu_boot, this_cpu = 0,
     locks = (\<lambda>_. \<lparr>locked = 0, lk_name = [], lk_cpu = None, pcs = replicate 10 0\<rparr>),
     stackmem = (\<lambda>_. 0), callframe = 0, \<dots> = x\<rparr>"

section \<open>Instructions (x86.h)\<close>

definition readeflags :: "('a machine_scheme, u32) kop" where
  "readeflags = gets (\<lambda>s. eflags (my_cpu s))"

definition cli :: "('a machine_scheme, unit) kop" where
  "cli = modify (upd_cpu (\<lambda>c. c\<lparr>eflags := eflags c AND NOT FL_IF\<rparr>))"

definition sti :: "('a machine_scheme, unit) kop" where
  "sti = modify (upd_cpu (\<lambda>c. c\<lparr>eflags := eflags c OR FL_IF\<rparr>))"

definition xchg_locked :: "lockid \<Rightarrow> u32 \<Rightarrow> ('a machine_scheme, u32) kop" where
  "xchg_locked lk v = bnd (gets (\<lambda>s. locked (locks s lk)))
     (\<lambda>old. thn (modify (upd_lock lk (\<lambda>l. l\<lparr>locked := v\<rparr>))) (ret old))"

section \<open>Lemmas\<close>

lemma FL_IF_clear [simp]: "(e AND NOT FL_IF) AND FL_IF = 0"
  by (simp add: and.assoc)

lemma FL_IF_set [simp]: "(e OR FL_IF) AND FL_IF = FL_IF"
  by (simp add: bit_eq_iff bit_simps)

lemma FL_IF_nz [simp]: "FL_IF \<noteq> 0"
  by (simp add: FL_IF_def)

lemma my_cpu_upd_cpu [simp]: "my_cpu (upd_cpu f s) = f (my_cpu s)"
  by (simp add: upd_cpu_def)

lemma upd_cpu_sel [simp]:
  "this_cpu (upd_cpu f s) = this_cpu s"
  "locks (upd_cpu f s) = locks s"
  "stackmem (upd_cpu f s) = stackmem s"
  "callframe (upd_cpu f s) = callframe s"
  "machine.more (upd_cpu f s) = machine.more s"
  by (simp_all add: upd_cpu_def)

lemma upd_lock_sel [simp]:
  "this_cpu (upd_lock lk f s) = this_cpu s"
  "cpus (upd_lock lk f s) = cpus s"
  "stackmem (upd_lock lk f s) = stackmem s"
  "callframe (upd_lock lk f s) = callframe s"
  "machine.more (upd_lock lk f s) = machine.more s"
  "locks (upd_lock lk f s) = (locks s)(lk := f (locks s lk))"
  by (simp_all add: upd_lock_def)

lemma drop_bit_zero_32: "32 \<le> n \<Longrightarrow> drop_bit n (w :: u32) = 0"
  by (rule bit_eqI) (simp add: bit_drop_bit_eq bit_imp_le_length)

text \<open>Descriptor round trips: splitting an address over the descriptor's fields loses
  nothing.\<close>

lemma mask_lits: "(0xffff :: u32) = mask 16" "(0xff :: u32) = mask 8"
  by (simp_all add: mask_eq_exp_minus_1)

lemma seg_base_fields:
  assumes "base_15_0 g = ucast (base AND 0xffff)"
    and "base_23_16 g = ucast (drop_bit 16 base AND 0xff)"
    and "base_31_24 g = ucast (drop_bit 24 base)"
  shows "seg_base g = base"
proof (rule bit_word_eqI)
  fix n assume n: "n < LENGTH(32)"
  consider "n < 16" | "16 \<le> n" "n < 24" | "24 \<le> n" by linarith
  then show "bit (seg_base g) n = bit base n"
    using n by cases (simp_all add: seg_base_def assms mask_lits bit_simps less_diff_conv2)
qed

lemma gate_offset_SETGATE: "gate_offset (SETGATE istrap sel off d) = off"
proof (rule bit_word_eqI)
  fix n assume n: "n < LENGTH(32)"
  consider "n < 16" | "16 \<le> n" by linarith
  then show "bit (gate_offset (SETGATE istrap sel off d)) n = bit off n"
    using n by cases (simp_all add: gate_offset_def SETGATE_def mask_lits bit_simps less_diff_conv2)
qed

end
