(* ===== verification/Spinlock.thy ===== *)
theory Spinlock
  imports Machine
begin

text \<open>
  \<^verbatim>\<open>spinlock.c\<close>: interrupt nesting (\<^verbatim>\<open>pushcli\<close>, \<^verbatim>\<open>popcli\<close>) and spin locks
  (\<^verbatim>\<open>initlock\<close>, \<^verbatim>\<open>acquire\<close>, \<^verbatim>\<open>release\<close>, \<^verbatim>\<open>holding\<close>,
  \<^verbatim>\<open>getcallerpcs\<close>) as code of one processor. Acquiring a lock that another processor
  holds never returns in this sequential view (\<open>Hang\<close>); the interleaving of several
  processors is the subject of theory \<open>Smp\<close>.

  The lemmas give the effect of a critical section: from a state in which the lock is free,
  \<^verbatim>\<open>acquire\<close> and \<^verbatim>\<open>release\<close> return, the lock ends free, and the interrupt nesting
  is back where it was. Later layers use them through the collection \<open>lock_simps\<close>.
\<close>

section \<open>Operations\<close>

definition initlock :: "lockid \<Rightarrow> string \<Rightarrow> ('a machine_scheme, unit) kop" where
  "initlock lk nm = modify (upd_lock lk (\<lambda>l. l\<lparr>lk_name := nm, locked := 0, lk_cpu := None\<rparr>))"

definition holding :: "lockid \<Rightarrow> ('a machine_scheme, bool) kop" where
  "holding lk = gets (\<lambda>s. locked (locks s lk) \<noteq> 0 \<and> lk_cpu (locks s lk) = Some (this_cpu s))"

definition pushcli :: "('a machine_scheme, unit) kop" where
  "pushcli =
    bnd readeflags (\<lambda>ef.
    thn cli (
    bnd (gets (\<lambda>s. ncli (my_cpu s))) (\<lambda>n.
    thn (modify (upd_cpu (\<lambda>c. c\<lparr>ncli := ncli c + 1\<rparr>))) (
    whenk (n = 0) (modify (upd_cpu (\<lambda>c. c\<lparr>intena := ef AND FL_IF\<rparr>)))))))"

definition popcli :: "('a machine_scheme, unit) kop" where
  "popcli =
    bnd readeflags (\<lambda>ef.
    if ef AND FL_IF \<noteq> 0 then panic ''popcli - interruptible''
    else thn (modify (upd_cpu (\<lambda>c. c\<lparr>ncli := ncli c - 1\<rparr>))) (
    bnd (gets my_cpu) (\<lambda>c.
    if ncli c < 0 then panic ''popcli''
    else whenk (ncli c = 0 \<and> intena c \<noteq> 0) sti)))"

text \<open>Following the \<^verbatim>\<open>%ebp\<close> chain: \<open>getcallerpcs_from m ebp n\<close> fills the last
  \<open>n\<close> entries of \<^verbatim>\<open>pcs\<close>.\<close>

primrec getcallerpcs_from :: "(u32 \<Rightarrow> u32) \<Rightarrow> u32 \<Rightarrow> nat \<Rightarrow> u32 list" where
  "getcallerpcs_from m ebp 0 = []"
| "getcallerpcs_from m ebp (Suc n) =
    (if ebp = 0 \<or> ebp < 0x100000 \<or> ebp = 0xffffffff then replicate (Suc n) 0
     else m (ebp + 4) # getcallerpcs_from m (m ebp) n)"

definition getcallerpcs :: "(u32 \<Rightarrow> u32) \<Rightarrow> u32 \<Rightarrow> u32 list" where
  "getcallerpcs m v = getcallerpcs_from m (v - 8) 10"

definition acquire :: "lockid \<Rightarrow> ('a machine_scheme, unit) kop" where
  "acquire lk =
    thn pushcli (
    bnd (holding lk) (\<lambda>h.
    if h then panic ''acquire''
    else bnd (xchg_locked lk 1) (\<lambda>old.
    if old \<noteq> 0 then hang
    else modify (\<lambda>s. upd_lock lk (\<lambda>l. l\<lparr>lk_cpu := Some (this_cpu s),
           pcs := getcallerpcs (stackmem s) (callframe s)\<rparr>) s))))"

definition release :: "lockid \<Rightarrow> ('a machine_scheme, unit) kop" where
  "release lk =
    bnd (holding lk) (\<lambda>h.
    if \<not> h then panic ''release''
    else thn (modify (upd_lock lk (\<lambda>l. l\<lparr>pcs := (pcs l)[0 := 0], lk_cpu := None\<rparr>))) (
    bnd (xchg_locked lk 0) (\<lambda>_. popcli)))"

section \<open>Effect of the operations\<close>

text \<open>The processor part of the state that lock operations rely on and restore: the nesting
  depth is not negative, and inside a critical section interrupts are off.\<close>

definition cli_ok :: "'a machine_scheme \<Rightarrow> bool" where
  "cli_ok s \<longleftrightarrow> 0 \<le> ncli (my_cpu s) \<and> (0 < ncli (my_cpu s) \<longrightarrow> eflags (my_cpu s) AND FL_IF = 0)"

definition lock_free :: "lockid \<Rightarrow> 'a machine_scheme \<Rightarrow> bool" where
  "lock_free lk s \<longleftrightarrow> locked (locks s lk) = 0 \<and> lk_cpu (locks s lk) = None"

definition lock_mine :: "lockid \<Rightarrow> 'a machine_scheme \<Rightarrow> bool" where
  "lock_mine lk s \<longleftrightarrow> locked (locks s lk) \<noteq> 0 \<and> lk_cpu (locks s lk) = Some (this_cpu s)"

text \<open>The state transformers of a successful \<^verbatim>\<open>acquire\<close> and \<^verbatim>\<open>release\<close>.\<close>

definition acq :: "lockid \<Rightarrow> 'a machine_scheme \<Rightarrow> 'a machine_scheme" where
  "acq lk s = s\<lparr>
     cpus := (cpus s)(this_cpu s := (my_cpu s)\<lparr>eflags := eflags (my_cpu s) AND NOT FL_IF,
       ncli := ncli (my_cpu s) + 1,
       intena := (if ncli (my_cpu s) = 0 then eflags (my_cpu s) AND FL_IF else intena (my_cpu s))\<rparr>),
     locks := (locks s)(lk := (locks s lk)\<lparr>locked := 1, lk_cpu := Some (this_cpu s),
       pcs := getcallerpcs (stackmem s) (callframe s)\<rparr>)\<rparr>"

definition rel :: "lockid \<Rightarrow> 'a machine_scheme \<Rightarrow> 'a machine_scheme" where
  "rel lk s = s\<lparr>
     locks := (locks s)(lk := (locks s lk)\<lparr>pcs := (pcs (locks s lk))[0 := 0], lk_cpu := None,
       locked := 0\<rparr>),
     cpus := (cpus s)(this_cpu s := (my_cpu s)\<lparr>ncli := ncli (my_cpu s) - 1,
       eflags := (if ncli (my_cpu s) = 1 \<and> intena (my_cpu s) \<noteq> 0
                  then eflags (my_cpu s) OR FL_IF else eflags (my_cpu s))\<rparr>)\<rparr>"

named_theorems lock_simps \<open>effect of acquire and release, and how they commute with selectors\<close>

lemma holding_eq [wp]: "wp (holding lk) Q s = Q (lock_mine lk s) s"
  by (simp add: holding_def wp lock_mine_def)

lemma acquire_eq:
  assumes "lock_free lk s"
  shows "acquire lk s = Ok () (acq lk s)"
  using assms
  by (simp add: acquire_def pushcli_def holding_def xchg_locked_def readeflags_def cli_def kop_defs
      acq_def lock_free_def upd_cpu_def upd_lock_def)

lemma acquire_held: "lock_mine lk s \<Longrightarrow> acquire lk s = Panic ''acquire''"
  by (simp add: acquire_def pushcli_def holding_def readeflags_def cli_def kop_defs lock_mine_def
      upd_cpu_def)

lemma acquire_contended:
  "locked (locks s lk) \<noteq> 0 \<Longrightarrow> \<not> lock_mine lk s \<Longrightarrow> acquire lk s = Hang"
  by (auto simp: acquire_def pushcli_def holding_def xchg_locked_def readeflags_def cli_def kop_defs
      lock_mine_def upd_cpu_def)

lemma release_eq:
  assumes "lock_mine lk s" "eflags (my_cpu s) AND FL_IF = 0" "0 < ncli (my_cpu s)"
  shows "release lk s = Ok () (rel lk s)"
  using assms
  by (auto simp: release_def popcli_def holding_def xchg_locked_def readeflags_def sti_def kop_defs
      rel_def lock_mine_def upd_cpu_def upd_lock_def)

lemma release_not_held: "\<not> lock_mine lk s \<Longrightarrow> release lk s = Panic ''release''"
  by (auto simp: release_def holding_def kop_defs lock_mine_def)

lemma wp_acquire [lock_simps]: "lock_free lk s \<Longrightarrow> wp (acquire lk) Q s = Q () (acq lk s)"
  by (simp add: wp_def acquire_eq)

lemma wp_acquire_thn: "lock_free lk s \<Longrightarrow> wp (thn (acquire lk) k) Q s = wp k Q (acq lk s)"
  by (simp add: wp_thn wp_acquire)

lemma wp_release [lock_simps]:
  "lock_mine lk s \<Longrightarrow> eflags (my_cpu s) AND FL_IF = 0 \<Longrightarrow> 0 < ncli (my_cpu s) \<Longrightarrow>
   wp (release lk) Q s = Q () (rel lk s)"
  by (simp add: wp_def release_eq)

section \<open>Framing\<close>

text \<open>What a lock operation leaves alone.\<close>

lemma acq_sel [simp]:
  "this_cpu (acq lk s) = this_cpu s"
  "stackmem (acq lk s) = stackmem s"
  "callframe (acq lk s) = callframe s"
  "machine.more (acq lk s) = machine.more s"
  by (simp_all add: acq_def)

lemma rel_sel [simp]:
  "this_cpu (rel lk s) = this_cpu s"
  "stackmem (rel lk s) = stackmem s"
  "callframe (rel lk s) = callframe s"
  "machine.more (rel lk s) = machine.more s"
  by (simp_all add: rel_def)

lemma acq_cpu [simp]:
  "c = this_cpu s \<Longrightarrow> ncli (cpus (acq lk s) c) = ncli (my_cpu s) + 1"
  "c = this_cpu s \<Longrightarrow> eflags (cpus (acq lk s) c) AND FL_IF = 0"
  "c = this_cpu s \<Longrightarrow> cproc (cpus (acq lk s) c) = cproc (my_cpu s)"
  by (simp_all add: acq_def)

lemma rel_cpu [simp]:
  "c = this_cpu s \<Longrightarrow> ncli (cpus (rel lk s) c) = ncli (my_cpu s) - 1"
  "c = this_cpu s \<Longrightarrow> cproc (cpus (rel lk s) c) = cproc (my_cpu s)"
  "c = this_cpu s \<Longrightarrow> ncli (my_cpu s) \<noteq> 1 \<Longrightarrow> eflags (cpus (rel lk s) c) = eflags (my_cpu s)"
  by (simp_all add: rel_def)

lemma acq_lock [simp]:
  "lock_mine lk (acq lk s)"
  "lk' \<noteq> lk \<Longrightarrow> locks (acq lk s) lk' = locks s lk'"
  by (simp_all add: acq_def lock_mine_def)

lemma rel_lock [simp]:
  "lock_free lk (rel lk s)"
  "lk' \<noteq> lk \<Longrightarrow> locks (rel lk s) lk' = locks s lk'"
  by (simp_all add: rel_def lock_free_def)

lemma lock_free_other [simp]:
  "lk' \<noteq> lk \<Longrightarrow> lock_free lk' (acq lk s) = lock_free lk' s"
  "lk' \<noteq> lk \<Longrightarrow> lock_free lk' (rel lk s) = lock_free lk' s"
  "lk' \<noteq> lk \<Longrightarrow> lock_mine lk' (acq lk s) = lock_mine lk' s"
  "lk' \<noteq> lk \<Longrightarrow> lock_mine lk' (rel lk s) = lock_mine lk' s"
  by (simp_all add: lock_free_def lock_mine_def)

lemma upd_cpu_lock [simp]:
  "this_cpu (upd_cpu f s) = this_cpu s" "c = this_cpu s \<Longrightarrow> cpus (upd_cpu f s) c = f (my_cpu s)"
  "locks (upd_cpu f s) = locks s" "lock_free lk (upd_cpu f s) = lock_free lk s"
  "lock_mine lk (upd_cpu f s) = lock_mine lk s"
  by (simp_all add: upd_cpu_def lock_free_def lock_mine_def)

text \<open>An acquire and release round: only the debugging record of the lock and the saved
  interrupt flag can differ afterwards.\<close>

definition lockround :: "lockid \<Rightarrow> 'a machine_scheme \<Rightarrow> 'a machine_scheme" where
  "lockround lk s = rel lk (acq lk s)"

lemma bit_FL_IF: "bit FL_IF n \<longleftrightarrow> n = 9"
proof -
  have eq: "FL_IF = 2 ^ 9" by (simp add: FL_IF_def)
  show ?thesis unfolding eq bit_exp_iff by auto
qed

lemma eflags_restored: "(e AND NOT FL_IF) OR FL_IF = e" if "e AND FL_IF \<noteq> 0"
proof -
  have 1: "e AND FL_IF = FL_IF"
  proof (rule bit_word_eqI)
    from that obtain m where "bit (e AND FL_IF) m" by (auto simp: bit_eq_iff)
    then have "bit e 9" by (auto simp: bit_and_iff bit_FL_IF)
    then show "bit (e AND FL_IF) n = bit FL_IF n" for n by (auto simp: bit_and_iff bit_FL_IF)
  qed
  have "(e AND NOT FL_IF) OR (e AND FL_IF) = e"
    by (simp add: bit_eq_iff bit_simps) blast
  with 1 show ?thesis by simp
qed

lemma eflags_unchanged: "e AND NOT FL_IF = e" if "e AND FL_IF = 0"
proof -
  have "(e AND NOT FL_IF) OR (e AND FL_IF) = e"
    by (simp add: bit_eq_iff bit_simps) blast
  with that show ?thesis by simp
qed

lemma lockround_cpu:
  assumes "cli_ok s"
  shows "ncli (cpus (lockround lk s) (this_cpu s)) = ncli (my_cpu s)"
    and "eflags (cpus (lockround lk s) (this_cpu s)) = eflags (my_cpu s)"
    and "cproc (cpus (lockround lk s) (this_cpu s)) = cproc (my_cpu s)"
  using assms
  by (auto simp: lockround_def acq_def rel_def cli_ok_def eflags_restored eflags_unchanged)

section \<open>Calm steps\<close>

text \<open>Most kernel operations leave the processors and the locks as they found them, apart from
  debugging records and the saved interrupt flag of an idle nesting: \<open>calm s t\<close>.\<close>

definition calm :: "'a machine_scheme \<Rightarrow> 'a machine_scheme \<Rightarrow> bool" where
  "calm s t \<longleftrightarrow>
     this_cpu t = this_cpu s \<and> stackmem t = stackmem s \<and> callframe t = callframe s
     \<and> (\<forall>lk. lock_free lk t = lock_free lk s \<and> lock_mine lk t = lock_mine lk s)
     \<and> (\<forall>i. i \<noteq> this_cpu s \<longrightarrow> cpus t i = cpus s i)
     \<and> (cpus t (this_cpu s))\<lparr>intena := 0\<rparr> = (my_cpu s)\<lparr>intena := 0\<rparr>
     \<and> (0 < ncli (my_cpu s) \<longrightarrow> intena (cpus t (this_cpu s)) = intena (my_cpu s))"

lemma cpu_but_intena:
  assumes "c\<lparr>intena := 0\<rparr> = d\<lparr>intena := 0\<rparr>"
  shows "ncli c = ncli d" "eflags c = eflags d" "cproc c = cproc d" "cr3 c = cr3 d"
  using assms by (cases c; cases d; simp)+

lemma calm_refl [intro]: "calm s s"
  by (simp add: calm_def)

lemma calm_cpu:
  assumes "calm s t"
  shows "this_cpu t = this_cpu s" "ncli (cpus t (this_cpu s)) = ncli (my_cpu s)"
    "eflags (cpus t (this_cpu s)) = eflags (my_cpu s)" "cproc (cpus t (this_cpu s)) = cproc (my_cpu s)"
    "cr3 (cpus t (this_cpu s)) = cr3 (my_cpu s)"
    "0 < ncli (my_cpu s) \<Longrightarrow> intena (cpus t (this_cpu s)) = intena (my_cpu s)"
proof -
  have c: "(cpus t (this_cpu s))\<lparr>intena := 0\<rparr> = (my_cpu s)\<lparr>intena := 0\<rparr>" and t: "this_cpu t = this_cpu s"
    using assms by (simp_all add: calm_def)
  from c show "ncli (cpus t (this_cpu s)) = ncli (my_cpu s)"
    "eflags (cpus t (this_cpu s)) = eflags (my_cpu s)" "cproc (cpus t (this_cpu s)) = cproc (my_cpu s)"
    "cr3 (cpus t (this_cpu s)) = cr3 (my_cpu s)" by (rule cpu_but_intena)+
  show "0 < ncli (my_cpu s) \<Longrightarrow> intena (cpus t (this_cpu s)) = intena (my_cpu s)"
    using assms t by (simp add: calm_def)
  from t show "this_cpu t = this_cpu s" .
qed

lemma calm_locks:
  assumes "calm s t"
  shows "lock_free lk t = lock_free lk s" "lock_mine lk t = lock_mine lk s"
  using assms by (simp_all add: calm_def)

lemma calm_trans:
  assumes "calm s t" "calm t u"
  shows "calm s u"
proof -
  have t: "this_cpu t = this_cpu s" "ncli (cpus t (this_cpu s)) = ncli (my_cpu s)"
    using calm_cpu [OF assms(1)] by simp_all
  show ?thesis using assms unfolding calm_def t by (clarsimp simp: t)
qed

lemma calm_cli_ok:
  assumes "calm s t"
  shows "cli_ok t = cli_ok s"
  by (simp add: cli_ok_def calm_cpu [OF assms])

lemma lock_mine_not_free: "lock_mine lk s \<Longrightarrow> \<not> lock_free lk s"
  by (simp add: lock_mine_def lock_free_def)

lemma cli_ok_pos [lock_simps]: "cli_ok s \<Longrightarrow> 0 \<le> ncli (my_cpu s)" "cli_ok s \<Longrightarrow> 0 < ncli (my_cpu s) + 1"
  by (simp_all add: cli_ok_def)

lemma lockround_fold [lock_simps]: "rel lk (acq lk s) = lockround lk s"
  by (simp add: lockround_def)

lemma lockround_sel [simp]:
  "this_cpu (lockround lk s) = this_cpu s" "stackmem (lockround lk s) = stackmem s"
  "callframe (lockround lk s) = callframe s" "machine.more (lockround lk s) = machine.more s"
  "c = this_cpu s \<Longrightarrow> cproc (cpus (lockround lk s) c) = cproc (my_cpu s)"
  by (simp_all add: lockround_def acq_def rel_def)

lemma lockround_calm:
  assumes "lock_free lk s" "cli_ok s"
  shows "calm s (lockround lk s)"
proof -
  have free: "lock_free l (lockround lk s) = lock_free l s" for l
    using assms(1) by (cases "l = lk") (simp_all add: lockround_def)
  have mine: "lock_mine l (lockround lk s) = lock_mine l s" for l
    using assms(1) lock_mine_not_free [of lk "lockround lk s"] lock_mine_not_free [of lk s] free [of lk]
    by (cases "l = lk") (auto simp: lockround_def)
  have c: "(my_cpu (lockround lk s))\<lparr>intena := 0\<rparr> = (my_cpu s)\<lparr>intena := 0\<rparr>"
    by (rule cpu.equality)
      (simp_all add: lockround_cpu [OF assms(2)], simp_all add: lockround_def acq_def rel_def)
  have o: "cpus (lockround lk s) i = cpus s i" if "i \<noteq> this_cpu s" for i
    using that by (simp add: lockround_def acq_def rel_def)
  have "intena (my_cpu (lockround lk s)) = intena (my_cpu s)" if "0 < ncli (my_cpu s)"
    using that by (simp add: lockround_def acq_def rel_def)
  with free mine c o show ?thesis unfolding calm_def by simp
qed

text \<open>The general form: any calm body between \<^verbatim>\<open>acquire\<close> and \<^verbatim>\<open>release\<close>.\<close>

lemma rel_eflags:
  assumes "cli_ok s" "ef = eflags (my_cpu s) AND NOT FL_IF"
    and "ie = (if ncli (my_cpu s) = 0 then eflags (my_cpu s) AND FL_IF else intena (my_cpu s))"
  shows "(if ncli (my_cpu s) + 1 = 1 \<and> ie \<noteq> 0 then ef OR FL_IF else ef) = eflags (my_cpu s)"
  using assms by (auto simp: cli_ok_def eflags_restored eflags_unchanged)

lemma calm_section:
  assumes c: "calm (acq lk s) t" and s: "lock_free lk s" "cli_ok s"
  shows "calm s (rel lk t)"
proof -
  let ?i = "this_cpu s"
  have t: "this_cpu t = ?i" "stackmem t = stackmem s" "callframe t = callframe s"
    using c by (simp_all add: calm_def)
  have l: "lock_free l t = lock_free l (acq lk s)" "lock_mine l t = lock_mine l (acq lk s)" for l
    using calm_locks [OF c] by simp_all
  have lk: "lock_free l (rel lk t) = lock_free l s" "lock_mine l (rel lk t) = lock_mine l s" for l
    using s(1) l [of l] lock_mine_not_free [of lk "rel lk t"] lock_mine_not_free [of lk s]
    by (cases "l = lk"; auto)+
  have cp: "(cpus t ?i)\<lparr>intena := 0\<rparr> = (cpus (acq lk s) ?i)\<lparr>intena := 0\<rparr>"
    using c by (simp add: calm_def)
  have n: "ncli (cpus t ?i) = ncli (my_cpu s) + 1" and ef: "eflags (cpus t ?i) = eflags (my_cpu s) AND NOT FL_IF"
    using cpu_but_intena(1,2) [OF cp] by (simp_all add: acq_def)
  have ie: "intena (cpus t ?i) = (if ncli (my_cpu s) = 0 then eflags (my_cpu s) AND FL_IF else intena (my_cpu s))"
    using c s(2) by (simp add: calm_def cli_ok_def) (simp add: acq_def)
  have "eflags (cpus (rel lk t) ?i) = eflags (my_cpu s)"
    using rel_eflags [OF s(2) ef ie] t(1) n by (auto simp: rel_def split: if_splits)
  moreover have "cpus (rel lk t) ?i = (cpus t ?i)\<lparr>ncli := ncli (my_cpu s), eflags := eflags (cpus (rel lk t) ?i)\<rparr>"
    using t(1) n by (simp add: rel_def)
  moreover have "(cpus t ?i)\<lparr>ncli := ncli (my_cpu s), eflags := eflags (my_cpu s), intena := 0\<rparr> = (my_cpu s)\<lparr>intena := 0\<rparr>"
    using arg_cong [OF cp, of "\<lambda>c. c\<lparr>ncli := ncli (my_cpu s), eflags := eflags (my_cpu s), intena := 0\<rparr>"]
    by (simp add: acq_def)
  ultimately have "(cpus (rel lk t) ?i)\<lparr>intena := 0\<rparr> = (my_cpu s)\<lparr>intena := 0\<rparr>"
    and "0 < ncli (my_cpu s) \<Longrightarrow> intena (cpus (rel lk t) ?i) = intena (my_cpu s)"
    using ie by simp_all
  moreover have "cpus (rel lk t) j = cpus s j" if "j \<noteq> ?i" for j
    using c that t(1) by (simp add: calm_def rel_def) (simp add: acq_def)
  ultimately show ?thesis unfolding calm_def using lk t by simp
qed

lemma wp_release_calm:
  assumes "calm (acq lk s) t" "cli_ok s"
  shows "wp (release lk) Q t = Q () (rel lk t)"
proof (rule wp_release)
  have t: "this_cpu t = this_cpu s" using calm_cpu(1) [OF assms(1)] by simp
  show "lock_mine lk t" using calm_locks(2) [OF assms(1)] by simp
  show "eflags (my_cpu t) AND FL_IF = 0" using calm_cpu(3) [OF assms(1)] t by simp
  show "0 < ncli (my_cpu t)" using calm_cpu(2) [OF assms(1)] t assms(2) by (simp add: cli_ok_def)
qed

lemma acq_cli_ok: "cli_ok s \<Longrightarrow> cli_ok (acq lk s)"
  by (simp add: cli_ok_def)

text \<open>A critical section whose body changes no processor or lock: \<^verbatim>\<open>acquire\<close>, an update,
  \<^verbatim>\<open>release\<close>.\<close>

lemma wp_release_acq:
  assumes "lock_free lk s" "cli_ok s"
    and "cpus t = cpus (acq lk s)" "this_cpu t = this_cpu s" "locks t = locks (acq lk s)"
  shows "wp (release lk) Q t = Q () (rel lk t)"
proof (rule wp_release)
  show "lock_mine lk t" using assms(4,5) acq_lock(1) [of lk s] by (simp add: lock_mine_def)
  show "eflags (my_cpu t) AND FL_IF = 0" using assms(3,4) by simp
  show "0 < ncli (my_cpu t)" using assms(2-4) by (simp add: cli_ok_def)
qed

end
