(* ===== verification/Smp.thy ===== *)
theory Smp
  imports Spinlock
begin

text \<open>
  Several processors running \<^verbatim>\<open>acquire\<close> and \<^verbatim>\<open>release\<close> of \<^verbatim>\<open>spinlock.c\<close> at
  the same time. Each processor's code is cut at the points where another processor can
  observe or change a lock: the nesting of interrupts, the \<^verbatim>\<open>holding\<close> test, each
  \<^verbatim>\<open>xchg\<close>, and the update of the owner field are separate steps, and the steps of
  different processors interleave freely. \<open>held\<close> records what the code of a processor may
  believe: the locks whose \<^verbatim>\<open>acquire\<close> has returned and whose \<^verbatim>\<open>release\<close> has not
  begun.

  Shown: two processors never hold the same lock, a held lock keeps the interrupts of its
  holder off, and a lock word that is set has an owner.
\<close>

section \<open>The interleaving\<close>

datatype lockpc =
    Running
  | AcqCheck lockid
  | AcqXchg lockid
  | AcqRecord lockid
  | RelXchg lockid
  | Panicked

record smp =
  mach :: machine
  pc :: "nat \<Rightarrow> lockpc"
  held :: "nat \<Rightarrow> lockid set"

definition on_cpu :: "nat \<Rightarrow> machine \<Rightarrow> machine" where
  "on_cpu c m = m\<lparr>this_cpu := c\<rparr>"

definition smp_init :: "smp \<Rightarrow> bool" where
  "smp_init s \<longleftrightarrow> (\<forall>c. pc s c = Running \<and> held s c = {} \<and> ncli (cpus (mach s) c) = 0) \<and>
     (\<forall>lk. locked (locks (mach s) lk) = 0 \<and> lk_cpu (locks (mach s) lk) = None)"

inductive smp_step :: "smp \<Rightarrow> smp \<Rightarrow> bool" where
  acq_start: "pc s c = Running \<Longrightarrow> pushcli (on_cpu c (mach s)) = Ok () m \<Longrightarrow>
    smp_step s (s\<lparr>mach := m, pc := (pc s)(c := AcqCheck lk)\<rparr>)"
| acq_check: "pc s c = AcqCheck lk \<Longrightarrow> holding lk (on_cpu c (mach s)) = Ok h m \<Longrightarrow>
    smp_step s (s\<lparr>pc := (pc s)(c := if h then Panicked else AcqXchg lk)\<rparr>)"
| acq_xchg: "pc s c = AcqXchg lk \<Longrightarrow> xchg_locked lk 1 (on_cpu c (mach s)) = Ok old m \<Longrightarrow>
    smp_step s (s\<lparr>mach := m, pc := (pc s)(c := if old \<noteq> 0 then AcqXchg lk else AcqRecord lk)\<rparr>)"
| acq_record: "pc s c = AcqRecord lk \<Longrightarrow>
    m = upd_lock lk (\<lambda>l. l\<lparr>lk_cpu := Some c, pcs := p\<rparr>) (on_cpu c (mach s)) \<Longrightarrow>
    smp_step s (s\<lparr>mach := m, pc := (pc s)(c := Running), held := (held s)(c := insert lk (held s c))\<rparr>)"
| rel_check: "pc s c = Running \<Longrightarrow> holding lk (on_cpu c (mach s)) = Ok h m \<Longrightarrow>
    smp_step s (if h then s\<lparr>mach := upd_lock lk (\<lambda>l. l\<lparr>pcs := (pcs l)[0 := 0], lk_cpu := None\<rparr>)
                               (on_cpu c (mach s)),
                     pc := (pc s)(c := RelXchg lk), held := (held s)(c := held s c - {lk})\<rparr>
                else s\<lparr>pc := (pc s)(c := Panicked)\<rparr>)"
| rel_xchg: "pc s c = RelXchg lk \<Longrightarrow> xchg_locked lk 0 (on_cpu c (mach s)) = Ok old m \<Longrightarrow>
    popcli m = Ok () m' \<Longrightarrow>
    smp_step s (s\<lparr>mach := m', pc := (pc s)(c := Running)\<rparr>)"

section \<open>The invariant\<close>

text \<open>A processor owns a lock from the moment its \<^verbatim>\<open>xchg\<close> wins it to the moment its
  releasing \<^verbatim>\<open>xchg\<close> writes 0.\<close>

definition owns :: "smp \<Rightarrow> nat \<Rightarrow> lockid \<Rightarrow> bool" where
  "owns s c lk \<longleftrightarrow> lk \<in> held s c \<or> pc s c = AcqRecord lk \<or> pc s c = RelXchg lk"

fun in_call :: "lockpc \<Rightarrow> bool" where
  "in_call Running = False"
| "in_call Panicked = False"
| "in_call _ = True"

definition own_inv :: "smp \<Rightarrow> bool" where
  "own_inv s \<longleftrightarrow>
    (\<forall>c lk. owns s c lk \<longrightarrow> locked (locks (mach s) lk) \<noteq> 0) \<and>
    (\<forall>c d lk. owns s c lk \<longrightarrow> owns s d lk \<longrightarrow> c = d) \<and>
    (\<forall>c lk. lk \<in> held s c \<longleftrightarrow> lk_cpu (locks (mach s) lk) = Some c) \<and>
    (\<forall>c lk. lk \<in> held s c \<longrightarrow> pc s c \<noteq> AcqRecord lk \<and> pc s c \<noteq> RelXchg lk) \<and>
    (\<forall>lk. locked (locks (mach s) lk) \<noteq> 0 \<longrightarrow> (\<exists>c. owns s c lk))"

definition cli_inv :: "smp \<Rightarrow> bool" where
  "cli_inv s \<longleftrightarrow>
    (\<forall>c. finite (held s c)) \<and>
    (\<forall>c. pc s c \<noteq> Panicked \<longrightarrow>
       ncli (cpus (mach s) c) = int (card (held s c)) + (if in_call (pc s c) then 1 else 0)) \<and>
    (\<forall>c. int (card (held s c)) \<le> ncli (cpus (mach s) c)) \<and>
    (\<forall>c. 0 < ncli (cpus (mach s) c) \<longrightarrow> eflags (cpus (mach s) c) AND FL_IF = 0)"

definition smp_inv :: "smp \<Rightarrow> bool" where
  "smp_inv s \<longleftrightarrow> own_inv s \<and> cli_inv s"

text \<open>The effects of the pieces on the machine.\<close>

lemma on_cpu_sel [simp]: "cpus (on_cpu c m) = cpus m" "locks (on_cpu c m) = locks m"
  "this_cpu (on_cpu c m) = c"
  by (simp_all add: on_cpu_def)

lemma pushcli_on: "pushcli (on_cpu c m) = Ok () m' \<Longrightarrow> locks m' = locks m \<and>
  cpus m' = (cpus m)(c := (cpus m c)\<lparr>eflags := eflags (cpus m c) AND NOT FL_IF,
     ncli := ncli (cpus m c) + 1,
     intena := (if ncli (cpus m c) = 0 then eflags (cpus m c) AND FL_IF else intena (cpus m c))\<rparr>)"
  by (auto simp: pushcli_def readeflags_def cli_def kop_defs upd_cpu_def)

lemma holding_on: "holding lk (on_cpu c m) = Ok h m' \<Longrightarrow>
  h = (locked (locks m lk) \<noteq> 0 \<and> lk_cpu (locks m lk) = Some c)"
  by (auto simp: holding_def kop_defs)

lemma xchg_on: "xchg_locked lk v (on_cpu c m) = Ok old m' \<Longrightarrow>
  old = locked (locks m lk) \<and> cpus m' = cpus m \<and> this_cpu m' = c \<and>
  locks m' = (locks m)(lk := (locks m lk)\<lparr>locked := v\<rparr>)"
  by (auto simp: xchg_locked_def kop_defs upd_lock_def)

lemma popcli_effect: "popcli m = Ok () m' \<Longrightarrow>
  eflags (my_cpu m) AND FL_IF = 0 \<and> 0 < ncli (my_cpu m) \<and> locks m' = locks m \<and>
  cpus m' = (cpus m)(this_cpu m := (my_cpu m)\<lparr>ncli := ncli (my_cpu m) - 1,
       eflags := (if ncli (my_cpu m) = 1 \<and> intena (my_cpu m) \<noteq> 0
                  then eflags (my_cpu m) OR FL_IF else eflags (my_cpu m))\<rparr>)"
  by (auto simp: popcli_def readeflags_def sti_def kop_defs upd_cpu_def split: if_splits)

lemma smp_inv_init: "smp_init s \<Longrightarrow> smp_inv s"
  by (simp add: smp_init_def smp_inv_def own_inv_def cli_inv_def owns_def)

text \<open>Ownership after a step, by the kind of step.\<close>

lemma owns_unchanged:
  assumes "held t = held s" "pc t = (pc s)(c := p)"
    and "\<And>lk. pc s c \<noteq> AcqRecord lk \<and> pc s c \<noteq> RelXchg lk"
    and "\<And>lk. p \<noteq> AcqRecord lk \<and> p \<noteq> RelXchg lk"
  shows "owns t d lk = owns s d lk"
  using assms by (auto simp: owns_def)

lemma own_inv_cong:
  assumes "own_inv s" "\<And>d l. owns t d l = owns s d l" "locks (mach t) = locks (mach s)"
    "held t = held s" "\<And>d l. l \<in> held s d \<Longrightarrow> pc t d \<noteq> AcqRecord l \<and> pc t d \<noteq> RelXchg l"
  shows "own_inv t"
  using assms unfolding own_inv_def by simp

lemma own_inv_step: "smp_step s t \<Longrightarrow> own_inv s \<Longrightarrow> own_inv t"
proof (induction rule: smp_step.induct)
  case (acq_start s c m lk)
  let ?t = "s\<lparr>mach := m, pc := (pc s)(c := AcqCheck lk)\<rparr>"
  show ?case
  proof (rule own_inv_cong [OF acq_start.prems])
    show "owns ?t d l = owns s d l" for d l
      by (rule owns_unchanged [of _ _ c "AcqCheck lk"]) (use acq_start in auto)
    show "locks (mach ?t) = locks (mach s)" using acq_start.hyps(2) by (auto dest: pushcli_on)
  qed (use acq_start in \<open>auto simp: own_inv_def\<close>)
next
  case (acq_check s c lk h m)
  let ?t = "s\<lparr>pc := (pc s)(c := if h then Panicked else AcqXchg lk)\<rparr>"
  show ?case
  proof (rule own_inv_cong [OF acq_check.prems])
    show "owns ?t d l = owns s d l" for d l
      by (rule owns_unchanged [of _ _ c "if h then Panicked else AcqXchg lk"]) (use acq_check in auto)
  qed (use acq_check in \<open>auto simp: own_inv_def\<close>)
next
  case (acq_xchg s c lk old m)
  let ?t = "s\<lparr>mach := m, pc := (pc s)(c := if old \<noteq> 0 then AcqXchg lk else AcqRecord lk)\<rparr>"
  note x = xchg_on [OF acq_xchg.hyps(2)]
  have free: "\<not> owns s d lk" if "old = 0" for d
    using acq_xchg.prems x that by (auto simp: own_inv_def)
  have own: "owns ?t d l \<longleftrightarrow> owns s d l \<or> (old = 0 \<and> d = c \<and> l = lk)" for d l
    using acq_xchg.hyps(1) by (auto simp: owns_def)
  have lck: "locked (locks m l) \<noteq> 0 \<longleftrightarrow> locked (locks (mach s) l) \<noteq> 0 \<or> l = lk"
    and lcpu: "lk_cpu (locks m l) = lk_cpu (locks (mach s) l)" for l
    using x by auto
  have held: "l \<in> held s d \<Longrightarrow> old = 0 \<Longrightarrow> l \<noteq> lk" for l d
    using free by (auto simp: owns_def)
  show ?case
  proof (cases "old = 0")
    case True
    then have nh: "lk \<notin> held s d" for d using held by blast
    note inv = acq_xchg.prems [unfolded own_inv_def]
    show ?thesis
      unfolding own_inv_def own
    proof (intro conjI allI impI)
      fix d e l
      show "locked (locks (mach ?t) l) \<noteq> 0" if "owns s d l \<or> old = 0 \<and> d = c \<and> l = lk"
        using that inv lck by auto
      show "d = e" if "owns s d l \<or> old = 0 \<and> d = c \<and> l = lk" "owns s e l \<or> old = 0 \<and> e = c \<and> l = lk"
        using that inv free True by blast
      show "l \<in> held ?t d \<longleftrightarrow> lk_cpu (locks (mach ?t) l) = Some d"
        using inv lcpu by simp
      show "pc ?t d \<noteq> AcqRecord l" "pc ?t d \<noteq> RelXchg l" if "l \<in> held ?t d"
        using that inv nh by auto
      show "\<exists>d. owns s d l \<or> old = 0 \<and> d = c \<and> l = lk" if "locked (locks (mach ?t) l) \<noteq> 0"
        using that inv lck True by auto
    qed
  next
    case False
    then show ?thesis
      unfolding own_inv_def own using acq_xchg.prems lck lcpu x
      unfolding own_inv_def by auto
  qed
next
  case (acq_record s c lk m p)
  let ?t = "s\<lparr>mach := m, pc := (pc s)(c := Running), held := (held s)(c := insert lk (held s c))\<rparr>"
  have own: "owns ?t d l \<longleftrightarrow> owns s d l" for d l
    using acq_record.hyps(1) by (auto simp: owns_def)
  have others: "lk \<notin> held s d" for d
    using acq_record.prems acq_record.hyps(1) unfolding own_inv_def owns_def by blast
  show ?case
    unfolding own_inv_def own using acq_record others
    unfolding own_inv_def by (auto split: if_splits)
next
  case (rel_check s c lk h m)
  note hold = holding_on [OF rel_check.hyps(2)]
  show ?case
  proof (cases h)
    case True
    let ?t = "s\<lparr>mach := upd_lock lk (\<lambda>l. l\<lparr>pcs := (pcs l)[0 := 0], lk_cpu := None\<rparr>) (on_cpu c (mach s)),
                     pc := (pc s)(c := RelXchg lk), held := (held s)(c := held s c - {lk})\<rparr>"
    have mine: "lk \<in> held s c" using rel_check.prems hold True by (simp add: own_inv_def)
    have own: "owns ?t d l \<longleftrightarrow> owns s d l" for d l
      using rel_check.hyps(1) mine by (auto simp: owns_def)
    note inv = rel_check.prems [unfolded own_inv_def]
    have "own_inv ?t"
      unfolding own_inv_def own
    proof (intro conjI allI impI)
      fix d e l
      show "locked (locks (mach ?t) l) \<noteq> 0" if "owns s d l" using that inv by auto
      show "d = e" if "owns s d l" "owns s e l" using that inv by blast
      have "l = lk \<Longrightarrow> l \<in> held s d \<Longrightarrow> d = c" using inv mine unfolding owns_def by blast
      then show "l \<in> held ?t d \<longleftrightarrow> lk_cpu (locks (mach ?t) l) = Some d"
        using inv by auto
      show "pc ?t d \<noteq> AcqRecord l" "pc ?t d \<noteq> RelXchg l" if "l \<in> held ?t d"
        using that inv by (auto split: if_splits)
      show "\<exists>d. owns s d l" if "locked (locks (mach ?t) l) \<noteq> 0"
        using that inv by (auto split: if_splits)
    qed
    with True show ?thesis by simp
  next
    case False
    let ?t = "s\<lparr>pc := (pc s)(c := Panicked)\<rparr>"
    have "own_inv ?t"
    proof (rule own_inv_cong [OF rel_check.prems])
      show "owns ?t d l = owns s d l" for d l
        by (rule owns_unchanged [of _ _ c Panicked]) (use rel_check in auto)
    qed (use rel_check in \<open>auto simp: own_inv_def\<close>)
    with False show ?thesis by simp
  qed
next
  case (rel_xchg s c lk old m m')
  let ?t = "s\<lparr>mach := m', pc := (pc s)(c := Running)\<rparr>"
  note x = xchg_on [OF rel_xchg.hyps(2)]
  have lks: "locks m' = locks m" using popcli_effect [OF rel_xchg.hyps(3)] by simp
  have "owns s c lk" using rel_xchg.hyps(1) by (simp add: owns_def)
  then have only: "owns s d lk \<longleftrightarrow> d = c" for d
    using rel_xchg.prems unfolding own_inv_def by blast
  have nh: "lk \<notin> held s d" for d
    using only rel_xchg.prems rel_xchg.hyps(1) unfolding own_inv_def owns_def by blast
  have own: "owns ?t d l \<longleftrightarrow> owns s d l \<and> l \<noteq> lk" for d l
    using rel_xchg.hyps(1) nh only by (auto simp: owns_def)
  note inv = rel_xchg.prems [unfolded own_inv_def]
  show ?case
    unfolding own_inv_def own
  proof (intro conjI allI impI)
    fix d e l
    show "locked (locks (mach ?t) l) \<noteq> 0" if "owns s d l \<and> l \<noteq> lk" using that inv x lks by auto
    show "d = e" if "owns s d l \<and> l \<noteq> lk" "owns s e l \<and> l \<noteq> lk" using that inv by blast
    show "l \<in> held ?t d \<longleftrightarrow> lk_cpu (locks (mach ?t) l) = Some d"
      using inv x lks by auto
    show "pc ?t d \<noteq> AcqRecord l" "pc ?t d \<noteq> RelXchg l" if "l \<in> held ?t d"
      using that inv by auto
    show "\<exists>d. owns s d l \<and> l \<noteq> lk" if "locked (locks (mach ?t) l) \<noteq> 0"
      using that inv x lks by (auto split: if_splits)
  qed
qed

lemma cli_inv_step: "smp_step s t \<Longrightarrow> own_inv s \<Longrightarrow> cli_inv s \<Longrightarrow> cli_inv t"
proof (induction rule: smp_step.induct)
  case (acq_start s c m lk)
  then show ?case using pushcli_on [OF acq_start.hyps(2)] by (auto simp: cli_inv_def)
next
  case (acq_check s c lk h m)
  then show ?case by (auto simp: cli_inv_def)
next
  case (acq_xchg s c lk old m)
  then show ?case using xchg_on [OF acq_xchg.hyps(2)] by (auto simp: cli_inv_def)
next
  case (acq_record s c lk m p)
  then have "lk \<notin> held s c" by (auto simp: own_inv_def)
  with acq_record show ?case by (auto simp: cli_inv_def)
next
  case (rel_check s c lk h m)
  have "h \<longrightarrow> lk \<in> held s c"
    using holding_on [OF rel_check.hyps(2)] rel_check.prems(1) by (simp add: own_inv_def)
  moreover have "h \<longrightarrow> 0 < card (held s c)"
    using calculation rel_check.prems(2) by (auto simp: cli_inv_def card_gt_0_iff)
  ultimately show ?case using rel_check by (auto simp: cli_inv_def card_Diff_singleton of_nat_diff)
next
  case (rel_xchg s c lk old m m')
  then show ?case using xchg_on [OF rel_xchg.hyps(2)] popcli_effect [OF rel_xchg.hyps(3)]
    by (auto simp: cli_inv_def)
qed

lemma smp_inv_step: "smp_inv s \<Longrightarrow> smp_step s t \<Longrightarrow> smp_inv t"
  by (simp add: smp_inv_def own_inv_step cli_inv_step)

interpretation smp_sys: step_invariant smp_init smp_step smp_inv
  by unfold_locales (auto intro: smp_inv_init smp_inv_step)

section \<open>Properties\<close>

text \<open>C1. Mutual exclusion: in every state that any number of processors can reach by running
  \<^verbatim>\<open>acquire\<close> and \<^verbatim>\<open>release\<close> interleaved in any order, two processors never hold
  the same lock at once, and the interrupts of a processor that holds a lock are off.\<close>

theorem acquire_mutual_exclusion:
  assumes "smp_init s" "smp_step\<^sup>*\<^sup>* s t" "lk \<in> held t c"
  shows "(lk \<in> held t d \<longrightarrow> c = d) \<and> eflags (cpus (mach t) c) AND FL_IF = 0"
proof -
  have inv: "smp_inv t" using assms(1,2) by (rule smp_sys.reachable_inv)
  then have "lk \<in> held t d \<Longrightarrow> c = d"
    using assms(3) unfolding smp_inv_def own_inv_def owns_def by blast
  moreover have "0 < card (held t c)"
    using inv assms(3) by (auto simp: smp_inv_def cli_inv_def card_gt_0_iff)
  then have "0 < ncli (cpus (mach t) c)"
    using inv unfolding smp_inv_def cli_inv_def by (metis of_nat_0_less_iff order_less_le_trans)
  then have "eflags (cpus (mach t) c) AND FL_IF = 0"
    using inv by (simp add: smp_inv_def cli_inv_def)
  ultimately show ?thesis by blast
qed

definition smp0 :: smp where
  "smp0 = \<lparr>mach = machine_boot (), pc = (\<lambda>_. Running), held = (\<lambda>_. {})\<rparr>"

text \<open>From a free lock a processor gets through all steps of \<^verbatim>\<open>acquire\<close>.\<close>

lemma smp_acquire_runs:
  assumes "pc s c = Running" "locked (locks (mach s) lk) = 0" "ncli (cpus (mach s) c) = 0"
  shows "\<exists>t. smp_step\<^sup>*\<^sup>* s t \<and> lk \<in> held t c"
proof -
  obtain m1 where m1: "pushcli (on_cpu c (mach s)) = Ok () m1"
    using assms(3) by (simp add: pushcli_def readeflags_def cli_def kop_defs upd_cpu_def)
  let ?s1 = "s\<lparr>mach := m1, pc := (pc s)(c := AcqCheck lk)\<rparr>"
  have 1: "smp_step s ?s1" by (rule smp_step.acq_start [OF assms(1) m1])
  have "holding lk (on_cpu c (mach ?s1)) = Ok False (on_cpu c m1)"
    using assms(2) pushcli_on [OF m1] by (simp add: holding_def kop_defs)
  then have 2: "smp_step ?s1 (?s1\<lparr>pc := (pc ?s1)(c := if False then Panicked else AcqXchg lk)\<rparr>)"
    by (intro smp_step.acq_check) simp_all
  let ?s2 = "?s1\<lparr>pc := (pc ?s1)(c := if False then Panicked else AcqXchg lk)\<rparr>"
  obtain m3 where m3: "xchg_locked lk 1 (on_cpu c (mach ?s2)) = Ok 0 m3"
    using assms(2) pushcli_on [OF m1] by (simp add: xchg_locked_def kop_defs)
  let ?s3 = "?s2\<lparr>mach := m3, pc := (pc ?s2)(c := if (0 :: u32) \<noteq> 0 then AcqXchg lk else AcqRecord lk)\<rparr>"
  have 3: "smp_step ?s2 ?s3" by (rule smp_step.acq_xchg [OF _ m3]) simp
  let ?m4 = "upd_lock lk (\<lambda>l. l\<lparr>lk_cpu := Some c, pcs := []\<rparr>) (on_cpu c (mach ?s3))"
  let ?s4 = "?s3\<lparr>mach := ?m4, pc := (pc ?s3)(c := Running), held := (held ?s3)(c := insert lk (held ?s3 c))\<rparr>"
  have 4: "smp_step ?s3 ?s4" by (rule smp_step.acq_record) simp_all
  have "smp_step\<^sup>*\<^sup>* s ?s4"
    by (rule converse_rtranclp_into_rtranclp, rule 1, rule converse_rtranclp_into_rtranclp, rule 2,
        rule converse_rtranclp_into_rtranclp, rule 3, rule r_into_rtranclp, rule 4)
  moreover have "lk \<in> held ?s4 c" by simp
  ultimately show ?thesis by blast
qed

theorem acquire_mutual_exclusion_witness:
  "\<exists>t. smp_init smp0 \<and> smp_step\<^sup>*\<^sup>* smp0 t \<and> KmemLock \<in> held t 0 \<and>
     KmemLock \<notin> held t 1 \<and> eflags (cpus (mach t) 0) AND FL_IF = 0"
proof -
  have init: "smp_init smp0" by (simp add: smp_init_def smp0_def machine_boot_def cpu_boot_def)
  obtain t where t: "smp_step\<^sup>*\<^sup>* smp0 t" "KmemLock \<in> held t 0"
    using smp_acquire_runs [of smp0 0 KmemLock] by (auto simp: smp0_def machine_boot_def cpu_boot_def)
  show ?thesis using init t acquire_mutual_exclusion [OF init t, of 1] by auto
qed

end
