(* ===== verification/Ring.thy ===== *)
theory Ring
  imports Prelude
begin

text \<open>
  Bounded byte queues kept in an array with free-running 32-bit counters, as \<^verbatim>\<open>pipe.c\<close> and
  the input buffer of \<^verbatim>\<open>console.c\<close> have them, and the interface \<open>fifo\<close> through which
  their operations use them: the counters wrap around, the array index is taken modulo its size, and
  the contents behave like a list.
\<close>

section \<open>The interface\<close>

text \<open>\<open>room\<close> is what can still be added; a full queue is one with no room.\<close>

locale fifo =
  fixes ok :: "'q \<Rightarrow> bool"
    and contents :: "'q \<Rightarrow> u8 list"
    and cap :: nat
    and put :: "u8 \<Rightarrow> 'q \<Rightarrow> 'q"
    and front :: "'q \<Rightarrow> u8"
    and pop :: "'q \<Rightarrow> 'q"
  assumes bound: "ok q \<Longrightarrow> length (contents q) \<le> cap"
    and put_ok: "ok q \<Longrightarrow> length (contents q) < cap \<Longrightarrow> ok (put c q)"
    and put_contents: "ok q \<Longrightarrow> length (contents q) < cap \<Longrightarrow> contents (put c q) = contents q @ [c]"
    and pop_ok: "ok q \<Longrightarrow> contents q \<noteq> [] \<Longrightarrow> ok (pop q)"
    and pop_contents: "ok q \<Longrightarrow> contents q \<noteq> [] \<Longrightarrow> contents q = front q # contents (pop q)"
begin

lemma puts:
  assumes "ok q" "length (contents q) + length cs \<le> cap"
  shows "ok (fold put cs q) \<and> contents (fold put cs q) = contents q @ cs"
  using assms by (induction cs arbitrary: q) (simp_all add: put_ok put_contents)

lemma pops:
  assumes "ok q" "k \<le> length (contents q)"
  shows "ok ((pop ^^ k) q) \<and> contents ((pop ^^ k) q) = drop k (contents q)"
  using assms
proof (induction k)
  case (Suc k)
  let ?r = "(pop ^^ k) q"
  have r: "ok ?r" "contents ?r = drop k (contents q)" using Suc by simp_all
  then have ne: "contents ?r \<noteq> []" using Suc.prems by simp
  have "contents (pop ?r) = drop (Suc k) (contents q)"
    using pop_contents [OF r(1) ne] r(2) by (metis drop_Suc list.sel(3) tl_drop)
  with pop_ok [OF r(1) ne] show ?case by simp
qed simp

lemma front_nth:
  assumes "ok q" "k < length (contents q)"
  shows "front ((pop ^^ k) q) = contents q ! k"
proof -
  have r: "ok ((pop ^^ k) q)" "contents ((pop ^^ k) q) = drop k (contents q)" using pops [of q k] assms by simp_all
  with assms(2) pop_contents [OF r(1)] show ?thesis by (metis Cons_nth_drop_Suc list.inject list.simps(3))
qed

end

section \<open>Free-running counters\<close>

definition ring_contents :: "nat \<Rightarrow> u8 list \<Rightarrow> u32 \<Rightarrow> u32 \<Rightarrow> u8 list" where
  "ring_contents N d r w = map (\<lambda>k. d ! (unat (r + of_nat k) mod N)) [0..<unat (w - r)]"

definition ring_ok :: "nat \<Rightarrow> u8 list \<Rightarrow> u32 \<Rightarrow> u32 \<Rightarrow> bool" where
  "ring_ok N d r w \<longleftrightarrow> length d = N \<and> unat (w - r) \<le> N"

lemma length_ring_contents [simp]: "length (ring_contents N d r w) = unat (w - r)"
  by (simp add: ring_contents_def)

lemma ring_empty: "ring_contents N d r w = [] \<longleftrightarrow> w = r"
  by (simp add: ring_contents_def unat_eq_0)

text \<open>Wrap-around of the counters does not show in the array index, because the size of the array
  divides \<open>2 ^ 32\<close>.\<close>

lemma ring_index:
  assumes "N dvd 2 ^ 32"
  shows "unat (r + of_nat k :: u32) mod N = (unat r + k) mod N"
proof -
  have "unat (r + of_nat k :: u32) = (unat r + k) mod 2 ^ 32"
    by (simp add: unat_word_ariths unat_of_nat mod_add_right_eq)
  then show ?thesis using assms by (simp add: mod_mod_cancel)
qed

lemma ring_put:
  assumes N: "N dvd 2 ^ 32" "N < 2 ^ 32" and l: "length d = N" and w: "unat (w - r) < N"
  shows "ring_contents N (d[unat w mod N := c]) r (w + 1) = ring_contents N d r w @ [c]"
proof -
  let ?n = "unat (w - r)"
  have wr: "w = r + of_nat ?n" by simp
  have N0: "0 < N" using w by simp
  have "unat (w + 1 - r) = Suc ?n"
    using w N(2) unat_add_lt [of "w - r" 1] by (simp add: algebra_simps)
  moreover have ix: "unat w mod N = (unat r + ?n) mod N" using ring_index [OF N(1), of r ?n] wr by simp
  moreover have "(unat r + ?n) mod N \<noteq> (unat r + k) mod N" if "k < ?n" for k
  proof
    assume "(unat r + ?n) mod N = (unat r + k) mod N"
    then have "N dvd ?n - k" using that mod_eq_dvd_iff_nat [of "unat r + k" "unat r + ?n" N] by simp
    then show False using that w by (simp add: dvd_imp_le nat_dvd_not_less)
  qed
  ultimately show ?thesis using l N0
    by (simp add: ring_contents_def ring_index [OF N(1)] nth_list_update_neq del: unat_of_nat)
qed

lemma ring_pop:
  assumes "w \<noteq> r"
  shows "ring_contents N d r w = d ! (unat r mod N) # ring_contents N d (r + 1) w"
    "unat (w - (r + 1)) = unat (w - r) - 1"
proof -
  have "0 < unat (w - r)" using assms by (simp add: unat_gt_0)
  then obtain n where n: "unat (w - r) = Suc n" by (cases "unat (w - r)") auto
  then have m: "unat (w - (r + 1)) = n"
    using unat_sub_if_size [of "w - r" 1] by (simp add: algebra_simps word_size split: if_splits)
  have "[0..<Suc n] = 0 # map Suc [0..<n]" by (simp add: map_Suc_upt upt_conv_Cons)
  then show "ring_contents N d r w = d ! (unat r mod N) # ring_contents N d (r + 1) w"
    unfolding ring_contents_def n m by (simp add: comp_def add.assoc)
  show "unat (w - (r + 1)) = unat (w - r) - 1" using n m by simp
qed

text \<open>Taking back the byte put last.\<close>

lemma ring_unput:
  assumes "w \<noteq> r"
  shows "ring_contents N d r (w - 1) = butlast (ring_contents N d r w)"
    "last (ring_contents N d r w) = d ! (unat (w - 1) mod N)"
    "unat (w - 1 - r) = unat (w - r) - 1"
proof -
  have "0 < unat (w - r)" using assms by (simp add: unat_gt_0)
  then obtain n where n: "unat (w - r) = Suc n" by (cases "unat (w - r)") auto
  then have m: "unat (w - 1 - r) = n"
    using unat_sub_if_size [of "w - r" 1] by (simp add: algebra_simps word_size split: if_splits)
  have "w - 1 = r + of_nat n" by (simp add: m [symmetric])
  with n m show "ring_contents N d r (w - 1) = butlast (ring_contents N d r w)"
    "last (ring_contents N d r w) = d ! (unat (w - 1) mod N)"
    by (simp_all add: ring_contents_def)
  show "unat (w - 1 - r) = unat (w - r) - 1" using n m by simp
qed

text \<open>The test for a full ring.\<close>

lemma ring_full:
  assumes "N < 2 ^ 32"
  shows "w = r + of_nat N \<longleftrightarrow> unat (w - r :: u32) = N"
proof -
  have "w = r + of_nat N \<longleftrightarrow> w - r = of_nat N" by (auto simp: algebra_simps)
  also have "\<dots> \<longleftrightarrow> unat (w - r) = N"
    unfolding word_unat_eq_iff using assms by (simp add: unat_of_nat take_bit_nat_eq_self)
  finally show ?thesis .
qed

end
