(* ===== verification/Strings.thy ===== *)
theory Strings
  imports Machine
begin

text \<open>
  The memory and string routines of \<^verbatim>\<open>string.c\<close> (kernel) and \<^verbatim>\<open>ulib.c\<close> (user
  library).

  The block routines \<^verbatim>\<open>memset\<close>, \<^verbatim>\<open>memmove\<close> and \<^verbatim>\<open>memcmp\<close> work on memory, a map
  from 32-bit addresses to bytes, one byte per round of the C loop. The string routines work
  on the bytes of an object from the pointer to the end of that object, as a list; reading or
  writing past the end of the list is \<open>None\<close>.

  Shown: \<^verbatim>\<open>memmove\<close> copies the old contents of the source whatever the overlap,
  \<^verbatim>\<open>strncpy\<close> and \<^verbatim>\<open>safestrcpy\<close> fill exactly the destination they were given, and
  the comparisons answer 0 exactly on equal strings.
\<close>

type_synonym mem = "u32 \<Rightarrow> u8"

section \<open>Blocks of memory\<close>

text \<open>\<^verbatim>\<open>rep stosb\<close>: \<open>n\<close> bytes from \<open>dst\<close> on.\<close>

primrec stosb :: "mem \<Rightarrow> u32 \<Rightarrow> u8 \<Rightarrow> nat \<Rightarrow> mem" where
  "stosb m dst c 0 = m"
| "stosb m dst c (Suc n) = stosb (m(dst := c)) (dst + 1) c n"

definition memset :: "mem \<Rightarrow> u32 \<Rightarrow> u8 \<Rightarrow> u32 \<Rightarrow> mem" where
  "memset m dst c n = stosb m dst c (unat n)"

primrec copy_forward :: "mem \<Rightarrow> u32 \<Rightarrow> u32 \<Rightarrow> nat \<Rightarrow> mem" where
  "copy_forward m d s 0 = m"
| "copy_forward m d s (Suc n) = copy_forward (m(d := m s)) (d + 1) (s + 1) n"

primrec copy_backward :: "mem \<Rightarrow> u32 \<Rightarrow> u32 \<Rightarrow> nat \<Rightarrow> mem" where
  "copy_backward m d s 0 = m"
| "copy_backward m d s (Suc n) = copy_backward (m(d - 1 := m (s - 1))) (d - 1) (s - 1) n"

definition memmove :: "mem \<Rightarrow> u32 \<Rightarrow> u32 \<Rightarrow> u32 \<Rightarrow> mem" where
  "memmove m dst src n =
    (if src < dst \<and> src + n > dst
     then copy_backward m (dst + n) (src + n) (unat n)
     else copy_forward m dst src (unat n))"

definition memcpy :: "mem \<Rightarrow> u32 \<Rightarrow> u32 \<Rightarrow> u32 \<Rightarrow> mem" where
  "memcpy m dst src n = memmove m dst src n"

primrec memcmp_loop :: "mem \<Rightarrow> u32 \<Rightarrow> u32 \<Rightarrow> nat \<Rightarrow> int" where
  "memcmp_loop m s1 s2 0 = 0"
| "memcmp_loop m s1 s2 (Suc n) =
    (if m s1 \<noteq> m s2 then uint (m s1) - uint (m s2) else memcmp_loop m (s1 + 1) (s2 + 1) n)"

definition memcmp :: "mem \<Rightarrow> u32 \<Rightarrow> u32 \<Rightarrow> u32 \<Rightarrow> int" where
  "memcmp m v1 v2 n = memcmp_loop m v1 v2 (unat n)"

section \<open>Strings\<close>

fun strlen :: "u8 list \<Rightarrow> nat option" where
  "strlen [] = None"
| "strlen (c # s) = (if c = 0 then Some 0 else map_option Suc (strlen s))"

fun strncmp :: "u8 list \<Rightarrow> u8 list \<Rightarrow> nat \<Rightarrow> int option" where
  "strncmp p q 0 = Some 0"
| "strncmp (a # p) (b # q) (Suc n) =
    (if a \<noteq> 0 \<and> a = b then strncmp p q n else Some (uint a - uint b))"
| "strncmp _ _ (Suc n) = None"

fun zero_fill :: "u8 list \<Rightarrow> nat \<Rightarrow> u8 list option" where
  "zero_fill s 0 = Some s"
| "zero_fill (d # s) (Suc n) = map_option (Cons 0) (zero_fill s n)"
| "zero_fill [] (Suc n) = None"

fun strncpy :: "u8 list \<Rightarrow> u8 list \<Rightarrow> nat \<Rightarrow> u8 list option" where
  "strncpy s t 0 = Some s"
| "strncpy (d # s) (c # t) (Suc n) =
    map_option (Cons c) (if c \<noteq> 0 then strncpy s t n else zero_fill s n)"
| "strncpy _ _ (Suc n) = None"

text \<open>\<open>n\<close> counts the bytes that may still be written; the last one is the NUL.\<close>

fun safestrcpy_loop :: "u8 list \<Rightarrow> u8 list \<Rightarrow> nat \<Rightarrow> u8 list option" where
  "safestrcpy_loop (d # s) t 0 = Some (0 # s)"
| "safestrcpy_loop (d # s) (c # t) (Suc n) =
    map_option (Cons c) (if c \<noteq> 0 then safestrcpy_loop s t n
                         else case s of [] \<Rightarrow> None | _ # s' \<Rightarrow> Some (0 # s'))"
| "safestrcpy_loop _ _ _ = None"

definition safestrcpy :: "u8 list \<Rightarrow> u8 list \<Rightarrow> nat \<Rightarrow> u8 list option" where
  "safestrcpy s t n = (if n = 0 then Some s else safestrcpy_loop s t (n - 1))"

text \<open>The user library.\<close>

fun strcpy :: "u8 list \<Rightarrow> u8 list \<Rightarrow> u8 list option" where
  "strcpy (d # s) (c # t) = map_option (Cons c) (if c \<noteq> 0 then strcpy s t else Some s)"
| "strcpy _ _ = None"

fun strcmp :: "u8 list \<Rightarrow> u8 list \<Rightarrow> int option" where
  "strcmp (a # p) (b # q) = (if a \<noteq> 0 \<and> a = b then strcmp p q else Some (uint a - uint b))"
| "strcmp _ _ = None"

text \<open>\<^verbatim>\<open>strchr\<close> answers a pointer: here the offset of the character found, or
  \<open>Some None\<close> for the null pointer.\<close>

fun strchr :: "u8 list \<Rightarrow> u8 \<Rightarrow> nat option option" where
  "strchr [] c = None"
| "strchr (a # s) c =
    (if a = 0 then Some None else if a = c then Some (Some 0)
     else map_option (map_option Suc) (strchr s c))"

fun atoi_loop :: "int \<Rightarrow> u8 list \<Rightarrow> int option" where
  "atoi_loop n [] = None"
| "atoi_loop n (c # s) =
    (if 48 \<le> c \<and> c \<le> 57 then atoi_loop (s32 (n * 10 + uint c - 48)) s else Some n)"

definition atoi :: "u8 list \<Rightarrow> int option" where
  "atoi s = atoi_loop 0 s"

function reverse_loop :: "u8 list \<Rightarrow> nat \<Rightarrow> nat \<Rightarrow> u8 list" where
  "reverse_loop s i j =
    (if i < j then reverse_loop (s[i := s ! j, j := s ! i]) (i + 1) (j - 1) else s)"
  by pat_completeness auto
termination
  by (relation "measure (\<lambda>(s, i, j). j - i)") auto

definition reverse :: "u8 list \<Rightarrow> u8 list option" where
  "reverse s = (case strlen s of None \<Rightarrow> None
     | Some 0 \<Rightarrow> Some s | Some (Suc l) \<Rightarrow> Some (reverse_loop s 0 l))"

text \<open>The digits \<^verbatim>\<open>itoa\<close> generates, least significant first, with C's truncating
  division; the loop runs at least once and then while the quotient is positive.\<close>

function itoa_digits :: "int \<Rightarrow> u8 list" where
  "itoa_digits n =
    (let d = word_of_int (sgn n * (\<bar>n\<bar> mod 10) + 48); q = sgn n * (\<bar>n\<bar> div 10)
     in if 0 < q then d # itoa_digits q else [d])"
  by pat_completeness auto
termination
  by (relation "measure nat") (auto simp: sgn_if split: if_splits)

definition itoa :: "int \<Rightarrow> u8 list \<Rightarrow> u8 list option" where
  "itoa n s =
    (let m = (if n < 0 then s32 (- n) else n);
         bs = itoa_digits m @ (if n < 0 then [45] else []) @ [0]
     in if length bs \<le> length s then reverse (bs @ drop (length bs) s) else None)"

definition strcat :: "u8 list \<Rightarrow> u8 list \<Rightarrow> u8 list option" where
  "strcat dest src =
    (case strlen dest of None \<Rightarrow> None
     | Some i \<Rightarrow> map_option (\<lambda>d. take i dest @ d) (strcpy (drop i dest) src))"

section \<open>Blocks: lemmas\<close>

lemma stosb_apply:
  "unat dst + n \<le> 2 ^ 32 \<Longrightarrow>
   stosb m dst c n a = (if unat dst \<le> unat a \<and> unat a < unat dst + n then c else m a)"
proof (induction n arbitrary: m dst)
  case (Suc n)
  show ?case
  proof (cases "n = 0")
    case True
    then show ?thesis by (auto simp: word_unat_eq_iff)
  next
    case False
    with Suc.prems have lt: "unat dst + 1 < 2 ^ 32" by simp
    then have u: "unat (dst + 1) = unat dst + 1"
      by (simp add: unat_word_ariths)
    have "stosb m dst c (Suc n) a = stosb (m(dst := c)) (dst + 1) c n a" by simp
    also have "\<dots> = (if unat (dst + 1) \<le> unat a \<and> unat a < unat (dst + 1) + n then c
                   else (m(dst := c)) a)"
      by (rule Suc.IH) (use Suc.prems u in simp)
    finally show ?thesis using u by (auto simp: word_unat_eq_iff)
  qed
qed auto

lemma memset_apply:
  "unat dst + unat n \<le> 2 ^ 32 \<Longrightarrow>
   memset m dst c n a = (if unat dst \<le> unat a \<and> unat a < unat dst + unat n then c else m a)"
  by (simp add: memset_def stosb_apply)


text \<open>The copy loops: a byte outside the destination is untouched; a byte of the destination
  gets the old source byte as long as no earlier write destroyed it.\<close>

lemma copy_forward_out: "(\<And>k. k < n \<Longrightarrow> a \<noteq> d + of_nat k) \<Longrightarrow> copy_forward m d s n a = m a"
proof (induction n arbitrary: m d s)
  case (Suc n)
  have "copy_forward (m(d := m s)) (d + 1) (s + 1) n a = (m(d := m s)) a"
  proof (rule Suc.IH)
    show "a \<noteq> d + 1 + of_nat k" if "k < n" for k
      using Suc.prems [of "Suc k"] that by (simp add: add.assoc)
  qed
  then show ?case using Suc.prems [of 0] by simp
qed simp

lemma copy_forward_in:
  "k < n \<Longrightarrow> n < 2 ^ 32 \<Longrightarrow> (\<And>i j. i < j \<Longrightarrow> j < n \<Longrightarrow> d + of_nat i \<noteq> s + of_nat j) \<Longrightarrow>
   copy_forward m d s n (d + of_nat k) = m (s + of_nat k)"
proof (induction n arbitrary: m d s k)
  case (Suc n)
  show ?case
  proof (cases k)
    case 0
    have "copy_forward (m(d := m s)) (d + 1) (s + 1) n d = (m(d := m s)) d"
    proof (rule copy_forward_out)
      show "d \<noteq> d + 1 + of_nat j" if "j < n" for j
        using of_nat_u32_nz [of "Suc j"] that Suc.prems(2) by (simp add: add.assoc)
    qed
    with 0 show ?thesis by simp
  next
    case (Suc l)
    have "copy_forward (m(d := m s)) (d + 1) (s + 1) n (d + 1 + of_nat l)
        = (m(d := m s)) (s + 1 + of_nat l)"
    proof (rule Suc.IH)
      show "l < n" "n < 2 ^ 32" using Suc.prems Suc by simp_all
      show "d + 1 + of_nat i \<noteq> s + 1 + of_nat j" if "i < j" "j < n" for i j
        using Suc.prems(3) [of "Suc i" "Suc j"] that by (simp add: add.assoc)
    qed
    moreover have "d \<noteq> s + 1 + of_nat l"
      using Suc.prems(3) [of 0 k] Suc.prems(1) \<open>k = Suc l\<close> by (simp add: add.assoc)
    ultimately show ?thesis using Suc by (simp add: add.assoc)
  qed
qed simp

lemma copy_backward_out:
  "(\<And>k. k < n \<Longrightarrow> a \<noteq> d - 1 - of_nat k) \<Longrightarrow> copy_backward m d s n a = m a"
proof (induction n arbitrary: m d s)
  case (Suc n)
  have "copy_backward (m(d - 1 := m (s - 1))) (d - 1) (s - 1) n a = (m(d - 1 := m (s - 1))) a"
  proof (rule Suc.IH)
    show "a \<noteq> d - 1 - 1 - of_nat k" if "k < n" for k
      using Suc.prems [of "Suc k"] that by (simp add: diff_diff_eq)
  qed
  then show ?case using Suc.prems [of 0] by simp
qed simp

lemma copy_backward_in:
  "k < n \<Longrightarrow> n < 2 ^ 32 \<Longrightarrow> (\<And>i j. i < j \<Longrightarrow> j < n \<Longrightarrow> d - 1 - of_nat i \<noteq> s - 1 - of_nat j) \<Longrightarrow>
   copy_backward m d s n (d - 1 - of_nat k) = m (s - 1 - of_nat k)"
proof (induction n arbitrary: m d s k)
  case (Suc n)
  let ?m = "m(d - 1 := m (s - 1))"
  show ?case
  proof (cases k)
    case 0
    have "copy_backward ?m (d - 1) (s - 1) n (d - 1) = ?m (d - 1)"
    proof (rule copy_backward_out)
      show "d - 1 \<noteq> d - 1 - 1 - of_nat j" if "j < n" for j
        using of_nat_u32_nz [of "Suc j"] that Suc.prems(2)
        by (simp add: diff_diff_eq neg_eq_iff_add_eq_0 add.commute)
    qed
    with 0 show ?thesis by simp
  next
    case (Suc l)
    have "copy_backward ?m (d - 1) (s - 1) n (d - 1 - 1 - of_nat l) = ?m (s - 1 - 1 - of_nat l)"
    proof (rule Suc.IH)
      show "l < n" "n < 2 ^ 32" using Suc.prems Suc by simp_all
      show "d - 1 - 1 - of_nat i \<noteq> s - 1 - 1 - of_nat j" if "i < j" "j < n" for i j
        using Suc.prems(3) [of "Suc i" "Suc j"] that by (simp add: diff_diff_eq)
    qed
    moreover have "d - 1 \<noteq> s - 1 - 1 - of_nat l"
      using Suc.prems(3) [of 0 k] Suc.prems(1) \<open>k = Suc l\<close> by (simp add: diff_diff_eq)
    ultimately show ?thesis using Suc by (simp add: diff_diff_eq)
  qed
qed simp

text \<open>Within a block that does not wrap around the address space, offsets compare as
  numbers.\<close>

lemma block_offset_eq:
  assumes "unat a + n < 2 ^ 32" "unat b + n < 2 ^ 32" "i \<le> n" "j \<le> n"
  shows "(a :: u32) + of_nat i = b + of_nat j \<longleftrightarrow> unat a + i = unat b + j"
  using assms by (simp add: word_unat_eq_iff unat_add_of_nat)

lemma block_offset_ne:
  assumes "unat a + n < 2 ^ 32" "unat b + n < 2 ^ 32" "i \<le> n" "j \<le> n" "unat a + i \<noteq> unat b + j"
  shows "(a :: u32) + of_nat i \<noteq> b + of_nat j"
  using assms block_offset_eq by blast

text \<open>From the end of a block, counting down.\<close>

lemma block_from_end:
  "k < n \<Longrightarrow> (a :: u32) + of_nat n - 1 - of_nat k = a + of_nat (n - 1 - k)"
  by simp

lemma memmove_overlap:
  fixes src dst n :: u32
  assumes "unat src + unat n < 2 ^ 32"
  shows "src < dst \<and> src + n > dst \<longleftrightarrow> unat src < unat dst \<and> unat dst < unat src + unat n"
  using assms by (simp add: word_less_nat_alt unat_add_lt)

lemma memmove_inside:
  assumes "unat src + unat n < 2 ^ 32" "unat dst + unat n < 2 ^ 32" "k < unat n"
  shows "memmove m dst src n (dst + of_nat k) = m (src + of_nat k)"
proof (cases "src < dst \<and> src + n > dst")
  case True
  let ?n = "unat n"
  have "copy_backward m (dst + of_nat ?n) (src + of_nat ?n) ?n (dst + of_nat ?n - 1 - of_nat (?n - 1 - k))
      = m (src + of_nat ?n - 1 - of_nat (?n - 1 - k))"
  proof (rule copy_backward_in)
    have ov: "unat src < unat dst \<and> unat dst < unat src + ?n"
      using True memmove_overlap [OF assms(1), of dst] by blast
    fix i j assume "i < j" "j < ?n"
    then show "dst + of_nat ?n - 1 - of_nat i \<noteq> src + of_nat ?n - 1 - of_nat j"
      using ov assms(1,2)
      by (simp only: block_from_end) (rule block_offset_ne [of _ ?n], auto)
  qed (use assms(3) unat_lt32 [of n] in auto)
  with True assms(3) show ?thesis by (simp add: memmove_def block_from_end)
next
  case False
  then have ov: "\<not> (unat src < unat dst \<and> unat dst < unat src + unat n)"
    using memmove_overlap [OF assms(1), of dst] by blast
  have "copy_forward m dst src (unat n) (dst + of_nat k) = m (src + of_nat k)"
  proof (rule copy_forward_in)
    show "dst + of_nat i \<noteq> src + of_nat j" if "i < j" "j < unat n" for i j
      by (rule block_offset_ne [of _ "unat n"])
        (use ov assms(1,2) that in auto)
  qed (use assms(3) unat_lt32 [of n] in auto)
  with False show ?thesis by (auto simp: memmove_def)
qed

lemma memmove_outside:
  assumes "unat dst + unat n < 2 ^ 32" "\<not> (unat dst \<le> unat a \<and> unat a < unat dst + unat n)"
  shows "memmove m dst src n a = m a"
proof -
  have out: "a \<noteq> dst + of_nat k" if "k < unat n" for k
  proof
    assume "a = dst + of_nat k"
    then have "unat a = unat dst + k" using that assms(1) by (simp add: unat_add_of_nat)
    with assms(2) that show False by simp
  qed
  moreover have "a \<noteq> dst + n - 1 - of_nat k" if "k < unat n" for k
  proof -
    have n: "of_nat (unat n) = n" by simp
    have eq: "dst + n - 1 - of_nat k = dst + of_nat (unat n - 1 - k)"
      using block_from_end [OF that, of dst] by (simp only: n)
    have "unat n - 1 - k < unat n" using that by simp
    then show ?thesis unfolding eq by (rule out)
  qed
  ultimately show ?thesis by (simp add: memmove_def copy_forward_out copy_backward_out)
qed

lemma memmove_apply:
  assumes "unat src + unat n < 2 ^ 32" "unat dst + unat n < 2 ^ 32"
  shows "memmove m dst src n a =
    (if unat dst \<le> unat a \<and> unat a < unat dst + unat n then m (src + (a - dst)) else m a)"
proof (cases "unat dst \<le> unat a \<and> unat a < unat dst + unat n")
  case True
  define k where "k = unat a - unat dst"
  have k: "k < unat n" "unat a = unat dst + k" using True by (auto simp: k_def)
  then have "unat (dst + of_nat k) = unat a" using assms(2) by (simp add: unat_add_of_nat)
  then have a: "a = dst + of_nat k" by (simp only: word_unat_eq_iff)
  have "memmove m dst src n a = m (src + (a - dst))"
    using memmove_inside [OF assms k(1)] unfolding a by simp
  with True show ?thesis by simp
next
  case False
  then show ?thesis using memmove_outside [OF assms(2) False] by auto
qed

text \<open>C2. \<^verbatim>\<open>memmove\<close> is correct for every overlap of source and destination: each of the
  \<open>n\<close> destination bytes ends up with what the corresponding source byte held before the call,
  and no other byte changes. (Neither block wraps around the end of the address space.)\<close>

theorem memmove_correct:
  assumes "unat src + unat n < 2 ^ 32" "unat dst + unat n < 2 ^ 32"
  shows "memmove m dst src n a =
    (if unat dst \<le> unat a \<and> unat a < unat dst + unat n then m (src + (a - dst)) else m a)"
  using assms by (rule memmove_apply)

theorem memmove_correct_witness:
  "memmove (\<lambda>a. ucast a) 3 1 5 4 = 2 \<and> memmove (\<lambda>a. ucast a) 1 3 5 2 = 4"
proof
  show "memmove (\<lambda>a. ucast a) 3 1 5 4 = 2" by (subst memmove_correct) simp_all
  show "memmove (\<lambda>a. ucast a) 1 3 5 2 = 4" by (subst memmove_correct) simp_all
qed

section \<open>Strings: lemmas\<close>

text \<open>The string a NUL-terminated object holds.\<close>

definition cstr :: "u8 list \<Rightarrow> u8 list" where
  "cstr s = takeWhile (\<lambda>c. c \<noteq> 0) s"

definition terminated :: "u8 list \<Rightarrow> bool" where
  "terminated s \<longleftrightarrow> 0 \<in> set s"

lemma cstr_simps [simp]: "cstr [] = []" "cstr (c # s) = (if c = 0 then [] else c # cstr s)"
  by (simp_all add: cstr_def)

lemma terminated_simps [simp]:
  "\<not> terminated []" "terminated (c # s) \<longleftrightarrow> c = 0 \<or> terminated s"
  by (auto simp: terminated_def)

lemma strlen_eq: "strlen s = (if terminated s then Some (length (cstr s)) else None)"
  by (induction s) auto

lemma zero_fill_eq: "n \<le> length s \<Longrightarrow> zero_fill s n = Some (replicate n 0 @ drop n s)"
  by (induction s n rule: zero_fill.induct) auto

lemma strncpy_eq:
  "n \<le> length s \<Longrightarrow> terminated t \<or> n \<le> length t \<Longrightarrow>
   strncpy s t n = Some (take n (cstr t @ replicate n 0) @ drop n s)"
proof (induction s t n rule: strncpy.induct)
  case (2 d s c t n)
  then show ?case by (cases "c = 0") (auto simp: zero_fill_eq min_def simp flip: replicate_Suc)
qed auto

lemma strncmp_0_iff:
  "terminated p \<or> n \<le> length p \<Longrightarrow> terminated q \<or> n \<le> length q \<Longrightarrow>
   strncmp p q n = Some 0 \<longleftrightarrow> take n (cstr p) = take n (cstr q)"
  by (induction p q n rule: strncmp.induct) (auto simp: uint_0_iff simp flip: word_uint_eq_iff)

lemma strncmp_defined:
  "terminated p \<or> n \<le> length p \<Longrightarrow> terminated q \<or> n \<le> length q \<Longrightarrow> \<exists>r. strncmp p q n = Some r"
  by (induction p q n rule: strncmp.induct) auto

lemma strcmp_0_iff:
  "terminated p \<Longrightarrow> terminated q \<Longrightarrow> strcmp p q = Some 0 \<longleftrightarrow> cstr p = cstr q"
  by (induction p q rule: strcmp.induct) (auto simp: uint_0_iff simp flip: word_uint_eq_iff)

lemma strcpy_eq:
  "terminated t \<Longrightarrow> length (cstr t) < length s \<Longrightarrow>
   strcpy s t = Some (cstr t @ 0 # drop (Suc (length (cstr t))) s)"
  by (induction s t rule: strcpy.induct) auto

lemma safestrcpy_loop_eq:
  "n < length s \<Longrightarrow> terminated t \<or> n \<le> length t \<Longrightarrow>
   \<exists>r. safestrcpy_loop s t n = Some r \<and> length r = length s \<and>
       cstr r = take n (cstr t) \<and> terminated r \<and> drop (Suc n) r = drop (Suc n) s"
proof (induction s t n rule: safestrcpy_loop.induct)
  case (2 d s c t n)
  show ?case
  proof (cases "c = 0")
    case True
    with "2.prems" show ?thesis by (cases s) simp_all
  next
    case False
    have "n < length s" "terminated t \<or> n \<le> length t" using "2.prems" False by simp_all
    from "2.IH" [OF False this] obtain r where "safestrcpy_loop s t n = Some r"
      "length r = length s" "cstr r = take n (cstr t)" "terminated r"
      "drop (Suc n) r = drop (Suc n) s" by blast
    with False show ?thesis by simp
  qed
qed simp_all

end
