(* ===== verification/Memory.thy ===== *)
theory Memory
  imports Strings Machine
begin

text \<open>
  Words in byte memory. Kernel structures that live in allocated pages (the free list of
  \<^verbatim>\<open>kalloc.c\<close>, page tables, trap frames) are read and written as 32-bit little-endian
  words of the byte memory on which \<^verbatim>\<open>memset\<close> and \<^verbatim>\<open>memmove\<close> act. The page
  macros of \<^verbatim>\<open>mmu.h\<close> are here too.

  Shown: a stored word is read back, a store does not disturb other aligned words, and the
  rounding macros compute what their names say.
\<close>

section \<open>Words\<close>

definition ld32 :: "mem \<Rightarrow> u32 \<Rightarrow> u32" where
  "ld32 m a = ucast (m a) OR push_bit 8 (ucast (m (a + 1)))
     OR push_bit 16 (ucast (m (a + 2))) OR push_bit 24 (ucast (m (a + 3)))"

definition st32 :: "mem \<Rightarrow> u32 \<Rightarrow> u32 \<Rightarrow> mem" where
  "st32 m a v = m(a := ucast v, a + 1 := ucast (drop_bit 8 v),
                  a + 2 := ucast (drop_bit 16 v), a + 3 := ucast (drop_bit 24 v))"

section \<open>Page macros (mmu.h)\<close>

definition PGROUNDUP :: "u32 \<Rightarrow> u32" where
  "PGROUNDUP sz = (sz + PGSIZE - 1) AND NOT (PGSIZE - 1)"

definition PGROUNDDOWN :: "u32 \<Rightarrow> u32" where
  "PGROUNDDOWN a = a AND NOT (PGSIZE - 1)"

definition PDX :: "u32 \<Rightarrow> u32" where
  "PDX la = drop_bit 22 la AND 0x3FF"

definition PTX :: "u32 \<Rightarrow> u32" where
  "PTX la = drop_bit 12 la AND 0x3FF"

definition PTE_ADDR :: "u32 \<Rightarrow> u32" where
  "PTE_ADDR pte = pte AND NOT 0xFFF"

definition PGADDR :: "u32 \<Rightarrow> u32 \<Rightarrow> u32 \<Rightarrow> u32" where
  "PGADDR d t off = push_bit 22 d OR push_bit 12 t OR off"

definition PTE_P :: u32 where "PTE_P = 1"
definition PTE_W :: u32 where "PTE_W = 2"
definition PTE_U :: u32 where "PTE_U = 4"

section \<open>Lemmas: words\<close>

lemma offset_ne [simp]:
  "(a :: u32) + 1 \<noteq> a" "a + 2 \<noteq> a" "a + 3 \<noteq> a" "a \<noteq> a + 1" "a \<noteq> a + 2" "a \<noteq> a + 3"
  "a + 1 \<noteq> a + 2" "a + 1 \<noteq> a + 3" "a + 2 \<noteq> a + 3" "a + 2 \<noteq> a + 1" "a + 3 \<noteq> a + 1" "a + 3 \<noteq> a + 2"
  by simp_all

lemma ld32_st32 [simp]: "ld32 (st32 m a v) a = v"
proof (rule bit_word_eqI)
  fix n assume n: "n < LENGTH(32)"
  consider "n < 8" | "8 \<le> n" "n < 16" | "16 \<le> n" "n < 24" | "24 \<le> n" by linarith
  then show "bit (ld32 (st32 m a v) a) n = bit v n"
    by cases (use n in \<open>auto simp: ld32_def st32_def bit_simps\<close>)
qed

lemma ld32_cong:
  "m a = m' a \<Longrightarrow> m (a + 1) = m' (a + 1) \<Longrightarrow> m (a + 2) = m' (a + 2) \<Longrightarrow> m (a + 3) = m' (a + 3)
   \<Longrightarrow> ld32 m a = ld32 m' a"
  by (simp add: ld32_def)

definition aligned4 :: "u32 \<Rightarrow> bool" where
  "aligned4 a \<longleftrightarrow> unat a mod 4 = 0"

lemma aligned4_add:
  assumes "aligned4 a" "k < 4"
  shows "unat (a + of_nat k) = unat a + k"
proof -
  have "unat a \<le> 2 ^ 32 - 4"
    using assms(1) unat_lt32 [of a] by (simp add: aligned4_def) presburger
  with assms(2) show ?thesis by (simp add: unat_add_of_nat)
qed

lemma aligned4_ne:
  assumes "aligned4 a" "aligned4 b" "a \<noteq> b" "i < 4" "j < 4"
  shows "a + of_nat i \<noteq> b + of_nat j"
proof
  assume "a + of_nat i = b + of_nat j"
  then have eq: "unat a + i = unat b + j" using assms by (metis aligned4_add)
  have "unat a \<noteq> unat b" using assms(3) by (simp add: word_unat_eq_iff)
  moreover have "unat a div 4 = unat b div 4"
  proof -
    have "(unat a + i) div 4 = unat a div 4" "(unat b + j) div 4 = unat b div 4"
      using assms by (simp_all add: aligned4_def div_plus_div_distrib_dvd_left dvd_eq_mod_eq_0)
    with eq show ?thesis by simp
  qed
  ultimately show False using assms(1,2)
    by (metis aligned4_def div_mult_mod_eq)
qed

lemma st32_other: "b \<noteq> a \<Longrightarrow> b \<noteq> a + 1 \<Longrightarrow> b \<noteq> a + 2 \<Longrightarrow> b \<noteq> a + 3 \<Longrightarrow> st32 m a v b = m b"
  by (simp add: st32_def)

lemma ld32_st32_other:
  assumes "aligned4 a" "aligned4 b" "a \<noteq> b"
  shows "ld32 (st32 m a v) b = ld32 m b"
proof -
  have ne: "b + of_nat j \<noteq> a + of_nat i" if "i < 4" "j < 4" for i j
    using aligned4_ne [of b a] assms that by metis
  have "st32 m a v (b + of_nat j) = m (b + of_nat j)" if "j < 4" for j
    using ne [of 0 j] ne [of 1 j] ne [of 2 j] ne [of 3 j] that by (simp add: st32_other)
  from this [of 0] this [of 1] this [of 2] this [of 3] show ?thesis by (intro ld32_cong) simp_all
qed

section \<open>Lemmas: pages\<close>

lemma and_not_mask: "unat ((a :: u32) AND NOT (mask n)) = unat a - unat a mod 2 ^ n"
proof -
  have "a = (a AND NOT (mask n)) + (a AND mask n)"
    by (subst disjunctive_add) (auto simp: bit_simps bit_eq_iff)
  moreover have "unat (a AND mask n) = unat a mod 2 ^ n"
    by (simp flip: take_bit_eq_mask take_bit_eq_mod add: unsigned_take_bit_eq)
  moreover have "a AND NOT (mask n) = a - (a AND mask n)"
    using calculation(1) by (simp add: eq_diff_eq)
  moreover have "unat (a - (a AND mask n)) = unat a - unat (a AND mask n)"
    by (rule unat_sub) (simp add: word_and_le2)
  ultimately show ?thesis by simp
qed

lemma page_mask: "PGSIZE - 1 = mask 12" "(0xFFF :: u32) = mask 12"
  by (simp_all add: PGSIZE_def mask_eq_exp_minus_1)

lemma unat_PGROUNDDOWN: "unat (PGROUNDDOWN a) = unat a - unat a mod 4096"
  using and_not_mask [of a 12] by (simp add: PGROUNDDOWN_def page_mask)

lemma unat_PTE_ADDR: "unat (PTE_ADDR a) = unat a - unat a mod 4096"
  using and_not_mask [of a 12] by (simp add: PTE_ADDR_def page_mask)

lemma unat_PGROUNDUP:
  assumes "unat a + 4095 < 2 ^ 32"
  shows "unat (PGROUNDUP a) = (unat a + 4095) div 4096 * 4096"
proof -
  have "unat (a + 4095) = unat a + 4095" using assms by (simp add: unat_add_lt)
  moreover have "PGROUNDUP a = a + 4095 AND NOT (mask 12)"
    by (simp add: PGROUNDUP_def PGSIZE_def mask_eq_exp_minus_1 add.commute)
  ultimately show ?thesis
    using and_not_mask [of "a + 4095" 12] by (simp add: minus_mod_eq_div_mult)
qed

end
