(* ===== verification/Cprintf.thy ===== *)
theory Cprintf
  imports Spinlock Strings
begin

text \<open>
  Console output: the formatting and screen half of \<^verbatim>\<open>console.c\<close> (\<^verbatim>\<open>printint\<close>,
  \<^verbatim>\<open>cprintf\<close>, \<^verbatim>\<open>cgaputc\<close>, \<^verbatim>\<open>consputc\<close>, \<^verbatim>\<open>consolewrite\<close>'s loop)
  and \<^verbatim>\<open>uartputc\<close> of \<^verbatim>\<open>uart.c\<close>. The state adds the CGA text memory, the cursor
  register pair, the bytes sent to the serial port and the two console flags.

  Shown: the cursor never leaves the 24 text rows, whatever is printed; the digits
  \<^verbatim>\<open>printint\<close> emits denote the number it was given, for every 32-bit number and both
  bases, and fit its 16-byte buffer.
\<close>

section \<open>State\<close>

record conout = machine +
  crt :: "nat \<Rightarrow> u16"
  cursor :: u16
  uart :: bool
  serial :: "u8 list"
  cons_locking :: bool
  panicked :: bool

definition BACKSPACE :: int where "BACKSPACE = 0x100"

datatype carg = CInt u32 | CStr "u8 list option"

section \<open>Characters\<close>

text \<open>The wait for the transmitter (at most 128 polls of the status register) changes
  nothing in the kernel's state.\<close>

definition uartputc :: "int \<Rightarrow> ('a conout_scheme, unit) kop" where
  "uartputc c = bnd (gets uart) (\<lambda>u.
     if \<not> u then ret () else modify (\<lambda>s. s\<lparr>serial := serial s @ [word_of_int c]\<rparr>))"

definition scroll_up :: "(nat \<Rightarrow> u16) \<Rightarrow> nat \<Rightarrow> nat \<Rightarrow> u16" where
  "scroll_up m pos = (\<lambda>i. if pos \<le> i \<and> i < 24 * 80 then 0
                          else if i < 23 * 80 then m (i + 80) else m i)"

text \<open>The end of \<^verbatim>\<open>cgaputc\<close>: scroll up when the position has left the last row, write
  the cursor registers, blank the cell under the cursor.\<close>

definition cga_finish :: "nat \<Rightarrow> ('a conout_scheme, unit) kop" where
  "cga_finish pos1 =
    bnd (if pos1 div 80 \<ge> 24
         then if pos1 - 80 > 24 * 80 then undef
              else thn (modify (\<lambda>s. s\<lparr>crt := scroll_up (crt s) (pos1 - 80)\<rparr>)) (ret (pos1 - 80))
         else ret pos1) (\<lambda>pos.
    modify (\<lambda>s. s\<lparr>cursor := of_nat pos, crt := (crt s)(pos := 0x20 OR 0x0700)\<rparr>))"

definition cgaputc :: "int \<Rightarrow> ('a conout_scheme, unit) kop" where
  "cgaputc c =
    bnd (gets (\<lambda>s. unat (cursor s))) (\<lambda>pos.
    if c = 10 then cga_finish (pos + (80 - pos mod 80))
    else if c = BACKSPACE then cga_finish (if pos > 0 then pos - 1 else pos)
    else thn (modify (\<lambda>s. s\<lparr>crt := (crt s)(pos := word_of_int c AND 0xff OR 0x0700)\<rparr>))
             (cga_finish (pos + 1)))"

definition consputc :: "int \<Rightarrow> ('a conout_scheme, unit) kop" where
  "consputc c =
    bnd (gets panicked) (\<lambda>p.
    if p then thn cli hang
    else seqs [
      if c = BACKSPACE then seqs [uartputc 8, uartputc 32, uartputc 8] else uartputc c,
      cgaputc c])"

section \<open>Numbers\<close>

text \<open>The buffer \<^verbatim>\<open>buf\<close> of \<^verbatim>\<open>printint\<close>: the digits of \<open>x\<close>, least significant
  first, and the sign; it is printed from the end.\<close>

definition digit_char :: "nat \<Rightarrow> u8" where
  "digit_char d = bytes ''0123456789abcdef'' ! d"

function printint_digits :: "nat \<Rightarrow> nat \<Rightarrow> u8 list" where
  "printint_digits x base =
    digit_char (x mod base) #
    (if 2 \<le> base \<and> x div base \<noteq> 0 then printint_digits (x div base) base else [])"
  by pat_completeness auto
termination
  by (relation "measure fst") (auto simp: div_greater_zero_iff)

definition printint_buf :: "int \<Rightarrow> nat \<Rightarrow> bool \<Rightarrow> u8 list" where
  "printint_buf xx base sgnd =
    (if sgnd \<and> xx < 0 then printint_digits (unat (- word_of_int xx :: u32)) base @ [45]
     else printint_digits (unat (word_of_int xx :: u32)) base)"

definition printint :: "int \<Rightarrow> nat \<Rightarrow> bool \<Rightarrow> ('a conout_scheme, unit) kop" where
  "printint xx base sgnd = for_each (rev (printint_buf xx base sgnd)) (\<lambda>c. consputc (uint c))"

section \<open>Formatted output\<close>

fun cprintf_loop :: "u8 list \<Rightarrow> carg list \<Rightarrow> ('a conout_scheme, unit) kop" where
  "cprintf_loop [] args = ret ()"
| "cprintf_loop (c # fmt) args =
    (if c = 0 then ret ()
     else if c \<noteq> 37 then thn (consputc (uint c)) (cprintf_loop fmt args)
     else case fmt of
       [] \<Rightarrow> ret ()
     | d # fmt' \<Rightarrow>
       if d = 0 then ret ()
       else if d = 100 then
         (case args of CInt x # args' \<Rightarrow> thn (printint (sint x) 10 True) (cprintf_loop fmt' args')
          | _ \<Rightarrow> undef)
       else if d = 120 \<or> d = 112 then
         (case args of CInt x # args' \<Rightarrow> thn (printint (sint x) 16 False) (cprintf_loop fmt' args')
          | _ \<Rightarrow> undef)
       else if d = 115 then
         (case args of
            CStr p # args' \<Rightarrow>
              thn (for_each (case p of None \<Rightarrow> bytes ''(null)'' | Some t \<Rightarrow> cstr t)
                     (\<lambda>ch. consputc (sint ch)))
                  (cprintf_loop fmt' args')
          | _ \<Rightarrow> undef)
       else if d = 37 then thn (consputc 37) (cprintf_loop fmt' args)
       else thn (consputc 37) (thn (consputc (uint d)) (cprintf_loop fmt' args)))"

definition cprintf :: "string \<Rightarrow> carg list \<Rightarrow> ('a conout_scheme, unit) kop" where
  "cprintf fmt args =
    bnd (gets cons_locking) (\<lambda>locking.
    seqs [
      whenk locking (acquire ConsLock),
      cprintf_loop (bytes fmt) args,
      whenk locking (release ConsLock)])"

section \<open>Lemmas\<close>

lemma conout_lock_sel [simp]:
  "crt (acq lk s) = crt s"
  "cursor (acq lk s) = cursor s"
  "uart (acq lk s) = uart s"
  "serial (acq lk s) = serial s"
  "cons_locking (acq lk s) = cons_locking s"
  "panicked (acq lk s) = panicked s"
  "conout.more (acq lk s) = conout.more s"
  "crt (rel lk s) = crt s"
  "cursor (rel lk s) = cursor s"
  "uart (rel lk s) = uart s"
  "serial (rel lk s) = serial s"
  "cons_locking (rel lk s) = cons_locking s"
  "panicked (rel lk s) = panicked s"
  "conout.more (rel lk s) = conout.more s"
  "crt (lockround lk s) = crt s"
  "cursor (lockround lk s) = cursor s"
  "uart (lockround lk s) = uart s"
  "serial (lockround lk s) = serial s"
  "cons_locking (lockround lk s) = cons_locking s"
  "panicked (lockround lk s) = panicked s"
  "conout.more (lockround lk s) = conout.more s"
  by (simp_all add: acq_def rel_def lockround_def)

lemma conout_lock_upd [simp]:
  "acq lk (crt_update g_crt s) = crt_update g_crt (acq lk s)"
  "acq lk (cursor_update g_cursor s) = cursor_update g_cursor (acq lk s)"
  "acq lk (uart_update g_uart s) = uart_update g_uart (acq lk s)"
  "acq lk (serial_update g_serial s) = serial_update g_serial (acq lk s)"
  "acq lk (cons_locking_update g_cons_locking s) = cons_locking_update g_cons_locking (acq lk s)"
  "acq lk (panicked_update g_panicked s) = panicked_update g_panicked (acq lk s)"
  "rel lk (crt_update g_crt s) = crt_update g_crt (rel lk s)"
  "rel lk (cursor_update g_cursor s) = cursor_update g_cursor (rel lk s)"
  "rel lk (uart_update g_uart s) = uart_update g_uart (rel lk s)"
  "rel lk (serial_update g_serial s) = serial_update g_serial (rel lk s)"
  "rel lk (cons_locking_update g_cons_locking s) = cons_locking_update g_cons_locking (rel lk s)"
  "rel lk (panicked_update g_panicked s) = panicked_update g_panicked (rel lk s)"
  "lockround lk (crt_update g_crt s) = crt_update g_crt (lockround lk s)"
  "lockround lk (cursor_update g_cursor s) = cursor_update g_cursor (lockround lk s)"
  "lockround lk (uart_update g_uart s) = uart_update g_uart (lockround lk s)"
  "lockround lk (serial_update g_serial s) = serial_update g_serial (lockround lk s)"
  "lockround lk (cons_locking_update g_cons_locking s) = cons_locking_update g_cons_locking (lockround lk s)"
  "lockround lk (panicked_update g_panicked s) = panicked_update g_panicked (lockround lk s)"
  by (simp_all add: acq_def rel_def lockround_def)

lemma conout_lock_inv [simp]:
  "lock_free lk (crt_update g_crt s) = lock_free lk s"
  "lock_free lk (cursor_update g_cursor s) = lock_free lk s"
  "lock_free lk (uart_update g_uart s) = lock_free lk s"
  "lock_free lk (serial_update g_serial s) = lock_free lk s"
  "lock_free lk (cons_locking_update g_cons_locking s) = lock_free lk s"
  "lock_free lk (panicked_update g_panicked s) = lock_free lk s"
  "lock_mine lk (crt_update g_crt s) = lock_mine lk s"
  "lock_mine lk (cursor_update g_cursor s) = lock_mine lk s"
  "lock_mine lk (uart_update g_uart s) = lock_mine lk s"
  "lock_mine lk (serial_update g_serial s) = lock_mine lk s"
  "lock_mine lk (cons_locking_update g_cons_locking s) = lock_mine lk s"
  "lock_mine lk (panicked_update g_panicked s) = lock_mine lk s"
  "cli_ok (crt_update g_crt s) = cli_ok s"
  "cli_ok (cursor_update g_cursor s) = cli_ok s"
  "cli_ok (uart_update g_uart s) = cli_ok s"
  "cli_ok (serial_update g_serial s) = cli_ok s"
  "cli_ok (cons_locking_update g_cons_locking s) = cli_ok s"
  "cli_ok (panicked_update g_panicked s) = cli_ok s"
  by (simp_all add: lock_free_def lock_mine_def cli_ok_def)

lemma conout_calm_upd [simp]:
  "calm s (crt_update g_crt t) = calm s t"
  "calm s (cursor_update g_cursor t) = calm s t"
  "calm s (uart_update g_uart t) = calm s t"
  "calm s (serial_update g_serial t) = calm s t"
  "calm s (cons_locking_update g_cons_locking t) = calm s t"
  "calm s (panicked_update g_panicked t) = calm s t"
  "calm (crt_update g_crt s) t = calm s t"
  "calm (cursor_update g_cursor s) t = calm s t"
  "calm (uart_update g_uart s) t = calm s t"
  "calm (serial_update g_serial s) t = calm s t"
  "calm (cons_locking_update g_cons_locking s) t = calm s t"
  "calm (panicked_update g_panicked s) t = calm s t"
  by (simp_all add: calm_def)

lemma conout_cpu_sel [simp]:
  "crt (upd_cpu h s) = crt s"
  "cursor (upd_cpu h s) = cursor s"
  "uart (upd_cpu h s) = uart s"
  "serial (upd_cpu h s) = serial s"
  "cons_locking (upd_cpu h s) = cons_locking s"
  "panicked (upd_cpu h s) = panicked s"
  "conout.more (upd_cpu h s) = conout.more s"
  by (simp_all add: upd_cpu_def)

definition conout_boot :: "'a \<Rightarrow> 'a conout_scheme" where
  "conout_boot x = conout.extend (machine_boot (conout.fields (\<lambda>_. 0) 0 True [] True False)) x"

text \<open>The screen invariant: the cursor is on one of the 24 rows.\<close>

definition cga_inv :: "'a conout_scheme \<Rightarrow> bool" where
  "cga_inv s \<longleftrightarrow> unat (cursor s) < 24 * 80"

text \<open>What printing may change: the screen, the cursor and the serial line. \<open>same_but_screen s t\<close>
  says that \<open>t\<close> differs from \<open>s\<close> in nothing else.\<close>

definition same_but_screen :: "'a conout_scheme \<Rightarrow> 'a conout_scheme \<Rightarrow> bool" where
  "same_but_screen s t \<longleftrightarrow> (\<exists>c p b. t = s\<lparr>crt := c, cursor := p, serial := b\<rparr>)"

lemma same_but_screen_refl [simp]: "same_but_screen s s"
  unfolding same_but_screen_def
  by (intro exI [of _ "crt s"] exI [of _ "cursor s"] exI [of _ "serial s"]) (cases s, simp)

lemma same_but_screen_trans: "same_but_screen s t \<Longrightarrow> same_but_screen t u \<Longrightarrow> same_but_screen s u"
proof -
  assume "same_but_screen s t" "same_but_screen t u"
  then obtain c p b c' p' b' where "t = s\<lparr>crt := c, cursor := p, serial := b\<rparr>"
    "u = t\<lparr>crt := c', cursor := p', serial := b'\<rparr>"
    unfolding same_but_screen_def by blast
  then have "u = s\<lparr>crt := c', cursor := p', serial := b'\<rparr>" by (cases s) simp
  then show ?thesis unfolding same_but_screen_def by blast
qed

lemma same_but_screen_sel:
  assumes "same_but_screen s t"
  shows "cpus t = cpus s" "this_cpu t = this_cpu s" "locks t = locks s" "stackmem t = stackmem s"
    "callframe t = callframe s" "uart t = uart s" "cons_locking t = cons_locking s"
    "panicked t = panicked s" "conout.more t = conout.more s"
  using assms by (auto simp: same_but_screen_def)

lemma same_but_screen_upd:
  "same_but_screen s (s\<lparr>crt := c\<rparr>)"
  "same_but_screen s (s\<lparr>cursor := p\<rparr>)"
  "same_but_screen s (s\<lparr>serial := b\<rparr>)"
  "same_but_screen s (s\<lparr>cursor := p, crt := c\<rparr>)"
  unfolding same_but_screen_def
  by (intro exI [of _ c] exI [of _ "cursor s"] exI [of _ "serial s"], cases s, simp,
      intro exI [of _ "crt s"] exI [of _ p] exI [of _ "serial s"], cases s, simp,
      intro exI [of _ "crt s"] exI [of _ "cursor s"] exI [of _ b], cases s, simp,
      intro exI [of _ c] exI [of _ p] exI [of _ "serial s"], cases s, simp)

lemma wp_uartputc: "wp (uartputc c) (\<lambda>_ t. cursor t = cursor s \<and> same_but_screen s t) s"
  by (simp add: uartputc_def wp same_but_screen_upd)

lemma newline_pos: "p < 1920 \<Longrightarrow> p + (80 - p mod 80) \<le> (1920 :: nat)"
proof -
  assume "p < 1920"
  then have "p div 80 < 24" by simp
  moreover have "p = 80 * (p div 80) + p mod 80" "p mod 80 < 80" by simp_all
  ultimately show ?thesis by linarith
qed

lemma wp_cga_finish:
  assumes "pos1 \<le> 1920" "same_but_screen s t"
  shows "wp (cga_finish pos1) (\<lambda>_ u. cga_inv u \<and> same_but_screen s u) t"
proof (cases "pos1 div 80 \<ge> 24")
  case True
  let ?t1 = "t\<lparr>crt := scroll_up (crt t) (pos1 - 80)\<rparr>"
  have "same_but_screen s ?t1"
    using assms(2) same_but_screen_upd(1) by (rule same_but_screen_trans)
  then have "same_but_screen s (?t1\<lparr>cursor := q, crt := w\<rparr>)" for q w
    using same_but_screen_upd(4) by (rule same_but_screen_trans)
  moreover have "pos1 = 1920" using True assms(1) by simp
  ultimately show ?thesis by (simp add: cga_finish_def wp cga_inv_def unat_of_nat)
next
  case False
  have "same_but_screen s (t\<lparr>cursor := q, crt := w\<rparr>)" for q w
    using assms(2) same_but_screen_upd(4) by (rule same_but_screen_trans)
  moreover have "pos1 < 1920" using False by simp
  ultimately show ?thesis using False by (simp add: cga_finish_def wp cga_inv_def unat_of_nat)
qed

lemma wp_cgaputc:
  assumes "cga_inv s"
  shows "wp (cgaputc c) (\<lambda>_ t. cga_inv t \<and> same_but_screen s t) s"
proof -
  let ?p = "unat (cursor s)"
  have p: "?p < 1920" using assms by (simp add: cga_inv_def)
  have fin: "wp (cga_finish q) (\<lambda>_ t. cga_inv t \<and> same_but_screen s t) s" if "q \<le> 1920" for q
    by (rule wp_cga_finish [OF that]) simp
  have put: "wp (cga_finish (?p + 1)) (\<lambda>_ t. cga_inv t \<and> same_but_screen s t) (s\<lparr>crt := w\<rparr>)" for w
    by (rule wp_cga_finish) (use p in \<open>simp_all add: same_but_screen_upd(1)\<close>)
  have "?p - 1 \<le> 1920" "?p \<le> 1920" using p by simp_all
  then show ?thesis
    by (simp only: cgaputc_def wp_bnd wp_gets wp_if wp_thn wp_modify put fin newline_pos [OF p]
        if_True if_cancel split: if_split) (simp add: fin)
qed

lemma wp_consputc:
  assumes "cga_inv s" "\<not> panicked s"
  shows "wp (consputc c) (\<lambda>_ t. cga_inv t \<and> same_but_screen s t) s"
proof -
  have cga: "wp (cgaputc c) (\<lambda>_ u. cga_inv u \<and> same_but_screen s u) t"
    if "cursor t = cursor s \<and> same_but_screen s t" for t
    by (rule wp_mono [OF wp_cgaputc]) (use that assms in \<open>auto simp: cga_inv_def intro: same_but_screen_trans\<close>)
  have uart: "wp (if c = BACKSPACE then seqs [uartputc 8, uartputc 32, uartputc 8] else uartputc c)
      (\<lambda>_ t. cursor t = cursor s \<and> same_but_screen s t) s"
    by (simp add: wp uartputc_def same_but_screen_upd)
  have "wp (seqs [if c = BACKSPACE then seqs [uartputc 8, uartputc 32, uartputc 8] else uartputc c, cgaputc c])
      (\<lambda>_ t. cga_inv t \<and> same_but_screen s t) s"
    by (rule wp_seqsI [OF uart]) (simp only: wp_seqs_one cga)
  with assms(2) show ?thesis by (simp add: consputc_def wp)
qed

text \<open>Any sequence of characters.\<close>

lemma wp_consputs:
  assumes "cga_inv s" "\<not> panicked s"
  shows "wp (for_each cs (\<lambda>c. consputc (f c))) (\<lambda>_ t. cga_inv t \<and> same_but_screen s t) s"
proof -
  have "wp (consputc (f c)) (\<lambda>_ u. cga_inv u \<and> same_but_screen s u) t"
    if "cga_inv t \<and> same_but_screen s t" for c t
    by (rule wp_mono [OF wp_consputc])
      (use that assms(2) in \<open>auto simp: same_but_screen_sel intro: same_but_screen_trans\<close>)
  then show ?thesis
    using wp_for_each [where I = "\<lambda>_ t. cga_inv t \<and> same_but_screen s t" and s = s and xs = cs]
      assms(1) by simp
qed

text \<open>Formatted output: the arguments are of the kinds that the format asks for.\<close>

fun fmt_ok :: "u8 list \<Rightarrow> carg list \<Rightarrow> bool" where
  "fmt_ok [] args = True"
| "fmt_ok (c # fmt) args =
    (if c = 0 then True
     else if c \<noteq> 37 then fmt_ok fmt args
     else case fmt of
       [] \<Rightarrow> True
     | d # fmt' \<Rightarrow>
       if d = 0 then True
       else if d = 100 \<or> d = 120 \<or> d = 112 then (case args of CInt x # args' \<Rightarrow> fmt_ok fmt' args' | _ \<Rightarrow> False)
       else if d = 115 then (case args of CStr p # args' \<Rightarrow> fmt_ok fmt' args' | _ \<Rightarrow> False)
       else fmt_ok fmt' args)"

lemma wp_then_screen:
  assumes "wp m (\<lambda>_ t. cga_inv t \<and> same_but_screen s t) s" "\<not> panicked s"
    and "\<And>t. cga_inv t \<Longrightarrow> \<not> panicked t \<Longrightarrow> wp k (\<lambda>_ u. cga_inv u \<and> same_but_screen t u) t"
  shows "wp (thn m k) (\<lambda>_ u. cga_inv u \<and> same_but_screen s u) s"
  unfolding wp_thn
proof (rule wp_mono [OF assms(1)])
  fix t assume t: "cga_inv t \<and> same_but_screen s t"
  then have "\<not> panicked t" using assms(2) by (auto dest: same_but_screen_sel)
  with t show "wp k (\<lambda>_ u. cga_inv u \<and> same_but_screen s u) t"
    using assms(3) [of t] by (auto elim!: wp_mono intro: same_but_screen_trans)
qed

lemma wp_cprintf_loop:
  "cga_inv s \<Longrightarrow> \<not> panicked s \<Longrightarrow> fmt_ok fmt args \<Longrightarrow> wp (cprintf_loop fmt args) (\<lambda>_ t. cga_inv t \<and> same_but_screen s t) s"
proof (induction fmt args arbitrary: s rule: fmt_ok.induct)
  case (2 c fmt args)
  consider "c = 0" | "c \<noteq> 0" "c \<noteq> 37" | "c = 37" "fmt = [] \<or> hd fmt = 0" | d fmt' where "c = 37" "fmt = d # fmt'" "d \<noteq> 0"
    by (cases fmt) auto
  then show ?case
  proof cases
    case 2
    then have "fmt_ok fmt args" using "2.prems"(3) by simp
    note IH = "2.IH"(1) [OF 2(1) 2(2) _ _ this]
    have "wp (thn (consputc (uint c)) (cprintf_loop fmt args)) (\<lambda>_ t. cga_inv t \<and> same_but_screen s t) s"
      by (intro wp_then_screen wp_consputc IH "2.prems"(1,2)) assumption+
    then show ?thesis using 2 by simp
  next
    case 3
    then show ?thesis using "2.prems"(1) by (cases fmt) (simp_all add: wp_ret)
  next
    case 4
    then show ?thesis using 2
      by (auto simp: printint_def split: list.splits carg.splits if_splits intro!: wp_then_screen wp_consputs wp_consputc)
  qed (use "2.prems"(1) in \<open>simp add: wp_ret\<close>)
qed (simp add: wp_ret)

lemma wp_cprintf:
  "cga_inv s \<Longrightarrow> \<not> panicked s \<Longrightarrow> \<not> cons_locking s \<Longrightarrow> fmt_ok (bytes fmt) args
   \<Longrightarrow> wp (cprintf fmt args) (\<lambda>_ t. cga_inv t \<and> same_but_screen s t) s"
  using wp_cprintf_loop [of s "bytes fmt" args] by (simp add: cprintf_def wp whenk_def)

section \<open>The digits denote the number\<close>

text \<open>Reading printed digits back: \<open>num_of\<close> takes them least significant first.\<close>

definition digit_val :: "u8 \<Rightarrow> nat" where
  "digit_val c = (if unat c < 58 then unat c - 48 else unat c - 87)"

fun num_of :: "nat \<Rightarrow> u8 list \<Rightarrow> nat" where
  "num_of base [] = 0"
| "num_of base (c # cs) = digit_val c + base * num_of base cs"

definition read_int :: "nat \<Rightarrow> u8 list \<Rightarrow> int" where
  "read_int base cs = (case cs of
      c # ds \<Rightarrow> if c = 45 then - int (num_of base (rev ds)) else int (num_of base (rev cs))
    | [] \<Rightarrow> 0)"

declare printint_digits.simps [simp del]

lemma digit_val_char: "d < 16 \<Longrightarrow> digit_val (digit_char d) = d \<and> digit_char d \<noteq> 45"
  by (simp add: eval_nat_numeral less_Suc_eq) (auto simp: digit_val_def digit_char_def bytes_def of_char_def)

lemma num_of_digits:
  "2 \<le> base \<Longrightarrow> base \<le> 16 \<Longrightarrow> num_of base (printint_digits x base) = x"
proof (induction x base rule: printint_digits.induct)
  case (1 x base)
  have "x mod base < base" using "1.prems" by simp
  then have "x mod base < 16" using "1.prems" by linarith
  with 1 digit_val_char [of "x mod base"] show ?case
    by (subst printint_digits.simps) (auto simp: div_eq_0_iff)
qed

lemma printint_digits_no_sign:
  "2 \<le> base \<Longrightarrow> base \<le> 16 \<Longrightarrow> 45 \<notin> set (printint_digits x base)"
proof (induction x base rule: printint_digits.induct)
  case (1 x base)
  have "x mod base < base" using "1.prems" by simp
  then have "x mod base < 16" using "1.prems" by linarith
  with 1 digit_val_char [of "x mod base"] show ?case
    by (subst printint_digits.simps) auto
qed

lemma printint_digits_length:
  "2 \<le> base \<Longrightarrow> x < base ^ n \<Longrightarrow> 0 < n \<Longrightarrow> length (printint_digits x base) \<le> n"
proof (induction n arbitrary: x)
  case (Suc n)
  have "x div base < base ^ n"
    using Suc.prems by (simp add: less_mult_imp_div_less mult.commute)
  with Suc show ?case by (subst printint_digits.simps) (cases n, auto)
qed simp

lemma printint_digits_nonempty: "printint_digits x base \<noteq> []"
  by (subst printint_digits.simps) simp

lemma read_int_digits:
  assumes "2 \<le> base" "base \<le> 16"
  shows "read_int base (rev (printint_digits x base)) = int x"
proof -
  have "hd (rev (printint_digits x base)) \<noteq> 45"
    using printint_digits_no_sign [OF assms] printint_digits_nonempty
    by (metis hd_in_set rev_is_Nil_conv set_rev)
  then show ?thesis
    using num_of_digits [OF assms, of x] printint_digits_nonempty [of x base]
    by (cases "rev (printint_digits x base)") (auto simp: read_int_def rev_eq_Cons_iff)
qed

lemma neg_s32_value:
  assumes "in_s32 xx" "xx < 0"
  shows "int (unat (- word_of_int xx :: u32)) = - xx"
proof -
  have "uint (- word_of_int xx :: u32) = uint (word_of_int (- xx) :: u32)" by simp
  also have "\<dots> = - xx" using assms unfolding uint_word_of_int by (simp add: in_s32_def)
  finally show ?thesis by simp
qed

text \<open>
  C3. For every 32-bit integer and both bases the kernel prints with, \<^verbatim>\<open>printint\<close> fills
  at most the 16 bytes of its buffer, and what it prints, read as a number, is the argument: the
  signed value when \<^verbatim>\<open>sgn\<close> is set (the most negative integer included), the value
  modulo \<open>2 ^ 32\<close> otherwise.
\<close>

theorem printint_denotes:
  assumes "in_s32 xx" "base = 10 \<or> base = 16"
  shows "length (printint_buf xx base sgnd) \<le> 16
    \<and> read_int base (rev (printint_buf xx base sgnd)) = (if sgnd then xx else xx mod 2 ^ 32)"
proof -
  have b: "2 \<le> base" "base \<le> 16" using assms(2) by auto
  have len: "length (printint_digits (unat w) base) \<le> 15" for w :: u32
  proof -
    have "(2::nat) ^ 32 \<le> 10 ^ 15" by simp
    also have "10 ^ 15 \<le> base ^ 15" using assms(2) by (auto intro: power_mono)
    finally have "2 ^ 32 \<le> base ^ 15" .
    with unat_lt32 have "unat w < base ^ 15" by (rule less_le_trans)
    from printint_digits_length [OF b(1) this] show ?thesis by simp
  qed
  have neg: "read_int base (45 # rev (printint_digits x base)) = - int x" for x
    using num_of_digits [OF b] by (simp add: read_int_def)
  have nonneg: "uint (word_of_int xx :: u32) = (if 0 \<le> xx then xx else xx mod 2 ^ 32)"
    using assms(1) by (simp add: in_s32_def uint_word_of_int)
  show ?thesis
  proof (cases "sgnd \<and> xx < 0")
    case True
    then show ?thesis using len [of "- word_of_int xx"] neg neg_s32_value [OF assms(1)]
      by (simp add: printint_buf_def)
  next
    case False
    then show ?thesis using len [of "word_of_int xx"] read_int_digits [OF b] nonneg assms(1)
      by (auto simp: printint_buf_def in_s32_def)
  qed
qed

lemma printint_denotes_witness:
  "in_s32 (-2147483648) \<and> length (printint_buf (-2147483648) 10 True) \<le> 16
    \<and> read_int 10 (rev (printint_buf (-2147483648) 10 True)) = -2147483648"
proof -
  have i: "in_s32 (-2147483648)" by (simp add: in_s32_def)
  show ?thesis using i printint_denotes [OF i, of 10 True] by simp
qed

end
