(* ===== verification/Kalloc.thy ===== *)
theory Kalloc
  imports Memory Cprintf
begin

text \<open>
  The physical page allocator \<^verbatim>\<open>kalloc.c\<close>. Its free list is threaded through the free
  pages themselves: the first word of a free page is the address of the next one. The model
  keeps that representation (\<open>freelist\<close> and the byte memory \<open>pmem\<close>); \<open>flist\<close> is its
  abstraction to a list of pages.

  Shown: \<^verbatim>\<open>kalloc\<close> and \<^verbatim>\<open>kfree\<close> implement a stack of pages, so they satisfy the
  interface \<open>page_allocator\<close>; a page is never handed out twice without being freed in between,
  no page is lost, and \<^verbatim>\<open>kinit\<close> puts exactly the pages between the end of the kernel
  and \<^verbatim>\<open>PHYSTOP\<close> on the list.
\<close>

section \<open>State\<close>

record kmem = conout +
  pmem :: mem
  freelist :: u32

section \<open>Operations\<close>

definition kfree :: "u32 \<Rightarrow> ('a kmem_scheme, unit) kop" where
  "kfree v =
    (if v mod PGSIZE \<noteq> 0 \<or> v < 1024 * 1024 \<or> v \<ge> PHYSTOP then panic ''kfree''
     else seqs [
       modify (\<lambda>s. s\<lparr>pmem := memset (pmem s) v 1 PGSIZE\<rparr>),
       acquire KmemLock,
       modify (\<lambda>s. s\<lparr>pmem := st32 (pmem s) v (freelist s)\<rparr>),
       modify (\<lambda>s. s\<lparr>freelist := v\<rparr>),
       release KmemLock])"

definition kalloc :: "('a kmem_scheme, u32) kop" where
  "kalloc =
    thn (acquire KmemLock) (
    bnd (gets freelist) (\<lambda>r.
    thn (whenk (r \<noteq> 0) (modify (\<lambda>s. s\<lparr>freelist := ld32 (pmem s) r\<rparr>))) (
    thn (release KmemLock) (
    ret r))))"

text \<open>The loop of \<^verbatim>\<open>kinit\<close> runs at most once per page below \<^verbatim>\<open>PHYSTOP\<close>, that is
  \<open>4096\<close> times; \<open>4097\<close> units of fuel are enough.\<close>

definition kinit :: "u32 \<Rightarrow> ('a kmem_scheme, unit) kop" where
  "kinit kend =
    thn (initlock KmemLock ''kmem'') (
    loop_fuel 4097 (\<lambda>p.
      if p + PGSIZE - 1 < PHYSTOP then thn (kfree p) (ret (Inl (p + PGSIZE)))
      else ret (Inr ())) (PGROUNDUP kend))"

section \<open>The free list\<close>

definition page_ok :: "u32 \<Rightarrow> bool" where
  "page_ok p \<longleftrightarrow> 4096 dvd unat p \<and> 0x100000 \<le> unat p \<and> unat p < 0x1000000"

primrec flist :: "mem \<Rightarrow> u32 \<Rightarrow> u32 list \<Rightarrow> bool" where
  "flist m p [] \<longleftrightarrow> p = 0"
| "flist m p (q # qs) \<longleftrightarrow> p = q \<and> flist m (ld32 m q) qs"

definition free_pages :: "'a kmem_scheme \<Rightarrow> u32 list \<Rightarrow> bool" where
  "free_pages s qs \<longleftrightarrow> flist (pmem s) (freelist s) qs \<and> distinct qs \<and> (\<forall>q \<in> set qs. page_ok q)"

text \<open>What an allocator operation leaves alone: processors, locks, the console, the layers
  above, and every byte outside the pages concerned.\<close>

definition kmem_frame :: "'a kmem_scheme \<Rightarrow> 'a kmem_scheme \<Rightarrow> bool" where
  "kmem_frame s t \<longleftrightarrow> calm s t \<and> crt t = crt s \<and> cursor t = cursor s \<and> uart t = uart s
     \<and> serial t = serial s \<and> cons_locking t = cons_locking s \<and> panicked t = panicked s
     \<and> kmem.more t = kmem.more s"

definition in_page :: "u32 \<Rightarrow> u32 \<Rightarrow> bool" where
  "in_page p a \<longleftrightarrow> unat p \<le> unat a \<and> unat a < unat p + 4096"

lemma kmem_lock_sel [simp]:
  "pmem (acq lk s) = pmem s"
  "freelist (acq lk s) = freelist s"
  "kmem.more (acq lk s) = kmem.more s"
  "pmem (rel lk s) = pmem s"
  "freelist (rel lk s) = freelist s"
  "kmem.more (rel lk s) = kmem.more s"
  "pmem (lockround lk s) = pmem s"
  "freelist (lockround lk s) = freelist s"
  "kmem.more (lockround lk s) = kmem.more s"
  by (simp_all add: acq_def rel_def lockround_def)

lemma kmem_lock_upd [simp]:
  "acq lk (pmem_update g_pmem s) = pmem_update g_pmem (acq lk s)"
  "acq lk (freelist_update g_freelist s) = freelist_update g_freelist (acq lk s)"
  "rel lk (pmem_update g_pmem s) = pmem_update g_pmem (rel lk s)"
  "rel lk (freelist_update g_freelist s) = freelist_update g_freelist (rel lk s)"
  "lockround lk (pmem_update g_pmem s) = pmem_update g_pmem (lockround lk s)"
  "lockround lk (freelist_update g_freelist s) = freelist_update g_freelist (lockround lk s)"
  by (simp_all add: acq_def rel_def lockround_def)

lemma kmem_lock_inv [simp]:
  "lock_free lk (pmem_update g_pmem s) = lock_free lk s"
  "lock_free lk (freelist_update g_freelist s) = lock_free lk s"
  "lock_mine lk (pmem_update g_pmem s) = lock_mine lk s"
  "lock_mine lk (freelist_update g_freelist s) = lock_mine lk s"
  "cli_ok (pmem_update g_pmem s) = cli_ok s"
  "cli_ok (freelist_update g_freelist s) = cli_ok s"
  by (simp_all add: lock_free_def lock_mine_def cli_ok_def)

lemma kmem_calm_upd [simp]:
  "calm s (pmem_update g_pmem t) = calm s t"
  "calm s (freelist_update g_freelist t) = calm s t"
  "calm (pmem_update g_pmem s) t = calm s t"
  "calm (freelist_update g_freelist s) t = calm s t"
  by (simp_all add: calm_def)

lemma kmem_cpu_sel [simp]:
  "pmem (upd_cpu h s) = pmem s"
  "freelist (upd_cpu h s) = freelist s"
  "kmem.more (upd_cpu h s) = kmem.more s"
  by (simp_all add: upd_cpu_def)

lemma kmem_frame_refl [intro]: "kmem_frame s s"
  by (simp add: kmem_frame_def calm_refl)

lemma kmem_frame_trans: "kmem_frame s t \<Longrightarrow> kmem_frame t u \<Longrightarrow> kmem_frame s u"
  unfolding kmem_frame_def by (auto intro: calm_trans)

lemma page_ok_kfree: "page_ok v \<longleftrightarrow> \<not> (v mod PGSIZE \<noteq> 0 \<or> v < 1024 * 1024 \<or> v \<ge> PHYSTOP)"
proof -
  have "v mod PGSIZE = 0 \<longleftrightarrow> 4096 dvd unat v"
    by (simp add: PGSIZE_def word_unat_eq_iff unat_mod dvd_eq_mod_eq_0)
  then show ?thesis
    by (simp add: page_ok_def PHYSTOP_def word_le_nat_alt word_less_nat_alt not_less not_le)
qed

lemma page_ok_aligned [simp]: "page_ok p \<Longrightarrow> aligned4 p"
  using dvd_trans [of 4 4096 "unat p"] by (simp add: page_ok_def aligned4_def dvd_eq_mod_eq_0)

lemma page_ok_nz [simp]: "page_ok p \<Longrightarrow> p \<noteq> 0"
  by (auto simp: page_ok_def)

lemma in_page_div: "4096 dvd unat p \<Longrightarrow> in_page p a \<longleftrightarrow> unat a div 4096 = unat p div 4096"
proof (elim dvdE)
  fix k assume k: "unat p = 4096 * k"
  have "unat a = 4096 * (unat a div 4096) + unat a mod 4096" "unat a mod 4096 < 4096" by simp_all
  with k show ?thesis by (auto simp: in_page_def)
qed

lemma in_page_unique: "in_page p a \<Longrightarrow> in_page q a \<Longrightarrow> page_ok p \<Longrightarrow> page_ok q \<Longrightarrow> p = q"
  by (simp add: in_page_div page_ok_def word_unat_eq_iff dvd_div_eq_iff)

lemma in_page_word: "page_ok p \<Longrightarrow> k < 4 \<Longrightarrow> in_page p (p + of_nat k)"
  by (simp add: in_page_def aligned4_add)

text \<open>The list only depends on the pages in it.\<close>

lemma ld32_page_cong:
  assumes "page_ok p" "\<And>a. in_page p a \<Longrightarrow> m a = m' a"
  shows "ld32 m p = ld32 m' p"
proof -
  have "m (p + of_nat k) = m' (p + of_nat k)" if "k < 4" for k
    using assms(2) in_page_word [OF assms(1) that] by blast
  from this [of 0] this [of 1] this [of 2] this [of 3] show ?thesis by (intro ld32_cong) simp_all
qed

lemma flist_cong:
  "\<forall>q \<in> set qs. page_ok q \<Longrightarrow> (\<And>q a. q \<in> set qs \<Longrightarrow> in_page q a \<Longrightarrow> m a = m' a)
   \<Longrightarrow> flist m p qs = flist m' p qs"
proof (induction qs arbitrary: p)
  case (Cons q qs)
  have "ld32 m q = ld32 m' q" by (rule ld32_page_cong) (use Cons.prems in auto)
  moreover have "flist m r qs = flist m' r qs" for r
    by (rule Cons.IH) (use Cons.prems in auto)
  ultimately show ?case by simp
qed simp

lemma memset_page:
  "page_ok p \<Longrightarrow> memset m p c PGSIZE a = (if in_page p a then c else m a)"
  by (subst memset_apply) (auto simp: page_ok_def PGSIZE_def in_page_def)

lemma st32_outside_page: "page_ok p \<Longrightarrow> \<not> in_page p a \<Longrightarrow> st32 m p v a = m a"
  using in_page_word [of p 0] in_page_word [of p 1] in_page_word [of p 2] in_page_word [of p 3]
  by (intro st32_other) auto

definition kmem_boot :: "'a \<Rightarrow> 'a kmem_scheme" where
  "kmem_boot x = kmem.extend (conout_boot (kmem.fields (\<lambda>_. 0) 0)) x"

lemmas boot_defs = kmem_boot_def conout_boot_def machine_boot_def cpu_boot_def kmem.defs conout.defs

section \<open>The operations on the free list\<close>


lemma wp_kfree:
  assumes "lock_free KmemLock s" "cli_ok s" "page_ok v"
  shows "wp (kfree v) Q s = Q () ((lockround KmemLock s)
     \<lparr>pmem := st32 (memset (pmem s) v 1 PGSIZE) v (freelist s), freelist := v\<rparr>)"
  using assms page_ok_kfree [of v]
  by (simp add: kfree_def wp lock_simps)

lemma wp_kalloc:
  assumes "lock_free KmemLock s" "cli_ok s"
  shows "wp kalloc Q s = Q (freelist s) (if freelist s = 0 then lockround KmemLock s
     else (lockround KmemLock s)\<lparr>freelist := ld32 (pmem s) (freelist s)\<rparr>)"
  using assms by (cases "freelist s = 0") (simp_all add: kalloc_def wp lock_simps)

lemma kmem_frame_lockround:
  "lock_free KmemLock s \<Longrightarrow> cli_ok s \<Longrightarrow> kmem_frame s ((lockround KmemLock s)\<lparr>pmem := m, freelist := p\<rparr>)"
  by (simp add: kmem_frame_def lockround_calm)

lemma kfree_free_pages:
  assumes "lock_free KmemLock s" "cli_ok s" "page_ok v" "free_pages s qs" "v \<notin> set qs"
  shows "wp (kfree v) (\<lambda>_ t. free_pages t (v # qs) \<and> kmem_frame s t
     \<and> (\<forall>a. \<not> in_page v a \<longrightarrow> pmem t a = pmem s a)) s"
proof -
  let ?m = "st32 (memset (pmem s) v 1 PGSIZE) v (freelist s)"
  have m: "?m a = pmem s a" if "\<not> in_page v a" for a
    using that assms(3) by (simp add: st32_outside_page memset_page)
  have "flist ?m (freelist s) qs = flist (pmem s) (freelist s) qs"
  proof (rule flist_cong)
    show "\<forall>q \<in> set qs. page_ok q" using assms(4) by (simp add: free_pages_def)
    fix q a assume "q \<in> set qs" "in_page q a"
    then have "\<not> in_page v a" using assms(3-5) in_page_unique by (auto simp: free_pages_def)
    then show "?m a = pmem s a" by (rule m)
  qed
  then show ?thesis
    using assms m by (simp add: wp_kfree free_pages_def kmem_frame_lockround)
qed

lemma kalloc_free_pages:
  assumes "lock_free KmemLock s" "cli_ok s" "free_pages s qs"
  shows "wp kalloc (\<lambda>r t. kmem_frame s t \<and> pmem t = pmem s
     \<and> (case qs of [] \<Rightarrow> r = 0 \<and> free_pages t [] | q # qs' \<Rightarrow> r = q \<and> free_pages t qs')) s"
proof -
  have f: "kmem_frame s (lockround KmemLock s)" "kmem_frame s (lockround KmemLock s\<lparr>freelist := p\<rparr>)" for p
    using assms by (simp_all add: kmem_frame_def lockround_calm)
  show ?thesis
    using assms f by (cases qs) (auto simp: wp_kalloc free_pages_def)
qed

section \<open>Clients of a page allocator\<close>

text \<open>A client asks for pages and gives back pages it holds; \<open>serve\<close> runs its requests and
  returns the pages it holds at the end. A page the client does not hold is not given back.\<close>

datatype request = Alloc | Free u32

primrec serve ::
  "('s, u32) kop \<Rightarrow> (u32 \<Rightarrow> ('s, unit) kop) \<Rightarrow> request list \<Rightarrow> u32 list \<Rightarrow> ('s, u32 list) kop" where
  "serve al fr [] held = ret held"
| "serve al fr (r # rs) held = (case r of
      Alloc \<Rightarrow> bnd al (\<lambda>p. serve al fr rs (if p = 0 then held else p # held))
    | Free p \<Rightarrow> if p \<in> set held then thn (fr p) (serve al fr rs (remove1 p held))
                else serve al fr rs held)"

text \<open>The contract of a page allocator, and what every client of it can rely on.\<close>

locale page_allocator =
  fixes al :: "('s, u32) kop"
    and fr :: "u32 \<Rightarrow> ('s, unit) kop"
    and ready :: "'s \<Rightarrow> bool"
    and pool :: "'s \<Rightarrow> u32 list \<Rightarrow> bool"
    and valid :: "u32 \<Rightarrow> bool"
  assumes alloc_spec: "ready s \<Longrightarrow> pool s qs \<Longrightarrow> wp al (\<lambda>r t. ready t
      \<and> (case qs of [] \<Rightarrow> r = 0 \<and> pool t [] | q # qs' \<Rightarrow> r = q \<and> pool t qs')) s"
    and free_spec: "ready s \<Longrightarrow> pool s qs \<Longrightarrow> valid v \<Longrightarrow> v \<notin> set qs
      \<Longrightarrow> wp (fr v) (\<lambda>_ t. ready t \<and> pool t (v # qs)) s"
    and pool_pages: "pool s qs \<Longrightarrow> distinct qs \<and> (\<forall>q \<in> set qs. valid q)"
    and valid_nz: "valid v \<Longrightarrow> v \<noteq> 0"
begin

text \<open>The pages held and the pages free partition the pages there were, at all times.\<close>

definition split_pool :: "u32 set \<Rightarrow> u32 list \<Rightarrow> 's \<Rightarrow> bool" where
  "split_pool P held s \<longleftrightarrow> ready s \<and> (\<forall>p \<in> P. valid p)
     \<and> (\<exists>qs. pool s qs \<and> distinct (held @ qs) \<and> set held \<union> set qs = P)"

lemma serve_alloc:
  assumes "split_pool P held s"
  shows "wp al (\<lambda>p t. split_pool P (if p = 0 then held else p # held) t) s"
proof -
  from assms obtain qs where qs: "ready s" "pool s qs" "distinct (held @ qs)" "set held \<union> set qs = P"
    and P: "\<forall>p \<in> P. valid p" by (auto simp: split_pool_def)
  show ?thesis
  proof (rule wp_mono [OF alloc_spec [OF qs(1,2)]])
    fix r t
    assume r: "ready t \<and> (case qs of [] \<Rightarrow> r = 0 \<and> pool t [] | q # qs' \<Rightarrow> r = q \<and> pool t qs')"
    show "split_pool P (if r = 0 then held else r # held) t"
    proof (cases qs)
      case Nil
      with r qs P show ?thesis by (auto simp: split_pool_def)
    next
      case (Cons q qs')
      then have "valid q" using qs P by auto
      then have "q \<noteq> 0" by (rule valid_nz)
      with Cons r qs P show ?thesis by (auto simp: split_pool_def intro!: exI [of _ qs'])
    qed
  qed
qed

lemma serve_free:
  assumes "split_pool P held s" "p \<in> set held"
  shows "wp (fr p) (\<lambda>_ t. split_pool P (remove1 p held) t) s"
proof -
  from assms obtain qs where qs: "ready s" "pool s qs" "distinct (held @ qs)" "set held \<union> set qs = P"
    and P: "\<forall>p \<in> P. valid p" by (auto simp: split_pool_def)
  have "valid p" "p \<notin> set qs" using qs P assms(2) by auto
  from free_spec [OF qs(1,2) this] show ?thesis
    by (rule wp_mono) (use qs P assms(2) in \<open>auto simp: split_pool_def intro!: exI [of _ "p # qs"]\<close>)
qed

lemma serve_split: "split_pool P held s \<Longrightarrow> wp (serve al fr rs held) (\<lambda>h t. split_pool P h t) s"
proof (induction rs arbitrary: held s)
  case (Cons r rs)
  show ?case
  proof (cases r)
    case Alloc
    with wp_bndI [OF serve_alloc [OF Cons.prems] Cons.IH] show ?thesis by simp
  next
    case (Free p)
    with wp_thnI [OF serve_free [OF Cons.prems] Cons.IH] Cons show ?thesis by simp
  qed
qed (simp add: wp)

end

definition kmem_ready :: "'a kmem_scheme \<Rightarrow> bool" where
  "kmem_ready s \<longleftrightarrow> lock_free KmemLock s \<and> cli_ok s"

lemma kmem_frame_ready: "kmem_frame s t \<Longrightarrow> kmem_ready t = kmem_ready s"
  using calm_locks [of s t] calm_cli_ok [of s t] by (simp add: kmem_frame_def kmem_ready_def)

interpretation kal: page_allocator kalloc kfree kmem_ready free_pages page_ok
proof
  fix s :: "'a kmem_scheme" and qs
  assume a: "kmem_ready s" "free_pages s qs"
  show "wp kalloc (\<lambda>r t. kmem_ready t \<and>
      (case qs of [] \<Rightarrow> r = 0 \<and> free_pages t [] | q # qs' \<Rightarrow> r = q \<and> free_pages t qs')) s"
    using a by (intro wp_mono [OF kalloc_free_pages])
      (auto simp: kmem_frame_ready kmem_ready_def [of s])
  show "wp (kfree v) (\<lambda>_ t. kmem_ready t \<and> free_pages t (v # qs)) s" if "page_ok v" "v \<notin> set qs" for v
    using a that by (intro wp_mono [OF kfree_free_pages])
      (auto simp: kmem_frame_ready kmem_ready_def [of s])
qed (auto simp: free_pages_def)

text \<open>C4. No page is handed out twice and none is lost: run any sequence of \<^verbatim>\<open>kalloc\<close>
  and \<^verbatim>\<open>kfree\<close> requests of a client that frees only pages it holds. The allocator never
  panics or hangs, and at the end the pages held and the pages on the free list are disjoint,
  without repetition, and together exactly the pages there were at the start.\<close>

theorem kalloc_kfree_partition:
  assumes "kmem_ready s" "free_pages s qs"
  shows "wp (serve kalloc kfree rs []) (\<lambda>held t. kmem_ready t
    \<and> (\<exists>qs'. free_pages t qs' \<and> distinct (held @ qs') \<and> set held \<union> set qs' = set qs)) s"
proof -
  have "kal.split_pool (set qs) [] s"
    using assms by (auto simp: kal.split_pool_def free_pages_def)
  from kal.serve_split [OF this] show ?thesis
    by (rule wp_mono) (auto simp: kal.split_pool_def)
qed

lemma kmem_ready_boot: "kmem_ready (kmem_boot x)"
  by (simp add: kmem_ready_def boot_defs lock_free_def cli_ok_def)

lemma kalloc_kfree_partition_witness:
  "wp (serve kalloc kfree [Alloc, Alloc, Free 0x200000, Alloc] []) (\<lambda>held t. kmem_ready t
    \<and> (\<exists>qs'. free_pages t qs' \<and> distinct (held @ qs') \<and> set held \<union> set qs' = {0x200000}))
   ((kmem_boot ())\<lparr>freelist := 0x200000\<rparr>)"
proof -
  let ?s = "(kmem_boot ())\<lparr>freelist := 0x200000\<rparr>"
  have r: "kmem_ready ?s" using kmem_ready_boot [of "()"] by (simp add: kmem_ready_def)
  have f: "free_pages ?s [0x200000]" by (simp add: free_pages_def page_ok_def boot_defs ld32_def)
  show ?thesis
    using kalloc_kfree_partition [OF r f, of "[Alloc, Alloc, Free 0x200000, Alloc]"]
    by (simp only: list.set)
qed

section \<open>Initialisation\<close>

text \<open>The \<open>n\<close> pages from \<open>p\<close> on.\<close>

definition pages_from :: "u32 \<Rightarrow> nat \<Rightarrow> u32 list" where
  "pages_from p n = map (\<lambda>i. p + of_nat (4096 * i)) [0..<n]"

lemma pages_from_Suc: "pages_from p (Suc n) = p # pages_from (p + PGSIZE) n"
  by (simp add: pages_from_def upt_conv_Cons map_Suc_upt [symmetric] PGSIZE_def comp_def algebra_simps
      del: upt_Suc)

lemma next_page:
  assumes "unat p \<le> 0x1000000"
  shows "unat (p + PGSIZE) = unat p + 4096" "p + PGSIZE - 1 < PHYSTOP \<longleftrightarrow> unat p + 4095 < 0x1000000"
proof -
  have "p + PGSIZE - 1 < PHYSTOP \<longleftrightarrow> p + 4095 < PHYSTOP"
    by (simp add: PGSIZE_def add.commute)
  moreover have "unat (p + 4095) = unat p + 4095" using assms by (simp add: unat_add_lt)
  ultimately show "p + PGSIZE - 1 < PHYSTOP \<longleftrightarrow> unat p + 4095 < 0x1000000"
    by (simp add: PHYSTOP_def word_less_nat_alt)
  show "unat (p + PGSIZE) = unat p + 4096" using assms by (simp add: PGSIZE_def unat_add_lt)
qed

lemma kinit_loop:
  fixes s :: "'a kmem_scheme"
  assumes "n < fuel" "unat p + 4096 * n = 0x1000000" "0x100000 \<le> unat p" "4096 dvd unat p"
    and "kmem_ready s" "free_pages s qs" "\<forall>q \<in> set qs. unat q < unat p"
  shows "wp (loop_fuel fuel (\<lambda>p. if p + PGSIZE - 1 < PHYSTOP
      then thn (kfree p) (ret (Inl (p + PGSIZE))) else ret (Inr ())) p)
    (\<lambda>_ t. kmem_ready t \<and> free_pages t (rev (pages_from p n) @ qs)) s"
  using assms
proof (induction n arbitrary: fuel p s qs)
  case 0
  then obtain f where f: "fuel = Suc f" by (cases fuel) auto
  have "\<not> p + PGSIZE - 1 < PHYSTOP" using 0 by (simp add: next_page)
  with 0 f show ?case by (simp add: wp_loop_fuel_Suc wp pages_from_def)
next
  case (Suc n)
  then obtain f where f: "fuel = Suc f" by (cases fuel) auto
  have lt: "p + PGSIZE - 1 < PHYSTOP" and nxt: "unat (p + PGSIZE) = unat p + 4096"
    using Suc.prems by (simp_all add: next_page)
  have ok: "page_ok p" using Suc.prems by (simp add: page_ok_def)
  have fr: "wp (kfree p) (\<lambda>_ t. kmem_ready t \<and> free_pages t (p # qs)) s"
    using Suc.prems ok by (intro kal.free_spec) auto
  have "wp (loop_fuel f (\<lambda>p. if p + PGSIZE - 1 < PHYSTOP
        then thn (kfree p) (ret (Inl (p + PGSIZE))) else ret (Inr ())) (p + PGSIZE))
      (\<lambda>_ t. kmem_ready t \<and> free_pages t (rev (pages_from (p + PGSIZE) n) @ p # qs)) t"
    if "kmem_ready t \<and> free_pages t (p # qs)" for t :: "'a kmem_scheme"
    by (rule Suc.IH) (use Suc.prems that nxt f in auto)
  then show ?case
    unfolding f wp_loop_fuel_Suc pages_from_Suc by (simp add: lt wp) (rule wp_mono [OF fr])
qed

text \<open>C5. \<^verbatim>\<open>kinit\<close> returns, and leaves on the free list exactly the pages from the end of
  the kernel, rounded up, to \<^verbatim>\<open>PHYSTOP\<close>, highest first.\<close>

theorem kinit_pages:
  assumes "cli_ok s" "freelist s = 0" "0x100000 \<le> unat kend" "unat kend \<le> 0x1000000"
  shows "wp (kinit kend) (\<lambda>_ t. kmem_ready t
    \<and> free_pages t (rev (pages_from (PGROUNDUP kend) ((0x1000000 - unat (PGROUNDUP kend)) div 4096)))) s"
proof -
  let ?p = "PGROUNDUP kend"
  have up: "unat ?p = (unat kend + 4095) div 4096 * 4096"
    using assms(4) by (intro unat_PGROUNDUP) simp
  have "4096 dvd unat ?p" "0x100000 \<le> unat ?p" "unat ?p \<le> 0x1000000"
    using assms(3,4) by (simp_all add: up div_le_mono)
  moreover from this have "unat ?p + 4096 * ((0x1000000 - unat ?p) div 4096) = 0x1000000"
    by (simp add: dvd_mult_div_cancel dvd_diff_nat)
  ultimately show ?thesis
    unfolding kinit_def initlock_def wp_thn wp_modify
    using kinit_loop [of "(0x1000000 - unat ?p) div 4096" 4097 ?p
        "upd_lock KmemLock (\<lambda>l. l\<lparr>lk_name := ''kmem'', locked := 0, lk_cpu := None\<rparr>) s" "[]"] assms(1,2)
    by (simp add: kmem_ready_def lock_free_def cli_ok_def upd_lock_def free_pages_def)
qed

lemma kinit_pages_witness:
  "wp (kinit 0xffe123) (\<lambda>_ t. kmem_ready t \<and> free_pages t [0xfff000]) (kmem_boot ())"
proof -
  have "PGROUNDUP 0xffe123 = 0xfff000" by (simp add: PGROUNDUP_def PGSIZE_def)
  moreover have "pages_from 0xfff000 1 = [0xfff000]" by (simp add: pages_from_def)
  moreover have "cli_ok (kmem_boot ())" "freelist (kmem_boot ()) = 0"
    using kmem_ready_boot [of "()"] by (simp_all add: kmem_ready_def boot_defs)
  ultimately show ?thesis using kinit_pages [of "kmem_boot ()" "0xffe123"] by simp
qed

end
