(* ===== verification/Proc.thy ===== *)
theory Proc
  imports Kalloc
begin

text \<open>
  The process table (\<^verbatim>\<open>proc.h\<close>, \<^verbatim>\<open>proc.c\<close>) and the operations on it that neither
  allocate memory nor touch files: \<^verbatim>\<open>sched\<close>, \<^verbatim>\<open>yield\<close>, \<^verbatim>\<open>sleep\<close>,
  \<^verbatim>\<open>wakeup\<close>, \<^verbatim>\<open>kill\<close>, \<^verbatim>\<open>nice\<close>, \<^verbatim>\<open>clockticks\<close>, \<^verbatim>\<open>procdump\<close>.

  A process that gives up the processor comes back from \<^verbatim>\<open>swtch\<close> after the scheduler and
  the other processes have run. What happens in between is the argument \<open>env\<close> of the operations
  that switch; the interface \<open>switching\<close> states what it must keep, and theory \<open>Scheduler\<close>
  provides it from the scheduler's own code.

  Shown: \<^verbatim>\<open>sleep\<close> returns with its lock held again and the channel cleared;
  \<^verbatim>\<open>wakeup\<close> makes exactly the sleepers of a channel runnable; \<^verbatim>\<open>kill\<close> marks the
  first process with the given pid and lets it run; \<^verbatim>\<open>nice\<close> swaps the two priorities.
\<close>

section \<open>State\<close>

datatype procstate = UNUSED | EMBRYO | SLEEPING | RUNNABLE | RUNNING | ZOMBIE

record proc =
  p_sz :: u32
  p_pgdir :: u32
  p_kstack :: u32
  p_state :: procstate
  p_pid :: int
  p_parent :: "nat option"
  p_tf :: u32
  p_context :: u32
  p_chan :: chan
  p_killed :: int
  p_ofile :: "nat \<Rightarrow> nat option"
  p_cwd :: "nat option"
  p_name :: "u8 list"
  p_ctime :: int
  p_etime :: int
  p_rtime :: int
  p_priority :: int

text \<open>A slot of the table before it is ever used: static storage, all zero.\<close>

definition proc_zero :: proc where
  "proc_zero = \<lparr>p_sz = 0, p_pgdir = 0, p_kstack = 0, p_state = UNUSED, p_pid = 0, p_parent = None,
     p_tf = 0, p_context = 0, p_chan = NoChan, p_killed = 0, p_ofile = (\<lambda>_. None), p_cwd = None,
     p_name = replicate 16 0, p_ctime = 0, p_etime = 0, p_rtime = 0, p_priority = 0\<rparr>"

text \<open>The table has slots \<open>0\<close> to \<open>NPROC - 1\<close>; \<open>ticks\<close> is the global of \<^verbatim>\<open>trap.c\<close>,
  \<open>clockcount\<close> its \<^verbatim>\<open>static int clockticks\<close>.\<close>

record pstate = kmem +
  ptab :: "nat \<Rightarrow> proc"
  nextpid :: int
  initproc :: "nat option"
  ticks :: u32
  clockcount :: int
  kpgdir :: u32

definition upd_proc :: "nat \<Rightarrow> (proc \<Rightarrow> proc) \<Rightarrow> 'a pstate_scheme \<Rightarrow> 'a pstate_scheme" where
  "upd_proc i f s = s\<lparr>ptab := (ptab s)(i := f (ptab s i))\<rparr>"

text \<open>\<^verbatim>\<open>proc\<close>, the process of this processor; using it when it is null is undefined.\<close>

definition curproc :: "('a pstate_scheme, nat) kop" where
  "curproc = bnd (gets (\<lambda>s. cproc (my_cpu s))) need"

definition upd_cur :: "(proc \<Rightarrow> proc) \<Rightarrow> ('a pstate_scheme, unit) kop" where
  "upd_cur f = bnd curproc (\<lambda>i. modify (upd_proc i f))"

section \<open>Operations\<close>

definition clockticks :: "('a pstate_scheme, u32) kop" where
  "clockticks =
    thn (acquire TicksLock) (
    bnd (gets ticks) (\<lambda>xticks.
    thn (release TicksLock) (
    ret xticks)))"

definition pinit :: "('a pstate_scheme, unit) kop" where
  "pinit = initlock PtableLock ''ptable''"

fun state_name :: "procstate \<Rightarrow> u8 list" where
  "state_name UNUSED = bytes ''unused''"
| "state_name EMBRYO = bytes ''embryo''"
| "state_name SLEEPING = bytes ''sleep ''"
| "state_name RUNNABLE = bytes ''runble''"
| "state_name RUNNING = bytes ''run   ''"
| "state_name ZOMBIE = bytes ''zombie''"

definition procdump :: "('a pstate_scheme, unit) kop" where
  "procdump = for_each [0..<NPROC] (\<lambda>i.
    bnd (gets (\<lambda>s. ptab s i)) (\<lambda>p.
    if p_state p = UNUSED then ret ()
    else seqs [
      cprintf ''%d %s %s'' [CInt (word_of_int (p_pid p)), CStr (Some (state_name (p_state p))),
        CStr (Some (p_name p))],
      whenk (p_state p = SLEEPING)
        (bnd (gets (\<lambda>s. getcallerpcs (ld32 (pmem s)) (ld32 (pmem s) (p_context p + 12) + 8))) (\<lambda>pc.
         for_each (takeWhile (\<lambda>a. a \<noteq> 0) pc) (\<lambda>a. cprintf '' %p'' [CInt a]))),
      cprintf [CHR 0x0A] []]))"

definition sched :: "('a pstate_scheme, unit) kop \<Rightarrow> ('a pstate_scheme, unit) kop" where
  "sched env =
    bnd (holding PtableLock) (\<lambda>h.
    if \<not> h then panic ''sched ptable.lock''
    else bnd (gets (\<lambda>s. ncli (my_cpu s))) (\<lambda>n.
    if n \<noteq> 1 then panic ''sched locks''
    else bnd curproc (\<lambda>i.
    bnd (gets (\<lambda>s. p_state (ptab s i))) (\<lambda>st.
    if st = RUNNING then panic ''sched running''
    else bnd readeflags (\<lambda>ef.
    if ef AND FL_IF \<noteq> 0 then panic ''sched interruptible''
    else bnd (gets (\<lambda>s. intena (my_cpu s))) (\<lambda>ie.
    thn env (
    modify (upd_cpu (\<lambda>c. c\<lparr>intena := ie\<rparr>)))))))))"

definition yield :: "('a pstate_scheme, unit) kop \<Rightarrow> ('a pstate_scheme, unit) kop" where
  "yield env = seqs [
     acquire PtableLock,
     upd_cur (\<lambda>p. p\<lparr>p_state := RUNNABLE\<rparr>),
     sched env,
     release PtableLock]"

definition forkret :: "('a pstate_scheme, unit) kop" where
  "forkret = release PtableLock"

definition sleep ::
  "('a pstate_scheme, unit) kop \<Rightarrow> chan \<Rightarrow> lockid option \<Rightarrow> ('a pstate_scheme, unit) kop" where
  "sleep env ch lko =
    bnd (gets (\<lambda>s. cproc (my_cpu s))) (\<lambda>po.
    if po = None then panic ''sleep''
    else case lko of
      None \<Rightarrow> panic ''sleep without lk''
    | Some lk \<Rightarrow> seqs [
        whenk (lk \<noteq> PtableLock) (seqs [acquire PtableLock, release lk]),
        upd_cur (\<lambda>p. p\<lparr>p_chan := ch\<rparr>),
        upd_cur (\<lambda>p. p\<lparr>p_state := SLEEPING\<rparr>),
        sched env,
        upd_cur (\<lambda>p. p\<lparr>p_chan := NoChan\<rparr>),
        whenk (lk \<noteq> PtableLock) (seqs [release PtableLock, acquire lk])])"

definition wake_slot :: "chan \<Rightarrow> nat \<Rightarrow> ('a pstate_scheme, unit) kop" where
  "wake_slot ch i =
    bnd (gets (\<lambda>s. ptab s i)) (\<lambda>p.
    whenk (p_state p = SLEEPING \<and> p_chan p = ch)
      (modify (upd_proc i (\<lambda>p. p\<lparr>p_state := RUNNABLE\<rparr>))))"

definition wakeup1 :: "chan \<Rightarrow> ('a pstate_scheme, unit) kop" where
  "wakeup1 ch = for_each [0..<NPROC] (wake_slot ch)"

definition wakeup :: "chan \<Rightarrow> ('a pstate_scheme, unit) kop" where
  "wakeup ch = seqs [acquire PtableLock, wakeup1 ch, release PtableLock]"

definition kill_slot :: "int \<Rightarrow> nat \<Rightarrow> ('a pstate_scheme, unit option) kop" where
  "kill_slot pid i =
    bnd (gets (\<lambda>s. ptab s i)) (\<lambda>p.
    if p_pid p = pid
    then thn (modify (upd_proc i (\<lambda>p. p\<lparr>p_killed := 1\<rparr>))) (
         thn (whenk (p_state p = SLEEPING) (modify (upd_proc i (\<lambda>p. p\<lparr>p_state := RUNNABLE\<rparr>)))) (
         thn (release PtableLock) (
         ret (Some ()))))
    else ret None)"

definition kill :: "int \<Rightarrow> ('a pstate_scheme, int) kop" where
  "kill pid =
    thn (acquire PtableLock) (
    bnd (for_find [0..<NPROC] (kill_slot pid)) (\<lambda>found.
    case found of
      Some _ \<Rightarrow> ret 0
    | None \<Rightarrow> thn (release PtableLock) (ret (- 1))))"

definition nice :: "('a pstate_scheme, int) kop" where
  "nice =
    bnd curproc (\<lambda>i.
    bnd (gets (\<lambda>s. p_priority (ptab s i))) (\<lambda>bef0.
    let bef = (if bef0 = 0 then 1 else 0) in
    thn (acquire PtableLock) (
    thn (upd_cur (\<lambda>p. p\<lparr>p_priority := s32 (1 - p_priority p)\<rparr>)) (
    thn (release PtableLock) (
    bnd curproc (\<lambda>j.
    bnd (gets (\<lambda>s. p_priority (ptab s j))) (\<lambda>now.
    ret (if now = bef then 1 else 0))))))))"

section \<open>Framing\<close>

lemma pstate_lock_sel [simp]:
  "ptab (acq lk s) = ptab s"
  "nextpid (acq lk s) = nextpid s"
  "initproc (acq lk s) = initproc s"
  "ticks (acq lk s) = ticks s"
  "clockcount (acq lk s) = clockcount s"
  "kpgdir (acq lk s) = kpgdir s"
  "pstate.more (acq lk s) = pstate.more s"
  "ptab (rel lk s) = ptab s"
  "nextpid (rel lk s) = nextpid s"
  "initproc (rel lk s) = initproc s"
  "ticks (rel lk s) = ticks s"
  "clockcount (rel lk s) = clockcount s"
  "kpgdir (rel lk s) = kpgdir s"
  "pstate.more (rel lk s) = pstate.more s"
  "ptab (lockround lk s) = ptab s"
  "nextpid (lockround lk s) = nextpid s"
  "initproc (lockround lk s) = initproc s"
  "ticks (lockround lk s) = ticks s"
  "clockcount (lockround lk s) = clockcount s"
  "kpgdir (lockround lk s) = kpgdir s"
  "pstate.more (lockround lk s) = pstate.more s"
  by (simp_all add: acq_def rel_def lockround_def)

lemma pstate_lock_upd [simp]:
  "acq lk (ptab_update g_ptab s) = ptab_update g_ptab (acq lk s)"
  "acq lk (nextpid_update g_nextpid s) = nextpid_update g_nextpid (acq lk s)"
  "acq lk (initproc_update g_initproc s) = initproc_update g_initproc (acq lk s)"
  "acq lk (ticks_update g_ticks s) = ticks_update g_ticks (acq lk s)"
  "acq lk (clockcount_update g_clockcount s) = clockcount_update g_clockcount (acq lk s)"
  "acq lk (kpgdir_update g_kpgdir s) = kpgdir_update g_kpgdir (acq lk s)"
  "rel lk (ptab_update g_ptab s) = ptab_update g_ptab (rel lk s)"
  "rel lk (nextpid_update g_nextpid s) = nextpid_update g_nextpid (rel lk s)"
  "rel lk (initproc_update g_initproc s) = initproc_update g_initproc (rel lk s)"
  "rel lk (ticks_update g_ticks s) = ticks_update g_ticks (rel lk s)"
  "rel lk (clockcount_update g_clockcount s) = clockcount_update g_clockcount (rel lk s)"
  "rel lk (kpgdir_update g_kpgdir s) = kpgdir_update g_kpgdir (rel lk s)"
  "lockround lk (ptab_update g_ptab s) = ptab_update g_ptab (lockround lk s)"
  "lockround lk (nextpid_update g_nextpid s) = nextpid_update g_nextpid (lockround lk s)"
  "lockround lk (initproc_update g_initproc s) = initproc_update g_initproc (lockround lk s)"
  "lockround lk (ticks_update g_ticks s) = ticks_update g_ticks (lockround lk s)"
  "lockround lk (clockcount_update g_clockcount s) = clockcount_update g_clockcount (lockround lk s)"
  "lockround lk (kpgdir_update g_kpgdir s) = kpgdir_update g_kpgdir (lockround lk s)"
  by (simp_all add: acq_def rel_def lockround_def)

lemma pstate_lock_inv [simp]:
  "lock_free lk (ptab_update g_ptab s) = lock_free lk s"
  "lock_free lk (nextpid_update g_nextpid s) = lock_free lk s"
  "lock_free lk (initproc_update g_initproc s) = lock_free lk s"
  "lock_free lk (ticks_update g_ticks s) = lock_free lk s"
  "lock_free lk (clockcount_update g_clockcount s) = lock_free lk s"
  "lock_free lk (kpgdir_update g_kpgdir s) = lock_free lk s"
  "lock_mine lk (ptab_update g_ptab s) = lock_mine lk s"
  "lock_mine lk (nextpid_update g_nextpid s) = lock_mine lk s"
  "lock_mine lk (initproc_update g_initproc s) = lock_mine lk s"
  "lock_mine lk (ticks_update g_ticks s) = lock_mine lk s"
  "lock_mine lk (clockcount_update g_clockcount s) = lock_mine lk s"
  "lock_mine lk (kpgdir_update g_kpgdir s) = lock_mine lk s"
  "cli_ok (ptab_update g_ptab s) = cli_ok s"
  "cli_ok (nextpid_update g_nextpid s) = cli_ok s"
  "cli_ok (initproc_update g_initproc s) = cli_ok s"
  "cli_ok (ticks_update g_ticks s) = cli_ok s"
  "cli_ok (clockcount_update g_clockcount s) = cli_ok s"
  "cli_ok (kpgdir_update g_kpgdir s) = cli_ok s"
  by (simp_all add: lock_free_def lock_mine_def cli_ok_def)

lemma pstate_calm_upd [simp]:
  "calm s (ptab_update g_ptab t) = calm s t"
  "calm s (nextpid_update g_nextpid t) = calm s t"
  "calm s (initproc_update g_initproc t) = calm s t"
  "calm s (ticks_update g_ticks t) = calm s t"
  "calm s (clockcount_update g_clockcount t) = calm s t"
  "calm s (kpgdir_update g_kpgdir t) = calm s t"
  "calm (ptab_update g_ptab s) t = calm s t"
  "calm (nextpid_update g_nextpid s) t = calm s t"
  "calm (initproc_update g_initproc s) t = calm s t"
  "calm (ticks_update g_ticks s) t = calm s t"
  "calm (clockcount_update g_clockcount s) t = calm s t"
  "calm (kpgdir_update g_kpgdir s) t = calm s t"
  by (simp_all add: calm_def)

lemma pstate_cpu_sel [simp]:
  "ptab (upd_cpu h s) = ptab s"
  "nextpid (upd_cpu h s) = nextpid s"
  "initproc (upd_cpu h s) = initproc s"
  "ticks (upd_cpu h s) = ticks s"
  "clockcount (upd_cpu h s) = clockcount s"
  "kpgdir (upd_cpu h s) = kpgdir s"
  "pstate.more (upd_cpu h s) = pstate.more s"
  by (simp_all add: upd_cpu_def)

lemma wp_curproc [wp]: "wp curproc Q = (\<lambda>s. \<exists>i. cproc (my_cpu s) = Some i \<and> Q i s)"
  by (auto simp: fun_eq_iff curproc_def wp)

lemma wp_upd_cur [wp]: "wp (upd_cur f) Q = (\<lambda>s. \<exists>i. cproc (my_cpu s) = Some i \<and> Q () (upd_proc i f s))"
  by (simp add: fun_eq_iff upd_cur_def wp)

lemma upd_proc_sel [simp]:
  "cpus (upd_proc i f s) = cpus s" "this_cpu (upd_proc i f s) = this_cpu s"
  "locks (upd_proc i f s) = locks s" "pmem (upd_proc i f s) = pmem s"
  "ptab (upd_proc i f s) = (ptab s)(i := f (ptab s i))"
  "ticks (upd_proc i f s) = ticks s" "pstate.more (upd_proc i f s) = pstate.more s"
  by (simp_all add: upd_proc_def)

lemma upd_proc_lock [simp]:
  "lock_free lk (upd_proc i f s) = lock_free lk s" "lock_mine lk (upd_proc i f s) = lock_mine lk s"
  "cli_ok (upd_proc i f s) = cli_ok s" "calm s (upd_proc i f t) = calm s t"
  "acq lk (upd_proc i f s) = upd_proc i f (acq lk s)" "rel lk (upd_proc i f s) = upd_proc i f (rel lk s)"
  by (simp_all add: upd_proc_def)

section \<open>Waking and killing\<close>

text \<open>The effect on one slot.\<close>

definition woken :: "chan \<Rightarrow> proc \<Rightarrow> proc" where
  "woken ch p = (if p_state p = SLEEPING \<and> p_chan p = ch then p\<lparr>p_state := RUNNABLE\<rparr> else p)"

definition wake_tab :: "chan \<Rightarrow> (nat \<Rightarrow> proc) \<Rightarrow> nat \<Rightarrow> proc" where
  "wake_tab ch tab = (\<lambda>i. if i < NPROC then woken ch (tab i) else tab i)"

definition killed_proc :: "proc \<Rightarrow> proc" where
  "killed_proc p = p\<lparr>p_killed := 1, p_state := if p_state p = SLEEPING then RUNNABLE else p_state p\<rparr>"

text \<open>A loop over the table whose body changes only the slot it looks at.\<close>

lemma wp_for_each_slots:
  assumes "\<And>i Q s. wp (body i) Q s = Q () (upd_proc i f s)"
  shows "wp (for_each [0..<n] body) Q s =
    Q () (s\<lparr>ptab := \<lambda>i. if i < n then f (ptab s i) else ptab s i\<rparr>)"
proof (induction n arbitrary: Q)
  case (Suc n)
  have "(\<lambda>i. if i < n then f (ptab s i) else ptab s i)(n := f (ptab s n))
      = (\<lambda>i. if i < Suc n then f (ptab s i) else ptab s i)"
    by (auto simp: fun_eq_iff less_Suc_eq)
  then show ?case by (simp add: wp_for_each_append Suc wp assms upd_proc_def)
qed (simp add: wp)

lemma wp_wake_slot: "wp (wake_slot ch i) Q s = Q () (upd_proc i (woken ch) s)"
proof -
  have "upd_proc i (\<lambda>p. p) s = s" by (simp add: upd_proc_def)
  then show ?thesis by (simp add: wake_slot_def wp woken_def upd_proc_def)
qed

lemma wp_wakeup1: "wp (wakeup1 ch) Q s = Q () (s\<lparr>ptab := wake_tab ch (ptab s)\<rparr>)"
  using wp_for_each_slots [of "wake_slot ch" "woken ch", OF wp_wake_slot, of NPROC Q s]
  by (simp add: wakeup1_def wake_tab_def)

lemma wp_wakeup:
  assumes "lock_free PtableLock s" "cli_ok s"
  shows "wp (wakeup ch) Q s = Q () ((lockround PtableLock s)\<lparr>ptab := wake_tab ch (ptab s)\<rparr>)"
  using assms by (simp add: wakeup_def wp wp_wakeup1 lock_simps)

lemma wp_kill:
  assumes "lock_free PtableLock s" "cli_ok s"
  shows "wp (kill pid) Q s = (case find (\<lambda>i. p_pid (ptab s i) = pid) [0..<NPROC] of
      None \<Rightarrow> Q (- 1) (lockround PtableLock s)
    | Some i \<Rightarrow> Q 0 (upd_proc i killed_proc (lockround PtableLock s)))"
proof -
  have "wp (for_find [0..<NPROC] (kill_slot pid)) Q (acq PtableLock s) =
    (case find (\<lambda>i. p_pid (ptab s i) = pid) [0..<NPROC] of None \<Rightarrow> Q None (acq PtableLock s)
     | Some i \<Rightarrow> Q (Some ()) (upd_proc i killed_proc (lockround PtableLock s)))" for Q
    by (rule wp_for_find_eq)
      (use assms in \<open>auto simp: kill_slot_def wp lock_simps killed_proc_def upd_proc_def\<close>)
  with assms show ?thesis
    by (auto simp: kill_def wp lock_simps split: option.split)
qed

lemma wp_nice:
  assumes "lock_free PtableLock s" "cli_ok s" "cproc (my_cpu s) = Some i"
  shows "wp nice Q s = Q (if s32 (1 - p_priority (ptab s i)) = (if p_priority (ptab s i) = 0 then 1 else 0)
      then 1 else 0)
    (upd_proc i (\<lambda>p. p\<lparr>p_priority := s32 (1 - p_priority p)\<rparr>) (lockround PtableLock s))"
  using assms by (simp add: nice_def wp lock_simps Let_def)

lemma wp_clockticks:
  "lock_free TicksLock s \<Longrightarrow> cli_ok s \<Longrightarrow> wp clockticks Q s = Q (ticks s) (lockround TicksLock s)"
  by (simp add: clockticks_def wp lock_simps)

section \<open>Giving up the processor\<close>

text \<open>The state in which a process calls \<^verbatim>\<open>swtch\<close> into the scheduler, and in which it
  comes back: it is the current process, it holds only the table lock, interrupts are off.\<close>

definition in_sched :: "nat \<Rightarrow> 'a pstate_scheme \<Rightarrow> bool" where
  "in_sched i s \<longleftrightarrow> cproc (my_cpu s) = Some i \<and> lock_mine PtableLock s \<and> ncli (my_cpu s) = 1
     \<and> eflags (my_cpu s) AND FL_IF = 0"

text \<open>The contract of the rest of the system while process \<open>i\<close> is off the processor. From a
  state that satisfies \<open>pre\<close> the process is eventually switched in again, on some processor,
  running; \<open>R\<close> relates the states at the two switches.\<close>

locale switching =
  fixes env :: "('a pstate_scheme, unit) kop"
    and pre :: "nat \<Rightarrow> 'a pstate_scheme \<Rightarrow> bool"
    and R :: "nat \<Rightarrow> 'a pstate_scheme \<Rightarrow> 'a pstate_scheme \<Rightarrow> bool"
  assumes env_spec: "pre i s \<Longrightarrow> in_sched i s \<Longrightarrow> p_state (ptab s i) \<noteq> RUNNING
    \<Longrightarrow> wp env (\<lambda>_ t. in_sched i t \<and> p_state (ptab t i) = RUNNING \<and> R i s t) s"
begin

lemma sched_spec:
  assumes "pre i s" "in_sched i s" "p_state (ptab s i) \<noteq> RUNNING"
  shows "wp (sched env) (\<lambda>_ t. \<exists>u. R i s u \<and> in_sched i u \<and> p_state (ptab u i) = RUNNING
    \<and> t = upd_cpu (\<lambda>c. c\<lparr>intena := intena (my_cpu s)\<rparr>) u) s"
proof -
  have "wp env (\<lambda>_ t. \<exists>u. R i s u \<and> in_sched i u \<and> p_state (ptab u i) = RUNNING
      \<and> upd_cpu (\<lambda>c. c\<lparr>intena := intena (my_cpu s)\<rparr>) t = upd_cpu (\<lambda>c. c\<lparr>intena := intena (my_cpu s)\<rparr>) u) s"
    by (rule wp_mono [OF env_spec [OF assms]]) auto
  then show ?thesis
    using assms(2,3) by (simp add: sched_def wp readeflags_def in_sched_def)
qed

text \<open>\<^verbatim>\<open>yield\<close>: the process is runnable while it is away, and returns outside every
  critical section with the interrupt state it had.\<close>

lemma yield_spec:
  assumes "cproc (my_cpu s) = Some i" "lock_free PtableLock s" "ncli (my_cpu s) = 0"
    and s1: "s1 = upd_proc i (\<lambda>p. p\<lparr>p_state := RUNNABLE\<rparr>) (acq PtableLock s)"
    and pre: "pre i s1"
  shows "wp (yield env) (\<lambda>_ t. cproc (my_cpu t) = Some i \<and> lock_free PtableLock t
    \<and> ncli (my_cpu t) = 0 \<and> p_state (ptab t i) = RUNNING
    \<and> (\<exists>u. R i s1 u \<and> t = rel PtableLock (upd_cpu (\<lambda>c. c\<lparr>intena := intena (my_cpu s1)\<rparr>) u))) s"
    (is "wp _ ?Q s")
proof -
  have i: "in_sched i s1" using assms(1-3) by (simp add: in_sched_def s1)
  have st: "p_state (ptab s1 i) \<noteq> RUNNING" by (simp add: s1)
  have "wp (sched env) (\<lambda>_. wp (seqs [release PtableLock]) ?Q) s1"
    by (rule wp_mono [OF sched_spec [OF pre i st]]) (auto simp: wp lock_simps in_sched_def)
  with assms(1-3) show ?thesis by (simp add: yield_def wp lock_simps s1)
qed

text \<open>\<^verbatim>\<open>sleep\<close> on a lock other than the table lock: the lock is given up while the process
  is away, and held again on return; the channel is cleared.\<close>

lemma sleep_spec:
  assumes s: "cproc (my_cpu s) = Some i" "lock_mine lk s" "lk \<noteq> PtableLock" "lock_free PtableLock s"
      "ncli (my_cpu s) = 1"
    and s1: "s1 = upd_proc i (\<lambda>p. p\<lparr>p_chan := ch, p_state := SLEEPING\<rparr>) (rel lk (acq PtableLock s))"
    and pre: "pre i s1" "\<And>u. R i s1 u \<Longrightarrow> lock_free lk u"
  shows "wp (sleep env ch (Some lk)) (\<lambda>_ t. cproc (my_cpu t) = Some i \<and> lock_mine lk t
    \<and> lock_free PtableLock t \<and> ncli (my_cpu t) = 1 \<and> eflags (my_cpu t) AND FL_IF = 0
    \<and> p_state (ptab t i) = RUNNING
    \<and> (\<exists>u. R i s1 u \<and> t = acq lk (rel PtableLock (upd_proc i (\<lambda>p. p\<lparr>p_chan := NoChan\<rparr>)
          (upd_cpu (\<lambda>c. c\<lparr>intena := intena (my_cpu s1)\<rparr>) u))))) s"
    (is "wp _ ?Q s")
proof -
  have i: "in_sched i s1" using s by (simp add: s1 in_sched_def)
  have st: "p_state (ptab s1 i) \<noteq> RUNNING" by (simp add: s1)
  have "wp (sched env) (\<lambda>_. wp (seqs [upd_cur (\<lambda>p. p\<lparr>p_chan := NoChan\<rparr>),
      whenk (lk \<noteq> PtableLock) (seqs [release PtableLock, acquire lk])]) ?Q) s1"
    by (rule wp_mono [OF sched_spec [OF pre(1) i st]])
      (use s(3) pre(2) in \<open>auto simp: wp lock_simps in_sched_def\<close>)
  with s show ?thesis
    by (simp add: sleep_def wp lock_simps s1 upd_proc_def)
qed

end

end
