(* ===== verification/Vm.thy ===== *)
theory Vm
  imports Proc
begin

text \<open>
  Virtual memory (\<^verbatim>\<open>vm.c\<close>): two-level page tables kept as words in allocated pages,
  the user part of an address space, and the processor registers that select it.

  The page table walk is the code's: page directory and page tables are read and written in the
  byte memory, missing tables come from \<^verbatim>\<open>kalloc\<close>. \<open>pt_entry\<close> is the abstract view, a map from
  addresses to entries, and \<open>vtrans\<close> the translation that the processor makes of it.

  Shown: \<^verbatim>\<open>mappages\<close> changes this map on exactly the pages of its range, with tables taken from
  the free list; \<^verbatim>\<open>allocuvm\<close> maps every page it adds to a zeroed frame of its own.
\<close>

section \<open>Constants\<close>

definition USERTOP :: u32 where "USERTOP = 0xA0000"
definition CR0_PG :: u32 where "CR0_PG = 0x80000000"
definition NPDENTRIES :: nat where "NPDENTRIES = 1024"

section \<open>Segments\<close>

text \<open>\<open>ksegment addr n\<close>: \<open>n\<close> is what \<^verbatim>\<open>cpunum()\<close> returns and \<open>addr\<close> the address of the
  two per-processor pointers of \<^verbatim>\<open>cpus[n]\<close>.\<close>

definition ksegment :: "u32 \<Rightarrow> nat \<Rightarrow> ('a pstate_scheme, unit) kop" where
  "ksegment addr n = modify (\<lambda>s. s\<lparr>
     cpus := (cpus s)(n := (cpus s n)\<lparr>
       gdt := (gdt (cpus s n))(
         SEG_KCODE := SEG (STA_X OR STA_R) 0 0xffffffff 0,
         SEG_KDATA := SEG STA_W 0 0xffffffff 0,
         SEG_UCODE := SEG (STA_X OR STA_R) 0 0xffffffff DPL_USER,
         SEG_UDATA := SEG STA_W 0 0xffffffff DPL_USER,
         SEG_KCPU := SEG STA_W addr 8 0),
       gdtr := Some n,
       gs_reg := of_nat SEG_KCPU * 8,
       cproc := None\<rparr>),
     this_cpu := n\<rparr>)"

section \<open>Page tables\<close>

text \<open>The address of the entry, or \<open>0\<close>.\<close>

definition walkpgdir :: "u32 \<Rightarrow> u32 \<Rightarrow> bool \<Rightarrow> ('a kmem_scheme, u32) kop" where
  "walkpgdir pgdir va create =
    (let pde = pgdir + 4 * PDX va in
    bnd (gets (\<lambda>s. ld32 (pmem s) pde)) (\<lambda>e.
    if e AND PTE_P \<noteq> 0 then ret (PTE_ADDR e + 4 * PTX va)
    else if \<not> create then ret 0
    else bnd kalloc (\<lambda>r.
    if r = 0 then ret 0
    else thn (seqs [
      modify (\<lambda>s. s\<lparr>pmem := memset (pmem s) r 0 PGSIZE\<rparr>),
      modify (\<lambda>s. s\<lparr>pmem := st32 (pmem s) pde (r OR PTE_P OR PTE_W OR PTE_U)\<rparr>)])
    (ret (r + 4 * PTX va)))))"

text \<open>The loop of \<^verbatim>\<open>mappages\<close> steps through page addresses, which are \<open>2 ^ 20\<close> in
  number, until it meets the last one; that many units of fuel are enough.\<close>

definition mappages_fuel :: nat where "mappages_fuel = 2 ^ 20"

definition mappages :: "u32 \<Rightarrow> u32 \<Rightarrow> u32 \<Rightarrow> u32 \<Rightarrow> u32 \<Rightarrow> ('a kmem_scheme, bool) kop" where
  "mappages pgdir la len pa perm =
    (let last = PGROUNDDOWN (la + len - 1) in
    loop_fuel mappages_fuel (\<lambda>(a, pa).
      bnd (walkpgdir pgdir a True) (\<lambda>pte.
      if pte = 0 then ret (Inr False)
      else bnd (gets (\<lambda>s. ld32 (pmem s) pte)) (\<lambda>e.
      if e AND PTE_P \<noteq> 0 then panic ''remap''
      else thn (modify (\<lambda>s. s\<lparr>pmem := st32 (pmem s) pte (pa OR perm OR PTE_P)\<rparr>)) (
      if a = last then ret (Inr True)
      else ret (Inl (a + PGSIZE, pa + PGSIZE)))))) (PGROUNDDOWN la, pa))"

definition setupkvm :: "('a kmem_scheme, u32) kop" where
  "setupkvm =
    bnd kalloc (\<lambda>pgdir.
    if pgdir = 0 then ret 0
    else thn (modify (\<lambda>s. s\<lparr>pmem := memset (pmem s) pgdir 0 PGSIZE\<rparr>)) (
    bnd (mappages pgdir USERTOP 0x60000 USERTOP PTE_W) (\<lambda>ok1.
    if \<not> ok1 then ret 0 else
    bnd (mappages pgdir 0x100000 (PHYSTOP - 0x100000) 0x100000 PTE_W) (\<lambda>ok2.
    if \<not> ok2 then ret 0 else
    bnd (mappages pgdir 0xFE000000 0x2000000 0xFE000000 PTE_W) (\<lambda>ok3.
    if \<not> ok3 then ret 0 else
    ret pgdir)))))"

definition kvmalloc :: "('a pstate_scheme, unit) kop" where
  "kvmalloc = bnd setupkvm (\<lambda>d. modify (\<lambda>s. s\<lparr>kpgdir := d\<rparr>))"

section \<open>Switching address spaces\<close>

definition switchkvm :: "('a pstate_scheme, unit) kop" where
  "switchkvm = modify (\<lambda>s. upd_cpu (\<lambda>c. c\<lparr>cr3 := kpgdir s\<rparr>) s)"

definition vmenable :: "('a pstate_scheme, unit) kop" where
  "vmenable = thn switchkvm (modify (upd_cpu (\<lambda>c. c\<lparr>cr0 := cr0 c OR CR0_PG\<rparr>)))"

text \<open>\<open>ts\<close> is the address of the task state segment of this processor; it holds \<open>104\<close> bytes.
  The stack pointer comes from \<^verbatim>\<open>proc\<close>, not from the argument.\<close>

definition switchuvm :: "u32 \<Rightarrow> nat \<Rightarrow> ('a pstate_scheme, unit) kop" where
  "switchuvm ts p =
    thn pushcli (
    bnd curproc (\<lambda>i.
    thn (modify (\<lambda>s. upd_cpu (\<lambda>c. c\<lparr>
           gdt := (gdt c)(SEG_TSS := (SEG16 STS_T32A ts 103 0)\<lparr>sd_s := 0\<rparr>),
           ts_ss0 := of_nat SEG_KDATA * 8,
           ts_esp0 := p_kstack (ptab s i) + KSTACKSIZE,
           task_reg := of_nat SEG_TSS * 8\<rparr>) s)) (
    bnd (gets (\<lambda>s. p_pgdir (ptab s p))) (\<lambda>d.
    if d = 0 then panic (''switchuvm: no pgdir'' @ [CHR 0x0A])
    else thn (modify (upd_cpu (\<lambda>c. c\<lparr>cr3 := d\<rparr>))) popcli))))"

section \<open>User memory\<close>

definition uva2ka :: "u32 \<Rightarrow> u32 \<Rightarrow> ('a kmem_scheme, u32) kop" where
  "uva2ka pgdir uva =
    bnd (walkpgdir pgdir uva False) (\<lambda>pte.
    if pte = 0 then ret 0
    else gets (\<lambda>s. PTE_ADDR (ld32 (pmem s) pte)))"

text \<open>Writing through a null pointer is undefined.\<close>

definition inituvm :: "u32 \<Rightarrow> u32 \<Rightarrow> u32 \<Rightarrow> ('a kmem_scheme, unit) kop" where
  "inituvm pgdir init n =
    bnd kalloc (\<lambda>mem.
    if n \<ge> PGSIZE then panic ''inituvm: more than a page''
    else if mem = 0 then undef
    else thn (modify (\<lambda>s. s\<lparr>pmem := memset (pmem s) mem 0 PGSIZE\<rparr>)) (
    bnd (mappages pgdir 0 PGSIZE mem (PTE_W OR PTE_U)) (\<lambda>_.
    modify (\<lambda>s. s\<lparr>pmem := memmove (pmem s) mem init n\<rparr>))))"

text \<open>The loops over user memory go through the pages of a 32-bit range: \<open>2 ^ 20 + 1\<close> units of
  fuel. When \<^verbatim>\<open>last\<close> is the last page of the address space the address wraps to zero and
  the loop of the code does not end either.\<close>

definition uvm_fuel :: nat where "uvm_fuel = 2 ^ 20 + 1"

definition deallocuvm :: "u32 \<Rightarrow> u32 \<Rightarrow> u32 \<Rightarrow> ('a kmem_scheme, u32) kop" where
  "deallocuvm pgdir oldsz newsz =
    (let last = PGROUNDDOWN (oldsz - 1) in
    loop_fuel uvm_fuel (\<lambda>a.
      if \<not> a \<le> last then ret (Inr (if newsz < oldsz then newsz else oldsz))
      else bnd (walkpgdir pgdir a False) (\<lambda>pte.
      if pte = 0 then ret (Inl (a + PGSIZE))
      else bnd (gets (\<lambda>s. ld32 (pmem s) pte)) (\<lambda>e.
      if e AND PTE_P = 0 then ret (Inl (a + PGSIZE))
      else if PTE_ADDR e = 0 then panic ''kfree''
      else thn (kfree (PTE_ADDR e)) (
      thn (modify (\<lambda>s. s\<lparr>pmem := st32 (pmem s) pte 0\<rparr>)) (
      ret (Inl (a + PGSIZE))))))) (PGROUNDUP newsz))"

definition allocuvm :: "u32 \<Rightarrow> u32 \<Rightarrow> u32 \<Rightarrow> ('a kmem_scheme, u32) kop" where
  "allocuvm pgdir oldsz newsz =
    (if newsz > USERTOP then ret 0
     else let last = PGROUNDDOWN (newsz - 1) in
    loop_fuel uvm_fuel (\<lambda>a.
      if \<not> a \<le> last then ret (Inr (if newsz > oldsz then newsz else oldsz))
      else bnd kalloc (\<lambda>mem.
      if mem = 0
      then thn (cprintf (''allocuvm out of memory'' @ [CHR 0x0A]) []) (
           bnd (deallocuvm pgdir newsz oldsz) (\<lambda>_.
           ret (Inr 0)))
      else thn (modify (\<lambda>s. s\<lparr>pmem := memset (pmem s) mem 0 PGSIZE\<rparr>)) (
      bnd (mappages pgdir a PGSIZE mem (PTE_W OR PTE_U)) (\<lambda>_.
      ret (Inl (a + PGSIZE)))))) (PGROUNDUP oldsz))"

definition freevm :: "u32 \<Rightarrow> ('a kmem_scheme, unit) kop" where
  "freevm pgdir =
    (if pgdir = 0 then panic ''freevm: no pgdir''
     else bnd (deallocuvm pgdir USERTOP 0) (\<lambda>_.
     thn (for_each [0..<NPDENTRIES] (\<lambda>i.
       bnd (gets (\<lambda>s. ld32 (pmem s) (pgdir + 4 * of_nat i))) (\<lambda>e.
       whenk (e AND PTE_P \<noteq> 0) (kfree (PTE_ADDR e))))) (
     kfree pgdir)))"

definition copyuvm :: "u32 \<Rightarrow> u32 \<Rightarrow> ('a kmem_scheme, u32) kop" where
  "copyuvm pgdir sz =
    bnd setupkvm (\<lambda>d.
    if d = 0 then ret 0
    else loop_fuel uvm_fuel (\<lambda>i.
      if \<not> i < sz then ret (Inr d)
      else bnd (walkpgdir pgdir i False) (\<lambda>pte.
      if pte = 0 then panic (''copyuvm: pte should exist'' @ [CHR 0x0A])
      else bnd (gets (\<lambda>s. ld32 (pmem s) pte)) (\<lambda>e.
      if e AND PTE_P = 0 then panic (''copyuvm: page not present'' @ [CHR 0x0A])
      else bnd kalloc (\<lambda>mem.
      if mem = 0 then thn (freevm d) (ret (Inr 0))
      else thn (modify (\<lambda>s. s\<lparr>pmem := memmove (pmem s) mem (PTE_ADDR e) PGSIZE\<rparr>)) (
      bnd (mappages d i PGSIZE mem (PTE_W OR PTE_U)) (\<lambda>ok.
      if \<not> ok then thn (freevm d) (ret (Inr 0))
      else ret (Inl (i + PGSIZE)))))))) 0)"

section \<open>The page table as a map\<close>

text \<open>The entry for an address, \<open>0\<close> when its table is missing, and the translation done by the processor.\<close>

definition pt_entry :: "mem \<Rightarrow> u32 \<Rightarrow> u32 \<Rightarrow> u32" where
  "pt_entry m pgdir va =
    (let e = ld32 m (pgdir + 4 * PDX va) in
     if e AND PTE_P = 0 then 0 else ld32 m (PTE_ADDR e + 4 * PTX va))"

definition vtrans :: "mem \<Rightarrow> u32 \<Rightarrow> u32 \<Rightarrow> u32 option" where
  "vtrans m pgdir va =
    (let e = pt_entry m pgdir va in
     if e AND PTE_P = 0 then None else Some (PTE_ADDR e OR (va AND 0xFFF)))"

text \<open>The directory and the tables it has are distinct pages; \<open>vm_ok\<close>: none of them is free.\<close>

definition pde_present :: "mem \<Rightarrow> u32 \<Rightarrow> u32 \<Rightarrow> bool" where
  "pde_present m d i \<longleftrightarrow> i < 1024 \<and> ld32 m (d + 4 * i) AND PTE_P \<noteq> 0"

definition pt_table :: "mem \<Rightarrow> u32 \<Rightarrow> u32 \<Rightarrow> u32" where
  "pt_table m d i = PTE_ADDR (ld32 m (d + 4 * i))"

definition pt_ok :: "mem \<Rightarrow> u32 \<Rightarrow> bool" where
  "pt_ok m d \<longleftrightarrow> page_ok d
    \<and> (\<forall>i. pde_present m d i \<longrightarrow> page_ok (pt_table m d i) \<and> pt_table m d i \<noteq> d)
    \<and> (\<forall>i j. pde_present m d i \<longrightarrow> pde_present m d j \<longrightarrow> pt_table m d i = pt_table m d j \<longrightarrow> i = j)"

definition pt_pages :: "mem \<Rightarrow> u32 \<Rightarrow> u32 set" where
  "pt_pages m d = insert d (pt_table m d ` {i. pde_present m d i})"

definition vm_ok :: "'a kmem_scheme \<Rightarrow> u32 \<Rightarrow> u32 list \<Rightarrow> bool" where
  "vm_ok s d qs \<longleftrightarrow> kmem_ready s \<and> free_pages s qs \<and> pt_ok (pmem s) d \<and> pt_pages (pmem s) d \<inter> set qs = {}"

subsection \<open>Indices\<close>

lemma and_1023: "(a :: u32) AND 0x3FF = a mod 1024"
  using take_bit_eq_mask [of 10 a] take_bit_eq_mod [of 10 a] by (simp add: mask_eq_exp_minus_1)

lemma unat_PDX: "unat (PDX a) = unat a div 4194304"
proof -
  have "unat a div 4194304 < 1024" using unat_lt32 [of a] by (simp add: div_less_iff_less_mult)
  then show ?thesis by (simp add: PDX_def and_1023 unat_mod drop_bit_eq_div unat_div)
qed

lemma unat_PTX: "unat (PTX a) = unat a div 4096 mod 1024"
  by (simp add: PTX_def and_1023 unat_mod drop_bit_eq_div unat_div)

lemma PDX_lt [simp]: "PDX a < 1024" and PTX_lt [simp]: "PTX a < 1024"
  by (simp_all add: PDX_def PTX_def and_1023 word_less_nat_alt unat_mod)

abbreviation pgno :: "u32 \<Rightarrow> nat" where "pgno a \<equiv> unat a div 4096"

lemma page_index: "PDX a = PDX b \<and> PTX a = PTX b \<longleftrightarrow> pgno a = pgno b"
proof -
  have "unat x div 4194304 = pgno x div 1024" for x :: u32 by (simp add: div_mult2_eq)
  then show ?thesis
    by (simp add: word_unat_eq_iff unat_PDX unat_PTX) (metis div_mult_mod_eq)
qed

lemma slot_unat: "page_ok p \<Longrightarrow> i < 1024 \<Longrightarrow> unat (p + 4 * i) = unat p + 4 * unat i"
proof -
  assume p: "page_ok p" and i: "i < 1024"
  have i': "unat i < 1024" using i by (simp add: word_less_nat_alt)
  then have "unat (4 * i) = 4 * unat i" using unat_mult_lem [of 4 i] by simp
  then show ?thesis using p i' by (subst unat_add_lt) (simp_all add: page_ok_def)
qed

lemma slot_in_page: "page_ok p \<Longrightarrow> i < 1024 \<Longrightarrow> k < 4 \<Longrightarrow> in_page p (p + 4 * i + of_nat k)"
proof -
  assume a: "page_ok p" "i < 1024" "k < 4"
  then have i: "unat i < 1024" by (simp add: word_less_nat_alt)
  have "unat (p + 4 * i + of_nat k) = unat p + 4 * unat i + k"
    using a i slot_unat [OF a(1,2)] by (subst unat_add_of_nat) (simp_all add: page_ok_def)
  then show ?thesis using a(3) i by (simp add: in_page_def)
qed

lemma slot_aligned: "page_ok p \<Longrightarrow> i < 1024 \<Longrightarrow> aligned4 (p + 4 * i)"
  using page_ok_aligned [of p] by (simp add: aligned4_def slot_unat mod_add_left_eq [symmetric])

lemma slot_nz: "page_ok p \<Longrightarrow> i < 1024 \<Longrightarrow> p + 4 * i \<noteq> 0"
  using slot_unat [of p i] by (auto simp: page_ok_def)

lemma slot_inj:
  assumes "page_ok p" "page_ok q" "i < 1024" "j < 1024"
  shows "p + 4 * i = q + 4 * j \<longleftrightarrow> p = q \<and> i = j"
proof
  assume eq: "p + 4 * i = q + 4 * j"
  have "in_page p (p + 4 * i)" "in_page q (q + 4 * j)"
    using slot_in_page [of p i 0] slot_in_page [of q j 0] assms by simp_all
  with eq have "p = q" using in_page_unique assms(1,2) by metis
  moreover have "unat i = unat j" using slot_unat [OF assms(1,3)] slot_unat [OF assms(2,4)] eq \<open>p = q\<close> by simp
  ultimately show "p = q \<and> i = j" by (simp add: word_unat_eq_iff)
qed simp

lemma ld32_slot_cong:
  assumes "page_ok p" "i < 1024" "\<And>a. in_page p a \<Longrightarrow> m a = m' a"
  shows "ld32 m (p + 4 * i) = ld32 m' (p + 4 * i)"
proof -
  have "m (p + 4 * i + of_nat k) = m' (p + 4 * i + of_nat k)" if "k < 4" for k
    using assms(3) slot_in_page [OF assms(1,2) that] by blast
  from this [of 0] this [of 1] this [of 2] this [of 3] show ?thesis by (intro ld32_cong) simp_all
qed

lemma ld32_slot_st32:
  assumes "page_ok p" "page_ok q" "i < 1024" "j < 1024"
  shows "ld32 (st32 m (p + 4 * i) v) (q + 4 * j) = (if p = q \<and> i = j then v else ld32 m (q + 4 * j))"
  using slot_inj [OF assms] ld32_st32_other [of "p + 4 * i" "q + 4 * j"] slot_aligned assms by auto

lemma st32_slot_other: "page_ok p \<Longrightarrow> i < 1024 \<Longrightarrow> \<not> in_page p a \<Longrightarrow> st32 m (p + 4 * i) v a = m a"
  using slot_in_page [of p i 0] slot_in_page [of p i 1] slot_in_page [of p i 2] slot_in_page [of p i 3]
  by (intro st32_other) auto

subsection \<open>Changes to the tables\<close>

lemma small_word: "unat (f :: u32) < 4096 \<longleftrightarrow> take_bit 12 f = f"
proof
  assume "unat f < 4096"
  then show "take_bit 12 f = f" by (simp add: word_unat_eq_iff take_bit_eq_mod unat_mod)
next
  assume a: "take_bit 12 f = f"
  have "unat (take_bit 12 f) < 4096" by (simp add: take_bit_eq_mod unat_mod)
  then show "unat f < 4096" by (simp add: a)
qed

lemma small_or: "unat (f :: u32) < 4096 \<Longrightarrow> unat (g :: u32) < 4096 \<Longrightarrow> unat (f OR g) < 4096"
  by (simp add: small_word)

lemma PTE_ADDR_or:
  assumes "4096 dvd unat p" "unat f < 4096"
  shows "PTE_ADDR (p OR f) = p"
proof -
  have p: "take_bit 12 p = 0"
    using assms(1) by (simp add: word_unat_eq_iff take_bit_eq_mod unat_mod)
  have f: "take_bit 12 f = f" using assms(2) by (simp add: small_word)
  have "\<not> bit p n" if "n < 12" for n using p that by (metis bit_0_eq bit_take_bit_iff bot_apply bot_bool_def)
  moreover have "\<not> bit f n" if "12 \<le> n" for n using f that by (metis bit_take_bit_iff leD)
  ultimately show ?thesis
    by (auto simp: PTE_ADDR_def page_mask bit_eq_iff bit_simps)
qed

lemma or_present [simp]: "(x OR PTE_P) AND PTE_P \<noteq> 0" "(x OR PTE_P OR y) AND PTE_P \<noteq> 0"
proof -
  have "bit ((x OR PTE_P) AND PTE_P) 0" "bit ((x OR PTE_P OR y) AND PTE_P) 0"
    by (simp_all add: PTE_P_def bit_simps)
  then show "(x OR PTE_P) AND PTE_P \<noteq> 0" "(x OR PTE_P OR y) AND PTE_P \<noteq> 0" by auto
qed

lemma pt_pages_present: "pde_present m d i \<Longrightarrow> pt_table m d i \<in> pt_pages m d" "d \<in> pt_pages m d"
  by (simp_all add: pt_pages_def)

lemma pt_pages_ok: "pt_ok m d \<Longrightarrow> p \<in> pt_pages m d \<Longrightarrow> page_ok p"
  by (auto simp: pt_ok_def pt_pages_def)

lemma pt_entry_table:
  "pt_entry m d va = (if pde_present m d (PDX va) then ld32 m (pt_table m d (PDX va) + 4 * PTX va) else 0)"
  by (simp add: pt_entry_def pde_present_def pt_table_def)

lemma pt_dir_cong:
  assumes "\<And>k. k < 1024 \<Longrightarrow> ld32 m' (d + 4 * k) = ld32 m (d + 4 * k)"
  shows "pde_present m' d i = pde_present m d i"
    and "i < 1024 \<Longrightarrow> pt_table m' d i = pt_table m d i"
    and "pt_ok m' d = pt_ok m d" and "pt_pages m' d = pt_pages m d"
proof -
  have p: "pde_present m' d i = pde_present m d i" for i
    using assms by (auto simp: pde_present_def)
  have t: "pt_table m' d i = pt_table m d i" if "pde_present m d i" for i
    using assms that by (simp add: pde_present_def pt_table_def)
  show "pde_present m' d i = pde_present m d i" by (rule p)
  show "i < 1024 \<Longrightarrow> pt_table m' d i = pt_table m d i" using assms by (simp add: pt_table_def)
  show "pt_ok m' d = pt_ok m d" using p t by (simp add: pt_ok_def)
  show "pt_pages m' d = pt_pages m d" using p t by (auto simp: pt_pages_def)
qed

text \<open>Memory outside the directory and its tables does not matter.\<close>

lemma pt_frame:
  assumes "pt_ok m d" "\<And>p a. p \<in> pt_pages m d \<Longrightarrow> in_page p a \<Longrightarrow> m' a = m a"
  shows "pt_ok m' d" "pt_pages m' d = pt_pages m d" "pt_entry m' d = pt_entry m d"
    and "pde_present m' d i = pde_present m d i"
proof -
  have d: "ld32 m' (d + 4 * k) = ld32 m (d + 4 * k)" if "k < 1024" for k
    using assms(2) [OF pt_pages_present(2)] pt_pages_ok [OF assms(1) pt_pages_present(2)] that
    by (intro ld32_slot_cong) auto
  note c = pt_dir_cong [of m' d m, OF d]
  show "pt_ok m' d" "pt_pages m' d = pt_pages m d" "pde_present m' d i = pde_present m d i" using c assms(1) by simp_all
  show "pt_entry m' d = pt_entry m d"
  proof
    fix va
    have "ld32 m' (pt_table m d (PDX va) + 4 * PTX va) = ld32 m (pt_table m d (PDX va) + 4 * PTX va)"
      if "pde_present m d (PDX va)"
      using assms(2) [OF pt_pages_present(1) [OF that]] pt_pages_ok [OF assms(1) pt_pages_present(1) [OF that]]
      by (intro ld32_slot_cong) auto
    then show "pt_entry m' d va = pt_entry m d va" using c by (simp add: pt_entry_table)
  qed
qed

text \<open>Writing an entry of a table changes the entry of one page.\<close>

lemma pt_set_entry:
  assumes "pt_ok m d" "pde_present m d (PDX va)"
    and m': "m' = st32 m (pt_table m d (PDX va) + 4 * PTX va) v"
  shows "pt_ok m' d" "pt_pages m' d = pt_pages m d"
    and "pt_entry m' d = (\<lambda>b. if pgno b = pgno va then v else pt_entry m d b)"
proof -
  let ?t = "pt_table m d (PDX va)"
  have t: "page_ok ?t" "?t \<noteq> d" "page_ok d" using assms by (auto simp: pt_ok_def)
  have d: "ld32 m' (d + 4 * k) = ld32 m (d + 4 * k)" if "k < 1024" for k
    using t that by (simp add: m' ld32_slot_st32)
  note c = pt_dir_cong [of m' d m, OF d]
  show "pt_ok m' d" "pt_pages m' d = pt_pages m d" using c assms(1) by simp_all
  show "pt_entry m' d = (\<lambda>b. if pgno b = pgno va then v else pt_entry m d b)"
  proof
    fix b
    show "pt_entry m' d b = (if pgno b = pgno va then v else pt_entry m d b)"
    proof (cases "pde_present m d (PDX b)")
      case True
      then have "page_ok (pt_table m d (PDX b))" "?t = pt_table m d (PDX b) \<longleftrightarrow> PDX va = PDX b"
        using assms(1,2) by (auto simp: pt_ok_def)
      with True t c page_index [of va b] show ?thesis
        by (auto simp: pt_entry_table ld32_slot_st32 m')
    next
      case False
      then have "PDX b \<noteq> PDX va" using assms(2) by auto
      with False c page_index [of va b] show ?thesis by (auto simp: pt_entry_table)
    qed
  qed
qed

text \<open>A page of zeros becomes a table without entries.\<close>

lemma pt_new_table:
  assumes ok: "pt_ok m d" and i: "i < 1024" "\<not> pde_present m d i"
    and r: "page_ok r" "r \<notin> pt_pages m d" "\<And>a. in_page r a \<Longrightarrow> m a = 0" and f: "unat f < 4096"
    and m': "m' = st32 m (d + 4 * i) (r OR PTE_P OR f)"
  shows "pt_ok m' d" "pt_pages m' d = insert r (pt_pages m d)" "pt_entry m' d = pt_entry m d"
    and "pde_present m' d i" "pt_table m' d i = r"
proof -
  have d: "page_ok d" "d \<noteq> r" using ok r(2) pt_pages_present by (auto simp: pt_ok_def)
  have dir: "ld32 m' (d + 4 * k) = (if k = i then r OR PTE_P OR f else ld32 m (d + 4 * k))" if "k < 1024" for k
    using d i that by (auto simp: m' ld32_slot_st32)
  have pr: "pde_present m' d k \<longleftrightarrow> k = i \<or> pde_present m d k" for k
    using dir [of k] i by (cases "k = i") (auto simp: pde_present_def)
  have "unat (PTE_P OR f) < 4096"
    using f by (intro small_or) (simp_all add: PTE_P_def)
  then have tb: "pt_table m' d k = (if k = i then r else pt_table m d k)" if "k < 1024" for k
    using dir [OF that] r(1) PTE_ADDR_or [of r "PTE_P OR f"] by (simp add: pt_table_def page_ok_def)
  show "pde_present m' d i" "pt_table m' d i = r" using pr tb i by auto
  show "pt_pages m' d = insert r (pt_pages m d)"
  proof -
    have "{k. pde_present m' d k} = insert i {k. pde_present m d k}" using pr by auto
    moreover have "pt_table m' d ` {k. pde_present m d k} = pt_table m d ` {k. pde_present m d k}"
      using tb i(2) by (intro image_cong) (auto simp: pde_present_def)
    ultimately show ?thesis using tb [OF i(1)] by (simp add: pt_pages_def insert_commute)
  qed
  have ne: "pt_table m d k \<noteq> r" if "pde_present m d k" for k using r(2) that by (auto simp: pt_pages_def)
  have lt: "k < 1024" if "pde_present m d k" for k using that by (simp add: pde_present_def)
  show "pt_ok m' d" using ok d r(1) i(1) ne lt by (auto simp: pt_ok_def pr tb)
  show "pt_entry m' d = pt_entry m d"
  proof
    fix va
    have z: "ld32 m (r + 4 * PTX va) = 0"
      using ld32_slot_cong [of r "PTX va" m "\<lambda>_. 0"] r by (simp add: ld32_def)
    have other: "ld32 m' (q + 4 * PTX va) = ld32 m (q + 4 * PTX va)" if "page_ok q" "q \<noteq> d" for q
      using that d i by (auto simp: m' ld32_slot_st32)
    have "page_ok (pt_table m d (PDX va)) \<and> pt_table m d (PDX va) \<noteq> d" if "pde_present m d (PDX va)"
      using ok that by (auto simp: pt_ok_def)
    then show "pt_entry m' d va = pt_entry m d va"
      using i(2) other [of r] other [of "pt_table m d (PDX va)"] z r(1) d tb [OF PDX_lt [of va]] pr [of "PDX va"]
      by (auto simp: pt_entry_table)
  qed
qed

subsection \<open>Walking and mapping\<close>

text \<open>\<open>vm_step d s qs t qs'\<close>: from \<open>s\<close> to \<open>t\<close> the tables took the free pages that are no longer in
  \<open>qs'\<close>, and no byte outside the tables changed.\<close>

definition vm_step :: "u32 \<Rightarrow> 'a kmem_scheme \<Rightarrow> u32 list \<Rightarrow> 'a kmem_scheme \<Rightarrow> u32 list \<Rightarrow> bool" where
  "vm_step d s qs t qs' \<longleftrightarrow> vm_ok t d qs' \<and> kmem_frame s t
    \<and> (\<exists>new. qs = new @ qs' \<and> pt_pages (pmem t) d = pt_pages (pmem s) d \<union> set new)
    \<and> (\<forall>a. (\<forall>p\<in>pt_pages (pmem t) d. \<not> in_page p a) \<longrightarrow> pmem t a = pmem s a)"

lemma vm_step_refl: "vm_ok s d qs \<Longrightarrow> vm_step d s qs s qs"
  by (auto simp: vm_step_def)

lemma vm_step_trans:
  assumes "vm_step d s qs t qs'" "vm_step d t qs' u qs''"
  shows "vm_step d s qs u qs''"
proof -
  obtain n1 where n1: "qs = n1 @ qs'" "pt_pages (pmem t) d = pt_pages (pmem s) d \<union> set n1"
    using assms(1) by (auto simp: vm_step_def)
  obtain n2 where n2: "qs' = n2 @ qs''" "pt_pages (pmem u) d = pt_pages (pmem t) d \<union> set n2"
    using assms(2) by (auto simp: vm_step_def)
  have "\<exists>new. qs = new @ qs'' \<and> pt_pages (pmem u) d = pt_pages (pmem s) d \<union> set new"
    using n1 n2 by (intro exI [of _ "n1 @ n2"]) auto
  moreover have "kmem_frame s u" using assms kmem_frame_trans unfolding vm_step_def by blast
  moreover have "pmem u a = pmem s a" if "\<forall>p\<in>pt_pages (pmem u) d. \<not> in_page p a" for a
    using that assms n2(2) by (simp add: vm_step_def)
  ultimately show ?thesis using assms(2) by (simp add: vm_step_def)
qed

lemma free_pages_upd:
  assumes "free_pages s qs" "\<And>q a. q \<in> set qs \<Longrightarrow> in_page q a \<Longrightarrow> m a = pmem s a"
  shows "free_pages (s\<lparr>pmem := m\<rparr>) qs"
  using assms flist_cong [of qs m "pmem s" "freelist s"] by (simp add: free_pages_def)

lemma kmem_ready_pmem [simp]: "kmem_ready (s\<lparr>pmem := m\<rparr>) = kmem_ready s"
  by (simp add: kmem_ready_def)

lemma kmem_frame_pmem [simp]: "kmem_frame s (t\<lparr>pmem := m\<rparr>) = kmem_frame s t"
  by (simp add: kmem_frame_def)

text \<open>A change of memory within the tables.\<close>

lemma vm_step_upd:
  assumes "vm_ok s d qs" "pt_ok m d" "pt_pages m d = pt_pages (pmem s) d"
    and "\<And>a. (\<forall>p\<in>pt_pages m d. \<not> in_page p a) \<Longrightarrow> m a = pmem s a"
  shows "vm_step d s qs (s\<lparr>pmem := m\<rparr>) qs"
proof -
  have "free_pages (s\<lparr>pmem := m\<rparr>) qs"
  proof (rule free_pages_upd)
    show "free_pages s qs" using assms(1) by (simp add: vm_ok_def)
    fix q a assume q: "q \<in> set qs" "in_page q a"
    have "page_ok q" using q assms(1) by (auto simp: vm_ok_def free_pages_def)
    then have "\<not> in_page p a" if "p \<in> pt_pages m d" for p
      using that q assms(1,3) in_page_unique [of q a p] pt_pages_ok [OF assms(2) that] by (auto simp: vm_ok_def)
    then show "m a = pmem s a" by (intro assms(4)) blast
  qed
  then show ?thesis using assms by (auto simp: vm_step_def vm_ok_def)
qed

lemma pte_slot_nz: "pt_ok m d \<Longrightarrow> pde_present m d (PDX va) \<Longrightarrow> pt_table m d (PDX va) + 4 * PTX va \<noteq> 0"
  by (rule slot_nz) (simp_all add: pt_ok_def)

lemma wp_walk:
  assumes "pt_ok (pmem s) d"
  shows "wp (walkpgdir d va False) Q s =
    Q (if pde_present (pmem s) d (PDX va) then pt_table (pmem s) d (PDX va) + 4 * PTX va else 0) s"
  by (simp add: walkpgdir_def wp pde_present_def pt_table_def Let_def)

lemma wp_uva2ka:
  assumes "pt_ok (pmem s) d"
  shows "wp (uva2ka d va) Q s = Q (PTE_ADDR (pt_entry (pmem s) d va)) s"
  using pte_slot_nz [OF assms, of va]
  by (simp add: uva2ka_def wp wp_walk assms pt_entry_table PTE_ADDR_def)

text \<open>A page taken from the free list and cleared is outside the tables.\<close>

lemma vm_ok_take:
  assumes "vm_ok s d (r # qs)" "kmem_frame s t" "free_pages t qs" "pmem t = pmem s"
  shows "vm_ok (t\<lparr>pmem := memset (pmem t) r 0 PGSIZE\<rparr>) d qs"
    and "page_ok r" "r \<notin> pt_pages (pmem s) d" "r \<notin> set qs"
    and "pt_pages (memset (pmem t) r 0 PGSIZE) d = pt_pages (pmem s) d"
    and "pt_entry (memset (pmem t) r 0 PGSIZE) d = pt_entry (pmem s) d"
    and "pde_present (memset (pmem t) r 0 PGSIZE) d i = pde_present (pmem s) d i"
proof -
  let ?m = "memset (pmem t) r 0 PGSIZE"
  show r: "page_ok r" "r \<notin> pt_pages (pmem s) d" "r \<notin> set qs"
    using assms(1) by (auto simp: vm_ok_def free_pages_def)
  have ok: "pt_ok (pmem s) d" using assms(1) by (simp add: vm_ok_def)
  have m: "?m a = pmem s a" if "\<not> in_page r a" for a
    using that r(1) assms(4) by (simp add: memset_page)
  have f: "?m a = pmem s a" if "p \<in> pt_pages (pmem s) d" "in_page p a" for p a
    using that r m in_page_unique [of p a r] pt_pages_ok [OF ok that(1)] by metis
  note fr = pt_frame [OF ok f]
  show "pt_pages ?m d = pt_pages (pmem s) d" "pt_entry ?m d = pt_entry (pmem s) d"
    "pde_present ?m d i = pde_present (pmem s) d i" using fr by auto
  have "free_pages (t\<lparr>pmem := ?m\<rparr>) qs"
  proof (rule free_pages_upd [OF assms(3)])
    fix q a assume q: "q \<in> set qs" "in_page q a"
    have "page_ok q" using q assms(3) by (auto simp: free_pages_def)
    then have "\<not> in_page r a" using q r in_page_unique [of q a r] by metis
    then show "?m a = pmem t a" using r(1) by (simp add: memset_page)
  qed
  then show "vm_ok (t\<lparr>pmem := ?m\<rparr>) d qs"
    using assms(1,2) fr kmem_frame_ready [of s t] by (auto simp: vm_ok_def)
qed

lemma vm_step_new_table:
  assumes s: "vm_ok s d (r # qs)" "\<not> pde_present (pmem s) d (PDX va)"
    and t: "kmem_frame s t" "free_pages t qs" "pmem t = pmem s"
    and m': "m' = st32 (memset (pmem t) r 0 PGSIZE) (d + 4 * PDX va) (r OR PTE_P OR PTE_W OR PTE_U)"
  shows "vm_step d s (r # qs) (t\<lparr>pmem := m'\<rparr>) qs" "pt_entry m' d = pt_entry (pmem s) d"
    and "pde_present m' d (PDX va)" "pt_table m' d (PDX va) = r"
proof -
  let ?m = "memset (pmem t) r 0 PGSIZE"
  note tk = vm_ok_take [OF s(1) t]
  have ok: "pt_ok ?m d" "free_pages (t\<lparr>pmem := ?m\<rparr>) qs" "kmem_ready t" using tk(1) by (auto simp: vm_ok_def)
  have z: "?m a = 0" if "in_page r a" for a using that tk(2) by (simp add: memset_page)
  have f: "unat (PTE_W OR PTE_U) < 4096" by (intro small_or) (simp_all add: PTE_W_def PTE_U_def)
  have np: "\<not> pde_present ?m d (PDX va)" and rp: "r \<notin> pt_pages ?m d" using s(2) tk(3,5,7) by simp_all
  note nt = pt_new_table [OF ok(1) PDX_lt np tk(2) rp z f m']
  show "pt_entry m' d = pt_entry (pmem s) d" "pde_present m' d (PDX va)" "pt_table m' d (PDX va) = r"
    using nt tk(6) by simp_all
  have d: "d \<in> pt_pages (pmem s) d" "page_ok d"
    using pt_pages_present(2) pt_pages_ok [OF ok(1)] tk(5) by auto
  have m: "m' a = ?m a" if "\<not> in_page d a" for a using that d(2) by (simp add: m' st32_slot_other)
  have "free_pages (t\<lparr>pmem := ?m, pmem := m'\<rparr>) qs"
  proof (rule free_pages_upd [OF ok(2)])
    fix q a assume q: "q \<in> set qs" "in_page q a"
    have "page_ok q" "q \<noteq> d" using q(1) d(1) s(1) by (auto simp: vm_ok_def free_pages_def)
    then have "\<not> in_page d a" using q d in_page_unique [of q a d] by metis
    then show "m' a = pmem (t\<lparr>pmem := ?m\<rparr>) a" using m by simp
  qed
  then have "vm_ok (t\<lparr>pmem := m'\<rparr>) d qs"
    using nt(1,2) ok(3) tk(4,5) s(1) by (auto simp: vm_ok_def)
  moreover have "m' a = pmem s a" if "\<forall>p\<in>pt_pages m' d. \<not> in_page p a" for a
  proof -
    have "\<not> in_page d a" "\<not> in_page r a" using that nt(2) tk(5) d(1) by auto
    then show ?thesis using m tk(2) t(3) by (simp add: memset_page)
  qed
  ultimately show "vm_step d s (r # qs) (t\<lparr>pmem := m'\<rparr>) qs"
    using t(1) nt(2) tk(5) by (auto simp: vm_step_def intro: exI [of _ "[r]"])
qed

lemma wp_walk_create:
  assumes "vm_ok s d qs"
  shows "wp (walkpgdir d va True) (\<lambda>r t. \<exists>qs'. vm_step d s qs t qs' \<and> pt_entry (pmem t) d = pt_entry (pmem s) d
    \<and> (if r = 0 then qs = [] else length qs \<le> Suc (length qs') \<and> pde_present (pmem t) d (PDX va)
         \<and> r = pt_table (pmem t) d (PDX va) + 4 * PTX va)) s"
proof (cases "pde_present (pmem s) d (PDX va)")
  case True
  have "pt_ok (pmem s) d" using assms by (simp add: vm_ok_def)
  from pte_slot_nz [OF this True] show ?thesis using True vm_step_refl [OF assms]
    by (auto simp: walkpgdir_def wp pde_present_def pt_table_def Let_def)
next
  case False
  then have e: "ld32 (pmem s) (d + 4 * PDX va) AND PTE_P = 0" by (simp add: pde_present_def)
  have ready: "lock_free KmemLock s" "cli_ok s" "free_pages s qs"
    using assms by (auto simp: vm_ok_def kmem_ready_def)
  show ?thesis unfolding walkpgdir_def Let_def wp_gets_bnd
  proof (simp add: e, rule wp_bndI [OF kalloc_free_pages [OF ready]], goal_cases)
    case (1 r t)
    show ?case
    proof (cases qs)
      case Nil
      with 1 assms show ?thesis
        using kmem_frame_ready [of s t] by (auto simp: wp vm_step_def vm_ok_def)
    next
      case (Cons q qs')
      have t: "kmem_frame s t" "free_pages t qs'" "pmem t = pmem s" and r: "r = q" using 1 Cons by auto
      note nt = vm_step_new_table [OF assms [unfolded Cons, folded r] False t refl]
      have "pt_ok (pmem (t\<lparr>pmem := st32 (memset (pmem t) r 0 PGSIZE) (d + 4 * PDX va)
          (r OR PTE_P OR PTE_W OR PTE_U)\<rparr>)) d" using nt(1) unfolding vm_step_def vm_ok_def by blast
      moreover have "page_ok r" using assms Cons r by (auto simp: vm_ok_def free_pages_def)
      ultimately show ?thesis using nt Cons r slot_nz [of r "PTX va"]
        by (auto simp: wp intro!: exI [of _ qs'])
    qed
  qed
qed

text \<open>The abstract operation: \<open>k\<close> pages from that of \<open>a\<close> on are mapped to consecutive frames.\<close>

definition pt_map :: "(u32 \<Rightarrow> u32) \<Rightarrow> u32 \<Rightarrow> nat \<Rightarrow> u32 \<Rightarrow> u32 \<Rightarrow> u32 \<Rightarrow> u32" where
  "pt_map E a k pa perm = (\<lambda>b. if pgno a \<le> pgno b \<and> pgno b < pgno a + k
     then (pa + of_nat (4096 * (pgno b - pgno a))) OR perm OR PTE_P else E b)"

lemma pt_map_0 [simp]: "pt_map E a 0 pa perm = E"
  by (auto simp: pt_map_def fun_eq_iff dest: leD)

lemma pt_map_Suc:
  assumes "pgno a' = Suc (pgno a)"
  shows "pt_map (\<lambda>b. if pgno b = pgno a then pa OR perm OR PTE_P else E b) a' k (pa + PGSIZE) perm
    = pt_map E a (Suc k) pa perm"
proof
  fix b
  consider "pgno b < pgno a" | "pgno b = pgno a" | j where "pgno b = pgno a' + j"
    using assms by (metis less_linear Suc_leI le_Suc_ex)
  then show "pt_map (\<lambda>b. if pgno b = pgno a then pa OR perm OR PTE_P else E b) a' k (pa + PGSIZE) perm b
    = pt_map E a (Suc k) pa perm b"
  proof cases
    case 3
    have "pa + (PGSIZE + of_nat (4096 * j)) = pa + of_nat (4096 * Suc j)" by (simp add: PGSIZE_def)
    moreover have "pgno b - pgno a' = j" "pgno b - pgno a = Suc j" using 3 assms by simp_all
    ultimately show ?thesis using 3 assms unfolding pt_map_def by (simp add: add.assoc del: of_nat_mult of_nat_Suc)
  qed (use assms in \<open>simp_all add: pt_map_def\<close>)
qed

text \<open>One round of the loop, for a page that is not mapped.\<close>

lemma wp_map_round:
  assumes "vm_ok s d qs" "pt_entry (pmem s) d a AND PTE_P = 0"
    and no: "\<And>t. vm_step d s qs t [] \<Longrightarrow> qs = [] \<Longrightarrow> pt_entry (pmem t) d = pt_entry (pmem s) d \<Longrightarrow> Q (Inr False) t"
    and yes: "\<And>t qs'. vm_step d s qs t qs' \<Longrightarrow> length qs \<le> Suc (length qs')
      \<Longrightarrow> pt_entry (pmem t) d = (\<lambda>b. if pgno b = pgno a then v else pt_entry (pmem s) d b) \<Longrightarrow> wp k Q t"
  shows "wp (bnd (walkpgdir d a True) (\<lambda>pte.
      if pte = 0 then ret (Inr False)
      else bnd (gets (\<lambda>s. ld32 (pmem s) pte)) (\<lambda>e.
      if e AND PTE_P \<noteq> 0 then panic ''remap''
      else thn (modify (\<lambda>s. s\<lparr>pmem := st32 (pmem s) pte v\<rparr>)) k))) Q s"
proof (rule wp_bndI [OF wp_walk_create [OF assms(1)]], elim exE conjE, goal_cases)
  case (1 r t qs')
  show ?case
  proof (cases "r = 0")
    case True
    with 1 have "qs = []" "qs' = []" by (auto simp: vm_step_def)
    with 1 no True show ?thesis by (simp add: wp)
  next
    case False
    let ?m = "st32 (pmem t) r v"
    have r: "pde_present (pmem t) d (PDX a)" "r = pt_table (pmem t) d (PDX a) + 4 * PTX a"
      using 1 False by simp_all
    have ok: "vm_ok t d qs'" "pt_ok (pmem t) d" using 1(1) by (auto simp: vm_step_def vm_ok_def)
    note se = pt_set_entry [OF ok(2) r(1) refl, of v, folded r(2)]
    have e: "ld32 (pmem t) r = pt_entry (pmem t) d a" using r by (simp add: pt_entry_table)
    have "vm_step d t qs' (t\<lparr>pmem := ?m\<rparr>) qs'"
    proof (rule vm_step_upd [OF ok(1) se(1,2)])
      fix b assume "\<forall>p\<in>pt_pages ?m d. \<not> in_page p b"
      then have "\<not> in_page (pt_table (pmem t) d (PDX a)) b" using se(2) pt_pages_present(1) [OF r(1)] by simp
      then show "?m b = pmem t b" using r ok(2) by (auto simp: pt_ok_def intro!: st32_slot_other)
    qed
    with 1(1) have "vm_step d s qs (t\<lparr>pmem := ?m\<rparr>) qs'" by (rule vm_step_trans)
    moreover have "length qs \<le> Suc (length qs')" using 1 False by simp
    moreover have "pt_entry (pmem (t\<lparr>pmem := ?m\<rparr>)) d = (\<lambda>b. if pgno b = pgno a then v else pt_entry (pmem s) d b)"
      using se(3) unfolding 1(2) by simp
    ultimately have "wp k Q (t\<lparr>pmem := ?m\<rparr>)" by (rule yes)
    then show ?thesis using False assms(2) 1(2) e by (simp add: wp)
  qed
qed

lemma mappages_loop:
  fixes s :: "'a kmem_scheme"
  assumes "n < fuel" "vm_ok s d qs" "4096 dvd unat a" "unat a + 4096 * n < 2 ^ 32" "unat lst = unat a + 4096 * n"
    and "\<forall>b. pgno a \<le> pgno b \<and> pgno b \<le> pgno a + n \<longrightarrow> pt_entry (pmem s) d b AND PTE_P = 0"
  shows "wp (loop_fuel fuel (\<lambda>(a, pa).
      bnd (walkpgdir d a True) (\<lambda>pte.
      if pte = 0 then ret (Inr False)
      else bnd (gets (\<lambda>s. ld32 (pmem s) pte)) (\<lambda>e.
      if e AND PTE_P \<noteq> 0 then panic ''remap''
      else thn (modify (\<lambda>s. s\<lparr>pmem := st32 (pmem s) pte (pa OR perm OR PTE_P)\<rparr>)) (
      if a = lst then ret (Inr True)
      else ret (Inl (a + PGSIZE, pa + PGSIZE)))))) (a, pa))
    (\<lambda>done t. \<exists>qs' k. vm_step d s qs t qs' \<and> (if done then k = Suc n else k \<le> n \<and> qs' = []) \<and> length qs \<le> length qs' + k
      \<and> pt_entry (pmem t) d = pt_map (pt_entry (pmem s) d) a k pa perm) s"
    (is "wp (loop_fuel fuel ?body _) _ _")
  using assms
proof (induction n arbitrary: fuel a pa s qs)
  case 0
  then obtain f where f: "fuel = Suc f" by (cases fuel) auto
  have "a = lst" using "0.prems"(5) by (simp add: word_unat_eq_iff)
  show ?case unfolding f wp_loop_fuel_Suc prod.case
  proof (rule wp_map_round [OF "0.prems"(2)], goal_cases)
    case 1
    show ?case using "0.prems"(6) by auto
  next
    case (2 t)
    then show ?case by (auto intro!: exI [of _ "[]"] exI [of _ "0 :: nat"])
  next
    case (3 t qs')
    have "pt_entry (pmem t) d = pt_map (pt_entry (pmem s) d) a 1 pa perm"
      unfolding 3(3) by (auto simp: pt_map_def fun_eq_iff)
    with 3(1,2) \<open>a = lst\<close> show ?case by (auto simp: wp)
  qed
next
  case (Suc n)
  then obtain f where f: "fuel = Suc f" by (cases fuel) auto
  have ne: "a \<noteq> lst" using Suc.prems(5) by auto
  have nxt: "unat (a + PGSIZE) = unat a + 4096" using Suc.prems(4) by (simp add: PGSIZE_def unat_add_lt)
  then have pn: "pgno (a + PGSIZE) = Suc (pgno a)" by simp
  show ?case unfolding f wp_loop_fuel_Suc prod.case
  proof (rule wp_map_round [OF Suc.prems(2)], goal_cases)
    case 1
    show ?case using Suc.prems(6) by auto
  next
    case (2 t)
    then show ?case by (auto intro!: exI [of _ "[]"] exI [of _ "0 :: nat"])
  next
    case (3 t qs')
    have "vm_ok t d qs'" using 3(1) by (simp add: vm_step_def)
    have "wp (loop_fuel f ?body (a + PGSIZE, pa + PGSIZE)) (\<lambda>done u. \<exists>qs'' k. vm_step d t qs' u qs''
        \<and> (if done then k = Suc n else k \<le> n \<and> qs'' = []) \<and> length qs' \<le> length qs'' + k
        \<and> pt_entry (pmem u) d = pt_map (pt_entry (pmem t) d) (a + PGSIZE) k (pa + PGSIZE) perm) t"
    proof (rule Suc.IH [OF _ \<open>vm_ok t d qs'\<close>])
      show "n < f" "4096 dvd unat (a + PGSIZE)" "unat (a + PGSIZE) + 4096 * n < 2 ^ 32"
        "unat lst = unat (a + PGSIZE) + 4096 * n"
        using Suc.prems(1,3,4,5) f nxt by simp_all
      show "\<forall>b. pgno (a + PGSIZE) \<le> pgno b \<and> pgno b \<le> pgno (a + PGSIZE) + n \<longrightarrow> pt_entry (pmem t) d b AND PTE_P = 0"
        using Suc.prems(6) unfolding 3(3) pn by auto
    qed
    then have "wp (loop_fuel f ?body (a + PGSIZE, pa + PGSIZE)) (\<lambda>done u. \<exists>qs' k. vm_step d s qs u qs'
        \<and> (if done then k = Suc (Suc n) else k \<le> Suc n \<and> qs' = []) \<and> length qs \<le> length qs' + k
        \<and> pt_entry (pmem u) d = pt_map (pt_entry (pmem s) d) a k pa perm) t"
    proof (rule wp_mono, elim exE conjE)
      fix ok u qs'' k
      assume u: "vm_step d t qs' u qs''" "if ok then k = Suc n else k \<le> n \<and> qs'' = []" "length qs' \<le> length qs'' + k"
        "pt_entry (pmem u) d = pt_map (pt_entry (pmem t) d) (a + PGSIZE) k (pa + PGSIZE) perm"
      show "\<exists>qs' k. vm_step d s qs u qs' \<and> (if ok then k = Suc (Suc n) else k \<le> Suc n \<and> qs' = [])
        \<and> length qs \<le> length qs' + k \<and> pt_entry (pmem u) d = pt_map (pt_entry (pmem s) d) a k pa perm"
        using vm_step_trans [OF 3(1) u(1)] u(2-4) 3(2) pt_map_Suc [OF pn]
        by (intro exI [of _ qs''] exI [of _ "Suc k"]) (simp add: 3(3) split: if_splits)
    qed
    then show ?case using ne by (simp add: wp)
  qed
qed

lemma wp_mappages:
  assumes "vm_ok s d qs" "0 < len" "unat la + unat len \<le> 2 ^ 32"
    and "\<forall>b. pgno la \<le> pgno b \<and> pgno b \<le> pgno (la + len - 1) \<longrightarrow> pt_entry (pmem s) d b AND PTE_P = 0"
  shows "wp (mappages d la len pa perm) (\<lambda>done t. \<exists>qs' k. vm_step d s qs t qs'
      \<and> (if done then k = Suc (pgno (la + len - 1) - pgno la) else k \<le> pgno (la + len - 1) - pgno la \<and> qs' = [])
      \<and> length qs \<le> length qs' + k
      \<and> pt_entry (pmem t) d = pt_map (pt_entry (pmem s) d) la k pa perm) s"
proof -
  let ?n = "pgno (la + len - 1) - pgno la"
  have len: "0 < unat len" using assms(2) by (simp add: word_less_nat_alt)
  have lst: "unat (la + len - 1) = unat la + unat len - 1"
  proof -
    have "unat (la + (len - 1)) = unat la + unat (len - 1)"
      using assms(3) len by (subst unat_add_lt) (simp_all add: unat_sub_if_size)
    moreover have "unat (len - 1) = unat len - 1" using assms(2) len by (simp add: unat_sub_if_size)
    ultimately show ?thesis using len by (simp add: add_diff_eq)
  qed
  then have le: "pgno la \<le> pgno (la + len - 1)" using len by (simp add: div_le_mono)
  have rd: "unat (PGROUNDDOWN x) = 4096 * pgno x" for x
    by (simp add: unat_PGROUNDDOWN minus_mod_eq_mult_div)
  have pg: "pgno (PGROUNDDOWN la) = pgno la" by (simp add: rd)
  have n: "?n < mappages_fuel"
    using unat_lt32 [of "la + len - 1"] by (simp add: mappages_fuel_def less_imp_diff_less div_less_iff_less_mult)
  have hi: "4096 * pgno la + 4096 * ?n < 2 ^ 32"
    using le unat_lt32 [of "la + len - 1"] times_div_less_eq_dividend [of 4096 "unat (la + len - 1)"]
    by (simp flip: distrib_left)
  have map: "pt_map E (PGROUNDDOWN la) k pa perm = pt_map E la k pa perm" for E k
    unfolding pt_map_def pg ..
  show ?thesis unfolding mappages_def Let_def
    using mappages_loop [OF n assms(1), of "PGROUNDDOWN la" "PGROUNDDOWN (la + len - 1)" perm pa] hi le assms(4)
    by (simp add: rd map pg flip: distrib_left)
qed

text \<open>C39. \<^verbatim>\<open>mappages\<close> on a range without mappings refines the abstract operation on the
  map from pages to entries. It returns; when it succeeds the map is changed on exactly the pages that
  the range touches, which get consecutive frames with the permissions asked for; when it fails the free
  list is used up and only a beginning of the range is mapped. At most one free page is taken for each
  page mapped, so it succeeds when as many pages are free as the range touches. The directory and its tables stay distinct
  pages off the free list, the tables it adds come from the free list, and no other byte of memory
  changes.\<close>

theorem mappages_maps:
  assumes "vm_ok s d qs" "0 < len" "unat la + unat len \<le> 2 ^ 32"
    and "\<forall>b. pgno la \<le> pgno b \<and> pgno b \<le> pgno (la + len - 1) \<longrightarrow> pt_entry (pmem s) d b AND PTE_P = 0"
  shows "wp (mappages d la len pa perm) (\<lambda>done t. \<exists>qs' k. vm_step d s qs t qs'
      \<and> (if done then k = Suc (pgno (la + len - 1) - pgno la) else k \<le> pgno (la + len - 1) - pgno la \<and> qs' = [])
      \<and> length qs \<le> length qs' + k
      \<and> pt_entry (pmem t) d = pt_map (pt_entry (pmem s) d) la k pa perm) s"
  by (rule wp_mappages [OF assms])

text \<open>An empty directory and two free pages.\<close>

definition vm_st :: "unit kmem_scheme" where
  "vm_st = (kmem_boot ())\<lparr>freelist := 0x300000, pmem := (\<lambda>_. 0)(0x300001 := 0x10, 0x300002 := 0x30)\<rparr>"

lemma vm_st_dir: "i < 1024 \<Longrightarrow> ld32 (pmem vm_st) (0x200000 + 4 * i) = 0"
proof -
  assume i: "i < 1024"
  have "pmem vm_st a = 0" if "in_page 0x200000 a" for a
    using that by (auto simp: vm_st_def in_page_def)
  then have "ld32 (pmem vm_st) (0x200000 + 4 * i) = ld32 (\<lambda>_. 0) (0x200000 + 4 * i)"
    using i by (intro ld32_slot_cong) (simp_all add: page_ok_def)
  then show ?thesis by (simp add: ld32_def)
qed

lemma vm_st_ok: "vm_ok vm_st 0x200000 [0x300000, 0x301000]"
proof -
  have r: "kmem_ready vm_st" using kmem_ready_boot [of "()"] by (simp add: kmem_ready_def vm_st_def)
  have "ld32 (pmem vm_st) 0x300000 = 0x301000" "ld32 (pmem vm_st) 0x301000 = 0"
    by (simp_all add: vm_st_def ld32_def push_bit_eq_mult)
  moreover have "freelist vm_st = 0x300000" by (simp add: vm_st_def)
  ultimately show ?thesis using r vm_st_dir
    by (auto simp: vm_ok_def free_pages_def pt_ok_def pt_pages_def pde_present_def page_ok_def)
qed

lemma vm_st_entry: "pt_entry (pmem vm_st) 0x200000 = (\<lambda>_. 0)"
  by (simp add: pt_entry_def vm_st_dir fun_eq_iff)

lemma mappages_maps_witness:
  "wp (mappages 0x200000 0x3FF800 0x1000 0x400000 PTE_W) (\<lambda>done t. \<exists>qs' k.
      vm_step 0x200000 vm_st [0x300000, 0x301000] t qs'
      \<and> (if done then k = 2 else k \<le> 1 \<and> qs' = []) \<and> length [0x300000 :: u32, 0x301000] \<le> length qs' + k
      \<and> pt_entry (pmem t) 0x200000 = pt_map (\<lambda>_. 0) 0x3FF800 k 0x400000 PTE_W) vm_st"
proof -
  have p: "pgno (0x3FF800 + 0x1000 - 1) = 1024" "pgno 0x3FF800 = 1023" by simp_all
  have n: "1024 - 1023 = (1 :: nat)" "Suc 1 = 2" by simp_all
  have len: "(0 :: u32) < 0x1000" "unat (0x3FF800 :: u32) + unat (0x1000 :: u32) \<le> 2 ^ 32" by simp_all
  have u: "\<forall>b. pgno 0x3FF800 \<le> pgno b \<and> pgno b \<le> pgno (0x3FF800 + 0x1000 - 1)
      \<longrightarrow> pt_entry (pmem vm_st) 0x200000 b AND PTE_P = 0" by (simp add: vm_st_entry)
  show ?thesis
    using mappages_maps [OF vm_st_ok len u, of "0x400000" PTE_W] by (simp only: vm_st_entry p n)
qed

section \<open>Growing a process\<close>

text \<open>\<open>uvm_grown d s qs t qs' fs\<close>: the pages \<open>fs\<close> were taken off the free list and are zero, the tables
  may have taken more of them, and no byte outside the tables and the free pages changed.\<close>

definition uvm_grown :: "u32 \<Rightarrow> 'a kmem_scheme \<Rightarrow> u32 list \<Rightarrow> 'a kmem_scheme \<Rightarrow> u32 list \<Rightarrow> u32 list \<Rightarrow> bool" where
  "uvm_grown d s qs t qs' fs \<longleftrightarrow> vm_ok t d qs' \<and> kmem_frame s t
    \<and> set fs \<subseteq> set qs \<and> set qs' \<subseteq> set qs \<and> pt_pages (pmem t) d \<subseteq> pt_pages (pmem s) d \<union> set qs
    \<and> distinct (fs @ qs') \<and> set fs \<inter> pt_pages (pmem t) d = {} \<and> length qs \<le> length qs' + 2 * length fs
    \<and> (\<forall>f\<in>set fs. \<forall>a. in_page f a \<longrightarrow> pmem t a = 0)
    \<and> (\<forall>a. (\<forall>p\<in>pt_pages (pmem s) d \<union> set qs. \<not> in_page p a) \<longrightarrow> pmem t a = pmem s a)"

text \<open>The pages from that of \<open>a\<close> on are mapped to the frames given.\<close>

definition pt_frames :: "(u32 \<Rightarrow> u32) \<Rightarrow> u32 \<Rightarrow> u32 list \<Rightarrow> u32 \<Rightarrow> u32" where
  "pt_frames E a fs = (\<lambda>b. if pgno a \<le> pgno b \<and> pgno b < pgno a + length fs
     then fs ! (pgno b - pgno a) OR (PTE_W OR PTE_U) OR PTE_P else E b)"

lemma pt_frames_Cons:
  assumes "pgno a' = Suc (pgno a)"
  shows "pt_frames (pt_map E a 1 r (PTE_W OR PTE_U)) a' fs = pt_frames E a (r # fs)"
proof
  fix b
  consider "pgno b < pgno a" | "pgno b = pgno a" | j where "pgno b = pgno a' + j"
    using assms by (metis less_linear Suc_leI le_Suc_ex)
  then show "pt_frames (pt_map E a 1 r (PTE_W OR PTE_U)) a' fs b = pt_frames E a (r # fs) b"
    by cases (use assms in \<open>simp_all add: pt_frames_def pt_map_def\<close>)
qed

lemma uvm_grown_refl: "vm_ok s d qs \<Longrightarrow> uvm_grown d s qs s qs []"
  by (auto simp: uvm_grown_def vm_ok_def free_pages_def)

lemma uvm_grown_trans:
  assumes "vm_ok s d qs" "uvm_grown d s qs t qs' [r]" "uvm_grown d t qs' u qs'' fs"
  shows "uvm_grown d s qs u qs'' (r # fs)"
proof -
  note s = assms(2) [unfolded uvm_grown_def] and t = assms(3) [unfolded uvm_grown_def]
  have r: "page_ok r" using s assms(1) by (auto simp: vm_ok_def free_pages_def)
  have ok: "page_ok p" if "p \<in> pt_pages (pmem t) d \<union> set qs'" for p
    using that s pt_pages_ok [of "pmem t" d p] by (auto simp: vm_ok_def free_pages_def)
  have "pmem u a = 0" if "in_page r a" for a
  proof -
    have "\<not> in_page p a" if "p \<in> pt_pages (pmem t) d \<union> set qs'" for p
      using that ok [OF that] r \<open>in_page r a\<close> in_page_unique [of p a r] s by auto
    then have "pmem u a = pmem t a" using t by blast
    then show ?thesis using s that by simp
  qed
  moreover have "pmem u a = pmem s a" if "\<forall>p\<in>pt_pages (pmem s) d \<union> set qs. \<not> in_page p a" for a
  proof -
    have "pmem t a = pmem s a" using s that by blast
    moreover have "\<forall>p\<in>pt_pages (pmem t) d \<union> set qs'. \<not> in_page p a" using that s by blast
    then have "pmem u a = pmem t a" using t by blast
    ultimately show ?thesis by simp
  qed
  moreover have "kmem_frame s u" using s t kmem_frame_trans by blast
  moreover have "r \<notin> set fs" "r \<notin> set qs''" "r \<notin> pt_pages (pmem u) d" using s t by auto
  moreover have "length qs \<le> length qs'' + 2 * length (r # fs)" using s t by simp
  ultimately show ?thesis using s t unfolding uvm_grown_def by auto
qed

text \<open>One page: a fresh frame, cleared and mapped.\<close>

lemma wp_alloc_page:
  assumes s: "vm_ok s d (r # qs)" "qs \<noteq> []" "4096 dvd unat a" "unat a + 4096 \<le> 2 ^ 32"
    and un: "\<forall>b. pgno b = pgno a \<longrightarrow> pt_entry (pmem s) d b AND PTE_P = 0"
    and t: "kmem_frame s t" "free_pages t qs" "pmem t = pmem s"
  shows "wp (mappages d a PGSIZE r (PTE_W OR PTE_U)) (\<lambda>_ u. \<exists>qs'. uvm_grown d s (r # qs) u qs' [r]
      \<and> pt_entry (pmem u) d = pt_map (pt_entry (pmem s) d) a 1 r (PTE_W OR PTE_U))
    (t\<lparr>pmem := memset (pmem t) r 0 PGSIZE\<rparr>)"
proof -
  let ?t = "t\<lparr>pmem := memset (pmem t) r 0 PGSIZE\<rparr>"
  note tk = vm_ok_take [OF s(1) t]
  have "unat (a + PGSIZE - 1) = unat a + 4095" using s(4) by (simp add: PGSIZE_def add_diff_eq [symmetric] unat_add_lt)
  then have pg: "pgno (a + PGSIZE - 1) = pgno a" using s(3) by (auto elim!: dvdE)
  have "wp (mappages d a PGSIZE r (PTE_W OR PTE_U)) (\<lambda>done u. \<exists>qs' k. vm_step d ?t qs u qs'
      \<and> (if done then k = Suc (pgno (a + PGSIZE - 1) - pgno a) else k \<le> pgno (a + PGSIZE - 1) - pgno a \<and> qs' = [])
      \<and> length qs \<le> length qs' + k
      \<and> pt_entry (pmem u) d = pt_map (pt_entry (pmem ?t) d) a k r (PTE_W OR PTE_U)) ?t"
    by (rule wp_mappages [OF tk(1)]) (use s(4) un tk(6) pg in \<open>simp_all add: PGSIZE_def\<close>)
  then show ?thesis
  proof (rule wp_mono, elim exE conjE, unfold pg)
    fix ok u qs' k
    assume u: "vm_step d ?t qs u qs'" "if ok then k = Suc (pgno a - pgno a) else k \<le> pgno a - pgno a \<and> qs' = []"
      "length qs \<le> length qs' + k" "pt_entry (pmem u) d = pt_map (pt_entry (pmem ?t) d) a k r (PTE_W OR PTE_U)"
    have k: "k = 1" using u(2,3) s(2) by (auto split: if_splits)
    obtain new where n: "qs = new @ qs'" "pt_pages (pmem u) d = pt_pages (pmem s) d \<union> set new"
      using u(1) tk(5) by (auto simp: vm_step_def)
    have same: "pmem u b = pmem ?t b" if "\<forall>p\<in>pt_pages (pmem u) d. \<not> in_page p b" for b
      using u(1) that by (simp add: vm_step_def)
    have ok: "vm_ok u d qs'" "kmem_frame ?t u" using u(1) by (simp_all add: vm_step_def)
    have z: "pmem u b = 0" if "in_page r b" for b
    proof -
      have "\<not> in_page p b" if "p \<in> pt_pages (pmem u) d" for p
        using that \<open>in_page r b\<close> tk(2-4) n in_page_unique [of p b r] pt_pages_ok [of "pmem u" d p] ok(1)
        by (auto simp: vm_ok_def)
      then show ?thesis using same [of b] that tk(2) by (simp add: memset_page)
    qed
    have fr: "pmem u b = pmem s b" if "\<forall>p\<in>pt_pages (pmem s) d \<union> set (r # qs). \<not> in_page p b" for b
      using same [of b] that n tk(2) t(3) by (auto simp: memset_page)
    have "kmem_frame s u" using ok(2) kmem_frame_trans [of s ?t u] t(1) by simp
    then have "uvm_grown d s (r # qs) u qs' [r]"
      using ok(1) n tk(3,4) z fr u(3) k by (auto simp: uvm_grown_def vm_ok_def free_pages_def)
    with u(4) tk(6) k show "\<exists>qs'. uvm_grown d s (r # qs) u qs' [r]
      \<and> pt_entry (pmem u) d = pt_map (pt_entry (pmem s) d) a 1 r (PTE_W OR PTE_U)" by auto
  qed
qed

text \<open>\<open>n\<close> pages from that of \<open>a\<close> on are new, and mapped to fresh frames.\<close>

definition grown_by :: "u32 \<Rightarrow> u32 \<Rightarrow> nat \<Rightarrow> 'a kmem_scheme \<Rightarrow> u32 list \<Rightarrow> 'a kmem_scheme \<Rightarrow> bool" where
  "grown_by d a n s qs t \<longleftrightarrow> (\<exists>fs qs'. length fs = n \<and> uvm_grown d s qs t qs' fs
     \<and> pt_entry (pmem t) d = pt_frames (pt_entry (pmem s) d) a fs)"

lemma grown_by_0: "vm_ok s d qs \<Longrightarrow> grown_by d a 0 s qs s"
  using uvm_grown_refl [of s d qs] by (auto simp: grown_by_def pt_frames_def fun_eq_iff dest: leD)

lemma grown_by_Suc:
  assumes "vm_ok s d qs" "uvm_grown d s qs u qs' [r]" "pgno a' = Suc (pgno a)"
    and "pt_entry (pmem u) d = pt_map (pt_entry (pmem s) d) a 1 r (PTE_W OR PTE_U)"
    and "grown_by d a' n u qs' t"
  shows "grown_by d a (Suc n) s qs t"
proof -
  obtain fs qs'' where f: "length fs = n" "uvm_grown d u qs' t qs'' fs"
    "pt_entry (pmem t) d = pt_frames (pt_entry (pmem u) d) a' fs"
    using assms(5) by (auto simp: grown_by_def)
  show ?thesis unfolding grown_by_def
    using f(1) uvm_grown_trans [OF assms(1,2) f(2)] f(3) pt_frames_Cons [OF assms(3)]
    by (intro exI [of _ "r # fs"] exI [of _ qs'']) (simp add: assms(4))
qed

lemma allocuvm_loop:
  fixes s :: "'a kmem_scheme"
  assumes "n < fuel" "vm_ok s d qs" "4096 dvd unat a" "unat a + 4096 * n = unat lst + 4096"
    "unat lst + 4096 < 2 ^ 32" "2 * n \<le> length qs"
    and "\<forall>b. pgno a \<le> pgno b \<and> pgno b < pgno a + n \<longrightarrow> pt_entry (pmem s) d b AND PTE_P = 0"
  shows "wp (loop_fuel fuel (\<lambda>a.
      if \<not> a \<le> lst then ret (Inr x)
      else bnd kalloc (\<lambda>mem.
      if mem = 0 then oom
      else thn (modify (\<lambda>s. s\<lparr>pmem := memset (pmem s) mem 0 PGSIZE\<rparr>)) (
      bnd (mappages d a PGSIZE mem (PTE_W OR PTE_U)) (\<lambda>_.
      ret (Inl (a + PGSIZE)))))) a)
    (\<lambda>r t. r = x \<and> grown_by d a n s qs t) s"
    (is "wp (loop_fuel fuel ?body _) _ _")
  using assms
proof (induction n arbitrary: fuel a s qs)
  case 0
  then obtain f where f: "fuel = Suc f" by (cases fuel) auto
  have "\<not> a \<le> lst" using "0.prems"(4) by (simp add: word_le_nat_alt)
  then show ?case using grown_by_0 [OF "0.prems"(2)]
    unfolding f wp_loop_fuel_Suc by (auto simp: wp)
next
  case (Suc n)
  obtain f where f: "fuel = Suc f" using Suc.prems(1) by (cases fuel) auto
  obtain r qs1 where qs: "qs = r # qs1" "qs1 \<noteq> []" using Suc.prems(6) by (cases qs; cases "tl qs") auto
  have le: "a \<le> lst" using Suc.prems(4) by (simp add: word_le_nat_alt)
  have nxt: "unat (a + PGSIZE) = unat a + 4096" using Suc.prems(4,5) by (simp add: PGSIZE_def unat_add_lt)
  then have pn: "pgno (a + PGSIZE) = Suc (pgno a)" by simp
  have s: "lock_free KmemLock s" "cli_ok s" "free_pages s qs" "r \<noteq> 0"
    using Suc.prems(2) qs by (auto simp: vm_ok_def kmem_ready_def free_pages_def)
  have un: "\<forall>b. pgno b = pgno a \<longrightarrow> pt_entry (pmem s) d b AND PTE_P = 0" using Suc.prems(7) by auto
  have rest: "wp (loop_fuel f ?body (a + PGSIZE)) (\<lambda>r t. r = x \<and> grown_by d a (Suc n) s qs t) u"
    if u: "uvm_grown d s qs u qs' [r]" "pt_entry (pmem u) d = pt_map (pt_entry (pmem s) d) a 1 r (PTE_W OR PTE_U)"
    for u qs'
  proof -
    have "wp (loop_fuel f ?body (a + PGSIZE)) (\<lambda>r t. r = x \<and> grown_by d (a + PGSIZE) n u qs' t) u"
    proof (rule Suc.IH)
      show "n < f" "4096 dvd unat (a + PGSIZE)" "unat (a + PGSIZE) + 4096 * n = unat lst + 4096"
        "unat lst + 4096 < 2 ^ 32" using Suc.prems(1,3,4,5) f nxt by simp_all
      show "vm_ok u d qs'" "2 * n \<le> length qs'" using u(1) Suc.prems(6) by (simp_all add: uvm_grown_def)
      show "\<forall>b. pgno (a + PGSIZE) \<le> pgno b \<and> pgno b < pgno (a + PGSIZE) + n \<longrightarrow> pt_entry (pmem u) d b AND PTE_P = 0"
        using Suc.prems(7) unfolding u(2) pn pt_map_def by auto
    qed
    then show ?thesis
      by (rule wp_mono) (use grown_by_Suc [OF Suc.prems(2) u(1) pn u(2)] in auto)
  qed
  show ?case unfolding f wp_loop_fuel_Suc using le
  proof (simp, intro wp_bndI [OF kalloc_free_pages [OF s(1-3)]], goal_cases)
    case (1 r' t)
    have t: "kmem_frame s t" "free_pages t qs1" "pmem t = pmem s" and r': "r' = r" using 1 qs by auto
    have hi: "unat a + 4096 \<le> 2 ^ 32" using Suc.prems(4,5) by simp
    note pgw = wp_alloc_page [OF Suc.prems(2) [unfolded qs(1)] qs(2) Suc.prems(3) hi un t]
    show ?case using s(4) r' by (simp add: wp) (rule wp_mono [OF pgw], use rest qs(1) in auto)
  qed
qed

text \<open>C40. Growing a process: when the new size is at most \<^verbatim>\<open>USERTOP\<close>, the pages between the two
  sizes are not mapped and two pages are free for each of them, \<^verbatim>\<open>allocuvm\<close> returns the new size. It has
  mapped every one of these pages, writable by the user, to a frame of its own that was free and is filled
  with zeros; the other pages keep their entries, the frames are neither tables nor free any more, and no
  byte outside the tables and the pages that were free has changed.\<close>

theorem allocuvm_grows:
  assumes "vm_ok s d qs" "oldsz \<le> newsz" "0 < newsz" "newsz \<le> USERTOP"
    and n: "n = (unat newsz + 4095) div 4096 - (unat oldsz + 4095) div 4096" "2 * n \<le> length qs"
    and "\<forall>b. pgno (PGROUNDUP oldsz) \<le> pgno b \<and> pgno b < pgno (PGROUNDUP oldsz) + n \<longrightarrow> pt_entry (pmem s) d b AND PTE_P = 0"
  shows "wp (allocuvm d oldsz newsz) (\<lambda>r t. r = newsz \<and> grown_by d (PGROUNDUP oldsz) n s qs t) s"
proof -
  have sz: "unat oldsz \<le> unat newsz" "0 < unat newsz" "unat newsz \<le> 0xA0000"
    using assms(2-4) by (simp_all add: USERTOP_def word_le_nat_alt word_less_nat_alt)
  let ?lst = "PGROUNDDOWN (newsz - 1)"
  have "unat (newsz - 1) = unat newsz - 1" using sz(2) by (simp add: unat_sub_if_size)
  then have lst: "unat ?lst = 4096 * ((unat newsz - 1) div 4096)"
    by (simp add: unat_PGROUNDDOWN minus_mod_eq_mult_div)
  have up: "unat (PGROUNDUP oldsz) = (unat oldsz + 4095) div 4096 * 4096"
    using sz by (intro unat_PGROUNDUP) simp
  have ceil: "(unat newsz + 4095) div 4096 = Suc ((unat newsz - 1) div 4096)"
  proof -
    have "unat newsz + 4095 = unat newsz - 1 + 4096" using sz(2) by simp
    then show ?thesis by simp
  qed
  have "(unat oldsz + 4095) div 4096 \<le> (unat newsz + 4095) div 4096" using sz(1) by (simp add: div_le_mono)
  then have eq: "unat (PGROUNDUP oldsz) + 4096 * n = unat ?lst + 4096"
    unfolding up lst n(1) ceil by (simp add: diff_mult_distrib2)
  have "(unat newsz - 1) div 4096 \<le> 0xA0000 div 4096" using sz(3) by (intro div_le_mono) simp
  then have hi: "unat ?lst + 4096 < 2 ^ 32" "n < uvm_fuel" unfolding lst n(1) ceil uvm_fuel_def by simp_all
  have "4096 dvd unat (PGROUNDUP oldsz)" by (simp add: up)
  moreover have "\<not> USERTOP < newsz" using assms(4) by simp
  moreover have "oldsz < newsz \<or> oldsz = newsz" using assms(2) by auto
  ultimately show ?thesis
    using allocuvm_loop [OF hi(2) assms(1) _ eq hi(1) n(2) assms(7), of newsz]
    by (auto simp: allocuvm_def)
qed

lemma allocuvm_grows_witness:
  "wp (allocuvm 0x200000 0 100) (\<lambda>r t. r = 100 \<and> grown_by 0x200000 0 1 vm_st [0x300000, 0x301000] t) vm_st"
proof -
  have p: "PGROUNDUP 0 = 0" "pgno 0 = 0" by (simp_all add: PGROUNDUP_def PGSIZE_def)
  have sz: "(0 :: u32) \<le> 100" "(0 :: u32) < 100" "(100 :: u32) \<le> USERTOP"
    "(1 :: nat) = (unat (100 :: u32) + 4095) div 4096 - (unat (0 :: u32) + 4095) div 4096"
    "2 * 1 \<le> length [0x300000 :: u32, 0x301000]" by (simp_all add: USERTOP_def)
  have u: "\<forall>b. pgno (PGROUNDUP 0) \<le> pgno b \<and> pgno b < pgno (PGROUNDUP 0) + 1
      \<longrightarrow> pt_entry (pmem vm_st) 0x200000 b AND PTE_P = 0" by (simp add: vm_st_entry)
  show ?thesis using allocuvm_grows [OF vm_st_ok sz u] unfolding p(1) .
qed

end
