(* ===== verification/Scheduler.thy ===== *)
theory Scheduler
  imports Vm Complex_Main "HOL-Library.Sublist"
begin

text \<open>
  The per-processor scheduler (\<^verbatim>\<open>scheduler\<close> in \<^verbatim>\<open>proc.c\<close>) under its three
  compile-time policies: round robin (the default), \<^verbatim>\<open>RR2Q\<close> and \<^verbatim>\<open>FAIR2Q\<close>.

  \<open>user p\<close> stands for what process \<open>p\<close> does from the moment it is switched in until it
  switches back; \<open>ts\<close> is the address of the task state segment of the processor. The local
  variables of \<^verbatim>\<open>scheduler\<close> that live across rounds are the records \<open>rr2q\<close> and
  \<open>fair2q\<close>.
\<close>

section \<open>Running one process\<close>

definition dispatch ::
  "u32 \<Rightarrow> (nat \<Rightarrow> ('a pstate_scheme, unit) kop) \<Rightarrow> nat \<Rightarrow> ('a pstate_scheme, unit) kop" where
  "dispatch ts user p = seqs [
     modify (upd_cpu (\<lambda>c. c\<lparr>cproc := Some p\<rparr>)),
     switchuvm ts p,
     modify (upd_proc p (\<lambda>q. q\<lparr>p_state := RUNNING\<rparr>)),
     user p,
     switchkvm,
     modify (upd_cpu (\<lambda>c. c\<lparr>cproc := None\<rparr>))]"

section \<open>Round robin\<close>

definition rr_slot ::
  "u32 \<Rightarrow> (nat \<Rightarrow> ('a pstate_scheme, unit) kop) \<Rightarrow> nat \<Rightarrow> ('a pstate_scheme, unit) kop" where
  "rr_slot ts user p =
    bnd (gets (\<lambda>s. p_state (ptab s p))) (\<lambda>st.
    if st \<noteq> RUNNABLE then ret () else dispatch ts user p)"

definition rr_round ::
  "u32 \<Rightarrow> (nat \<Rightarrow> ('a pstate_scheme, unit) kop) \<Rightarrow> ('a pstate_scheme, unit) kop" where
  "rr_round ts user = seqs [
     sti,
     acquire PtableLock,
     for_each [0..<NPROC] (rr_slot ts user),
     release PtableLock]"

text \<open>\<^verbatim>\<open>for(;;)\<close> never ends: any number of rounds.\<close>

primrec scheduler_rr ::
  "nat \<Rightarrow> u32 \<Rightarrow> (nat \<Rightarrow> ('a pstate_scheme, unit) kop) \<Rightarrow> ('a pstate_scheme, unit) kop" where
  "scheduler_rr 0 ts user = ret ()"
| "scheduler_rr (Suc n) ts user = thn (rr_round ts user) (scheduler_rr n ts user)"

text \<open>Seen from a process \<open>i\<close> that switches to the scheduler: the rest of the round, the next
  rounds up to slot \<open>i\<close>, until the slot is found runnable and \<open>i\<close> is switched in again.\<close>

definition rr_resume :: "u32 \<Rightarrow> nat \<Rightarrow> ('a pstate_scheme, unit) kop" where
  "rr_resume ts i = seqs [
     modify (upd_cpu (\<lambda>c. c\<lparr>cproc := Some i\<rparr>)),
     switchuvm ts i,
     modify (upd_proc i (\<lambda>q. q\<lparr>p_state := RUNNING\<rparr>))]"

definition rr_cycle ::
  "u32 \<Rightarrow> (nat \<Rightarrow> ('a pstate_scheme, unit) kop) \<Rightarrow> nat \<Rightarrow> ('a pstate_scheme, unit + unit) kop" where
  "rr_cycle ts user i =
    thn (for_each [i + 1..<NPROC] (rr_slot ts user)) (
    thn (release PtableLock) (
    thn sti (
    thn (acquire PtableLock) (
    thn (for_each [0..<i] (rr_slot ts user)) (
    bnd (gets (\<lambda>s. p_state (ptab s i))) (\<lambda>st.
    if st \<noteq> RUNNABLE then ret (Inl ())
    else thn (rr_resume ts i) (ret (Inr ()))))))))"

definition rr_env ::
  "nat \<Rightarrow> u32 \<Rightarrow> (nat \<Rightarrow> ('a pstate_scheme, unit) kop) \<Rightarrow> ('a pstate_scheme, unit) kop" where
  "rr_env fuel ts user =
    bnd curproc (\<lambda>i.
    thn switchkvm (
    thn (modify (upd_cpu (\<lambda>c. c\<lparr>cproc := None\<rparr>))) (
    loop_fuel fuel (\<lambda>_. rr_cycle ts user i) ())))"

section \<open>RR2Q\<close>

record rr2q =
  q_loop :: int
  q_lastHigh :: "nat option"
  q_lastLow :: "nat option"

text \<open>The \<^verbatim>\<open>while\<close> over \<^verbatim>\<open>lowPriorityRunnable\<close>: at most \<open>64\<close> steps, one for each
  increment of \<^verbatim>\<open>loop\<close> from 64 to 128. Reading past the table is undefined.\<close>

primrec rr2q_low :: "nat \<Rightarrow> nat \<Rightarrow> int \<Rightarrow> ('a pstate_scheme, nat \<times> int) kop" where
  "rr2q_low 0 low lp = ret (low, lp)"
| "rr2q_low (Suc n) low lp =
    (if low \<ge> NPROC then undef
     else bnd (gets (\<lambda>s. ptab s low)) (\<lambda>q.
     if p_priority q \<noteq> 0 \<and> p_state q = RUNNABLE then ret (low, lp)
     else if lp + 1 = 128 then ret (low + 1, lp + 1)
     else rr2q_low n (low + 1) (lp + 1)))"

definition rr2q_slot ::
  "u32 \<Rightarrow> (nat \<Rightarrow> ('a pstate_scheme, unit) kop) \<Rightarrow> nat \<Rightarrow> rr2q \<Rightarrow> ('a pstate_scheme, nat \<times> rr2q) kop"
  where
  "rr2q_slot ts user p v =
    bnd (gets (\<lambda>s. ptab s p)) (\<lambda>q.
    if p_state q \<noteq> RUNNABLE \<and> p_priority q = 0 then ret (p, v\<lparr>q_loop := q_loop v + 1\<rparr>)
    else if p_priority q \<noteq> 0 \<and> q_loop v < 64 then ret (p, v\<lparr>q_loop := q_loop v + 1\<rparr>)
    else if q_loop v = 64 then
      bnd (rr2q_low 64 (case q_lastLow v of None \<Rightarrow> p | Some l \<Rightarrow> l) 64) (\<lambda>(low, lp).
      let p' = (if lp < 128 then low else p) in
      if p' \<ge> NPROC then undef
      else thn (dispatch ts user p') (ret (p, v\<lparr>q_lastHigh := Some p, q_lastLow := Some low, q_loop := 0\<rparr>)))
    else thn (dispatch ts user p) (ret (p, v\<lparr>q_loop := 0, q_lastHigh := Some p\<rparr>)))"

text \<open>After a dispatch the loop variable is set back to \<^verbatim>\<open>lastHighPri\<close>, the slot the
  iteration started with, so the \<^verbatim>\<open>for\<close> visits each slot once.\<close>

definition rr2q_round ::
  "u32 \<Rightarrow> (nat \<Rightarrow> ('a pstate_scheme, unit) kop) \<Rightarrow> rr2q \<Rightarrow> ('a pstate_scheme, rr2q) kop" where
  "rr2q_round ts user v =
    thn sti (
    thn (acquire PtableLock) (
    bnd (loop_fuel (NPROC + 1) (\<lambda>(p, v).
      if p \<ge> NPROC then ret (Inr v)
      else bnd (rr2q_slot ts user p v) (\<lambda>(p', v'). ret (Inl (p' + 1, v')))) (0, v)) (\<lambda>v'.
    thn (release PtableLock) (
    ret v'))))"

section \<open>FAIR2Q\<close>

text \<open>Ratios are doubles; \<open>rnd\<close> is the rounding of a quotient of two integers to a double.\<close>

record fair2q =
  f_loop :: int
  f_minLow :: "nat option"
  f_minHigh :: "nat option"
  f_smallHigh :: rat
  f_smallLow :: rat

definition fair2q_ratio :: "(rat \<Rightarrow> rat) \<Rightarrow> proc \<Rightarrow> ('a pstate_scheme, rat) kop" where
  "fair2q_ratio rnd q =
    bnd clockticks (\<lambda>now.
    let mechane = s32 (sint now - p_ctime q) in
    ret (if mechane = 0 then 1 else rnd (of_int (p_rtime q) / of_int mechane)))"

text \<open>One iteration: the result is the slot to run, if any, and the new variables.\<close>

definition fair2q_pick ::
  "(rat \<Rightarrow> rat) \<Rightarrow> nat \<Rightarrow> fair2q \<Rightarrow> ('a pstate_scheme, nat option \<times> fair2q) kop" where
  "fair2q_pick rnd p v =
    bnd (gets (\<lambda>s. ptab s p)) (\<lambda>q.
    if p_state q = RUNNABLE \<and> p_priority q = 0 \<and> f_loop v < 64 then
      bnd (fair2q_ratio rnd q) (\<lambda>ratio.
      ret (None, (if ratio < f_smallHigh v then v\<lparr>f_smallHigh := ratio, f_minHigh := Some p\<rparr> else v)
                   \<lparr>f_loop := f_loop v + 1\<rparr>))
    else if p_state q = RUNNABLE \<and> p_priority q \<noteq> 0 \<and> f_loop v < 64 then
      bnd (fair2q_ratio rnd q) (\<lambda>ratio.
      ret (None, (if ratio < f_smallLow v then v\<lparr>f_smallLow := ratio, f_minLow := Some p\<rparr> else v)
                   \<lparr>f_loop := f_loop v + 1\<rparr>))
    else if f_loop v = 64 then
      if f_smallHigh v \<noteq> 2 then
        bnd (need (f_minHigh v)) (\<lambda>h. ret (Some h, v\<lparr>f_smallHigh := 2, f_smallLow := 2, f_loop := 0\<rparr>))
      else if f_smallLow v \<noteq> 2 then
        bnd (need (f_minLow v)) (\<lambda>l. ret (Some l, v\<lparr>f_smallHigh := 2, f_smallLow := 2, f_loop := 0\<rparr>))
      else ret (None, v\<lparr>f_loop := 0\<rparr>)
    else ret (None, v\<lparr>f_loop := f_loop v + 1\<rparr>))"

text \<open>The chosen process becomes the loop variable, so the \<^verbatim>\<open>for\<close> goes on after it. At
  most one process is chosen in a round, after which fewer than \<open>64\<close> slots remain: \<open>2 * NPROC\<close>
  iterations bound the round.\<close>

definition fair2q_round ::
  "(rat \<Rightarrow> rat) \<Rightarrow> u32 \<Rightarrow> (nat \<Rightarrow> ('a pstate_scheme, unit) kop) \<Rightarrow> fair2q \<Rightarrow> ('a pstate_scheme, fair2q) kop"
  where
  "fair2q_round rnd ts user v =
    thn sti (
    thn (acquire PtableLock) (
    bnd (loop_fuel (2 * NPROC + 1) (\<lambda>(p, v).
      if p \<ge> NPROC then ret (Inr v)
      else bnd (fair2q_pick rnd p v) (\<lambda>(po, v').
      case po of
        None \<Rightarrow> ret (Inl (p + 1, v'))
      | Some p' \<Rightarrow> thn (dispatch ts user p') (ret (Inl (p' + 1, v'))))) (0, v)) (\<lambda>v'.
    thn (release PtableLock) (
    ret v'))))"

section \<open>Lemmas: switching address spaces\<close>

text \<open>What \<^verbatim>\<open>switchuvm\<close> does to the processor.\<close>

definition uvm_cpu :: "u32 \<Rightarrow> u32 \<Rightarrow> u32 \<Rightarrow> cpu \<Rightarrow> cpu" where
  "uvm_cpu ts ks d c = c\<lparr>gdt := (gdt c)(SEG_TSS := (SEG16 STS_T32A ts 103 0)\<lparr>sd_s := 0\<rparr>),
     ts_ss0 := of_nat SEG_KDATA * 8, ts_esp0 := ks + KSTACKSIZE, task_reg := of_nat SEG_TSS * 8, cr3 := d\<rparr>"

lemma uvm_cpu_sel [simp]:
  "ncli (uvm_cpu ts ks d c) = ncli c" "eflags (uvm_cpu ts ks d c) = eflags c"
  "cproc (uvm_cpu ts ks d c) = cproc c" "cr3 (uvm_cpu ts ks d c) = d"
  by (simp_all add: uvm_cpu_def)

lemma wp_switchuvm:
  assumes "cproc (my_cpu s) = Some i" "0 < ncli (my_cpu s)" "eflags (my_cpu s) AND FL_IF = 0"
    "p_pgdir (ptab s p) \<noteq> 0"
  shows "wp (switchuvm ts p) Q s =
    Q () (upd_cpu (uvm_cpu ts (p_kstack (ptab s i)) (p_pgdir (ptab s p))) s)"
  using assms eflags_unchanged [OF assms(3)]
  by (simp add: switchuvm_def wp pushcli_def popcli_def readeflags_def cli_def sti_def upd_cpu_def
      uvm_cpu_def)

section \<open>Round robin: every runnable process runs in every round\<close>

text \<open>The scheduler between two dispatches holds the table lock and nothing else.\<close>

definition sched_ctx :: "'a pstate_scheme \<Rightarrow> bool" where
  "sched_ctx s \<longleftrightarrow> lock_mine PtableLock s \<and> ncli (my_cpu s) = 1 \<and> eflags (my_cpu s) AND FL_IF = 0"

definition tab_ok :: "'a pstate_scheme \<Rightarrow> bool" where
  "tab_ok s \<longleftrightarrow> (\<forall>q < NPROC. p_state (ptab s q) = RUNNABLE \<or> p_state (ptab s q) = RUNNING
     \<longrightarrow> p_pgdir (ptab s q) \<noteq> 0)"

text \<open>What a process may do while it runs: anything that brings it back to the scheduler the
  way \<^verbatim>\<open>sched\<close> does, no longer running, and that takes no other runnable process off the
  run queue. The state carries a log of the processes that ran.\<close>

definition user_contract_on ::
  "(proc \<Rightarrow> bool) \<Rightarrow> (nat \<Rightarrow> (nat list pstate_scheme, unit) kop) \<Rightarrow> bool" where
  "user_contract_on P user \<longleftrightarrow> (\<forall>p s. in_sched p s \<longrightarrow> p_state (ptab s p) = RUNNING \<longrightarrow> tab_ok s \<longrightarrow>
     P (ptab s p) \<longrightarrow>
     wp (user p) (\<lambda>_ t. in_sched p t \<and> p_state (ptab t p) \<noteq> RUNNING \<and> tab_ok t
       \<and> (\<forall>q. q \<noteq> p \<longrightarrow> p_state (ptab s q) = RUNNABLE \<longrightarrow>
            p_state (ptab t q) = RUNNABLE \<and> p_priority (ptab t q) = p_priority (ptab s q))
       \<and> pstate.more t = pstate.more s @ [p]) s)"

abbreviation user_contract :: "(nat \<Rightarrow> (nat list pstate_scheme, unit) kop) \<Rightarrow> bool" where
  "user_contract \<equiv> user_contract_on (\<lambda>_. True)"

definition ran :: "nat list pstate_scheme \<Rightarrow> nat list pstate_scheme \<Rightarrow> nat list \<Rightarrow> bool" where
  "ran s t ps \<longleftrightarrow> sched_ctx t \<and> tab_ok t \<and> pstate.more t = pstate.more s @ ps
     \<and> (\<forall>q. q \<notin> set ps \<longrightarrow> p_state (ptab s q) = RUNNABLE \<longrightarrow>
          p_state (ptab t q) = RUNNABLE \<and> p_priority (ptab t q) = p_priority (ptab s q))"

lemma ran_trans: "ran s t ps \<Longrightarrow> ran t u qs \<Longrightarrow> ran s u (ps @ qs)"
  by (simp add: ran_def)

lemma dispatch_ran:
  assumes "user_contract_on P user" "sched_ctx s" "tab_ok s" "p < NPROC" "p_state (ptab s p) = RUNNABLE"
    and "P ((ptab s p)\<lparr>p_state := RUNNING\<rparr>)"
  shows "wp (dispatch ts user p) (\<lambda>_ t. ran s t [p]) s"
proof -
  let ?s1 = "upd_cpu (\<lambda>c. c\<lparr>cproc := Some p\<rparr>) s"
  let ?s2 = "upd_proc p (\<lambda>q. q\<lparr>p_state := RUNNING\<rparr>)
     (upd_cpu (uvm_cpu ts (p_kstack (ptab ?s1 p)) (p_pgdir (ptab ?s1 p))) ?s1)"
  have pg: "p_pgdir (ptab s p) \<noteq> 0" using assms(3-5) by (simp add: tab_ok_def)
  have i: "in_sched p ?s2" using assms(2) by (simp add: in_sched_def sched_ctx_def)
  have st: "p_state (ptab ?s2 p) = RUNNING" by simp
  have tok: "tab_ok ?s2" using assms(3) pg by (simp add: tab_ok_def)
  have "wp (user p) (\<lambda>_. wp (seqs [switchkvm, modify (upd_cpu (\<lambda>c. c\<lparr>cproc := None\<rparr>))])
      (\<lambda>_ t. ran s t [p])) ?s2"
    using assms(1) [unfolded user_contract_on_def, rule_format, OF i st tok] assms(6)
    by (auto elim!: wp_mono simp: wp switchkvm_def ran_def sched_ctx_def in_sched_def tab_ok_def)
  with assms(2) pg show ?thesis
    by (simp add: dispatch_def wp wp_switchuvm sched_ctx_def)
qed

lemma rr_pass_ran:
  assumes "user_contract user" "sched_ctx s" "tab_ok s" "set ps \<subseteq> {..<NPROC}" "distinct ps"
  shows "wp (for_each ps (rr_slot ts user)) (\<lambda>_ t. \<exists>qs. ran s t qs \<and> subseq qs ps
    \<and> (\<forall>q \<in> set ps. p_state (ptab s q) = RUNNABLE \<longrightarrow> q \<in> set qs)) s"
  using assms(2-5)
proof (induction ps arbitrary: s)
  case Nil
  then show ?case by (auto simp: wp ran_def intro: exI [of _ "[]"])
next
  case (Cons p ps)
  have rest: "wp (for_each ps (rr_slot ts user)) (\<lambda>_ u. \<exists>qs. ran t u qs \<and> subseq qs ps
      \<and> (\<forall>q \<in> set ps. p_state (ptab t q) = RUNNABLE \<longrightarrow> q \<in> set qs)) t"
    if "sched_ctx t" "tab_ok t" for t
    by (rule Cons.IH) (use that Cons.prems in auto)
  show ?case
  proof (cases "p_state (ptab s p) = RUNNABLE")
    case False
    then have "wp (rr_slot ts user p) Q s = Q () s" for Q by (simp add: rr_slot_def wp)
    with False show ?thesis
      by (simp add: wp) (rule wp_mono [OF rest], use Cons.prems in auto)
  next
    case True
    have "wp (rr_slot ts user p) (\<lambda>_ t. ran s t [p]) s"
      using True dispatch_ran [OF assms(1) Cons.prems(1,2) _ True, of ts] Cons.prems(3)
      by (simp add: rr_slot_def wp)
    then show ?thesis unfolding wp_for_each_Cons
    proof (rule wp_mono)
      fix a t assume t: "ran s t [p]"
      show "wp (for_each ps (rr_slot ts user)) (\<lambda>_ u. \<exists>qs. ran s u qs \<and> subseq qs (p # ps)
          \<and> (\<forall>q \<in> set (p # ps). p_state (ptab s q) = RUNNABLE \<longrightarrow> q \<in> set qs)) t"
      proof (rule wp_mono [OF rest])
        fix b u assume "\<exists>qs. ran t u qs \<and> subseq qs ps
          \<and> (\<forall>q \<in> set ps. p_state (ptab t q) = RUNNABLE \<longrightarrow> q \<in> set qs)"
        then obtain qs where qs: "ran t u qs" "subseq qs ps"
          "\<forall>q \<in> set ps. p_state (ptab t q) = RUNNABLE \<longrightarrow> q \<in> set qs" by blast
        have "ran s u (p # qs)" using ran_trans [OF t qs(1)] by simp
        moreover have "\<forall>q \<in> set (p # ps). p_state (ptab s q) = RUNNABLE \<longrightarrow> q \<in> set (p # qs)"
          using qs(3) t by (auto simp: ran_def)
        moreover have "subseq (p # qs) (p # ps)" using qs(2) by simp
        ultimately show "\<exists>qs. ran s u qs \<and> subseq qs (p # ps)
          \<and> (\<forall>q \<in> set (p # ps). p_state (ptab s q) = RUNNABLE \<longrightarrow> q \<in> set qs)" by blast
      qed (use t in \<open>simp_all add: ran_def\<close>)
    qed
  qed
qed

lemma subseq_set: "subseq ys xs \<Longrightarrow> set ys \<subseteq> set xs"
  by (induction rule: list_emb.induct) auto

lemma subseq_sorted_wrt: "subseq ys xs \<Longrightarrow> sorted_wrt R xs \<Longrightarrow> sorted_wrt R ys"
  by (induction rule: list_emb.induct) (use subseq_set in fastforce)+

text \<open>C6. Round robin is fair: one round of the default scheduler runs every process that was
  runnable at its start, exactly once, in table order, and returns with the table lock free;
  processes that become runnable meanwhile may run too, at most once.\<close>

theorem rr_round_fair:
  assumes "user_contract user" "lock_free PtableLock s" "ncli (my_cpu s) = 0" "tab_ok s"
  shows "wp (rr_round ts user) (\<lambda>_ t. lock_free PtableLock t \<and> ncli (my_cpu t) = 0 \<and> tab_ok t
    \<and> (\<exists>ps. pstate.more t = pstate.more s @ ps \<and> sorted_wrt (<) ps \<and> set ps \<subseteq> {..<NPROC}
         \<and> (\<forall>q < NPROC. p_state (ptab s q) = RUNNABLE \<longrightarrow> q \<in> set ps))) s"
    (is "wp _ ?Q s")
proof -
  let ?s1 = "acq PtableLock (upd_cpu (\<lambda>c. c\<lparr>eflags := eflags c OR FL_IF\<rparr>) s)"
  have "sched_ctx ?s1" "tab_ok ?s1" using assms(2-4) by (simp_all add: sched_ctx_def tab_ok_def)
  moreover have "set [0..<NPROC] \<subseteq> {..<NPROC}" by auto
  ultimately have "wp (for_each [0..<NPROC] (rr_slot ts user)) (\<lambda>_ t. \<exists>qs. ran ?s1 t qs \<and> subseq qs [0..<NPROC]
      \<and> (\<forall>q \<in> set [0..<NPROC]. p_state (ptab ?s1 q) = RUNNABLE \<longrightarrow> q \<in> set qs)) ?s1"
    by (intro rr_pass_ran [OF assms(1)]) simp_all
  then have "wp (for_each [0..<NPROC] (rr_slot ts user)) (\<lambda>_. wp (seqs [release PtableLock]) ?Q) ?s1"
  proof (rule wp_mono, elim exE conjE)
    fix a t qs
    assume qs: "ran ?s1 t qs" "subseq qs [0..<NPROC]"
      "\<forall>q \<in> set [0..<NPROC]. p_state (ptab ?s1 q) = RUNNABLE \<longrightarrow> q \<in> set qs"
    have "sorted_wrt (<) qs" using subseq_sorted_wrt [OF qs(2)] by simp
    moreover have "set qs \<subseteq> {..<NPROC}" using subseq_set [OF qs(2)] by auto
    ultimately show "wp (seqs [release PtableLock]) ?Q t"
      using qs by (auto simp: wp lock_simps ran_def sched_ctx_def tab_ok_def)
  qed
  with assms(2) show ?thesis by (simp add: rr_round_def wp sti_def lock_simps)
qed

text \<open>A process that only yields: it comes back runnable and logs that it ran.\<close>

definition yielding :: "nat \<Rightarrow> (nat list pstate_scheme, unit) kop" where
  "yielding p = thn (upd_cur (\<lambda>q. q\<lparr>p_state := RUNNABLE\<rparr>)) (modify (\<lambda>s. s\<lparr>pstate.more := pstate.more s @ [p]\<rparr>))"

lemma yielding_contract: "user_contract yielding"
  by (auto simp: user_contract_on_def yielding_def wp in_sched_def tab_ok_def lock_mine_def)

definition pstate_boot :: "(nat \<Rightarrow> proc) \<Rightarrow> 'a \<Rightarrow> 'a pstate_scheme" where
  "pstate_boot tab x = pstate.extend (kmem_boot (pstate.fields tab 1 None 0 0 0)) x"

lemma pstate_boot_sel [simp]:
  "ptab (pstate_boot tab x) = tab" "lock_free lk (pstate_boot tab x)" "cli_ok (pstate_boot tab x)"
  "ncli (my_cpu (pstate_boot tab x)) = 0" "pstate.more (pstate_boot tab x) = x"
  by (simp_all add: pstate_boot_def pstate.defs boot_defs lock_free_def cli_ok_def)

lemma rr_round_fair_witness:
  "wp (rr_round 0 yielding) (\<lambda>_ t. lock_free PtableLock t \<and> ncli (my_cpu t) = 0 \<and> tab_ok t
    \<and> (\<exists>ps. pstate.more t = [] @ ps \<and> sorted_wrt (<) ps \<and> set ps \<subseteq> {..<NPROC} \<and> 2 \<in> set ps \<and> 5 \<in> set ps))
   (pstate_boot (\<lambda>i. if i = 2 \<or> i = 5 then proc_zero\<lparr>p_state := RUNNABLE, p_pgdir := 0x200000\<rparr>
      else proc_zero) [])"
proof -
  let ?s = "pstate_boot (\<lambda>i. if i = 2 \<or> i = 5 then proc_zero\<lparr>p_state := RUNNABLE, p_pgdir := 0x200000\<rparr>
      else proc_zero) [] :: nat list pstate_scheme"
  have "tab_ok ?s" by (simp add: tab_ok_def proc_zero_def)
  from rr_round_fair [OF yielding_contract _ _ this, of 0] show ?thesis
    by simp (rule wp_mono, assumption, force simp: NPROC_def)
qed

section \<open>Round robin: bounded waiting\<close>

text \<open>While process \<open>i\<close> is away, each other process runs at most once.\<close>

definition others_once :: "nat \<Rightarrow> nat list pstate_scheme \<Rightarrow> nat list pstate_scheme \<Rightarrow> bool" where
  "others_once i s t \<longleftrightarrow> tab_ok t \<and> (\<exists>ps. pstate.more t = pstate.more s @ ps \<and> distinct ps \<and> i \<notin> set ps)"

lemma rr_resume_in_sched:
  assumes "sched_ctx s" "p_pgdir (ptab s i) \<noteq> 0" "tab_ok s"
  shows "wp (rr_resume ts i) (\<lambda>_ t. in_sched i t \<and> p_state (ptab t i) = RUNNING \<and> tab_ok t
    \<and> pstate.more t = pstate.more s) s"
  using assms by (simp add: rr_resume_def wp wp_switchuvm sched_ctx_def in_sched_def tab_ok_def)

lemma ran_release_acquire:
  assumes "ran s t ps" "\<And>u. ran s u ps \<Longrightarrow> wp k Q u"
  shows "wp (thn (release PtableLock) (thn sti (thn (acquire PtableLock) k))) Q t"
  using assms(1) by (simp add: wp lock_simps sti_def ran_def sched_ctx_def tab_ok_def assms(2))

lemma subseq_upt_bounds: "subseq qs [a..<b] \<Longrightarrow> distinct qs \<and> set qs \<subseteq> {a..<b}"
  using subseq_set [of qs "[a..<b]"] subseq_sorted_wrt [of qs "[a..<b]" "(<)"]
  by (auto simp: strict_sorted_iff)

lemma rr_pass_upt:
  assumes "user_contract user" "b \<le> NPROC" "ran s t ps"
  shows "wp (for_each [a..<b] (rr_slot ts user)) (\<lambda>_ u. \<exists>qs. ran s u (ps @ qs) \<and> distinct qs \<and> set qs \<subseteq> {a..<b}) t"
proof -
  have t: "sched_ctx t" "tab_ok t" using assms(3) by (simp_all add: ran_def)
  have "set [a..<b] \<subseteq> {..<NPROC}" using assms(2) by auto
  from rr_pass_ran [OF assms(1) t this distinct_upt] show ?thesis
    by (rule wp_mono) (use ran_trans [OF assms(3)] subseq_upt_bounds in blast)
qed

lemma rr_cycle_resumes:
  assumes "user_contract user" "i < NPROC" "p_state (ptab s i) = RUNNABLE" "ran s s []"
  shows "wp (rr_cycle ts user i) (\<lambda>r t. r = Inr () \<and> in_sched i t \<and> p_state (ptab t i) = RUNNING
    \<and> others_once i s t) s"
    (is "wp _ ?Q s")
proof -
  have resume: "wp (bnd (gets (\<lambda>s. p_state (ptab s i))) (\<lambda>st. if st \<noteq> RUNNABLE then ret (Inl ())
      else thn (rr_resume ts i) (ret (Inr ())))) ?Q t"
    if t: "ran s t (ps @ qs)" "distinct ps" "set ps \<subseteq> {i + 1..<NPROC}" "distinct qs" "set qs \<subseteq> {0..<i}"
    for t ps qs
  proof -
    have "set ps \<inter> set qs = {}" using t(3,5) by fastforce
    then have ps: "i \<notin> set (ps @ qs)" "distinct (ps @ qs)" using t by auto
    then have run: "p_state (ptab t i) = RUNNABLE" using t(1) assms(3) by (simp add: ran_def)
    have "wp (rr_resume ts i) (\<lambda>_. ?Q (Inr ())) t"
    proof (rule wp_mono [OF rr_resume_in_sched])
      show "sched_ctx t" "p_pgdir (ptab t i) \<noteq> 0" "tab_ok t"
        using t(1) run assms(2) by (simp_all add: ran_def tab_ok_def)
    qed (use ps t(1) in \<open>auto simp: others_once_def ran_def\<close>)
    with run show ?thesis by (simp add: wp)
  qed
  show ?thesis unfolding rr_cycle_def
  proof (rule wp_thnI [OF rr_pass_upt [OF assms(1) order_refl assms(4)]], elim exE conjE)
    fix t ps assume t: "ran s t ([] @ ps)" and ps: "distinct ps" "set ps \<subseteq> {i + 1..<NPROC}"
    from t show "wp (thn (release PtableLock) (thn sti (thn (acquire PtableLock)
      (thn (for_each [0..<i] (rr_slot ts user)) (bnd (gets (\<lambda>s. p_state (ptab s i)))
      (\<lambda>st. if st \<noteq> RUNNABLE then ret (Inl ()) else thn (rr_resume ts i) (ret (Inr ())))))))) ?Q t"
    proof (rule ran_release_acquire)
      fix u assume u: "ran s u ([] @ ps)"
      show "wp (thn (for_each [0..<i] (rr_slot ts user)) (bnd (gets (\<lambda>s. p_state (ptab s i)))
        (\<lambda>st. if st \<noteq> RUNNABLE then ret (Inl ()) else thn (rr_resume ts i) (ret (Inr ()))))) ?Q u"
        by (rule wp_thnI [OF rr_pass_upt [OF assms(1) less_imp_le [OF assms(2)] u]])
          (use ps resume in auto)
    qed
  qed
qed

lemma rr_env_switching:
  assumes "user_contract user"
  shows "switching (rr_env (Suc n) ts user)
    (\<lambda>i s. i < NPROC \<and> tab_ok s \<and> p_state (ptab s i) = RUNNABLE) others_once"
proof
  fix i and s :: "nat list pstate_scheme"
  assume pre: "i < NPROC \<and> tab_ok s \<and> p_state (ptab s i) = RUNNABLE" and s: "in_sched i s"
  let ?s1 = "upd_cpu (\<lambda>c. c\<lparr>cproc := None\<rparr>) (upd_cpu (\<lambda>c. c\<lparr>cr3 := kpgdir s\<rparr>) s)"
  have "ran ?s1 ?s1 []" using pre s by (simp add: ran_def sched_ctx_def in_sched_def tab_ok_def)
  from rr_cycle_resumes [OF assms _ _ this, of i ts] pre
  have "wp (rr_cycle ts user i) (\<lambda>r t. r = Inr () \<and> in_sched i t \<and> p_state (ptab t i) = RUNNING
    \<and> others_once i s t) ?s1" by (simp add: others_once_def)
  then have "wp (loop_fuel (Suc n) (\<lambda>_. rr_cycle ts user i) ())
    (\<lambda>_ t. in_sched i t \<and> p_state (ptab t i) = RUNNING \<and> others_once i s t) ?s1"
    unfolding wp_loop_fuel_Suc by (rule wp_mono) auto
  with s show "wp (rr_env (Suc n) ts user)
      (\<lambda>_ t. in_sched i t \<and> p_state (ptab t i) = RUNNING \<and> others_once i s t) s"
    by (simp add: rr_env_def wp switchkvm_def in_sched_def)
qed

interpretation rr_yield: switching "rr_env (Suc n) ts yielding"
  "\<lambda>i s. i < NPROC \<and> tab_ok s \<and> p_state (ptab s i) = RUNNABLE" others_once for n ts
  by (rule rr_env_switching [OF yielding_contract])

text \<open>C7. Bounded waiting: a process that calls \<^verbatim>\<open>yield\<close> under round robin gets the
  processor back, running, with the table lock free, after every other process has run at most
  once.\<close>

theorem yield_bounded_wait:
  assumes "user_contract user" "cproc (my_cpu s) = Some i" "i < NPROC"
    and "lock_free PtableLock s" "ncli (my_cpu s) = 0" "tab_ok s" "p_state (ptab s i) = RUNNING"
  shows "wp (yield (rr_env (Suc n) ts user)) (\<lambda>_ t. cproc (my_cpu t) = Some i
    \<and> p_state (ptab t i) = RUNNING \<and> lock_free PtableLock t \<and> ncli (my_cpu t) = 0
    \<and> (\<exists>ps. pstate.more t = pstate.more s @ ps \<and> distinct ps \<and> i \<notin> set ps)) s"
proof (rule wp_mono [OF switching.yield_spec [OF rr_env_switching [OF assms(1)] assms(2,4,5) refl]])
  show "i < NPROC \<and> tab_ok (upd_proc i (\<lambda>p. p\<lparr>p_state := RUNNABLE\<rparr>) (acq PtableLock s))
    \<and> p_state (ptab (upd_proc i (\<lambda>p. p\<lparr>p_state := RUNNABLE\<rparr>) (acq PtableLock s)) i) = RUNNABLE"
    using assms(3,6,7) by (simp add: tab_ok_def)
qed (auto simp: others_once_def)

lemma yield_bounded_wait_witness:
  "wp (yield (rr_env (Suc 0) 0 yielding)) (\<lambda>_ t. cproc (my_cpu t) = Some 2
    \<and> p_state (ptab t 2) = RUNNING \<and> lock_free PtableLock t \<and> ncli (my_cpu t) = 0
    \<and> (\<exists>ps. pstate.more t = [] @ ps \<and> distinct ps \<and> 2 \<notin> set ps))
   (upd_cpu (\<lambda>c. c\<lparr>cproc := Some 2\<rparr>) (pstate_boot (\<lambda>i. if i = 2 then
      proc_zero\<lparr>p_state := RUNNING, p_pgdir := 0x200000\<rparr> else if i = 5 then
      proc_zero\<lparr>p_state := RUNNABLE, p_pgdir := 0x300000\<rparr> else proc_zero) []))"
proof -
  let ?s = "upd_cpu (\<lambda>c. c\<lparr>cproc := Some 2\<rparr>) (pstate_boot (\<lambda>i. if i = 2 then
      proc_zero\<lparr>p_state := RUNNING, p_pgdir := 0x200000\<rparr> else if i = 5 then
      proc_zero\<lparr>p_state := RUNNABLE, p_pgdir := 0x300000\<rparr> else proc_zero) []) :: nat list pstate_scheme"
  have "tab_ok ?s" by (simp add: tab_ok_def proc_zero_def)
  with yield_bounded_wait [OF yielding_contract, of ?s 2 0 0] show ?thesis
    by (simp add: NPROC_def)
qed

section \<open>RR2Q\<close>

definition high :: "proc \<Rightarrow> bool" where
  "high q \<longleftrightarrow> p_priority q = 0"

text \<open>With the idle count below 64 a slot is either passed over or, if it holds a runnable
  process of high priority, dispatched.\<close>

lemma rr2q_slot_low:
  "q_loop v < 64 \<Longrightarrow> \<not> (p_state (ptab s p) = RUNNABLE \<and> high (ptab s p)) \<Longrightarrow>
   wp (rr2q_slot ts user p v) Q s = Q (p, v\<lparr>q_loop := q_loop v + 1\<rparr>) s"
  by (auto simp: rr2q_slot_def wp high_def)

lemma rr2q_slot_high:
  "q_loop v < 64 \<Longrightarrow> p_state (ptab s p) = RUNNABLE \<Longrightarrow> high (ptab s p) \<Longrightarrow>
   wp (rr2q_slot ts user p v) Q s =
   wp (dispatch ts user p) (\<lambda>_. Q (p, v\<lparr>q_loop := 0, q_lastHigh := Some p\<rparr>)) s"
  by (simp add: rr2q_slot_def wp high_def)

text \<open>From slot \<open>p\<close> on, every process that was runnable with high priority has run, in table
  order, each once.\<close>

definition ran_high :: "nat \<Rightarrow> nat list pstate_scheme \<Rightarrow> nat list pstate_scheme \<Rightarrow> bool" where
  "ran_high p s t \<longleftrightarrow> (\<exists>qs. ran s t qs \<and> sorted_wrt (<) qs \<and> set qs \<subseteq> {p..<NPROC}
     \<and> (\<forall>q. p \<le> q \<longrightarrow> q < NPROC \<longrightarrow> p_state (ptab s q) = RUNNABLE \<longrightarrow> high (ptab s q) \<longrightarrow> q \<in> set qs))"

lemma ran_high_skip:
  assumes "\<not> (p_state (ptab s p) = RUNNABLE \<and> high (ptab s p))" "ran_high (p + 1) s t"
  shows "ran_high p s t"
proof -
  from assms(2) obtain qs where qs: "ran s t qs" "sorted_wrt (<) qs" "set qs \<subseteq> {p + 1..<NPROC}"
    "\<forall>q. p + 1 \<le> q \<longrightarrow> q < NPROC \<longrightarrow> p_state (ptab s q) = RUNNABLE \<longrightarrow> high (ptab s q) \<longrightarrow> q \<in> set qs"
    unfolding ran_high_def by blast
  have "q \<in> set qs" if "p \<le> q" "q < NPROC" "p_state (ptab s q) = RUNNABLE" "high (ptab s q)" for q
    using that assms(1) qs(4) by (cases "q = p") simp_all
  moreover have "set qs \<subseteq> {p..<NPROC}" using qs(3) by (rule order_trans) simp
  ultimately show ?thesis unfolding ran_high_def using qs(1,2) by blast
qed

lemma ran_high_step:
  assumes "ran s t [p]" "p < NPROC" "ran_high (p + 1) t u"
  shows "ran_high p s u"
proof -
  from assms(3) obtain qs where qs: "ran t u qs" "sorted_wrt (<) qs" "set qs \<subseteq> {p + 1..<NPROC}"
    "\<forall>q. p + 1 \<le> q \<longrightarrow> q < NPROC \<longrightarrow> p_state (ptab t q) = RUNNABLE \<longrightarrow> high (ptab t q) \<longrightarrow> q \<in> set qs"
    unfolding ran_high_def by blast
  have "ran s u (p # qs)" using ran_trans [OF assms(1) qs(1)] by simp
  moreover have "sorted_wrt (<) (p # qs)" using qs(2,3) by fastforce
  moreover have "set (p # qs) \<subseteq> {p..<NPROC}" using qs(3) assms(2) by fastforce
  moreover have "q \<in> set (p # qs)"
    if "p \<le> q" "q < NPROC" "p_state (ptab s q) = RUNNABLE" "high (ptab s q)" for q
    using that assms(1) qs(4) by (cases "q = p") (auto simp: ran_def high_def)
  ultimately show ?thesis unfolding ran_high_def by blast
qed

lemma rr2q_pass:
  assumes "user_contract_on high user" "sched_ctx s" "tab_ok s" "q_loop v \<le> int p" "p \<le> NPROC"
    "NPROC - p < fuel"
  shows "wp (loop_fuel fuel (\<lambda>(p, v). if p \<ge> NPROC then ret (Inr v)
      else bnd (rr2q_slot ts user p v) (\<lambda>(p', v'). ret (Inl (p' + 1, v')))) (p, v))
    (\<lambda>_. ran_high p s) s"
    (is "wp (loop_fuel fuel ?body (p, v)) _ s")
  using assms(2-6)
proof (induction fuel arbitrary: p v s)
  case (Suc fuel)
  show ?case
  proof (cases "p = NPROC")
    case True
    with Suc.prems show ?thesis
      by (auto simp: wp_loop_fuel_Suc wp ran_high_def ran_def intro: exI [of _ "[]"])
  next
    case False
    then have p: "p < NPROC" "q_loop v < 64" using Suc.prems by (auto simp: NPROC_def)
    have rest: "wp (loop_fuel fuel ?body (p + 1, w)) (\<lambda>_. ran_high (p + 1) t) t"
      if "sched_ctx t" "tab_ok t" "q_loop w \<le> int (p + 1)" for t w
      by (rule Suc.IH) (use that Suc.prems p in auto)
    show ?thesis
    proof (cases "p_state (ptab s p) = RUNNABLE \<and> high (ptab s p)")
      case idle: False
      have "wp (loop_fuel fuel ?body (p + 1, v\<lparr>q_loop := q_loop v + 1\<rparr>)) (\<lambda>_. ran_high p s) s"
        by (rule wp_mono [OF rest]) (use Suc.prems ran_high_skip [OF idle] in auto)
      with idle p show ?thesis by (simp add: wp_loop_fuel_Suc wp rr2q_slot_low)
    next
      case run: True
      have "wp (loop_fuel fuel ?body (p + 1, v\<lparr>q_loop := 0, q_lastHigh := Some p\<rparr>)) (\<lambda>_. ran_high p s) t"
        if t: "ran s t [p]" for t
        by (rule wp_mono [OF rest]) (use t ran_high_step [OF t p(1)] in \<open>auto simp: ran_def\<close>)
      then have "wp (dispatch ts user p)
          (\<lambda>_. wp (loop_fuel fuel ?body (p + 1, v\<lparr>q_loop := 0, q_lastHigh := Some p\<rparr>)) (\<lambda>_. ran_high p s)) s"
        by (intro wp_mono [OF dispatch_ran [OF assms(1)]]) (use Suc.prems run p in \<open>simp_all add: high_def\<close>)
      with run p show ?thesis by (simp add: wp_loop_fuel_Suc wp rr2q_slot_high)
    qed
  qed
qed simp

text \<open>C8. \<^verbatim>\<open>RR2Q\<close>, high queue: a round that starts with the idle count at zero runs every
  process that was runnable with high priority at its start, exactly once and in table order, and
  runs no process of low priority. (The processes are only required to behave when they are
  dispatched with high priority, so a dispatch of any other process would not be covered.)\<close>

theorem rr2q_round_high:
  assumes "user_contract_on high user" "lock_free PtableLock s" "ncli (my_cpu s) = 0" "tab_ok s"
    "q_loop v = 0"
  shows "wp (rr2q_round ts user v) (\<lambda>_ t. lock_free PtableLock t \<and> ncli (my_cpu t) = 0 \<and> tab_ok t
    \<and> (\<exists>ps. pstate.more t = pstate.more s @ ps \<and> sorted_wrt (<) ps \<and> set ps \<subseteq> {..<NPROC}
         \<and> (\<forall>q < NPROC. p_state (ptab s q) = RUNNABLE \<and> high (ptab s q) \<longrightarrow> q \<in> set ps))) s"
    (is "wp _ ?Q s")
proof -
  let ?s1 = "acq PtableLock (upd_cpu (\<lambda>c. c\<lparr>eflags := eflags c OR FL_IF\<rparr>) s)"
  have s1: "sched_ctx ?s1" "tab_ok ?s1" using assms(2-4) by (simp_all add: sched_ctx_def tab_ok_def)
  have "wp (loop_fuel (NPROC + 1) (\<lambda>(p, v). if p \<ge> NPROC then ret (Inr v)
      else bnd (rr2q_slot ts user p v) (\<lambda>(p', v'). ret (Inl (p' + 1, v')))) (0, v))
    (\<lambda>v'. wp (release PtableLock) (\<lambda>_. ?Q v')) ?s1"
  proof (rule wp_mono [OF rr2q_pass [OF assms(1) s1]])
    fix v' t assume "ran_high 0 ?s1 t"
    then obtain ps where ps: "ran ?s1 t ps" "sorted_wrt (<) ps" "set ps \<subseteq> {0..<NPROC}"
      "\<forall>q. 0 \<le> q \<longrightarrow> q < NPROC \<longrightarrow> p_state (ptab s q) = RUNNABLE \<longrightarrow> high (ptab s q) \<longrightarrow> q \<in> set ps"
      unfolding ran_high_def by auto
    then show "wp (release PtableLock) (\<lambda>_. ?Q v') t"
      by (auto simp: wp lock_simps ran_def sched_ctx_def tab_ok_def atLeast0LessThan)
  qed (use assms(5) in simp_all)
  with assms(2) show ?thesis by (simp add: rr2q_round_def wp sti_def lock_simps)
qed

lemma rr2q_round_high_witness:
  "wp (rr2q_round 0 yielding \<lparr>q_loop = 0, q_lastHigh = None, q_lastLow = None\<rparr>)
    (\<lambda>_ t. lock_free PtableLock t \<and> ncli (my_cpu t) = 0 \<and> tab_ok t
    \<and> (\<exists>ps. pstate.more t = [] @ ps \<and> sorted_wrt (<) ps \<and> set ps \<subseteq> {..<NPROC} \<and> 5 \<in> set ps))
   (pstate_boot (\<lambda>i. if i = 2 then proc_zero\<lparr>p_state := RUNNABLE, p_pgdir := 0x200000, p_priority := 1\<rparr>
      else if i = 5 then proc_zero\<lparr>p_state := RUNNABLE, p_pgdir := 0x300000\<rparr> else proc_zero) [])"
proof -
  let ?s = "pstate_boot (\<lambda>i. if i = 2 then proc_zero\<lparr>p_state := RUNNABLE, p_pgdir := 0x200000, p_priority := 1\<rparr>
      else if i = 5 then proc_zero\<lparr>p_state := RUNNABLE, p_pgdir := 0x300000\<rparr> else proc_zero) []
      :: nat list pstate_scheme"
  have c: "user_contract_on high yielding"
    using yielding_contract by (simp add: user_contract_on_def)
  have "tab_ok ?s" by (simp add: tab_ok_def proc_zero_def)
  from rr2q_round_high [OF c _ _ this, of "\<lparr>q_loop = 0, q_lastHigh = None, q_lastLow = None\<rparr>" 0]
  show ?thesis
    by simp (rule wp_mono, assumption, force simp: NPROC_def high_def proc_zero_def)
qed

text \<open>Once the idle count has passed 64, which happens when a full round found nothing to run and
  the next slot is idle again, the final \<^verbatim>\<open>else\<close> of the policy dispatches a low-priority
  process without looking at its state, a sleeping one included.\<close>

theorem rr2q_dispatches_sleeping:
  assumes "q_loop v > 64" "p_priority (ptab s p) = 1" "p_state (ptab s p) = SLEEPING"
  shows "wp (rr2q_slot ts user p v) Q s =
    wp (dispatch ts user p) (\<lambda>_. Q (p, v\<lparr>q_loop := 0, q_lastHigh := Some p\<rparr>)) s"
  using assms by (simp add: rr2q_slot_def wp)

text \<open>An idle round takes the count from 0 to 64, and one more idle slot past it.\<close>

lemma rr2q_idle_slot:
  "p_state (ptab s p) \<noteq> RUNNABLE \<Longrightarrow> p_priority (ptab s p) = 0 \<Longrightarrow>
   wp (rr2q_slot ts user p v) Q s = Q (p, v\<lparr>q_loop := q_loop v + 1\<rparr>) s"
  by (simp add: rr2q_slot_def wp)

section \<open>FAIR2Q\<close>

definition ratio_of :: "(rat \<Rightarrow> rat) \<Rightarrow> u32 \<Rightarrow> proc \<Rightarrow> rat" where
  "ratio_of rnd now q = (let mechane = s32 (sint now - p_ctime q) in
     if mechane = 0 then 1 else rnd (of_int (p_rtime q) / of_int mechane))"

lemma wp_fair2q_ratio:
  "lock_free TicksLock s \<Longrightarrow> cli_ok s \<Longrightarrow>
   wp (fair2q_ratio rnd q) Q s = Q (ratio_of rnd (ticks s) q) (lockround TicksLock s)"
  by (simp add: fair2q_ratio_def wp wp_clockticks ratio_of_def Let_def)

text \<open>The minimum over the slots below \<open>n\<close> that satisfy \<open>P\<close>, as the two pairs of variables
  record it; \<open>2\<close> means that there is none.\<close>

definition least_ratio :: "(nat \<Rightarrow> bool) \<Rightarrow> (nat \<Rightarrow> rat) \<Rightarrow> nat \<Rightarrow> rat \<Rightarrow> nat option \<Rightarrow> bool" where
  "least_ratio P r n small m \<longleftrightarrow> small \<le> 2 \<and> (\<forall>q < n. P q \<longrightarrow> small \<le> r q)
     \<and> (small \<noteq> 2 \<longrightarrow> (\<exists>h < n. m = Some h \<and> P h \<and> r h = small))"

lemma least_ratio_take:
  "least_ratio P r n small m \<Longrightarrow> P n \<Longrightarrow> r n < small \<Longrightarrow> least_ratio P r (Suc n) (r n) (Some n)"
  by (auto simp: least_ratio_def less_Suc_eq dest: order.strict_trans1)

lemma least_ratio_keep:
  "least_ratio P r n small m \<Longrightarrow> P n \<longrightarrow> \<not> r n < small \<Longrightarrow> least_ratio P r (Suc n) small m"
  by (auto simp: least_ratio_def less_Suc_eq)

definition fair_scan :: "(rat \<Rightarrow> rat) \<Rightarrow> 'a pstate_scheme \<Rightarrow> nat \<Rightarrow> fair2q \<Rightarrow> bool" where
  "fair_scan rnd s n v \<longleftrightarrow> f_loop v = int n
     \<and> least_ratio (\<lambda>q. p_state (ptab s q) = RUNNABLE \<and> high (ptab s q)) (\<lambda>q. ratio_of rnd (ticks s) (ptab s q))
         n (f_smallHigh v) (f_minHigh v)
     \<and> least_ratio (\<lambda>q. p_state (ptab s q) = RUNNABLE \<and> \<not> high (ptab s q)) (\<lambda>q. ratio_of rnd (ticks s) (ptab s q))
         n (f_smallLow v) (f_minLow v)"

lemma fair2q_pick_scan:
  assumes "fair_scan rnd s p v" "p < NPROC" "lock_free TicksLock t" "cli_ok t" "ptab t = ptab s" "ticks t = ticks s"
  shows "wp (fair2q_pick rnd p v) (\<lambda>(po, v') u. po = None \<and> fair_scan rnd s (p + 1) v'
    \<and> (u = t \<or> u = lockround TicksLock t)) t"
proof -
  have l: "f_loop v < 64" using assms(1,2) by (simp add: fair_scan_def NPROC_def)
  have n: "f_loop v = int p" using assms(1) by (simp add: fair_scan_def)
  note inv = assms(1) [unfolded fair_scan_def]
  show ?thesis
  proof (cases "p_state (ptab s p) = RUNNABLE")
    case False
    with l n inv assms show ?thesis
      by (auto simp: fair2q_pick_def wp fair_scan_def intro!: least_ratio_keep)
  next
    case True
    with l n inv assms show ?thesis
      by (cases "p_priority (ptab s p) = 0")
        (auto simp: fair2q_pick_def wp wp_fair2q_ratio fair_scan_def high_def
          intro: least_ratio_keep least_ratio_take)
  qed
qed

text \<open>C9. \<^verbatim>\<open>FAIR2Q\<close>, selection: a round that starts with the counters reset looks at every
  slot and runs nobody; it ends with the idle count at 64, and the recorded process of each
  priority is one of the runnable ones whose ratio of run time to elapsed time is smallest.\<close>

theorem fair2q_round_selects:
  assumes "lock_free PtableLock s" "lock_free TicksLock s" "ncli (my_cpu s) = 0"
    "f_loop v = 0" "f_smallHigh v = 2" "f_smallLow v = 2"
  shows "wp (fair2q_round rnd ts user v) (\<lambda>v' t. ptab t = ptab s \<and> ticks t = ticks s
    \<and> lock_free PtableLock t \<and> fair_scan rnd s NPROC v') s"
    (is "wp _ ?Q s")
proof -
  let ?s1 = "acq PtableLock (upd_cpu (\<lambda>c. c\<lparr>eflags := eflags c OR FL_IF\<rparr>) s)"
  let ?I = "\<lambda>(p, v) t. p \<le> NPROC \<and> fair_scan rnd s p v \<and> calm ?s1 t \<and> ptab t = ptab s \<and> ticks t = ticks s"
  let ?body = "\<lambda>(p, v). if p \<ge> NPROC then ret (Inr v) else bnd (fair2q_pick rnd p v) (\<lambda>(po, v').
      case po of None \<Rightarrow> ret (Inl (p + 1, v'))
      | Some p' \<Rightarrow> thn (dispatch ts user p') (ret (Inl (p' + 1, v'))))"
  have s1: "lock_free TicksLock ?s1" "cli_ok ?s1" "lock_mine PtableLock ?s1"
    using assms(1-3) by (simp_all add: cli_ok_def)
  have step: "wp (?body x) (\<lambda>r u. case r of Inl z \<Rightarrow> ?I z u \<and> NPROC - fst z < NPROC - fst x
      | Inr v' \<Rightarrow> wp (release PtableLock) (\<lambda>_. ?Q v') u) t" if I: "?I x t" for x t
  proof (cases x)
    case (Pair p v)
    note t = I [unfolded Pair split]
    have ct: "lock_free TicksLock t" "cli_ok t" "lock_mine PtableLock t" "ncli (my_cpu t) = 1"
      "eflags (my_cpu t) AND FL_IF = 0"
      using t s1 assms(3) calm_locks [of ?s1 t] calm_cli_ok [of ?s1 t] calm_cpu [of ?s1 t] by auto
    show ?thesis
    proof (cases "p = NPROC")
      case True
      with t ct Pair show ?thesis by (auto simp: wp lock_simps)
    next
      case False
      then have p: "p < NPROC" using t by simp
      have "wp (fair2q_pick rnd p v) (\<lambda>(po, v') u. po = None \<and> fair_scan rnd s (p + 1) v'
          \<and> (u = t \<or> u = lockround TicksLock t)) t"
        by (rule fair2q_pick_scan) (use t p ct in auto)
      moreover have "calm ?s1 (lockround TicksLock t)"
        using t lockround_calm [OF ct(1,2)] by (auto intro: calm_trans)
      ultimately show ?thesis using p t Pair
        by (auto simp: wp elim!: wp_mono)
    qed
  qed
  have "wp (loop_fuel (2 * NPROC + 1) ?body (0, v)) (\<lambda>v'. wp (release PtableLock) (\<lambda>_. ?Q v')) ?s1"
  proof (rule wp_loop_fuel [where I = ?I and \<mu> = "\<lambda>x _. NPROC - fst x"])
    show "?I (0, v) ?s1" using assms(4-6) by (auto simp: fair_scan_def least_ratio_def)
  qed (use step in simp_all)
  with assms(1) show ?thesis by (simp add: fair2q_round_def wp sti_def lock_simps)
qed

definition fair_start :: fair2q where
  "fair_start = \<lparr>f_loop = 0, f_minLow = None, f_minHigh = None, f_smallHigh = 2, f_smallLow = 2\<rparr>"

definition fair_ex :: "nat \<Rightarrow> proc" where
  "fair_ex i = (if i = 3 \<or> i = 5 then proc_zero\<lparr>p_state := RUNNABLE, p_rtime := int i\<rparr> else proc_zero)"

lemma fair2q_round_selects_witness:
  "wp (fair2q_round id 0 (\<lambda>_. undef) fair_start) (\<lambda>v' t. ptab t = fair_ex \<and> ticks t = 0
    \<and> lock_free PtableLock t \<and> fair_scan id (pstate_boot fair_ex ()) NPROC v')
   (pstate_boot fair_ex ())"
proof -
  have "ticks (pstate_boot fair_ex ()) = 0"
    by (simp add: pstate_boot_def pstate.defs boot_defs)
  with fair2q_round_selects [of "pstate_boot fair_ex ()" fair_start id 0 "\<lambda>_. undef"] show ?thesis
    by (simp add: fair_start_def)
qed

text \<open>The choice is acted on in the next round, after the table lock was released in between: the
  recorded process is dispatched whatever its state is by then.\<close>

theorem fair2q_dispatches_recorded:
  assumes "f_loop v = 64" "f_smallHigh v \<noteq> 2" "f_minHigh v = Some h"
  shows "wp (fair2q_pick rnd p v) Q s = Q (Some h, v\<lparr>f_smallHigh := 2, f_smallLow := 2, f_loop := 0\<rparr>) s"
  using assms by (simp add: fair2q_pick_def wp)

end
