(* ===== verification/Ide.thy ===== *)
theory Ide
  imports Scheduler
begin

text \<open>
  The IDE driver (\<^verbatim>\<open>ide.c\<close>): a queue of buffers linked through \<^verbatim>\<open>qnext\<close>, of which
  the first is being transferred; \<^verbatim>\<open>iderw\<close> appends a buffer and sleeps until the interrupt
  handler has completed it.

  The controller is modelled by its task-file registers, the request it has latched from them and
  the contents of the two disks; \<open>ide_finish\<close> is the completion of the latched request. A
  sector number has the 28 bits the registers carry.

  Shown: whatever requests are already queued, \<^verbatim>\<open>iderw\<close> returns, the requests are served
  in the order they were queued, and afterwards the buffer and the sector agree.
\<close>

section \<open>State\<close>

definition B_BUSY :: u32 where "B_BUSY = 1"
definition B_VALID :: u32 where "B_VALID = 2"
definition B_DIRTY :: u32 where "B_DIRTY = 4"

record buf =
  b_flags :: u32
  b_dev :: u32
  b_sector :: u32
  b_prev :: nat
  b_next :: nat
  b_qnext :: "nat option"
  b_data :: "u8 list"

text \<open>A latched request: drive, sector, and the data of a write.\<close>

type_synonym ide_req = "u32 \<times> u32 \<times> u8 list option"

record idest = pstate +
  bufs :: "nat \<Rightarrow> buf"
  idequeue :: "nat option"
  havedisk1 :: bool
  ide_port :: "u16 \<Rightarrow> u8"
  ide_status :: u8
  ide_pend :: "ide_req option"
  disk :: "u32 \<times> u32 \<Rightarrow> u8 list"

definition upd_buf :: "nat \<Rightarrow> (buf \<Rightarrow> buf) \<Rightarrow> 'a idest_scheme \<Rightarrow> 'a idest_scheme" where
  "upd_buf b f s = s\<lparr>bufs := (bufs s)(b := f (bufs s b))\<rparr>"

section \<open>The controller\<close>

definition outb_ide :: "u16 \<Rightarrow> u32 \<Rightarrow> ('a idest_scheme, unit) kop" where
  "outb_ide port v = modify (\<lambda>s. s\<lparr>ide_port := (ide_port s)(port := ucast v)\<rparr>)"

text \<open>The drive and sector the registers address.\<close>

definition ide_drive :: "(u16 \<Rightarrow> u8) \<Rightarrow> u32" where
  "ide_drive r = drop_bit 4 (ucast (r 0x1f6)) AND 1"

definition ide_lba :: "(u16 \<Rightarrow> u8) \<Rightarrow> u32" where
  "ide_lba r = ucast (r 0x1f3) OR push_bit 8 (ucast (r 0x1f4)) OR push_bit 16 (ucast (r 0x1f5))
     OR push_bit 24 (ucast (r 0x1f6) AND 0x0f)"

definition ide_command :: "u8 list option \<Rightarrow> ('a idest_scheme, unit) kop" where
  "ide_command d = modify (\<lambda>s. s\<lparr>ide_pend := Some (ide_drive (ide_port s), ide_lba (ide_port s), d)\<rparr>)"

definition ide_finish :: "('a idest_scheme, unit) kop" where
  "ide_finish = modify (\<lambda>s. case ide_pend s of
      Some (drv, sec, Some d) \<Rightarrow> s\<lparr>disk := (disk s)((drv, sec) := d)\<rparr>
    | _ \<Rightarrow> s)"

section \<open>The driver\<close>

text \<open>The polling loop ends when the controller is ready; it spins on a controller that never
  is.\<close>

definition idewait :: "bool \<Rightarrow> ('a idest_scheme, int) kop" where
  "idewait checkerr =
    bnd (gets ide_status) (\<lambda>r.
    if r AND (0x80 OR 0x40) \<noteq> 0x40 then hang
    else if checkerr \<and> r AND (0x20 OR 0x01) \<noteq> 0 then ret (- 1)
    else ret 0)"

definition idestart :: "nat option \<Rightarrow> ('a idest_scheme, unit) kop" where
  "idestart bo = (case bo of
      None \<Rightarrow> panic ''idestart''
    | Some b \<Rightarrow>
      bnd (idewait False) (\<lambda>_.
      bnd (gets (\<lambda>s. bufs s b)) (\<lambda>x.
      seqs [
        outb_ide 0x3f6 0,
        outb_ide 0x1f2 1,
        outb_ide 0x1f3 (b_sector x AND 0xff),
        outb_ide 0x1f4 (drop_bit 8 (b_sector x) AND 0xff),
        outb_ide 0x1f5 (drop_bit 16 (b_sector x) AND 0xff),
        outb_ide 0x1f6 (0xe0 OR push_bit 4 (b_dev x AND 1) OR (drop_bit 24 (b_sector x) AND 0x0f)),
        if b_flags x AND B_DIRTY \<noteq> 0
        then seqs [outb_ide 0x1f7 0x30, ide_command (Some (b_data x))]
        else seqs [outb_ide 0x1f7 0x20, ide_command None]])))"

text \<open>\<^verbatim>\<open>insl\<close> reads the sector of the request the controller completed.\<close>

definition insl_data :: "nat \<Rightarrow> ('a idest_scheme, unit) kop" where
  "insl_data b = bnd (gets ide_pend) (\<lambda>r.
    case r of
      None \<Rightarrow> undef
    | Some (drv, sec, _) \<Rightarrow> modify (\<lambda>s. upd_buf b (\<lambda>x. x\<lparr>b_data := disk s (drv, sec)\<rparr>) s))"

definition ideintr :: "('a idest_scheme, unit) kop" where
  "ideintr =
    thn (acquire IdeLock) (
    bnd (gets idequeue) (\<lambda>bo.
    case bo of
      None \<Rightarrow> seqs [release IdeLock, cprintf (''Spurious IDE interrupt.'' @ [CHR 0x0A]) []]
    | Some b \<Rightarrow>
      thn (modify (\<lambda>s. s\<lparr>idequeue := b_qnext (bufs s b)\<rparr>)) (
      bnd (gets (\<lambda>s. b_flags (bufs s b))) (\<lambda>fl.
      thn (if fl AND B_DIRTY = 0
           then bnd (idewait True) (\<lambda>r. whenk (r \<ge> 0) (insl_data b))
           else ret ()) (
      seqs [
        modify (upd_buf b (\<lambda>x. x\<lparr>b_flags := b_flags x OR B_VALID\<rparr>)),
        modify (upd_buf b (\<lambda>x. x\<lparr>b_flags := b_flags x AND NOT B_DIRTY\<rparr>)),
        wakeup (ChBuf b),
        bnd (gets idequeue) (\<lambda>q. whenk (q \<noteq> None) (idestart q)),
        release IdeLock])))))"

text \<open>A pointer to a pointer of the queue: \<^verbatim>\<open>&idequeue\<close> is \<open>None\<close>, the \<^verbatim>\<open>qnext\<close>
  of buffer \<open>x\<close> is \<open>Some x\<close>.\<close>

definition deref_pp :: "nat option \<Rightarrow> 'a idest_scheme \<Rightarrow> nat option" where
  "deref_pp pp s = (case pp of None \<Rightarrow> idequeue s | Some x \<Rightarrow> b_qnext (bufs s x))"

definition store_pp :: "nat option \<Rightarrow> nat \<Rightarrow> 'a idest_scheme \<Rightarrow> 'a idest_scheme" where
  "store_pp pp b s = (case pp of
      None \<Rightarrow> s\<lparr>idequeue := Some b\<rparr>
    | Some x \<Rightarrow> upd_buf x (\<lambda>y. y\<lparr>b_qnext := Some b\<rparr>) s)"

text \<open>The walk to the end of the queue takes at most one step per buffer. The wait is a loop
  around \<^verbatim>\<open>sleep\<close>, with fuel \<open>n\<close>.\<close>

definition iderw ::
  "nat \<Rightarrow> ('a idest_scheme, unit) kop \<Rightarrow> nat \<Rightarrow> ('a idest_scheme, unit) kop" where
  "iderw n env b =
    bnd (gets (\<lambda>s. bufs s b)) (\<lambda>x.
    if b_flags x AND B_BUSY = 0 then panic ''iderw: buf not busy''
    else if b_flags x AND (B_VALID OR B_DIRTY) = B_VALID then panic ''iderw: nothing to do''
    else bnd (gets havedisk1) (\<lambda>d1.
    if b_dev x \<noteq> 0 \<and> \<not> d1 then panic ''idrw: ide disk 1 not present''
    else thn (acquire IdeLock) (
    thn (modify (upd_buf b (\<lambda>x. x\<lparr>b_qnext := None\<rparr>))) (
    bnd (loop_fuel (NBUF + 2) (\<lambda>pp.
      bnd (gets (deref_pp pp)) (\<lambda>y.
      ret (case y of None \<Rightarrow> Inr pp | Some z \<Rightarrow> Inl (Some z)))) None) (\<lambda>pp.
    thn (modify (store_pp pp b)) (
    thn (bnd (gets idequeue) (\<lambda>q. whenk (q = Some b) (idestart (Some b)))) (
    thn (loop_fuel n (\<lambda>_.
      bnd (gets (\<lambda>s. b_flags (bufs s b))) (\<lambda>fl.
      if fl AND (B_VALID OR B_DIRTY) \<noteq> B_VALID
      then thn (sleep env (ChBuf b) (Some IdeLock)) (ret (Inl ()))
      else ret (Inr ()))) ()) (
    release IdeLock))))))))"

section \<open>Framing\<close>

lemma idest_lock_sel [simp]:
  "bufs (acq lk s) = bufs s"
  "idequeue (acq lk s) = idequeue s"
  "havedisk1 (acq lk s) = havedisk1 s"
  "ide_port (acq lk s) = ide_port s"
  "ide_status (acq lk s) = ide_status s"
  "ide_pend (acq lk s) = ide_pend s"
  "disk (acq lk s) = disk s"
  "idest.more (acq lk s) = idest.more s"
  "bufs (rel lk s) = bufs s"
  "idequeue (rel lk s) = idequeue s"
  "havedisk1 (rel lk s) = havedisk1 s"
  "ide_port (rel lk s) = ide_port s"
  "ide_status (rel lk s) = ide_status s"
  "ide_pend (rel lk s) = ide_pend s"
  "disk (rel lk s) = disk s"
  "idest.more (rel lk s) = idest.more s"
  "bufs (lockround lk s) = bufs s"
  "idequeue (lockround lk s) = idequeue s"
  "havedisk1 (lockround lk s) = havedisk1 s"
  "ide_port (lockround lk s) = ide_port s"
  "ide_status (lockround lk s) = ide_status s"
  "ide_pend (lockround lk s) = ide_pend s"
  "disk (lockround lk s) = disk s"
  "idest.more (lockround lk s) = idest.more s"
  by (simp_all add: acq_def rel_def lockround_def)

lemma idest_lock_upd [simp]:
  "acq lk (bufs_update g_bufs s) = bufs_update g_bufs (acq lk s)"
  "acq lk (idequeue_update g_idequeue s) = idequeue_update g_idequeue (acq lk s)"
  "acq lk (havedisk1_update g_havedisk1 s) = havedisk1_update g_havedisk1 (acq lk s)"
  "acq lk (ide_port_update g_ide_port s) = ide_port_update g_ide_port (acq lk s)"
  "acq lk (ide_status_update g_ide_status s) = ide_status_update g_ide_status (acq lk s)"
  "acq lk (ide_pend_update g_ide_pend s) = ide_pend_update g_ide_pend (acq lk s)"
  "acq lk (disk_update g_disk s) = disk_update g_disk (acq lk s)"
  "rel lk (bufs_update g_bufs s) = bufs_update g_bufs (rel lk s)"
  "rel lk (idequeue_update g_idequeue s) = idequeue_update g_idequeue (rel lk s)"
  "rel lk (havedisk1_update g_havedisk1 s) = havedisk1_update g_havedisk1 (rel lk s)"
  "rel lk (ide_port_update g_ide_port s) = ide_port_update g_ide_port (rel lk s)"
  "rel lk (ide_status_update g_ide_status s) = ide_status_update g_ide_status (rel lk s)"
  "rel lk (ide_pend_update g_ide_pend s) = ide_pend_update g_ide_pend (rel lk s)"
  "rel lk (disk_update g_disk s) = disk_update g_disk (rel lk s)"
  "lockround lk (bufs_update g_bufs s) = bufs_update g_bufs (lockround lk s)"
  "lockround lk (idequeue_update g_idequeue s) = idequeue_update g_idequeue (lockround lk s)"
  "lockround lk (havedisk1_update g_havedisk1 s) = havedisk1_update g_havedisk1 (lockround lk s)"
  "lockround lk (ide_port_update g_ide_port s) = ide_port_update g_ide_port (lockround lk s)"
  "lockround lk (ide_status_update g_ide_status s) = ide_status_update g_ide_status (lockround lk s)"
  "lockround lk (ide_pend_update g_ide_pend s) = ide_pend_update g_ide_pend (lockround lk s)"
  "lockround lk (disk_update g_disk s) = disk_update g_disk (lockround lk s)"
  by (simp_all add: acq_def rel_def lockround_def)

lemma idest_lock_inv [simp]:
  "lock_free lk (bufs_update g_bufs s) = lock_free lk s"
  "lock_free lk (idequeue_update g_idequeue s) = lock_free lk s"
  "lock_free lk (havedisk1_update g_havedisk1 s) = lock_free lk s"
  "lock_free lk (ide_port_update g_ide_port s) = lock_free lk s"
  "lock_free lk (ide_status_update g_ide_status s) = lock_free lk s"
  "lock_free lk (ide_pend_update g_ide_pend s) = lock_free lk s"
  "lock_free lk (disk_update g_disk s) = lock_free lk s"
  "lock_mine lk (bufs_update g_bufs s) = lock_mine lk s"
  "lock_mine lk (idequeue_update g_idequeue s) = lock_mine lk s"
  "lock_mine lk (havedisk1_update g_havedisk1 s) = lock_mine lk s"
  "lock_mine lk (ide_port_update g_ide_port s) = lock_mine lk s"
  "lock_mine lk (ide_status_update g_ide_status s) = lock_mine lk s"
  "lock_mine lk (ide_pend_update g_ide_pend s) = lock_mine lk s"
  "lock_mine lk (disk_update g_disk s) = lock_mine lk s"
  "cli_ok (bufs_update g_bufs s) = cli_ok s"
  "cli_ok (idequeue_update g_idequeue s) = cli_ok s"
  "cli_ok (havedisk1_update g_havedisk1 s) = cli_ok s"
  "cli_ok (ide_port_update g_ide_port s) = cli_ok s"
  "cli_ok (ide_status_update g_ide_status s) = cli_ok s"
  "cli_ok (ide_pend_update g_ide_pend s) = cli_ok s"
  "cli_ok (disk_update g_disk s) = cli_ok s"
  by (simp_all add: lock_free_def lock_mine_def cli_ok_def)

lemma idest_calm_upd [simp]:
  "calm s (bufs_update g_bufs t) = calm s t"
  "calm s (idequeue_update g_idequeue t) = calm s t"
  "calm s (havedisk1_update g_havedisk1 t) = calm s t"
  "calm s (ide_port_update g_ide_port t) = calm s t"
  "calm s (ide_status_update g_ide_status t) = calm s t"
  "calm s (ide_pend_update g_ide_pend t) = calm s t"
  "calm s (disk_update g_disk t) = calm s t"
  "calm (bufs_update g_bufs s) t = calm s t"
  "calm (idequeue_update g_idequeue s) t = calm s t"
  "calm (havedisk1_update g_havedisk1 s) t = calm s t"
  "calm (ide_port_update g_ide_port s) t = calm s t"
  "calm (ide_status_update g_ide_status s) t = calm s t"
  "calm (ide_pend_update g_ide_pend s) t = calm s t"
  "calm (disk_update g_disk s) t = calm s t"
  by (simp_all add: calm_def)

lemma idest_cpu_sel [simp]:
  "bufs (upd_cpu h s) = bufs s"
  "idequeue (upd_cpu h s) = idequeue s"
  "havedisk1 (upd_cpu h s) = havedisk1 s"
  "ide_port (upd_cpu h s) = ide_port s"
  "ide_status (upd_cpu h s) = ide_status s"
  "ide_pend (upd_cpu h s) = ide_pend s"
  "disk (upd_cpu h s) = disk s"
  "idest.more (upd_cpu h s) = idest.more s"
  by (simp_all add: upd_cpu_def)

lemma idest_proc_sel [simp]:
  "bufs (upd_proc i f s) = bufs s" "idequeue (upd_proc i f s) = idequeue s" "havedisk1 (upd_proc i f s) = havedisk1 s"
  "ide_port (upd_proc i f s) = ide_port s" "ide_status (upd_proc i f s) = ide_status s"
  "ide_pend (upd_proc i f s) = ide_pend s" "disk (upd_proc i f s) = disk s"
  "idest.more (upd_proc i f s) = idest.more s"
  by (simp_all add: upd_proc_def)

lemma upd_buf_sel [simp]:
  "bufs (upd_buf b f s) = (bufs s)(b := f (bufs s b))" "idequeue (upd_buf b f s) = idequeue s"
  "ide_pend (upd_buf b f s) = ide_pend s" "disk (upd_buf b f s) = disk s"
  "ide_status (upd_buf b f s) = ide_status s" "cpus (upd_buf b f s) = cpus s"
  "this_cpu (upd_buf b f s) = this_cpu s" "ptab (upd_buf b f s) = ptab s"
  "lock_free lk (upd_buf b f s) = lock_free lk s" "lock_mine lk (upd_buf b f s) = lock_mine lk s"
  "cli_ok (upd_buf b f s) = cli_ok s" "havedisk1 (upd_buf b f s) = havedisk1 s"
  by (simp_all add: upd_buf_def)

section \<open>Requests\<close>

definition req_of :: "buf \<Rightarrow> ide_req" where
  "req_of x = (b_dev x AND 1, b_sector x AND 0x0fffffff,
     if b_flags x AND B_DIRTY \<noteq> 0 then Some (b_data x) else None)"

text \<open>What serving a buffer means: a dirty one is written out, the other kind is filled, and
  both end up valid and clean.\<close>

definition sector_of :: "buf \<Rightarrow> u32 \<times> u32" where
  "sector_of x = (b_dev x AND 1, b_sector x AND 0x0fffffff)"

definition served :: "(u32 \<times> u32 \<Rightarrow> u8 list) \<Rightarrow> buf \<Rightarrow> buf" where
  "served D x = x\<lparr>b_data := (if b_flags x AND B_DIRTY \<noteq> 0 then b_data x else D (sector_of x)),
     b_flags := (b_flags x OR B_VALID) AND NOT B_DIRTY\<rparr>"

definition served_disk :: "(u32 \<times> u32 \<Rightarrow> u8 list) \<Rightarrow> buf \<Rightarrow> u32 \<times> u32 \<Rightarrow> u8 list" where
  "served_disk D x = (if b_flags x AND B_DIRTY \<noteq> 0 then D(sector_of x := b_data x) else D)"

text \<open>The registers after \<^verbatim>\<open>idestart\<close>.\<close>

definition start_ports :: "buf \<Rightarrow> (u16 \<Rightarrow> u8) \<Rightarrow> u16 \<Rightarrow> u8" where
  "start_ports x r = r(0x3f6 := 0, 0x1f2 := 1, 0x1f3 := ucast (b_sector x AND 0xff),
     0x1f4 := ucast (drop_bit 8 (b_sector x) AND 0xff), 0x1f5 := ucast (drop_bit 16 (b_sector x) AND 0xff),
     0x1f6 := ucast (0xe0 OR push_bit 4 (b_dev x AND 1) OR (drop_bit 24 (b_sector x) AND 0x0f)),
     0x1f7 := (if b_flags x AND B_DIRTY \<noteq> 0 then 0x30 else 0x20))"

lemma bit_masks:
  "bit (0xff :: int) n \<longleftrightarrow> n < 8" "bit (0x0f :: int) n \<longleftrightarrow> n < 4" "bit (0x0fffffff :: int) n \<longleftrightarrow> n < 28"
  "bit (0x10 :: int) n \<longleftrightarrow> n = 4" "bit (0xe0 :: int) n \<longleftrightarrow> n = 5 \<or> n = 6 \<or> n = 7"
  "bit (0x0f000000 :: int) n \<longleftrightarrow> 24 \<le> n \<and> n < 28"
proof -
  have m: "(0xff :: int) = mask 8" "(0x0f :: int) = mask 4" "(0x0fffffff :: int) = mask 28"
    "(0x10 :: int) = 2 ^ 4" "(0xe0 :: int) = 2 ^ 5 OR 2 ^ 6 OR 2 ^ 7" "(0x0f000000 :: int) = push_bit 24 (mask 4)"
    by (simp_all add: mask_eq_exp_minus_1 push_bit_eq_mult)
  show "bit (0xff :: int) n \<longleftrightarrow> n < 8" unfolding m by (simp add: bit_mask_iff)
  show "bit (0x0f :: int) n \<longleftrightarrow> n < 4" unfolding m by (simp add: bit_mask_iff)
  show "bit (0x0fffffff :: int) n \<longleftrightarrow> n < 28" unfolding m by (simp add: bit_mask_iff)
  show "bit (0x10 :: int) n \<longleftrightarrow> n = 4" unfolding m by (simp only: bit_exp_iff) auto
  show "bit (0xe0 :: int) n \<longleftrightarrow> n = 5 \<or> n = 6 \<or> n = 7" unfolding m by (simp only: bit_or_iff bit_exp_iff) auto
  show "bit (0x0f000000 :: int) n \<longleftrightarrow> 24 \<le> n \<and> n < 28" unfolding m by (auto simp: bit_push_bit_iff bit_mask_iff)
qed

lemma bit_reg:
  "bit (ucast (ucast (w AND 0xff :: u32) :: u8) :: u32) n \<longleftrightarrow> n < 8 \<and> bit w n"
  "bit (ucast (ucast (0xe0 OR push_bit 4 (d AND 1) OR (w AND 0x0f) :: u32) :: u8) AND 0x0f :: u32) n
     \<longleftrightarrow> n < 4 \<and> bit w n"
  by (auto simp: bit_simps bit_masks)

lemma ide_lba_start: "ide_lba (start_ports x r) = b_sector x AND 0x0fffffff"
proof (rule bit_word_eqI)
  fix n assume "n < LENGTH(32)"
  have regs: "start_ports x r 0x1f3 = ucast (b_sector x AND 0xff)"
    "start_ports x r 0x1f4 = ucast (drop_bit 8 (b_sector x) AND 0xff)"
    "start_ports x r 0x1f5 = ucast (drop_bit 16 (b_sector x) AND 0xff)"
    "start_ports x r 0x1f6 = ucast (0xe0 OR push_bit 4 (b_dev x AND 1) OR (drop_bit 24 (b_sector x) AND 0x0f))"
    by (simp_all add: start_ports_def)
  from \<open>n < LENGTH(32)\<close> have "bit (ide_lba (start_ports x r)) n \<longleftrightarrow> bit (b_sector x) n \<and>
      (n < 8 \<or> 8 \<le> n \<and> n - 8 < 8 \<or> 16 \<le> n \<and> n - 16 < 8 \<or> 24 \<le> n \<and> n - 24 < 4)"
    unfolding ide_lba_def regs bit_or_iff bit_push_bit_iff bit_reg bit_drop_bit_eq
    by (auto dest: bit_imp_le_length)
  also have "\<dots> \<longleftrightarrow> bit (b_sector x) n \<and> n < 28" by auto
  finally show "bit (ide_lba (start_ports x r)) n = bit (b_sector x AND 0x0fffffff) n"
    using \<open>n < LENGTH(32)\<close> by (simp add: bit_simps bit_masks)
qed

lemma ide_drive_start: "ide_drive (start_ports x r) = b_dev x AND 1"
proof (rule bit_word_eqI)
  fix n assume "n < LENGTH(32)"
  show "bit (ide_drive (start_ports x r)) n = bit (b_dev x AND 1) n"
    by (cases n) (auto simp: ide_drive_def start_ports_def bit_simps bit_masks)
qed

definition ide_ready :: "'a idest_scheme \<Rightarrow> bool" where
  "ide_ready s \<longleftrightarrow> ide_status s AND (0x80 OR 0x40) = 0x40 \<and> ide_status s AND (0x20 OR 0x01) = 0"

lemma ide_ready_simps [simp]:
  "ide_ready (acq lk s) = ide_ready s" "ide_ready (rel lk s) = ide_ready s"
  "ide_ready (lockround lk s) = ide_ready s" "ide_ready (upd_buf b f s) = ide_ready s"
  "ide_ready (upd_cpu h s) = ide_ready s" "ide_ready (s\<lparr>idequeue := q\<rparr>) = ide_ready s"
  "ide_ready (s\<lparr>ptab := pt\<rparr>) = ide_ready s" "ide_ready (s\<lparr>disk := d\<rparr>) = ide_ready s"
  "ide_ready (s\<lparr>ide_port := r\<rparr>) = ide_ready s" "ide_ready (s\<lparr>ide_pend := r2\<rparr>) = ide_ready s"
  "ide_ready (s\<lparr>bufs := r3\<rparr>) = ide_ready s" "ide_ready (upd_proc i g s) = ide_ready s"
  by (simp_all add: ide_ready_def)

lemma wp_idewait: "ide_ready s \<Longrightarrow> wp (idewait c) Q s = Q 0 s"
  by (simp add: idewait_def wp ide_ready_def)

lemma wp_idestart:
  assumes "ide_ready s"
  shows "wp (idestart (Some b)) Q s =
    Q () (s\<lparr>ide_port := start_ports (bufs s b) (ide_port s), ide_pend := Some (req_of (bufs s b))\<rparr>)"
proof -
  have "req_of (bufs s b) = (ide_drive (start_ports (bufs s b) (ide_port s)),
      ide_lba (start_ports (bufs s b) (ide_port s)),
      if b_flags (bufs s b) AND B_DIRTY \<noteq> 0 then Some (b_data (bufs s b)) else None)"
    by (simp add: req_of_def ide_lba_start ide_drive_start)
  with assms show ?thesis
    by (simp add: idestart_def wp wp_idewait outb_ide_def ide_command_def start_ports_def)
qed

section \<open>The queue\<close>

text \<open>The buffers linked from \<open>p\<close> through \<^verbatim>\<open>qnext\<close>.\<close>

primrec qchain :: "(nat \<Rightarrow> buf) \<Rightarrow> nat option \<Rightarrow> nat list \<Rightarrow> bool" where
  "qchain B p [] \<longleftrightarrow> p = None"
| "qchain B p (b # bs) \<longleftrightarrow> p = Some b \<and> qchain B (b_qnext (B b)) bs"

definition ide_queue :: "'a idest_scheme \<Rightarrow> nat list \<Rightarrow> bool" where
  "ide_queue s qs \<longleftrightarrow> qchain (bufs s) (idequeue s) qs \<and> distinct qs
     \<and> (qs \<noteq> [] \<longrightarrow> ide_pend s = Some (req_of (bufs s (hd qs))))"

lemma qchain_cong:
  "(\<And>b. b \<in> set bs \<Longrightarrow> b_qnext (B b) = b_qnext (B' b)) \<Longrightarrow> qchain B p bs = qchain B' p bs"
  by (induction bs arbitrary: p) auto

lemma qchain_det: "qchain B p xs \<Longrightarrow> qchain B p ys \<Longrightarrow> xs = ys"
proof (induction xs arbitrary: p ys)
  case Nil
  then show ?case by (cases ys) auto
next
  case (Cons x xs)
  then show ?case by (cases ys) auto
qed

lemma qchain_snoc:
  assumes "qchain B p qs" "b \<notin> set qs" "b_qnext (B b) = None" "distinct qs" "qs \<noteq> []"
  shows "qchain (B(last qs := (B (last qs))\<lparr>b_qnext := Some b\<rparr>)) p (qs @ [b])"
  using assms
proof (induction qs arbitrary: p)
  case (Cons q qs)
  show ?case
  proof (cases "qs = []")
    case True
    with Cons.prems show ?thesis by auto
  next
    case False
    have "qchain (B(last qs := (B (last qs))\<lparr>b_qnext := Some b\<rparr>)) (b_qnext (B q)) (qs @ [b])"
      by (rule Cons.IH) (use Cons.prems False in auto)
    moreover have "last qs \<noteq> q" using Cons.prems(4) False by auto
    moreover have "last (q # qs) = last qs" using False by simp
    ultimately show ?thesis using Cons.prems(1)
      by (simp only: qchain.simps append_Cons fun_upd_other simp_thms)
  qed
qed simp

text \<open>Serving the buffers of a list one after the other.\<close>

fun serve_list :: "nat list \<Rightarrow> (u32 \<times> u32 \<Rightarrow> u8 list) \<times> (nat \<Rightarrow> buf) \<Rightarrow> (u32 \<times> u32 \<Rightarrow> u8 list) \<times> (nat \<Rightarrow> buf)" where
  "serve_list [] (D, B) = (D, B)"
| "serve_list (b # bs) (D, B) = serve_list bs (served_disk D (B b), B(b := served D (B b)))"

lemma serve_list_append: "serve_list (xs @ ys) DB = serve_list ys (serve_list xs DB)"
  by (induction xs DB rule: serve_list.induct) (cases DB; simp)+

text \<open>Frame of the driver: everything but processors, locks, the process table and the disk
  system itself.\<close>

definition only_ide :: "'a idest_scheme \<Rightarrow> 'a idest_scheme \<Rightarrow> bool" where
  "only_ide s t \<longleftrightarrow> t = s\<lparr>cpus := cpus t, this_cpu := this_cpu t, locks := locks t, ptab := ptab t, bufs := bufs t, idequeue := idequeue t,
     ide_port := ide_port t, ide_pend := ide_pend t, disk := disk t\<rparr>"

lemma only_ide_refl [intro]: "only_ide s s"
  by (simp add: only_ide_def)

lemma only_ide_trans: "only_ide s t \<Longrightarrow> only_ide t u \<Longrightarrow> only_ide s u"
  unfolding only_ide_def by (cases s; cases t; cases u) simp

lemma only_ide_sel:
  assumes "only_ide s t"
  shows "pmem t = pmem s" "kpgdir t = kpgdir s" "ide_status t = ide_status s" "havedisk1 t = havedisk1 s"
    "ticks t = ticks s" "idest.more t = idest.more s"
  by (subst assms [unfolded only_ide_def], simp)+

lemma only_ide_lock [simp]:
  "only_ide s (acq lk t) = only_ide s t" "only_ide s (rel lk t) = only_ide s t"
  "only_ide s (upd_cpu f t) = only_ide s t" "only_ide s (lockround lk t) = only_ide s t"
  by (cases s; cases t; simp add: only_ide_def acq_def rel_def upd_cpu_def lockround_def)+

lemma only_ide_upd [simp]:
  "only_ide s (ptab_update f1 t) = only_ide s t" "only_ide s (bufs_update f2 t) = only_ide s t"
  "only_ide s (idequeue_update f3 t) = only_ide s t" "only_ide s (ide_port_update f4 t) = only_ide s t"
  "only_ide s (ide_pend_update f5 t) = only_ide s t" "only_ide s (disk_update f6 t) = only_ide s t"
  "only_ide s (upd_buf b f t) = only_ide s t" "only_ide s (upd_proc i g t) = only_ide s t"
  by (cases s; cases t; simp add: only_ide_def upd_buf_def upd_proc_def)+

section \<open>The interrupt\<close>

text \<open>A disk interrupt taken by a processor that runs with interrupts on: the controller has
  finished, the trap gate turns interrupts off, the return turns them on again.\<close>

definition ide_irq :: "('a idest_scheme, unit) kop" where
  "ide_irq = seqs [cli, ide_finish, ideintr, sti]"

lemma wp_ide_finish:
  assumes "ide_pend s = Some (req_of x)"
  shows "wp ide_finish Q s = Q () (s\<lparr>disk := served_disk (disk s) x\<rparr>)"
  using assms by (auto simp: ide_finish_def wp req_of_def served_disk_def sector_of_def)

lemma wp_insl_data:
  assumes "ide_pend s = Some (req_of x)"
  shows "wp (insl_data b) Q s = Q () (upd_buf b (\<lambda>y. y\<lparr>b_data := disk s (sector_of x)\<rparr>) s)"
  using assms by (simp add: insl_data_def wp req_of_def sector_of_def)

lemma upd_buf_lock [simp]:
  "acq lk (upd_buf b f s) = upd_buf b f (acq lk s)" "rel lk (upd_buf b f s) = upd_buf b f (rel lk s)"
  "lockround lk (upd_buf b f s) = upd_buf b f (lockround lk s)"
  by (simp_all add: upd_buf_def)

lemma calm_upd_buf [simp]: "calm s (upd_buf b f t) = calm s t" "calm (upd_buf b f s) t = calm s t"
  by (simp_all add: upd_buf_def)

lemma wp_ideintr:
  assumes "lock_free IdeLock s" "lock_free PtableLock s" "cli_ok s" "ide_ready s"
    and "idequeue s = Some b" "ide_pend s = Some (req_of x)" "b_flags x AND B_DIRTY = b_flags (bufs s b) AND B_DIRTY"
    and "sector_of x = sector_of (bufs s b)"
  shows "wp ideintr (\<lambda>_ t. idequeue t = b_qnext (bufs s b)
      \<and> bufs t = (bufs s)(b := served (disk s) (bufs s b))
      \<and> (\<forall>q. b_qnext (bufs s b) = Some q \<longrightarrow> ide_pend t = Some (req_of (bufs t q)))
      \<and> disk t = disk s \<and> ptab t = wake_tab (ChBuf b) (ptab s) \<and> ide_ready t \<and> only_ide s t \<and> calm s t) s"
    (is "wp _ ?Q s")
proof -
  let ?a = "acq IdeLock s"
  have lr: "calm ?a (lockround PtableLock ?a)" by (rule lockround_calm) (use assms acq_cli_ok in auto)
  have fin: "wp (release IdeLock) (\<lambda>_. Q) t = Q (rel IdeLock t)" if "calm ?a t" for t Q
    by (rule wp_release_calm [OF that assms(3)])
  have sec: "calm s (rel IdeLock t)" if "calm ?a t" for t
    by (rule calm_section [OF that assms(1,3)])
  show ?thesis
    using assms acq_cli_ok [OF assms(3)] lr
    by (cases "b_flags (bufs s b) AND B_DIRTY = 0"; cases "b_qnext (bufs s b)")
      (simp_all add: ideintr_def wp wp_acquire wp_idewait wp_insl_data [where x = x] wp_wakeup wp_idestart
        fin sec served_def only_ide_refl)
qed

lemma served_idem_flags:
  "served (served_disk D x) x = served D x" "b_qnext (served D x) = b_qnext x"
  by (simp_all add: served_def served_disk_def)

lemma wp_ide_irq:
  assumes "lock_free IdeLock s" "lock_free PtableLock s" "ncli (my_cpu s) = 0" "ide_ready s"
    and q: "ide_queue s (b # qs)"
  shows "wp ide_irq (\<lambda>_ t. ide_queue t qs \<and> (disk t, bufs t) = serve_list [b] (disk s, bufs s)
      \<and> ptab t = wake_tab (ChBuf b) (ptab s) \<and> ide_ready t \<and> only_ide s t
      \<and> (\<forall>lk. lock_free lk t = lock_free lk s) \<and> ncli (my_cpu t) = 0) s"
    (is "wp _ ?Q s")
proof -
  let ?s1 = "(upd_cpu (\<lambda>c. c\<lparr>eflags := eflags c AND NOT FL_IF\<rparr>) s)\<lparr>disk := served_disk (disk s) (bufs s b)\<rparr>"
  have q': "idequeue s = Some b" "ide_pend s = Some (req_of (bufs s b))" "b \<notin> set qs" "distinct qs"
    "qchain (bufs s) (b_qnext (bufs s b)) qs"
    using q by (simp_all add: ide_queue_def)
  have ch: "qchain ((bufs s)(b := x)) p qs = qchain (bufs s) p qs" for x p
    by (rule qchain_cong) (use q'(3) in auto)
  have "wp ideintr (\<lambda>_. wp sti ?Q) ?s1"
  proof (rule wp_mono [OF wp_ideintr [where b = b and x = "bufs s b"]], goal_cases)
    case (9 a t)
    have c: "this_cpu t = this_cpu s" "ncli (my_cpu t) = 0" "\<And>lk. lock_free lk t = lock_free lk s"
      using calm_cpu [of ?s1 t] calm_locks [of ?s1 t] 9 assms(3) by simp_all
    have "qchain (bufs t) (idequeue t) qs" using 9 q'(5) by (simp add: ch)
    moreover have "ide_pend t = Some (req_of (bufs t (hd qs)))" if "qs \<noteq> []"
      using that 9 q'(5) by (cases qs) simp_all
    ultimately have "ide_queue t qs" unfolding ide_queue_def using q'(4) by blast
    moreover have "only_ide s t" by (rule only_ide_trans [of _ ?s1]) (use 9 in \<open>auto simp: only_ide_refl\<close>)
    ultimately show ?case using 9 c by (simp add: sti_def wp served_idem_flags ide_queue_def)
  qed (use assms q' in \<open>simp_all add: cli_ok_def\<close>)
  with q'(2) show ?thesis
    by (simp add: ide_irq_def wp cli_def wp_ide_finish [where x = "bufs s b"])
qed

section \<open>Waiting for the disk\<close>

text \<open>The processor while process \<open>i\<close> sleeps on a buffer and nothing else is runnable: the
  scheduler goes round, a disk interrupt arrives in the window in which a round leaves interrupts
  on, and \<open>i\<close> is switched in when the scan finds it runnable.\<close>

definition ide_cycle :: "u32 \<Rightarrow> nat \<Rightarrow> ('a idest_scheme, unit + unit) kop" where
  "ide_cycle ts i =
    thn (release PtableLock) (
    thn sti (
    thn ide_irq (
    thn (acquire PtableLock) (
    bnd (gets (\<lambda>s. p_state (ptab s i))) (\<lambda>st.
    if st \<noteq> RUNNABLE then ret (Inl ())
    else thn (rr_resume ts i) (ret (Inr ())))))))"

definition ide_env :: "nat \<Rightarrow> u32 \<Rightarrow> ('a idest_scheme, unit) kop" where
  "ide_env fuel ts =
    bnd curproc (\<lambda>i.
    thn switchkvm (
    thn (modify (upd_cpu (\<lambda>c. c\<lparr>cproc := None\<rparr>))) (
    loop_fuel fuel (\<lambda>_. ide_cycle ts i) ())))"

text \<open>What happened meanwhile: the requests \<open>qs\<close> were served in order, and processes other
  than \<open>i\<close> were at most woken.\<close>

definition ide_done :: "nat \<Rightarrow> nat list \<Rightarrow> 'a idest_scheme \<Rightarrow> 'a idest_scheme \<Rightarrow> bool" where
  "ide_done i qs s t \<longleftrightarrow> (disk t, bufs t) = serve_list qs (disk s, bufs s) \<and> ide_ready t \<and> only_ide s t
     \<and> (\<forall>lk. lk \<noteq> PtableLock \<longrightarrow> lock_free lk t = lock_free lk s)
     \<and> (\<forall>j. j \<noteq> i \<longrightarrow> ptab t j = ptab s j
          \<or> p_state (ptab s j) = SLEEPING \<and> ptab t j = (ptab s j)\<lparr>p_state := RUNNABLE\<rparr>)"

lemma ide_done_trans:
  assumes "ide_done i ps s t" "ide_done i qs t u"
  shows "ide_done i (ps @ qs) s u"
proof -
  have w: "ptab u j = ptab s j \<or> p_state (ptab s j) = SLEEPING \<and> ptab u j = (ptab s j)\<lparr>p_state := RUNNABLE\<rparr>"
    if "j \<noteq> i" for j
  proof -
    have t: "ptab t j = ptab s j \<or> p_state (ptab s j) = SLEEPING \<and> ptab t j = (ptab s j)\<lparr>p_state := RUNNABLE\<rparr>"
      and u: "ptab u j = ptab t j \<or> p_state (ptab t j) = SLEEPING \<and> ptab u j = (ptab t j)\<lparr>p_state := RUNNABLE\<rparr>"
      using assms that by (simp_all add: ide_done_def)
    from t u show ?thesis by (elim disjE conjE) simp_all
  qed
  have "(disk u, bufs u) = serve_list (ps @ qs) (disk s, bufs s)"
    using assms by (simp add: ide_done_def serve_list_append)
  moreover have "only_ide s u" by (rule only_ide_trans [of s t]) (use assms in \<open>simp_all add: ide_done_def\<close>)
  ultimately show ?thesis using assms w unfolding ide_done_def by simp
qed

lemma woken_cases: "woken ch p = p \<or> p_state p = SLEEPING \<and> woken ch p = p\<lparr>p_state := RUNNABLE\<rparr>"
  by (simp add: woken_def)

lemma wake_tab_cases:
  "wake_tab ch tab j = tab j \<or> p_state (tab j) = SLEEPING \<and> wake_tab ch tab j = (tab j)\<lparr>p_state := RUNNABLE\<rparr>"
  using woken_cases [of ch "tab j"] by (auto simp: wake_tab_def)

definition disk_sleeper :: "nat \<Rightarrow> nat \<Rightarrow> 'a idest_scheme \<Rightarrow> bool" where
  "disk_sleeper i b s \<longleftrightarrow> i < NPROC \<and> p_state (ptab s i) = SLEEPING \<and> p_chan (ptab s i) = ChBuf b
     \<and> p_pgdir (ptab s i) \<noteq> 0"

lemma wp_ide_cycle:
  assumes s: "sched_ctx s" "lock_free IdeLock s" "ide_ready s" "ide_queue s (x # qs)" "disk_sleeper i b s"
  shows "wp (ide_cycle ts i) (\<lambda>r t. ide_done i [x] s t \<and> ide_queue t qs
    \<and> (if x = b then r = Inr () \<and> in_sched i t \<and> ptab t i = (ptab s i)\<lparr>p_state := RUNNING\<rparr>
       else r = Inl () \<and> sched_ctx t \<and> ptab t i = ptab s i)) s"
    (is "wp _ ?Q s")
proof -
  let ?s1 = "upd_cpu (\<lambda>c. c\<lparr>eflags := eflags c OR FL_IF\<rparr>) (rel PtableLock s)"
  let ?k = "thn (acquire PtableLock) (bnd (gets (\<lambda>s. p_state (ptab s i))) (\<lambda>st.
    if st \<noteq> RUNNABLE then ret (Inl ()) else thn (rr_resume ts i) (ret (Inr ()))))"
  have "wp (thn ide_irq ?k) ?Q ?s1" unfolding wp_thn
  proof (rule wp_mono [OF wp_ide_irq [where b = x and qs = qs]], goal_cases)
    case (6 a t)
    then have f: "lock_free PtableLock t" "ptab t = wake_tab (ChBuf x) (ptab s)" by simp_all
    have w: "ptab t i = (if x = b then (ptab s i)\<lparr>p_state := RUNNABLE\<rparr> else ptab s i)"
      using s(5) by (simp add: f(2) wake_tab_def woken_def disk_sleeper_def)
    have o: "only_ide s t" by (rule only_ide_trans [of _ ?s1]) (use 6 in \<open>auto simp: only_ide_refl\<close>)
    have pg: "p_pgdir (ptab s i) \<noteq> 0" "p_state (ptab s i) = SLEEPING"
      using s(5) by (simp_all add: disk_sleeper_def)
    have d: "ide_done i [x] s t" "ide_queue t qs" "ncli (my_cpu t) = 0"
      using 6 o wake_tab_cases [of "ChBuf x" "ptab s"] by (simp_all add: ide_done_def)
    from f(1) w pg d show ?case
      by (auto simp: wp lock_simps rr_resume_def wp_switchuvm ide_done_def in_sched_def sched_ctx_def ide_queue_def
          upd_proc_def)
  qed (use s in \<open>simp_all add: sched_ctx_def ide_queue_def\<close>)
  with s(1) show ?thesis by (simp add: ide_cycle_def wp lock_simps sched_ctx_def sti_def)
qed

lemma wp_ide_loop:
  assumes "sched_ctx s" "lock_free IdeLock s" "ide_ready s" "ide_queue s (qs @ [b])" "disk_sleeper i b s"
    and "length qs < n"
  shows "wp (loop_fuel n (\<lambda>_. ide_cycle ts i) ()) (\<lambda>_ t. ide_done i (qs @ [b]) s t \<and> ide_queue t []
    \<and> in_sched i t \<and> ptab t i = (ptab s i)\<lparr>p_state := RUNNING\<rparr>) s"
  using assms
proof (induction qs arbitrary: s n)
  case Nil
  then obtain m where "n = Suc m" by (cases n) auto
  with Nil wp_ide_cycle [OF Nil.prems(1-3), of b "[]" i b ts] show ?case
    by (auto simp: wp_loop_fuel_Suc elim!: wp_mono)
next
  case (Cons x qs)
  from Cons.prems(6) obtain m where m: "n = Suc m" "length qs < m" by (cases n) auto
  have x: "x \<noteq> b" "ide_queue s (x # (qs @ [b]))" using Cons.prems(4) by (auto simp: ide_queue_def)
  show ?case unfolding m(1) wp_loop_fuel_Suc
  proof (rule wp_mono [OF wp_ide_cycle [OF Cons.prems(1-3) x(2) Cons.prems(5)]], goal_cases)
    case (1 r t)
    with x(1) have t: "ide_done i [x] s t" "ide_queue t (qs @ [b])" "r = Inl ()" "sched_ctx t"
      "ptab t i = ptab s i" by simp_all
    have "wp (loop_fuel m (\<lambda>_. ide_cycle ts i) ()) (\<lambda>_ u. ide_done i (qs @ [b]) t u \<and> ide_queue u []
      \<and> in_sched i u \<and> ptab u i = (ptab t i)\<lparr>p_state := RUNNING\<rparr>) t"
      by (rule Cons.IH) (use t Cons.prems m(2) in \<open>simp_all add: ide_done_def disk_sleeper_def\<close>)
    then show ?case using t(3,5) ide_done_trans [OF t(1), of "qs @ [b]"] by (auto elim!: wp_mono)
  qed
qed

definition disk_wait :: "nat \<Rightarrow> nat \<Rightarrow> 'a idest_scheme \<Rightarrow> bool" where
  "disk_wait n i s \<longleftrightarrow> lock_free IdeLock s \<and> ide_ready s
     \<and> (\<exists>qs b. ide_queue s (qs @ [b]) \<and> disk_sleeper i b s \<and> length qs < n)"

definition disk_woken :: "nat \<Rightarrow> 'a idest_scheme \<Rightarrow> 'a idest_scheme \<Rightarrow> bool" where
  "disk_woken i s t \<longleftrightarrow> (\<exists>qs. ide_queue s qs \<and> ide_done i qs s t) \<and> ide_queue t []
     \<and> ptab t i = (ptab s i)\<lparr>p_state := RUNNING\<rparr>"

interpretation ide_sleep: switching "ide_env n ts" "disk_wait n" disk_woken for n ts
proof
  fix i and s :: "'a idest_scheme"
  assume "disk_wait n i s" and s: "in_sched i s"
  then obtain qs b where d: "lock_free IdeLock s" "ide_ready s" "ide_queue s (qs @ [b])"
    "disk_sleeper i b s" "length qs < n" by (auto simp: disk_wait_def)
  let ?s1 = "upd_cpu (\<lambda>c. c\<lparr>cproc := None\<rparr>) (upd_cpu (\<lambda>c. c\<lparr>cr3 := kpgdir s\<rparr>) s)"
  have dn: "ide_done i (qs @ [b]) ?s1 t \<Longrightarrow> ide_done i (qs @ [b]) s t" for t
    unfolding ide_done_def using only_ide_trans [of s ?s1 t] by (simp add: only_ide_refl)
  have "wp (loop_fuel n (\<lambda>_. ide_cycle ts i) ()) (\<lambda>_ t. ide_done i (qs @ [b]) ?s1 t \<and> ide_queue t []
    \<and> in_sched i t \<and> ptab t i = (ptab ?s1 i)\<lparr>p_state := RUNNING\<rparr>) ?s1"
    by (rule wp_ide_loop) (use d s in \<open>simp_all add: sched_ctx_def in_sched_def disk_sleeper_def ide_queue_def\<close>)
  then have "wp (loop_fuel n (\<lambda>_. ide_cycle ts i) ()) (\<lambda>_ t. in_sched i t
    \<and> p_state (ptab t i) = RUNNING \<and> disk_woken i s t) ?s1"
    by (rule wp_mono) (use d(3) dn in \<open>auto simp: disk_woken_def\<close>)
  with s show "wp (ide_env n ts) (\<lambda>_ t. in_sched i t \<and> p_state (ptab t i) = RUNNING \<and> disk_woken i s t) s"
    by (simp add: ide_env_def wp switchkvm_def in_sched_def)
qed

section \<open>Requests are served in order\<close>

text \<open>A process in the kernel outside every critical section.\<close>

definition proc_ctx :: "nat \<Rightarrow> 'a pstate_scheme \<Rightarrow> bool" where
  "proc_ctx i s \<longleftrightarrow> cproc (my_cpu s) = Some i \<and> i < NPROC \<and> ncli (my_cpu s) = 0 \<and> (\<forall>lk. lock_free lk s)
     \<and> p_state (ptab s i) = RUNNING \<and> p_pgdir (ptab s i) \<noteq> 0"

text \<open>What happens to the process table meanwhile: the process keeps its record up to the sleep
  channel, the others are at most woken.\<close>

definition procs_kept :: "nat \<Rightarrow> 'a pstate_scheme \<Rightarrow> 'a pstate_scheme \<Rightarrow> bool" where
  "procs_kept i s t \<longleftrightarrow> ptab t i = (ptab s i)\<lparr>p_chan := p_chan (ptab t i)\<rparr>
     \<and> (\<forall>j. j \<noteq> i \<longrightarrow> ptab t j = ptab s j
          \<or> p_state (ptab s j) = SLEEPING \<and> ptab t j = (ptab s j)\<lparr>p_state := RUNNABLE\<rparr>)"

lemma procs_kept_refl [intro]: "ptab t = ptab s \<Longrightarrow> procs_kept i s t"
  by (simp add: procs_kept_def)

lemma procs_kept_trans:
  assumes "procs_kept i s t" "procs_kept i t u"
  shows "procs_kept i s u"
proof -
  have "ptab u i = (ptab s i)\<lparr>p_chan := p_chan (ptab u i)\<rparr>"
    using assms by (cases "ptab s i"; cases "ptab t i"; cases "ptab u i") (simp add: procs_kept_def)
  moreover have "ptab u j = ptab s j \<or> p_state (ptab s j) = SLEEPING \<and> ptab u j = (ptab s j)\<lparr>p_state := RUNNABLE\<rparr>"
    if "j \<noteq> i" for j
  proof -
    have t: "ptab t j = ptab s j \<or> p_state (ptab s j) = SLEEPING \<and> ptab t j = (ptab s j)\<lparr>p_state := RUNNABLE\<rparr>"
      and u: "ptab u j = ptab t j \<or> p_state (ptab t j) = SLEEPING \<and> ptab u j = (ptab t j)\<lparr>p_state := RUNNABLE\<rparr>"
      using assms that by (simp_all add: procs_kept_def)
    from t u show ?thesis by (elim disjE conjE) simp_all
  qed
  ultimately show ?thesis by (simp add: procs_kept_def)
qed

text \<open>Buffers up to the link that the queue uses.\<close>

definition noq :: "(nat \<Rightarrow> buf) \<Rightarrow> nat \<Rightarrow> buf" where
  "noq B = (\<lambda>i. (B i)\<lparr>b_qnext := None\<rparr>)"

lemma noq_upd: "noq (B(b := x)) = (noq B)(b := x\<lparr>b_qnext := None\<rparr>)"
  by (auto simp: noq_def)

lemma served_noq:
  "served D (x\<lparr>b_qnext := q\<rparr>) = (served D x)\<lparr>b_qnext := q\<rparr>" "served_disk D (x\<lparr>b_qnext := q\<rparr>) = served_disk D x"
  "req_of (x\<lparr>b_qnext := q\<rparr>) = req_of x"
  by (simp_all add: served_def served_disk_def sector_of_def req_of_def)

lemma serve_list_noq: "serve_list qs (D, noq B) = (fst (serve_list qs (D, B)), noq (snd (serve_list qs (D, B))))"
proof (induction qs arbitrary: D B)
  case (Cons q qs)
  have q: "noq B q = (B q)\<lparr>b_qnext := None\<rparr>" by (simp add: noq_def)
  have "(noq B)(q := served D (noq B q)) = noq (B(q := served D (B q)))"
    unfolding q by (simp only: served_noq noq_upd)
  with q show ?case by (simp only: serve_list.simps served_noq Cons)
qed simp

lemma served_flags: "b_flags (served D x) AND (B_VALID OR B_DIRTY) = B_VALID"
proof (rule bit_word_eqI)
  have m: "bit B_VALID n \<longleftrightarrow> n = 1" "bit B_DIRTY n \<longleftrightarrow> n = 2" for n
  proof -
    have e: "B_VALID = 2 ^ 1" "B_DIRTY = 2 ^ 2" by (simp_all add: B_VALID_def B_DIRTY_def)
    show "bit B_VALID n \<longleftrightarrow> n = 1" unfolding e(1) bit_exp_iff by auto
    show "bit B_DIRTY n \<longleftrightarrow> n = 2" unfolding e(2) bit_exp_iff by auto
  qed
  show "bit (b_flags (served D x) AND (B_VALID OR B_DIRTY)) n = bit B_VALID n" if "n < LENGTH(32)" for n
    using that by (auto simp: served_def bit_simps m)
qed

lemma serve_list_last:
  assumes "(D', B') = serve_list (qs @ [b]) (D, B)"
  shows "b_flags (B' b) AND (B_VALID OR B_DIRTY) = B_VALID" "b_data (B' b) = D' (sector_of (B' b))"
proof -
  obtain E C where "serve_list qs (D, B) = (E, C)" by (cases "serve_list qs (D, B)")
  with assms have "D' = served_disk E (C b)" "B' b = served E (C b)" by (simp_all add: serve_list_append)
  then show "b_flags (B' b) AND (B_VALID OR B_DIRTY) = B_VALID" "b_data (B' b) = D' (sector_of (B' b))"
    by (simp_all add: served_flags) (simp add: served_def served_disk_def sector_of_def)
qed

text \<open>The walk ends at the last link of the queue.\<close>

lemma wp_queue_walk:
  assumes "qchain (bufs s) (deref_pp pp s) qs" "length qs < n"
  shows "wp (loop_fuel n (\<lambda>pp. bnd (gets (deref_pp pp)) (\<lambda>y.
      ret (case y of None \<Rightarrow> Inr pp | Some z \<Rightarrow> Inl (Some z)))) pp) Q s
    = Q (if qs = [] then pp else Some (last qs)) s"
  using assms
proof (induction qs arbitrary: pp n)
  case Nil
  then show ?case by (cases n) (simp_all add: wp_loop_fuel_Suc wp)
next
  case (Cons q qs)
  then obtain m where "n = Suc m" "length qs < m" by (cases n) auto
  with Cons.prems Cons.IH [of "Some q" m] show ?case
    by (simp add: wp_loop_fuel_Suc wp deref_pp_def)
qed

lemma ide_queue_append:
  assumes "ide_queue s qs" "b \<notin> set qs"
  defines "s1 \<equiv> upd_buf b (\<lambda>x. x\<lparr>b_qnext := None\<rparr>) s"
  shows "qs \<noteq> [] \<Longrightarrow> ide_queue (store_pp (Some (last qs)) b s1) (qs @ [b])"
    and "qs = [] \<Longrightarrow> qchain (bufs (store_pp None b s1)) (idequeue (store_pp None b s1)) [b]"
proof -
  let ?B = "(bufs s)(b := (bufs s b)\<lparr>b_qnext := None\<rparr>)"
  have ch: "qchain ?B (idequeue s) qs"
  proof -
    have "qchain ?B (idequeue s) qs = qchain (bufs s) (idequeue s) qs"
      by (rule qchain_cong) (use assms(2) in auto)
    with assms(1) show ?thesis by (simp add: ide_queue_def)
  qed
  show "ide_queue (store_pp (Some (last qs)) b s1) (qs @ [b])" if "qs \<noteq> []"
  proof -
    have "last qs \<in> set qs" "hd qs \<in> set qs" using that by simp_all
    then have "last qs \<noteq> b" "hd qs \<noteq> b" using assms(2) by auto
    with qchain_snoc [OF ch assms(2)] that assms(1,2) show ?thesis
      by (auto simp: ide_queue_def s1_def store_pp_def served_noq)
  qed
  show "qs = [] \<Longrightarrow> qchain (bufs (store_pp None b s1)) (idequeue (store_pp None b s1)) [b]"
    by (simp add: s1_def store_pp_def)
qed

text \<open>Appending the buffer and starting the controller when it is idle.\<close>

lemma wp_ide_enqueue:
  assumes "ide_queue s qs" "b \<notin> set qs" "length qs < NBUF + 2" "ide_ready s"
    and "\<And>t. ide_queue t (qs @ [b]) \<Longrightarrow> ide_ready t \<Longrightarrow> only_ide s t \<Longrightarrow> noq (bufs t) = noq (bufs s)
      \<Longrightarrow> disk t = disk s \<Longrightarrow> ptab t = ptab s \<Longrightarrow> cpus t = cpus s \<Longrightarrow> this_cpu t = this_cpu s
      \<Longrightarrow> locks t = locks s \<Longrightarrow> wp k Q t"
  shows "wp (thn (modify (upd_buf b (\<lambda>x. x\<lparr>b_qnext := None\<rparr>))) (
    bnd (loop_fuel (NBUF + 2) (\<lambda>pp.
      bnd (gets (deref_pp pp)) (\<lambda>y.
      ret (case y of None \<Rightarrow> Inr pp | Some z \<Rightarrow> Inl (Some z)))) None) (\<lambda>pp.
    thn (modify (store_pp pp b)) (
    thn (bnd (gets idequeue) (\<lambda>q. whenk (q = Some b) (idestart (Some b)))) k)))) Q s"
proof -
  let ?s1 = "upd_buf b (\<lambda>x. x\<lparr>b_qnext := None\<rparr>) s"
  let ?pp = "if qs = [] then None else Some (last qs)"
  let ?s2 = "store_pp ?pp b ?s1"
  let ?B = "(bufs s)(b := (bufs s b)\<lparr>b_qnext := None\<rparr>)"
  have "qchain ?B (idequeue s) qs = qchain (bufs s) (idequeue s) qs"
    by (rule qchain_cong) (use assms(2) in auto)
  then have ch: "qchain (bufs ?s1) (deref_pp None ?s1) qs"
    using assms(1) by (simp add: ide_queue_def deref_pp_def)
  have n: "noq (bufs ?s2) = noq (bufs s)" by (auto simp: store_pp_def noq_def fun_eq_iff)
  have fr: "only_ide s ?s2" "disk ?s2 = disk s" "ptab ?s2 = ptab s" "cpus ?s2 = cpus s"
    "this_cpu ?s2 = this_cpu s" "locks ?s2 = locks s" "ide_ready ?s2"
    using assms(4) by (simp_all add: store_pp_def only_ide_refl upd_buf_def)
  have "wp (bnd (gets idequeue) (\<lambda>q. whenk (q = Some b) (idestart (Some b)))) (\<lambda>_. wp k Q) ?s2"
  proof (cases "qs = []")
    case True
    then have "wp k Q (?s2\<lparr>ide_port := start_ports (bufs ?s2 b) (ide_port ?s2), ide_pend := Some (req_of (bufs ?s2 b))\<rparr>)"
      using fr n ide_queue_append(2) [OF assms(1,2)] by (intro assms(5)) (simp_all add: ide_queue_def)
    with True fr(7) show ?thesis by (simp add: wp wp_idestart) (simp add: store_pp_def)
  next
    case False
    then have q: "ide_queue ?s2 (qs @ [b])" using ide_queue_append(1) [OF assms(1,2)] by simp
    with False assms(2) have "idequeue ?s2 \<noteq> Some b" by (cases qs) (auto simp: ide_queue_def)
    with False q fr n assms(5) [of ?s2] show ?thesis by (simp add: wp)
  qed
  then show ?thesis using ch assms(3) by (simp add: wp wp_queue_walk)
qed

lemma wp_ide_wait:
  assumes "cproc (my_cpu s) = Some i" "i < NPROC" "ncli (my_cpu s) = 1" "lock_mine IdeLock s"
    and "\<And>lk. lk \<noteq> IdeLock \<Longrightarrow> lock_free lk s" "p_pgdir (ptab s i) \<noteq> 0" "p_state (ptab s i) = RUNNING"
    and "ide_queue s (qs @ [b])" "ide_ready s" "length qs < m"
    and "b_flags (bufs s b) AND (B_VALID OR B_DIRTY) \<noteq> B_VALID"
  shows "wp (thn (loop_fuel (Suc (Suc n)) (\<lambda>_.
      bnd (gets (\<lambda>s. b_flags (bufs s b))) (\<lambda>fl.
      if fl AND (B_VALID OR B_DIRTY) \<noteq> B_VALID
      then thn (sleep (ide_env m ts) (ChBuf b) (Some IdeLock)) (ret (Inl ()))
      else ret (Inr ()))) ()) (release IdeLock))
    (\<lambda>_ t. proc_ctx i t \<and> idequeue t = None \<and> ide_ready t \<and> only_ide s t
      \<and> (disk t, bufs t) = serve_list (qs @ [b]) (disk s, bufs s) \<and> procs_kept i s t) s"
    (is "wp (thn (loop_fuel _ ?body _) _) ?Q s")
proof -
  let ?s1 = "upd_proc i (\<lambda>p. p\<lparr>p_chan := ChBuf b, p_state := SLEEPING\<rparr>) (rel IdeLock (acq PtableLock s))"
  have q: "ide_queue ?s1 (qs @ [b])" using assms(8) by (simp add: ide_queue_def upd_proc_def)
  have w: "disk_wait m i ?s1"
    using assms q by (auto simp: disk_wait_def disk_sleeper_def upd_proc_def)
  have u: "lock_free IdeLock u" if "disk_woken i ?s1 u" for u
    using that by (auto simp: disk_woken_def ide_done_def upd_proc_def)
  have free: "lock_free PtableLock s" using assms(5) by simp
  show ?thesis unfolding wp_thn wp_loop_fuel_Suc
    using assms(11)
  proof (simp add: wp, intro wp_mono [OF ide_sleep.sleep_spec [OF assms(1,4) _ free assms(3) refl w u]], goal_cases)
    case (3 a t)
    then obtain v where v: "disk_woken i ?s1 v" and t: "t = acq IdeLock (rel PtableLock (upd_proc i
      (\<lambda>p. p\<lparr>p_chan := NoChan\<rparr>) (upd_cpu (\<lambda>c. c\<lparr>intena := intena (my_cpu ?s1)\<rparr>) v)))" by blast
    from v obtain qs' where "ide_queue ?s1 qs'" and v': "ide_done i qs' ?s1 v" "ide_queue v []"
      "ptab v i = (ptab ?s1 i)\<lparr>p_state := RUNNING\<rparr>" by (auto simp: disk_woken_def)
    with q qchain_det have qs': "qs' = qs @ [b]" unfolding ide_queue_def by blast
    have sv: "(disk v, bufs v) = serve_list (qs @ [b]) (disk s, bufs s)"
      using v'(1) unfolding qs' by (simp add: ide_done_def upd_proc_def)
    have "only_ide s v" by (rule only_ide_trans [of s ?s1]) (use v'(1) in \<open>auto simp: ide_done_def upd_proc_def only_ide_refl\<close>)
    moreover have "lock_free lk v" if "lk \<noteq> PtableLock" for lk
      using that v'(1) assms(5) by (cases "lk = IdeLock") (auto simp: ide_done_def)
    moreover have "lock_free lk (rel IdeLock t)" for lk
      using 3 calculation(2) [of lk] by (cases "lk = IdeLock"; cases "lk = PtableLock") (auto simp: t)
    moreover have "lock_mine IdeLock t" "eflags (my_cpu t) AND FL_IF = 0" "ncli (my_cpu t) = 1"
      "cproc (my_cpu t) = Some i" using 3 by simp_all
    moreover have "ptab t i = (ptab s i)\<lparr>p_chan := NoChan, p_state := RUNNING\<rparr>" "disk t = disk v" "bufs t = bufs v"
      "idequeue t = None" "ide_ready t" "only_ide s t = only_ide s v"
      using v' by (simp_all add: t ide_done_def ide_queue_def)
    moreover have "procs_kept i s (rel IdeLock t)"
      using v'(1,3) assms(7) by (cases "ptab s i") (auto simp: t procs_kept_def ide_done_def)
    ultimately show ?case using sv serve_list_last(1) [OF sv] assms(2,6)
      by (simp add: wp_release proc_ctx_def)
  qed auto
qed

lemma wp_iderw:
  assumes "proc_ctx i s" "ide_ready s" "ide_queue s qs" "b \<notin> set qs" "length qs < NBUF"
    and "b_flags (bufs s b) AND B_BUSY \<noteq> 0" "b_flags (bufs s b) AND (B_VALID OR B_DIRTY) \<noteq> B_VALID"
    and "b_dev (bufs s b) = 0 \<or> havedisk1 s"
  shows "wp (iderw (Suc (Suc n)) (ide_env NBUF ts) b) (\<lambda>_ t. proc_ctx i t \<and> idequeue t = None \<and> ide_ready t
      \<and> (disk t, noq (bufs t)) = serve_list (qs @ [b]) (disk s, noq (bufs s))
      \<and> b_flags (bufs t b) AND (B_VALID OR B_DIRTY) = B_VALID
      \<and> b_data (bufs t b) = disk t (sector_of (bufs t b)) \<and> only_ide s t \<and> procs_kept i s t) s"
proof -
  let ?Q = "\<lambda>_ t. proc_ctx i t \<and> idequeue t = None \<and> ide_ready t
      \<and> (disk t, noq (bufs t)) = serve_list (qs @ [b]) (disk s, noq (bufs s))
      \<and> b_flags (bufs t b) AND (B_VALID OR B_DIRTY) = B_VALID
      \<and> b_data (bufs t b) = disk t (sector_of (bufs t b)) \<and> only_ide s t \<and> procs_kept i s t"
  have free: "lock_free lk s" for lk using assms(1) by (simp add: proc_ctx_def)
  have fl: "b_flags (bufs t b) = b_flags (bufs s b)" if "noq (bufs t) = noq (bufs s)" for t :: "'a idest_scheme"
    using fun_cong [OF that, of b] by (cases "bufs t b"; cases "bufs s b") (simp add: noq_def)
  have dev: "\<not> (b_dev (bufs s b) \<noteq> 0 \<and> \<not> havedisk1 s)" using assms(8) by blast
  show ?thesis unfolding iderw_def
    using assms(6,7) dev
    apply (simp only: wp_gets_bnd if_False if_True wp_acquire_thn [OF free])
  proof (rule wp_ide_enqueue [where qs = qs], goal_cases)
    case (5 t)
    have lk: "lock_free lk t = lock_free lk (acq IdeLock s)" "lock_mine lk t = lock_mine lk (acq IdeLock s)" for lk
      using 5 by (simp_all add: lock_free_def lock_mine_def)
    show ?case
    proof (rule wp_mono [OF wp_ide_wait [where i = i and qs = qs]], goal_cases)
      case (12 a u)
      have "only_ide s u" by (rule only_ide_trans [of s t], rule only_ide_trans [of s "acq IdeLock s"])
        (use 5 12 in \<open>auto simp: only_ide_refl\<close>)
      moreover have sv: "(disk u, bufs u) = serve_list (qs @ [b]) (disk s, bufs t)" using 12 5 by simp
      moreover have "serve_list (qs @ [b]) (disk s, noq (bufs s)) = (disk u, noq (bufs u))"
        using serve_list_noq [of "qs @ [b]" "disk s" "bufs t", folded sv] 5 by simp
      moreover have "procs_kept i s u" using 12 5 by (simp add: procs_kept_def)
      ultimately show ?case using 12 serve_list_last [OF sv] by simp
    qed (use assms 5 free fl [of t] in \<open>auto simp: proc_ctx_def lk\<close>)
  qed (use assms in \<open>simp_all add: ide_queue_def\<close>)
qed

text \<open>C10. A disk request is completed: whatever requests are already queued, \<^verbatim>\<open>iderw\<close> on a
  busy buffer returns; the queued requests and then this one have been served in queue order; the
  queue is empty, and the buffer is valid, clean and agrees with its sector.\<close>

theorem iderw_serves:
  assumes "proc_ctx i s" "ide_ready s" "ide_queue s qs" "b \<notin> set qs" "length qs < NBUF"
    and "b_flags (bufs s b) AND B_BUSY \<noteq> 0" "b_flags (bufs s b) AND (B_VALID OR B_DIRTY) \<noteq> B_VALID"
    and "b_dev (bufs s b) = 0 \<or> havedisk1 s"
  shows "wp (iderw (Suc (Suc n)) (ide_env NBUF ts) b) (\<lambda>_ t. proc_ctx i t \<and> idequeue t = None \<and> ide_ready t
      \<and> (disk t, noq (bufs t)) = serve_list (qs @ [b]) (disk s, noq (bufs s))
      \<and> b_flags (bufs t b) AND (B_VALID OR B_DIRTY) = B_VALID
      \<and> b_data (bufs t b) = disk t (sector_of (bufs t b)) \<and> only_ide s t \<and> procs_kept i s t) s"
  by (rule wp_iderw [OF assms])

text \<open>A state for examples: process 2 runs, buffer 3 is being read from sector 40 and buffer 0 is
  to be written to sector 7.\<close>

definition idest_boot :: "(nat \<Rightarrow> proc) \<Rightarrow> (nat \<Rightarrow> buf) \<Rightarrow> nat option \<Rightarrow> ide_req option \<Rightarrow> 'a \<Rightarrow> 'a idest_scheme" where
  "idest_boot tab B q r x =
    upd_cpu (\<lambda>c. c\<lparr>cproc := Some 2\<rparr>) (idest.extend (pstate_boot tab (idest.fields B q False (\<lambda>_. 0) 0x40 r (\<lambda>_. []))) x)"

lemma idest_boot_sel [simp]:
  "ptab (idest_boot tab B q r x) = tab" "bufs (idest_boot tab B q r x) = B" "idequeue (idest_boot tab B q r x) = q"
  "ide_pend (idest_boot tab B q r x) = r" "disk (idest_boot tab B q r x) = (\<lambda>_. [])"
  "idest.more (idest_boot tab B q r x) = x" "ide_ready (idest_boot tab B q r x)"
  "proc_ctx 2 (idest_boot tab B q r x) = (p_state (tab 2) = RUNNING \<and> p_pgdir (tab 2) \<noteq> 0)"
  by (simp_all add: idest_boot_def idest.defs pstate_boot_def pstate.defs boot_defs ide_ready_def proc_ctx_def
      lock_free_def upd_cpu_def NPROC_def)

definition buf_zero :: buf where
  "buf_zero = \<lparr>b_flags = 0, b_dev = 0, b_sector = 0, b_prev = 0, b_next = 0, b_qnext = None, b_data = []\<rparr>"

definition ide_ex_bufs :: "nat \<Rightarrow> buf" where
  "ide_ex_bufs = (\<lambda>_. buf_zero)(0 := buf_zero\<lparr>b_flags := B_BUSY OR B_DIRTY, b_sector := 7, b_data := [1, 2]\<rparr>,
      3 := buf_zero\<lparr>b_flags := B_BUSY, b_sector := 40\<rparr>)"

definition ide_ex :: "unit idest_scheme" where
  "ide_ex = idest_boot (\<lambda>_. proc_zero\<lparr>p_state := RUNNING, p_pgdir := 0x200000\<rparr>) ide_ex_bufs (Some 3)
      (Some (req_of (ide_ex_bufs 3))) ()"

lemma iderw_serves_witness:
  "wp (iderw 2 (ide_env NBUF 0) 0) (\<lambda>_ t. proc_ctx 2 t \<and> idequeue t = None \<and> ide_ready t
      \<and> (disk t, noq (bufs t)) = serve_list [3, 0] (disk ide_ex, noq (bufs ide_ex))
      \<and> b_flags (bufs t 0) AND (B_VALID OR B_DIRTY) = B_VALID
      \<and> b_data (bufs t 0) = disk t (sector_of (bufs t 0)) \<and> only_ide ide_ex t \<and> procs_kept 2 ide_ex t) ide_ex"
proof -
  have "ide_queue ide_ex [3]" by (simp add: ide_ex_def ide_ex_bufs_def ide_queue_def buf_zero_def)
  moreover have "proc_ctx 2 ide_ex" "ide_ready ide_ex" by (simp_all add: ide_ex_def)
  ultimately show ?thesis
    using iderw_serves [of 2 ide_ex "[3]" 0 0 0]
    by (simp add: ide_ex_def ide_ex_bufs_def NBUF_def B_BUSY_def B_VALID_def B_DIRTY_def buf_zero_def numeral_2_eq_2)
qed

end
