(* ===== verification/Layout.thy ===== *)
theory Layout
  imports Machine
begin

text \<open>
  The on-disk format (\<^verbatim>\<open>fs.h\<close>): super block, inodes, the block bitmap and directory
  entries as little-endian bytes of a 512-byte block, with the macros that locate them.

  Shown: every structure is read back as it was written, and writing one leaves the others in the
  block alone.
\<close>

section \<open>Bytes of a block\<close>

definition bslice :: "u8 list \<Rightarrow> nat \<Rightarrow> nat \<Rightarrow> u8 list" where
  "bslice d off n = take n (drop off d)"

definition bsplice :: "u8 list \<Rightarrow> nat \<Rightarrow> u8 list \<Rightarrow> u8 list" where
  "bsplice d off xs = take off d @ xs @ drop (off + length xs) d"

definition bytes16 :: "u16 \<Rightarrow> u8 list" where
  "bytes16 v = [ucast v, ucast (drop_bit 8 v)]"

definition bytes32 :: "u32 \<Rightarrow> u8 list" where
  "bytes32 v = [ucast v, ucast (drop_bit 8 v), ucast (drop_bit 16 v), ucast (drop_bit 24 v)]"

definition word16 :: "u8 list \<Rightarrow> u16" where
  "word16 xs = ucast (xs ! 0) OR push_bit 8 (ucast (xs ! 1))"

definition word32 :: "u8 list \<Rightarrow> u32" where
  "word32 xs = ucast (xs ! 0) OR push_bit 8 (ucast (xs ! 1)) OR push_bit 16 (ucast (xs ! 2))
     OR push_bit 24 (ucast (xs ! 3))"

definition get16 :: "u8 list \<Rightarrow> nat \<Rightarrow> u16" where
  "get16 d off = word16 (bslice d off 2)"

definition get32 :: "u8 list \<Rightarrow> nat \<Rightarrow> u32" where
  "get32 d off = word32 (bslice d off 4)"

definition put16 :: "nat \<Rightarrow> u16 \<Rightarrow> u8 list \<Rightarrow> u8 list" where
  "put16 off v d = bsplice d off (bytes16 v)"

definition put32 :: "nat \<Rightarrow> u32 \<Rightarrow> u8 list \<Rightarrow> u8 list" where
  "put32 off v d = bsplice d off (bytes32 v)"

section \<open>Structures (fs.h)\<close>

definition ROOTINO :: u32 where "ROOTINO = 1"
definition BSIZE :: nat where "BSIZE = 512"
definition NDIRECT :: nat where "NDIRECT = 12"
definition NINDIRECT :: nat where "NINDIRECT = 128"
definition MAXFILE :: nat where "MAXFILE = NDIRECT + NINDIRECT"
definition DINODE_SIZE :: nat where "DINODE_SIZE = 64"
definition IPB :: u32 where "IPB = 8"
definition BPB :: u32 where "BPB = 4096"
definition DIRSIZ :: nat where "DIRSIZ = 14"
definition DIRENT_SIZE :: nat where "DIRENT_SIZE = 16"

definition IBLOCK :: "u32 \<Rightarrow> u32" where
  "IBLOCK i = i div IPB + 2"

definition BBLOCK :: "u32 \<Rightarrow> u32 \<Rightarrow> u32" where
  "BBLOCK b ninodes = b div BPB + ninodes div IPB + 3"

record superblock =
  sb_size :: u32
  sb_nblocks :: u32
  sb_ninodes :: u32

definition get_sb :: "u8 list \<Rightarrow> superblock" where
  "get_sb d = \<lparr>sb_size = get32 d 0, sb_nblocks = get32 d 4, sb_ninodes = get32 d 8\<rparr>"

record dinode =
  di_type :: u16
  di_major :: u16
  di_minor :: u16
  di_nlink :: u16
  di_size :: u32
  di_addrs :: "u32 list"

definition get_dinode :: "u8 list \<Rightarrow> nat \<Rightarrow> dinode" where
  "get_dinode d off = \<lparr>di_type = get16 d off, di_major = get16 d (off + 2), di_minor = get16 d (off + 4),
     di_nlink = get16 d (off + 6), di_size = get32 d (off + 8),
     di_addrs = map (\<lambda>k. get32 d (off + 12 + 4 * k)) [0..<NDIRECT + 1]\<rparr>"

text \<open>The field assignments and the \<^verbatim>\<open>memmove\<close> of the block addresses.\<close>

definition put_dinode :: "nat \<Rightarrow> dinode \<Rightarrow> u8 list \<Rightarrow> u8 list" where
  "put_dinode off x d =
     fold (\<lambda>k. put32 (off + 12 + 4 * k) (di_addrs x ! k)) [0..<NDIRECT + 1]
       (put32 (off + 8) (di_size x) (put16 (off + 6) (di_nlink x) (put16 (off + 4) (di_minor x)
       (put16 (off + 2) (di_major x) (put16 off (di_type x) d)))))"

record dirent =
  de_inum :: u16
  de_name :: "u8 list"

definition get_dirent :: "u8 list \<Rightarrow> nat \<Rightarrow> dirent" where
  "get_dirent d off = \<lparr>de_inum = get16 d off, de_name = bslice d (off + 2) DIRSIZ\<rparr>"

definition dirent_bytes :: "dirent \<Rightarrow> u8 list" where
  "dirent_bytes x = bytes16 (de_inum x) @ de_name x"

text \<open>Bit \<open>bi\<close> of a bitmap block.\<close>

definition bm_mask :: "nat \<Rightarrow> u8" where
  "bm_mask bi = push_bit (bi mod 8) 1"

definition bm_test :: "u8 list \<Rightarrow> nat \<Rightarrow> bool" where
  "bm_test d bi \<longleftrightarrow> d ! (bi div 8) AND bm_mask bi \<noteq> 0"

definition bm_set :: "nat \<Rightarrow> u8 list \<Rightarrow> u8 list" where
  "bm_set bi d = d[bi div 8 := d ! (bi div 8) OR bm_mask bi]"

definition bm_clear :: "nat \<Rightarrow> u8 list \<Rightarrow> u8 list" where
  "bm_clear bi d = d[bi div 8 := d ! (bi div 8) AND NOT (bm_mask bi)]"

section \<open>Slices\<close>

lemma length_bsplice [simp]: "off + length xs \<le> length d \<Longrightarrow> length (bsplice d off xs) = length d"
  by (simp add: bsplice_def)

lemma length_bslice [simp]: "off + n \<le> length d \<Longrightarrow> length (bslice d off n) = n"
  by (simp add: bslice_def)

lemma bslice_bsplice_same [simp]:
  "off + length xs \<le> length d \<Longrightarrow> n = length xs \<Longrightarrow> bslice (bsplice d off xs) off n = xs"
  by (simp add: bslice_def bsplice_def)

lemma bslice_bsplice_other:
  assumes "off + length xs \<le> length d" "o' + n \<le> off \<or> off + length xs \<le> o'"
  shows "bslice (bsplice d off xs) o' n = bslice d o' n"
proof (rule nth_equalityI)
  show "length (bslice (bsplice d off xs) o' n) = length (bslice d o' n)"
    using assms(1) by (simp add: bslice_def)
next
  fix j assume "j < length (bslice (bsplice d off xs) o' n)"
  then have j: "j < n" "o' + j < length d" using assms(1) by (auto simp: bslice_def)
  show "bslice (bsplice d off xs) o' n ! j = bslice d o' n ! j"
    using assms j by (auto simp: bslice_def bsplice_def nth_append)
qed

lemma word_bytes [simp]: "word16 (bytes16 v) = v" "word32 (bytes32 w) = w"
proof -
  show "word16 (bytes16 v) = v"
  proof (rule bit_word_eqI)
    fix n assume n: "n < LENGTH(16)"
    then consider "n < 8" | "8 \<le> n" "n < 16" by force
    then show "bit (word16 (bytes16 v)) n = bit v n"
      using n by cases (auto simp: word16_def bytes16_def bit_simps)
  qed
  show "word32 (bytes32 w) = w"
  proof (rule bit_word_eqI)
    fix n assume n: "n < LENGTH(32)"
    then consider "n < 8" | "8 \<le> n" "n < 16" | "16 \<le> n" "n < 24" | "24 \<le> n" "n < 32" by force
    then show "bit (word32 (bytes32 w)) n = bit w n"
      using n by cases (auto simp: word32_def bytes32_def bit_simps nth_Cons')
  qed
qed

lemma length_bytes [simp]: "length (bytes16 v) = 2" "length (bytes32 w) = 4"
  by (simp_all add: bytes16_def bytes32_def)

lemma length_put [simp]:
  "off + 2 \<le> length d \<Longrightarrow> length (put16 off v d) = length d" "off + 4 \<le> length d \<Longrightarrow> length (put32 off w d) = length d"
  by (simp_all add: put16_def put32_def)

lemma get_put_same [simp]:
  "off + 2 \<le> length d \<Longrightarrow> get16 (put16 off v d) off = v" "off + 4 \<le> length d \<Longrightarrow> get32 (put32 off w d) off = w"
  by (simp_all add: put16_def put32_def get16_def get32_def)

lemma bslice_put_other:
  "off + 2 \<le> length d \<Longrightarrow> o' + n \<le> off \<or> off + 2 \<le> o' \<Longrightarrow> bslice (put16 off v d) o' n = bslice d o' n"
  "off + 4 \<le> length d \<Longrightarrow> o' + n \<le> off \<or> off + 4 \<le> o' \<Longrightarrow> bslice (put32 off w d) o' n = bslice d o' n"
  by (simp_all add: put16_def put32_def bslice_bsplice_other)

section \<open>Inodes\<close>

text \<open>An array of words stored one after the other.\<close>

lemma fold_put32:
  assumes "b + 4 * n \<le> length d"
  shows "length (fold (\<lambda>k. put32 (b + 4 * k) (v k)) [0..<n] d) = length d
    \<and> (\<forall>o' m. o' + m \<le> b \<or> b + 4 * n \<le> o' \<longrightarrow>
         bslice (fold (\<lambda>k. put32 (b + 4 * k) (v k)) [0..<n] d) o' m = bslice d o' m)
    \<and> (\<forall>k < n. get32 (fold (\<lambda>k. put32 (b + 4 * k) (v k)) [0..<n] d) (b + 4 * k) = v k)"
  using assms
proof (induction n)
  case (Suc n)
  let ?d = "fold (\<lambda>k. put32 (b + 4 * k) (v k)) [0..<n] d"
  have "b + 4 * n \<le> length d" using Suc.prems by simp
  from Suc.IH [OF this] have IH: "length ?d = length d" "\<And>o' m. o' + m \<le> b \<or> b + 4 * n \<le> o' \<Longrightarrow> bslice ?d o' m = bslice d o' m"
    "\<And>k. k < n \<Longrightarrow> get32 ?d (b + 4 * k) = v k"
    by blast+
  have room: "b + 4 * n + 4 \<le> length ?d" using Suc.prems IH(1) by simp
  have "bslice (put32 (b + 4 * n) (v n) ?d) o' m = bslice d o' m" if "o' + m \<le> b \<or> b + 4 * Suc n \<le> o'" for o' m
    using bslice_put_other(2) [OF room, of o' m "v n"] IH(2) [of o' m] that by auto
  moreover have "get32 (put32 (b + 4 * n) (v n) ?d) (b + 4 * k) = v k" if "k < Suc n" for k
  proof (cases "k = n")
    case False
    then have "get32 (put32 (b + 4 * n) (v n) ?d) (b + 4 * k) = get32 ?d (b + 4 * k)"
      using bslice_put_other(2) [OF room, of "b + 4 * k" 4 "v n"] that by (simp add: get32_def)
    with False that IH(3) show ?thesis by simp
  qed (use room in simp)
  ultimately show ?case using room IH(1) by simp
qed simp

lemma put_dinode:
  assumes "off + DINODE_SIZE \<le> length d" "length (di_addrs x) = NDIRECT + 1"
  shows "length (put_dinode off x d) = length d" "get_dinode (put_dinode off x d) off = x"
    "o' + n \<le> off \<or> off + DINODE_SIZE \<le> o' \<Longrightarrow> bslice (put_dinode off x d) o' n = bslice d o' n"
proof -
  let ?d = "put32 (off + 8) (di_size x) (put16 (off + 6) (di_nlink x) (put16 (off + 4) (di_minor x)
       (put16 (off + 2) (di_major x) (put16 off (di_type x) d))))"
  have l: "length ?d = length d" "off + 12 + 4 * (NDIRECT + 1) \<le> length ?d"
    using assms(1) by (simp_all add: DINODE_SIZE_def NDIRECT_def)
  note F = fold_put32 [OF l(2), of "\<lambda>k. di_addrs x ! k", folded put_dinode_def]
  show "length (put_dinode off x d) = length d" using F l(1) by simp
  have h: "get16 ?d off = di_type x" "get16 ?d (off + 2) = di_major x" "get16 ?d (off + 4) = di_minor x"
    "get16 ?d (off + 6) = di_nlink x" "get32 ?d (off + 8) = di_size x"
    using assms(1) by (simp_all add: get16_def get32_def bslice_put_other DINODE_SIZE_def)
      (simp_all add: get16_def [symmetric] get32_def [symmetric])
  have "\<forall>k < length (di_addrs x). get32 (put_dinode off x d) (off + 12 + 4 * k) = di_addrs x ! k"
    using F assms(2) by simp
  then have "map (\<lambda>k. get32 (put_dinode off x d) (off + 12 + 4 * k)) [0..<length (di_addrs x)] = di_addrs x"
    by (intro nth_equalityI) simp_all
  with h F assms(2) show "get_dinode (put_dinode off x d) off = x"
    by (simp add: get_dinode_def get16_def get32_def)
  show "bslice (put_dinode off x d) o' n = bslice d o' n" if "o' + n \<le> off \<or> off + DINODE_SIZE \<le> o'"
  proof -
    have "bslice (put_dinode off x d) o' n = bslice ?d o' n"
      using F that by (auto simp: DINODE_SIZE_def NDIRECT_def)
    also have "\<dots> = bslice d o' n"
      using that assms(1) by (subst bslice_put_other; auto simp: DINODE_SIZE_def)+
    finally show ?thesis .
  qed
qed

section \<open>Bitmap\<close>

lemma bit_bm_mask: "bit (bm_mask bi) n \<longleftrightarrow> n = bi mod 8"
  using mod_less_divisor [of 8 bi] by (auto simp: bm_mask_def bit_simps)

lemma bm_test_bit: "bm_test d bi \<longleftrightarrow> bit (d ! (bi div 8)) (bi mod 8)"
proof
  assume "bm_test d bi"
  then obtain n where "bit (d ! (bi div 8) AND bm_mask bi) n"
    unfolding bm_test_def by (metis bit_0_eq bot_apply bot_bool_def bit_eq_iff)
  then show "bit (d ! (bi div 8)) (bi mod 8)" by (auto simp: bit_simps bit_bm_mask)
next
  assume "bit (d ! (bi div 8)) (bi mod 8)"
  then have "bit (d ! (bi div 8) AND bm_mask bi) (bi mod 8)" by (simp add: bit_simps bit_bm_mask)
  then show "bm_test d bi" unfolding bm_test_def by auto
qed

lemma bm_upd_other:
  assumes "bi < 8 * length d" "bi \<noteq> bj"
  shows "bm_test (bm_set bi d) bj = bm_test d bj" "bm_test (bm_clear bi d) bj = bm_test d bj"
proof -
  have "bi div 8 \<noteq> bj div 8 \<or> bi mod 8 \<noteq> bj mod 8" using assms(2) by (metis div_mult_mod_eq)
  moreover have "bi div 8 < length d" using assms(1) by auto
  ultimately show "bm_test (bm_set bi d) bj = bm_test d bj" "bm_test (bm_clear bi d) bj = bm_test d bj"
    by (auto simp: bm_test_bit bm_set_def bm_clear_def nth_list_update bit_simps bit_bm_mask)
qed

lemma bm_upd_same:
  assumes "bi < 8 * length d"
  shows "bm_test (bm_set bi d) bi" "\<not> bm_test (bm_clear bi d) bi"
proof -
  have "bi div 8 < length d" using assms by auto
  then show "bm_test (bm_set bi d) bi" "\<not> bm_test (bm_clear bi d) bi"
    by (auto simp: bm_test_bit bm_set_def bm_clear_def bit_simps bit_bm_mask)
qed

lemma length_bm [simp]: "length (bm_set bi d) = length d" "length (bm_clear bi d) = length d"
  by (simp_all add: bm_set_def bm_clear_def)

end
