(* ===== verification/Bio.thy ===== *)
theory Bio
  imports Ide Layout
begin

text \<open>
  The buffer cache (\<^verbatim>\<open>bio.c\<close>). The buffers \<^verbatim>\<open>bcache.buf[]\<close> have the indices below
  \<open>NBUF\<close>, the list head \<^verbatim>\<open>bcache.head\<close> the index \<open>NBUF\<close>; \<^verbatim>\<open>prev\<close> and
  \<^verbatim>\<open>next\<close> link all of them into a ring, most recently used first.

  Shown: the ring stays a ring over all buffers and \<^verbatim>\<open>brelse\<close> moves a buffer to its
  front; \<^verbatim>\<open>bget\<close> returns the cached buffer of a sector or recycles the least recently
  used idle one; and the cache implements a block store: what \<^verbatim>\<open>bread\<close> returns is the
  content of the sector, \<^verbatim>\<open>bwrite\<close> changes that sector and no other. The last is stated
  as the interface \<open>block_store\<close> that the file system relies on.
\<close>

section \<open>Operations\<close>

abbreviation HEAD :: nat where "HEAD \<equiv> NBUF"

definition set_next :: "nat \<Rightarrow> nat \<Rightarrow> (nat \<Rightarrow> buf) \<Rightarrow> nat \<Rightarrow> buf" where
  "set_next x y B = B(x := (B x)\<lparr>b_next := y\<rparr>)"

definition set_prev :: "nat \<Rightarrow> nat \<Rightarrow> (nat \<Rightarrow> buf) \<Rightarrow> nat \<Rightarrow> buf" where
  "set_prev x y B = B(x := (B x)\<lparr>b_prev := y\<rparr>)"

definition upd_bufs :: "((nat \<Rightarrow> buf) \<Rightarrow> nat \<Rightarrow> buf) \<Rightarrow> ('a idest_scheme, unit) kop" where
  "upd_bufs f = modify (\<lambda>s. s\<lparr>bufs := f (bufs s)\<rparr>)"

definition binit :: "('a idest_scheme, unit) kop" where
  "binit = seqs [
     initlock BcacheLock ''bcache'',
     upd_bufs (set_prev HEAD HEAD),
     upd_bufs (set_next HEAD HEAD),
     for_each [0..<NBUF] (\<lambda>b. seqs [
       upd_bufs (\<lambda>B. set_next b (b_next (B HEAD)) B),
       upd_bufs (set_prev b HEAD),
       modify (upd_buf b (\<lambda>x. x\<lparr>b_dev := - 1\<rparr>)),
       upd_bufs (\<lambda>B. set_prev (b_next (B HEAD)) b B),
       upd_bufs (set_next HEAD b)])]"

text \<open>The two scans of \<^verbatim>\<open>bget\<close>: from the front for the sector, from the back for an idle
  buffer. A scan of the ring ends after at most \<open>NBUF\<close> buffers.\<close>

definition bget_cached :: "u32 \<Rightarrow> u32 \<Rightarrow> ('a idest_scheme, nat option) kop" where
  "bget_cached dev sector =
    bnd (gets (\<lambda>s. b_next (bufs s HEAD))) (loop_fuel (NBUF + 1) (\<lambda>b.
      if b = HEAD then ret (Inr None)
      else bnd (gets (\<lambda>s. bufs s b)) (\<lambda>x.
      if b_dev x = dev \<and> b_sector x = sector then ret (Inr (Some b))
      else ret (Inl (b_next x)))))"

definition bget_idle :: "('a idest_scheme, nat option) kop" where
  "bget_idle =
    bnd (gets (\<lambda>s. b_prev (bufs s HEAD))) (loop_fuel (NBUF + 1) (\<lambda>b.
      if b = HEAD then ret (Inr None)
      else bnd (gets (\<lambda>s. bufs s b)) (\<lambda>x.
      if b_flags x AND B_BUSY = 0 then ret (Inr (Some b))
      else ret (Inl (b_prev x)))))"

text \<open>The label \<^verbatim>\<open>loop\<close> is reached again after every sleep; \<open>n\<close> is its fuel.\<close>

definition bget ::
  "nat \<Rightarrow> ('a idest_scheme, unit) kop \<Rightarrow> u32 \<Rightarrow> u32 \<Rightarrow> ('a idest_scheme, nat) kop" where
  "bget n env dev sector =
    thn (acquire BcacheLock) (
    loop_fuel n (\<lambda>_.
      bnd (bget_cached dev sector) (\<lambda>r.
      case r of
        Some b \<Rightarrow>
          bnd (gets (\<lambda>s. b_flags (bufs s b))) (\<lambda>fl.
          if fl AND B_BUSY = 0
          then thn (modify (upd_buf b (\<lambda>x. x\<lparr>b_flags := b_flags x OR B_BUSY\<rparr>))) (
               thn (release BcacheLock) (
               ret (Inr b)))
          else thn (sleep env (ChBuf b) (Some BcacheLock)) (ret (Inl ())))
      | None \<Rightarrow>
          bnd bget_idle (\<lambda>q.
          case q of
            Some b \<Rightarrow>
              thn (modify (upd_buf b (\<lambda>x. x\<lparr>b_dev := dev, b_sector := sector, b_flags := B_BUSY\<rparr>))) (
              thn (release BcacheLock) (
              ret (Inr b)))
          | None \<Rightarrow> panic ''bget: no buffers''))) ())"

definition bread ::
  "nat \<Rightarrow> ('a idest_scheme, unit) kop \<Rightarrow> u32 \<Rightarrow> u32 \<Rightarrow> ('a idest_scheme, nat) kop" where
  "bread n env dev sector =
    bnd (bget n env dev sector) (\<lambda>b.
    bnd (gets (\<lambda>s. b_flags (bufs s b))) (\<lambda>fl.
    thn (whenk (fl AND B_VALID = 0) (iderw n env b)) (
    ret b)))"

definition bwrite :: "nat \<Rightarrow> ('a idest_scheme, unit) kop \<Rightarrow> nat \<Rightarrow> ('a idest_scheme, unit) kop" where
  "bwrite n env b =
    bnd (gets (\<lambda>s. b_flags (bufs s b))) (\<lambda>fl.
    if fl AND B_BUSY = 0 then panic ''bwrite''
    else thn (modify (upd_buf b (\<lambda>x. x\<lparr>b_flags := b_flags x OR B_DIRTY\<rparr>))) (
    iderw n env b))"

definition brelse :: "nat \<Rightarrow> ('a idest_scheme, unit) kop" where
  "brelse b =
    bnd (gets (\<lambda>s. b_flags (bufs s b))) (\<lambda>fl.
    if fl AND B_BUSY = 0 then panic ''brelse''
    else seqs [
      acquire BcacheLock,
      upd_bufs (\<lambda>B. set_prev (b_next (B b)) (b_prev (B b)) B),
      upd_bufs (\<lambda>B. set_next (b_prev (B b)) (b_next (B b)) B),
      upd_bufs (\<lambda>B. set_next b (b_next (B HEAD)) B),
      upd_bufs (set_prev b HEAD),
      upd_bufs (\<lambda>B. set_prev (b_next (B HEAD)) b B),
      upd_bufs (set_next HEAD b),
      modify (upd_buf b (\<lambda>x. x\<lparr>b_flags := b_flags x AND NOT B_BUSY\<rparr>)),
      wakeup (ChBuf b),
      release BcacheLock])"

section \<open>The ring\<close>

text \<open>\<open>seg B p xs q\<close>: following \<^verbatim>\<open>next\<close> from \<open>p\<close> visits \<open>xs\<close> and reaches \<open>q\<close>, and
  \<^verbatim>\<open>prev\<close> leads back the same way.\<close>

fun seg :: "(nat \<Rightarrow> buf) \<Rightarrow> nat \<Rightarrow> nat list \<Rightarrow> nat \<Rightarrow> bool" where
  "seg B p [] q \<longleftrightarrow> b_next (B p) = q \<and> b_prev (B q) = p"
| "seg B p (x # xs) q \<longleftrightarrow> b_next (B p) = x \<and> b_prev (B x) = p \<and> seg B x xs q"

definition ring :: "(nat \<Rightarrow> buf) \<Rightarrow> nat list \<Rightarrow> bool" where
  "ring B xs \<longleftrightarrow> seg B HEAD xs HEAD \<and> distinct xs \<and> HEAD \<notin> set xs"

lemma seg_append: "seg B p (xs @ y # ys) q \<longleftrightarrow> seg B p xs y \<and> seg B y ys q"
  by (induction xs arbitrary: p) auto

lemma seg_cong:
  assumes "\<And>x. x \<in> set (p # xs) \<Longrightarrow> b_next (B' x) = b_next (B x)"
    and "\<And>x. x \<in> set (xs @ [q]) \<Longrightarrow> b_prev (B' x) = b_prev (B x)"
  shows "seg B' p xs q = seg B p xs q"
  using assms by (induction xs arbitrary: p) auto

lemma links_sel [simp]:
  "b_next (set_next x y B z) = (if z = x then y else b_next (B z))" "b_prev (set_next x y B z) = b_prev (B z)"
  "b_prev (set_prev x y B z) = (if z = x then y else b_prev (B z))" "b_next (set_prev x y B z) = b_next (B z)"
  by (simp_all add: set_next_def set_prev_def)

text \<open>Linking a new element in at the front.\<close>

definition link_front :: "nat \<Rightarrow> (nat \<Rightarrow> buf) \<Rightarrow> nat \<Rightarrow> buf" where
  "link_front b B = (let B1 = set_prev b HEAD (set_next b (b_next (B HEAD)) B)
     in set_next HEAD b (set_prev (b_next (B1 HEAD)) b B1))"

lemma ring_link_front:
  assumes "ring B xs" "b \<notin> set xs" "b \<noteq> HEAD"
  shows "ring (link_front b B) (b # xs)"
proof (cases xs)
  case Nil
  with assms show ?thesis by (simp add: ring_def link_front_def Let_def)
next
  case (Cons y ys)
  have r: "b_next (B HEAD) = y" "seg B y ys HEAD" "y \<notin> set ys" "HEAD \<notin> set (y # ys)" "b \<notin> set (y # ys)"
    using assms(1,2) by (simp_all add: ring_def Cons)
  have "seg (link_front b B) y ys HEAD = seg B y ys HEAD"
    by (rule seg_cong) (use r assms(3) in \<open>auto simp: link_front_def Let_def\<close>)
  moreover have "b_next (link_front b B HEAD) = b" "b_prev (link_front b B b) = HEAD"
    "b_next (link_front b B b) = y" "b_prev (link_front b B y) = b"
    using r assms(3) by (auto simp: link_front_def Let_def)
  ultimately show ?thesis using assms r by (simp add: ring_def Cons)
qed

text \<open>Taking an element out.\<close>

definition unlink :: "nat \<Rightarrow> (nat \<Rightarrow> buf) \<Rightarrow> nat \<Rightarrow> buf" where
  "unlink b B = (let B1 = set_prev (b_next (B b)) (b_prev (B b)) B
     in set_next (b_prev (B1 b)) (b_next (B1 b)) B1)"

lemma seg_ends:
  "seg B p xs q \<Longrightarrow> b_prev (B q) = last (p # xs)" "seg B p xs q \<Longrightarrow> b_next (B p) = hd (xs @ [q])"
  by (induction xs arbitrary: p) auto

lemma seg_redirect:
  assumes "seg B p us b" "distinct (p # us)"
    and "\<And>x. x \<in> set (p # us) \<Longrightarrow> b_next (B' x) = (if x = last (p # us) then n else b_next (B x))"
    and "\<And>x. x \<in> set us \<Longrightarrow> b_prev (B' x) = b_prev (B x)" "b_prev (B' n) = last (p # us)"
  shows "seg B' p us n"
  using assms
proof (induction us arbitrary: p)
  case (Cons u us)
  have "last (u # us) \<in> set (u # us)" by (rule last_in_set) simp
  moreover have "u \<noteq> p" "p \<notin> set us" using Cons.prems(2) by auto
  ultimately have ne: "p \<noteq> last (p # u # us)" by auto
  have "seg B' u us n"
    by (rule Cons.IH) (use Cons.prems in auto)
  moreover have "b_next (B' p) = u" using Cons.prems(1,3) ne by auto
  moreover have "b_prev (B' u) = p" using Cons.prems(1,4) by auto
  ultimately show ?case by simp
qed simp

lemma ring_unlink:
  assumes r: "ring B (us @ b # vs)"
  shows "ring (unlink b B) (us @ vs)"
proof -
  have s: "seg B HEAD us b" "seg B b vs HEAD" and d: "distinct (us @ b # vs)" "HEAD \<notin> set (us @ b # vs)"
    using r by (simp_all add: ring_def seg_append)
  let ?p = "last (HEAD # us)" and ?n = "hd (vs @ [HEAD])"
  have pn: "b_prev (B b) = ?p" "b_next (B b) = ?n" using seg_ends s by blast+
  have "?p \<in> set (HEAD # us)" by (rule last_in_set) simp
  moreover have "?n \<in> set (vs @ [HEAD])" by (rule hd_in_set) simp
  ultimately have pb: "?p \<noteq> b" "?n \<noteq> b" "?p \<notin> set vs" "?n \<notin> set us" using d by auto
  have u: "b_next (unlink b B x) = (if x = ?p then ?n else b_next (B x))"
    "b_prev (unlink b B x) = (if x = ?n then ?p else b_prev (B x))" for x
    using pb by (auto simp: unlink_def Let_def pn)
  have l: "seg (unlink b B) HEAD us ?n"
    by (rule seg_redirect [OF s(1)]) (use d pb in \<open>auto simp: u\<close>)
  have "seg (unlink b B) HEAD (us @ vs) HEAD"
  proof (cases vs)
    case (Cons v ws)
    have "seg (unlink b B) v ws HEAD = seg B v ws HEAD"
      by (rule seg_cong) (use d pb Cons in \<open>auto simp: u\<close>)
    with l s(2) Cons show ?thesis by (simp add: seg_append)
  qed (use l in simp)
  with d show ?thesis by (simp add: ring_def)
qed

section \<open>Flags\<close>

lemma flag_bits [simp]:
  "bit B_BUSY n \<longleftrightarrow> n = 0" "bit B_VALID n \<longleftrightarrow> n = 1" "bit B_DIRTY n \<longleftrightarrow> n = 2"
proof -
  have e: "B_BUSY = 2 ^ 0" "B_VALID = 2 ^ 1" "B_DIRTY = 2 ^ 2"
    by (simp_all add: B_BUSY_def B_VALID_def B_DIRTY_def)
  show "bit B_BUSY n \<longleftrightarrow> n = 0" unfolding e(1) bit_exp_iff by auto
  show "bit B_VALID n \<longleftrightarrow> n = 1" unfolding e(2) bit_exp_iff by auto
  show "bit B_DIRTY n \<longleftrightarrow> n = 2" unfolding e(3) bit_exp_iff by auto
qed

lemma and_single_bit:
  assumes "\<And>n. bit (m :: u32) n \<longleftrightarrow> n = k" "k < 32"
  shows "f AND m = 0 \<longleftrightarrow> \<not> bit f k"
proof
  assume "f AND m = 0"
  then have "\<not> bit (f AND m) k" by simp
  with assms show "\<not> bit f k" by (simp add: bit_and_iff)
next
  assume "\<not> bit f k"
  then show "f AND m = 0" by (intro bit_word_eqI) (auto simp: bit_and_iff assms(1))
qed

definition busy :: "buf \<Rightarrow> bool" where "busy x = bit (b_flags x) 0"
definition valid :: "buf \<Rightarrow> bool" where "valid x = bit (b_flags x) 1"
definition dirty :: "buf \<Rightarrow> bool" where "dirty x = bit (b_flags x) 2"

lemmas buf_flag_defs = busy_def valid_def dirty_def

lemma flag_tests [simp]:
  "b_flags x AND B_BUSY = 0 \<longleftrightarrow> \<not> busy x" "b_flags x AND B_VALID = 0 \<longleftrightarrow> \<not> valid x"
  "b_flags x AND B_DIRTY = 0 \<longleftrightarrow> \<not> dirty x"
  unfolding buf_flag_defs by (rule and_single_bit; simp)+

lemma flag_valid_clean [simp]: "b_flags x AND (B_VALID OR B_DIRTY) = B_VALID \<longleftrightarrow> valid x \<and> \<not> dirty x"
  unfolding buf_flag_defs
proof
  assume "b_flags x AND (B_VALID OR B_DIRTY) = B_VALID"
  then have "bit (b_flags x AND (B_VALID OR B_DIRTY)) n = bit B_VALID n" for n by simp
  from this [of 1] this [of 2] show "bit (b_flags x) 1 \<and> \<not> bit (b_flags x) 2" by (simp add: bit_simps)
next
  assume f: "bit (b_flags x) 1 \<and> \<not> bit (b_flags x) 2"
  show "b_flags x AND (B_VALID OR B_DIRTY) = B_VALID"
  proof (rule bit_word_eqI)
    fix n assume "n < LENGTH(32)"
    show "bit (b_flags x AND (B_VALID OR B_DIRTY)) n = bit B_VALID n"
      by (cases "n = 1"; cases "n = 2") (use f in \<open>auto simp: bit_and_iff bit_or_iff\<close>)
  qed
qed

lemma flag_updates [simp]:
  "busy (x\<lparr>b_flags := f OR B_BUSY\<rparr>)" "valid (x\<lparr>b_flags := b_flags y OR B_BUSY\<rparr>) = valid y"
  "dirty (x\<lparr>b_flags := b_flags y OR B_BUSY\<rparr>) = dirty y"
  "busy (x\<lparr>b_flags := B_BUSY\<rparr>)" "\<not> valid (x\<lparr>b_flags := B_BUSY\<rparr>)" "\<not> dirty (x\<lparr>b_flags := B_BUSY\<rparr>)"
  "busy (x\<lparr>b_flags := b_flags y OR B_DIRTY\<rparr>) = busy y" "valid (x\<lparr>b_flags := b_flags y OR B_DIRTY\<rparr>) = valid y"
  "dirty (x\<lparr>b_flags := f OR B_DIRTY\<rparr>)"
  "\<not> busy (x\<lparr>b_flags := f AND NOT B_BUSY\<rparr>)" "valid (x\<lparr>b_flags := b_flags y AND NOT B_BUSY\<rparr>) = valid y"
  "dirty (x\<lparr>b_flags := b_flags y AND NOT B_BUSY\<rparr>) = dirty y"
  by (simp_all add: buf_flag_defs bit_simps)

lemma flag_frame [simp]:
  "busy (x\<lparr>b_next := n\<rparr>) = busy x" "valid (x\<lparr>b_next := n\<rparr>) = valid x" "dirty (x\<lparr>b_next := n\<rparr>) = dirty x"
  "busy (x\<lparr>b_prev := n\<rparr>) = busy x" "valid (x\<lparr>b_prev := n\<rparr>) = valid x" "dirty (x\<lparr>b_prev := n\<rparr>) = dirty x"
  "busy (x\<lparr>b_data := d\<rparr>) = busy x" "valid (x\<lparr>b_data := d\<rparr>) = valid x" "dirty (x\<lparr>b_data := d\<rparr>) = dirty x"
  by (simp_all add: buf_flag_defs)

lemma served_bits [simp]:
  "busy (served D x) = busy x" "valid (served D x)" "\<not> dirty (served D x)"
  by (simp_all add: served_def buf_flag_defs bit_simps)

lemma served_data: "b_data (served D x) = (if dirty x then b_data x else D (sector_of x))"
  by (simp add: served_def)

section \<open>The invariant\<close>

definition bkey :: "buf \<Rightarrow> u32 \<times> u32" where
  "bkey x = (b_dev x, b_sector x)"

text \<open>The sectors the driver can address: disk 0, or disk 1 when present, and 28 bits.\<close>

definition key_ok :: "bool \<Rightarrow> u32 \<times> u32 \<Rightarrow> bool" where
  "key_ok d1 k \<longleftrightarrow> (fst k = 0 \<or> fst k = 1 \<and> d1) \<and> snd k AND 0x0fffffff = snd k"

lemma key_ok_sector: "key_ok d1 (bkey x) \<Longrightarrow> sector_of x = bkey x"
  by (auto simp: key_ok_def bkey_def sector_of_def)

text \<open>\<open>H\<close> is the set of the buffers that are held. No sector is cached twice; an idle valid
  buffer agrees with its sector; no buffer is dirty outside a disk request.\<close>

definition binv :: "nat set \<Rightarrow> bool \<Rightarrow> (nat \<Rightarrow> buf) \<Rightarrow> (u32 \<times> u32 \<Rightarrow> u8 list) \<Rightarrow> bool" where
  "binv H d1 B D \<longleftrightarrow> (\<exists>xs. ring B xs \<and> set xs = {..<NBUF}) \<and> (\<forall>k. length (D k) = BSIZE) \<and> H \<subseteq> {..<NBUF}
     \<and> (\<forall>b < NBUF. busy (B b) = (b \<in> H)) \<and> (\<forall>b < NBUF. \<not> dirty (B b))
     \<and> (\<forall>b < NBUF. valid (B b) \<longrightarrow> key_ok d1 (bkey (B b)) \<and> (b \<notin> H \<longrightarrow> b_data (B b) = D (bkey (B b))))
     \<and> (\<forall>b \<in> H. valid (B b) \<and> length (b_data (B b)) = BSIZE)
     \<and> (\<forall>b < NBUF. \<forall>c < NBUF. b \<noteq> c \<longrightarrow> key_ok d1 (bkey (B b)) \<longrightarrow> bkey (B b) \<noteq> bkey (B c))"

definition bcache_ok :: "nat set \<Rightarrow> nat \<Rightarrow> 'a idest_scheme \<Rightarrow> bool" where
  "bcache_ok H i s \<longleftrightarrow> proc_ctx i s \<and> ide_ready s \<and> idequeue s = None \<and> binv H (havedisk1 s) (bufs s) (disk s)"

lemma noq_fields:
  assumes "noq B = noq B'"
  shows "busy (B x) = busy (B' x)" "valid (B x) = valid (B' x)" "dirty (B x) = dirty (B' x)" "bkey (B x) = bkey (B' x)" "b_data (B x) = b_data (B' x)"
    "b_next (B x) = b_next (B' x)" "b_prev (B x) = b_prev (B' x)"
  using fun_cong [OF assms, of x] by (cases "B x"; cases "B' x"; simp add: noq_def bkey_def buf_flag_defs)+

lemma ring_cong:
  assumes "\<And>x. b_next (B x) = b_next (B' x)" "\<And>x. b_prev (B x) = b_prev (B' x)"
  shows "ring B xs = ring B' xs"
  unfolding ring_def using seg_cong [of HEAD xs B B' HEAD] assms by simp

lemma binv_noq: "noq B = noq B' \<Longrightarrow> binv H d1 B D = binv H d1 B' D"
  using noq_fields [of B B'] ring_cong [of B B'] unfolding binv_def by simp

section \<open>Scans\<close>

lemma wp_bget_cached_seg:
  assumes "seg (bufs s) p xs HEAD" "HEAD \<notin> set xs" "length xs < n"
  shows "wp (loop_fuel n (\<lambda>b.
      if b = HEAD then ret (Inr None)
      else bnd (gets (\<lambda>s. bufs s b)) (\<lambda>x.
      if b_dev x = dev \<and> b_sector x = sector then ret (Inr (Some b))
      else ret (Inl (b_next x)))) (b_next (bufs s p))) Q s
    = Q (find (\<lambda>b. bkey (bufs s b) = (dev, sector)) xs) s"
  using assms
proof (induction xs arbitrary: p n)
  case Nil
  then show ?case by (cases n) (simp_all add: wp_loop_fuel_Suc wp)
next
  case (Cons x xs)
  then obtain m where "n = Suc m" "length xs < m" by (cases n) auto
  with Cons show ?case by (auto simp: wp_loop_fuel_Suc wp bkey_def)
qed

lemma wp_bget_idle_seg:
  assumes "seg (bufs s) HEAD xs p" "HEAD \<notin> set xs" "length xs < n"
  shows "wp (loop_fuel n (\<lambda>b.
      if b = HEAD then ret (Inr None)
      else bnd (gets (\<lambda>s. bufs s b)) (\<lambda>x.
      if b_flags x AND B_BUSY = 0 then ret (Inr (Some b))
      else ret (Inl (b_prev x)))) (b_prev (bufs s p))) Q s
    = Q (find (\<lambda>b. \<not> busy (bufs s b)) (rev xs)) s"
  using assms
proof (induction xs arbitrary: p n rule: rev_induct)
  case Nil
  then show ?case by (cases n) (simp_all add: wp_loop_fuel_Suc wp)
next
  case (snoc x xs)
  then obtain m where "n = Suc m" "length xs < m" by (cases n) auto
  with snoc show ?case by (auto simp: wp_loop_fuel_Suc wp seg_append)
qed

lemma ring_length: "distinct xs \<Longrightarrow> set xs = {..<NBUF} \<Longrightarrow> length xs = NBUF"
  using distinct_card [of xs] by simp

lemma wp_bget_cached:
  assumes "ring (bufs s) xs" "set xs = {..<NBUF}"
  shows "wp (bget_cached dev sector) Q s = Q (find (\<lambda>b. bkey (bufs s b) = (dev, sector)) xs) s"
  using wp_bget_cached_seg [of s HEAD xs "NBUF + 1"] assms ring_length [of xs]
  by (simp add: bget_cached_def wp_gets_bnd ring_def)

lemma wp_bget_idle:
  assumes "ring (bufs s) xs" "set xs = {..<NBUF}"
  shows "wp bget_idle Q s = Q (find (\<lambda>b. \<not> busy (bufs s b)) (rev xs)) s"
  using wp_bget_idle_seg [of s xs HEAD "NBUF + 1"] assms ring_length [of xs]
  by (simp add: bget_idle_def wp_gets_bnd ring_def)

section \<open>The operations keep the invariant\<close>

lemma proc_ctx_lock [simp]: "proc_ctx i s \<Longrightarrow> lock_free lk s" "proc_ctx i s \<Longrightarrow> cli_ok s"
  by (simp_all add: proc_ctx_def cli_ok_def)

lemma proc_ctx_calm:
  assumes "proc_ctx i s" "calm s t" "p_state (ptab t i) = RUNNING" "p_pgdir (ptab t i) = p_pgdir (ptab s i)"
  shows "proc_ctx i t"
  using assms(1,3,4) calm_cpu [OF assms(2)] calm_locks [OF assms(2)] by (simp add: proc_ctx_def)

lemma proc_ctx_lockround: "proc_ctx i s \<Longrightarrow> proc_ctx i (lockround lk s)"
  by (rule proc_ctx_calm [OF _ lockround_calm]) (simp_all, simp_all add: proc_ctx_def)

lemma proc_ctx_upd [simp]:
  "proc_ctx i (upd_buf b f s) = proc_ctx i s" "proc_ctx i (s\<lparr>bufs := B\<rparr>) = proc_ctx i s"
  "proc_ctx i (s\<lparr>disk := D\<rparr>) = proc_ctx i s"
  by (simp_all add: proc_ctx_def)

text \<open>\<^verbatim>\<open>bget\<close> when nobody else holds the sector: the cached buffer, or the least recently
  used idle one.\<close>

lemma wp_bget:
  assumes "ring (bufs s) xs" "set xs = {..<NBUF}" "lock_free BcacheLock s" "cli_ok s"
    and "\<And>b. b < NBUF \<Longrightarrow> bkey (bufs s b) = (dev, sector) \<Longrightarrow> \<not> busy (bufs s b)"
  shows "wp (bget (Suc n) env dev sector) Q s =
    (case find (\<lambda>b. bkey (bufs s b) = (dev, sector)) xs of
       Some b \<Rightarrow> Q b (upd_buf b (\<lambda>x. x\<lparr>b_flags := b_flags x OR B_BUSY\<rparr>) (lockround BcacheLock s))
     | None \<Rightarrow> (case find (\<lambda>b. \<not> busy (bufs s b)) (rev xs) of
         Some b \<Rightarrow> Q b (upd_buf b (\<lambda>x. x\<lparr>b_dev := dev, b_sector := sector, b_flags := B_BUSY\<rparr>)
           (lockround BcacheLock s))
       | None \<Rightarrow> False))"
proof -
  have idle: "\<not> busy (bufs s b)" if "find (\<lambda>b. bkey (bufs s b) = (dev, sector)) xs = Some b" for b
  proof -
    have "b \<in> set xs" "bkey (bufs s b) = (dev, sector)" using that by (auto simp: find_Some_iff)
    with assms(2,5) show ?thesis by auto
  qed
  have calm: "wp (release BcacheLock) Q' (upd_buf b f (acq BcacheLock s)) = Q' () (upd_buf b f (lockround BcacheLock s))"
    for b f Q' using wp_release_calm [of BcacheLock s "upd_buf b f (acq BcacheLock s)" Q'] assms(4)
    by (simp add: calm_refl lockround_def)
  show ?thesis unfolding bget_def wp_acquire_thn [OF assms(3)] wp_loop_fuel_Suc
    using idle by (auto simp: wp wp_bget_cached [OF _ assms(2)] wp_bget_idle [OF _ assms(2)] assms(1) calm
        split: option.split)
qed

lemma binv_len: "binv H d1 B D \<Longrightarrow> length (D k) = BSIZE"
  unfolding binv_def by (elim conjE allE)

text \<open>A buffer that has just been filled from its sector.\<close>

lemma binv_fill:
  assumes "binv H d1 B D" "b < NBUF" "b \<notin> H" "key_ok d1 (bkey y)" "busy y" "\<not> dirty y"
    and "b_next y = b_next (B b)" "b_prev y = b_prev (B b)"
    and "\<And>c. c < NBUF \<Longrightarrow> c \<noteq> b \<Longrightarrow> bkey (B c) \<noteq> bkey y"
  shows "binv (insert b H) d1 (B(b := served D y)) D"
proof -
  have f: "bkey (served D y) = bkey y" "b_next (served D y) = b_next (B b)" "b_prev (served D y) = b_prev (B b)"
    using assms(7,8) by (simp_all add: served_def bkey_def)
  have d: "b_data (served D y) = D (bkey y)" using assms(6) key_ok_sector [OF assms(4)] by (simp add: served_def)
  have "ring (B(b := served D y)) xs = ring B xs" for xs by (rule ring_cong) (simp_all add: f)
  moreover have "bkey y \<noteq> bkey (B c)" if "c < NBUF" "c \<noteq> b" for c using assms(9) [OF that] by simp
  ultimately show ?thesis using assms unfolding binv_def by (auto simp: f d binv_len [OF assms(1)])
qed

lemma binv_hold:
  assumes "binv H d1 B D" "b < NBUF" "b \<notin> H" "valid (B b)"
  shows "binv (insert b H) d1 (B(b := (B b)\<lparr>b_flags := b_flags (B b) OR B_BUSY\<rparr>)) D"
proof -
  let ?y = "(B b)\<lparr>b_flags := b_flags (B b) OR B_BUSY\<rparr>"
  have f: "bkey ?y = bkey (B b)" "valid ?y" "busy ?y" "dirty ?y = dirty (B b)"
    using assms(4) by (simp_all add: bkey_def)
  have "ring (B(b := ?y)) xs = ring B xs" for xs by (rule ring_cong) simp_all
  then show ?thesis using assms unfolding binv_def by (auto simp: f binv_len [OF assms(1)])
qed

lemma binv_write:
  assumes "binv H d1 B D" "b \<in> H" "y = (B b)\<lparr>b_flags := b_flags (B b) OR B_DIRTY\<rparr>"
  shows "binv H d1 (B(b := served D y)) (served_disk D y)" "served_disk D y = D(bkey (B b) := b_data (B b))"
proof -
  have b: "b < NBUF" "valid (B b)" "key_ok d1 (bkey (B b))" "length (b_data (B b)) = BSIZE" "busy (B b)"
    using assms(1,2) unfolding binv_def by auto
  have y: "bkey y = bkey (B b)" "dirty y" "b_data y = b_data (B b)" "busy y"
    using assms(3) b(5) by (simp_all add: bkey_def)
  have s: "sector_of y = bkey (B b)" using key_ok_sector [of d1 y] b(3) y(1) by simp
  show D: "served_disk D y = D(bkey (B b) := b_data (B b))" using y s by (simp add: served_disk_def)
  have f: "bkey (served D y) = bkey (B b)" "b_data (served D y) = b_data (B b)"
    using y(1-3) by (simp_all add: served_def bkey_def)
  have g: "b_next (served D y) = b_next (B b)" "b_prev (served D y) = b_prev (B b)"
    using assms(3) by (simp_all add: served_def)
  have "ring (B(b := served D y)) xs = ring B xs" for xs by (rule ring_cong) (simp_all add: g)
  then show "binv H d1 (B(b := served D y)) (served_disk D y)"
    using assms(1,2) b y unfolding binv_def D by (auto simp: f)
qed

text \<open>A released buffer moves to the front of the ring.\<close>

lemma links_frame [simp]:
  "busy (set_next x y B z) = busy (B z)" "valid (set_next x y B z) = valid (B z)" "dirty (set_next x y B z) = dirty (B z)"
  "bkey (set_next x y B z) = bkey (B z)" "b_data (set_next x y B z) = b_data (B z)" "b_flags (set_next x y B z) = b_flags (B z)"
  "busy (set_prev x y B z) = busy (B z)" "valid (set_prev x y B z) = valid (B z)" "dirty (set_prev x y B z) = dirty (B z)"
  "bkey (set_prev x y B z) = bkey (B z)" "b_data (set_prev x y B z) = b_data (B z)" "b_flags (set_prev x y B z) = b_flags (B z)"
  by (simp_all add: set_next_def set_prev_def bkey_def)

definition to_front :: "nat \<Rightarrow> (nat \<Rightarrow> buf) \<Rightarrow> nat \<Rightarrow> buf" where
  "to_front b B = (let C = link_front b (unlink b B) in C(b := (C b)\<lparr>b_flags := b_flags (C b) AND NOT B_BUSY\<rparr>))"

lemma to_front_sel:
  "busy (to_front b B x) = (x \<noteq> b \<and> busy (B x))" "valid (to_front b B x) = valid (B x)"
  "dirty (to_front b B x) = dirty (B x)" "bkey (to_front b B x) = bkey (B x)" "b_data (to_front b B x) = b_data (B x)"
  by (simp_all add: to_front_def link_front_def unlink_def Let_def bkey_def [of "_\<lparr>b_flags := _\<rparr>"] bkey_def [symmetric])

lemma ring_to_front:
  assumes "ring B xs" "b \<in> set xs"
  shows "ring (to_front b B) (b # remove1 b xs)"
proof -
  obtain us vs where xs: "xs = us @ b # vs" "b \<notin> set us" using split_list_first [OF assms(2)] by auto
  have "ring (unlink b B) (us @ vs)" by (rule ring_unlink) (use assms(1) xs in simp)
  moreover have "b \<notin> set (us @ vs)" "b \<noteq> HEAD" using assms(1) xs by (auto simp: ring_def)
  ultimately have "ring (link_front b (unlink b B)) (b # us @ vs)" by (rule ring_link_front)
  moreover have "ring (to_front b B) ys = ring (link_front b (unlink b B)) ys" for ys
    by (rule ring_cong) (simp_all add: to_front_def Let_def)
  ultimately show ?thesis using xs by (simp add: remove1_append)
qed

lemma binv_release:
  assumes "binv H d1 B D" "b \<in> H" "b_data (B b) = D (bkey (B b))"
  shows "binv (H - {b}) d1 (to_front b B) D"
proof -
  from assms(1) obtain xs where xs: "ring B xs" "set xs = {..<NBUF}" by (auto simp: binv_def)
  have b: "b < NBUF" using assms(1,2) by (auto simp: binv_def)
  then have "ring (to_front b B) (b # remove1 b xs)" by (intro ring_to_front) (use xs in auto)
  moreover have "set (b # remove1 b xs) = {..<NBUF}"
    using xs b by (auto simp: ring_def set_remove1_eq)
  ultimately have "\<exists>xs. ring (to_front b B) xs \<and> set xs = {..<NBUF}" by blast
  then show ?thesis using assms unfolding binv_def by (auto simp: to_front_sel)
qed

section \<open>The cache as a block store\<close>

definition held :: "'a idest_scheme \<Rightarrow> nat \<Rightarrow> (u32 \<times> u32) \<times> u8 list" where
  "held s b = (bkey (bufs s b), b_data (bufs s b))"

text \<open>What an operation may change besides the disk: the processor state, the driver, buffers
  that are not held.\<close>

definition bstep :: "nat \<Rightarrow> nat set \<Rightarrow> 'a idest_scheme \<Rightarrow> 'a idest_scheme \<Rightarrow> bool" where
  "bstep i H s t \<longleftrightarrow> only_ide s t \<and> procs_kept i s t \<and> (\<forall>c \<in> H. held t c = held s c)"

lemma bstep_trans: "bstep i H s t \<Longrightarrow> bstep i H t u \<Longrightarrow> bstep i H s u"
  using only_ide_trans [of s t u] procs_kept_trans [of i s t u] by (simp add: bstep_def)

lemma bstep_mono: "bstep i H s t \<Longrightarrow> G \<subseteq> H \<Longrightarrow> bstep i G s t"
  by (auto simp: bstep_def)

lemma wp_iderw_one:
  assumes "proc_ctx i s" "ide_ready s" "idequeue s = None" "busy (bufs s b)"
    and "\<not> (valid (bufs s b) \<and> \<not> dirty (bufs s b))" "key_ok (havedisk1 s) (bkey (bufs s b))"
  shows "wp (iderw (Suc (Suc n)) (ide_env NBUF ts) b) (\<lambda>_ t. proc_ctx i t \<and> ide_ready t \<and> idequeue t = None
    \<and> disk t = served_disk (disk s) (bufs s b) \<and> noq (bufs t) = noq ((bufs s)(b := served (disk s) (bufs s b)))
    \<and> only_ide s t \<and> procs_kept i s t) s"
proof (rule wp_mono [OF wp_iderw [where qs = "[]" and i = i]], goal_cases)
  case (9 a t)
  have "noq (bufs s) b = (bufs s b)\<lparr>b_qnext := None\<rparr>" by (simp add: noq_def)
  with 9 have "disk t = served_disk (disk s) (bufs s b)"
    "noq (bufs t) = (noq (bufs s))(b := (served (disk s) (bufs s b))\<lparr>b_qnext := None\<rparr>)"
    by (simp_all add: served_noq)
  with 9 show ?case by (simp add: noq_upd)
qed (use assms in \<open>auto simp: ide_queue_def key_ok_def bkey_def NBUF_def\<close>)

lemma bcache_okD:
  assumes "bcache_ok H i s"
  shows "proc_ctx i s" "ide_ready s" "idequeue s = None" "binv H (havedisk1 s) (bufs s) (disk s)"
  using assms by (simp_all add: bcache_ok_def)

lemma wp_bwrite:
  assumes "bcache_ok H i s" "b \<in> H"
  shows "wp (bwrite (Suc (Suc n)) (ide_env NBUF ts) b) (\<lambda>_ t. bcache_ok H i t \<and> bstep i H s t
    \<and> disk t = (disk s)(bkey (bufs s b) := b_data (bufs s b))) s"
proof -
  let ?y = "(bufs s b)\<lparr>b_flags := b_flags (bufs s b) OR B_DIRTY\<rparr>"
  let ?s1 = "upd_buf b (\<lambda>x. x\<lparr>b_flags := b_flags x OR B_DIRTY\<rparr>) s"
  have I: "binv H (havedisk1 s) (bufs s) (disk s)" using assms(1) by (rule bcache_okD)
  have b: "busy (bufs s b)" "key_ok (havedisk1 s) (bkey (bufs s b))"
    using I assms(2) by (auto simp: binv_def)
  have k: "bkey ?y = bkey (bufs s b)" by (simp add: bkey_def)
  have "wp (iderw (Suc (Suc n)) (ide_env NBUF ts) b) (\<lambda>_ t. bcache_ok H i t \<and> bstep i H s t
    \<and> disk t = (disk s)(bkey (bufs s b) := b_data (bufs s b))) ?s1"
  proof (rule wp_mono [OF wp_iderw_one [where i = i]], goal_cases)
    case (7 a t)
    then have t: "noq (bufs t) = noq ((bufs s)(b := served (disk s) ?y))" "disk t = served_disk (disk s) ?y"
      by (simp_all add: upd_buf_def)
    have o: "only_ide s t" by (rule only_ide_trans [of s ?s1]) (use 7 in \<open>auto simp: only_ide_refl\<close>)
    have pk: "procs_kept i s t" using 7 by (simp add: procs_kept_def)
    have "held t c = held s c" if "c \<in> H" for c
      unfolding held_def noq_fields [OF t(1)] by (simp add: served_data) (simp add: served_def bkey_def)
    with o pk have "bstep i H s t" by (simp add: bstep_def)
    moreover have "binv H (havedisk1 t) (bufs t) (disk t)"
      using binv_write(1) [OF I assms(2) refl] only_ide_sel(4) [OF o] unfolding binv_noq [OF t(1)] t(2) by simp
    ultimately show ?case using 7 binv_write(2) [OF I assms(2) refl] t(2) by (simp add: bcache_ok_def)
  qed (use bcache_okD [OF assms(1)] b k in simp_all)
  with b show ?thesis by (simp add: bwrite_def wp)
qed

lemma wp_relink:
  "wp (seqs (upd_bufs (\<lambda>B. set_prev (b_next (B b)) (b_prev (B b)) B) #
      upd_bufs (\<lambda>B. set_next (b_prev (B b)) (b_next (B b)) B) #
      upd_bufs (\<lambda>B. set_next b (b_next (B HEAD)) B) #
      upd_bufs (set_prev b HEAD) #
      upd_bufs (\<lambda>B. set_prev (b_next (B HEAD)) b B) #
      upd_bufs (set_next HEAD b) # ms)) Q
    = (\<lambda>s. wp (seqs ms) Q (s\<lparr>bufs := link_front b (unlink b (bufs s))\<rparr>))"
  by (simp add: wp upd_bufs_def unlink_def link_front_def Let_def del: links_sel)

lemma wp_brelse:
  assumes "bcache_ok H i s" "b \<in> H" "held s b = (k, disk s k)"
  shows "wp (brelse b) (\<lambda>_ t. bcache_ok (H - {b}) i t \<and> bstep i (H - {b}) s t \<and> disk t = disk s) s"
proof -
  have ctx: "proc_ctx i s" and I: "binv H (havedisk1 s) (bufs s) (disk s)" using bcache_okD [OF assms(1)] by simp_all
  have f: "lock_free lk s" "cli_ok s" for lk using ctx by simp_all
  let ?a = "acq BcacheLock s"
  let ?t = "(lockround PtableLock ?a)\<lparr>bufs := to_front b (bufs s), ptab := wake_tab (ChBuf b) (ptab s)\<rparr>"
  let ?u = "rel BcacheLock ?t"
  have ca: "calm ?a ?t" using lockround_calm [of PtableLock ?a] f acq_cli_ok [of s BcacheLock] by simp
  have c: "calm s ?u" by (rule calm_section [OF ca f])
  have i: "ptab ?u i = ptab s i" using ctx by (simp add: wake_tab_def woken_def proc_ctx_def)
  have pk: "procs_kept i s ?u" unfolding procs_kept_def i using wake_tab_cases [of "ChBuf b" "ptab s"] by simp
  have "proc_ctx i ?u" by (rule proc_ctx_calm [OF ctx c]) (use ctx in \<open>simp_all only: i proc_ctx_def\<close>)
  moreover have "binv (H - {b}) (havedisk1 s) (to_front b (bufs s)) (disk s)"
    by (rule binv_release [OF I assms(2)]) (use assms(3) in \<open>auto simp: held_def\<close>)
  moreover have "bstep i (H - {b}) s ?u"
    using pk by (simp add: bstep_def only_ide_refl held_def to_front_sel)
  ultimately have post: "bcache_ok (H - {b}) i ?u \<and> bstep i (H - {b}) s ?u \<and> disk ?u = disk s"
    using bcache_okD [OF assms(1)] by (simp add: bcache_ok_def)
  have eq: "upd_buf b (\<lambda>x. x\<lparr>b_flags := b_flags x AND NOT B_BUSY\<rparr>) (r\<lparr>bufs := link_front b (unlink b (bufs s))\<rparr>)
      = r\<lparr>bufs := to_front b (bufs s)\<rparr>" for r :: "'a idest_scheme"
    by (simp add: upd_buf_def to_front_def Let_def)
  have "busy (bufs s b)" using I assms(2) by (auto simp: binv_def)
  then show ?thesis
    using post wp_release_calm [OF ca f(2)] f acq_cli_ok [of s BcacheLock]
    by (simp add: brelse_def wp_bnd wp_gets wp_seqs_Cons [of "acquire _"] wp_relink)
      (simp add: wp wp_acquire wp_wakeup eq)
qed

lemma wp_bread_fill:
  assumes "bcache_ok H i s" "b < NBUF" "b \<notin> H" "key_ok (havedisk1 s) (bkey y)" "busy y" "\<not> dirty y"
    and "b_next y = b_next (bufs s b)" "b_prev y = b_prev (bufs s b)"
    and others: "\<And>c. c < NBUF \<Longrightarrow> c \<noteq> b \<Longrightarrow> bkey (bufs s c) \<noteq> bkey y"
    and valid: "valid y \<Longrightarrow> valid (bufs s b) \<and> y = (bufs s b)\<lparr>b_flags := b_flags (bufs s b) OR B_BUSY\<rparr>"
    and s1: "s1 = (lockround BcacheLock s)\<lparr>bufs := (bufs s)(b := y)\<rparr>"
  shows "wp (bnd (gets (\<lambda>s. b_flags (bufs s b))) (\<lambda>fl.
      thn (whenk (fl AND B_VALID = 0) (iderw (Suc (Suc n)) (ide_env NBUF ts) b)) (ret b)))
    (\<lambda>b t. bcache_ok (insert b H) i t \<and> b \<notin> H \<and> bstep i H s t
      \<and> held t b = (bkey y, disk s (bkey y)) \<and> disk t = disk s) s1"
proof -
  note D = bcache_okD [OF assms(1)]
  have ctx: "proc_ctx i s1" unfolding s1 using proc_ctx_lockround [OF D(1)] by simp
  have pk1: "procs_kept i s s1" "only_ide s s1" by (auto simp: s1 procs_kept_def only_ide_refl)
  show ?thesis
  proof (cases "valid y")
    case True
    then have y: "y = (bufs s b)\<lparr>b_flags := b_flags (bufs s b) OR B_BUSY\<rparr>" "valid (bufs s b)" using valid by auto
    have "binv (insert b H) (havedisk1 s) (bufs s1) (disk s)"
      using binv_hold [OF D(4) assms(2,3) y(2)] by (simp add: s1 y(1))
    moreover have "b_data (bufs s b) = disk s (bkey (bufs s b))" using D(4) assms(2,3) y(2) by (simp add: binv_def)
    ultimately show ?thesis using True y D ctx pk1 assms(3)
      by (auto simp: wp s1 bcache_ok_def bstep_def held_def bkey_def)
  next
    case False
    have "wp (iderw (Suc (Suc n)) (ide_env NBUF ts) b) (\<lambda>_ t. bcache_ok (insert b H) i t \<and> b \<notin> H \<and> bstep i H s t
      \<and> held t b = (bkey y, disk s (bkey y)) \<and> disk t = disk s) s1"
    proof (rule wp_mono [OF wp_iderw_one [where i = i]], goal_cases)
      case (7 a t)
      then have t: "noq (bufs t) = noq ((bufs s)(b := served (disk s) y))" "disk t = disk s"
        using assms(6) by (simp_all add: s1 served_disk_def)
      have o: "only_ide s t" and pk: "procs_kept i s t"
        using 7 only_ide_trans [OF pk1(2)] procs_kept_trans [OF pk1(1)] by simp_all
      have "binv (insert b H) (havedisk1 t) (bufs t) (disk t)"
        using binv_fill [OF D(4) assms(2-8) others] only_ide_sel(4) [OF o] by (simp add: binv_noq [OF t(1)] t(2))
      moreover have "held t c = held s c" if "c \<in> H" for c
        unfolding held_def noq_fields [OF t(1)] using that assms(3) by auto
      moreover have "held t b = (bkey y, disk s (bkey y))"
        unfolding held_def noq_fields [OF t(1)] using assms(6) key_ok_sector [OF assms(4)]
        by (simp add: served_data) (simp add: served_def bkey_def)
      ultimately show ?case using 7 o pk t(2) assms(3) by (simp add: bcache_ok_def bstep_def)
    qed (use D ctx False assms in \<open>simp_all add: s1\<close>)
    with False show ?thesis by (simp add: wp s1)
  qed
qed

lemma wp_bread:
  assumes "bcache_ok H i s" "key_ok (havedisk1 s) (dev, sector)" "\<forall>b \<in> H. fst (held s b) \<noteq> (dev, sector)"
    "card H < NBUF"
  shows "wp (bread (Suc (Suc n)) (ide_env NBUF ts) dev sector) (\<lambda>b t. bcache_ok (insert b H) i t \<and> b \<notin> H
    \<and> bstep i H s t \<and> held t b = ((dev, sector), disk s (dev, sector)) \<and> disk t = disk s) s"
    (is "wp _ ?Q s")
proof -
  note D = bcache_okD [OF assms(1)]
  obtain xs where xs: "ring (bufs s) xs" "set xs = {..<NBUF}" using D(4) by (auto simp: binv_def)
  have bH: "busy (bufs s b) = (b \<in> H)" "b < NBUF \<Longrightarrow> \<not> dirty (bufs s b)" if "b < NBUF" for b
    using D(4) that by (simp_all add: binv_def)
  have free: "b \<notin> H" if "bkey (bufs s b) = (dev, sector)" for b
    using assms(3) that by (auto simp: held_def)
  let ?k = "\<lambda>b. bnd (gets (\<lambda>s. b_flags (bufs s b))) (\<lambda>fl.
      thn (whenk (fl AND B_VALID = 0) (iderw (Suc (Suc n)) (ide_env NBUF ts) b)) (ret b))"
  have "wp (bget (Suc (Suc n)) (ide_env NBUF ts) dev sector) (\<lambda>b. wp (?k b) ?Q) s"
  proof (subst wp_bget [OF xs], goal_cases)
    case 4
    show ?case
    proof (cases "find (\<lambda>b. bkey (bufs s b) = (dev, sector)) xs")
      case (Some b)
      then have b: "b < NBUF" "bkey (bufs s b) = (dev, sector)" using xs(2) by (auto simp: find_Some_iff nth_mem)
      let ?y = "(bufs s b)\<lparr>b_flags := b_flags (bufs s b) OR B_BUSY\<rparr>"
      have "wp (?k b) (\<lambda>b t. bcache_ok (insert b H) i t \<and> b \<notin> H \<and> bstep i H s t
        \<and> held t b = (bkey ?y, disk s (bkey ?y)) \<and> disk t = disk s)
        ((lockround BcacheLock s)\<lparr>bufs := (bufs s)(b := ?y)\<rparr>)"
      proof (rule wp_bread_fill [OF assms(1) b(1) _ _ _ _ _ _ _ _ refl])
        show "bkey (bufs s c) \<noteq> bkey ?y" if "c < NBUF" "c \<noteq> b" for c
          using D(4) b that assms(2) unfolding binv_def by (simp add: bkey_def) metis
      qed (use b bH free assms(2) in \<open>simp_all add: bkey_def\<close>)
      then show ?thesis using Some b(2) by (simp add: upd_buf_def bkey_def)
    next
      case None
      then have nk: "bkey (bufs s c) \<noteq> (dev, sector)" if "c < NBUF" for c
        using xs(2) that by (auto simp: find_None_iff)
      have "\<exists>b < NBUF. b \<notin> H"
      proof (rule ccontr)
        assume "\<not> (\<exists>b < NBUF. b \<notin> H)"
        then have "{..<NBUF} \<subseteq> H" by auto
        moreover have "finite H" using D(4) by (auto simp: binv_def intro: finite_subset)
        ultimately have "NBUF \<le> card H" using card_mono [of H "{..<NBUF}"] by simp
        with assms(4) show False by simp
      qed
      then obtain b where f: "find (\<lambda>b. \<not> busy (bufs s b)) (rev xs) = Some b"
        using xs(2) bH(1) by (cases "find (\<lambda>b. \<not> busy (bufs s b)) (rev xs)") (auto simp: find_None_iff)
      then have "b \<in> set (rev xs)" "\<not> busy (bufs s b)" by (auto simp: find_Some_iff simp del: set_rev)
      then have b: "b < NBUF" "b \<notin> H" using xs(2) bH(1) by auto
      let ?y = "(bufs s b)\<lparr>b_dev := dev, b_sector := sector, b_flags := B_BUSY\<rparr>"
      have "wp (?k b) (\<lambda>b t. bcache_ok (insert b H) i t \<and> b \<notin> H \<and> bstep i H s t
        \<and> held t b = (bkey ?y, disk s (bkey ?y)) \<and> disk t = disk s)
        ((lockround BcacheLock s)\<lparr>bufs := (bufs s)(b := ?y)\<rparr>)"
        by (rule wp_bread_fill [OF assms(1) b _ _ _ _ _ _ _ refl])
          (use b nk assms(2) in \<open>simp_all add: bkey_def\<close>)
      then show ?thesis using None f by (simp add: upd_buf_def bkey_def)
    qed
  qed (use D bH free in auto)
  then show ?thesis by (simp add: bread_def wp_bnd)
qed

text \<open>The interface. \<open>inv H\<close>: the store is in order and the handles \<open>H\<close> are held; \<open>view\<close>: the
  address and the bytes of a held block; \<open>store\<close>: the blocks; \<open>frame H\<close>: what an operation that
  does not touch the handles \<open>H\<close> leaves alone.\<close>

locale block_store =
  fixes rd :: "u32 \<Rightarrow> u32 \<Rightarrow> ('s, nat) kop"
    and wr :: "nat \<Rightarrow> ('s, unit) kop"
    and rl :: "nat \<Rightarrow> ('s, unit) kop"
    and view :: "'s \<Rightarrow> nat \<Rightarrow> (u32 \<times> u32) \<times> u8 list"
    and put :: "nat \<Rightarrow> u8 list \<Rightarrow> 's \<Rightarrow> 's"
    and inv :: "nat set \<Rightarrow> 's \<Rightarrow> bool"
    and store :: "'s \<Rightarrow> u32 \<times> u32 \<Rightarrow> u8 list"
    and addr :: "'s \<Rightarrow> u32 \<times> u32 \<Rightarrow> bool"
    and frame :: "nat set \<Rightarrow> 's \<Rightarrow> 's \<Rightarrow> bool"
  assumes rd: "inv H s \<Longrightarrow> addr s (d, b) \<Longrightarrow> \<forall>c \<in> H. fst (view s c) \<noteq> (d, b) \<Longrightarrow> card H < NBUF \<Longrightarrow>
      wp (rd d b) (\<lambda>c t. inv (insert c H) t \<and> c \<notin> H \<and> frame H s t
        \<and> view t c = ((d, b), store s (d, b)) \<and> store t = store s) s"
    and wr: "inv H s \<Longrightarrow> c \<in> H \<Longrightarrow> wp (wr c) (\<lambda>_ t. inv H t \<and> frame H s t
        \<and> store t = (store s)(fst (view s c) := snd (view s c))) s"
    and rl: "inv H s \<Longrightarrow> c \<in> H \<Longrightarrow> view s c = (k, store s k) \<Longrightarrow>
      wp (rl c) (\<lambda>_ t. inv (H - {c}) t \<and> frame (H - {c}) s t \<and> store t = store s) s"
    and put: "inv H s \<Longrightarrow> c \<in> H \<Longrightarrow> length x = BSIZE \<Longrightarrow> inv H (put c x s) \<and> frame (H - {c}) s (put c x s)
        \<and> view (put c x s) c = (fst (view s c), x) \<and> store (put c x s) = store s"
    and block_size: "inv H s \<Longrightarrow> length (store s k) = BSIZE"
    and frame_view: "frame H s t \<Longrightarrow> c \<in> H \<Longrightarrow> view t c = view s c"
    and frame_addr: "frame H s t \<Longrightarrow> addr t = addr s"
    and frame_trans: "frame H s t \<Longrightarrow> frame H t u \<Longrightarrow> frame H s u"
    and frame_mono: "frame H s t \<Longrightarrow> G \<subseteq> H \<Longrightarrow> frame G s t"
begin

text \<open>Reading a block and letting it go; \<open>g\<close> is what the caller takes from it.\<close>

lemma peek:
  assumes "inv H s" "addr s (d, b)" "\<forall>c \<in> H. fst (view s c) \<noteq> (d, b)" "card H < NBUF"
  shows "wp (bnd (rd d b) (\<lambda>c. bnd (gets (\<lambda>s. g (snd (view s c)))) (\<lambda>x. thn (rl c) (ret x))))
    (\<lambda>x t. x = g (store s (d, b)) \<and> inv H t \<and> frame H s t \<and> store t = store s) s"
proof (rule wp_bndI [OF rd [OF assms]], goal_cases)
  case (1 c t)
  then have "wp (rl c) (\<lambda>_ u. inv (insert c H - {c}) u \<and> frame (insert c H - {c}) t u \<and> store u = store t) t"
    by (intro rl) auto
  moreover have "insert c H - {c} = H" using 1 by auto
  ultimately have "wp (rl c) (\<lambda>_ u. inv H u \<and> frame H t u \<and> store u = store t) t" by simp
  then have "wp (rl c) (\<lambda>_ u. inv H u \<and> frame H s u \<and> store u = store s) t"
    by (rule wp_mono) (use 1 frame_trans [of H s t] in simp)
  with 1 show ?case by (simp add: wp)
qed

text \<open>Read, modify, write back, release: the block changes, no other does.\<close>

lemma rmw:
  assumes "inv H s" "addr s (d, b)" "\<forall>c \<in> H. fst (view s c) \<noteq> (d, b)" "card H < NBUF"
    and "length (f (store s (d, b))) = BSIZE"
  shows "wp (bnd (rd d b) (\<lambda>c. thn (modify (\<lambda>s. put c (f (snd (view s c))) s)) (thn (wr c) (rl c))))
    (\<lambda>_ t. inv H t \<and> frame H s t \<and> store t = (store s)((d, b) := f (store s (d, b)))) s"
proof (rule wp_bndI [OF rd [OF assms(1-4)]], goal_cases)
  case (1 c t)
  let ?u = "put c (f (store s (d, b))) t"
  have H: "insert c H - {c} = H" using 1 by auto
  have u: "inv (insert c H) ?u" "frame H t ?u" "view ?u c = ((d, b), f (store s (d, b)))" "store ?u = store s"
    using put [of "insert c H" t c "f (store s (d, b))"] 1 assms(5) by (auto simp: H)
  have su: "frame H s ?u" using frame_trans [OF _ u(2), of s] 1 by simp
  have "wp (thn (wr c) (rl c)) (\<lambda>_ w. inv H w \<and> frame H s w \<and> store w = (store s)((d, b) := f (store s (d, b)))) ?u"
  proof (rule wp_thnI [OF wr [OF u(1)]], simp, goal_cases)
    case (1 v)
    then have v: "view v c = ((d, b), store v (d, b))" using frame_view [of "insert c H" ?u v c] u by simp
    have "frame H ?u v" by (rule frame_mono [of "insert c H"]) (use 1 in auto)
    from frame_trans [OF su this] have sv: "frame H s v" .
    have "wp (rl c) (\<lambda>_ w. inv H w \<and> frame H v w \<and> store w = store v) v"
      using rl [OF _ _ v, of "insert c H"] 1 by (simp add: H)
    then show ?case by (rule wp_mono) (use 1 u frame_trans [OF sv] in simp)
  qed
  with 1 show ?case by (simp add: wp)
qed

end

interpretation bc: block_store "bread (Suc (Suc n)) (ide_env NBUF ts)" "bwrite (Suc (Suc n)) (ide_env NBUF ts)" brelse
  held "\<lambda>c x. upd_buf c (\<lambda>y. y\<lparr>b_data := x\<rparr>)" "\<lambda>H. bcache_ok H i" disk "\<lambda>s. key_ok (havedisk1 s)" "bstep i"
  for n ts i
proof (unfold_locales, goal_cases)
  case (1 H s d b)
  then show ?case by (rule wp_bread)
next
  case (2 H s c)
  then show ?case using wp_bwrite [of H i s c n ts] by (simp add: held_def)
next
  case (3 H s c k)
  then show ?case by (rule wp_brelse)
next
  case (4 H s c x)
  have "ring ((bufs s)(c := (bufs s c)\<lparr>b_data := x\<rparr>)) xs = ring (bufs s) xs" for xs by (rule ring_cong) simp_all
  moreover have "bkey ((bufs s c)\<lparr>b_data := x\<rparr>) = bkey (bufs s c)" by (simp add: bkey_def)
  ultimately have "binv H d1 ((bufs s)(c := (bufs s c)\<lparr>b_data := x\<rparr>)) (disk s)" if "binv H d1 (bufs s) (disk s)" for d1
    using that 4(2,3) unfolding binv_def by (simp del: split_paired_All)
  then show ?case using 4 by (simp add: bcache_ok_def bstep_def only_ide_refl procs_kept_def held_def bkey_def)
next
  case (5 H s k)
  then show ?case by (intro binv_len [OF bcache_okD(4)])
next
  case (7 H s t)
  then show ?case using only_ide_sel(4) [of s t] by (simp add: bstep_def)
next
  case (8 H s t u)
  then show ?case by (rule bstep_trans)
next
  case (9 H s t G)
  then show ?case by (rule bstep_mono)
qed (simp add: bstep_def)

section \<open>Initialisation\<close>

lemma initlock_ctx:
  "proc_ctx i s \<Longrightarrow> proc_ctx i (upd_lock lk (\<lambda>l. l\<lparr>lk_name := nm, locked := 0, lk_cpu := None\<rparr>) s)"
  by (auto simp: proc_ctx_def upd_lock_def lock_free_def)

text \<open>One round of the loop.\<close>

definition binit_link :: "nat \<Rightarrow> (nat \<Rightarrow> buf) \<Rightarrow> nat \<Rightarrow> buf" where
  "binit_link b B = (let C = link_front b B in C(b := (C b)\<lparr>b_dev := - 1\<rparr>))"

lemma wp_binit_body:
  assumes "b \<noteq> HEAD"
  shows "wp (seqs [
       upd_bufs (\<lambda>B. set_next b (b_next (B HEAD)) B),
       upd_bufs (set_prev b HEAD),
       modify (upd_buf b (\<lambda>x. x\<lparr>b_dev := - 1\<rparr>)),
       upd_bufs (\<lambda>B. set_prev (b_next (B HEAD)) b B),
       upd_bufs (set_next HEAD b)]) Q s = Q () (s\<lparr>bufs := binit_link b (bufs s)\<rparr>)"
proof -
  have "set_next HEAD b (set_prev (b_next (C HEAD)) b (C(b := (C b)\<lparr>b_dev := - 1\<rparr>)))
    = (let E = set_next HEAD b (set_prev (b_next (C HEAD)) b C) in E(b := (E b)\<lparr>b_dev := - 1\<rparr>))" for C
    using assms by (auto simp: Let_def set_next_def set_prev_def fun_eq_iff)
  then show ?thesis using assms
    by (simp add: wp upd_bufs_def upd_buf_def binit_link_def link_front_def Let_def del: links_sel)
qed

lemma wp_binit:
  "wp binit Q s = Q () ((upd_lock BcacheLock (\<lambda>l. l\<lparr>lk_name := ''bcache'', locked := 0, lk_cpu := None\<rparr>) s)
     \<lparr>bufs := fold binit_link [0..<NBUF] (set_next HEAD HEAD (set_prev HEAD HEAD (bufs s)))\<rparr>)"
proof -
  have "wp (for_each xs (\<lambda>b. seqs [
       upd_bufs (\<lambda>B. set_next b (b_next (B HEAD)) B),
       upd_bufs (set_prev b HEAD),
       modify (upd_buf b (\<lambda>x. x\<lparr>b_dev := - 1\<rparr>)),
       upd_bufs (\<lambda>B. set_prev (b_next (B HEAD)) b B),
       upd_bufs (set_next HEAD b)])) Q u = Q () (u\<lparr>bufs := fold binit_link xs (bufs u)\<rparr>)"
    if "HEAD \<notin> set xs" for xs u
    using that by (induction xs arbitrary: u) (simp_all add: wp_for_each_Cons wp_for_each_Nil wp_binit_body)
  from this [of "[0..<NBUF]"] show ?thesis
    by (simp add: binit_def wp_seqs_Cons wp_seqs_Nil initlock_def upd_bufs_def wp_modify upd_lock_def)
qed

lemma fold_binit_link:
  assumes "ring B ys" "HEAD \<notin> set xs" "distinct xs" "set xs \<inter> set ys = {}"
  shows "ring (fold binit_link xs B) (rev xs @ ys)
    \<and> (\<forall>b. b_flags (fold binit_link xs B b) = b_flags (B b)) \<and> (\<forall>b \<in> set xs. b_dev (fold binit_link xs B b) = - 1)
    \<and> (\<forall>b. b \<notin> set xs \<longrightarrow> b_dev (fold binit_link xs B b) = b_dev (B b))"
  using assms
proof (induction xs arbitrary: B ys)
  case (Cons x xs)
  have "ring (binit_link x B) zs = ring (link_front x B) zs" for zs
    by (rule ring_cong) (simp_all add: binit_link_def Let_def)
  then have "ring (binit_link x B) (x # ys)" using ring_link_front [of B ys x] Cons.prems by auto
  note IH = Cons.IH [OF this]
  have "b_flags (binit_link x B b) = b_flags (B b)" for b
    by (simp add: binit_link_def link_front_def Let_def)
  moreover have "b_dev (binit_link x B b) = (if b = x then - 1 else b_dev (B b))" for b
    by (simp add: binit_link_def link_front_def Let_def set_next_def set_prev_def)
  ultimately show ?case using IH Cons.prems by auto
qed simp

lemma not_key_ok_dev: "b_dev x = - 1 \<Longrightarrow> \<not> key_ok d1 (bkey x)"
  by (simp add: key_ok_def bkey_def)

definition binit_bufs :: "(nat \<Rightarrow> buf) \<Rightarrow> nat \<Rightarrow> buf" where
  "binit_bufs B = fold binit_link [0..<NBUF] (set_next HEAD HEAD (set_prev HEAD HEAD B))"

lemma binv_init:
  assumes "\<And>b. b_flags (B b) = 0" "\<And>k. length (D k) = BSIZE"
  shows "binv {} d1 (binit_bufs B) D" "ring (binit_bufs B) (rev [0..<NBUF])"
    "b_flags (binit_bufs B b) = 0" "b < NBUF \<Longrightarrow> b_dev (binit_bufs B b) = - 1"
proof -
  have "ring (set_next HEAD HEAD (set_prev HEAD HEAD B)) []" by (simp add: ring_def)
  note F = fold_binit_link [OF this, of "[0..<NBUF]", folded binit_bufs_def]
  then show r: "ring (binit_bufs B) (rev [0..<NBUF])" and f: "b_flags (binit_bufs B b) = 0"
    and d: "b < NBUF \<Longrightarrow> b_dev (binit_bufs B b) = - 1" for b using assms(1) by simp_all
  have "\<not> busy (binit_bufs B b)" "\<not> valid (binit_bufs B b)" "\<not> dirty (binit_bufs B b)" for b
    using f by (simp_all add: buf_flag_defs)
  moreover have "\<not> key_ok d1 (bkey (binit_bufs B b))" if "b < NBUF" for b d1
    using d that by (intro not_key_ok_dev) simp
  moreover have "\<exists>xs. ring (binit_bufs B) xs \<and> set xs = {..<NBUF}" using r by (intro exI [of _ "rev [0..<NBUF]"]) auto
  ultimately show "binv {} d1 (binit_bufs B) D" using assms(2) unfolding binv_def by simp
qed

text \<open>C11. After \<^verbatim>\<open>binit\<close> the buffers form one ring, the cache invariant holds and no buffer
  is held.\<close>

theorem binit_establishes:
  assumes "proc_ctx i s" "ide_ready s" "idequeue s = None" "\<And>b. b_flags (bufs s b) = 0"
    and "\<And>k. length (disk s k) = BSIZE"
  shows "wp binit (\<lambda>_ t. bcache_ok {} i t \<and> ring (bufs t) (rev [0..<NBUF]) \<and> disk t = disk s) s"
  using assms(2,3) binv_init [where B = "bufs s" and D = "disk s", OF assms(4,5)]
    initlock_ctx [OF assms(1), of BcacheLock "''bcache''"]
  by (simp add: wp_binit bcache_ok_def binit_bufs_def) (simp add: upd_lock_def ide_ready_def)

text \<open>A state for examples: nothing cached; every sector holds copies of the low byte of its
  number.\<close>

definition bio_ex :: "unit idest_scheme" where
  "bio_ex = (idest_boot (\<lambda>_. proc_zero\<lparr>p_state := RUNNING, p_pgdir := 0x200000\<rparr>) (\<lambda>_. buf_zero) None None ())
     \<lparr>disk := \<lambda>k. replicate BSIZE (ucast (snd k))\<rparr>"

definition bio_ex1 :: "unit idest_scheme" where
  "bio_ex1 = bio_ex\<lparr>bufs := binit_bufs (\<lambda>_. buf_zero)\<rparr>"

lemma bio_ex_facts: "proc_ctx 2 bio_ex" "ide_ready bio_ex" "idequeue bio_ex = None" "b_flags (bufs bio_ex b) = 0"
  "length (disk bio_ex k) = BSIZE" "bufs bio_ex = (\<lambda>_. buf_zero)" "b_flags buf_zero = 0"
  by (simp_all add: bio_ex_def) (simp_all add: buf_zero_def)

lemma bio_ex1_facts: "bcache_ok {} 2 bio_ex1" "ring (bufs bio_ex1) (rev [0..<NBUF])" "\<not> busy (bufs bio_ex1 b)"
  "b < NBUF \<Longrightarrow> b_dev (bufs bio_ex1 b) = - 1" "disk bio_ex1 = disk bio_ex"
proof -
  note I = binv_init [where B = "\<lambda>_. buf_zero" and D = "disk bio_ex", OF bio_ex_facts(7,5)]
  then show "bcache_ok {} 2 bio_ex1" "ring (bufs bio_ex1) (rev [0..<NBUF])" "\<not> busy (bufs bio_ex1 b)"
    "b < NBUF \<Longrightarrow> b_dev (bufs bio_ex1 b) = - 1" "disk bio_ex1 = disk bio_ex"
    using bio_ex_facts(1-3) by (simp_all add: bio_ex1_def bcache_ok_def busy_def)
qed

lemma binit_establishes_witness:
  "wp binit (\<lambda>_ t. bcache_ok {} 2 t \<and> ring (bufs t) (rev [0..<NBUF]) \<and> disk t = disk bio_ex) bio_ex"
  by (rule binit_establishes) (simp_all add: bio_ex_facts)

text \<open>C12. \<^verbatim>\<open>bget\<close> on a sector nobody holds, with the ring \<open>xs\<close>: it returns the buffer that
  caches the sector, marked busy; if there is none it takes the idle buffer nearest to the least
  recently used end, relabelled and not valid; it panics only when every buffer is busy.\<close>

theorem bget_lru:
  assumes "ring (bufs s) xs" "set xs = {..<NBUF}" "lock_free BcacheLock s" "cli_ok s"
    and "\<And>b. b < NBUF \<Longrightarrow> bkey (bufs s b) = (dev, sector) \<Longrightarrow> \<not> busy (bufs s b)"
  shows "wp (bget (Suc n) env dev sector) Q s =
    (case find (\<lambda>b. bkey (bufs s b) = (dev, sector)) xs of
       Some b \<Rightarrow> Q b (upd_buf b (\<lambda>x. x\<lparr>b_flags := b_flags x OR B_BUSY\<rparr>) (lockround BcacheLock s))
     | None \<Rightarrow> (case find (\<lambda>b. \<not> busy (bufs s b)) (rev xs) of
         Some b \<Rightarrow> Q b (upd_buf b (\<lambda>x. x\<lparr>b_dev := dev, b_sector := sector, b_flags := B_BUSY\<rparr>)
           (lockround BcacheLock s))
       | None \<Rightarrow> False))"
  by (rule wp_bget [OF assms])

lemma bget_lru_witness:
  "wp (bget 1 (ide_env NBUF 0) 0 5) (\<lambda>b t. b = 0 \<and> bkey (bufs t 0) = (0, 5) \<and> busy (bufs t 0)) bio_ex1"
proof -
  have n: "find (\<lambda>b. bkey (bufs bio_ex1 b) = (0, 5)) (rev [0..<NBUF]) = None"
    using bio_ex1_facts(4) by (auto simp: find_None_iff bkey_def)
  have i: "find (\<lambda>b. \<not> busy (bufs bio_ex1 b)) [0..<NBUF] = Some 0"
    by (simp add: find_upt_Some bio_ex1_facts(3)) (simp add: NBUF_def)
  have "set (rev [0..<NBUF]) = {..<NBUF}" by auto
  from bget_lru [OF bio_ex1_facts(2) this, of 0 5 0 "ide_env NBUF 0"] show ?thesis
    using bcache_okD(1) [OF bio_ex1_facts(1)] n i by (simp add: bio_ex1_facts(3) bkey_def)
qed

text \<open>C13. The cache refines the disk: reading a sector through the cache, changing it by \<open>f\<close>,
  writing it back and releasing it returns, changes exactly that sector of the disk by \<open>f\<close>, keeps
  the invariant and the other held buffers.\<close>

theorem cache_update_refines_disk:
  assumes "bcache_ok H i s" "key_ok (havedisk1 s) (dev, sector)" "\<forall>c \<in> H. fst (held s c) \<noteq> (dev, sector)"
    and "card H < NBUF" "length (f (disk s (dev, sector))) = BSIZE"
  shows "wp (bnd (bread (Suc (Suc n)) (ide_env NBUF ts) dev sector) (\<lambda>b.
      thn (modify (\<lambda>s. upd_buf b (\<lambda>y. y\<lparr>b_data := f (snd (held s b))\<rparr>) s)) (
      thn (bwrite (Suc (Suc n)) (ide_env NBUF ts) b) (
      brelse b))))
    (\<lambda>_ t. bcache_ok H i t \<and> bstep i H s t \<and> disk t = (disk s)((dev, sector) := f (disk s (dev, sector)))) s"
  by (rule bc.rmw [OF assms(1-4), of f, OF assms(5)])

lemma cache_update_refines_disk_witness:
  "wp (bnd (bread 2 (ide_env NBUF 0) 0 5) (\<lambda>b.
      thn (modify (\<lambda>s. upd_buf b (\<lambda>y. y\<lparr>b_data := (snd (held s b))[3 := 9]\<rparr>) s)) (
      thn (bwrite 2 (ide_env NBUF 0) b) (
      brelse b))))
    (\<lambda>_ t. bcache_ok {} 2 t \<and> disk t (0, 5) = (replicate BSIZE 5)[3 := 9] \<and> disk t (0, 6) = replicate BSIZE 6) bio_ex1"
proof -
  have "key_ok d1 (0, 5)" for d1 by (simp add: key_ok_def)
  from cache_update_refines_disk [OF bio_ex1_facts(1) this, of "\<lambda>d. d[3 := 9]" 0 0] show ?thesis
    unfolding numeral_2_eq_2
    by (rule wp_mono [OF meta_mp]) (auto simp: bio_ex1_facts(5) bio_ex_facts bio_ex_def NBUF_def)
qed

end
