(* ===== verification/Fs_Block.thy ===== *)
theory Fs_Block
  imports Bio
begin

text \<open>
  The block layer of the file system (\<^verbatim>\<open>readsb\<close>, \<^verbatim>\<open>bzero\<close>, \<^verbatim>\<open>balloc\<close>,
  \<^verbatim>\<open>bfree\<close> in \<^verbatim>\<open>fs.c\<close>), over the buffer cache. \<open>n\<close> and \<open>env\<close> are the fuel and the
  rest of the system for the waits on the disk.

  Shown, through the interface \<open>block_store\<close>: \<^verbatim>\<open>balloc\<close> returns the first block whose bit
  is clear and sets that bit alone; \<^verbatim>\<open>bfree\<close> zeroes the block and clears its bit; freeing a
  free block panics; and an allocation followed by a free leaves the bitmap as it was.
\<close>

section \<open>Operations\<close>

definition bdata :: "nat \<Rightarrow> ('a idest_scheme, u8 list) kop" where
  "bdata b = gets (\<lambda>s. b_data (bufs s b))"

definition bdata_put :: "nat \<Rightarrow> (u8 list \<Rightarrow> u8 list) \<Rightarrow> ('a idest_scheme, unit) kop" where
  "bdata_put b f = modify (upd_buf b (\<lambda>x. x\<lparr>b_data := f (b_data x)\<rparr>))"

definition readsb :: "nat \<Rightarrow> ('a idest_scheme, unit) kop \<Rightarrow> u32 \<Rightarrow> ('a idest_scheme, superblock) kop" where
  "readsb n env dev =
    bnd (bread n env dev 1) (\<lambda>bp.
    bnd (gets (\<lambda>s. get_sb (b_data (bufs s bp)))) (\<lambda>sb.
    thn (brelse bp) (
    ret sb)))"

definition bzero :: "nat \<Rightarrow> ('a idest_scheme, unit) kop \<Rightarrow> u32 \<Rightarrow> u32 \<Rightarrow> ('a idest_scheme, unit) kop" where
  "bzero n env dev bno =
    bnd (bread n env dev bno) (\<lambda>bp.
    thn (bdata_put bp (\<lambda>d. replicate BSIZE 0)) (
    thn (bwrite n env bp) (
    brelse bp)))"

text \<open>The scan of one bitmap block; the loop over the bitmap blocks makes one round per \<open>BPB\<close>
  blocks of the file system.\<close>

definition balloc_scan ::
  "nat \<Rightarrow> ('a idest_scheme, unit) kop \<Rightarrow> nat \<Rightarrow> u32 \<Rightarrow> ('a idest_scheme, u32 option) kop" where
  "balloc_scan n env bp b = for_find [0..<unat BPB] (\<lambda>bi.
    bnd (bdata bp) (\<lambda>d.
    if bm_test d bi then ret None
    else
      thn (bdata_put bp (bm_set bi)) (
      thn (bwrite n env bp) (
      thn (brelse bp) (
      ret (Some (b + of_nat bi)))))))"

definition balloc :: "nat \<Rightarrow> ('a idest_scheme, unit) kop \<Rightarrow> u32 \<Rightarrow> ('a idest_scheme, u32) kop" where
  "balloc n env dev =
    bnd (readsb n env dev) (\<lambda>sb.
    loop_fuel (unat (sb_size sb) div unat BPB + 2) (\<lambda>b.
      if b < sb_size sb then
        bnd (bread n env dev (BBLOCK b (sb_ninodes sb))) (\<lambda>bp.
        bnd (balloc_scan n env bp b) (\<lambda>r.
        case r of
          Some a \<Rightarrow> ret (Inr a)
        | None \<Rightarrow> thn (brelse bp) (ret (Inl (b + BPB)))))
      else panic ''balloc: out of blocks'') 0)"

definition bfree :: "nat \<Rightarrow> ('a idest_scheme, unit) kop \<Rightarrow> u32 \<Rightarrow> u32 \<Rightarrow> ('a idest_scheme, unit) kop" where
  "bfree n env dev b =
    thn (bzero n env dev b) (
    bnd (readsb n env dev) (\<lambda>sb.
    bnd (bread n env dev (BBLOCK b (sb_ninodes sb))) (\<lambda>bp.
    let bi = unat (b mod BPB) in
    bnd (bdata bp) (\<lambda>d.
    if \<not> bm_test d bi then panic ''freeing free block''
    else
      thn (bdata_put bp (bm_clear bi)) (
      thn (bwrite n env bp) (
      brelse bp))))))"

section \<open>Single blocks\<close>

text \<open>A block is free to be read: addressable, not held, and there is a buffer for it.\<close>

definition readable :: "nat set \<Rightarrow> 'a idest_scheme \<Rightarrow> u32 \<times> u32 \<Rightarrow> bool" where
  "readable H s k \<longleftrightarrow> key_ok (havedisk1 s) k \<and> (\<forall>c \<in> H. fst (held s c) \<noteq> k) \<and> card H < NBUF"

lemma readable_bstep: "bstep i H s t \<Longrightarrow> readable H t k = readable H s k"
  using only_ide_sel(4) [of s t] by (simp add: readable_def bstep_def)

lemma snd_held [simp]: "snd (held s b) = b_data (bufs s b)"
  by (simp add: held_def)

lemma wp_readsb:
  assumes "bcache_ok H i s" "readable H s (dev, 1)"
  shows "wp (readsb (Suc (Suc n)) (ide_env NBUF ts) dev) (\<lambda>sb t. sb = get_sb (disk s (dev, 1)) \<and> bcache_ok H i t
    \<and> bstep i H s t \<and> disk t = disk s) s"
  using bc.peek [of H i s dev 1 n ts get_sb] assms by (simp add: readsb_def readable_def)

lemma wp_update_block:
  assumes "bcache_ok H i s" "readable H s (dev, b)" "length (f (disk s (dev, b))) = BSIZE"
  shows "wp (bnd (bread (Suc (Suc n)) (ide_env NBUF ts) dev b) (\<lambda>bp.
      thn (bdata_put bp f) (thn (bwrite (Suc (Suc n)) (ide_env NBUF ts) bp) (brelse bp))))
    (\<lambda>_ t. bcache_ok H i t \<and> bstep i H s t \<and> disk t = (disk s)((dev, b) := f (disk s (dev, b)))) s"
proof -
  have "bdata_put c f = modify (\<lambda>s :: 'a idest_scheme. upd_buf c (\<lambda>y. y\<lparr>b_data := f (snd (held s c))\<rparr>) s)" for c
    unfolding bdata_put_def by (rule arg_cong [where f = modify]) (simp add: fun_eq_iff upd_buf_def)
  with bc.rmw [of H i s dev b f n ts] assms show ?thesis by (simp add: readable_def)
qed

lemma wp_bzero:
  assumes "bcache_ok H i s" "readable H s (dev, b)"
  shows "wp (bzero (Suc (Suc n)) (ide_env NBUF ts) dev b) (\<lambda>_ t. bcache_ok H i t \<and> bstep i H s t
    \<and> disk t = (disk s)((dev, b) := replicate BSIZE 0)) s"
  using wp_update_block [OF assms, of "\<lambda>_. replicate BSIZE 0" n ts] by (simp add: bzero_def)

section \<open>Allocation\<close>

text \<open>The bitmap as a predicate on block numbers. Distinct block numbers have distinct bits.\<close>

definition used :: "superblock \<Rightarrow> u32 \<Rightarrow> (u32 \<times> u32 \<Rightarrow> u8 list) \<Rightarrow> u32 \<Rightarrow> bool" where
  "used sb dev D b \<longleftrightarrow> bm_test (D (dev, BBLOCK b (sb_ninodes sb))) (unat (b mod BPB))"

lemma BBLOCK_eq: "BBLOCK b m = BBLOCK c m \<longleftrightarrow> b div BPB = c div BPB"
  by (simp add: BBLOCK_def)

lemma unat_BPB: "unat BPB = 4096" "unat (b div BPB) = unat b div 4096" "unat (b mod BPB) = unat b mod 4096"
  by (simp_all add: BPB_def unat_div unat_mod)

lemma same_bit: "BBLOCK b m = BBLOCK c m \<Longrightarrow> unat (b mod BPB) = unat (c mod BPB) \<Longrightarrow> b = c"
proof -
  assume "BBLOCK b m = BBLOCK c m" "unat (b mod BPB) = unat (c mod BPB)"
  then have "b div BPB = c div BPB" "b mod BPB = c mod BPB" by (simp_all add: BBLOCK_eq word_unat_eq_iff [of "b mod BPB"])
  then have "b div BPB * BPB + b mod BPB = c div BPB * BPB + c mod BPB" by simp
  then show "b = c" by (simp add: div_mult_mod_eq)
qed

lemma used_set:
  assumes "length (D (dev, BBLOCK a (sb_ninodes sb))) = BSIZE"
  shows "used sb dev (D((dev, BBLOCK a (sb_ninodes sb)) := bm_set (unat (a mod BPB)) (D (dev, BBLOCK a (sb_ninodes sb))))) b
      \<longleftrightarrow> b = a \<or> used sb dev D b"
    and "used sb dev (D((dev, BBLOCK a (sb_ninodes sb)) := bm_clear (unat (a mod BPB)) (D (dev, BBLOCK a (sb_ninodes sb))))) b
      \<longleftrightarrow> b \<noteq> a \<and> used sb dev D b"
proof -
  let ?k = "BBLOCK a (sb_ninodes sb)" and ?bi = "unat (a mod BPB)"
  have l: "?bi < 8 * length (D (dev, ?k))" using assms by (simp add: unat_BPB BSIZE_def)
  have "?bi \<noteq> unat (b mod BPB)" if "BBLOCK b (sb_ninodes sb) = ?k" "b \<noteq> a"
    using same_bit that by metis
  then show "used sb dev (D((dev, ?k) := bm_set ?bi (D (dev, ?k)))) b \<longleftrightarrow> b = a \<or> used sb dev D b"
    "used sb dev (D((dev, ?k) := bm_clear ?bi (D (dev, ?k)))) b \<longleftrightarrow> b \<noteq> a \<and> used sb dev D b"
    using bm_upd_same [OF l] bm_upd_other [OF l] by (auto simp: used_def)
qed

lemma wp_balloc_scan:
  assumes "bcache_ok (insert bp H) i s" "bp \<notin> H" "held s bp = (k, disk s k)"
  shows "wp (balloc_scan (Suc (Suc n)) (ide_env NBUF ts) bp b) (\<lambda>r t.
    (case find (\<lambda>bi. \<not> bm_test (disk s k) bi) [0..<unat BPB] of
       None \<Rightarrow> r = None \<and> t = s
     | Some bi \<Rightarrow> r = Some (b + of_nat bi) \<and> bcache_ok H i t \<and> bstep i H s t
         \<and> disk t = (disk s)(k := bm_set bi (disk s k)))) s"
proof (unfold balloc_scan_def, rule wp_for_find_first [where P = "\<lambda>bi. \<not> bm_test (disk s k) bi"], goal_cases)
  case (1 bi R)
  then show ?case using assms(3) by (simp add: bdata_def wp held_def)
next
  case (2 bi)
  let ?d = "bm_set bi (disk s k)"
  let ?u = "upd_buf bp (\<lambda>x. x\<lparr>b_data := ?d\<rparr>) s"
  have d: "b_data (bufs s bp) = disk s k" using assms(3) by (simp add: held_def)
  have H: "insert bp H - {bp} = H" using assms(2) by auto
  have u: "bcache_ok (insert bp H) i ?u" "bstep i H s ?u" "held ?u bp = (k, ?d)" "disk ?u = disk s"
    using bc.put [OF assms(1), of bp ?d] bc.block_size [OF assms(1)] assms(3) by (simp_all add: H)
  have up: "upd_buf bp (\<lambda>x. x\<lparr>b_data := bm_set bi (b_data x)\<rparr>) s = ?u" by (simp add: upd_buf_def d)
  have "wp (thn (bwrite (Suc (Suc n)) (ide_env NBUF ts) bp) (thn (brelse bp) (ret (Some (b + of_nat bi)))))
    (\<lambda>r t. r = Some (b + of_nat bi) \<and> bcache_ok H i t \<and> bstep i H s t \<and> disk t = (disk s)(k := ?d)) ?u"
  proof (rule wp_thnI [OF bc.wr [OF u(1)]], simp, goal_cases)
    case (1 v)
    then have v: "held v bp = (k, disk v k)" using bc.frame_view [of i "insert bp H" ?u v bp] u by simp
    have sv: "bstep i H s v" by (rule bstep_trans [OF u(2)], rule bstep_mono [of _ "insert bp H"]) (use 1 in auto)
    have "wp (brelse bp) (\<lambda>_ t. bcache_ok H i t \<and> bstep i H v t \<and> disk t = disk v) v"
      using bc.rl [OF _ _ v, of "insert bp H" i] 1 by (simp add: H)
    then show ?case unfolding wp_thn wp_ret by (rule wp_mono) (use 1 u bstep_trans [OF sv] in simp)
  qed
  moreover have "\<not> bm_test (disk s k) bi" using 2 by (auto simp: find_Some_iff)
  ultimately show ?case using 2 d by (simp add: bdata_def bdata_put_def wp up)
qed simp

text \<open>Block numbers of the \<open>j\<close>-th bitmap block.\<close>

lemma bm_block:
  assumes "4096 * j + bi < 2 ^ 32" "bi < 4096"
  shows "unat (of_nat (4096 * j) + of_nat bi :: u32) = 4096 * j + bi"
    and "BBLOCK (of_nat (4096 * j) + of_nat bi) m = BBLOCK (of_nat (4096 * j)) m"
    and "unat ((of_nat (4096 * j) + of_nat bi) mod BPB) = bi"
proof -
  have e: "of_nat (4096 * j) + of_nat bi = (of_nat (4096 * j + bi) :: u32)" by simp
  show u: "unat (of_nat (4096 * j) + of_nat bi :: u32) = 4096 * j + bi"
    unfolding e unat_of_nat using assms(1) by simp
  have u': "unat (of_nat (4096 * j) :: u32) = 4096 * j" unfolding unat_of_nat using assms(1) by simp
  show "unat ((of_nat (4096 * j) + of_nat bi) mod BPB) = bi" using u assms(2) by (simp add: unat_BPB)
  have "(4096 * j + bi) div 4096 = 4096 * j div 4096" using assms(2) by simp
  then show "BBLOCK (of_nat (4096 * j) + of_nat bi) m = BBLOCK (of_nat (4096 * j)) m"
    unfolding BBLOCK_eq word_unat_eq_iff [of "_ div _"] unat_BPB u u' .
qed

lemma used_block:
  assumes "unat c div 4096 = j"
  shows "used sb dev D c = bm_test (D (dev, BBLOCK (of_nat (4096 * j)) (sb_ninodes sb))) (unat c mod 4096)"
proof -
  have c: "unat c = 4096 * j + unat c mod 4096" using assms by (metis mult_div_mod_eq)
  have "of_nat (unat c) = c" by simp
  then have w: "c = of_nat (4096 * j) + of_nat (unat c mod 4096)" by (metis c of_nat_add)
  have "4096 * j + unat c mod 4096 < 2 ^ 32" using c unat_lt32 [of c] by simp
  from bm_block(2) [OF this, of "sb_ninodes sb"] w show ?thesis
    by (metis used_def mod_less_divisor unat_BPB(3) zero_less_numeral)
qed

definition first_free :: "superblock \<Rightarrow> u32 \<Rightarrow> (u32 \<times> u32 \<Rightarrow> u8 list) \<Rightarrow> u32 \<Rightarrow> bool" where
  "first_free sb dev D a \<longleftrightarrow> \<not> used sb dev D a \<and> (\<forall>c < a. used sb dev D c)"

lemma wp_balloc_round:
  assumes ok: "bcache_ok H i s" and rd: "readable H s (dev, bb)"
  shows "wp (bnd (bread (Suc (Suc n)) (ide_env NBUF ts) dev bb) (\<lambda>bp.
        bnd (balloc_scan (Suc (Suc n)) (ide_env NBUF ts) bp b) (\<lambda>r.
        case r of Some a \<Rightarrow> ret (Inr a) | None \<Rightarrow> thn (brelse bp) (ret (Inl (b + BPB))))))
    (\<lambda>r t. bcache_ok H i t \<and> bstep i H s t \<and>
      (case find (\<lambda>bi. \<not> bm_test (disk s (dev, bb)) bi) [0..<unat BPB] of
         None \<Rightarrow> r = Inl (b + BPB) \<and> disk t = disk s
       | Some bi \<Rightarrow> r = Inr (b + of_nat bi) \<and> disk t = (disk s)((dev, bb) := bm_set bi (disk s (dev, bb))))) s"
    (is "wp _ ?Q s")
proof (rule wp_bndI [OF bc.rd [OF ok]], goal_cases)
  case (4 bp t)
  then have t: "bcache_ok (insert bp H) i t" "bp \<notin> H" "held t bp = ((dev, bb), disk t (dev, bb))"
    "bstep i H s t" "disk t = disk s" by simp_all
  have H: "insert bp H - {bp} = H" using t(2) by auto
  show ?case
  proof (rule wp_bndI [OF wp_balloc_scan [OF t(1-3)]], goal_cases)
    case (1 r u)
    show ?case
    proof (cases "find (\<lambda>bi. \<not> bm_test (disk s (dev, bb)) bi) [0..<unat BPB]")
      case None
      have "wp (brelse bp) (\<lambda>_ u. bcache_ok H i u \<and> bstep i H t u \<and> disk u = disk t) t"
        using bc.rl [OF t(1) _ t(3)] by (simp add: H)
      then have "wp (brelse bp) (\<lambda>_. ?Q (Inl (b + BPB))) t"
        by (rule wp_mono) (use None t bstep_trans [OF t(4)] in simp)
      with None 1 t(5) show ?thesis by (simp add: wp)
    next
      case (Some bi)
      with 1 t bstep_trans [OF t(4)] show ?thesis by (simp add: wp)
    qed
  qed
qed (use rd in \<open>auto simp: readable_def\<close>)

text \<open>The round for the \<open>j\<close>-th bitmap block, when the first free block is not before it: it ends
  the search exactly when the first free block is there.\<close>

lemma first_free_round:
  assumes a: "first_free sb dev D a" and j: "j \<le> unat a div 4096"
    and d: "d = D (dev, BBLOCK (of_nat (4096 * j)) (sb_ninodes sb))"
  shows "find (\<lambda>bi. \<not> bm_test d bi) [0..<unat BPB] =
    (if unat a div 4096 = j then Some (unat (a mod BPB)) else None)"
proof -
  have lt: "4096 * j + bi < 2 ^ 32" if "bi < 4096" "4096 * j + bi \<le> unat a" for bi
    using unat_lt32 [of a] that by simp
  have u: "used sb dev D (of_nat (4096 * j) + of_nat bi) = bm_test d bi"
    if "bi < 4096" "4096 * j + bi \<le> unat a" for bi
    using bm_block [OF lt [OF that] that(1)] by (simp add: used_def d)
  have before: "bm_test d bi" if "bi < 4096" "4096 * j + bi < unat a" for bi
  proof -
    have "of_nat (4096 * j) + of_nat bi < a"
      unfolding word_less_nat_alt using bm_block(1) [OF lt that(1)] that by simp
    with a have "used sb dev D (of_nat (4096 * j) + of_nat bi)" unfolding first_free_def by blast
    with u [OF that(1)] that(2) show ?thesis by simp
  qed
  show ?thesis
  proof (cases "unat a div 4096 = j")
    case True
    then have ua: "unat a = 4096 * j + unat a mod 4096" by (metis mult_div_mod_eq)
    have "\<not> bm_test d (unat a mod 4096)"
      using a used_block [OF True, of sb dev D] by (simp add: first_free_def d)
    moreover have "bm_test d bi" if "bi < unat a mod 4096" for bi
      using before [of bi] ua that by simp
    ultimately show ?thesis using True by (simp add: find_upt_Some unat_BPB)
  next
    case False
    with j have "j < unat a div 4096" by simp
    then have "4096 * j + 4096 \<le> unat a" by (simp add: less_eq_div_iff_mult_less_eq Suc_le_eq [symmetric])
    with before False show ?thesis by (simp add: find_upt_None unat_BPB)
  qed
qed

lemma wp_balloc:
  fixes s :: "'a idest_scheme"
  assumes ok: "bcache_ok H i s" and sb: "sb = get_sb (disk s (dev, 1))"
    and r1: "readable H s (dev, 1)" and rb: "\<And>b. readable H s (dev, BBLOCK b (sb_ninodes sb))"
    and a: "first_free sb dev (disk s) a" "unat a div 4096 * 4096 < unat (sb_size sb)"
  shows "wp (balloc (Suc (Suc n)) (ide_env NBUF ts) dev) (\<lambda>x t. x = a \<and> bcache_ok H i t \<and> bstep i H s t
    \<and> disk t = (disk s)((dev, BBLOCK a (sb_ninodes sb)) :=
        bm_set (unat (a mod BPB)) (disk s (dev, BBLOCK a (sb_ninodes sb))))) s"
    (is "wp _ ?Q s")
proof -
  define I where "I b t \<longleftrightarrow> (\<exists>j. b = of_nat (4096 * j) \<and> j \<le> unat a div 4096) \<and> bcache_ok H i t \<and> bstep i H s t
    \<and> disk t = disk s" for b :: u32 and t :: "'a idest_scheme"
  let ?body = "\<lambda>b. if b < sb_size sb then
        bnd (bread (Suc (Suc n)) (ide_env NBUF ts) dev (BBLOCK b (sb_ninodes sb))) (\<lambda>bp.
        bnd (balloc_scan (Suc (Suc n)) (ide_env NBUF ts) bp b) (\<lambda>r.
        case r of Some a \<Rightarrow> ret (Inr a) | None \<Rightarrow> thn (brelse bp) (ret (Inl (b + BPB)))))
      else panic ''balloc: out of blocks''"
  have "wp (loop_fuel (unat (sb_size sb) div unat BPB + 2) ?body 0) ?Q t"
    if "bcache_ok H i t" "bstep i H s t" "disk t = disk s" for t
  proof (rule wp_loop_fuel [where I = I and \<mu> = "\<lambda>b _. unat a div 4096 - unat b div 4096"], goal_cases)
    case 1
    show ?case using that unfolding I_def by (auto intro: exI [of _ 0])
  next
    case 2
    have "unat a div 4096 \<le> unat (sb_size sb) div 4096" using a(2) by (simp add: less_eq_div_iff_mult_less_eq)
    then show ?case by (simp add: unat_BPB)
  next
    case (3 b t)
    then obtain j where b: "b = of_nat (4096 * j)" "j \<le> unat a div 4096"
      and t: "bcache_ok H i t" "bstep i H s t" "disk t = disk s" by (auto simp: I_def)
    have le: "4096 * j \<le> unat a" using b(2) by (simp add: less_eq_div_iff_mult_less_eq mult.commute)
    then have ub: "unat b = 4096 * j" using unat_lt32 [of a] unfolding b(1) unat_of_nat by simp
    have lt: "b < sb_size sb"
      unfolding word_less_nat_alt ub using b(2) a(2) mult_le_mono1 [OF b(2), of 4096] by (simp add: mult.commute)
    have rd: "readable H t (dev, BBLOCK b (sb_ninodes sb))" using rb readable_bstep [OF t(2)] by simp
    have nxt: "b + BPB = of_nat (4096 * Suc j)" by (simp add: b(1) BPB_def)
    have un: "unat (b + BPB) div 4096 = Suc j" if "j < unat a div 4096"
    proof -
      have "4096 * Suc j \<le> unat a" using that by (simp add: less_eq_div_iff_mult_less_eq Suc_le_eq [symmetric])
      then show ?thesis unfolding nxt unat_of_nat using unat_lt32 [of a] by simp
    qed
    have ra: "b + of_nat (unat (a mod BPB)) = a" if "unat a div 4096 = j"
      using that word_unat_eq_iff bm_block(1) [of j "unat a mod 4096"] unat_lt32 [of a]
      by (metis b(1) mod_less_divisor mult_div_mod_eq unat_BPB(3) zero_less_numeral)
    have ba: "BBLOCK a (sb_ninodes sb) = BBLOCK b (sb_ninodes sb)" if "unat a div 4096 = j"
      using that ub by (simp add: BBLOCK_eq word_unat_eq_iff [of "_ div _"] unat_BPB)
    have In: "I (b + BPB) u" if "j < unat a div 4096" "bcache_ok H i u" "bstep i H s u" "disk u = disk s" for u
      unfolding I_def nxt using that by (auto intro: exI [of _ "Suc j"])
    show ?case unfolding if_P [OF lt]
    proof (rule wp_mono [OF wp_balloc_round [OF t(1) rd, where b = b]], goal_cases)
      case (1 r u)
      then have u: "bcache_ok H i u" "bstep i H s u" using bstep_trans [OF t(2)] by simp_all
      show ?case
      proof (cases "unat a div 4096 = j")
        case True
        with 1 u first_free_round [OF a(1) b(2) refl] t(3) ra ba show ?thesis by (simp add: b(1))
      next
        case False
        with b(2) have "j < unat a div 4096" by simp
        with 1 u False first_free_round [OF a(1) b(2) refl] t(3) In un ub show ?thesis by (simp add: b(1) split: sum.split)
      qed
    qed
  qed
  then show ?thesis unfolding balloc_def
    by (intro wp_bndI [OF wp_readsb [OF ok r1]]) (simp only: sb [symmetric] simp_thms)
qed

section \<open>Freeing\<close>

lemma bnd_outcome: "wp m R s \<Longrightarrow> (\<And>a t. R a t \<Longrightarrow> k a t = r) \<Longrightarrow> bnd m k s = r"
  by (auto simp: wp_iff bnd_def)

lemma thn_outcome: "wp m R s \<Longrightarrow> (\<And>a t. R a t \<Longrightarrow> k t = r) \<Longrightarrow> thn m k s = r"
  unfolding thn_def by (rule bnd_outcome)

text \<open>Zeroing the block and finding its bitmap block, the common part of both outcomes.\<close>

lemma wp_bfree_prefix:
  assumes ok: "bcache_ok H i s" and sb: "sb = get_sb (disk s (dev, 1))"
    and r: "readable H s (dev, b)" "readable H s (dev, 1)" "readable H s (dev, BBLOCK b (sb_ninodes sb))" and b: "b \<noteq> 1"
  shows "wp (bzero (Suc (Suc n)) (ide_env NBUF ts) dev b) (\<lambda>_ t. wp (readsb (Suc (Suc n)) (ide_env NBUF ts) dev)
      (\<lambda>sb' u. sb' = sb \<and> bcache_ok H i u \<and> bstep i H s u \<and> disk u = (disk s)((dev, b) := replicate BSIZE 0)
        \<and> readable H u (dev, BBLOCK b (sb_ninodes sb))) t) s"
proof (rule wp_mono [OF wp_bzero [OF ok r(1)]], goal_cases)
  case (1 x t)
  then have "readable H t (dev, 1)" using readable_bstep [of i H s t] r(2) by simp
  from wp_readsb [OF _ this] 1 show ?case
    by (rule wp_mono [OF meta_mp])
      (use 1 b r(3) readable_bstep [of i H s] bstep_trans [of i H s t] in \<open>auto simp: sb\<close>)
qed

lemma wp_bfree:
  assumes ok: "bcache_ok H i s" and sb: "sb = get_sb (disk s (dev, 1))"
    and r: "readable H s (dev, b)" "readable H s (dev, 1)" "readable H s (dev, BBLOCK b (sb_ninodes sb))"
    and b: "b \<noteq> 1" "b \<noteq> BBLOCK b (sb_ninodes sb)" "used sb dev (disk s) b"
  shows "wp (bfree (Suc (Suc n)) (ide_env NBUF ts) dev b) (\<lambda>_ t. bcache_ok H i t \<and> bstep i H s t
    \<and> disk t = (disk s)((dev, b) := replicate BSIZE 0, (dev, BBLOCK b (sb_ninodes sb)) :=
        bm_clear (unat (b mod BPB)) (disk s (dev, BBLOCK b (sb_ninodes sb))))) s"
    (is "wp _ ?Q s")
proof -
  let ?bb = "BBLOCK b (sb_ninodes sb)" and ?bi = "unat (b mod BPB)"
  have fin: "wp (bnd (bread (Suc (Suc n)) (ide_env NBUF ts) dev ?bb) (\<lambda>bp. bnd (bdata bp) (\<lambda>d.
      if \<not> bm_test d ?bi then panic ''freeing free block''
      else thn (bdata_put bp (bm_clear ?bi)) (thn (bwrite (Suc (Suc n)) (ide_env NBUF ts) bp) (brelse bp))))) ?Q u"
    if u: "bcache_ok H i u" "bstep i H s u" "disk u = (disk s)((dev, b) := replicate BSIZE 0)" "readable H u (dev, ?bb)" for u
  proof -
    have d: "disk u (dev, ?bb) = disk s (dev, ?bb)" using u(3) b(2) by simp
    have "wp (bnd (bread (Suc (Suc n)) (ide_env NBUF ts) dev ?bb) (\<lambda>bp.
      thn (bdata_put bp (bm_clear ?bi)) (thn (bwrite (Suc (Suc n)) (ide_env NBUF ts) bp) (brelse bp)))) ?Q u"
      using bc.block_size [OF ok, of "(dev, ?bb)"]
      by (intro wp_mono [OF wp_update_block [OF u(1,4)]]) (use u d bstep_trans [OF u(2)] in simp_all)
    then have "wp (bread (Suc (Suc n)) (ide_env NBUF ts) dev ?bb) (\<lambda>bp t. wp (
      thn (bdata_put bp (bm_clear ?bi)) (thn (bwrite (Suc (Suc n)) (ide_env NBUF ts) bp) (brelse bp))) ?Q t
      \<and> b_data (bufs t bp) = disk s (dev, ?bb)) u"
      unfolding wp_bnd
      by (rule wp_conj) (rule wp_mono [OF bc.rd [OF u(1)]], use u(4) d in \<open>auto simp: readable_def held_def\<close>)
    then show ?thesis unfolding wp_bnd
      by (rule wp_mono) (use b(3) in \<open>simp add: bdata_def wp used_def\<close>)
  qed
  show ?thesis unfolding bfree_def Let_def wp_thn [of "bzero _ _ _ _"] wp_bnd [of "readsb _ _ _"]
    by (rule wp_mono [OF wp_bfree_prefix [OF ok sb r b(1)]], erule wp_mono) (use fin in blast)
qed

lemma bfree_free:
  assumes ok: "bcache_ok H i s" and sb: "sb = get_sb (disk s (dev, 1))"
    and r: "readable H s (dev, b)" "readable H s (dev, 1)" "readable H s (dev, BBLOCK b (sb_ninodes sb))"
    and b: "b \<noteq> 1" "b \<noteq> BBLOCK b (sb_ninodes sb)" "\<not> used sb dev (disk s) b"
  shows "bfree (Suc (Suc n)) (ide_env NBUF ts) dev b s = Panic ''freeing free block''"
  unfolding bfree_def Let_def
proof (rule thn_outcome [OF wp_bfree_prefix [OF ok sb r b(1)]], rule bnd_outcome, assumption, clarify)
  fix u assume u: "bcache_ok H i u" "bstep i H s u" "disk u = (disk s)((dev, b) := replicate BSIZE 0)"
    "readable H u (dev, BBLOCK b (sb_ninodes sb))"
  show "bnd (bread (Suc (Suc n)) (ide_env NBUF ts) dev (BBLOCK b (sb_ninodes sb))) (\<lambda>bp. bnd (bdata bp) (\<lambda>d.
      if \<not> bm_test d (unat (b mod BPB)) then panic ''freeing free block''
      else thn (bdata_put bp (bm_clear (unat (b mod BPB)))) (thn (bwrite (Suc (Suc n)) (ide_env NBUF ts) bp) (brelse bp)))) u
    = Panic ''freeing free block''"
    by (rule bnd_outcome [OF bc.rd [OF u(1)]])
      (use u b in \<open>auto simp: readable_def held_def bdata_def used_def kop_defs\<close>)
qed

section \<open>Properties\<close>

lemma bm_clear_set:
  assumes "bi < 8 * length d" "\<not> bm_test d bi"
  shows "bm_clear bi (bm_set bi d) = d"
proof (rule nth_equalityI)
  fix j assume j: "j < length (bm_clear bi (bm_set bi d))"
  have "(d ! (bi div 8) OR bm_mask bi) AND NOT (bm_mask bi) = d ! (bi div 8)"
  proof (rule bit_word_eqI)
    fix n assume "n < LENGTH(8)"
    then show "bit ((d ! (bi div 8) OR bm_mask bi) AND NOT (bm_mask bi)) n = bit (d ! (bi div 8)) n"
      using assms(2) by (cases "n = bi mod 8") (auto simp: bm_test_bit bit_simps bit_bm_mask)
  qed
  moreover have "bi div 8 < length d" using assms(1) by auto
  ultimately show "bm_clear bi (bm_set bi d) ! j = d ! j"
    using j by (simp add: bm_clear_def bm_set_def nth_list_update)
qed simp

text \<open>C14. \<^verbatim>\<open>balloc\<close> is a first-fit allocator: when some block that a scanned bitmap block
  describes is free, it returns the least free block number, which was not in use, and marks
  exactly that block.\<close>

theorem balloc_first_fit:
  assumes "bcache_ok H i s" "sb = get_sb (disk s (dev, 1))" "readable H s (dev, 1)"
    and "\<And>b. readable H s (dev, BBLOCK b (sb_ninodes sb))"
    and "first_free sb dev (disk s) a" "unat a div 4096 * 4096 < unat (sb_size sb)"
  shows "wp (balloc (Suc (Suc n)) (ide_env NBUF ts) dev) (\<lambda>x t. x = a \<and> bcache_ok H i t \<and> bstep i H s t
    \<and> (\<forall>b. used sb dev (disk t) b \<longleftrightarrow> b = a \<or> used sb dev (disk s) b)
    \<and> (\<forall>k. k \<noteq> (dev, BBLOCK a (sb_ninodes sb)) \<longrightarrow> disk t k = disk s k)) s"
  by (rule wp_mono [OF wp_balloc [OF assms]])
    (simp add: used_set(1) [where D = "disk s", OF bc.block_size [OF assms(1)]])

text \<open>C15. Round trip: allocating a block and freeing it again leaves the bitmap, and every other
  block, as they were; the block itself is zeroed.\<close>

theorem balloc_bfree_roundtrip:
  assumes ok: "bcache_ok H i s" and sb: "sb = get_sb (disk s (dev, 1))" and r1: "readable H s (dev, 1)"
    and rb: "\<And>b. readable H s (dev, BBLOCK b (sb_ninodes sb))"
    and a: "first_free sb dev (disk s) a" "unat a div 4096 * 4096 < unat (sb_size sb)"
    and da: "readable H s (dev, a)" "a \<noteq> 1" "a \<noteq> BBLOCK a (sb_ninodes sb)" "1 \<noteq> BBLOCK a (sb_ninodes sb)"
  shows "wp (bnd (balloc (Suc (Suc n)) (ide_env NBUF ts) dev) (bfree (Suc (Suc n)) (ide_env NBUF ts) dev))
    (\<lambda>_ t. bcache_ok H i t \<and> bstep i H s t \<and> disk t = (disk s)((dev, a) := replicate BSIZE 0)) s"
proof (rule wp_bndI [OF wp_balloc [OF ok sb r1 rb a]], clarify)
  let ?k = "(dev, BBLOCK a (sb_ninodes sb))" and ?bi = "unat (a mod BPB)"
  fix t assume t: "bcache_ok H i t" "bstep i H s t" "disk t = (disk s)(?k := bm_set ?bi (disk s ?k))"
  have d: "disk t (dev, 1) = disk s (dev, 1)" using t(3) da(4) by simp
  have u: "used sb dev (disk t) a" unfolding t(3) used_set(1) [where D = "disk s", OF bc.block_size [OF ok]] by simp
  have l: "?bi < 8 * length (disk s ?k)" unfolding bc.block_size [OF ok] by (simp add: unat_BPB BSIZE_def)
  have "\<not> bm_test (disk s ?k) ?bi" using a(1) by (simp add: first_free_def used_def)
  from bm_clear_set [OF l this] have c: "bm_clear ?bi (disk t ?k) = disk s ?k" unfolding t(3) by simp
  show "wp (bfree (Suc (Suc n)) (ide_env NBUF ts) dev a)
    (\<lambda>_ t. bcache_ok H i t \<and> bstep i H s t \<and> disk t = (disk s)((dev, a) := replicate BSIZE 0)) t"
    by (rule wp_mono [OF wp_bfree [OF t(1), of sb]])
      (use da r1 rb u c d sb t bstep_trans [OF t(2)] readable_bstep [OF t(2)] in \<open>auto simp: fun_upd_twist\<close>)
qed

text \<open>Freeing a block that is not in use panics.\<close>

theorem bfree_free_panics:
  assumes "bcache_ok H i s" "sb = get_sb (disk s (dev, 1))"
    and "readable H s (dev, b)" "readable H s (dev, 1)" "readable H s (dev, BBLOCK b (sb_ninodes sb))"
    and "b \<noteq> 1" "b \<noteq> BBLOCK b (sb_ninodes sb)" "\<not> used sb dev (disk s) b"
  shows "bfree (Suc (Suc n)) (ide_env NBUF ts) dev b s = Panic ''freeing free block''"
  by (rule bfree_free [OF assms])

text \<open>A file system for examples: 1024 blocks, 200 inodes, so that the bitmap is block 28; the
  first three blocks are in use.\<close>

definition fs_ex_disk :: "u32 \<times> u32 \<Rightarrow> u8 list" where
  "fs_ex_disk = (\<lambda>_. replicate BSIZE 0)
     ((0, 1) := bytes32 1024 @ bytes32 995 @ bytes32 200 @ replicate 500 0,
      (0, 28) := 7 # replicate 511 0)"

definition fs_ex :: "unit idest_scheme" where
  "fs_ex = bio_ex1\<lparr>disk := fs_ex_disk\<rparr>"

lemma fs_ex_sb: "get_sb (fs_ex_disk (0, 1)) = \<lparr>sb_size = 1024, sb_nblocks = 995, sb_ninodes = 200\<rparr>"
  by (simp add: fs_ex_disk_def get_sb_def get32_def bslice_def)

lemma fs_ex_BBLOCK: "BBLOCK b 200 = b div BPB + 28"
  by (simp add: BBLOCK_def IPB_def)

lemma fs_ex_ok: "bcache_ok {} 2 fs_ex"
proof -
  have "length (fs_ex_disk k) = BSIZE" for k by (simp add: fs_ex_disk_def BSIZE_def)
  from binv_init(1) [where B = "\<lambda>_. buf_zero", OF bio_ex_facts(7) this] bio_ex_facts(1-3) show ?thesis
    by (simp add: fs_ex_def bio_ex1_def bcache_ok_def)
qed

lemma fs_ex_readable: "b AND 0x0fffffff = b \<Longrightarrow> readable {} fs_ex (0, b)"
  by (simp add: readable_def key_ok_def NBUF_def)

lemma fs_ex_bitmap_readable: "readable {} fs_ex (0, BBLOCK b 200)"
proof (rule fs_ex_readable)
  have "unat (b div BPB + 28) = unat b div 4096 + 28"
    using unat_lt32 [of b] by (subst unat_add_lt) (simp_all add: unat_BPB)
  then have lt: "unat (BBLOCK b 200) < 2 ^ 28" using unat_lt32 [of b] by (simp add: fs_ex_BBLOCK)
  have m: "(0x0fffffff :: u32) = mask 28" by (simp add: mask_eq_exp_minus_1)
  have "unat (take_bit 28 (BBLOCK b 200)) = unat (BBLOCK b 200)"
    using lt by (simp add: unsigned_take_bit_eq take_bit_nat_eq_self)
  then show "BBLOCK b 200 AND 0x0fffffff = BBLOCK b 200"
    unfolding m take_bit_eq_mask [symmetric] word_unat_eq_iff .
qed

lemma fs_ex_used: "unat b < 4096 \<Longrightarrow> used (get_sb (fs_ex_disk (0, 1))) 0 fs_ex_disk b \<longleftrightarrow> unat b < 3"
proof -
  assume b: "unat b < 4096"
  have "bit (7 :: u8) n \<longleftrightarrow> n < 3" for n
  proof -
    have e: "(7 :: u8) = mask 3" by (simp add: mask_eq_exp_minus_1)
    show ?thesis unfolding e bit_mask_iff by auto
  qed
  moreover have "(7 # replicate 511 0) ! (unat b div 8) = (if unat b < 8 then 7 else 0 :: u8)"
    using b by (simp add: nth_Cons' div_eq_0_iff)
  ultimately have "bm_test (7 # replicate 511 0) (unat b) \<longleftrightarrow> unat b < 3"
    unfolding bm_test_bit by (cases "unat b < 8") (simp_all only: if_True if_False mod_less bit_0_eq, auto)
  then show "used (get_sb (fs_ex_disk (0, 1))) 0 fs_ex_disk b \<longleftrightarrow> unat b < 3"
    using used_block [of b 0 "get_sb (fs_ex_disk (0, 1))" 0 fs_ex_disk] b
    by (simp add: fs_ex_sb fs_ex_BBLOCK) (simp add: fs_ex_disk_def)
qed

lemma fs_ex_first_free: "first_free (get_sb (fs_ex_disk (0, 1))) 0 fs_ex_disk 3"
  by (simp add: first_free_def fs_ex_used word_less_nat_alt)

lemma balloc_first_fit_witness:
  "wp (balloc 2 (ide_env NBUF 0) 0) (\<lambda>x t. x = 3 \<and> bcache_ok {} 2 t
    \<and> used (get_sb (fs_ex_disk (0, 1))) 0 (disk t) 3 \<and> \<not> used (get_sb (fs_ex_disk (0, 1))) 0 (disk t) 4) fs_ex"
proof -
  have d: "disk fs_ex = fs_ex_disk" by (simp add: fs_ex_def)
  have "wp (balloc (Suc (Suc 0)) (ide_env NBUF 0) 0) (\<lambda>x t. x = 3 \<and> bcache_ok {} 2 t \<and> bstep 2 {} fs_ex t
    \<and> (\<forall>b. used (get_sb (fs_ex_disk (0, 1))) 0 (disk t) b \<longleftrightarrow> b = 3 \<or> used (get_sb (fs_ex_disk (0, 1))) 0 (disk fs_ex) b)
    \<and> (\<forall>k. k \<noteq> (0, BBLOCK 3 (sb_ninodes (get_sb (fs_ex_disk (0, 1))))) \<longrightarrow> disk t k = disk fs_ex k)) fs_ex"
  proof (rule balloc_first_fit [OF fs_ex_ok])
    show "first_free (get_sb (fs_ex_disk (0, 1))) 0 (disk fs_ex) 3" unfolding d by (rule fs_ex_first_free)
    show "readable {} fs_ex (0, BBLOCK b (sb_ninodes (get_sb (fs_ex_disk (0, 1)))))" for b
      using fs_ex_bitmap_readable by (simp add: fs_ex_sb)
  qed (simp_all add: d fs_ex_readable fs_ex_sb)
  moreover have "\<not> used (get_sb (fs_ex_disk (0, 1))) 0 fs_ex_disk 4" by (simp add: fs_ex_used)
  ultimately show ?thesis unfolding numeral_2_eq_2 d
    by (elim wp_mono) auto
qed

lemma fs_ex_disk_eq: "disk fs_ex = fs_ex_disk"
  by (simp add: fs_ex_def)

lemma fs_ex_BB: "BBLOCK 3 200 = 28" "BBLOCK 4 200 = 28"
  by (simp_all add: fs_ex_BBLOCK BPB_def)

lemma balloc_bfree_roundtrip_witness:
  "wp (bnd (balloc 2 (ide_env NBUF 0) 0) (bfree 2 (ide_env NBUF 0) 0))
    (\<lambda>_ t. bcache_ok {} 2 t \<and> disk t = fs_ex_disk((0, 3) := replicate BSIZE 0)) fs_ex"
proof -
  have "wp (bnd (balloc (Suc (Suc 0)) (ide_env NBUF 0) 0) (bfree (Suc (Suc 0)) (ide_env NBUF 0) 0))
    (\<lambda>_ t. bcache_ok {} 2 t \<and> bstep 2 {} fs_ex t \<and> disk t = (disk fs_ex)((0, 3) := replicate BSIZE 0)) fs_ex"
  proof (rule balloc_bfree_roundtrip [OF fs_ex_ok refl])
    show "first_free (get_sb (disk fs_ex (0, 1))) 0 (disk fs_ex) 3"
      unfolding fs_ex_disk_eq by (rule fs_ex_first_free)
    show "readable {} fs_ex (0, BBLOCK b (sb_ninodes (get_sb (disk fs_ex (0, 1)))))" for b
      using fs_ex_bitmap_readable by (simp add: fs_ex_disk_eq fs_ex_sb)
  qed (simp_all add: fs_ex_disk_eq fs_ex_readable fs_ex_sb fs_ex_BB)
  then show ?thesis unfolding numeral_2_eq_2 fs_ex_disk_eq by (elim wp_mono) simp
qed

lemma bfree_free_panics_witness:
  "bfree 2 (ide_env NBUF 0) 0 4 fs_ex = Panic ''freeing free block''"
  unfolding numeral_2_eq_2
  by (rule bfree_free_panics [OF fs_ex_ok refl])
    (simp_all add: fs_ex_disk_eq fs_ex_readable fs_ex_sb fs_ex_BB fs_ex_used [simplified fs_ex_sb])

end
