(* ===== verification/Fs_Inode.thy ===== *)
theory Fs_Inode
  imports Fs_Block
begin

text \<open>
  Inodes (\<^verbatim>\<open>fs.c\<close>): the in-memory inode cache with its reference counts and
  \<^verbatim>\<open>I_BUSY\<close> locks, copying inodes from and to the disk, the map from file blocks to disk
  blocks, and reading and writing file contents.

  An inode pointer is an index into \<^verbatim>\<open>icache.inode[]\<close>. The buffer that \<^verbatim>\<open>readi\<close>
  fills is the list of bytes it returns, the one \<^verbatim>\<open>writei\<close> reads is a list argument.
  Device files go through the table \<open>dv\<close> (\<^verbatim>\<open>devsw[]\<close>).
\<close>

section \<open>State\<close>

definition I_BUSY :: u32 where "I_BUSY = 1"
definition I_VALID :: u32 where "I_VALID = 2"
definition T_DIR :: u16 where "T_DIR = 1"
definition T_FILE :: u16 where "T_FILE = 2"
definition T_DEV :: u16 where "T_DEV = 3"

text \<open>\<open>i_d\<close> is the copy of the disk inode.\<close>

record inode =
  i_dev :: u32
  i_inum :: u32
  i_ref :: int
  i_flags :: u32
  i_d :: dinode

record fsst = idest +
  icache :: "nat \<Rightarrow> inode"

definition upd_ino :: "nat \<Rightarrow> (inode \<Rightarrow> inode) \<Rightarrow> 'a fsst_scheme \<Rightarrow> 'a fsst_scheme" where
  "upd_ino ip f s = s\<lparr>icache := (icache s)(ip := f (icache s ip))\<rparr>"

abbreviation ino :: "nat \<Rightarrow> ('a fsst_scheme, inode) kop" where
  "ino ip \<equiv> gets (\<lambda>s. icache s ip)"

abbreviation set_ino :: "nat \<Rightarrow> (inode \<Rightarrow> inode) \<Rightarrow> ('a fsst_scheme, unit) kop" where
  "set_ino ip f \<equiv> modify (upd_ino ip f)"

text \<open>\<^verbatim>\<open>devsw[]\<close>: the read and write routines of the device numbers below \<open>NDEV\<close>; a read
  answers the bytes with the count.\<close>

record 's devsw =
  dev_read :: "nat \<Rightarrow> (nat \<Rightarrow> u32 \<Rightarrow> ('s, int \<times> u8 list) kop) option"
  dev_write :: "nat \<Rightarrow> (nat \<Rightarrow> u8 list \<Rightarrow> u32 \<Rightarrow> ('s, int) kop) option"

section \<open>The inode cache\<close>

definition iinit :: "('a fsst_scheme, unit) kop" where
  "iinit = initlock IcacheLock ''icache''"

text \<open>One round of the scan: it ends at the slot of the inode; otherwise it remembers the first
  empty slot.\<close>

definition iget_slot ::
  "u32 \<Rightarrow> u32 \<Rightarrow> nat \<times> nat option \<Rightarrow> ('a fsst_scheme, (nat \<times> nat option) + (nat + nat option)) kop" where
  "iget_slot dev inum = (\<lambda>(ip, empty).
    if ip < NINODE then
      bnd (ino ip) (\<lambda>x.
      if i_ref x > 0 \<and> i_dev x = dev \<and> i_inum x = inum then
        thn (set_ino ip (\<lambda>x. x\<lparr>i_ref := i_ref x + 1\<rparr>)) (
        thn (release IcacheLock) (
        ret (Inr (Inl ip))))
      else ret (Inl (ip + 1, if empty = None \<and> i_ref x = 0 then Some ip else empty)))
    else ret (Inr (Inr empty)))"

definition iget :: "u32 \<Rightarrow> u32 \<Rightarrow> ('a fsst_scheme, nat) kop" where
  "iget dev inum =
    thn (acquire IcacheLock) (
    bnd (loop_fuel (NINODE + 1) (iget_slot dev inum) (0, None)) (\<lambda>r.
    case r of
      Inl ip \<Rightarrow> ret ip
    | Inr None \<Rightarrow> panic ''iget: no inodes''
    | Inr (Some ip) \<Rightarrow>
        thn (set_ino ip (\<lambda>x. x\<lparr>i_dev := dev, i_inum := inum, i_ref := 1, i_flags := 0\<rparr>)) (
        thn (release IcacheLock) (
        ret ip))))"

definition idup :: "nat \<Rightarrow> ('a fsst_scheme, nat) kop" where
  "idup ip =
    thn (acquire IcacheLock) (
    thn (set_ino ip (\<lambda>x. x\<lparr>i_ref := i_ref x + 1\<rparr>)) (
    thn (release IcacheLock) (
    ret ip)))"

text \<open>The inode of number \<open>inum\<close> in its block.\<close>

definition dinode_off :: "u32 \<Rightarrow> nat" where
  "dinode_off inum = unat (inum mod IPB) * DINODE_SIZE"

definition ialloc ::
  "nat \<Rightarrow> ('a fsst_scheme, unit) kop \<Rightarrow> u32 \<Rightarrow> u16 \<Rightarrow> ('a fsst_scheme, nat) kop" where
  "ialloc n env dev type =
    bnd (readsb n env dev) (\<lambda>sb.
    loop_fuel (unat (sb_ninodes sb) + 1) (\<lambda>inum.
      if inum < sb_ninodes sb then
        bnd (bread n env dev (IBLOCK inum)) (\<lambda>bp.
        bnd (bdata bp) (\<lambda>d.
        if di_type (get_dinode d (dinode_off inum)) = 0 then
          thn (bdata_put bp (\<lambda>d. bsplice d (dinode_off inum) (replicate DINODE_SIZE 0))) (
          thn (bdata_put bp (put16 (dinode_off inum) type)) (
          thn (bwrite n env bp) (
          thn (brelse bp) (
          bnd (iget dev inum) (\<lambda>ip.
          ret (Inr ip))))))
        else thn (brelse bp) (ret (Inl (inum + 1)))))
      else panic ''ialloc: no inodes'') 1)"

definition iupdate :: "nat \<Rightarrow> ('a fsst_scheme, unit) kop \<Rightarrow> nat \<Rightarrow> ('a fsst_scheme, unit) kop" where
  "iupdate n env ip =
    bnd (ino ip) (\<lambda>x.
    bnd (bread n env (i_dev x) (IBLOCK (i_inum x))) (\<lambda>bp.
    thn (bdata_put bp (put_dinode (dinode_off (i_inum x)) (i_d x))) (
    thn (bwrite n env bp) (
    brelse bp))))"

text \<open>The second half of \<^verbatim>\<open>ilock\<close>: the copy from the disk.\<close>

definition ilock_load :: "nat \<Rightarrow> ('a fsst_scheme, unit) kop \<Rightarrow> nat \<Rightarrow> ('a fsst_scheme, unit) kop" where
  "ilock_load n env ip =
    bnd (ino ip) (\<lambda>x.
    whenk (i_flags x AND I_VALID = 0) (
      bnd (bread n env (i_dev x) (IBLOCK (i_inum x))) (\<lambda>bp.
      bnd (bdata bp) (\<lambda>d.
      thn (set_ino ip (\<lambda>y. y\<lparr>i_d := get_dinode d (dinode_off (i_inum x))\<rparr>)) (
      thn (brelse bp) (
      thn (set_ino ip (\<lambda>y. y\<lparr>i_flags := i_flags y OR I_VALID\<rparr>)) (
      bnd (ino ip) (\<lambda>y.
      whenk (di_type (i_d y) = 0) (panic ''ilock: no type'')))))))))"

definition ilock :: "nat \<Rightarrow> ('a fsst_scheme, unit) kop \<Rightarrow> nat \<Rightarrow> ('a fsst_scheme, unit) kop" where
  "ilock n env ip =
    bnd (ino ip) (\<lambda>x.
    if i_ref x < 1 then panic ''ilock''
    else
    thn (acquire IcacheLock) (
    thn (loop_fuel n (\<lambda>_.
      bnd (ino ip) (\<lambda>x.
      if i_flags x AND I_BUSY \<noteq> 0
      then thn (sleep env (ChInode ip) (Some IcacheLock)) (ret (Inl ()))
      else ret (Inr ()))) ()) (
    thn (set_ino ip (\<lambda>x. x\<lparr>i_flags := i_flags x OR I_BUSY\<rparr>)) (
    thn (release IcacheLock) (
    ilock_load n env ip)))))"

definition iunlock :: "nat \<Rightarrow> ('a fsst_scheme, unit) kop" where
  "iunlock ip =
    bnd (ino ip) (\<lambda>x.
    if i_flags x AND I_BUSY = 0 \<or> i_ref x < 1 then panic ''iunlock''
    else seqs [
      acquire IcacheLock,
      set_ino ip (\<lambda>x. x\<lparr>i_flags := i_flags x AND NOT I_BUSY\<rparr>),
      wakeup (ChInode ip),
      release IcacheLock])"

section \<open>Contents\<close>

text \<open>The block number is stored before the caller goes on: first \<^verbatim>\<open>balloc\<close>, then the
  assignment to \<^verbatim>\<open>addrs\<close>.\<close>

definition set_addr :: "nat \<Rightarrow> u32 \<Rightarrow> inode \<Rightarrow> inode" where
  "set_addr k a x = x\<lparr>i_d := (i_d x)\<lparr>di_addrs := (di_addrs (i_d x))[k := a]\<rparr>\<rparr>"

definition bmap :: "nat \<Rightarrow> ('a fsst_scheme, unit) kop \<Rightarrow> nat \<Rightarrow> u32 \<Rightarrow> ('a fsst_scheme, u32) kop" where
  "bmap n env ip bn =
    bnd (ino ip) (\<lambda>x.
    if unat bn < NDIRECT then
      let addr = di_addrs (i_d x) ! unat bn in
      if addr = 0 then
        bnd (balloc n env (i_dev x)) (\<lambda>addr.
        thn (set_ino ip (set_addr (unat bn) addr)) (
        ret addr))
      else ret addr
    else
      let bn = unat bn - NDIRECT in
      if bn < NINDIRECT then
        bnd (if di_addrs (i_d x) ! NDIRECT = 0 then
            bnd (balloc n env (i_dev x)) (\<lambda>addr.
            thn (set_ino ip (set_addr NDIRECT addr)) (
            ret addr))
          else ret (di_addrs (i_d x) ! NDIRECT)) (\<lambda>addr.
        bnd (bread n env (i_dev x) addr) (\<lambda>bp.
        bnd (bdata bp) (\<lambda>a.
        bnd (if get32 a (4 * bn) = 0 then
            bnd (balloc n env (i_dev x)) (\<lambda>addr.
            thn (bdata_put bp (put32 (4 * bn) addr)) (
            thn (bwrite n env bp) (
            ret addr)))
          else ret (get32 a (4 * bn))) (\<lambda>addr.
        thn (brelse bp) (
        ret addr)))))
      else panic ''bmap: out of range'')"

definition itrunc :: "nat \<Rightarrow> ('a fsst_scheme, unit) kop \<Rightarrow> nat \<Rightarrow> ('a fsst_scheme, unit) kop" where
  "itrunc n env ip = seqs [
    for_each [0..<NDIRECT] (\<lambda>k.
      bnd (ino ip) (\<lambda>x.
      whenk (di_addrs (i_d x) ! k \<noteq> 0) (seqs [
        bfree n env (i_dev x) (di_addrs (i_d x) ! k),
        set_ino ip (set_addr k 0)]))),
    bnd (ino ip) (\<lambda>x.
    whenk (di_addrs (i_d x) ! NDIRECT \<noteq> 0) (
      bnd (bread n env (i_dev x) (di_addrs (i_d x) ! NDIRECT)) (\<lambda>bp. seqs [
        for_each [0..<NINDIRECT] (\<lambda>j.
          bnd (bdata bp) (\<lambda>a.
          whenk (get32 a (4 * j) \<noteq> 0) (bfree n env (i_dev x) (get32 a (4 * j))))),
        brelse bp,
        bfree n env (i_dev x) (di_addrs (i_d x) ! NDIRECT),
        set_ino ip (set_addr NDIRECT 0)]))),
    set_ino ip (\<lambda>x. x\<lparr>i_d := (i_d x)\<lparr>di_size := 0\<rparr>\<rparr>),
    iupdate n env ip]"

definition iput :: "nat \<Rightarrow> ('a fsst_scheme, unit) kop \<Rightarrow> nat \<Rightarrow> ('a fsst_scheme, unit) kop" where
  "iput n env ip =
    thn (acquire IcacheLock) (
    bnd (ino ip) (\<lambda>x.
    thn (whenk (i_ref x = 1 \<and> i_flags x AND I_VALID \<noteq> 0 \<and> di_nlink (i_d x) = 0) (
      if i_flags x AND I_BUSY \<noteq> 0 then panic ''iput busy''
      else seqs [
        set_ino ip (\<lambda>x. x\<lparr>i_flags := i_flags x OR I_BUSY\<rparr>),
        release IcacheLock,
        itrunc n env ip,
        set_ino ip (\<lambda>x. x\<lparr>i_d := (i_d x)\<lparr>di_type := 0\<rparr>\<rparr>),
        iupdate n env ip,
        acquire IcacheLock,
        set_ino ip (\<lambda>x. x\<lparr>i_flags := 0\<rparr>),
        wakeup (ChInode ip)])) (
    thn (set_ino ip (\<lambda>x. x\<lparr>i_ref := i_ref x - 1\<rparr>)) (
    release IcacheLock))))"

definition iunlockput :: "nat \<Rightarrow> ('a fsst_scheme, unit) kop \<Rightarrow> nat \<Rightarrow> ('a fsst_scheme, unit) kop" where
  "iunlockput n env ip = thn (iunlock ip) (iput n env ip)"

record stat =
  st_type :: u16
  st_dev :: u32
  st_ino :: u32
  st_nlink :: u16
  st_size :: u32

definition stati :: "nat \<Rightarrow> ('a fsst_scheme, stat) kop" where
  "stati ip = bnd (ino ip) (\<lambda>x. ret \<lparr>st_type = di_type (i_d x), st_dev = i_dev x, st_ino = i_inum x,
     st_nlink = di_nlink (i_d x), st_size = di_size (i_d x)\<rparr>)"

text \<open>The major number is a signed 16-bit integer.\<close>

definition devno :: "u16 \<Rightarrow> nat option" where
  "devno major = (if sint major < 0 \<or> sint major \<ge> int NDEV then None else Some (nat (sint major)))"

text \<open>One round of the copy loop of \<^verbatim>\<open>readi\<close>, for the inode \<open>x\<close> at index \<open>ip\<close>; the loop
  variables are \<^verbatim>\<open>tot\<close>, \<^verbatim>\<open>off\<close> and the bytes copied so far. Every round but the first and
  the last moves a whole block.\<close>

definition readi_round ::
  "nat \<Rightarrow> ('a fsst_scheme, unit) kop \<Rightarrow> nat \<Rightarrow> u32 \<Rightarrow> u32 \<Rightarrow> u32 \<times> u32 \<times> u8 list \<Rightarrow>
   ('a fsst_scheme, (u32 \<times> u32 \<times> u8 list) + u8 list) kop" where
  "readi_round n env ip dev cnt = (\<lambda>(tot, off, dst).
    if tot < cnt then
      bnd (bmap n env ip (off div of_nat BSIZE)) (\<lambda>b.
      bnd (bread n env dev b) (\<lambda>bp.
      bnd (bdata bp) (\<lambda>d.
      thn (brelse bp) (
      let m = min (cnt - tot) (of_nat BSIZE - off mod of_nat BSIZE) in
      ret (Inl (tot + m, off + m, dst @ bslice d (unat (off mod of_nat BSIZE)) (unat m)))))))
    else ret (Inr dst))"

definition readi ::
  "nat \<Rightarrow> ('a fsst_scheme, unit) kop \<Rightarrow> 'a fsst_scheme devsw \<Rightarrow> nat \<Rightarrow> u32 \<Rightarrow> u32 \<Rightarrow>
   ('a fsst_scheme, int \<times> u8 list) kop" where
  "readi n env dv ip off cnt =
    bnd (ino ip) (\<lambda>x.
    if di_type (i_d x) = T_DEV then
      (case Option.bind (devno (di_major (i_d x))) (dev_read dv) of
         None \<Rightarrow> ret (- 1, [])
       | Some rd \<Rightarrow> rd ip cnt)
    else if off > di_size (i_d x) \<or> off + cnt < off then ret (- 1, [])
    else
      let cnt = (if off + cnt > di_size (i_d x) then di_size (i_d x) - off else cnt) in
      bnd (loop_fuel (unat cnt div BSIZE + 3) (readi_round n env ip (i_dev x) cnt) (0, off, [])) (\<lambda>dst.
      ret (sint cnt, dst)))"

definition writei_round ::
  "nat \<Rightarrow> ('a fsst_scheme, unit) kop \<Rightarrow> nat \<Rightarrow> u32 \<Rightarrow> u8 list \<Rightarrow> u32 \<Rightarrow> u32 \<times> u32 \<Rightarrow>
   ('a fsst_scheme, (u32 \<times> u32) + u32) kop" where
  "writei_round n env ip dev src cnt = (\<lambda>(tot, off).
    if tot < cnt then
      bnd (bmap n env ip (off div of_nat BSIZE)) (\<lambda>b.
      let m = min (cnt - tot) (of_nat BSIZE - off mod of_nat BSIZE) in
      if length src < unat tot + unat m then undef
      else
      bnd (bread n env dev b) (\<lambda>bp.
      thn (bdata_put bp (\<lambda>d. bsplice d (unat (off mod of_nat BSIZE)) (bslice src (unat tot) (unat m)))) (
      thn (bwrite n env bp) (
      thn (brelse bp) (
      ret (Inl (tot + m, off + m)))))))
    else ret (Inr off))"

definition writei ::
  "nat \<Rightarrow> ('a fsst_scheme, unit) kop \<Rightarrow> 'a fsst_scheme devsw \<Rightarrow> nat \<Rightarrow> u8 list \<Rightarrow> u32 \<Rightarrow> u32 \<Rightarrow>
   ('a fsst_scheme, int) kop" where
  "writei n env dv ip src off cnt =
    bnd (ino ip) (\<lambda>x.
    if di_type (i_d x) = T_DEV then
      (case Option.bind (devno (di_major (i_d x))) (dev_write dv) of
         None \<Rightarrow> ret (- 1)
       | Some wr \<Rightarrow> wr ip src cnt)
    else if off > di_size (i_d x) \<or> off + cnt < off then ret (- 1)
    else
      let cnt = (if off + cnt > of_nat (MAXFILE * BSIZE) then of_nat (MAXFILE * BSIZE) - off else cnt) in
      bnd (loop_fuel (unat cnt div BSIZE + 3) (writei_round n env ip (i_dev x) src cnt) (0, off)) (\<lambda>off.
      bnd (ino ip) (\<lambda>y.
      thn (whenk (cnt > 0 \<and> off > di_size (i_d y)) (seqs [
        set_ino ip (\<lambda>y. y\<lparr>i_d := (i_d y)\<lparr>di_size := off\<rparr>\<rparr>),
        iupdate n env ip])) (
      ret (sint cnt)))))"

section \<open>Framing\<close>

lemma fsst_lock_sel [simp]:
  "icache (acq lk s) = icache s"
  "fsst.more (acq lk s) = fsst.more s"
  "icache (rel lk s) = icache s"
  "fsst.more (rel lk s) = fsst.more s"
  "icache (lockround lk s) = icache s"
  "fsst.more (lockround lk s) = fsst.more s"
  by (simp_all add: acq_def rel_def lockround_def)

lemma fsst_lock_upd [simp]:
  "acq lk (icache_update g_icache s) = icache_update g_icache (acq lk s)"
  "rel lk (icache_update g_icache s) = icache_update g_icache (rel lk s)"
  "lockround lk (icache_update g_icache s) = icache_update g_icache (lockround lk s)"
  by (simp_all add: acq_def rel_def lockround_def)

lemma fsst_lock_inv [simp]:
  "lock_free lk (icache_update g_icache s) = lock_free lk s"
  "lock_mine lk (icache_update g_icache s) = lock_mine lk s"
  "cli_ok (icache_update g_icache s) = cli_ok s"
  by (simp_all add: lock_free_def lock_mine_def cli_ok_def)

lemma fsst_calm_upd [simp]:
  "calm s (icache_update g_icache t) = calm s t"
  "calm (icache_update g_icache s) t = calm s t"
  by (simp_all add: calm_def)

lemma fsst_cpu_sel [simp]:
  "icache (upd_cpu h s) = icache s"
  "fsst.more (upd_cpu h s) = fsst.more s"
  by (simp_all add: upd_cpu_def)

lemma fsst_proc_sel [simp]: "icache (upd_proc i f s) = icache s" "fsst.more (upd_proc i f s) = fsst.more s"
  by (simp_all add: upd_proc_def)

lemma upd_ino_sel [simp]:
  "icache (upd_ino ip f s) = (icache s)(ip := f (icache s ip))" "ptab (upd_ino ip f s) = ptab s"
  "bufs (upd_ino ip f s) = bufs s" "disk (upd_ino ip f s) = disk s" "havedisk1 (upd_ino ip f s) = havedisk1 s"
  "cpus (upd_ino ip f s) = cpus s" "this_cpu (upd_ino ip f s) = this_cpu s"
  by (simp_all add: upd_ino_def)

lemma upd_ino_lock [simp]:
  "acq lk (upd_ino ip f s) = upd_ino ip f (acq lk s)" "rel lk (upd_ino ip f s) = upd_ino ip f (rel lk s)"
  "lockround lk (upd_ino ip f s) = upd_ino ip f (lockround lk s)"
  "lock_free lk (upd_ino ip f s) = lock_free lk s" "cli_ok (upd_ino ip f s) = cli_ok s"
  "calm s (upd_ino ip f t) = calm s t" "calm (upd_ino ip f s) t = calm s t"
  by (simp_all add: upd_ino_def)

lemma only_ide_icache: "only_ide s t \<Longrightarrow> icache t = icache s"
  by (subst only_ide_def [THEN iffD1], assumption, simp)

lemma icache_upd_inv [simp]:
  "proc_ctx i (icache_update f s) = proc_ctx i s" "bcache_ok H i (icache_update f s) = bcache_ok H i s"
  "held (icache_update f s) = held s" "readable H (icache_update f s) k = readable H s k"
  by (simp_all add: proc_ctx_def bcache_ok_def ide_ready_def held_def fun_eq_iff readable_def)

lemma upd_ino_inv [simp]:
  "proc_ctx i (upd_ino ip f s) = proc_ctx i s" "bcache_ok H i (upd_ino ip f s) = bcache_ok H i s"
  "held (upd_ino ip f s) = held s" "readable H (upd_ino ip f s) k = readable H s k"
  by (simp_all add: upd_ino_def)

text \<open>What an operation on inodes may change: what the block layer may, and the inode cache.\<close>

definition fstep :: "nat \<Rightarrow> nat set \<Rightarrow> 'a fsst_scheme \<Rightarrow> 'a fsst_scheme \<Rightarrow> bool" where
  "fstep i H s t \<longleftrightarrow> bstep i H (s\<lparr>icache := icache t\<rparr>) t"

lemma fstep_bstep: "bstep i H s t \<Longrightarrow> fstep i H s t"
  using only_ide_icache [of s t] by (simp add: fstep_def bstep_def)

lemma bstep_icache: "bstep i H s t \<Longrightarrow> icache t = icache s"
  using only_ide_icache [of s t] by (simp add: bstep_def)

lemma bstep_upd_icache: "bstep i H s t \<Longrightarrow> bstep i H (s\<lparr>icache := c\<rparr>) (t\<lparr>icache := c\<rparr>)"
proof -
  assume b: "bstep i H s t"
  then have "only_ide (s\<lparr>icache := c\<rparr>) (t\<lparr>icache := c\<rparr>)"
    unfolding bstep_def only_ide_def by (cases s; cases t) simp
  with b show ?thesis by (simp add: bstep_def procs_kept_def)
qed

lemma fstep_trans:
  assumes "fstep i H s t" "fstep i H t u"
  shows "fstep i H s u"
proof -
  have "bstep i H (s\<lparr>icache := icache t, icache := icache u\<rparr>) (t\<lparr>icache := icache u\<rparr>)"
    by (rule bstep_upd_icache) (use assms(1) in \<open>simp add: fstep_def\<close>)
  with assms(2) bstep_trans show ?thesis unfolding fstep_def by simp blast
qed

lemma fstep_upd_ino: "fstep i H s (upd_ino ip f s)"
  by (simp add: fstep_def upd_ino_def bstep_def only_ide_refl procs_kept_def)

section \<open>Reference counting\<close>

definition cached_as :: "(nat \<Rightarrow> inode) \<Rightarrow> u32 \<Rightarrow> u32 \<Rightarrow> nat \<Rightarrow> bool" where
  "cached_as C dev inum ip \<longleftrightarrow> i_ref (C ip) > 0 \<and> i_dev (C ip) = dev \<and> i_inum (C ip) = inum"

lemma upt_split: "k < n \<Longrightarrow> [k..<n] = k # [Suc k..<n]"
  by (rule upt_conv_Cons)

lemma wp_iget_scan:
  assumes "k \<le> NINODE" "NINODE - k < n"
  shows "wp (loop_fuel n (iget_slot dev inum) (k, e)) Q s
    = (case find (cached_as (icache s) dev inum) [k..<NINODE] of
         Some ip \<Rightarrow> wp (release IcacheLock) (\<lambda>_. Q (Inl ip)) (upd_ino ip (\<lambda>x. x\<lparr>i_ref := i_ref x + 1\<rparr>) s)
       | None \<Rightarrow> Q (Inr (if e = None then find (\<lambda>ip. i_ref (icache s ip) = 0) [k..<NINODE] else e)) s)"
  using assms
proof (induction "NINODE - k" arbitrary: k e n)
  case 0
  then obtain m where "n = Suc m" "k = NINODE" by (cases n) auto
  then show ?case by (simp add: wp_loop_fuel_Suc wp iget_slot_def)
next
  case (Suc d)
  then obtain m where m: "n = Suc m" "NINODE - Suc k < m" by (cases n) auto
  have k: "k < NINODE" "d = NINODE - Suc k" "Suc k \<le> NINODE" using Suc.hyps(2) by auto
  note IH = Suc.hyps(1) [OF k(2,3) m(2)]
  have step: "wp (iget_slot dev inum (k, e)) R s = (if cached_as (icache s) dev inum k
      then wp (release IcacheLock) (\<lambda>_. R (Inr (Inl k))) (upd_ino k (\<lambda>x. x\<lparr>i_ref := i_ref x + 1\<rparr>) s)
      else R (Inl (Suc k, if e = None \<and> i_ref (icache s k) = 0 then Some k else e)) s)" for R
    using k(1) by (simp add: iget_slot_def wp cached_as_def)
  show ?case unfolding m(1) wp_loop_fuel_Suc step upt_split [OF k(1)]
    by (cases e; cases "cached_as (icache s) dev inum k"; cases "i_ref (icache s k) = 0")
      (simp_all add: IH split: option.split)
qed

lemma wp_iget:
  assumes "lock_free IcacheLock s" "cli_ok s"
  shows "wp (iget dev inum) Q s = (case find (cached_as (icache s) dev inum) [0..<NINODE] of
      Some ip \<Rightarrow> Q ip (upd_ino ip (\<lambda>x. x\<lparr>i_ref := i_ref x + 1\<rparr>) (lockround IcacheLock s))
    | None \<Rightarrow> (case find (\<lambda>ip. i_ref (icache s ip) = 0) [0..<NINODE] of
        Some ip \<Rightarrow> Q ip (upd_ino ip (\<lambda>x. x\<lparr>i_dev := dev, i_inum := inum, i_ref := 1, i_flags := 0\<rparr>)
          (lockround IcacheLock s))
      | None \<Rightarrow> False))"
proof -
  have rl: "wp (release IcacheLock) R (upd_ino ip f (acq IcacheLock s)) = R () (upd_ino ip f (lockround IcacheLock s))"
    for R ip f
    using wp_release_calm [of IcacheLock s "upd_ino ip f (acq IcacheLock s)" R] assms(2)
    by (simp add: calm_refl lockround_def)
  show ?thesis unfolding iget_def wp_acquire_thn [OF assms(1)] wp_bnd [of "loop_fuel _ _ _"]
    using wp_iget_scan [of 0 "NINODE + 1" dev inum None _ "acq IcacheLock s"]
    by (simp add: rl wp split: option.split)
qed

lemma wp_idup:
  assumes "lock_free IcacheLock s" "cli_ok s"
  shows "wp (idup ip) Q s = Q ip (upd_ino ip (\<lambda>x. x\<lparr>i_ref := i_ref x + 1\<rparr>) (lockround IcacheLock s))"
  using assms wp_release_calm [of IcacheLock s "upd_ino ip (\<lambda>x. x\<lparr>i_ref := i_ref x + 1\<rparr>) (acq IcacheLock s)"]
  by (simp add: idup_def wp wp_acquire calm_refl lockround_def)

text \<open>The invariant of the cache: reference counts are not negative, and no inode has two slots
  in use.\<close>

definition icache_ok :: "(nat \<Rightarrow> inode) \<Rightarrow> bool" where
  "icache_ok C \<longleftrightarrow> (\<forall>ip < NINODE. 0 \<le> i_ref (C ip))
     \<and> (\<forall>ip < NINODE. \<forall>jp < NINODE. i_ref (C ip) > 0 \<longrightarrow> i_ref (C jp) > 0 \<longrightarrow>
          i_dev (C ip) = i_dev (C jp) \<longrightarrow> i_inum (C ip) = i_inum (C jp) \<longrightarrow> ip = jp)"

text \<open>Every reference that \<^verbatim>\<open>iget\<close> and \<^verbatim>\<open>idup\<close> give out is counted.\<close>

lemma icache_ok_iget:
  assumes "icache_ok C" "ip < NINODE" "i_ref (C ip) = 0"
    and "\<And>jp. jp < NINODE \<Longrightarrow> \<not> cached_as C dev inum jp"
  shows "icache_ok (C(ip := (C ip)\<lparr>i_dev := dev, i_inum := inum, i_ref := 1, i_flags := 0\<rparr>))"
  using assms unfolding icache_ok_def cached_as_def by (auto simp: fun_upd_apply)

lemma icache_ok_ref:
  assumes "icache_ok C" "0 < i_ref (C ip)"
  shows "icache_ok (C(ip := (C ip)\<lparr>i_ref := i_ref (C ip) + 1\<rparr>))"
    "icache_ok (C(ip := (C ip)\<lparr>i_ref := i_ref (C ip) - 1\<rparr>))"
  using assms unfolding icache_ok_def by (auto simp: fun_upd_apply)

lemma icache_ok_get:
  assumes "icache_ok (icache s)" "lock_free IcacheLock s" "cli_ok s"
    and "\<exists>ip < NINODE. cached_as (icache s) dev inum ip \<or> i_ref (icache s ip) = 0"
  shows "wp (iget dev inum) (\<lambda>ip t. icache_ok (icache t) \<and> ip < NINODE \<and> cached_as (icache t) dev inum ip
    \<and> i_ref (icache t ip) = (if cached_as (icache s) dev inum ip then i_ref (icache s ip) + 1 else 1)
    \<and> (\<forall>jp. jp \<noteq> ip \<longrightarrow> icache t jp = icache s jp)) s"
proof (cases "find (cached_as (icache s) dev inum) [0..<NINODE]")
  case (Some ip)
  then have "ip < NINODE" "cached_as (icache s) dev inum ip" by (simp_all add: find_upt_Some)
  with Some assms icache_ok_ref(1) [OF assms(1), of ip] show ?thesis
    by (simp add: wp_iget cached_as_def)
next
  case None
  then have n: "\<not> cached_as (icache s) dev inum jp" if "jp < NINODE" for jp using that by (simp add: find_upt_None)
  then obtain ip where ip: "find (\<lambda>ip. i_ref (icache s ip) = 0) [0..<NINODE] = Some ip"
    using assms(4) by (cases "find (\<lambda>ip. i_ref (icache s ip) = 0) [0..<NINODE]") (auto simp: find_upt_None)
  then have z: "ip < NINODE" "i_ref (icache s ip) = 0" by (simp_all add: find_upt_Some)
  show ?thesis using None ip z n [OF z(1)] icache_ok_iget [OF assms(1) z n] assms(2,3)
    by (simp add: wp_iget) (simp add: cached_as_def)
qed

section \<open>Inodes and their disk copies\<close>

lemma dinode_room: "dinode_off inum + DINODE_SIZE \<le> BSIZE"
proof -
  have "unat (inum mod IPB) < 8" using mod_less_divisor [of 8 "unat inum"] by (simp add: IPB_def unat_mod)
  then show ?thesis by (simp add: dinode_off_def DINODE_SIZE_def BSIZE_def)
qed

text \<open>The inode \<open>inum\<close> of device \<open>dev\<close> as the disk has it.\<close>

definition disk_inode :: "(u32 \<times> u32 \<Rightarrow> u8 list) \<Rightarrow> u32 \<Rightarrow> u32 \<Rightarrow> dinode" where
  "disk_inode D dev inum = get_dinode (D (dev, IBLOCK inum)) (dinode_off inum)"

lemma wp_iupdate:
  assumes ok: "bcache_ok H i s" and x: "x = icache s ip" "length (di_addrs (i_d x)) = NDIRECT + 1"
    and rd: "readable H s (i_dev x, IBLOCK (i_inum x))"
  shows "wp (iupdate (Suc (Suc n)) (ide_env NBUF ts) ip) (\<lambda>_ t. bcache_ok H i t \<and> bstep i H s t
    \<and> disk t = (disk s)((i_dev x, IBLOCK (i_inum x)) :=
        put_dinode (dinode_off (i_inum x)) (i_d x) (disk s (i_dev x, IBLOCK (i_inum x))))) s"
proof -
  have "length (put_dinode (dinode_off (i_inum x)) (i_d x) (disk s (i_dev x, IBLOCK (i_inum x)))) = BSIZE"
    using put_dinode(1) [of "dinode_off (i_inum x)"] dinode_room bc.block_size [OF ok] x(2) by simp
  from wp_update_block [OF ok rd, of "put_dinode (dinode_off (i_inum x)) (i_d x)" n ts, OF this] x(1) show ?thesis
    by (simp add: iupdate_def wp_gets_bnd)
qed

lemma same_inode_slot:
  assumes "IBLOCK a = IBLOCK b" "unat (a mod IPB) = unat (b mod IPB)"
  shows "a = b"
proof -
  have "a div IPB = b div IPB" "a mod IPB = b mod IPB"
    using assms by (simp_all add: IBLOCK_def word_unat_eq_iff [of "a mod IPB"])
  then have "a div IPB * IPB + a mod IPB = b div IPB * IPB + b mod IPB" by simp
  then show ?thesis by (simp add: div_mult_mod_eq)
qed

lemma bslice_sub: "k + m \<le> n \<Longrightarrow> bslice z (off + k) m = bslice (bslice z off n) k m"
  by (simp add: bslice_def drop_take min_def add.commute)

lemma get_dinode_cong: "bslice d off DINODE_SIZE = bslice e off DINODE_SIZE \<Longrightarrow> get_dinode d off = get_dinode e off"
proof -
  assume eq: "bslice d off DINODE_SIZE = bslice e off DINODE_SIZE"
  have sub: "bslice d (off + k) m = bslice e (off + k) m" if "k + m \<le> DINODE_SIZE" for k m
    unfolding bslice_sub [OF that] eq ..
  have "get32 d (off + 12 + 4 * k) = get32 e (off + 12 + 4 * k)" if "k < NDIRECT + 1" for k
    using sub [of "12 + 4 * k" 4] that by (simp add: get32_def NDIRECT_def DINODE_SIZE_def add.assoc)
  with sub [of 0 2] sub [of 2 2] sub [of 4 2] sub [of 6 2] sub [of 8 4] show ?thesis
    by (simp add: get_dinode_def get16_def get32_def [of _ "off + 8"] DINODE_SIZE_def)
qed

text \<open>Writing one inode leaves the others alone.\<close>

lemma disk_inode_put:
  assumes "length (di_addrs x) = NDIRECT + 1" "length (D (dev, IBLOCK inum)) = BSIZE"
  shows "disk_inode (D((dev, IBLOCK inum) := put_dinode (dinode_off inum) x (D (dev, IBLOCK inum)))) dev' inum' =
    (if dev' = dev \<and> inum' = inum then x else disk_inode D dev' inum')"
proof (cases "dev' = dev \<and> IBLOCK inum' = IBLOCK inum \<and> inum' \<noteq> inum")
  case True
  let ?a = "unat (inum mod IPB)" and ?b = "unat (inum' mod IPB)"
  have "?b \<noteq> ?a" using True same_inode_slot by blast
  then consider "Suc ?b \<le> ?a" | "Suc ?a \<le> ?b" by linarith
  then have "dinode_off inum' + DINODE_SIZE \<le> dinode_off inum \<or> dinode_off inum + DINODE_SIZE \<le> dinode_off inum'"
    using mult_le_mono1 [of "Suc ?b" ?a DINODE_SIZE] mult_le_mono1 [of "Suc ?a" ?b DINODE_SIZE]
    unfolding dinode_off_def by cases simp_all
  from put_dinode(3) [OF _ assms(1) this, of "D (dev, IBLOCK inum)"]
  have "bslice (put_dinode (dinode_off inum) x (D (dev, IBLOCK inum))) (dinode_off inum') DINODE_SIZE
    = bslice (D (dev, IBLOCK inum)) (dinode_off inum') DINODE_SIZE"
    using dinode_room [of inum] assms(2) by simp
  from get_dinode_cong [OF this] True show ?thesis by (simp add: disk_inode_def)
next
  case False
  have "get_dinode (put_dinode (dinode_off inum) x (D (dev, IBLOCK inum))) (dinode_off inum) = x"
    by (rule put_dinode(2) [OF _ assms(1)]) (use dinode_room [of inum] assms(2) in simp)
  with False show ?thesis by (cases "dev' = dev \<and> inum' = inum") (auto simp: disk_inode_def)
qed

section \<open>Locking an inode\<close>

lemma inode_flag_bits [simp]: "bit I_BUSY n \<longleftrightarrow> n = 0" "bit I_VALID n \<longleftrightarrow> n = 1"
proof -
  have e: "I_BUSY = 2 ^ 0" "I_VALID = 2 ^ 1" by (simp_all add: I_BUSY_def I_VALID_def)
  show "bit I_BUSY n \<longleftrightarrow> n = 0" unfolding e(1) bit_exp_iff by auto
  show "bit I_VALID n \<longleftrightarrow> n = 1" unfolding e(2) bit_exp_iff by auto
qed

lemma inode_flag_or: "(f OR I_BUSY) AND I_VALID = f AND I_VALID" "(f OR I_BUSY) AND I_BUSY = I_BUSY" "I_BUSY \<noteq> 0"
proof -
  show "(f OR I_BUSY) AND I_VALID = f AND I_VALID" by (rule bit_word_eqI) (auto simp: bit_and_iff bit_or_iff)
  show "(f OR I_BUSY) AND I_BUSY = I_BUSY" by (rule bit_word_eqI) (auto simp: bit_and_iff bit_or_iff)
qed (simp add: I_BUSY_def)

text \<open>The locked inode: the copy is loaded if it is not valid.\<close>

definition locked_inode :: "(u32 \<times> u32 \<Rightarrow> u8 list) \<Rightarrow> inode \<Rightarrow> inode" where
  "locked_inode D x = (if i_flags x AND I_VALID \<noteq> 0 then x
     else x\<lparr>i_d := disk_inode D (i_dev x) (i_inum x), i_flags := i_flags x OR I_VALID\<rparr>)"

lemma bcache_ok_lockround: "bcache_ok H i s \<Longrightarrow> bcache_ok H i (lockround lk s)"
  using proc_ctx_lockround [of i s lk] by (simp add: bcache_ok_def)

lemma bstep_lockround: "bstep i H s (lockround lk s)"
  by (simp add: bstep_def only_ide_refl procs_kept_def held_def)

lemma readable_lockround [simp]: "readable H (lockround lk s) k = readable H s k"
  by (simp add: readable_def held_def)

lemma wp_ilock_load:
  assumes ok: "bcache_ok H i s" and x: "x = icache s ip"
    and ld: "i_flags x AND I_VALID = 0 \<Longrightarrow> readable H s (i_dev x, IBLOCK (i_inum x))
      \<and> di_type (disk_inode (disk s) (i_dev x) (i_inum x)) \<noteq> 0"
  shows "wp (ilock_load (Suc (Suc n)) (ide_env NBUF ts) ip) (\<lambda>_ t. bcache_ok H i t \<and> fstep i H s t \<and> disk t = disk s
    \<and> icache t = (icache s)(ip := locked_inode (disk s) x)) s"
proof (cases "i_flags x AND I_VALID = 0")
  case False
  then show ?thesis using ok x fstep_bstep [of i H s s]
    by (simp add: ilock_load_def wp locked_inode_def bstep_def only_ide_refl procs_kept_refl)
next
  case True
  let ?k = "(i_dev x, IBLOCK (i_inum x))"
  let ?d = "disk_inode (disk s) (i_dev x) (i_inum x)"
  have rd: "readable H s ?k" "di_type ?d \<noteq> 0" using ld True by simp_all
  have "wp (bread (Suc (Suc n)) (ide_env NBUF ts) (i_dev x) (IBLOCK (i_inum x))) (\<lambda>bp t. bcache_ok (insert bp H) i t \<and> bp \<notin> H
    \<and> bstep i H s t \<and> held t bp = (?k, disk s ?k) \<and> disk t = disk s) s"
    by (rule bc.rd [OF ok]) (use rd(1) in \<open>simp_all add: readable_def\<close>)
  then have "wp (bnd (bread (Suc (Suc n)) (ide_env NBUF ts) (i_dev x) (IBLOCK (i_inum x))) (\<lambda>bp.
      bnd (bdata bp) (\<lambda>d.
      thn (set_ino ip (\<lambda>y. y\<lparr>i_d := get_dinode d (dinode_off (i_inum x))\<rparr>)) (
      thn (brelse bp) (
      thn (set_ino ip (\<lambda>y. y\<lparr>i_flags := i_flags y OR I_VALID\<rparr>)) (
      bnd (ino ip) (\<lambda>y.
      whenk (di_type (i_d y) = 0) (panic ''ilock: no type'')))))))) (\<lambda>_ t. bcache_ok H i t \<and> fstep i H s t \<and> disk t = disk s
      \<and> icache t = (icache s)(ip := locked_inode (disk s) x)) s"
  proof (rule wp_bndI, goal_cases)
    case (1 bp t)
    let ?u = "upd_ino ip (\<lambda>y. y\<lparr>i_d := ?d\<rparr>) t"
    have H: "insert bp H - {bp} = H" and ic: "icache t = icache s" using 1 bstep_icache by auto
    have su: "fstep i H s ?u" using fstep_trans [OF fstep_bstep fstep_upd_ino] 1 by blast
    have "wp (brelse bp) (\<lambda>_ v. bcache_ok (insert bp H - {bp}) i v \<and> bstep i (insert bp H - {bp}) ?u v \<and> disk v = disk ?u) ?u"
      by (rule bc.rl) (use 1 in auto)
    then have "wp (brelse bp) (\<lambda>_ v. wp (thn (set_ino ip (\<lambda>y. y\<lparr>i_flags := i_flags y OR I_VALID\<rparr>)) (
      bnd (ino ip) (\<lambda>y. whenk (di_type (i_d y) = 0) (panic ''ilock: no type''))))
      (\<lambda>_ t. bcache_ok H i t \<and> fstep i H s t \<and> disk t = disk s \<and> icache t = (icache s)(ip := locked_inode (disk s) x)) v) ?u"
    proof (rule wp_mono, goal_cases)
      case (1 a v)
      then have v: "bcache_ok H i v" "icache v = icache ?u" "disk v = disk ?u" "fstep i H s v"
        using bstep_icache [of i H ?u v] fstep_trans [OF su fstep_bstep] by (simp_all add: H)
      have "fstep i H s (upd_ino ip f v)" for f by (rule fstep_trans [OF v(4) fstep_upd_ino])
      with v rd(2) True x ic \<open>_ \<and> _ \<and> _ \<and> _ \<and> disk t = disk s\<close> show ?case
        by (simp add: wp locked_inode_def)
    qed
    with 1 ic show ?case by (simp add: wp bdata_def disk_inode_def held_def)
  qed
  with True x show ?thesis by (simp add: ilock_load_def wp_gets_bnd whenk_def)
qed

lemma wp_ilock:
  assumes ok: "bcache_ok H i s" and x: "x = icache s ip" "1 \<le> i_ref x" "i_flags x AND I_BUSY = 0"
    and ld: "i_flags x AND I_VALID = 0 \<Longrightarrow> readable H s (i_dev x, IBLOCK (i_inum x))
      \<and> di_type (disk_inode (disk s) (i_dev x) (i_inum x)) \<noteq> 0"
  shows "wp (ilock (Suc (Suc n)) (ide_env NBUF ts) ip) (\<lambda>_ t. bcache_ok H i t \<and> fstep i H s t \<and> disk t = disk s
    \<and> icache t = (icache s)(ip := locked_inode (disk s) (x\<lparr>i_flags := i_flags x OR I_BUSY\<rparr>))) s"
proof -
  have ctx: "lock_free lk s" "cli_ok s" for lk using bcache_okD(1) [OF ok] by simp_all
  let ?f = "\<lambda>x. x\<lparr>i_flags := i_flags x OR I_BUSY\<rparr>"
  let ?t = "upd_ino ip ?f (lockround IcacheLock s)"
  have rl: "wp (release IcacheLock) R (upd_ino ip ?f (acq IcacheLock s)) = R () ?t" for R
    using wp_release_calm [of IcacheLock s "upd_ino ip ?f (acq IcacheLock s)" R] ctx(2)
    by (simp add: calm_refl lockround_def)
  have okt: "bcache_ok H i ?t" using bcache_ok_lockround [OF ok] by simp
  have st: "fstep i H s ?t" by (rule fstep_trans [OF fstep_bstep [OF bstep_lockround] fstep_upd_ino])
  have "wp (ilock_load (Suc (Suc n)) (ide_env NBUF ts) ip) (\<lambda>_ t. bcache_ok H i t \<and> fstep i H s t \<and> disk t = disk s
    \<and> icache t = (icache s)(ip := locked_inode (disk s) (?f x))) ?t"
    by (rule wp_mono [OF wp_ilock_load [OF okt refl]])
      (use ld x fstep_trans [OF st] in \<open>auto simp: inode_flag_or\<close>)
  then show ?thesis unfolding ilock_def
    using x by (simp add: wp wp_acquire ctx wp_loop_fuel_Suc rl)
qed

section \<open>File contents\<close>

text \<open>The disk block of block \<open>bn\<close> of a file, the bytes of a file.\<close>

definition file_block :: "(u32 \<times> u32 \<Rightarrow> u8 list) \<Rightarrow> inode \<Rightarrow> nat \<Rightarrow> u32" where
  "file_block D x bn = (if bn < NDIRECT then di_addrs (i_d x) ! bn
     else get32 (D (i_dev x, di_addrs (i_d x) ! NDIRECT)) (4 * (bn - NDIRECT)))"

definition file_byte :: "(u32 \<times> u32 \<Rightarrow> u8 list) \<Rightarrow> inode \<Rightarrow> nat \<Rightarrow> u8" where
  "file_byte D x k = D (i_dev x, file_block D x (k div BSIZE)) ! (k mod BSIZE)"

definition file_bytes :: "(u32 \<times> u32 \<Rightarrow> u8 list) \<Rightarrow> inode \<Rightarrow> nat \<Rightarrow> nat \<Rightarrow> u8 list" where
  "file_bytes D x off m = map (file_byte D x) [off..<off + m]"

text \<open>A block that is allocated and can be read.\<close>

definition mapped :: "nat set \<Rightarrow> 'a fsst_scheme \<Rightarrow> inode \<Rightarrow> nat \<Rightarrow> bool" where
  "mapped H s x bn \<longleftrightarrow> bn < MAXFILE \<and> file_block (disk s) x bn \<noteq> 0 \<and> readable H s (i_dev x, file_block (disk s) x bn)
     \<and> (NDIRECT \<le> bn \<longrightarrow> di_addrs (i_d x) ! NDIRECT \<noteq> 0 \<and> readable H s (i_dev x, di_addrs (i_d x) ! NDIRECT))"

lemma mapped_cong: "bstep i H s t \<Longrightarrow> disk t = disk s \<Longrightarrow> mapped H t x bn = mapped H s x bn"
  using readable_bstep [of i H s t] by (simp add: mapped_def)

lemma wp_bmap_mapped:
  assumes ok: "bcache_ok H i s" and x: "x = icache s ip" and m: "mapped H s x (unat bn)"
  shows "wp (bmap (Suc (Suc n)) (ide_env NBUF ts) ip bn) (\<lambda>a t. a = file_block (disk s) x (unat bn)
    \<and> bcache_ok H i t \<and> bstep i H s t \<and> disk t = disk s) s"
proof (cases "unat bn < NDIRECT")
  case True
  then show ?thesis using ok x m
    by (simp add: bmap_def wp Let_def mapped_def file_block_def bstep_def only_ide_refl procs_kept_refl)
next
  case False
  let ?k = "unat bn - NDIRECT" and ?ind = "di_addrs (i_d x) ! NDIRECT"
  have lt: "?k < NINDIRECT" "?ind \<noteq> 0" "get32 (disk s (i_dev x, ?ind)) (4 * ?k) \<noteq> 0" "readable H s (i_dev x, ?ind)"
    "file_block (disk s) x (unat bn) = get32 (disk s (i_dev x, ?ind)) (4 * ?k)"
    using m False by (auto simp: mapped_def MAXFILE_def file_block_def)
  have "wp (bread (Suc (Suc n)) (ide_env NBUF ts) (i_dev x) ?ind) (\<lambda>bp t. bcache_ok (insert bp H) i t \<and> bp \<notin> H
    \<and> bstep i H s t \<and> held t bp = ((i_dev x, ?ind), disk s (i_dev x, ?ind)) \<and> disk t = disk s) s"
    by (rule bc.rd [OF ok]) (use lt(4) in \<open>simp_all add: readable_def\<close>)
  then have "wp (bread (Suc (Suc n)) (ide_env NBUF ts) (i_dev x) ?ind) (\<lambda>bp t.
      b_data (bufs t bp) = disk s (i_dev x, ?ind) \<and> wp (brelse bp) (\<lambda>_ u. bcache_ok H i u \<and> bstep i H s u \<and> disk u = disk s) t) s"
  proof (rule wp_mono, goal_cases)
    case (1 bp t)
    then have "wp (brelse bp) (\<lambda>_ u. bcache_ok (insert bp H - {bp}) i u \<and> bstep i (insert bp H - {bp}) t u \<and> disk u = disk t) t"
      by (intro bc.rl) auto
    moreover have "insert bp H - {bp} = H" using 1 by auto
    ultimately have "wp (brelse bp) (\<lambda>_ u. bcache_ok H i u \<and> bstep i H s u \<and> disk u = disk s) t"
      by (elim wp_mono) (use 1 bstep_trans [of i H s t] in auto)
    with 1 show ?case by (simp add: held_def)
  qed
  then have "wp (bread (Suc (Suc n)) (ide_env NBUF ts) (i_dev x) ?ind) (\<lambda>bp. wp (bnd (bdata bp) (\<lambda>a.
        bnd (if get32 a (4 * ?k) = 0 then
            bnd (balloc (Suc (Suc n)) (ide_env NBUF ts) (i_dev x)) (\<lambda>addr.
            thn (bdata_put bp (put32 (4 * ?k) addr)) (
            thn (bwrite (Suc (Suc n)) (ide_env NBUF ts) bp) (
            ret addr)))
          else ret (get32 a (4 * ?k))) (\<lambda>addr. thn (brelse bp) (ret addr))))
      (\<lambda>a t. a = file_block (disk s) x (unat bn) \<and> bcache_ok H i t \<and> bstep i H s t \<and> disk t = disk s)) s"
    by (rule wp_mono) (use lt(3,5) in \<open>simp add: bdata_def wp\<close>)
  with False lt show ?thesis by (simp add: bmap_def wp_gets_bnd Let_def wp_bnd wp_ret wp_gets x [symmetric]
      cong: if_cong)
qed

lemma wp_read_block:
  assumes ok: "bcache_ok H i s" and rd: "readable H s (dev, b)"
  shows "wp (bnd (bread (Suc (Suc n)) (ide_env NBUF ts) dev b) (\<lambda>bp. bnd (bdata bp) (\<lambda>d. thn (brelse bp) (ret (g d)))))
    (\<lambda>r t. r = g (disk s (dev, b)) \<and> bcache_ok H i t \<and> bstep i H s t \<and> disk t = disk s) s"
  using bc.peek [of H i s dev b n ts g] assms by (simp add: readable_def bdata_def wp)

text \<open>Positions inside one block.\<close>

lemma block_positions:
  assumes "m \<le> BSIZE - off mod BSIZE" "j < m"
  shows "(off + j) div BSIZE = off div BSIZE" "(off + j) mod BSIZE = off mod BSIZE + j"
proof -
  have s: "off mod BSIZE + j < BSIZE" using assms by (simp add: BSIZE_def)
  have "off + j = (off mod BSIZE + j) + off div BSIZE * BSIZE" by simp
  then show "(off + j) div BSIZE = off div BSIZE" "(off + j) mod BSIZE = off mod BSIZE + j"
    using s by (simp_all only: div_mult_self1 mod_mult_self1) (simp_all add: BSIZE_def)
qed

lemma file_bytes_block:
  assumes "m \<le> BSIZE - off mod BSIZE" "length (D (i_dev x, file_block D x (off div BSIZE))) = BSIZE"
  shows "bslice (D (i_dev x, file_block D x (off div BSIZE))) (off mod BSIZE) m = file_bytes D x off m"
proof (rule nth_equalityI)
  show "length (bslice (D (i_dev x, file_block D x (off div BSIZE))) (off mod BSIZE) m) = length (file_bytes D x off m)"
    using assms by (simp add: file_bytes_def bslice_def BSIZE_def)
next
  fix j assume "j < length (bslice (D (i_dev x, file_block D x (off div BSIZE))) (off mod BSIZE) m)"
  then have "j < m" by (simp add: bslice_def)
  with block_positions [OF assms(1) this] assms show
    "bslice (D (i_dev x, file_block D x (off div BSIZE))) (off mod BSIZE) m ! j = file_bytes D x off m ! j"
    by (simp add: file_bytes_def bslice_def file_byte_def BSIZE_def)
qed

lemma file_bytes_append: "file_bytes D x off a @ file_bytes D x (off + a) b = file_bytes D x off (a + b)"
  using upt_add_eq_append [of off "off + a" b] by (simp add: file_bytes_def add.assoc)

text \<open>The count \<^verbatim>\<open>readi\<close> delivers: cut off at the end of the file.\<close>

definition read_count :: "inode \<Rightarrow> u32 \<Rightarrow> u32 \<Rightarrow> u32" where
  "read_count x off cnt = (if off + cnt > di_size (i_d x) then di_size (i_d x) - off else cnt)"

lemma unat_block: "unat (off div of_nat BSIZE :: u32) = unat off div BSIZE" "unat (off mod of_nat BSIZE :: u32) = unat off mod BSIZE"
  by (simp_all add: BSIZE_def unat_div unat_mod)

text \<open>One round of the copy loops: the amount, and the progress.\<close>

lemma copy_round:
  fixes cnt tot off :: u32
  assumes "tot < cnt" "unat off0 + unat cnt < 2 ^ 32" "unat off = unat off0 + unat tot"
  defines "m \<equiv> min (cnt - tot) (of_nat BSIZE - off mod of_nat BSIZE)"
  shows "unat m \<le> BSIZE - unat off mod BSIZE" "unat (tot + m) = unat tot + unat m" "unat (off + m) = unat off + unat m"
    "0 < unat m" "unat tot + unat m \<le> unat cnt"
    "tot + m < cnt \<Longrightarrow> unat (off + m) div BSIZE = Suc (unat off div BSIZE)"
proof -
  have r: "unat (of_nat BSIZE - off mod of_nat BSIZE :: u32) = BSIZE - unat off mod BSIZE"
    by (subst unat_sub) (simp_all add: unat_block word_le_nat_alt, simp_all add: BSIZE_def)
  have c: "unat (cnt - tot) = unat cnt - unat tot" using assms(1) by (simp add: unat_sub less_imp_le)
  have um: "unat m = min (unat cnt - unat tot) (BSIZE - unat off mod BSIZE)"
    unfolding m_def c [symmetric] r [symmetric] by (simp add: min_def word_le_nat_alt)
  have lt: "unat tot < unat cnt" using assms(1) by (simp add: word_less_nat_alt)
  have q: "unat off mod BSIZE < BSIZE" "unat off = unat off div BSIZE * BSIZE + unat off mod BSIZE"
    by (simp_all add: BSIZE_def)
  show "unat m \<le> BSIZE - unat off mod BSIZE" "0 < unat m" and le: "unat tot + unat m \<le> unat cnt"
    using um lt q(1) by auto
  have "unat tot + unat m < 2 ^ 32" "unat off + unat m < 2 ^ 32"
    using le assms(2,3) unat_lt32 [of cnt] by linarith+
  then show t: "unat (tot + m) = unat tot + unat m" and o: "unat (off + m) = unat off + unat m"
    by (simp_all only: unat_add_lt)
  show "unat (off + m) div BSIZE = Suc (unat off div BSIZE)" if "tot + m < cnt"
  proof -
    have "unat tot + unat m < unat cnt" using that t by (simp add: word_less_nat_alt)
    with um have "unat m = BSIZE - unat off mod BSIZE" by linarith
    with o q have "unat (off + m) = unat off div BSIZE * BSIZE + BSIZE" by linarith
    then show ?thesis by (simp add: BSIZE_def)
  qed
qed

lemma wp_readi_round:
  assumes ok: "bcache_ok H i s" and x: "x = icache s ip" "dev = i_dev x" and lt: "tot < cnt"
    and b: "unat off0 + unat cnt < 2 ^ 32" "unat off = unat off0 + unat tot"
    and m: "mapped H s x (unat off div BSIZE)"
    and mm: "mm = min (cnt - tot) (of_nat BSIZE - off mod of_nat BSIZE)"
  shows "wp (readi_round (Suc (Suc n)) (ide_env NBUF ts) ip dev cnt (tot, off, dst)) (\<lambda>r t.
    r = Inl (tot + mm, off + mm, dst @ file_bytes (disk s) x (unat off) (unat mm))
    \<and> bcache_ok H i t \<and> bstep i H s t \<and> disk t = disk s) s"
proof -
  let ?b = "file_block (disk s) x (unat off div BSIZE)"
  have rd: "readable H s (dev, ?b)" using m x(2) by (simp add: mapped_def)
  have sl: "bslice (disk s (dev, ?b)) (unat off mod BSIZE) (unat mm) = file_bytes (disk s) x (unat off) (unat mm)"
    unfolding x(2) by (rule file_bytes_block) (use copy_round(1) [OF lt b] mm bc.block_size [OF ok] in simp_all)
  have "wp (bmap (Suc (Suc n)) (ide_env NBUF ts) ip (off div of_nat BSIZE)) (\<lambda>a t. a = ?b
    \<and> bcache_ok H i t \<and> bstep i H s t \<and> disk t = disk s) s"
    using wp_bmap_mapped [OF ok x(1), of "off div of_nat BSIZE"] m by (simp add: unat_block)
  then have "wp (bnd (bmap (Suc (Suc n)) (ide_env NBUF ts) ip (off div of_nat BSIZE)) (\<lambda>b.
      bnd (bread (Suc (Suc n)) (ide_env NBUF ts) dev b) (\<lambda>bp. bnd (bdata bp) (\<lambda>d. thn (brelse bp)
      (ret (Inl (tot + mm, off + mm, dst @ bslice d (unat off mod BSIZE) (unat mm)))))))) (\<lambda>r t.
    r = Inl (tot + mm, off + mm, dst @ file_bytes (disk s) x (unat off) (unat mm))
    \<and> bcache_ok H i t \<and> bstep i H s t \<and> disk t = disk s) s"
  proof (rule wp_bndI, goal_cases)
    case (1 a t)
    then have "readable H t (dev, a)" using readable_bstep [of i H s t] rd by simp
    from wp_read_block [OF _ this] 1 show ?case
      by (rule wp_mono [OF meta_mp]) (use 1 sl bstep_trans [of i H s t] in auto)
  qed
  with lt show ?thesis by (simp add: readi_round_def Let_def unat_block mm)
qed

lemma no_wrap: "\<not> (off + cnt < off) \<Longrightarrow> unat off + unat cnt < 2 ^ 32" for off cnt :: u32
proof (rule ccontr)
  assume nw: "\<not> (off + cnt < off)" and "\<not> unat off + unat cnt < 2 ^ 32"
  then have "unat (off + cnt) = unat off + unat cnt - 2 ^ 32" "unat cnt < 2 ^ 32"
    using unat_lt32 [of off] unat_lt32 [of cnt] by (simp_all add: unat_word_ariths mod_if [of "unat off + unat cnt"])
  with nw \<open>\<not> unat off + unat cnt < 2 ^ 32\<close> show False by (simp add: word_less_nat_alt)
qed

lemma read_count_le:
  assumes "\<not> (off > di_size (i_d x) \<or> off + cnt < off)"
  shows "unat off + unat (read_count x off cnt) \<le> unat (di_size (i_d x))"
  using assms no_wrap [of off cnt]
  by (auto simp: read_count_def word_less_nat_alt unat_add_lt unat_sub word_le_nat_alt)

text \<open>Progress of the copy loops, in rounds still to make.\<close>

definition rounds_left :: "u32 \<Rightarrow> u32 \<Rightarrow> u32 \<Rightarrow> u32 \<Rightarrow> nat" where
  "rounds_left off0 cnt tot off = (if tot < cnt then 1 + ((unat off0 + unat cnt) div BSIZE - unat off div BSIZE) else 0)"

lemma rounds_left_init: "rounds_left off cnt 0 off < unat cnt div BSIZE + 3"
proof -
  have "(unat off + unat cnt) div BSIZE \<le> unat off div BSIZE + unat cnt div BSIZE + 1"
    using div_add1_eq [of "unat off" "unat cnt" BSIZE] by (simp add: BSIZE_def)
  then have "(unat off + unat cnt) div BSIZE - unat off div BSIZE \<le> unat cnt div BSIZE + 1" by (simp add: le_diff_conv)
  then show ?thesis unfolding rounds_left_def by (auto simp del: add_diff_cancel_left')
qed

lemma rounds_left_step:
  assumes "tot < cnt" "unat off0 + unat cnt < 2 ^ 32" "unat off = unat off0 + unat tot"
    and "m = min (cnt - tot) (of_nat BSIZE - off mod of_nat BSIZE)"
  shows "rounds_left off0 cnt (tot + m) (off + m) < rounds_left off0 cnt tot off"
proof -
  note R = copy_round [OF assms(1-3), folded assms(4)]
  have "unat (off + m) \<le> unat off0 + unat cnt" using R(3,5) assms(3) by simp
  then have "unat (off + m) div BSIZE \<le> (unat off0 + unat cnt) div BSIZE" by (rule div_le_mono)
  then show ?thesis using R(6) assms(1) by (auto simp: rounds_left_def)
qed

lemma wp_readi_loop:
  fixes s :: "'a fsst_scheme"
  assumes ok: "bcache_ok H i s" and x: "x = icache s ip" and nw: "unat off + unat cnt < 2 ^ 32"
    and m: "\<And>bn. bn * BSIZE < unat off + unat cnt \<Longrightarrow> mapped H s x bn"
  shows "wp (loop_fuel (unat cnt div BSIZE + 3) (readi_round (Suc (Suc n)) (ide_env NBUF ts) ip (i_dev x) cnt) (0, off, []))
    (\<lambda>dst t. dst = file_bytes (disk s) x (unat off) (unat cnt) \<and> bcache_ok H i t \<and> bstep i H s t \<and> disk t = disk s) s"
proof (rule wp_loop_fuel [where \<mu> = "\<lambda>(tot, o', dst) t. rounds_left off cnt tot o'" and
    I = "\<lambda>(tot, o', dst) t. tot \<le> cnt \<and> unat o' = unat off + unat tot \<and> dst = file_bytes (disk s) x (unat off) (unat tot)
      \<and> bcache_ok H i t \<and> bstep i H s t \<and> disk t = disk s"], goal_cases)
  case 1
  then show ?case using ok bstep_lockround
    by (simp add: file_bytes_def bstep_def only_ide_refl procs_kept_refl)
next
  case 2
  then show ?case using rounds_left_init by simp
next
  case (3 y t)
  obtain tot o' dst where y: "y = (tot, o', dst)" by (cases y)
  with 3 have t: "tot \<le> cnt" "unat o' = unat off + unat tot" "dst = file_bytes (disk s) x (unat off) (unat tot)"
    "bcache_ok H i t" "bstep i H s t" "disk t = disk s" by simp_all
  show ?case
  proof (cases "tot < cnt")
    case False
    then show ?thesis using t y by (simp add: readi_round_def wp)
  next
    case True
    obtain m' where m': "m' = min (cnt - tot) (of_nat BSIZE - o' mod of_nat BSIZE)" by simp
    note R = copy_round [OF True nw t(2), folded m']
    have "unat o' div BSIZE * BSIZE < unat off + unat cnt"
      using True [unfolded word_less_nat_alt] t(2) div_times_less_eq_dividend [of "unat o'" BSIZE] by linarith
    from m [OF this] have mt: "mapped H t x (unat o' div BSIZE)" using mapped_cong [OF t(5,6)] by simp
    have xt: "x = icache t ip" using x bstep_icache [OF t(5)] by simp
    have le: "tot + m' \<le> cnt" using R(2,5) by (simp add: word_le_nat_alt)
    note lt = rounds_left_step [OF True nw t(2) m']
    show ?thesis unfolding y
    proof (rule wp_mono [OF wp_readi_round [OF t(4) xt refl True nw t(2) mt m']], goal_cases)
      case (1 r u)
      have "bstep i H s u" using 1 bstep_trans [OF t(5)] by blast
      with 1 le lt show ?case by (simp add: R(2,3) t(2,3,6) file_bytes_append)
    qed
  qed
qed

text \<open>Reading a file whose blocks are allocated.\<close>

lemma wp_readi:
  assumes ok: "bcache_ok H i s" and x: "x = icache s ip" "di_type (i_d x) \<noteq> T_DEV"
    and r: "\<not> (off > di_size (i_d x) \<or> off + cnt < off)"
    and m: "\<And>bn. bn * BSIZE < unat (di_size (i_d x)) \<Longrightarrow> mapped H s x bn"
  shows "wp (readi (Suc (Suc n)) (ide_env NBUF ts) dv ip off cnt) (\<lambda>r t.
    r = (sint (read_count x off cnt), file_bytes (disk s) x (unat off) (unat (read_count x off cnt)))
    \<and> bcache_ok H i t \<and> bstep i H s t \<and> disk t = disk s) s"
proof -
  have le: "unat off + unat (read_count x off cnt) \<le> unat (di_size (i_d x))" by (rule read_count_le [OF r])
  have "wp (loop_fuel (unat (read_count x off cnt) div BSIZE + 3)
      (readi_round (Suc (Suc n)) (ide_env NBUF ts) ip (i_dev x) (read_count x off cnt)) (0, off, []))
    (\<lambda>dst t. dst = file_bytes (disk s) x (unat off) (unat (read_count x off cnt)) \<and> bcache_ok H i t \<and> bstep i H s t \<and> disk t = disk s) s"
    by (rule wp_readi_loop [OF ok x(1)]) (use le unat_lt32 [of "di_size (i_d x)"] m in auto)
  with x r show ?thesis
    by (simp add: readi_def wp_gets Let_def read_count_def [symmetric] wp_bnd wp_ret)
qed

section \<open>Overwriting a file\<close>

text \<open>The first \<open>N\<close> blocks of a file lie in different disk blocks, none of which is the indirect
  block.\<close>

definition blocks_apart :: "(u32 \<times> u32 \<Rightarrow> u8 list) \<Rightarrow> inode \<Rightarrow> nat \<Rightarrow> bool" where
  "blocks_apart D x N \<longleftrightarrow> inj_on (file_block D x) {..<N}
     \<and> (NDIRECT < N \<longrightarrow> di_addrs (i_d x) ! NDIRECT \<notin> file_block D x ` {..<N})"

text \<open>Rewriting a data block: the map stays, and only the bytes of that block change.\<close>

lemma file_block_write:
  assumes "blocks_apart D x N" "bn < N" "c < N"
  shows "file_block (D((i_dev x, file_block D x bn) := d)) x c = file_block D x c"
proof (cases "c < NDIRECT")
  case False
  then have "di_addrs (i_d x) ! NDIRECT \<noteq> file_block D x bn" using assms by (auto simp: blocks_apart_def)
  with False show ?thesis by (simp add: file_block_def [of _ _ c])
qed (simp add: file_block_def)

lemma blocks_apart_write:
  assumes "blocks_apart D x N" "bn < N"
  shows "blocks_apart (D((i_dev x, file_block D x bn) := d)) x N"
proof -
  let ?E = "D((i_dev x, file_block D x bn) := d)"
  have eq: "file_block ?E x c = file_block D x c" if "c < N" for c
    using file_block_write [OF assms that] .
  then have "file_block ?E x ` {..<N} = file_block D x ` {..<N}" "inj_on (file_block ?E x) {..<N} = inj_on (file_block D x) {..<N}"
    by (auto simp: inj_on_def image_def)
  with assms(1) show ?thesis unfolding blocks_apart_def by simp
qed

lemma file_byte_write:
  assumes "blocks_apart D x N" "off div BSIZE < N" "k div BSIZE < N" "length (D (i_dev x, file_block D x (off div BSIZE))) = BSIZE"
    and "length w \<le> BSIZE - off mod BSIZE"
  defines "E \<equiv> D((i_dev x, file_block D x (off div BSIZE)) := bsplice (D (i_dev x, file_block D x (off div BSIZE))) (off mod BSIZE) w)"
  shows "file_byte E x k = (if off \<le> k \<and> k < off + length w then w ! (k - off) else file_byte D x k)"
proof -
  let ?b = "off div BSIZE" and ?d = "D (i_dev x, file_block D x (off div BSIZE))"
  have blk: "file_block E x (k div BSIZE) = file_block D x (k div BSIZE)"
    unfolding E_def by (rule file_block_write [OF assms(1-3)])
  have q: "off = ?b * BSIZE + off mod BSIZE" "off mod BSIZE < BSIZE" "k = k div BSIZE * BSIZE + k mod BSIZE" "k mod BSIZE < BSIZE"
    by (simp_all add: BSIZE_def)
  show ?thesis
  proof (cases "k div BSIZE = ?b")
    case True
    have Q: "off = ?b * BSIZE + off mod BSIZE" "k = ?b * BSIZE + k mod BSIZE" using q(1,3) True by simp_all
    have "bsplice ?d (off mod BSIZE) w ! (k mod BSIZE) = (if off mod BSIZE \<le> k mod BSIZE \<and> k mod BSIZE < off mod BSIZE + length w
      then w ! (k mod BSIZE - off mod BSIZE) else ?d ! (k mod BSIZE))"
      using assms(4,5) q(2,4) by (auto simp: bsplice_def nth_append)
    moreover have "(off mod BSIZE \<le> k mod BSIZE) = (off \<le> k)" "(k mod BSIZE < off mod BSIZE + length w) = (k < off + length w)"
      "k mod BSIZE - off mod BSIZE = k - off" using Q by (metis add_le_cancel_left, metis add.assoc add_less_cancel_left, metis add_diff_cancel_left)
    ultimately show ?thesis using True blk by (simp add: file_byte_def E_def)
  next
    case False
    then have ne: "file_block D x (k div BSIZE) \<noteq> file_block D x ?b"
      using assms(1-3) by (auto simp: blocks_apart_def inj_on_def)
    have "\<not> (off \<le> k \<and> k < off + length w)"
    proof
      assume a: "off \<le> k \<and> k < off + length w"
      then have "k - off < length w" by linarith
      from block_positions(1) [OF assms(5) this] a False show False by simp
    qed
    with ne blk show ?thesis by (auto simp: file_byte_def E_def)
  qed
qed

lemma wp_writei_round:
  assumes ok: "bcache_ok H i s" and x: "x = icache s ip" "dev = i_dev x" and lt: "tot < cnt"
    and b: "unat off0 + unat cnt < 2 ^ 32" "unat off = unat off0 + unat tot"
    and m: "mapped H s x (unat off div BSIZE)" and src: "length src = unat cnt"
    and mm: "mm = min (cnt - tot) (of_nat BSIZE - off mod of_nat BSIZE)"
  shows "wp (writei_round (Suc (Suc n)) (ide_env NBUF ts) ip dev src cnt (tot, off)) (\<lambda>r t.
    r = Inl (tot + mm, off + mm) \<and> bcache_ok H i t \<and> bstep i H s t
    \<and> disk t = (disk s)((i_dev x, file_block (disk s) x (unat off div BSIZE)) :=
        bsplice (disk s (i_dev x, file_block (disk s) x (unat off div BSIZE))) (unat off mod BSIZE) (bslice src (unat tot) (unat mm)))) s"
proof -
  let ?b = "file_block (disk s) x (unat off div BSIZE)" and ?w = "bslice src (unat tot) (unat mm)"
  let ?f = "\<lambda>d. bsplice d (unat off mod BSIZE) ?w"
  note R = copy_round [OF lt b, folded mm]
  have rd: "readable H s (dev, ?b)" using m x(2) by (simp add: mapped_def)
  have w: "length ?w = unat mm" using R(5) src by simp
  have md: "unat off mod BSIZE < BSIZE" by (simp add: BSIZE_def)
  have len: "length (?f (disk s (dev, ?b))) = BSIZE" using bc.block_size [OF ok] R(1) w md by simp
  have "wp (bmap (Suc (Suc n)) (ide_env NBUF ts) ip (off div of_nat BSIZE)) (\<lambda>a t. a = ?b
    \<and> bcache_ok H i t \<and> bstep i H s t \<and> disk t = disk s) s"
    using wp_bmap_mapped [OF ok x(1), of "off div of_nat BSIZE"] m by (simp add: unat_block)
  then have "wp (bnd (bmap (Suc (Suc n)) (ide_env NBUF ts) ip (off div of_nat BSIZE)) (\<lambda>b.
      thn (bnd (bread (Suc (Suc n)) (ide_env NBUF ts) dev b) (\<lambda>bp. thn (bdata_put bp ?f)
        (thn (bwrite (Suc (Suc n)) (ide_env NBUF ts) bp) (brelse bp)))) (ret (Inl (tot + mm, off + mm))))) (\<lambda>r t.
    r = Inl (tot + mm, off + mm) \<and> bcache_ok H i t \<and> bstep i H s t \<and> disk t = (disk s)((dev, ?b) := ?f (disk s (dev, ?b)))) s"
  proof (rule wp_bndI, goal_cases)
    case (1 a t)
    then have "readable H t (dev, a)" using readable_bstep [of i H s t] rd by simp
    moreover have "bcache_ok H i t" "length (?f (disk t (dev, a))) = BSIZE" using 1 len by simp_all
    ultimately have "wp (bnd (bread (Suc (Suc n)) (ide_env NBUF ts) dev a) (\<lambda>bp. thn (bdata_put bp ?f)
        (thn (bwrite (Suc (Suc n)) (ide_env NBUF ts) bp) (brelse bp)))) (\<lambda>_ u. bcache_ok H i u \<and> bstep i H t u
        \<and> disk u = (disk t)((dev, a) := ?f (disk t (dev, a)))) t" by (intro wp_update_block)
    then show ?case unfolding wp_thn [of "bnd _ _"] wp_ret
      by (rule wp_mono) (use 1 bstep_trans [of i H s t] in simp)
  qed
  moreover have "\<not> length src < unat tot + unat mm" using R(5) src by simp
  ultimately show ?thesis using lt
    by (simp add: writei_round_def Let_def unat_block mm [symmetric] x(2) [symmetric] wp_bnd wp_thn)
qed

text \<open>The bytes of a file after \<open>tot\<close> bytes of \<open>src\<close> were written at \<open>off\<close>.\<close>

definition overwritten :: "(u32 \<times> u32 \<Rightarrow> u8 list) \<Rightarrow> (u32 \<times> u32 \<Rightarrow> u8 list) \<Rightarrow> inode \<Rightarrow> nat \<Rightarrow> u8 list \<Rightarrow> nat \<Rightarrow> nat \<Rightarrow> bool" where
  "overwritten D E x N src off tot \<longleftrightarrow> (\<forall>c < N. file_block E x c = file_block D x c)
     \<and> (\<forall>k. k div BSIZE < N \<longrightarrow> file_byte E x k = (if off \<le> k \<and> k < off + tot then src ! (k - off) else file_byte D x k))"

lemma overwritten_step:
  assumes o: "overwritten D E x N src off tot" and ap: "blocks_apart E x N" and lt: "(off + tot) div BSIZE < N"
    and len: "length (E (i_dev x, file_block E x ((off + tot) div BSIZE))) = BSIZE"
    and m: "m \<le> BSIZE - (off + tot) mod BSIZE" "tot + m \<le> length src"
  shows "overwritten D (E((i_dev x, file_block E x ((off + tot) div BSIZE)) :=
      bsplice (E (i_dev x, file_block E x ((off + tot) div BSIZE))) ((off + tot) mod BSIZE) (bslice src tot m))) x N src off (tot + m)"
    (is "overwritten D ?F x N src off (tot + m)")
proof -
  have w: "length (bslice src tot m) = m" using m(2) by simp
  have "file_byte ?F x k = (if off \<le> k \<and> k < off + (tot + m) then src ! (k - off) else file_byte D x k)" if "k div BSIZE < N" for k
  proof -
    have "file_byte ?F x k = (if off + tot \<le> k \<and> k < off + tot + m then bslice src tot m ! (k - (off + tot)) else file_byte E x k)"
      using file_byte_write [OF ap lt that len, of "bslice src tot m"] m(1) w by simp
    moreover have "bslice src tot m ! (k - (off + tot)) = src ! (k - off)" if "off + tot \<le> k" "k < off + tot + m"
      using that m(2) by (simp add: bslice_def)
    ultimately show ?thesis using o that by (auto simp: overwritten_def)
  qed
  moreover have "file_block ?F x c = file_block D x c" if "c < N" for c
    using file_block_write [OF ap lt that] o that by (simp add: overwritten_def)
  ultimately show ?thesis by (simp add: overwritten_def)
qed

lemma mapped_overwrite:
  assumes "mapped H s x c" "bstep i H s t" "file_block (disk t) x c = file_block (disk s) x c"
  shows "mapped H t x c"
  using assms readable_bstep [OF assms(2)] by (simp add: mapped_def)

lemma wp_writei_loop:
  fixes s :: "'a fsst_scheme"
  assumes ok: "bcache_ok H i s" and x: "x = icache s ip" and nw: "unat off + unat cnt < 2 ^ 32"
    and m: "\<And>bn. bn < N \<Longrightarrow> mapped H s x bn" and N: "\<And>k. k < unat off + unat cnt \<Longrightarrow> k div BSIZE < N"
    and ap: "blocks_apart (disk s) x N" and src: "length src = unat cnt"
  shows "wp (loop_fuel (unat cnt div BSIZE + 3) (writei_round (Suc (Suc n)) (ide_env NBUF ts) ip (i_dev x) src cnt) (0, off))
    (\<lambda>o' t. unat o' = unat off + unat cnt \<and> bcache_ok H i t \<and> bstep i H s t
      \<and> overwritten (disk s) (disk t) x N src (unat off) (unat cnt)) s"
proof (rule wp_loop_fuel [where \<mu> = "\<lambda>(tot, o') t. rounds_left off cnt tot o'" and
    I = "\<lambda>(tot, o') t. tot \<le> cnt \<and> unat o' = unat off + unat tot \<and> overwritten (disk s) (disk t) x N src (unat off) (unat tot)
      \<and> bcache_ok H i t \<and> bstep i H s t \<and> blocks_apart (disk t) x N"], goal_cases)
  case 1
  then show ?case using ok ap
    by (auto simp: overwritten_def bstep_def only_ide_refl procs_kept_refl)
next
  case 2
  then show ?case using rounds_left_init by simp
next
  case (3 y t)
  obtain tot o' where y: "y = (tot, o')" by (cases y)
  with 3 have t: "tot \<le> cnt" "unat o' = unat off + unat tot" "overwritten (disk s) (disk t) x N src (unat off) (unat tot)"
    "bcache_ok H i t" "bstep i H s t" "blocks_apart (disk t) x N" by simp_all
  show ?case
  proof (cases "tot < cnt")
    case False
    then have "tot = cnt" using t(1) by simp
    then show ?thesis using t y by (simp add: writei_round_def wp)
  next
    case True
    obtain m' where m': "m' = min (cnt - tot) (of_nat BSIZE - o' mod of_nat BSIZE)" by simp
    note R = copy_round [OF True nw t(2), folded m']
    have bN: "unat o' div BSIZE < N" by (rule N) (use True [unfolded word_less_nat_alt] t(2) in linarith)
    have mt: "mapped H t x (unat o' div BSIZE)"
      by (rule mapped_overwrite [OF m [OF bN] t(5)]) (use t(3) bN in \<open>simp add: overwritten_def\<close>)
    have xt: "x = icache t ip" using x bstep_icache [OF t(5)] by simp
    let ?D = "(disk t)((i_dev x, file_block (disk t) x (unat o' div BSIZE)) :=
        bsplice (disk t (i_dev x, file_block (disk t) x (unat o' div BSIZE))) (unat o' mod BSIZE) (bslice src (unat tot) (unat m')))"
    have le: "tot + m' \<le> cnt" using R(2,5) by (simp add: word_le_nat_alt)
    have ow: "overwritten (disk s) ?D x N src (unat off) (unat tot + unat m')"
      unfolding t(2) by (rule overwritten_step) (use t bN R(1,5) src bc.block_size [OF t(4)] in simp_all)
    have ba: "blocks_apart ?D x N" by (rule blocks_apart_write [OF t(6) bN])
    have lt: "rounds_left off cnt (tot + m') (o' + m') < rounds_left off cnt tot o'"
      by (rule rounds_left_step [OF True nw t(2) m'])
    show ?thesis unfolding y
    proof (rule wp_mono [OF wp_writei_round [OF t(4) xt refl True nw t(2) mt src m']], goal_cases)
      case (1 r u)
      have "bstep i H s u" using 1 bstep_trans [OF t(5)] by blast
      with 1 le ow ba lt show ?case by (simp add: R(2,3) t(2))
    qed
  qed
qed

lemma wp_writei:
  assumes ok: "bcache_ok H i s" and x: "x = icache s ip" "di_type (i_d x) \<noteq> T_DEV"
    and r: "unat off + unat cnt \<le> unat (di_size (i_d x))" "unat (di_size (i_d x)) \<le> MAXFILE * BSIZE"
    and m: "\<And>bn. bn < N \<Longrightarrow> mapped H s x bn" and N: "\<And>k. k < unat off + unat cnt \<Longrightarrow> k div BSIZE < N"
    and ap: "blocks_apart (disk s) x N" and src: "length src = unat cnt"
  shows "wp (writei (Suc (Suc n)) (ide_env NBUF ts) dv ip src off cnt) (\<lambda>r t. r = sint cnt \<and> bcache_ok H i t \<and> bstep i H s t
      \<and> overwritten (disk s) (disk t) x N src (unat off) (unat cnt)) s"
proof -
  have nw: "unat off + unat cnt < 2 ^ 32" using r(1) unat_lt32 [of "di_size (i_d x)"] by simp
  have c: "\<not> (off > di_size (i_d x) \<or> off + cnt < off)" "\<not> off + cnt > of_nat (MAXFILE * BSIZE)"
    using r nw by (simp_all add: word_less_nat_alt unat_add_lt MAXFILE_def NDIRECT_def NINDIRECT_def BSIZE_def)
  have "wp (loop_fuel (unat cnt div BSIZE + 3) (writei_round (Suc (Suc n)) (ide_env NBUF ts) ip (i_dev x) src cnt) (0, off))
    (\<lambda>o'. wp (bnd (ino ip) (\<lambda>y. thn (whenk (cnt > 0 \<and> o' > di_size (i_d y)) (seqs [
        set_ino ip (\<lambda>y. y\<lparr>i_d := (i_d y)\<lparr>di_size := o'\<rparr>\<rparr>), iupdate (Suc (Suc n)) (ide_env NBUF ts) ip])) (ret (sint cnt))))
      (\<lambda>r t. r = sint cnt \<and> bcache_ok H i t \<and> bstep i H s t \<and> overwritten (disk s) (disk t) x N src (unat off) (unat cnt))) s"
  proof (rule wp_mono [OF wp_writei_loop [OF ok x(1) nw m N ap src]], goal_cases)
    case (3 o' t)
    then have "icache t ip = x" "\<not> o' > di_size (i_d x)"
      using x(1) bstep_icache [of i H s t] r(1) by (simp_all add: word_less_nat_alt)
    with 3 show ?case by (simp add: wp)
  qed
  with x c show ?thesis by (simp add: writei_def wp_gets Let_def wp_bnd)
qed

section \<open>Properties\<close>

text \<open>A state for examples: process 2 runs, the buffer cache is empty, the disk holds \<open>D\<close> and the
  inode cache \<open>C\<close>.\<close>

definition fsst_boot :: "(u32 \<times> u32 \<Rightarrow> u8 list) \<Rightarrow> (nat \<Rightarrow> inode) \<Rightarrow> 'a \<Rightarrow> 'a fsst_scheme" where
  "fsst_boot D C x = (fsst.extend (idest_boot (\<lambda>_. proc_zero\<lparr>p_state := RUNNING, p_pgdir := 0x200000\<rparr>)
     (binit_bufs (\<lambda>_. buf_zero)) None None (fsst.fields C)) x)\<lparr>disk := D\<rparr>"

lemma fsst_boot_sel [simp]: "disk (fsst_boot D C x) = D" "icache (fsst_boot D C x) = C"
  "havedisk1 (fsst_boot D C x) = False" "proc_ctx 2 (fsst_boot D C x)" "ide_ready (fsst_boot D C x)"
  "idequeue (fsst_boot D C x) = None" "bufs (fsst_boot D C x) = binit_bufs (\<lambda>_. buf_zero)"
  "fsst.more (fsst_boot D C x) = x"
  by (simp_all add: fsst_boot_def fsst.defs idest_boot_def idest.defs pstate_boot_def pstate.defs boot_defs
      ide_ready_def proc_ctx_def lock_free_def upd_cpu_def NPROC_def)

lemma fsst_boot_ok: "(\<And>k. length (D k) = BSIZE) \<Longrightarrow> bcache_ok {} 2 (fsst_boot D C x)"
  using binv_init(1) [where B = "\<lambda>_. buf_zero", OF bio_ex_facts(7)] by (simp add: bcache_ok_def)

lemma fsst_boot_readable: "b AND 0x0fffffff = b \<Longrightarrow> readable {} (fsst_boot D C x) (0, b)"
  by (simp add: readable_def key_ok_def NBUF_def)

text \<open>A file of 600 bytes in blocks 100 and 101; its inode, number 5, is in slot 3 of the cache and
  on the disk.\<close>

definition file_ex :: dinode where
  "file_ex = \<lparr>di_type = T_FILE, di_major = 0, di_minor = 0, di_nlink = 1, di_size = 600,
     di_addrs = [100, 101] @ replicate 11 0\<rparr>"

definition file_ex_cache :: "nat \<Rightarrow> inode" where
  "file_ex_cache = (\<lambda>_. \<lparr>i_dev = 0, i_inum = 0, i_ref = 0, i_flags = 0, i_d = file_ex\<rparr>)
     (3 := \<lparr>i_dev = 0, i_inum = 5, i_ref = 1, i_flags = I_VALID, i_d = file_ex\<rparr>)"

definition file_ex_st :: fsst where
  "file_ex_st = fsst_boot ((\<lambda>_. replicate BSIZE 0)((0, 100) := replicate BSIZE 7, (0, 101) := replicate BSIZE 8))
     file_ex_cache ()"

lemma file_ex_ok: "bcache_ok {} 2 file_ex_st"
  unfolding file_ex_st_def by (rule fsst_boot_ok) simp

lemma file_ex_block: "file_block (disk file_ex_st) (file_ex_cache 3) 0 = 100"
  "file_block (disk file_ex_st) (file_ex_cache 3) (Suc 0) = 101"
  by (simp_all add: file_block_def file_ex_cache_def file_ex_def NDIRECT_def)

lemma file_ex_mapped: "bn < 2 \<Longrightarrow> mapped {} file_ex_st (file_ex_cache 3) bn"
proof -
  have d: "i_dev (file_ex_cache 3) = 0" by (simp add: file_ex_cache_def)
  have r: "readable {} file_ex_st (0, 100)" "readable {} file_ex_st (0, 101)"
    unfolding file_ex_st_def by (simp_all add: fsst_boot_readable)
  assume "bn < 2"
  then have "bn = 0 \<or> bn = Suc 0" by auto
  then show ?thesis using file_ex_block r d
    by (auto simp: mapped_def MAXFILE_def NDIRECT_def)
qed

text \<open>C18. Reference counting: while the cache has the inode or an empty slot, \<^verbatim>\<open>iget\<close> returns a
  slot that holds the inode with one more reference than before (one, if it was not cached), touches
  no other slot, and keeps the invariant that counts are not negative and no inode has two slots.\<close>

theorem iget_keeps_unique:
  assumes "icache_ok (icache s)" "lock_free IcacheLock s" "cli_ok s"
    and "\<exists>ip < NINODE. cached_as (icache s) dev inum ip \<or> i_ref (icache s ip) = 0"
  shows "wp (iget dev inum) (\<lambda>ip t. icache_ok (icache t) \<and> ip < NINODE \<and> cached_as (icache t) dev inum ip
    \<and> i_ref (icache t ip) = (if cached_as (icache s) dev inum ip then i_ref (icache s ip) + 1 else 1)
    \<and> (\<forall>jp. jp \<noteq> ip \<longrightarrow> icache t jp = icache s jp)) s"
  by (rule icache_ok_get [OF assms])

lemma file_ex_free: "lock_free lk file_ex_st" "cli_ok file_ex_st" "icache file_ex_st = file_ex_cache"
  using bcache_okD(1) [OF file_ex_ok] by simp_all (simp add: file_ex_st_def)

lemma iget_keeps_unique_witness:
  "wp (iget 0 5) (\<lambda>ip t. icache_ok (icache t) \<and> ip < NINODE \<and> cached_as (icache t) 0 5 ip
    \<and> i_ref (icache t ip) = (if cached_as file_ex_cache 0 5 ip then i_ref (file_ex_cache ip) + 1 else 1)) file_ex_st"
proof -
  have "icache_ok file_ex_cache" by (simp add: icache_ok_def file_ex_cache_def)
  moreover have "cached_as file_ex_cache 0 5 3" "3 < NINODE" by (simp_all add: cached_as_def file_ex_cache_def NINODE_def)
  ultimately show ?thesis
    by (intro wp_mono [OF iget_keeps_unique]) (auto simp: file_ex_free)
qed

text \<open>C19. Round trip of an inode through the disk: after \<^verbatim>\<open>iupdate\<close>, whatever becomes of the
  copy in the cache, locking the inode loads exactly what was written; every other inode of every
  device is left as it was on the disk.\<close>

theorem iupdate_ilock_roundtrip:
  assumes ok: "bcache_ok H i s" and x: "x = icache s ip" "length (di_addrs (i_d x)) = NDIRECT + 1" "1 \<le> i_ref x" "di_type (i_d x) \<noteq> 0"
    and rd: "readable H s (i_dev x, IBLOCK (i_inum x))"
  shows "wp (thn (iupdate (Suc (Suc n)) (ide_env NBUF ts) ip) (
      thn (set_ino ip (\<lambda>y. y\<lparr>i_flags := 0, i_d := d\<rparr>)) (
      ilock (Suc (Suc n)) (ide_env NBUF ts) ip)))
    (\<lambda>_ t. bcache_ok H i t \<and> i_d (icache t ip) = i_d x \<and> i_flags (icache t ip) = I_BUSY OR I_VALID
      \<and> (\<forall>dev inum. (dev, inum) \<noteq> (i_dev x, i_inum x) \<longrightarrow> disk_inode (disk t) dev inum = disk_inode (disk s) dev inum)) s"
proof (rule wp_thnI [OF wp_iupdate [OF ok x(1,2) rd]], goal_cases)
  case (1 t)
  let ?y = "x\<lparr>i_flags := 0, i_d := d\<rparr>"
  let ?u = "upd_ino ip (\<lambda>y. y\<lparr>i_flags := 0, i_d := d\<rparr>) t"
  have ic: "icache t = icache s" using 1 bstep_icache by blast
  have di: "disk_inode (disk t) dev inum = (if dev = i_dev x \<and> inum = i_inum x then i_d x else disk_inode (disk s) dev inum)" for dev inum
    using disk_inode_put [where D = "disk s", OF x(2) bc.block_size [OF ok]] 1 by simp
  have u: "icache ?u ip = ?y" using ic x(1) by simp
  have "wp (ilock (Suc (Suc n)) (ide_env NBUF ts) ip) (\<lambda>_ v. bcache_ok H i v \<and> fstep i H ?u v \<and> disk v = disk ?u
    \<and> icache v = (icache ?u)(ip := locked_inode (disk ?u) (?y\<lparr>i_flags := i_flags ?y OR I_BUSY\<rparr>))) ?u"
    by (rule wp_ilock [OF _ u [symmetric]]) (use 1 rd x di readable_bstep [of i H s t] in \<open>simp_all add: readable_def held_def\<close>)
  then have "wp (ilock (Suc (Suc n)) (ide_env NBUF ts) ip) (\<lambda>_ t. bcache_ok H i t \<and> i_d (icache t ip) = i_d x
      \<and> i_flags (icache t ip) = I_BUSY OR I_VALID
      \<and> (\<forall>dev inum. (dev, inum) \<noteq> (i_dev x, i_inum x) \<longrightarrow> disk_inode (disk t) dev inum = disk_inode (disk s) dev inum)) ?u"
    by (rule wp_mono) (auto simp: locked_inode_def di I_BUSY_def I_VALID_def)
  then show ?case by (simp add: wp)
qed

lemma iupdate_ilock_roundtrip_witness:
  "wp (thn (iupdate 2 (ide_env NBUF 0) 3) (
      thn (set_ino 3 (\<lambda>y. y\<lparr>i_flags := 0, i_d := file_ex\<lparr>di_size := 1\<rparr>\<rparr>)) (
      ilock 2 (ide_env NBUF 0) 3)))
    (\<lambda>_ t. bcache_ok {} 2 t \<and> i_d (icache t 3) = file_ex \<and> disk_inode (disk t) 0 6 = disk_inode (disk file_ex_st) 0 6) file_ex_st"
proof -
  let ?x = "file_ex_cache 3"
  have "readable {} file_ex_st (i_dev ?x, IBLOCK (i_inum ?x))"
    unfolding file_ex_st_def by (simp add: file_ex_cache_def IBLOCK_def IPB_def fsst_boot_readable)
  from iupdate_ilock_roundtrip [OF file_ex_ok, of ?x 3, OF _ _ _ _ this, of 0 0] show ?thesis
    unfolding numeral_2_eq_2
    by (rule wp_mono [OF meta_mp [OF meta_mp [OF meta_mp [OF meta_mp]]]])
      (auto simp: file_ex_free file_ex_cache_def file_ex_def NDIRECT_def T_FILE_def)
qed

text \<open>C20. Reading: for a file whose blocks up to its size are allocated, \<^verbatim>\<open>readi\<close> at an offset
  within the file returns the bytes of the file from there, as many as asked for or as the file has;
  the disk is not changed. An offset past the end, or one where offset and count wrap around, gives
  -1.\<close>

theorem readi_reads:
  assumes "bcache_ok H i s" "x = icache s ip" "di_type (i_d x) \<noteq> T_DEV"
    and "\<And>bn. bn * BSIZE < unat (di_size (i_d x)) \<Longrightarrow> mapped H s x bn"
  shows "wp (readi (Suc (Suc n)) (ide_env NBUF ts) dv ip off cnt) (\<lambda>(r, dst) t. bcache_ok H i t \<and> bstep i H s t \<and> disk t = disk s
    \<and> (if unat off > unat (di_size (i_d x)) \<or> unat off + unat cnt \<ge> 2 ^ 32 then r = - 1 \<and> dst = []
       else (let m = min (unat cnt) (unat (di_size (i_d x)) - unat off) in
         r = sint (of_nat m :: u32) \<and> dst = file_bytes (disk s) x (unat off) m))) s"
proof (cases "off > di_size (i_d x) \<or> off + cnt < off")
  case True
  then have "unat off > unat (di_size (i_d x)) \<or> unat off + unat cnt \<ge> 2 ^ 32"
    using no_olen_add_nat [of off cnt] by (auto simp: word_less_nat_alt not_less [symmetric])
  with True assms(1-3) show ?thesis
    by (simp add: readi_def wp_gets_bnd wp_ret bstep_def only_ide_refl procs_kept_refl)
next
  case False
  have n: "unat off \<le> unat (di_size (i_d x))" "unat off + unat cnt < 2 ^ 32"
    using False no_wrap [of off cnt] by (auto simp: word_less_nat_alt not_less)
  have "unat (read_count x off cnt) = min (unat cnt) (unat (di_size (i_d x)) - unat off)"
    using n by (auto simp: read_count_def word_less_nat_alt unat_add_lt unat_sub_if_size word_size)
  moreover from this have "read_count x off cnt = of_nat (min (unat cnt) (unat (di_size (i_d x)) - unat off))"
    by (metis of_nat_unat ucast_id)
  ultimately show ?thesis
    by (intro wp_mono [OF wp_readi [OF assms(1-3) False assms(4)]]) (use n in \<open>auto simp: Let_def\<close>)
qed

lemma readi_reads_witness:
  "wp (readi 2 (ide_env NBUF 0) \<lparr>dev_read = \<lambda>_. None, dev_write = \<lambda>_. None\<rparr> 3 510 200) (\<lambda>(r, dst) t. r = 90
    \<and> dst = file_bytes (disk file_ex_st) (file_ex_cache 3) 510 90) file_ex_st"
proof -
  have s: "di_size (i_d (file_ex_cache 3)) = 600" "di_type (i_d (file_ex_cache 3)) \<noteq> T_DEV"
    by (simp_all add: file_ex_cache_def file_ex_def T_FILE_def T_DEV_def)
  then have "mapped {} file_ex_st (file_ex_cache 3) bn" if "bn * BSIZE < unat (di_size (i_d (file_ex_cache 3)))" for bn
    using that by (intro file_ex_mapped) (simp add: BSIZE_def)
  then have "wp (readi (Suc (Suc 0)) (ide_env NBUF 0) \<lparr>dev_read = \<lambda>_. None, dev_write = \<lambda>_. None\<rparr> 3 510 200) (\<lambda>(r, dst) t. r = 90
    \<and> dst = file_bytes (disk file_ex_st) (file_ex_cache 3) 510 90) file_ex_st"
    by (intro wp_mono [OF readi_reads [OF file_ex_ok _ s(2)]]) (auto simp: s(1) Let_def file_ex_free split: if_splits)
  then show ?thesis by (simp only: numeral_2_eq_2)
qed

text \<open>C21. Writing and reading back: overwriting \<open>cnt\<close> bytes within a file whose blocks are allocated
  and lie in different disk blocks, and then reading at the same place, returns the bytes written;
  all other bytes of the file, and the map of its blocks, are as before.\<close>

theorem writei_readi_roundtrip:
  assumes ok: "bcache_ok H i s" and x: "x = icache s ip" "di_type (i_d x) \<noteq> T_DEV"
    and r: "unat off + unat cnt \<le> unat (di_size (i_d x))" "unat (di_size (i_d x)) \<le> N * BSIZE" "N \<le> MAXFILE"
    and m: "\<And>bn. bn < N \<Longrightarrow> mapped H s x bn" and ap: "blocks_apart (disk s) x N" and src: "length src = unat cnt"
  shows "wp (bnd (writei (Suc (Suc n)) (ide_env NBUF ts) dv ip src off cnt) (\<lambda>w.
      bnd (readi (Suc (Suc n)) (ide_env NBUF ts) dv ip off cnt) (\<lambda>r. ret (w, r))))
    (\<lambda>(w, r) t. w = sint cnt \<and> r = (sint cnt, src) \<and> bcache_ok H i t \<and> bstep i H s t
      \<and> overwritten (disk s) (disk t) x N src (unat off) (unat cnt)) s"
proof -
  have B: "0 < BSIZE" by (simp add: BSIZE_def)
  have in_file: "k div BSIZE < N" if "k < unat (di_size (i_d x))" for k
    using that r(2) B by (simp add: div_less_iff_less_mult)
  have big: "unat (di_size (i_d x)) \<le> MAXFILE * BSIZE" using r(2,3) mult_le_mono1 [of N MAXFILE BSIZE] by linarith
  have nw: "\<not> (off > di_size (i_d x) \<or> off + cnt < off)"
    using r(1) unat_lt32 [of "di_size (i_d x)"] no_olen_add_nat [of off cnt] by (auto simp: word_less_nat_alt word_le_nat_alt not_less)
  have rc: "read_count x off cnt = cnt"
    using r(1) unat_lt32 [of "di_size (i_d x)"] by (auto simp: read_count_def word_less_nat_alt unat_add_lt)
  show ?thesis
  proof (rule wp_bndI [OF wp_writei [OF ok x r(1) big m _ ap src]], goal_cases)
    case (3 w t)
    have mt: "mapped H t x bn" if "bn * BSIZE < unat (di_size (i_d x))" for bn
    proof -
      have bn: "bn < N" using in_file [OF that] B by simp
      show ?thesis by (rule mapped_overwrite [OF m [OF bn]]) (use 3 bn in \<open>auto simp: overwritten_def\<close>)
    qed
    have fb: "file_bytes (disk t) x (unat off) (unat cnt) = src"
      using 3 r(1) src in_file by (auto simp: file_bytes_def overwritten_def intro!: nth_equalityI)
    have xt: "x = icache t ip" using 3 x(1) bstep_icache [of i H s t] by simp
    show ?case
      by (rule wp_bndI [OF wp_readi [OF _ xt x(2) nw mt]]) (use 3 rc fb bstep_trans in \<open>auto simp: wp_ret\<close>)
  qed (use in_file r(1) in auto)
qed

lemma writei_readi_roundtrip_witness:
  "wp (bnd (writei 2 (ide_env NBUF 0) \<lparr>dev_read = \<lambda>_. None, dev_write = \<lambda>_. None\<rparr> 3 [1, 2, 3] 511 3) (\<lambda>w.
      bnd (readi 2 (ide_env NBUF 0) \<lparr>dev_read = \<lambda>_. None, dev_write = \<lambda>_. None\<rparr> 3 511 3) (\<lambda>r. ret (w, r))))
    (\<lambda>(w, r) t. w = 3 \<and> r = (3, [1, 2, 3])) file_ex_st"
proof -
  let ?x = "file_ex_cache 3"
  have s: "di_size (i_d ?x) = 600" "di_type (i_d ?x) \<noteq> T_DEV"
    by (simp_all add: file_ex_cache_def file_ex_def T_FILE_def T_DEV_def)
  have "{..<2} = {0, Suc 0}" by auto
  then have "blocks_apart (disk file_ex_st) ?x 2" by (simp add: blocks_apart_def file_ex_block NDIRECT_def)
  with s have "wp (bnd (writei (Suc (Suc 0)) (ide_env NBUF 0) \<lparr>dev_read = \<lambda>_. None, dev_write = \<lambda>_. None\<rparr> 3 [1, 2, 3] 511 3) (\<lambda>w.
      bnd (readi (Suc (Suc 0)) (ide_env NBUF 0) \<lparr>dev_read = \<lambda>_. None, dev_write = \<lambda>_. None\<rparr> 3 511 3) (\<lambda>r. ret (w, r))))
    (\<lambda>(w, r) t. w = 3 \<and> r = (3, [1, 2, 3])) file_ex_st"
    by (intro wp_mono [OF writei_readi_roundtrip [OF file_ex_ok _ s(2), of _ _ _ 2]])
      (auto simp: file_ex_mapped file_ex_free MAXFILE_def NDIRECT_def BSIZE_def)
  then show ?thesis by (simp only: numeral_2_eq_2)
qed

end
