(* ===== verification/Fs_Dir.thy ===== *)
theory Fs_Dir
  imports Fs_Inode
begin

text \<open>
  Directories and path names (\<^verbatim>\<open>fs.c\<close>). A path is a NUL-terminated byte list, a name the
  contents of a \<^verbatim>\<open>char[DIRSIZ]\<close> array.

  Shown: \<^verbatim>\<open>skipelem\<close> splits a path exactly into its non-empty components, truncated to
  \<open>DIRSIZ\<close> bytes, and so makes the loop of \<^verbatim>\<open>namex\<close> end.
\<close>

section \<open>Directories\<close>

definition namecmp :: "u8 list \<Rightarrow> u8 list \<Rightarrow> int option" where
  "namecmp s t = strncmp s t DIRSIZ"

definition dirlookup ::
  "nat \<Rightarrow> ('a fsst_scheme, unit) kop \<Rightarrow> nat \<Rightarrow> u8 list \<Rightarrow> ('a fsst_scheme, (nat \<times> u32) option) kop" where
  "dirlookup n env dp name =
    bnd (ino dp) (\<lambda>x.
    if di_type (i_d x) \<noteq> T_DIR then panic ''dirlookup not DIR''
    else loop_fuel (unat (di_size (i_d x)) div BSIZE + 2) (\<lambda>off.
      if off < di_size (i_d x) then
        bnd (bmap n env dp (off div of_nat BSIZE)) (\<lambda>b.
        bnd (bread n env (i_dev x) b) (\<lambda>bp.
        bnd (for_find [0..<BSIZE div DIRENT_SIZE] (\<lambda>k.
          bnd (bdata bp) (\<lambda>d.
          let de = get_dirent d (k * DIRENT_SIZE) in
          if de_inum de = 0 then ret None
          else bnd (need (namecmp name (de_name de))) (\<lambda>r.
          if r = 0 then
            thn (brelse bp) (
            bnd (iget (i_dev x) (ucast (de_inum de))) (\<lambda>ip.
            ret (Some (ip, off + of_nat (k * DIRENT_SIZE)))))
          else ret None)))) (\<lambda>r.
        case r of
          Some v \<Rightarrow> ret (Inr (Some v))
        | None \<Rightarrow> thn (brelse bp) (ret (Inl (off + of_nat BSIZE))))))
      else ret (Inr None)) 0)"

definition dirlink ::
  "nat \<Rightarrow> ('a fsst_scheme, unit) kop \<Rightarrow> 'a fsst_scheme devsw \<Rightarrow> nat \<Rightarrow> u8 list \<Rightarrow> u32 \<Rightarrow> ('a fsst_scheme, int) kop" where
  "dirlink n env dv dp name inum =
    bnd (dirlookup n env dp name) (\<lambda>r.
    case r of
      Some (ip, _) \<Rightarrow> thn (iput n env ip) (ret (- 1))
    | None \<Rightarrow>
      bnd (ino dp) (\<lambda>x.
      bnd (loop_fuel (unat (di_size (i_d x)) div DIRENT_SIZE + 2) (\<lambda>(off, de).
        if off < di_size (i_d x) then
          bnd (readi n env dv dp off (of_nat DIRENT_SIZE)) (\<lambda>(m, de).
          if m \<noteq> int DIRENT_SIZE then panic ''dirlink read''
          else if get16 de 0 = 0 then ret (Inr (off, de))
          else ret (Inl (off + of_nat DIRENT_SIZE, de)))
        else ret (Inr (off, de))) (0, replicate DIRENT_SIZE 0)) (\<lambda>(off, de).
      bnd (need (strncpy (bslice de 2 DIRSIZ) name DIRSIZ)) (\<lambda>nm.
      bnd (writei n env dv dp (dirent_bytes \<lparr>de_inum = ucast inum, de_name = nm\<rparr>) off (of_nat DIRENT_SIZE)) (\<lambda>m.
      if m \<noteq> int DIRENT_SIZE then panic ''dirlink''
      else ret 0)))))"

section \<open>Paths\<close>

text \<open>\<open>None\<close>: the path is not terminated; \<open>Some None\<close>: no element left.\<close>

definition slash :: u8 where "slash = 0x2f"

definition skipelem :: "u8 list \<Rightarrow> u8 list \<Rightarrow> (u8 list \<times> u8 list) option option" where
  "skipelem path name =
    (let path = dropWhile (\<lambda>c. c = slash) path in
     case path of
       [] \<Rightarrow> None
     | c # _ \<Rightarrow>
       if c = 0 then Some None
       else
         let s = path;
             len = length (takeWhile (\<lambda>c. c \<noteq> slash \<and> c \<noteq> 0) s);
             path = drop len s;
             name = (if len \<ge> DIRSIZ then bsplice name 0 (take DIRSIZ s) else bsplice name 0 (take len s @ [0]))
         in if path = [] then None
            else Some (Some (dropWhile (\<lambda>c. c = slash) path, name)))"

text \<open>The loop takes an element off the path in every round.\<close>

definition namex ::
  "nat \<Rightarrow> ('a fsst_scheme, unit) kop \<Rightarrow> u8 list \<Rightarrow> bool \<Rightarrow> u8 list \<Rightarrow>
   ('a fsst_scheme, nat option \<times> u8 list) kop" where
  "namex n env path nameiparent name =
    bnd (need (Prelude.at path 0)) (\<lambda>c.
    bnd (if c = slash then iget ROOTDEV ROOTINO
         else bnd curproc (\<lambda>i. bnd (gets (\<lambda>s. p_cwd (ptab s i))) (\<lambda>cwd. bnd (need cwd) idup))) (\<lambda>ip.
    loop_fuel (length path + 1) (\<lambda>(ip, path, name).
      bnd (need (skipelem path name)) (\<lambda>r.
      case r of
        None \<Rightarrow>
          if nameiparent then thn (iput n env ip) (ret (Inr (None, name)))
          else ret (Inr (Some ip, name))
      | Some (path, name) \<Rightarrow>
          thn (ilock n env ip) (
          bnd (ino ip) (\<lambda>x.
          if di_type (i_d x) \<noteq> T_DIR then thn (iunlockput n env ip) (ret (Inr (None, name)))
          else bnd (need (Prelude.at path 0)) (\<lambda>c.
          if nameiparent \<and> c = 0 then thn (iunlock ip) (ret (Inr (Some ip, name)))
          else bnd (dirlookup n env ip name) (\<lambda>nx.
          case nx of
            None \<Rightarrow> thn (iunlockput n env ip) (ret (Inr (None, name)))
          | Some (nip, _) \<Rightarrow> thn (iunlockput n env ip) (ret (Inl (nip, path, name)))))))))
      (ip, path, name)))"

definition namei ::
  "nat \<Rightarrow> ('a fsst_scheme, unit) kop \<Rightarrow> u8 list \<Rightarrow> ('a fsst_scheme, nat option) kop" where
  "namei n env path = bnd (namex n env path False (replicate DIRSIZ 0)) (\<lambda>(ip, _). ret ip)"

definition nameiparent ::
  "nat \<Rightarrow> ('a fsst_scheme, unit) kop \<Rightarrow> u8 list \<Rightarrow> u8 list \<Rightarrow> ('a fsst_scheme, nat option \<times> u8 list) kop" where
  "nameiparent n env path name = namex n env path True name"

section \<open>Splitting a path\<close>

fun split_slash :: "u8 list \<Rightarrow> u8 list list" where
  "split_slash [] = [[]]"
| "split_slash (c # cs) = (if c = slash then [] # split_slash cs
     else (c # hd (split_slash cs)) # tl (split_slash cs))"

text \<open>The reference: the non-empty pieces between slashes.\<close>

definition path_elems :: "u8 list \<Rightarrow> u8 list list" where
  "path_elems p = filter (\<lambda>e. e \<noteq> []) (split_slash (cstr p))"

definition store_name :: "u8 list \<Rightarrow> u8 list \<Rightarrow> u8 list" where
  "store_name e name = (if length e \<ge> DIRSIZ then take DIRSIZ e else e @ 0 # drop (length e + 1) name)"

lemma split_slash_ne [simp]: "split_slash cs \<noteq> []"
  by (cases cs) simp_all

lemma split_slash_append:
  "slash \<notin> set e \<Longrightarrow> split_slash (e @ cs) = (e @ hd (split_slash cs)) # tl (split_slash cs)"
  by (induction e) auto

lemma path_elems_skip: "path_elems (dropWhile (\<lambda>c. c = slash) p) = path_elems p"
  by (induction p) (auto simp: path_elems_def slash_def)

lemma terminated_dropWhile: "terminated p \<Longrightarrow> terminated (dropWhile (\<lambda>c. c = slash) p)"
  by (induction p) (auto simp: slash_def)

lemma dropWhile_slash_hd: "dropWhile (\<lambda>c. c = slash) p = c # q \<Longrightarrow> c \<noteq> slash"
  by (induction p) (auto split: if_splits)

text \<open>A path that begins with an element: the element, and what follows it.\<close>

lemma path_elems_elem:
  assumes "terminated p" "e = takeWhile (\<lambda>c. c \<noteq> slash \<and> c \<noteq> 0) p" "e \<noteq> []"
  shows "path_elems p = e # path_elems (drop (length e) p)" "terminated (drop (length e) p)"
    "drop (length e) p \<noteq> []"
proof -
  obtain r where r: "r = drop (length e) p" by simp
  have p: "p = e @ r" unfolding r assms(2) dropWhile_eq_drop [symmetric] by (rule takeWhile_dropWhile_id [symmetric])
  have e: "slash \<notin> set e" "0 \<notin> set e" unfolding assms(2) by (auto dest: set_takeWhileD)
  have t: "terminated r" using assms(1) e(2) by (simp add: terminated_def p)
  obtain c q where q: "r = c # q" using t by (cases r) auto
  have "c = slash \<or> c = 0"
    using hd_dropWhile [of "\<lambda>c. c \<noteq> slash \<and> c \<noteq> 0" p] q
    unfolding r assms(2) dropWhile_eq_drop [symmetric] by simp
  moreover have "takeWhile (\<lambda>c. c \<noteq> 0) (e @ u) = e @ takeWhile (\<lambda>c. c \<noteq> 0) u" for u
    using e(2) by (induction e) auto
  then have "cstr p = e @ cstr (c # q)" unfolding p q cstr_def .
  ultimately have "path_elems p = e # path_elems r"
    unfolding path_elems_def q using assms(3) e(1) by (auto simp: split_slash_append slash_def)
  with t q r show "path_elems p = e # path_elems (drop (length e) p)" "terminated (drop (length e) p)"
    "drop (length e) p \<noteq> []" by simp_all
qed

lemma skipelem_elem:
  assumes "dropWhile (\<lambda>c. c = slash) path = p" "p = c # q" "c \<noteq> 0" "x = takeWhile (\<lambda>c. c \<noteq> slash \<and> c \<noteq> 0) p"
    and "drop (length x) p \<noteq> []" "length name = DIRSIZ"
  shows "skipelem path name = Some (Some (dropWhile (\<lambda>c. c = slash) (drop (length x) p), store_name x name))"
proof -
  have tk: "take (length x) p = x" unfolding assms(4) by (metis takeWhile_eq_take)
  have "take DIRSIZ p = take DIRSIZ x" if "DIRSIZ \<le> length x"
    using tk that by (metis min.absorb1 take_take)
  then have nm: "(if length x \<ge> DIRSIZ then bsplice name 0 (take DIRSIZ p) else bsplice name 0 (take (length x) p @ [0]))
    = store_name x name" using tk assms(6) by (auto simp: store_name_def bsplice_def)
  have "skipelem path name = (let len = length x; path = drop len p;
      name = (if len \<ge> DIRSIZ then bsplice name 0 (take DIRSIZ p) else bsplice name 0 (take len p @ [0]))
    in if path = [] then None else Some (Some (dropWhile (\<lambda>c. c = slash) path, name)))"
    unfolding skipelem_def assms(1) Let_def assms(4) using assms(2,3) by simp
  then show ?thesis using assms(5) nm by (simp add: Let_def)
qed

text \<open>C17. \<^verbatim>\<open>skipelem\<close> removes the first component of a path: it returns 0 exactly when no
  component is left; otherwise it stores the component, cut to \<open>DIRSIZ\<close> bytes and terminated when
  shorter, and returns a strictly shorter path with the remaining components.\<close>

theorem skipelem_components:
  assumes "terminated path" "length name = DIRSIZ"
  shows "case path_elems path of
      [] \<Rightarrow> skipelem path name = Some None
    | e # es \<Rightarrow> \<exists>rest. skipelem path name = Some (Some (rest, store_name e name))
        \<and> terminated rest \<and> path_elems rest = es \<and> length rest < length path"
proof -
  let ?p = "dropWhile (\<lambda>c. c = slash) path"
  have t: "terminated ?p" and e: "path_elems path = path_elems ?p"
    using terminated_dropWhile [OF assms(1)] by (simp_all add: path_elems_skip)
  then obtain c q where c: "?p = c # q" by (cases ?p) auto
  show ?thesis
  proof (cases "c = 0")
    case True
    then show ?thesis unfolding e c by (simp add: skipelem_def c path_elems_def)
  next
    case False
    define x where "x = takeWhile (\<lambda>c. c \<noteq> slash \<and> c \<noteq> 0) ?p"
    have x: "x \<noteq> []" using c False dropWhile_slash_hd [OF c] by (simp add: x_def)
    note E = path_elems_elem [OF t x_def x]
    let ?r = "dropWhile (\<lambda>c. c = slash) (drop (length x) ?p)"
    have l: "length ?r < length path"
      using x length_dropWhile_le [of "\<lambda>c. c = slash" "drop (length x) ?p"]
        length_dropWhile_le [of "\<lambda>c. c = slash" path] c by (cases x) auto
    have "skipelem path name = Some (Some (?r, store_name x name))"
      by (rule skipelem_elem [OF refl c False x_def E(3) assms(2)])
    with E(1) l terminated_dropWhile [OF E(2)] show ?thesis
      unfolding e E(1) by (simp add: path_elems_skip)
  qed
qed

lemma skipelem_components_witness:
  "\<exists>rest. skipelem [47, 47, 97, 47, 47, 98, 98, 0] (replicate 14 0) = Some (Some (rest, store_name [97] (replicate 14 0)))
    \<and> terminated rest \<and> path_elems rest = [[98, 98]] \<and> length rest < length [47, 47, 97, 47, 47, 98, 98, 0 :: u8]"
proof -
  have "path_elems [47, 47, 97, 47, 47, 98, 98, 0] = [[97], [98, 98]]"
    by (simp add: path_elems_def slash_def cstr_def)
  with skipelem_components [of "[47, 47, 97, 47, 47, 98, 98, 0]" "replicate 14 0"] show ?thesis
    by (simp add: terminated_def DIRSIZ_def)
qed

end
