(* ===== verification/Pipe.thy ===== *)
theory Pipe
  imports Ring Fs_Dir
begin

text \<open>
  Pipes (\<^verbatim>\<open>pipe.c\<close>). A pipe is named by the address of its page; \<open>pipes\<close> holds what is
  stored there. The buffer \<^verbatim>\<open>addr\<close> is the list of bytes a write takes and a read returns.

  The queue of a pipe is an instance of \<open>fifo\<close>. Shown: a write with room appends, a read takes
  from the front, and a writer that has to wait for room delivers all its bytes in order to a reader
  that keeps reading.
\<close>

section \<open>State\<close>

definition PIPESIZE :: nat where "PIPESIZE = 512"

record pipe =
  p_data :: "u8 list"
  nread :: u32
  nwrite :: u32
  readopen :: int
  writeopen :: int

record pipest = fsst +
  pipes :: "u32 \<Rightarrow> pipe"

definition upd_pipe :: "u32 \<Rightarrow> (pipe \<Rightarrow> pipe) \<Rightarrow> 'a pipest_scheme \<Rightarrow> 'a pipest_scheme" where
  "upd_pipe p f s = s\<lparr>pipes := (pipes s)(p := f (pipes s p))\<rparr>"

text \<open>\<^verbatim>\<open>proc->killed\<close>.\<close>

definition killed :: "('a pstate_scheme, bool) kop" where
  "killed = bnd curproc (\<lambda>i. gets (\<lambda>s. p_killed (ptab s i) \<noteq> 0))"

section \<open>Operations\<close>

definition pipeclose :: "u32 \<Rightarrow> int \<Rightarrow> ('a pipest_scheme, unit) kop" where
  "pipeclose p writable =
    thn (acquire (PipeLock p)) (
    thn (if writable \<noteq> 0
         then thn (modify (upd_pipe p (\<lambda>x. x\<lparr>writeopen := 0\<rparr>))) (wakeup (ChPipeRead p))
         else thn (modify (upd_pipe p (\<lambda>x. x\<lparr>readopen := 0\<rparr>))) (wakeup (ChPipeWrite p))) (
    bnd (gets (\<lambda>s. pipes s p)) (\<lambda>x.
    if readopen x = 0 \<and> writeopen x = 0
    then thn (release (PipeLock p)) (kfree p)
    else release (PipeLock p))))"

text \<open>One byte in, one byte out.\<close>

definition pipe_put :: "u8 \<Rightarrow> pipe \<Rightarrow> pipe" where
  "pipe_put c x = x\<lparr>p_data := (p_data x)[unat (nwrite x) mod PIPESIZE := c], nwrite := nwrite x + 1\<rparr>"

definition pipe_front :: "pipe \<Rightarrow> u8" where
  "pipe_front x = p_data x ! (unat (nread x) mod PIPESIZE)"

definition pipe_pop :: "pipe \<Rightarrow> pipe" where
  "pipe_pop x = x\<lparr>nread := nread x + 1\<rparr>"

text \<open>The inner loop of \<^verbatim>\<open>pipewrite\<close>: \<open>False\<close> when it gave up, with the lock released.\<close>

definition pipewrite_wait ::
  "nat \<Rightarrow> ('a pipest_scheme, unit) kop \<Rightarrow> u32 \<Rightarrow> ('a pipest_scheme, bool) kop" where
  "pipewrite_wait fuel env p = loop_fuel fuel (\<lambda>_.
    bnd (gets (\<lambda>s. pipes s p)) (\<lambda>x.
    if nwrite x = nread x + of_nat PIPESIZE then
      bnd (if readopen x = 0 then ret True else killed) (\<lambda>b.
      if b then thn (release (PipeLock p)) (ret (Inr False))
      else thn (wakeup (ChPipeRead p)) (
           thn (sleep env (ChPipeWrite p) (Some (PipeLock p))) (
           ret (Inl ()))))
    else ret (Inr True))) ()"

definition pipewrite_round ::
  "nat \<Rightarrow> ('a pipest_scheme, unit) kop \<Rightarrow> u32 \<Rightarrow> u8 list \<Rightarrow> int \<Rightarrow> nat \<Rightarrow> ('a pipest_scheme, nat + bool) kop" where
  "pipewrite_round fuel env p addr n i =
    (if int i < n then
      bnd (pipewrite_wait fuel env p) (\<lambda>room.
      if \<not> room then ret (Inr False)
      else bnd (need (Prelude.at addr i)) (\<lambda>c.
      thn (modify (upd_pipe p (pipe_put c))) (
      ret (Inl (i + 1)))))
    else ret (Inr True))"

definition pipewrite ::
  "nat \<Rightarrow> ('a pipest_scheme, unit) kop \<Rightarrow> u32 \<Rightarrow> u8 list \<Rightarrow> int \<Rightarrow> ('a pipest_scheme, int) kop" where
  "pipewrite fuel env p addr n =
    thn (acquire (PipeLock p)) (
    bnd (loop_fuel (nat n + 1) (pipewrite_round fuel env p addr n) 0) (\<lambda>all.
    if \<not> all then ret (- 1)
    else thn (wakeup (ChPipeRead p)) (
         thn (release (PipeLock p)) (
         ret n))))"

definition piperead_wait ::
  "nat \<Rightarrow> ('a pipest_scheme, unit) kop \<Rightarrow> u32 \<Rightarrow> ('a pipest_scheme, bool) kop" where
  "piperead_wait fuel env p = loop_fuel fuel (\<lambda>_.
    bnd (gets (\<lambda>s. pipes s p)) (\<lambda>x.
    if nread x = nwrite x \<and> writeopen x \<noteq> 0 then
      bnd killed (\<lambda>b.
      if b then thn (release (PipeLock p)) (ret (Inr False))
      else thn (sleep env (ChPipeRead p) (Some (PipeLock p))) (ret (Inl ())))
    else ret (Inr True))) ()"

definition piperead_round ::
  "u32 \<Rightarrow> int \<Rightarrow> u8 list \<Rightarrow> ('a pipest_scheme, u8 list + u8 list) kop" where
  "piperead_round p n dst =
    (if int (length dst) < n then
      bnd (gets (\<lambda>s. pipes s p)) (\<lambda>x.
      if nread x = nwrite x then ret (Inr dst)
      else thn (modify (upd_pipe p pipe_pop)) (ret (Inl (dst @ [pipe_front x]))))
    else ret (Inr dst))"

definition piperead ::
  "nat \<Rightarrow> ('a pipest_scheme, unit) kop \<Rightarrow> u32 \<Rightarrow> int \<Rightarrow> ('a pipest_scheme, int \<times> u8 list) kop" where
  "piperead fuel env p n =
    thn (acquire (PipeLock p)) (
    bnd (piperead_wait fuel env p) (\<lambda>go.
    if \<not> go then ret (- 1, [])
    else bnd (loop_fuel (nat n + 1) (piperead_round p n) []) (\<lambda>dst.
      thn (wakeup (ChPipeWrite p)) (
      thn (release (PipeLock p)) (
      ret (int (length dst), dst))))))"

section \<open>Framing\<close>

lemma pipest_lock_sel [simp]:
  "pipes (acq lk s) = pipes s"
  "pipest.more (acq lk s) = pipest.more s"
  "pipes (rel lk s) = pipes s"
  "pipest.more (rel lk s) = pipest.more s"
  "pipes (lockround lk s) = pipes s"
  "pipest.more (lockround lk s) = pipest.more s"
  by (simp_all add: acq_def rel_def lockround_def)

lemma pipest_lock_upd [simp]:
  "acq lk (pipes_update g_pipes s) = pipes_update g_pipes (acq lk s)"
  "rel lk (pipes_update g_pipes s) = pipes_update g_pipes (rel lk s)"
  "lockround lk (pipes_update g_pipes s) = pipes_update g_pipes (lockround lk s)"
  by (simp_all add: acq_def rel_def lockround_def)

lemma pipest_lock_inv [simp]:
  "lock_free lk (pipes_update g_pipes s) = lock_free lk s"
  "lock_mine lk (pipes_update g_pipes s) = lock_mine lk s"
  "cli_ok (pipes_update g_pipes s) = cli_ok s"
  by (simp_all add: lock_free_def lock_mine_def cli_ok_def)

lemma pipest_calm_upd [simp]:
  "calm s (pipes_update g_pipes t) = calm s t"
  "calm (pipes_update g_pipes s) t = calm s t"
  by (simp_all add: calm_def)

lemma pipest_cpu_sel [simp]:
  "pipes (upd_cpu h s) = pipes s"
  "pipest.more (upd_cpu h s) = pipest.more s"
  by (simp_all add: upd_cpu_def)

lemma pipest_proc_sel [simp]: "pipes (upd_proc i f s) = pipes s" "pipest.more (upd_proc i f s) = pipest.more s"
  by (simp_all add: upd_proc_def)

lemma upd_pipe_sel [simp]:
  "pipes (upd_pipe p f s) = (pipes s)(p := f (pipes s p))" "ptab (upd_pipe p f s) = ptab s"
  "cpus (upd_pipe p f s) = cpus s" "this_cpu (upd_pipe p f s) = this_cpu s"
  by (simp_all add: upd_pipe_def)

lemma upd_pipe_lock [simp]:
  "acq lk (upd_pipe p f s) = upd_pipe p f (acq lk s)" "rel lk (upd_pipe p f s) = upd_pipe p f (rel lk s)"
  "lock_free lk (upd_pipe p f s) = lock_free lk s" "lock_mine lk (upd_pipe p f s) = lock_mine lk s"
  "cli_ok (upd_pipe p f s) = cli_ok s" "calm s (upd_pipe p f t) = calm s t" "calm (upd_pipe p f s) t = calm s t"
  by (simp_all add: upd_pipe_def)

section \<open>The queue of a pipe\<close>

definition pipe_ok :: "pipe \<Rightarrow> bool" where
  "pipe_ok x \<longleftrightarrow> ring_ok PIPESIZE (p_data x) (nread x) (nwrite x)"

definition pipe_bytes :: "pipe \<Rightarrow> u8 list" where
  "pipe_bytes x = ring_contents PIPESIZE (p_data x) (nread x) (nwrite x)"

lemma PIPESIZE_dvd: "PIPESIZE dvd 2 ^ 32" "PIPESIZE < 2 ^ 32"
  by (simp_all add: PIPESIZE_def)

text \<open>The tests of the code: empty when the counters agree, full when they are \<open>PIPESIZE\<close> apart.\<close>

lemma pipe_empty: "pipe_bytes x = [] \<longleftrightarrow> nread x = nwrite x"
  using ring_empty [of PIPESIZE "p_data x" "nread x" "nwrite x"] by (auto simp: pipe_bytes_def)

lemma pipe_full: "pipe_ok x \<Longrightarrow> nwrite x = nread x + of_nat PIPESIZE \<longleftrightarrow> length (pipe_bytes x) = PIPESIZE"
proof -
  have "nwrite x = nread x + of_nat PIPESIZE \<longleftrightarrow> nwrite x - nread x = of_nat PIPESIZE" by (auto simp: algebra_simps)
  also have "\<dots> \<longleftrightarrow> unat (nwrite x - nread x) = PIPESIZE"
    unfolding word_unat_eq_iff by (simp add: PIPESIZE_def)
  finally show ?thesis by (simp add: pipe_bytes_def)
qed

interpretation pq: fifo pipe_ok pipe_bytes PIPESIZE pipe_put pipe_front pipe_pop
proof unfold_locales
  fix x c
  assume "pipe_ok x"
  then have r: "length (p_data x) = PIPESIZE" "unat (nwrite x - nread x) \<le> PIPESIZE"
    by (simp_all add: pipe_ok_def ring_ok_def)
  then show "length (pipe_bytes x) \<le> PIPESIZE" by (simp add: pipe_bytes_def)
  {
    assume "length (pipe_bytes x) < PIPESIZE"
    then have lt: "unat (nwrite x - nread x) < PIPESIZE" by (simp add: pipe_bytes_def)
    note R = ring_put [OF PIPESIZE_dvd r(1) lt, of c]
    show "pipe_bytes (pipe_put c x) = pipe_bytes x @ [c]" using R by (simp add: pipe_bytes_def pipe_put_def)
    from arg_cong [OF R, of length] lt r(1) show "pipe_ok (pipe_put c x)"
      by (simp add: pipe_ok_def ring_ok_def pipe_put_def)
  }
  assume "pipe_bytes x \<noteq> []"
  then have ne: "nwrite x \<noteq> nread x" using pipe_empty by metis
  show "pipe_ok (pipe_pop x)"
    using r ring_pop(2) [OF ne] by (simp add: pipe_ok_def ring_ok_def pipe_pop_def)
  show "pipe_bytes x = pipe_front x # pipe_bytes (pipe_pop x)"
    using ring_pop(1) [OF ne] by (simp add: pipe_bytes_def pipe_front_def pipe_pop_def)
qed

section \<open>Reading\<close>

text \<open>The end of a critical section on another lock than the process table's: wake the sleepers of a
  channel, release the lock.\<close>

lemma section_wakeup:
  fixes s t :: "'a pstate_scheme"
  assumes s: "lock_free lk s" "lock_free PtableLock s" "cli_ok s" "lk \<noteq> PtableLock" and c: "calm (acq lk s) t"
    and u_def: "u = rel lk ((lockround PtableLock t)\<lparr>ptab := wake_tab ch (ptab t)\<rparr>)"
  shows "wp (thn (wakeup ch) (thn (release lk) k)) Q t = wp k Q u" "calm s u"
proof -
  have t: "lock_free PtableLock t" "cli_ok t"
    using calm_locks(1) [OF c] s calm_cli_ok [OF c] acq_cli_ok [OF s(3)] by simp_all
  then have c': "calm (acq lk s) (lockround PtableLock t)" by (rule calm_trans [OF c lockround_calm])
  then show "wp (thn (wakeup ch) (thn (release lk) k)) Q t = wp k Q u"
    using wp_release_calm [of lk s] s(3) by (simp add: wp_thn wp_wakeup t u_def)
  show "calm s u" unfolding u_def by (rule calm_section [OF _ s(1,3)]) (use c' in simp)
qed

text \<open>What both ends of a pipe may do to the rest: nothing but waking sleepers of the pipe.\<close>

definition pipe_frame :: "u32 \<Rightarrow> 'a pipest_scheme \<Rightarrow> 'a pipest_scheme \<Rightarrow> bool" where
  "pipe_frame p s t \<longleftrightarrow> calm s t \<and> (\<forall>q. q \<noteq> p \<longrightarrow> pipes t q = pipes s q)
     \<and> (\<exists>ch \<in> {ChPipeRead p, ChPipeWrite p}. ptab t = wake_tab ch (ptab s))"

lemma wp_piperead_loop:
  assumes "pipe_ok (pipes s p)" "length dst \<le> nat n" "nat n - length dst < f"
  shows "wp (loop_fuel f (piperead_round p n) dst) Q s =
    (let k = min (nat n - length dst) (length (pipe_bytes (pipes s p))) in
     Q (dst @ take k (pipe_bytes (pipes s p))) (upd_pipe p (pipe_pop ^^ k) s))"
  using assms
proof (induction "nat n - length dst" arbitrary: dst f s)
  case 0
  then obtain g where "f = Suc g" by (cases f) auto
  moreover have "\<not> int (length dst) < n" "upd_pipe p id s = s" using 0 by (simp_all add: upd_pipe_def)
  ultimately show ?case using 0 by (simp add: wp_loop_fuel_Suc piperead_round_def wp)
next
  case (Suc m)
  obtain g where g: "f = Suc g" using Suc.prems(3) by (cases f) simp_all
  let ?x = "pipes s p"
  have lt: "int (length dst) < n" using Suc.hyps(2) by linarith
  have id: "upd_pipe p id s = s" by (simp add: upd_pipe_def)
  show ?case
  proof (cases "pipe_bytes ?x")
    case Nil
    then have "nread ?x = nwrite ?x" by (simp add: pipe_empty)
    with Nil lt g id show ?thesis by (simp add: wp_loop_fuel_Suc piperead_round_def wp)
  next
    case (Cons c cs)
    then have ne: "nread ?x \<noteq> nwrite ?x" "pipe_bytes ?x \<noteq> []" using pipe_empty by (metis list.simps(3))+
    have b: "pipe_front ?x = c" "pipe_bytes (pipe_pop ?x) = cs" "pipe_ok (pipe_pop ?x)"
      using pq.pop_contents [OF Suc.prems(1) ne(2)] pq.pop_ok [OF Suc.prems(1) ne(2)] Cons by simp_all
    have "wp (loop_fuel g (piperead_round p n) (dst @ [c])) Q (upd_pipe p pipe_pop s) =
      (let k = min (nat n - length (dst @ [c])) (length cs) in
       Q ((dst @ [c]) @ take k cs) (upd_pipe p (pipe_pop ^^ k) (upd_pipe p pipe_pop s)))"
      using Suc.hyps(1) [of "dst @ [c]" "upd_pipe p pipe_pop s" g] Suc.hyps(2) Suc.prems b g lt by simp
    moreover have "upd_pipe p (pipe_pop ^^ k) (upd_pipe p pipe_pop s) = upd_pipe p (pipe_pop ^^ Suc k) s" for k
      by (simp add: upd_pipe_def funpow_swap1)
    moreover have "min (nat n - length dst) (Suc (length cs)) = Suc (min (nat n - length (dst @ [c])) (length cs))"
      using Suc.hyps(2) by simp
    ultimately show ?thesis using lt ne b Cons
      by (simp add: wp_loop_fuel_Suc [of g, folded g] piperead_round_def wp Let_def)
  qed
qed

text \<open>A read that need not wait: bytes are there, or the write end is closed.\<close>

lemma wp_piperead:
  fixes s :: "'a pipest_scheme"
  assumes s: "lock_free (PipeLock p) s" "lock_free PtableLock s" "cli_ok s"
    and x: "pipe_ok (pipes s p)" "pipe_bytes (pipes s p) \<noteq> [] \<or> writeopen (pipes s p) = 0"
    and k: "k = min (nat n) (length (pipe_bytes (pipes s p)))"
  shows "wp (piperead (Suc f) env p n) (\<lambda>r t. r = (int k, take k (pipe_bytes (pipes s p)))
    \<and> pipes t = (pipes s)(p := (pipe_pop ^^ k) (pipes s p))
    \<and> ptab t = wake_tab (ChPipeWrite p) (ptab s) \<and> calm s t \<and> pipest.more t = pipest.more s) s"
proof -
  let ?s = "acq (PipeLock p) s"
  have mo: "pipest.more (upd_pipe p g t) = pipest.more t" for g and t :: "'a pipest_scheme" by (simp add: upd_pipe_def)
  have go: "wp (piperead_wait (Suc f) env p) Q ?s = Q True ?s" for Q
    using x(2) by (auto simp: piperead_wait_def wp_loop_fuel_Suc wp pipe_empty)
  have c: "calm (acq (PipeLock p) s) (upd_pipe p (pipe_pop ^^ k) ?s)" by (simp add: calm_refl)
  note E = section_wakeup [OF s _ c refl, of "ChPipeWrite p"]
  have kl: "min (length (pipe_bytes (pipes s p))) k = k" using k by simp
  show ?thesis unfolding piperead_def wp_acquire_thn [OF s(1)] wp_bnd [of "piperead_wait _ _ _"] go if_False not_True_eq_False
    wp_bnd [of "loop_fuel _ _ _"]
    using wp_piperead_loop [of ?s p "[]" n "nat n + 1"] x(1) E(2) kl
    by (simp add: E(1) wp_ret k [symmetric] Let_def mo)
qed

section \<open>Writing with room\<close>

lemma wp_pipewrite_room_loop:
  fixes s :: "'a pipest_scheme"
  assumes "pipe_ok (pipes s p)" "length (pipe_bytes (pipes s p)) + (nat n - k) \<le> PIPESIZE" "nat n = length addr" "nat n - k < f"
  shows "wp (loop_fuel f (pipewrite_round (Suc g) env p addr n) k) Q s = Q True (upd_pipe p (fold pipe_put (drop k addr)) s)"
  using assms
proof (induction "nat n - k" arbitrary: k f s)
  case 0
  then obtain f' where f: "f = Suc f'" by (cases f) auto
  have "upd_pipe p (\<lambda>x. x) s = s" "\<not> int k < n" using 0 by (simp_all add: upd_pipe_def)
  with 0 show ?case by (simp add: f wp_loop_fuel_Suc pipewrite_round_def wp id_def)
next
  case (Suc d)
  obtain f' where f: "f = Suc f'" using Suc.prems(4) by (cases f) simp_all
  have e: "d = nat n - Suc k" using Suc.hyps(2) by simp
  have r: "length (pipe_bytes (pipes s p)) + Suc d \<le> PIPESIZE" "d < f'"
    using Suc.prems(2,4) unfolding Suc.hyps(2) [symmetric] f by simp_all
  have lt: "int k < n" "k < length addr" using Suc.hyps(2) Suc.prems(3) by linarith+
  have room: "length (pipe_bytes (pipes s p)) < PIPESIZE" using Suc.prems(2) Suc.hyps(2) by simp
  note P = pq.put_ok [OF Suc.prems(1) room, of "addr ! k"] pq.put_contents [OF Suc.prems(1) room, of "addr ! k"]
  have "nwrite (pipes s p) \<noteq> nread (pipes s p) + of_nat PIPESIZE" using pipe_full [OF Suc.prems(1)] room by simp
  moreover have "drop k addr = addr ! k # drop (Suc k) addr" using lt(2) by (simp add: Cons_nth_drop_Suc)
  moreover have "wp (loop_fuel f' (pipewrite_round (Suc g) env p addr n) (Suc k)) Q (upd_pipe p (pipe_put (addr ! k)) s)
    = Q True (upd_pipe p (fold pipe_put (drop (Suc k) addr)) (upd_pipe p (pipe_put (addr ! k)) s))"
    by (rule Suc.hyps(1) [OF e]) (use P r Suc.prems(3) in \<open>simp_all add: e [unfolded Suc.prems(3), symmetric]\<close>)
  ultimately show ?case using lt
    by (simp add: f wp_loop_fuel_Suc pipewrite_round_def pipewrite_wait_def wp at_Some_iff) (simp add: upd_pipe_def)
qed

lemma wp_pipewrite_room:
  assumes s: "lock_free (PipeLock p) s" "lock_free PtableLock s" "cli_ok s"
    and x: "pipe_ok (pipes s p)" "length (pipe_bytes (pipes s p)) + length addr \<le> PIPESIZE" "nat n = length addr"
  shows "wp (pipewrite (Suc f) env p addr n) (\<lambda>r t. r = n \<and> pipes t = (pipes s)(p := fold pipe_put addr (pipes s p))
    \<and> ptab t = wake_tab (ChPipeRead p) (ptab s) \<and> calm s t \<and> pipest.more t = pipest.more s) s"
proof -
  let ?s = "upd_pipe p (fold pipe_put addr) (acq (PipeLock p) s)"
  have c: "calm (acq (PipeLock p) s) ?s" by (simp add: calm_refl)
  note E = section_wakeup [OF s _ c refl, of "ChPipeRead p"]
  have m: "pipest.more ?s = pipest.more s" by (simp add: upd_pipe_def)
  show ?thesis unfolding pipewrite_def wp_acquire_thn [OF s(1)] wp_bnd
    using wp_pipewrite_room_loop [of "acq (PipeLock p) s" p n 0 addr] x E(2)
    by (simp add: E(1) wp_ret m)
qed

section \<open>A writer that waits for a reader\<close>

text \<open>\<open>got\<close> is the memory of the reading process: the bytes that its calls of \<^verbatim>\<open>piperead\<close> delivered.\<close>

record readst = pipest +
  got :: "u8 list"

lemma readst_lock_sel [simp]:
  "got (acq lk s) = got s"
  "readst.more (acq lk s) = readst.more s"
  "got (rel lk s) = got s"
  "readst.more (rel lk s) = readst.more s"
  "got (lockround lk s) = got s"
  "readst.more (lockround lk s) = readst.more s"
  by (simp_all add: acq_def rel_def lockround_def)

lemma readst_lock_upd [simp]:
  "acq lk (got_update g_got s) = got_update g_got (acq lk s)"
  "rel lk (got_update g_got s) = got_update g_got (rel lk s)"
  "lockround lk (got_update g_got s) = got_update g_got (lockround lk s)"
  by (simp_all add: acq_def rel_def lockround_def)

lemma readst_lock_inv [simp]:
  "lock_free lk (got_update g_got s) = lock_free lk s"
  "lock_mine lk (got_update g_got s) = lock_mine lk s"
  "cli_ok (got_update g_got s) = cli_ok s"
  by (simp_all add: lock_free_def lock_mine_def cli_ok_def)

lemma readst_calm_upd [simp]:
  "calm s (got_update g_got t) = calm s t"
  "calm (got_update g_got s) t = calm s t"
  by (simp_all add: calm_def)

lemma readst_cpu_sel [simp]:
  "got (upd_cpu h s) = got s"
  "readst.more (upd_cpu h s) = readst.more s"
  by (simp_all add: upd_cpu_def)

lemma readst_proc_sel [simp]: "got (upd_proc i f s) = got s" "got (upd_pipe p g s) = got s"
  by (simp_all add: upd_proc_def upd_pipe_def)

lemma readst_more: "pipest.more t = pipest.more s \<Longrightarrow> got t = got s"
  by (cases s, cases t) simp

lemma take_min_length: "take (min k (length xs)) xs = take k xs"
  by (simp add: min_def)

text \<open>Process \<open>j\<close> as it comes back from \<^verbatim>\<open>yield\<close>, reads up to \<open>m\<close> bytes from the pipe, keeps them and
  yields again.\<close>

definition reader_turn :: "u32 \<Rightarrow> int \<Rightarrow> nat \<Rightarrow> ('a readst_scheme, unit) kop" where
  "reader_turn p m j = seqs [
     release PtableLock,
     bnd (piperead 1 hang p m) (\<lambda>(_, dst). modify (\<lambda>s. s\<lparr>got := got s @ dst\<rparr>)),
     acquire PtableLock,
     upd_cur (\<lambda>q. q\<lparr>p_state := RUNNABLE\<rparr>)]"

text \<open>The processor while a writer sleeps: the scheduler runs the reader, then the writer.\<close>

definition reader_env :: "u32 \<Rightarrow> u32 \<Rightarrow> int \<Rightarrow> nat \<Rightarrow> ('a readst_scheme, unit) kop" where
  "reader_env ts p m j =
    bnd curproc (\<lambda>i.
    thn switchkvm (
    thn (modify (upd_cpu (\<lambda>c. c\<lparr>cproc := None\<rparr>))) (
    thn (dispatch ts (reader_turn p m) j) (
    rr_resume ts i))))"

definition reader_ready :: "u32 \<Rightarrow> nat \<Rightarrow> nat \<Rightarrow> 'a readst_scheme \<Rightarrow> bool" where
  "reader_ready p j i s \<longleftrightarrow> j < NPROC \<and> j \<noteq> i \<and> p_state (ptab s j) = RUNNABLE \<and> p_pgdir (ptab s j) \<noteq> 0
     \<and> (\<forall>lk. lk \<noteq> PtableLock \<longrightarrow> lk \<noteq> PipeLock p \<longrightarrow> lock_free lk s) \<and> pipe_ok (pipes s p) \<and> readopen (pipes s p) \<noteq> 0"

definition writer_waits :: "u32 \<Rightarrow> nat \<Rightarrow> nat \<Rightarrow> 'a readst_scheme \<Rightarrow> bool" where
  "writer_waits p j i s \<longleftrightarrow> reader_ready p j i s \<and> lock_free (PipeLock p) s \<and> pipe_bytes (pipes s p) \<noteq> []
     \<and> i < NPROC \<and> p_state (ptab s i) = SLEEPING \<and> p_chan (ptab s i) = ChPipeWrite p \<and> p_pgdir (ptab s i) \<noteq> 0"

text \<open>What the writer finds: the reader has taken bytes from the front of the pipe and has kept them.\<close>

definition drained :: "u32 \<Rightarrow> int \<Rightarrow> nat \<Rightarrow> nat \<Rightarrow> 'a readst_scheme \<Rightarrow> 'a readst_scheme \<Rightarrow> bool" where
  "drained p m j i s t \<longleftrightarrow> reader_ready p j i t \<and> lock_free (PipeLock p) t \<and> ptab t i = (ptab s i)\<lparr>p_state := RUNNING\<rparr>
     \<and> pipes t = (pipes s)(p := (pipe_pop ^^ min (nat m) (length (pipe_bytes (pipes s p)))) (pipes s p))
     \<and> got t = got s @ take (nat m) (pipe_bytes (pipes s p))"

lemma pipe_pop_readopen [simp]: "readopen ((pipe_pop ^^ k) x) = readopen x"
  by (induction k) (simp_all add: pipe_pop_def)

lemma wp_reader_turn:
  fixes s :: "'a readst_scheme"
  assumes s: "sched_ctx s" "cproc (my_cpu s) = Some j" and l: "lock_free (PipeLock p) s"
    and x: "pipe_ok (pipes s p)" "pipe_bytes (pipes s p) \<noteq> []"
    and k: "k = min (nat m) (length (pipe_bytes (pipes s p)))"
  shows "wp (reader_turn p m j) (\<lambda>_ t. sched_ctx t \<and> cproc (my_cpu t) = Some j
    \<and> pipes t = (pipes s)(p := (pipe_pop ^^ k) (pipes s p)) \<and> got t = got s @ take k (pipe_bytes (pipes s p))
    \<and> ptab t = (wake_tab (ChPipeWrite p) (ptab s))(j := (wake_tab (ChPipeWrite p) (ptab s) j)\<lparr>p_state := RUNNABLE\<rparr>)
    \<and> (\<forall>lk. lk \<noteq> PtableLock \<longrightarrow> lock_free lk t = lock_free lk s)) s"
proof -
  let ?s = "rel PtableLock s"
  have c: "lock_free (PipeLock p) ?s" "lock_free PtableLock ?s" "cli_ok ?s"
    using s(1) l by (simp_all add: sched_ctx_def cli_ok_def)
  have x': "pipe_ok (pipes ?s p)" "pipe_bytes (pipes ?s p) \<noteq> [] \<or> writeopen (pipes ?s p) = 0"
    "k = min (nat m) (length (pipe_bytes (pipes ?s p)))" using x k by simp_all
  have "wp (piperead 1 hang p m) (\<lambda>(_, dst) t. wp (seqs [modify (\<lambda>s. s\<lparr>got := got s @ dst\<rparr>), acquire PtableLock, upd_cur (\<lambda>q. q\<lparr>p_state := RUNNABLE\<rparr>)]) (\<lambda>_ t. sched_ctx t \<and> cproc (my_cpu t) = Some j
    \<and> pipes t = (pipes s)(p := (pipe_pop ^^ k) (pipes s p)) \<and> got t = got s @ take k (pipe_bytes (pipes s p))
    \<and> ptab t = (wake_tab (ChPipeWrite p) (ptab s))(j := (wake_tab (ChPipeWrite p) (ptab s) j)\<lparr>p_state := RUNNABLE\<rparr>)
    \<and> (\<forall>lk. lk \<noteq> PtableLock \<longrightarrow> lock_free lk t = lock_free lk s)) t) ?s"
    unfolding One_nat_def
  proof (rule wp_mono [OF wp_piperead [OF c x']], goal_cases)
    case (1 r t)
    note t = calm_cpu [of ?s t] calm_locks [of ?s t] readst_more [of t ?s]
    show ?case using 1 t s c(2) by (simp add: wp wp_acquire sched_ctx_def lock_simps)
  qed
  with s show ?thesis by (simp add: reader_turn_def wp lock_simps sched_ctx_def case_prod_unfold)
qed

interpretation pipe_sleep: switching "reader_env ts p m j" "writer_waits p j" "drained p m j" for ts p m j
proof
  fix i and s :: "'a readst_scheme"
  assume w: "writer_waits p j i s" and s: "in_sched i s"
  let ?k = "min (nat m) (length (pipe_bytes (pipes s p)))"
  let ?s1 = "upd_proc j (\<lambda>q. q\<lparr>p_state := RUNNING\<rparr>) (upd_cpu (uvm_cpu ts (p_kstack (ptab s j)) (p_pgdir (ptab s j)))
    (upd_cpu (\<lambda>c. c\<lparr>cproc := Some j\<rparr>) (upd_cpu (\<lambda>c. c\<lparr>cproc := None\<rparr>) (upd_cpu (\<lambda>c. c\<lparr>cr3 := kpgdir s\<rparr>) s))))"
  note W = w [unfolded writer_waits_def reader_ready_def]
  have k: "?k = min (nat m) (length (pipe_bytes (pipes ?s1 p)))" by simp
  have c: "sched_ctx ?s1" "cproc (my_cpu ?s1) = Some j" "lock_free (PipeLock p) ?s1" "pipe_ok (pipes ?s1 p)" "pipe_bytes (pipes ?s1 p) \<noteq> []"
    using W s by (simp_all add: sched_ctx_def in_sched_def)
  have "wp (reader_turn p m j) (\<lambda>_ t. wp (thn (seqs [switchkvm, modify (upd_cpu (\<lambda>c. c\<lparr>cproc := None\<rparr>))]) (rr_resume ts i))
    (\<lambda>_ t. in_sched i t \<and> p_state (ptab t i) = RUNNING \<and> drained p m j i s t) t) ?s1"
  proof (rule wp_mono [OF wp_reader_turn [OF c k]], goal_cases)
    case (1 a t)
    then have t: "sched_ctx t" "pipes t = (pipes s)(p := (pipe_pop ^^ ?k) (pipes s p))"
      "got t = got s @ take (nat m) (pipe_bytes (pipes s p))"
      "ptab t i = (ptab s i)\<lparr>p_state := RUNNABLE\<rparr>" "p_state (ptab t j) = RUNNABLE" "p_pgdir (ptab t j) \<noteq> 0"
      "\<And>lk. lk \<noteq> PtableLock \<Longrightarrow> lock_free lk t = lock_free lk s"
      using W by (auto simp: wake_tab_def woken_def take_min_length)
    have "pipe_ok ((pipe_pop ^^ ?k) (pipes s p))" using pq.pops [of "pipes s p" ?k] W by simp
    with t W show ?case
      by (simp add: wp switchkvm_def rr_resume_def wp_switchuvm in_sched_def sched_ctx_def drained_def reader_ready_def)
  qed
  with s W show "wp (reader_env ts p m j) (\<lambda>_ t. in_sched i t \<and> p_state (ptab t i) = RUNNING \<and> drained p m j i s t) s"
    by (simp add: reader_env_def dispatch_def wp switchkvm_def wp_switchuvm in_sched_def)
qed

text \<open>A writer in its critical section.\<close>

definition writer_in :: "u32 \<Rightarrow> nat \<Rightarrow> nat \<Rightarrow> 'a readst_scheme \<Rightarrow> bool" where
  "writer_in p j i s \<longleftrightarrow> cproc (my_cpu s) = Some i \<and> i < NPROC \<and> lock_mine (PipeLock p) s \<and> lock_free PtableLock s
     \<and> ncli (my_cpu s) = 1 \<and> eflags (my_cpu s) AND FL_IF = 0 \<and> p_state (ptab s i) = RUNNING \<and> p_pgdir (ptab s i) \<noteq> 0
     \<and> p_killed (ptab s i) = 0 \<and> reader_ready p j i s"

lemma wp_pipewrite_wait:
  assumes w: "writer_in p j i s" and m: "0 < m"
  shows "wp (pipewrite_wait (Suc (Suc f)) (reader_env ts p m j) p) (\<lambda>r t. r \<and> writer_in p j i t
    \<and> length (pipe_bytes (pipes t p)) < PIPESIZE
    \<and> got t @ pipe_bytes (pipes t p) = got s @ pipe_bytes (pipes s p)
    \<and> (\<forall>q. q \<noteq> p \<longrightarrow> pipes t q = pipes s q)) s"
proof (cases "nwrite (pipes s p) = nread (pipes s p) + of_nat PIPESIZE")
  case False
  have "length (pipe_bytes (pipes s p)) < PIPESIZE"
    using False w pipe_full [of "pipes s p"] pq.bound [of "pipes s p"]
    by (simp add: writer_in_def reader_ready_def)
  then show ?thesis using False w by (auto simp: pipewrite_wait_def wp_loop_fuel_Suc wp)
next
  case True
  note W = w [unfolded writer_in_def reader_ready_def]
  have len: "length (pipe_bytes (pipes s p)) = PIPESIZE" using True W pipe_full [of "pipes s p"] by simp
  let ?s = "(lockround PtableLock s)\<lparr>ptab := wake_tab (ChPipeRead p) (ptab s)\<rparr>"
  let ?s1 = "upd_proc i (\<lambda>x. x\<lparr>p_chan := ChPipeWrite p, p_state := SLEEPING\<rparr>) (rel (PipeLock p) (acq PtableLock ?s))"
  have cli: "cli_ok s" using W by (simp add: cli_ok_def)
  have c: "calm s (lockround PtableLock s)" by (rule lockround_calm) (use W cli in simp_all)
  note C = calm_cpu [OF c] calm_locks [OF c]
  have wk: "wake_tab (ChPipeRead p) (ptab s) i = ptab s i" "wake_tab (ChPipeRead p) (ptab s) j = ptab s j"
    using W by (simp_all add: wake_tab_def woken_def)
  have pre: "writer_waits p j i ?s1" using W C wk len by (auto simp: writer_waits_def reader_ready_def PIPESIZE_def)
  have rest: "lock_free (PipeLock p) u" if "drained p m j i ?s1 u" for u using that by (simp add: drained_def)
  have "wp (sleep (reader_env ts p m j) (ChPipeWrite p) (Some (PipeLock p))) (\<lambda>_ t. writer_in p j i t
    \<and> pipes t = (pipes s)(p := (pipe_pop ^^ min (nat m) PIPESIZE) (pipes s p))
    \<and> got t = got s @ take (nat m) (pipe_bytes (pipes s p))) ?s"
  proof (rule wp_mono [OF pipe_sleep.sleep_spec [OF _ _ _ _ _ refl pre rest]], goal_cases)
    case (7 t)
    then show ?case using W wk len by (auto simp: writer_in_def drained_def reader_ready_def)
  qed (use W C wk in simp_all)
  then have "wp (sleep (reader_env ts p m j) (ChPipeWrite p) (Some (PipeLock p)))
    (\<lambda>_. wp (pipewrite_wait (Suc f) (reader_env ts p m j) p) (\<lambda>r t. r \<and> writer_in p j i t
    \<and> length (pipe_bytes (pipes t p)) < PIPESIZE
    \<and> got t @ pipe_bytes (pipes t p) = got s @ pipe_bytes (pipes s p)
    \<and> (\<forall>q. q \<noteq> p \<longrightarrow> pipes t q = pipes s q))) ?s"
  proof (rule wp_mono, goal_cases)
    case (1 a t)
    let ?k = "min (nat m) PIPESIZE"
    have x: "pipe_ok (pipes t p)" "pipe_bytes (pipes t p) = drop ?k (pipe_bytes (pipes s p))"
      using pq.pops [of "pipes s p" ?k] W len 1 by simp_all
    have lt: "length (pipe_bytes (pipes t p)) < PIPESIZE" using x(2) len m by (simp add: PIPESIZE_def)
    then have "nwrite (pipes t p) \<noteq> nread (pipes t p) + of_nat PIPESIZE" using pipe_full [OF x(1)] by simp
    moreover have "got t @ pipe_bytes (pipes t p) = got s @ pipe_bytes (pipes s p)"
      using 1 x(2) len by (simp add: min_def)
    ultimately show ?case using 1 lt by (auto simp: pipewrite_wait_def wp_loop_fuel_Suc wp)
  qed
  with True W cli show ?thesis
    by (simp add: pipewrite_wait_def wp_loop_fuel_Suc [of "Suc f"] wp killed_def wp_wakeup)
qed

text \<open>The whole write. However often the writer has to wait, it returns \<open>n\<close>, and what the reader got followed by
  what is in the pipe is then what it was before, followed by the bytes written.\<close>

lemma wp_pipewrite_loop:
  assumes w: "writer_in p j i s" and m: "0 < m" and a: "length addr = nat n" "0 \<le> n"
  shows "wp (loop_fuel (nat n + 1) (pipewrite_round (Suc (Suc f)) (reader_env ts p m j) p addr n) 0) (\<lambda>r t. r \<and> writer_in p j i t
    \<and> got t @ pipe_bytes (pipes t p) = got s @ pipe_bytes (pipes s p) @ addr \<and> (\<forall>q. q \<noteq> p \<longrightarrow> pipes t q = pipes s q)) s"
proof (rule wp_loop_fuel [where \<mu> = "\<lambda>l _. nat n - l" and I = "\<lambda>l t. l \<le> nat n \<and> writer_in p j i t
    \<and> got t @ pipe_bytes (pipes t p) = got s @ pipe_bytes (pipes s p) @ take l addr
    \<and> (\<forall>q. q \<noteq> p \<longrightarrow> pipes t q = pipes s q)"], goal_cases)
  case (3 l t)
  show ?case
  proof (cases "int l < n")
    case False
    then have "l = nat n" using 3 by linarith
    with False 3 a show ?thesis by (auto simp: pipewrite_round_def wp)
  next
    case True
    then have l: "l < length addr" using a by simp
    have t: "writer_in p j i t" using 3 by simp
    show ?thesis unfolding pipewrite_round_def if_P [OF True]
    proof (rule wp_bndI [OF wp_pipewrite_wait [OF t m]], clarify, goal_cases)
      case (1 r u)
      have "pipe_ok (pipes u p)" using 1 by (simp add: writer_in_def reader_ready_def)
      note P = pq.put_ok [OF this] pq.put_contents [OF this]
      have "writer_in p j i (upd_pipe p (pipe_put (addr ! l)) u)"
        using 1 P by (simp add: writer_in_def reader_ready_def pipe_put_def)
      moreover have "(got u @ pipe_bytes (pipes u p)) @ [addr ! l] = got s @ pipe_bytes (pipes s p) @ take (Suc l) addr"
        using 1 3 l by (simp add: take_Suc_conv_app_nth)
      then have "got u @ pipe_bytes (pipes u p) @ [addr ! l] = got s @ pipe_bytes (pipes s p) @ take (Suc l) addr"
        by (simp only: append_assoc)
      ultimately show ?case using 1 3 P(2) l a True by (auto simp: wp at_Some_iff)
    qed
  qed
qed (use w in auto)

lemma wp_pipewrite:
  assumes s: "proc_ctx i s" "p_killed (ptab s i) = 0" and r: "reader_ready p j i s" and m: "0 < m"
    and a: "length addr = nat n" "0 \<le> n"
  shows "wp (pipewrite (Suc (Suc f)) (reader_env ts p m j) p addr n) (\<lambda>r t. r = n \<and> proc_ctx i t
    \<and> got t @ pipe_bytes (pipes t p) = got s @ pipe_bytes (pipes s p) @ addr \<and> (\<forall>q. q \<noteq> p \<longrightarrow> pipes t q = pipes s q)
    \<and> pipe_ok (pipes t p)) s"
proof -
  have f: "lock_free lk s" "cli_ok s" for lk using s(1) by simp_all
  let ?s = "acq (PipeLock p) s"
  have w: "writer_in p j i ?s" using s r f by (simp add: writer_in_def proc_ctx_def reader_ready_def)
  have "wp (loop_fuel (nat n + 1) (pipewrite_round (Suc (Suc f)) (reader_env ts p m j) p addr n) 0)
    (\<lambda>all. wp (if \<not> all then ret (- 1) else thn (wakeup (ChPipeRead p)) (thn (release (PipeLock p)) (ret n)))
      (\<lambda>r t. r = n \<and> proc_ctx i t
    \<and> got t @ pipe_bytes (pipes t p) = got s @ pipe_bytes (pipes s p) @ addr \<and> (\<forall>q. q \<noteq> p \<longrightarrow> pipes t q = pipes s q)
    \<and> pipe_ok (pipes t p))) ?s"
  proof (rule wp_mono [OF wp_pipewrite_loop [OF w m a]], goal_cases)
    case (1 all t)
    note T = 1 [unfolded writer_in_def reader_ready_def]
    have c: "calm t (lockround PtableLock t)" by (rule lockround_calm) (use T in \<open>simp_all add: cli_ok_def\<close>)
    note C = calm_cpu [OF c] calm_locks [OF c]
    have wk: "wake_tab (ChPipeRead p) (ptab t) i = ptab t i" using T by (simp add: wake_tab_def woken_def)
    have "cli_ok t" using T by (simp add: cli_ok_def)
    moreover have "lock_free lk (rel (PipeLock p) (lockround PtableLock t))" for lk
      using T C(7,8) by (cases "lk = PipeLock p"; cases "lk = PtableLock") simp_all
    ultimately show ?case using T C wk
      by (simp add: wp wp_wakeup wp_release proc_ctx_def)
  qed
  then show ?thesis unfolding pipewrite_def wp_acquire_thn [OF f(1)] wp_bnd .
qed

section \<open>Properties\<close>

text \<open>C22. A pipe delivers in order and a writer does not get stuck: while another process keeps
  reading (any positive number of bytes each time it runs), \<^verbatim>\<open>pipewrite\<close> returns \<open>n\<close> however
  often it has to sleep. No byte is lost, added or reordered: what the reader received meanwhile, followed by
  what is then in the pipe, is the old contents of the pipe followed by the bytes written.\<close>

theorem pipewrite_delivers:
  assumes "proc_ctx i s" "p_killed (ptab s i) = 0" "reader_ready p j i s" "0 < m" "length addr = nat n" "0 \<le> n"
  shows "wp (pipewrite (Suc (Suc f)) (reader_env ts p m j) p addr n) (\<lambda>r t. r = n \<and> proc_ctx i t
    \<and> got t @ pipe_bytes (pipes t p) = got s @ pipe_bytes (pipes s p) @ addr \<and> (\<forall>q. q \<noteq> p \<longrightarrow> pipes t q = pipes s q)
    \<and> pipe_ok (pipes t p)) s"
  by (rule wp_pipewrite [OF assms])

text \<open>C23. \<^verbatim>\<open>piperead\<close> takes bytes from the front: when the pipe is not empty or its write end is
  closed it returns at once with as many bytes as are there, at most \<open>n\<close>; they leave the pipe, the
  sleeping writers are woken, and a closed empty pipe reads as end of file.\<close>

theorem piperead_takes:
  assumes "lock_free (PipeLock p) s" "lock_free PtableLock s" "cli_ok s" "pipe_ok (pipes s p)"
    and "pipe_bytes (pipes s p) \<noteq> [] \<or> writeopen (pipes s p) = 0"
  shows "wp (piperead (Suc f) env p n) (\<lambda>(r, dst) t. r = int (length dst) \<and> dst = take (nat n) (pipe_bytes (pipes s p))
    \<and> pipe_ok (pipes t p) \<and> pipe_bytes (pipes t p) = drop (nat n) (pipe_bytes (pipes s p))
    \<and> ptab t = wake_tab (ChPipeWrite p) (ptab s) \<and> (\<forall>lk. lock_free lk t = lock_free lk s)) s"
proof (rule wp_mono [OF wp_piperead [OF assms refl]], goal_cases)
  case (1 r t)
  let ?l = "length (pipe_bytes (pipes s p))"
  have "take (min (nat n) ?l) (pipe_bytes (pipes s p)) = take (nat n) (pipe_bytes (pipes s p))"
    "drop (min (nat n) ?l) (pipe_bytes (pipes s p)) = drop (nat n) (pipe_bytes (pipes s p))" by (simp_all add: min_def)
  with 1 pq.pops [OF assms(4), of "min (nat n) ?l"] calm_locks(1) [of s t] show ?case by (simp add: min.commute)
qed

text \<open>A write into a pipe whose read end is closed, with more bytes than there is room for.\<close>

lemma wp_pipewrite_closed_loop:
  fixes s :: "'a pipest_scheme"
  assumes s: "lock_mine (PipeLock p) s" "eflags (my_cpu s) AND FL_IF = 0" "0 < ncli (my_cpu s)"
    and x: "pipe_ok (pipes s p)" "readopen (pipes s p) = 0"
    and k: "PIPESIZE < length (pipe_bytes (pipes s p)) + (nat n - k)" "nat n \<le> length addr" "nat n - k < f"
  shows "wp (loop_fuel f (pipewrite_round (Suc g) env p addr n) k) (\<lambda>r t. \<not> r \<and> (\<exists>y. t = rel (PipeLock p) (upd_pipe p (\<lambda>_. y) s)
      \<and> pipe_ok y \<and> pipe_bytes y = pipe_bytes (pipes s p) @ take (PIPESIZE - length (pipe_bytes (pipes s p))) (drop k addr))) s"
  using s x k
proof (induction "PIPESIZE - length (pipe_bytes (pipes s p))" arbitrary: s k f)
  case 0
  then obtain f' where f: "f = Suc f'" by (cases f) auto
  let ?x = "pipes s p"
  have len: "length (pipe_bytes ?x) = PIPESIZE" using 0 pq.bound [of ?x] by simp
  then have full: "nwrite ?x = nread ?x + of_nat PIPESIZE" using pipe_full [of ?x] 0 by simp
  have lt: "int k < n" using 0 len by linarith
  have id: "rel (PipeLock p) s = upd_pipe p (\<lambda>_. ?x) (rel (PipeLock p) s)" by (simp add: upd_pipe_def)
  show ?case using 0 full lt len id
    by (auto simp: f wp_loop_fuel_Suc pipewrite_round_def pipewrite_wait_def wp wp_release intro!: exI [of _ ?x])
next
  case (Suc d)
  obtain f' where f: "f = Suc f'" using Suc.prems(8) by (cases f) simp_all
  let ?x = "pipes s p" and ?y = "pipe_put (addr ! k) (pipes s p)"
  have room: "length (pipe_bytes ?x) < PIPESIZE" using Suc.hyps(2) by simp
  then have nf: "nwrite ?x \<noteq> nread ?x + of_nat PIPESIZE" using pipe_full [of ?x] Suc.prems by simp
  have lt: "int k < n" "k < length addr" using Suc.prems room by linarith+
  let ?s = "upd_pipe p (pipe_put (addr ! k)) s"
  have y: "pipe_ok ?y" "pipe_bytes ?y = pipe_bytes ?x @ [addr ! k]" "readopen ?y = 0"
    using pq.put_ok [of ?x] pq.put_contents [of ?x] room Suc.prems by (simp_all add: pipe_put_def)
  have "wp (loop_fuel f' (pipewrite_round (Suc g) env p addr n) (Suc k)) (\<lambda>r t. \<not> r \<and> (\<exists>y. t = rel (PipeLock p) (upd_pipe p (\<lambda>_. y) ?s)
      \<and> pipe_ok y \<and> pipe_bytes y = pipe_bytes (pipes ?s p) @ take (PIPESIZE - length (pipe_bytes (pipes ?s p))) (drop (Suc k) addr))) ?s"
    by (rule Suc.hyps(1)) (use Suc.prems Suc.hyps(2) y f room lt in auto)
  moreover have "take (Suc d) (drop k addr) = addr ! k # take d (drop (Suc k) addr)"
    using lt(2) by (simp add: Cons_nth_drop_Suc [symmetric])
  moreover have "upd_pipe p (\<lambda>_. z) ?s = upd_pipe p (\<lambda>_. z) s" for z by (simp add: upd_pipe_def)
  moreover have "PIPESIZE - length (pipe_bytes ?y) = d" using y(2) Suc.hyps(2) by simp
  ultimately have "wp (loop_fuel f' (pipewrite_round (Suc g) env p addr n) (Suc k)) (\<lambda>r t. \<not> r \<and> (\<exists>y. t = rel (PipeLock p) (upd_pipe p (\<lambda>_. y) s)
      \<and> pipe_ok y \<and> pipe_bytes y = pipe_bytes ?x @ take (Suc d) (drop k addr))) ?s"
    using y(2) by simp
  then show ?case using lt nf Suc.hyps(2)
    by (simp add: f wp_loop_fuel_Suc pipewrite_round_def pipewrite_wait_def wp at_Some_iff)
qed

text \<open>Writing to a pipe that nobody can read: when more bytes are given than there is room for,
  \<^verbatim>\<open>pipewrite\<close> fills the pipe and returns -1, with the lock released.\<close>

theorem pipewrite_closed_fails:
  assumes "lock_free (PipeLock p) s" "cli_ok s" "pipe_ok (pipes s p)" "readopen (pipes s p) = 0"
    and "length addr = nat n" "PIPESIZE < length (pipe_bytes (pipes s p)) + nat n"
  shows "wp (pipewrite (Suc f) env p addr n) (\<lambda>r t. r = - 1 \<and> lock_free (PipeLock p) t \<and> pipe_ok (pipes t p)
    \<and> pipe_bytes (pipes t p) = pipe_bytes (pipes s p) @ take (PIPESIZE - length (pipe_bytes (pipes s p))) addr) s"
proof -
  have "wp (loop_fuel (nat n + 1) (pipewrite_round (Suc f) env p addr n) 0) (\<lambda>r t. \<not> r \<and> (\<exists>y. t = rel (PipeLock p) (upd_pipe p (\<lambda>_. y) (acq (PipeLock p) s))
      \<and> pipe_ok y \<and> pipe_bytes y = pipe_bytes (pipes (acq (PipeLock p) s) p) @ take (PIPESIZE - length (pipe_bytes (pipes (acq (PipeLock p) s) p))) (drop 0 addr)))
    (acq (PipeLock p) s)"
    by (rule wp_pipewrite_closed_loop)
      (use assms pq.bound [OF assms(3)] in \<open>simp_all add: cli_ok_def\<close>)
  then show ?thesis unfolding pipewrite_def wp_acquire_thn [OF assms(1)] wp_bnd
    by (rule wp_mono) (auto simp: wp)
qed

definition pipe_ex :: pipe where
  "pipe_ex = \<lparr>p_data = replicate 512 7, nread = 0xFFFFFF00, nwrite = 254, readopen = 1, writeopen = 1\<rparr>"

definition pipe_st :: "pipe \<Rightarrow> unit pipest_scheme" where
  "pipe_st x = upd_proc 3 (\<lambda>q. q\<lparr>p_state := RUNNABLE\<rparr>)
     (pipest.extend (fsst_boot (\<lambda>_. replicate BSIZE 0) file_ex_cache (pipest.fields (\<lambda>_. x))) ())"

lemma pipe_st_sel: "pipes (pipe_st x) = (\<lambda>_. x)" "proc_ctx 2 (pipe_st x)" "p_killed (ptab (pipe_st x) 2) = 0"
  "j = 3 \<Longrightarrow> p_state (ptab (pipe_st x) j) = RUNNABLE \<and> p_pgdir (ptab (pipe_st x) j) \<noteq> 0"
  by (simp_all add: pipe_st_def pipest.defs fsst_boot_def fsst.defs idest_boot_def idest.defs pstate_boot_def pstate.defs
      boot_defs proc_ctx_def lock_free_def upd_cpu_def upd_proc_def NPROC_def proc_zero_def)

lemmas pipe_st_lock = proc_ctx_lock [OF pipe_st_sel(2)]

lemma pipe_ex_facts: "pipe_ok pipe_ex" "length (pipe_bytes pipe_ex) = 510" "pipe_ok (pipe_ex\<lparr>readopen := 0\<rparr>)"
  "length (pipe_bytes (pipe_ex\<lparr>readopen := 0\<rparr>)) = 510"
  by (simp_all add: pipe_ok_def ring_ok_def pipe_bytes_def pipe_ex_def PIPESIZE_def)

definition read_st :: "pipe \<Rightarrow> readst" where
  "read_st x = pipest.extend (pipe_st x) (readst.fields [])"

lemma read_st_sel: "pipes (read_st x) = (\<lambda>_. x)" "proc_ctx 2 (read_st x)" "p_killed (ptab (read_st x) 2) = 0" "got (read_st x) = []"
  "j = 3 \<Longrightarrow> p_state (ptab (read_st x) j) = RUNNABLE \<and> p_pgdir (ptab (read_st x) j) \<noteq> 0"
  using pipe_st_sel(1) [of x] pipe_st_sel(2) [of x] pipe_st_sel(3) [of x] pipe_st_sel(4) [of j x]
  by (simp_all add: read_st_def pipest.defs readst.defs proc_ctx_def lock_free_def cli_ok_def)

lemma read_st_ready: "pipe_ok x \<Longrightarrow> readopen x \<noteq> 0 \<Longrightarrow> reader_ready p 3 2 (read_st x)"
  by (simp add: reader_ready_def read_st_sel proc_ctx_lock [OF read_st_sel(2)] NPROC_def)

lemma pipewrite_delivers_witness:
  "wp (pipewrite 2 (reader_env 0 0x300000 1 3) 0x300000 [1, 2, 3, 4, 5] 5) (\<lambda>r t. r = 5
    \<and> got t @ pipe_bytes (pipes t 0x300000) = pipe_bytes pipe_ex @ [1, 2, 3, 4, 5]) (read_st pipe_ex)"
  unfolding numeral_2_eq_2
  by (rule wp_mono [OF pipewrite_delivers [OF read_st_sel(2,3) read_st_ready]])
    (simp_all add: pipe_ex_facts read_st_sel, simp add: pipe_ex_def)

lemma piperead_takes_witness:
  "wp (piperead 1 hang 0x300000 20) (\<lambda>(r, dst) t. r = int (length dst) \<and> dst = take 20 (pipe_bytes pipe_ex)) (pipe_st pipe_ex)"
proof -
  have "pipe_bytes pipe_ex \<noteq> []" using pipe_ex_facts(2) by auto
  then show ?thesis unfolding One_nat_def
    by (intro wp_mono [OF piperead_takes]) (auto simp: pipe_ex_facts pipe_st_sel pipe_st_lock)
qed

lemma pipewrite_closed_fails_witness:
  "wp (pipewrite 1 hang 0x300000 [1, 2, 3, 4, 5] 5) (\<lambda>r t. r = - 1
    \<and> pipe_bytes (pipes t 0x300000) = pipe_bytes (pipe_ex\<lparr>readopen := 0\<rparr>) @ [1, 2]) (pipe_st (pipe_ex\<lparr>readopen := 0\<rparr>))"
  unfolding One_nat_def
  by (intro wp_mono [OF pipewrite_closed_fails]) (auto simp: pipe_ex_facts pipe_st_sel pipe_st_lock PIPESIZE_def numeral_2_eq_2)

end
