(* ===== verification/File.thy ===== *)
theory File
  imports Pipe
begin

text \<open>
  Open files (\<^verbatim>\<open>file.c\<close>, \<^verbatim>\<open>file.h\<close>) and the creation of pipes. A file pointer is an
  index into \<^verbatim>\<open>ftable.file[]\<close>.

  Shown: what \<^verbatim>\<open>filealloc\<close>, \<^verbatim>\<open>filedup\<close> and \<^verbatim>\<open>fileclose\<close> do to the table; the last close of
  a pipe end closes that end; a successful \<^verbatim>\<open>pipealloc\<close> makes an empty pipe whose two ends work.
\<close>

section \<open>State\<close>

datatype ftype = FD_NONE | FD_PIPE | FD_INODE

record filerec =
  f_type :: ftype
  f_ref :: int
  f_readable :: int
  f_writable :: int
  f_pipe :: u32
  f_ip :: nat
  f_off :: u32

record filest = pipest +
  ftab :: "nat \<Rightarrow> filerec"

definition upd_file :: "nat \<Rightarrow> (filerec \<Rightarrow> filerec) \<Rightarrow> 'a filest_scheme \<Rightarrow> 'a filest_scheme" where
  "upd_file f g s = s\<lparr>ftab := (ftab s)(f := g (ftab s f))\<rparr>"

abbreviation fil :: "nat \<Rightarrow> ('a filest_scheme, filerec) kop" where
  "fil f \<equiv> gets (\<lambda>s. ftab s f)"

section \<open>Operations\<close>

definition fileinit :: "('a filest_scheme, unit) kop" where
  "fileinit = initlock FtableLock ''ftable''"

definition filealloc_slot :: "nat \<Rightarrow> ('a filest_scheme, nat option) kop" where
  "filealloc_slot f =
    bnd (fil f) (\<lambda>x.
    if f_ref x = 0
    then thn (modify (upd_file f (\<lambda>x. x\<lparr>f_ref := 1\<rparr>))) (
         thn (release FtableLock) (
         ret (Some f)))
    else ret None)"

definition filealloc :: "('a filest_scheme, nat option) kop" where
  "filealloc =
    thn (acquire FtableLock) (
    bnd (for_find [0..<NFILE] filealloc_slot) (\<lambda>r.
    case r of
      Some f \<Rightarrow> ret (Some f)
    | None \<Rightarrow> thn (release FtableLock) (ret None)))"

definition filedup :: "nat \<Rightarrow> ('a filest_scheme, nat) kop" where
  "filedup f =
    thn (acquire FtableLock) (
    bnd (fil f) (\<lambda>x.
    if f_ref x < 1 then panic ''filedup''
    else thn (modify (upd_file f (\<lambda>x. x\<lparr>f_ref := s32 (f_ref x + 1)\<rparr>))) (
         thn (release FtableLock) (
         ret f))))"

definition fileclose :: "nat \<Rightarrow> ('a filest_scheme, unit) kop \<Rightarrow> nat \<Rightarrow> ('a filest_scheme, unit) kop" where
  "fileclose n env f =
    thn (acquire FtableLock) (
    bnd (fil f) (\<lambda>x.
    if f_ref x < 1 then panic ''fileclose''
    else thn (modify (upd_file f (\<lambda>x. x\<lparr>f_ref := f_ref x - 1\<rparr>))) (
    bnd (fil f) (\<lambda>ff.
    if f_ref ff > 0 then release FtableLock
    else thn (modify (upd_file f (\<lambda>x. x\<lparr>f_ref := 0, f_type := FD_NONE\<rparr>))) (
    thn (release FtableLock) (
    if f_type ff = FD_PIPE then pipeclose (f_pipe ff) (f_writable ff)
    else if f_type ff = FD_INODE then iput n env (f_ip ff)
    else ret ()))))))"

definition filestat :: "nat \<Rightarrow> ('a filest_scheme, unit) kop \<Rightarrow> nat \<Rightarrow> ('a filest_scheme, stat option) kop" where
  "filestat n env f =
    bnd (fil f) (\<lambda>x.
    if f_type x = FD_INODE
    then thn (ilock n env (f_ip x)) (
         bnd (stati (f_ip x)) (\<lambda>st.
         thn (iunlock (f_ip x)) (
         ret (Some st))))
    else ret None)"

text \<open>The count is an \<^verbatim>\<open>int\<close>, and unsigned where \<^verbatim>\<open>readi\<close> and \<^verbatim>\<open>writei\<close> take it. The offset is read once the
  inode is locked.\<close>

definition fileread ::
  "nat \<Rightarrow> ('a filest_scheme, unit) kop \<Rightarrow> 'a filest_scheme devsw \<Rightarrow> nat \<Rightarrow> int \<Rightarrow> ('a filest_scheme, int \<times> u8 list) kop" where
  "fileread n env dv f cnt =
    bnd (fil f) (\<lambda>x.
    if f_readable x = 0 then ret (- 1, [])
    else if f_type x = FD_PIPE then piperead n env (f_pipe x) cnt
    else if f_type x = FD_INODE then
      thn (ilock n env (f_ip x)) (
      bnd (fil f) (\<lambda>y.
      bnd (readi n env dv (f_ip x) (f_off y) (of_int cnt)) (\<lambda>(r, dst).
      thn (whenk (r > 0) (modify (upd_file f (\<lambda>x. x\<lparr>f_off := f_off x + of_int r\<rparr>)))) (
      thn (iunlock (f_ip x)) (
      ret (r, dst))))))
    else panic ''fileread'')"

definition filewrite ::
  "nat \<Rightarrow> ('a filest_scheme, unit) kop \<Rightarrow> 'a filest_scheme devsw \<Rightarrow> nat \<Rightarrow> u8 list \<Rightarrow> int \<Rightarrow> ('a filest_scheme, int) kop" where
  "filewrite n env dv f src cnt =
    bnd (fil f) (\<lambda>x.
    if f_writable x = 0 then ret (- 1)
    else if f_type x = FD_PIPE then pipewrite n env (f_pipe x) src cnt
    else if f_type x = FD_INODE then
      thn (ilock n env (f_ip x)) (
      bnd (fil f) (\<lambda>y.
      bnd (writei n env dv (f_ip x) src (f_off y) (of_int cnt)) (\<lambda>r.
      thn (whenk (r > 0) (modify (upd_file f (\<lambda>x. x\<lparr>f_off := f_off x + of_int r\<rparr>)))) (
      thn (iunlock (f_ip x)) (
      ret r)))))
    else panic ''filewrite'')"

section \<open>Creating a pipe\<close>

text \<open>The label \<^verbatim>\<open>bad\<close>. No path reaches it with a page allocated.\<close>

definition pipealloc_bad ::
  "nat \<Rightarrow> ('a filest_scheme, unit) kop \<Rightarrow> u32 \<Rightarrow> nat option \<Rightarrow> nat option \<Rightarrow> ('a filest_scheme, (nat \<times> nat) option) kop" where
  "pipealloc_bad n env p f0 f1 =
    thn (whenk (p \<noteq> 0) (kfree p)) (
    thn (case f0 of None \<Rightarrow> ret () | Some f \<Rightarrow> fileclose n env f) (
    thn (case f1 of None \<Rightarrow> ret () | Some f \<Rightarrow> fileclose n env f) (
    ret None)))"

text \<open>The data array of a new pipe holds whatever the page held behind the lock, which takes 52
  bytes.\<close>

definition new_pipe :: "u32 \<Rightarrow> 'a filest_scheme \<Rightarrow> pipe" where
  "new_pipe p s = \<lparr>p_data = map (\<lambda>k. pmem s (p + 52 + of_nat k)) [0..<PIPESIZE],
     nread = 0, nwrite = 0, readopen = 1, writeopen = 1\<rparr>"

definition pipealloc :: "nat \<Rightarrow> ('a filest_scheme, unit) kop \<Rightarrow> ('a filest_scheme, (nat \<times> nat) option) kop" where
  "pipealloc n env =
    bnd filealloc (\<lambda>f0.
    case f0 of
      None \<Rightarrow> pipealloc_bad n env 0 None None
    | Some a \<Rightarrow>
    bnd filealloc (\<lambda>f1.
    case f1 of
      None \<Rightarrow> pipealloc_bad n env 0 (Some a) None
    | Some b \<Rightarrow>
    bnd kalloc (\<lambda>p.
    if p = 0 then pipealloc_bad n env 0 (Some a) (Some b)
    else thn (seqs [
      modify (\<lambda>s. upd_pipe p (\<lambda>_. new_pipe p s) s),
      initlock (PipeLock p) ''pipe'',
      modify (upd_file a (\<lambda>x. x\<lparr>f_type := FD_PIPE, f_readable := 1, f_writable := 0, f_pipe := p\<rparr>)),
      modify (upd_file b (\<lambda>x. x\<lparr>f_type := FD_PIPE, f_readable := 0, f_writable := 1, f_pipe := p\<rparr>))]) (
    ret (Some (a, b))))))"

section \<open>Framing\<close>

lemma filest_lock_sel [simp]:
  "ftab (acq lk s) = ftab s"
  "filest.more (acq lk s) = filest.more s"
  "ftab (rel lk s) = ftab s"
  "filest.more (rel lk s) = filest.more s"
  "ftab (lockround lk s) = ftab s"
  "filest.more (lockround lk s) = filest.more s"
  by (simp_all add: acq_def rel_def lockround_def)

lemma filest_lock_upd [simp]:
  "acq lk (ftab_update g_ftab s) = ftab_update g_ftab (acq lk s)"
  "rel lk (ftab_update g_ftab s) = ftab_update g_ftab (rel lk s)"
  "lockround lk (ftab_update g_ftab s) = ftab_update g_ftab (lockround lk s)"
  by (simp_all add: acq_def rel_def lockround_def)

lemma filest_lock_inv [simp]:
  "lock_free lk (ftab_update g_ftab s) = lock_free lk s"
  "lock_mine lk (ftab_update g_ftab s) = lock_mine lk s"
  "cli_ok (ftab_update g_ftab s) = cli_ok s"
  by (simp_all add: lock_free_def lock_mine_def cli_ok_def)

lemma filest_calm_upd [simp]:
  "calm s (ftab_update g_ftab t) = calm s t"
  "calm (ftab_update g_ftab s) t = calm s t"
  by (simp_all add: calm_def)

lemma filest_cpu_sel [simp]:
  "ftab (upd_cpu h s) = ftab s"
  "filest.more (upd_cpu h s) = filest.more s"
  by (simp_all add: upd_cpu_def)

lemma filest_proc_sel [simp]: "ftab (upd_proc i f s) = ftab s" "filest.more (upd_proc i f s) = filest.more s"
  by (simp_all add: upd_proc_def)

lemma upd_file_sel [simp]:
  "ftab (upd_file f g s) = (ftab s)(f := g (ftab s f))" "ptab (upd_file f g s) = ptab s" "pipes (upd_file f g s) = pipes s"
  "icache (upd_file f g s) = icache s" "disk (upd_file f g s) = disk s" "pmem (upd_file f g s) = pmem s"
  "cpus (upd_file f g s) = cpus s" "this_cpu (upd_file f g s) = this_cpu s"
  by (simp_all add: upd_file_def)

lemma upd_file_lock [simp]:
  "acq lk (upd_file f g s) = upd_file f g (acq lk s)" "rel lk (upd_file f g s) = upd_file f g (rel lk s)"
  "lockround lk (upd_file f g s) = upd_file f g (lockround lk s)"
  "lock_free lk (upd_file f g s) = lock_free lk s" "lock_mine lk (upd_file f g s) = lock_mine lk s"
  "cli_ok (upd_file f g s) = cli_ok s" "calm s (upd_file f g t) = calm s t" "calm (upd_file f g s) t = calm s t"
  "proc_ctx i (upd_file f g s) = proc_ctx i s"
  by (simp_all add: upd_file_def proc_ctx_def)

section \<open>The file table\<close>

text \<open>Counts are not negative, and a slot that is not in use has no type: \<^verbatim>\<open>filealloc\<close> relies
  on it, because it does not set the type.\<close>

definition ftab_ok :: "(nat \<Rightarrow> filerec) \<Rightarrow> bool" where
  "ftab_ok T \<longleftrightarrow> (\<forall>f < NFILE. 0 \<le> f_ref (T f) \<and> (f_ref (T f) = 0 \<longrightarrow> f_type (T f) = FD_NONE))"

definition first_file :: "(nat \<Rightarrow> filerec) \<Rightarrow> nat option" where
  "first_file T = find (\<lambda>f. f_ref (T f) = 0) [0..<NFILE]"

lemma wp_filealloc:
  assumes "lock_free FtableLock s" "cli_ok s"
  shows "wp filealloc Q s = (case first_file (ftab s) of
      None \<Rightarrow> Q None (lockround FtableLock s)
    | Some f \<Rightarrow> Q (Some f) (upd_file f (\<lambda>x. x\<lparr>f_ref := 1\<rparr>) (lockround FtableLock s)))"
proof -
  have "wp (for_find [0..<NFILE] filealloc_slot) Q (acq FtableLock s) =
    (case find (\<lambda>f. f_ref (ftab s f) = 0) [0..<NFILE] of None \<Rightarrow> Q None (acq FtableLock s)
     | Some f \<Rightarrow> Q (Some f) (upd_file f (\<lambda>x. x\<lparr>f_ref := 1\<rparr>) (lockround FtableLock s)))" for Q
    by (rule wp_for_find_eq) (use assms in \<open>auto simp: filealloc_slot_def wp lock_simps\<close>)
  with assms show ?thesis by (auto simp: filealloc_def first_file_def wp lock_simps split: option.split)
qed

lemma wp_filedup:
  assumes "lock_free FtableLock s" "cli_ok s" "1 \<le> f_ref (ftab s f)"
  shows "wp (filedup f) Q s = Q f (upd_file f (\<lambda>x. x\<lparr>f_ref := s32 (f_ref x + 1)\<rparr>) (lockround FtableLock s))"
  using assms by (simp add: filedup_def wp lock_simps)

lemma wp_fileclose_shared:
  assumes "lock_free FtableLock s" "cli_ok s" "1 < f_ref (ftab s f)"
  shows "wp (fileclose n env f) Q s = Q () (upd_file f (\<lambda>x. x\<lparr>f_ref := f_ref x - 1\<rparr>) (lockround FtableLock s))"
  using assms by (simp add: fileclose_def wp lock_simps)

text \<open>The last close: the slot is free again before the file behind it is let go.\<close>

lemma wp_fileclose_last:
  assumes "lock_free FtableLock s" "cli_ok s" "f_ref (ftab s f) = 1"
  shows "wp (fileclose n env f) Q s =
    wp (case f_type (ftab s f) of FD_PIPE \<Rightarrow> pipeclose (f_pipe (ftab s f)) (f_writable (ftab s f))
        | FD_INODE \<Rightarrow> iput n env (f_ip (ftab s f)) | FD_NONE \<Rightarrow> ret ()) Q
      (upd_file f (\<lambda>x. x\<lparr>f_ref := 0, f_type := FD_NONE\<rparr>) (lockround FtableLock s))"
proof -
  have "upd_file f (\<lambda>x. x\<lparr>f_ref := 0, f_type := FD_NONE\<rparr>) (upd_file f (\<lambda>x. x\<lparr>f_ref := f_ref x - 1\<rparr>) t)
    = upd_file f (\<lambda>x. x\<lparr>f_ref := 0, f_type := FD_NONE\<rparr>) t" for t :: "'a filest_scheme"
    by (simp add: upd_file_def)
  with assms show ?thesis
    by (cases "f_type (ftab s f)") (simp_all add: fileclose_def wp lock_simps)
qed

text \<open>Closing one end while the other stays open.\<close>

lemma wp_pipeclose_end:
  fixes s :: "'a pipest_scheme"
  assumes s: "lock_free (PipeLock p) s" "lock_free PtableLock s" "cli_ok s"
    and o: "if w \<noteq> 0 then readopen (pipes s p) \<noteq> 0 else writeopen (pipes s p) \<noteq> 0"
  shows "wp (pipeclose p w) (\<lambda>_ t. calm s t \<and> ptab t = wake_tab (if w \<noteq> 0 then ChPipeRead p else ChPipeWrite p) (ptab s)
    \<and> pipes t = (pipes s)(p := (if w \<noteq> 0 then (pipes s p)\<lparr>writeopen := 0\<rparr> else (pipes s p)\<lparr>readopen := 0\<rparr>))
    \<and> pipest.more t = pipest.more s) s"
proof -
  let ?f = "if w \<noteq> 0 then writeopen_update (\<lambda>_. 0) else readopen_update (\<lambda>_. 0)"
  let ?ch = "if w \<noteq> 0 then ChPipeRead p else ChPipeWrite p"
  let ?t = "upd_pipe p ?f (acq (PipeLock p) s)"
  have c: "calm (acq (PipeLock p) s) ?t" by (simp add: calm_refl)
  have ne: "PipeLock p \<noteq> PtableLock" by simp
  note E = section_wakeup [OF s ne c refl, of ?ch]
  have m: "pipest.more (upd_pipe p g u) = pipest.more u" for g and u :: "'a pipest_scheme" by (simp add: upd_pipe_def)
  have eq: "wp (pipeclose p w) Q s = wp (thn (wakeup ?ch) (thn (release (PipeLock p)) (ret ()))) Q ?t" for Q
    using s o acq_cli_ok [OF s(3)]
    by (cases "w = 0") (simp_all add: pipeclose_def wp wp_acquire wp_wakeup wp_release_acq)
  show ?thesis unfolding eq E(1) wp_ret using E(2) by (simp add: m)
qed

lemma first_file_Some: "first_file T = Some f \<longleftrightarrow> f < NFILE \<and> f_ref (T f) = 0 \<and> (\<forall>g < f. f_ref (T g) \<noteq> 0)"
  by (auto simp: first_file_def find_upt_Some)

lemma proc_ctx_wake:
  assumes "proc_ctx i s" "calm s t" "ptab t = wake_tab ch (ptab s)"
  shows "proc_ctx i t"
proof -
  have "ptab t i = ptab s i" using assms(1,3) by (simp add: wake_tab_def woken_def proc_ctx_def)
  then show ?thesis using assms(1) by (intro proc_ctx_calm [OF assms(1,2)]) (simp_all add: proc_ctx_def)
qed

section \<open>Creating and using a pipe\<close>

definition pipe_end :: "u32 \<Rightarrow> int \<Rightarrow> int \<Rightarrow> filerec \<Rightarrow> filerec" where
  "pipe_end p r w x = x\<lparr>f_ref := 1, f_type := FD_PIPE, f_readable := r, f_writable := w, f_pipe := p\<rparr>"

lemma wp_pipealloc:
  fixes s :: "'a filest_scheme"
  assumes s: "proc_ctx i s" and a: "first_file (ftab s) = Some a" "first_file ((ftab s)(a := (ftab s a)\<lparr>f_ref := 1\<rparr>)) = Some b"
    and p: "freelist s = p" "p \<noteq> 0"
  shows "wp (pipealloc n env) (\<lambda>r t. r = Some (a, b) \<and> proc_ctx i t \<and> ptab t = ptab s \<and> icache t = icache s
    \<and> pipes t = (pipes s)(p := new_pipe p s)
    \<and> ftab t = (ftab s)(a := pipe_end p 1 0 (ftab s a), b := pipe_end p 0 1 (ftab s b))) s"
proof -
  have ab: "a \<noteq> b" using a(2) by (auto simp: first_file_Some)
  let ?s1 = "upd_file a (\<lambda>x. x\<lparr>f_ref := 1\<rparr>) (lockround FtableLock s)"
  let ?s2 = "upd_file b (\<lambda>x. x\<lparr>f_ref := 1\<rparr>) (lockround FtableLock ?s1)"
  have c: "proc_ctx i ?s1" "proc_ctx i ?s2"
    using s by (simp_all add: proc_ctx_lockround del: upd_file_lock(3))
  have fs: "first_file (ftab ?s1) = Some b" "freelist ?s2 = p" "pmem ?s2 = pmem s"
    using a p by (simp_all add: upd_file_def)
  let ?s3 = "(lockround KmemLock ?s2)\<lparr>freelist := ld32 (pmem ?s2) p\<rparr>"
  have c3: "proc_ctx i ?s3" using proc_ctx_lockround [OF c(2), of KmemLock] by (simp add: proc_ctx_def)
  let ?s4 = "upd_lock (PipeLock p) (\<lambda>l. l\<lparr>lk_name := ''pipe'', locked := 0, lk_cpu := None\<rparr>) (upd_pipe p (\<lambda>_. new_pipe p ?s3) ?s3)"
  let ?t = "upd_file b (\<lambda>x. x\<lparr>f_type := FD_PIPE, f_readable := 0, f_writable := 1, f_pipe := p\<rparr>)
    (upd_file a (\<lambda>x. x\<lparr>f_type := FD_PIPE, f_readable := 1, f_writable := 0, f_pipe := p\<rparr>) ?s4)"
  have eq: "wp (pipealloc n env) Q s = Q (Some (a, b)) ?t" for Q
    using p a fs unfolding pipealloc_def wp_bnd
    by (simp add: wp wp_filealloc proc_ctx_lock [OF s] proc_ctx_lock [OF c(1)] wp_kalloc proc_ctx_lock [OF c(2)]
        initlock_def del: upd_file_lock)
  have "proc_ctx i (upd_pipe p (\<lambda>_. new_pipe p ?s3) ?s3)" using c3 by (simp add: upd_pipe_def proc_ctx_def)
  then have pc: "proc_ctx i ?t" using initlock_ctx by simp
  have "ptab ?t = ptab s" "icache ?t = icache s" "pipes ?t = (pipes s)(p := new_pipe p s)"
    "ftab ?t = (ftab s)(a := pipe_end p 1 0 (ftab s a), b := pipe_end p 0 1 (ftab s b))"
    using ab by (simp_all add: upd_lock_def new_pipe_def pipe_end_def upd_pipe_def upd_file_def)
  with pc show ?thesis unfolding eq by blast
qed

lemma new_pipe_empty: "pipe_ok (new_pipe p s)" "pipe_bytes (new_pipe p s) = []"
  by (simp_all add: new_pipe_def pipe_ok_def ring_ok_def pipe_bytes_def ring_contents_def)

lemma ftab_more: "pipest.more u = pipest.more t \<Longrightarrow> ftab u = ftab t"
  by (cases u; cases t) simp

section \<open>Properties\<close>

text \<open>Closing undoes duplicating: for a file in use whose count can still grow, \<^verbatim>\<open>filedup\<close>
  followed by \<^verbatim>\<open>fileclose\<close> returns with the table as it was, and neither the pipe nor the inode
  behind the file is touched.\<close>

theorem filedup_fileclose:
  assumes "proc_ctx i s" "1 \<le> f_ref (ftab s f)" "f_ref (ftab s f) < 2 ^ 31 - 1"
  shows "wp (bnd (filedup f) (fileclose n env)) (\<lambda>_ t. proc_ctx i t \<and> ftab t = ftab s \<and> pipes t = pipes s
    \<and> icache t = icache s \<and> ptab t = ptab s) s"
proof -
  let ?t = "upd_file f (\<lambda>x. x\<lparr>f_ref := s32 (f_ref x + 1)\<rparr>) (lockround FtableLock s)"
  have s32: "s32 (f_ref (ftab s f) + 1) = f_ref (ftab s f) + 1" using assms(2,3) by (intro s32_id) (simp add: in_s32_def)
  have c: "proc_ctx i ?t" using proc_ctx_lockround [OF assms(1)] by simp
  have r: "1 < f_ref (ftab ?t f)" using s32 assms(2) by simp
  let ?u = "upd_file f (\<lambda>x. x\<lparr>f_ref := f_ref x - 1\<rparr>) (lockround FtableLock ?t)"
  have "proc_ctx i ?u" using proc_ctx_lockround [OF c] by simp
  moreover have "ftab ?u = ftab s" "pipes ?u = pipes s" "icache ?u = icache s" "ptab ?u = ptab s"
    using s32 by (simp_all add: fun_eq_iff)
  ultimately show ?thesis unfolding wp_bnd wp_filedup [OF proc_ctx_lock [OF assms(1)] assms(2)]
    wp_fileclose_shared [OF proc_ctx_lock [OF c] r] by blast
qed

text \<open>C26. A new pipe works from end to end: with two free files and a free page \<^verbatim>\<open>pipealloc\<close>
  succeeds, and \<open>n\<close> bytes (at most \<open>PIPESIZE\<close>) written to its second file with \<^verbatim>\<open>filewrite\<close> are
  what \<^verbatim>\<open>fileread\<close> on its first file returns, in order and complete.\<close>

theorem pipe_end_to_end:
  assumes s: "proc_ctx i s" and a: "first_file (ftab s) = Some a" "first_file ((ftab s)(a := (ftab s a)\<lparr>f_ref := 1\<rparr>)) = Some b"
    and p: "freelist s \<noteq> 0" and c: "0 < cnt" "cnt \<le> int PIPESIZE" "length src = nat cnt"
  shows "wp (bnd (pipealloc m env) (\<lambda>r. case r of None \<Rightarrow> ret None | Some (f0, f1) \<Rightarrow>
      bnd (filewrite (Suc n) env dv f1 src cnt) (\<lambda>w.
      bnd (fileread (Suc n) env dv f0 cnt) (\<lambda>r.
      ret (Some (w, r))))))
    (\<lambda>x t. x = Some (cnt, (cnt, src)) \<and> proc_ctx i t) s"
proof (rule wp_bndI [OF wp_pipealloc [OF s a refl p]], goal_cases)
  case (1 r t)
  let ?p = "freelist s"
  have ab: "a \<noteq> b" using a(2) by (auto simp: first_file_Some)
  have t: "proc_ctx i t" "pipes t ?p = new_pipe ?p s" "r = Some (a, b)"
    "ftab t a = pipe_end ?p 1 0 (ftab s a)" "ftab t b = pipe_end ?p 0 1 (ftab s b)" using 1 ab by simp_all
  note N = new_pipe_empty [of ?p s, folded t(2)]
  have P: "pipe_ok (fold pipe_put src (pipes t ?p))" "pipe_bytes (fold pipe_put src (pipes t ?p)) = src"
    using pq.puts [OF N(1), of src] N(2) c by simp_all
  have fw: "filewrite (Suc n) env dv b src cnt t = pipewrite (Suc n) env ?p src cnt t"
    by (simp add: filewrite_def bnd_def gets_def t(5) pipe_end_def)
  have w: "wp (filewrite (Suc n) env dv b src cnt) (\<lambda>r u. r = cnt \<and> pipes u = (pipes t)(?p := fold pipe_put src (pipes t ?p))
    \<and> ptab u = wake_tab (ChPipeRead ?p) (ptab t) \<and> calm t u \<and> pipest.more u = pipest.more t) t"
    unfolding wp_def fw unfolding wp_def [symmetric]
    by (rule wp_pipewrite_room) (use proc_ctx_lock [OF t(1)] N c in simp_all)
  show ?case unfolding t(3) option.case prod.case
  proof (rule wp_bndI [OF w], goal_cases)
    case (1 w u)
    have u: "proc_ctx i u" "ftab u a = pipe_end ?p 1 0 (ftab s a)"
      using proc_ctx_wake [OF t(1)] t(4) 1 ftab_more [of u t] by auto
    have fr: "fileread (Suc n) env dv a cnt u = piperead (Suc n) env ?p cnt u"
      by (simp add: fileread_def bnd_def gets_def u(2) pipe_end_def)
    have x: "pipe_ok (pipes u ?p)" "pipe_bytes (pipes u ?p) = src" using 1 P by simp_all
    have ne: "src \<noteq> []" using c by auto
    have "wp (fileread (Suc n) env dv a cnt) (\<lambda>r v. r = (int (length src), take (length src) (pipe_bytes (pipes u ?p)))
      \<and> pipes v = (pipes u)(?p := (pipe_pop ^^ length src) (pipes u ?p))
      \<and> ptab v = wake_tab (ChPipeWrite ?p) (ptab u) \<and> calm u v \<and> pipest.more v = pipest.more u) u"
      unfolding wp_def fr unfolding wp_def [symmetric]
      by (rule wp_piperead) (use proc_ctx_lock [OF u(1)] x ne c in simp_all)
    then show ?case
      by (rule wp_bndI) (use 1 x c proc_ctx_wake [OF u(1)] in \<open>auto simp: wp_ret\<close>)
  qed
qed

definition file_zero :: filerec where
  "file_zero = \<lparr>f_type = FD_NONE, f_ref = 0, f_readable = 0, f_writable = 0, f_pipe = 0, f_ip = 0, f_off = 0\<rparr>"

text \<open>A state for examples: file 0 is in use, the first free page is at \<open>0x300000\<close>.\<close>

definition file_st :: "filest" where
  "file_st = (filest.extend (pipest.extend (fsst_boot (\<lambda>_. replicate BSIZE 0) file_ex_cache (pipest.fields (\<lambda>_. pipe_ex)))
     (filest.fields ((\<lambda>_. file_zero)(0 := file_zero\<lparr>f_type := FD_INODE, f_ref := 1, f_readable := 1, f_ip := 3\<rparr>))))
     ())\<lparr>freelist := 0x300000\<rparr>"

lemma file_st_sel: "proc_ctx 2 file_st" "freelist file_st = 0x300000"
  "ftab file_st = (\<lambda>_. file_zero)(0 := file_zero\<lparr>f_type := FD_INODE, f_ref := 1, f_readable := 1, f_ip := 3\<rparr>)"
  by (simp_all add: file_st_def filest.defs pipest.defs fsst_boot_def fsst.defs idest_boot_def idest.defs pstate_boot_def pstate.defs
      boot_defs proc_ctx_def lock_free_def upd_cpu_def upd_proc_def NPROC_def proc_zero_def)

lemma filedup_fileclose_witness:
  "wp (bnd (filedup 0) (fileclose 2 hang)) (\<lambda>_ t. proc_ctx 2 t \<and> ftab t = ftab file_st) file_st"
  by (rule wp_mono [OF filedup_fileclose [OF file_st_sel(1)]]) (simp_all add: file_st_sel)

lemma pipe_end_to_end_witness:
  "wp (bnd (pipealloc 2 hang) (\<lambda>r. case r of None \<Rightarrow> ret None | Some (f0, f1) \<Rightarrow>
      bnd (filewrite 1 hang \<lparr>dev_read = \<lambda>_. None, dev_write = \<lambda>_. None\<rparr> f1 [10, 20, 30] 3) (\<lambda>w.
      bnd (fileread 1 hang \<lparr>dev_read = \<lambda>_. None, dev_write = \<lambda>_. None\<rparr> f0 3) (\<lambda>r.
      ret (Some (w, r))))))
    (\<lambda>x t. x = Some (3, (3, [10, 20, 30])) \<and> proc_ctx 2 t) file_st"
proof -
  have "first_file (ftab file_st) = Some 1" "first_file ((ftab file_st)(1 := (ftab file_st 1)\<lparr>f_ref := 1\<rparr>)) = Some 2"
    by (auto simp: first_file_Some file_st_sel NFILE_def file_zero_def less_2_cases_iff)
  then show ?thesis unfolding One_nat_def
    by (rule pipe_end_to_end [OF file_st_sel(1)]) (simp_all add: file_st_sel PIPESIZE_def)
qed

end
