(* ===== verification/Procops.thy ===== *)
theory Procops
  imports File Vm
begin

text \<open>
  The life of a process (\<^verbatim>\<open>proc.c\<close>): \<^verbatim>\<open>allocproc\<close>, \<^verbatim>\<open>userinit\<close>,
  \<^verbatim>\<open>growproc\<close>, \<^verbatim>\<open>fork\<close>, \<^verbatim>\<open>exit\<close>, \<^verbatim>\<open>wait\<close> and \<^verbatim>\<open>wait2\<close>.

  A trap frame and a saved context live in the kernel stack page of the process and are read and
  written there, at the offsets the structures give. \<open>kimage\<close> holds what the linker knows: the
  addresses of \<^verbatim>\<open>trapret\<close>, \<^verbatim>\<open>forkret\<close> and of the first user program.
\<close>

section \<open>Trap frames in memory\<close>

definition ld16 :: "mem \<Rightarrow> u32 \<Rightarrow> u16" where
  "ld16 m a = ucast (m a) OR push_bit 8 (ucast (m (a + 1)))"

definition st16 :: "mem \<Rightarrow> u32 \<Rightarrow> u16 \<Rightarrow> mem" where
  "st16 m a v = m(a := ucast v, a + 1 := ucast (drop_bit 8 v))"

definition TF_SIZE :: u32 where "TF_SIZE = 76"
definition CONTEXT_SIZE :: u32 where "CONTEXT_SIZE = 20"

definition get_tf :: "mem \<Rightarrow> u32 \<Rightarrow> trapframe" where
  "get_tf m a = \<lparr>tf_edi = ld32 m a, tf_esi = ld32 m (a + 4), tf_ebp = ld32 m (a + 8), tf_oesp = ld32 m (a + 12),
     tf_ebx = ld32 m (a + 16), tf_edx = ld32 m (a + 20), tf_ecx = ld32 m (a + 24), tf_eax = ld32 m (a + 28),
     tf_gs = ld16 m (a + 32), tf_fs = ld16 m (a + 36), tf_es = ld16 m (a + 40), tf_ds = ld16 m (a + 44),
     tf_trapno = ld32 m (a + 48), tf_err = ld32 m (a + 52), tf_eip = ld32 m (a + 56), tf_cs = ld16 m (a + 60),
     tf_eflags = ld32 m (a + 64), tf_esp = ld32 m (a + 68), tf_ss = ld16 m (a + 72)\<rparr>"

definition set_eax :: "u32 \<Rightarrow> u32 \<Rightarrow> mem \<Rightarrow> mem" where
  "set_eax a v m = st32 m (a + 28) v"

record kimage =
  k_trapret :: u32
  k_forkret :: u32
  k_initcode :: u32
  k_initsize :: u32

abbreviation upd_mem :: "(mem \<Rightarrow> mem) \<Rightarrow> ('a kmem_scheme, unit) kop" where
  "upd_mem f \<equiv> modify (\<lambda>s. s\<lparr>pmem := f (pmem s)\<rparr>)"

abbreviation prc :: "nat \<Rightarrow> ('a pstate_scheme, proc) kop" where
  "prc i \<equiv> gets (\<lambda>s. ptab s i)"

abbreviation set_prc :: "nat \<Rightarrow> (proc \<Rightarrow> proc) \<Rightarrow> ('a pstate_scheme, unit) kop" where
  "set_prc i f \<equiv> modify (upd_proc i f)"

section \<open>Creating processes\<close>

definition allocproc_slot :: "nat \<Rightarrow> ('a pstate_scheme, nat option) kop" where
  "allocproc_slot i = bnd (prc i) (\<lambda>p. ret (if p_state p = UNUSED then Some i else None))"

text \<open>The part after the slot was found: kernel stack, trap frame, context, times.\<close>

definition allocproc_stack :: "kimage \<Rightarrow> nat \<Rightarrow> ('a pstate_scheme, nat option) kop" where
  "allocproc_stack ki i =
    bnd kalloc (\<lambda>kst.
    thn (set_prc i (\<lambda>p. p\<lparr>p_kstack := kst\<rparr>)) (
    if kst = 0 then thn (set_prc i (\<lambda>p. p\<lparr>p_state := UNUSED\<rparr>)) (ret None)
    else
      let sp = kst + KSTACKSIZE; tf = sp - TF_SIZE; ra = tf - 4; cx = ra - CONTEXT_SIZE in
      thn (seqs [
        set_prc i (\<lambda>p. p\<lparr>p_tf := tf\<rparr>),
        upd_mem (\<lambda>m. st32 m ra (k_trapret ki)),
        set_prc i (\<lambda>p. p\<lparr>p_context := cx\<rparr>),
        upd_mem (\<lambda>m. memset m cx 0 CONTEXT_SIZE),
        upd_mem (\<lambda>m. st32 m (cx + 16) (k_forkret ki))]) (
      bnd clockticks (\<lambda>t.
      thn (set_prc i (\<lambda>p. p\<lparr>p_ctime := sint t, p_rtime := 0, p_priority := 0\<rparr>)) (
      ret (Some i))))))"

definition allocproc :: "kimage \<Rightarrow> ('a pstate_scheme, nat option) kop" where
  "allocproc ki =
    thn (acquire PtableLock) (
    bnd (for_find [0..<NPROC] allocproc_slot) (\<lambda>r.
    case r of
      None \<Rightarrow> thn (release PtableLock) (ret None)
    | Some i \<Rightarrow>
        bnd (gets nextpid) (\<lambda>pid.
        thn (set_prc i (\<lambda>p. p\<lparr>p_state := EMBRYO, p_pid := pid\<rparr>)) (
        thn (modify (\<lambda>s. s\<lparr>nextpid := s32 (pid + 1)\<rparr>)) (
        thn (release PtableLock) (
        allocproc_stack ki i))))))"

text \<open>\<^verbatim>\<open>userinit\<close> uses the result of \<^verbatim>\<open>allocproc\<close> unchecked.\<close>

definition userinit ::
  "kimage \<Rightarrow> nat \<Rightarrow> ('a filest_scheme, unit) kop \<Rightarrow> ('a filest_scheme, unit) kop" where
  "userinit ki n env =
    bnd (allocproc ki) (\<lambda>r.
    thn (modify (\<lambda>s. s\<lparr>initproc := r\<rparr>)) (
    bnd (need r) (\<lambda>i.
    bnd setupkvm (\<lambda>d.
    thn (set_prc i (\<lambda>p. p\<lparr>p_pgdir := d\<rparr>)) (
    if d = 0 then panic ''userinit: out of memory?''
    else
    thn (inituvm d (k_initcode ki) (k_initsize ki)) (
    thn (set_prc i (\<lambda>p. p\<lparr>p_sz := PGSIZE\<rparr>)) (
    bnd (gets (\<lambda>s. p_tf (ptab s i))) (\<lambda>tf.
    let ds = of_nat (SEG_UDATA * 8) OR ucast DPL_USER in
    thn (seqs [
      upd_mem (\<lambda>m. memset m tf 0 TF_SIZE),
      upd_mem (\<lambda>m. st16 m (tf + 60) (of_nat (SEG_UCODE * 8) OR ucast DPL_USER)),
      upd_mem (\<lambda>m. st16 m (tf + 44) ds),
      upd_mem (\<lambda>m. st16 m (tf + 40) ds),
      upd_mem (\<lambda>m. st16 m (tf + 72) ds),
      upd_mem (\<lambda>m. st32 m (tf + 64) FL_IF),
      upd_mem (\<lambda>m. st32 m (tf + 68) PGSIZE),
      upd_mem (\<lambda>m. st32 m (tf + 56) 0)]) (
    bnd (gets (\<lambda>s. safestrcpy (p_name (ptab s i)) (bytes ''initcode'' @ [0]) 16)) (\<lambda>nm.
    bnd (need nm) (\<lambda>nm.
    thn (set_prc i (\<lambda>p. p\<lparr>p_name := nm\<rparr>)) (
    bnd (namei n env [slash, 0]) (\<lambda>ip.
    seqs [
      set_prc i (\<lambda>p. p\<lparr>p_cwd := ip\<rparr>),
      set_prc i (\<lambda>p. p\<lparr>p_state := RUNNABLE\<rparr>)])))))))))))))"

definition growproc :: "u32 \<Rightarrow> int \<Rightarrow> ('a pstate_scheme, int) kop" where
  "growproc ts n =
    bnd curproc (\<lambda>i.
    bnd (prc i) (\<lambda>p.
    let sz = p_sz p in
    bnd (if n > 0 then bnd (allocuvm (p_pgdir p) sz (sz + of_int n)) (\<lambda>r. ret (if r = 0 then None else Some r))
         else if n < 0 then bnd (deallocuvm (p_pgdir p) sz (sz + of_int n)) (\<lambda>r. ret (if r = 0 then None else Some r))
         else ret (Some sz)) (\<lambda>r.
    case r of
      None \<Rightarrow> ret (- 1)
    | Some sz \<Rightarrow>
        thn (set_prc i (\<lambda>p. p\<lparr>p_sz := sz\<rparr>)) (
        thn (switchuvm ts i) (
        ret 0)))))"

text \<open>One entry of the open file table of the child.\<close>

definition fork_fd :: "nat \<Rightarrow> nat \<Rightarrow> nat \<Rightarrow> ('a filest_scheme, unit) kop" where
  "fork_fd i np fd =
    bnd (gets (\<lambda>s. p_ofile (ptab s i) fd)) (\<lambda>o'.
    case o' of
      None \<Rightarrow> ret ()
    | Some f \<Rightarrow>
        bnd (filedup f) (\<lambda>f.
        set_prc np (\<lambda>p. p\<lparr>p_ofile := (p_ofile p)(fd := Some f)\<rparr>)))"

definition fork :: "kimage \<Rightarrow> ('a filest_scheme, int) kop" where
  "fork ki =
    bnd (allocproc ki) (\<lambda>r.
    case r of
      None \<Rightarrow> ret (- 1)
    | Some np \<Rightarrow>
      bnd curproc (\<lambda>i.
      bnd (prc i) (\<lambda>p.
      bnd (copyuvm (p_pgdir p) (p_sz p)) (\<lambda>d.
      thn (set_prc np (\<lambda>q. q\<lparr>p_pgdir := d\<rparr>)) (
      if d = 0 then
        bnd (prc np) (\<lambda>q.
        thn (seqs [
          kfree (p_kstack q),
          set_prc np (\<lambda>q. q\<lparr>p_kstack := 0\<rparr>),
          set_prc np (\<lambda>q. q\<lparr>p_state := UNUSED\<rparr>)]) (
        ret (- 1)))
      else
        thn (set_prc np (\<lambda>q. q\<lparr>p_sz := p_sz p, p_parent := Some i\<rparr>)) (
        bnd (prc np) (\<lambda>q.
        thn (upd_mem (\<lambda>m. memmove m (p_tf q) (p_tf p) TF_SIZE)) (
        thn (upd_mem (set_eax (p_tf q) 0)) (
        thn (for_each [0..<NOFILE] (fork_fd i np)) (
        bnd (need (p_cwd p)) (\<lambda>cwd.
        bnd (idup cwd) (\<lambda>cwd.
        thn (set_prc np (\<lambda>q. q\<lparr>p_cwd := Some cwd\<rparr>)) (
        bnd (gets (\<lambda>s. p_pid (ptab s np))) (\<lambda>pid.
        thn (set_prc np (\<lambda>q. q\<lparr>p_state := RUNNABLE\<rparr>)) (
        bnd (need (safestrcpy (p_name q) (p_name p) 16)) (\<lambda>nm.
        thn (set_prc np (\<lambda>q. q\<lparr>p_name := nm\<rparr>)) (
        ret pid)))))))))))))))))"
section \<open>Ending processes\<close>

text \<open>The sleep channel of a process pointer, which may be null.\<close>

definition chan_of :: "nat option \<Rightarrow> chan" where
  "chan_of po = (case po of None \<Rightarrow> NoChan | Some i \<Rightarrow> ChProc i)"

definition exit_fd :: "nat \<Rightarrow> ('a filest_scheme, unit) kop \<Rightarrow> nat \<Rightarrow> nat \<Rightarrow> ('a filest_scheme, unit) kop" where
  "exit_fd n env i fd =
    bnd (gets (\<lambda>s. p_ofile (ptab s i) fd)) (\<lambda>o'.
    case o' of
      None \<Rightarrow> ret ()
    | Some f \<Rightarrow> seqs [
        fileclose n env f,
        set_prc i (\<lambda>p. p\<lparr>p_ofile := (p_ofile p)(fd := None)\<rparr>)])"

text \<open>Passing one child on to \<^verbatim>\<open>init\<close>.\<close>

definition abandon_slot :: "nat \<Rightarrow> nat \<Rightarrow> ('a pstate_scheme, unit) kop" where
  "abandon_slot i q =
    bnd (prc q) (\<lambda>p.
    whenk (p_parent p = Some i) (
      bnd (gets initproc) (\<lambda>ini.
      thn (set_prc q (\<lambda>p. p\<lparr>p_parent := ini\<rparr>)) (
      whenk (p_state p = ZOMBIE) (wakeup1 (chan_of ini))))))"

text \<open>The critical section of \<^verbatim>\<open>exit\<close>, up to the switch to the scheduler.\<close>

definition exit_leave :: "nat \<Rightarrow> ('a pstate_scheme, unit) kop" where
  "exit_leave i =
    thn (acquire PtableLock) (
    bnd (gets (\<lambda>s. p_parent (ptab s i))) (\<lambda>par.
    thn (wakeup1 (chan_of par)) (
    thn (for_each [0..<NPROC] (abandon_slot i)) (
    thn (set_prc i (\<lambda>p. p\<lparr>p_state := ZOMBIE\<rparr>)) (
    bnd clockticks (\<lambda>t.
    set_prc i (\<lambda>p. p\<lparr>p_etime := sint t\<rparr>)))))))"

definition exit :: "nat \<Rightarrow> ('a filest_scheme, unit) kop \<Rightarrow> ('a filest_scheme, unit) kop" where
  "exit n env =
    bnd curproc (\<lambda>i.
    bnd (gets initproc) (\<lambda>ini.
    if Some i = ini then panic ''init exiting''
    else
    thn (for_each [0..<NOFILE] (exit_fd n env i)) (
    bnd (gets (\<lambda>s. p_cwd (ptab s i))) (\<lambda>cwd.
    bnd (need cwd) (\<lambda>cwd.
    thn (iput n env cwd) (
    thn (set_prc i (\<lambda>p. p\<lparr>p_cwd := None\<rparr>)) (
    thn (exit_leave i) (
    thn (sched env) (
    panic ''zombie exit'')))))))))"

section \<open>Waiting for children\<close>

text \<open>What is common to \<^verbatim>\<open>wait\<close> and \<^verbatim>\<open>wait2\<close>, which are two copies of the same loop: the
  scan for a zombie child, in which \<open>reap\<close> is applied to the first one found, and the loop around
  it. The value of the scan is the reaped child's, or whether there are children.\<close>

definition wait_slot ::
  "(nat \<Rightarrow> ('a pstate_scheme, 'b) kop) \<Rightarrow> nat \<Rightarrow> nat \<times> bool \<Rightarrow> ('a pstate_scheme, (nat \<times> bool) + ('b + bool)) kop" where
  "wait_slot reap i = (\<lambda>(q, havekids).
    if q < NPROC then
      bnd (prc q) (\<lambda>p.
      if p_parent p \<noteq> Some i then ret (Inl (q + 1, havekids))
      else if p_state p = ZOMBIE then
        bnd (reap q) (\<lambda>v.
        thn (release PtableLock) (
        ret (Inr (Inl v))))
      else ret (Inl (q + 1, True)))
    else ret (Inr (Inr havekids)))"

definition wait_round ::
  "('a pstate_scheme, unit) kop \<Rightarrow> (nat \<Rightarrow> ('a pstate_scheme, 'b) kop) \<Rightarrow> nat \<Rightarrow>
   ('a pstate_scheme, unit + 'b option) kop" where
  "wait_round env reap i =
    bnd (loop_fuel (NPROC + 1) (wait_slot reap i) (0, False)) (\<lambda>r.
    case r of
      Inl v \<Rightarrow> ret (Inr (Some v))
    | Inr havekids \<Rightarrow>
        bnd (gets (\<lambda>s. p_killed (ptab s i))) (\<lambda>k.
        if \<not> havekids \<or> k \<noteq> 0
        then thn (release PtableLock) (ret (Inr None))
        else thn (sleep env (ChProc i) (Some PtableLock)) (ret (Inl ()))))"

definition wait_loop ::
  "nat \<Rightarrow> ('a pstate_scheme, unit) kop \<Rightarrow> (nat \<Rightarrow> ('a pstate_scheme, 'b) kop) \<Rightarrow> ('a pstate_scheme, 'b option) kop" where
  "wait_loop n env reap =
    bnd curproc (\<lambda>i.
    thn (acquire PtableLock) (
    loop_fuel n (\<lambda>_. wait_round env reap i) ()))"

text \<open>\<^verbatim>\<open>name[0] = 0\<close>.\<close>

definition clear_name :: "u8 list \<Rightarrow> u8 list" where
  "clear_name nm = nm[0 := 0]"

definition wait_reap :: "nat \<Rightarrow> ('a pstate_scheme, int) kop" where
  "wait_reap q =
    bnd (prc q) (\<lambda>p.
    let pid = p_pid p in
    thn (seqs [
      kfree (p_kstack p),
      set_prc q (\<lambda>p. p\<lparr>p_kstack := 0\<rparr>),
      freevm (p_pgdir p),
      set_prc q (\<lambda>p. p\<lparr>p_state := UNUSED, p_pid := 0, p_parent := None, p_name := clear_name (p_name p), p_killed := 0,
        p_rtime := 0, p_ctime := 0, p_etime := 0, p_priority := 0\<rparr>)]) (
    ret pid))"

definition wait :: "nat \<Rightarrow> ('a pstate_scheme, unit) kop \<Rightarrow> ('a pstate_scheme, int) kop" where
  "wait n env = bnd (wait_loop n env wait_reap) (\<lambda>r. ret (case r of None \<Rightarrow> - 1 | Some pid \<Rightarrow> pid))"

text \<open>\<^verbatim>\<open>wait2\<close> also stores the waiting and the running time; \<open>store\<close> is the assignment to
  \<^verbatim>\<open>*wtime\<close> and \<^verbatim>\<open>*rtime\<close>, in the address space of the caller.\<close>

definition wait2_reap :: "(int \<Rightarrow> int \<Rightarrow> ('a pstate_scheme, unit) kop) \<Rightarrow> nat \<Rightarrow> ('a pstate_scheme, int) kop" where
  "wait2_reap store q =
    bnd (prc q) (\<lambda>p.
    let pid = p_pid p in
    thn (seqs [
      store (s32 (s32 (p_etime p - p_ctime p) - p_rtime p)) (p_rtime p),
      set_prc q (\<lambda>p. p\<lparr>p_rtime := 0, p_ctime := 0, p_etime := 0\<rparr>),
      kfree (p_kstack p),
      set_prc q (\<lambda>p. p\<lparr>p_kstack := 0\<rparr>),
      freevm (p_pgdir p),
      set_prc q (\<lambda>p. p\<lparr>p_state := UNUSED, p_pid := 0, p_parent := None, p_name := clear_name (p_name p), p_killed := 0,
        p_priority := 0\<rparr>)]) (
    ret pid))"

definition wait2 ::
  "nat \<Rightarrow> ('a pstate_scheme, unit) kop \<Rightarrow> (int \<Rightarrow> int \<Rightarrow> ('a pstate_scheme, unit) kop) \<Rightarrow> ('a pstate_scheme, int) kop" where
  "wait2 n env store = bnd (wait_loop n env (wait2_reap store)) (\<lambda>r. ret (case r of None \<Rightarrow> - 1 | Some pid \<Rightarrow> pid))"

section \<open>New processes\<close>

text \<open>The kernel stack that \<^verbatim>\<open>allocproc\<close> prepares: the trap frame at offset 4020, below it the
  return address of \<^verbatim>\<open>forkret\<close>, below that the context.\<close>

definition stack_image :: "kimage \<Rightarrow> u32 \<Rightarrow> mem \<Rightarrow> mem" where
  "stack_image ki kst m = st32 (memset (st32 m (kst + 4016) (k_trapret ki)) (kst + 3996) 0 20) (kst + 4012) (k_forkret ki)"

lemma page_offset:
  assumes "page_ok p" "k < 4096"
  shows "unat (p + of_nat k) = unat p + k"
  using assms by (intro unat_add_of_nat) (simp_all add: page_ok_def)

lemma stack_image:
  assumes "page_ok kst"
  shows "ld32 (stack_image ki kst m) (kst + 4012) = k_forkret ki" "ld32 (stack_image ki kst m) (kst + 4016) = k_trapret ki"
    "\<not> in_page kst a \<Longrightarrow> stack_image ki kst m a = m a"
proof -
  note U = page_offset [OF assms]
  have u: "unat (kst + 3996) = unat kst + 3996" "unat (kst + 4012) = unat kst + 4012" "unat (kst + 4016) = unat kst + 4016"
    using U [of 3996] U [of 4012] U [of 4016] by simp_all
  have lt: "unat kst < 0x1000000" "4096 dvd unat kst" using assms by (simp_all add: page_ok_def)
  have al: "aligned4 (kst + 4012)" "aligned4 (kst + 4016)"
    unfolding aligned4_def u using dvd_trans [OF _ lt(2), of 4] by (simp_all add: dvd_eq_mod_eq_0 mod_add_left_eq [symmetric])
  have w: "unat (kst + 4016 + of_nat k) = unat kst + 4016 + k" "unat (kst + 4012 + of_nat k) = unat kst + 4012 + k" if "k < 4" for k
    using aligned4_add [OF al(2) that] aligned4_add [OF al(1) that] u by simp_all
  let ?m = "st32 m (kst + 4016) (k_trapret ki)"
  have ms: "memset ?m (kst + 3996) 0 20 b = (if unat kst + 3996 \<le> unat b \<and> unat b < unat kst + 4016 then 0 else ?m b)" for b
    by (subst memset_apply) (use u lt in simp_all)
  show "ld32 (stack_image ki kst m) (kst + 4012) = k_forkret ki" by (simp add: stack_image_def)
  have "ld32 (memset ?m (kst + 3996) 0 20) (kst + 4016) = ld32 ?m (kst + 4016)"
    by (rule ld32_cong) (use w(1) [of 0] w(1) [of 1] w(1) [of 2] w(1) [of 3] in \<open>simp_all add: ms\<close>)
  then show "ld32 (stack_image ki kst m) (kst + 4016) = k_trapret ki"
    unfolding stack_image_def using al by (subst ld32_st32_other) simp_all
  show "stack_image ki kst m a = m a" if "\<not> in_page kst a"
  proof -
    have ne: "a \<noteq> kst + 4016 + of_nat k" "a \<noteq> kst + 4012 + of_nat k" if "k < 4" for k
      using w [OF that] \<open>\<not> in_page kst a\<close> that by (auto simp: in_page_def)
    have "\<not> (unat kst + 3996 \<le> unat a \<and> unat a < unat kst + 4016)" using that by (auto simp: in_page_def)
    then show ?thesis unfolding stack_image_def
      using ne [of 0] ne [of 1] ne [of 2] ne [of 3] by (auto simp: st32_other ms)
  qed
qed

definition first_unused :: "(nat \<Rightarrow> proc) \<Rightarrow> nat option" where
  "first_unused T = find (\<lambda>i. p_state (T i) = UNUSED) [0..<NPROC]"

text \<open>The table entry of a new process.\<close>

definition embryo :: "int \<Rightarrow> u32 \<Rightarrow> u32 \<Rightarrow> proc \<Rightarrow> proc" where
  "embryo pid kst now p = p\<lparr>p_state := EMBRYO, p_pid := pid, p_kstack := kst, p_tf := kst + 4020, p_context := kst + 3996,
     p_ctime := sint now, p_rtime := 0, p_priority := 0\<rparr>"

definition no_stack :: "int \<Rightarrow> proc \<Rightarrow> proc" where
  "no_stack pid p = p\<lparr>p_state := UNUSED, p_pid := pid, p_kstack := 0\<rparr>"

lemma proc_ctx_upd_other: "proc_ctx c s \<Longrightarrow> i \<noteq> c \<Longrightarrow> proc_ctx c (upd_proc i f s)"
  by (simp add: proc_ctx_def)

lemma kmem_upd_ctx [simp]: "proc_ctx c (s\<lparr>pmem := m\<rparr>) = proc_ctx c s" "proc_ctx c (s\<lparr>freelist := p\<rparr>) = proc_ctx c s"
  "proc_ctx c (s\<lparr>nextpid := k\<rparr>) = proc_ctx c s"
  by (simp_all add: proc_ctx_def)

lemma upd_proc_more [simp]:
  "freelist (upd_proc i f s) = freelist s" "nextpid (upd_proc i f s) = nextpid s" "initproc (upd_proc i f s) = initproc s"
  "kpgdir (upd_proc i f s) = kpgdir s" "lockround lk (upd_proc i f s) = upd_proc i f (lockround lk s)"
  by (simp_all add: upd_proc_def)

lemma wp_allocproc_stack:
  fixes s :: "'a pstate_scheme"
  assumes s: "proc_ctx c s" "i \<noteq> c"
  shows "wp (allocproc_stack ki i) (\<lambda>r t. proc_ctx c t \<and> (if freelist s = 0
      then r = None \<and> ptab t = (ptab s)(i := (ptab s i)\<lparr>p_kstack := 0, p_state := UNUSED\<rparr>) \<and> pmem t = pmem s \<and> freelist t = 0
      else r = Some i \<and> ptab t = (ptab s)(i := (ptab s i)\<lparr>p_kstack := freelist s, p_tf := freelist s + 4020, p_context := freelist s + 3996,
            p_ctime := sint (ticks s), p_rtime := 0, p_priority := 0\<rparr>)
          \<and> pmem t = stack_image ki (freelist s) (pmem s) \<and> freelist t = ld32 (pmem s) (freelist s))
      \<and> nextpid t = nextpid s \<and> ticks t = ticks s \<and> pstate.more t = pstate.more s) s"
proof (cases "freelist s = 0")
  case True
  then show ?thesis using proc_ctx_upd_other [OF proc_ctx_lockround [OF s(1)] s(2)]
    by (simp add: allocproc_stack_def wp wp_kalloc proc_ctx_lock [OF s(1)] Let_def proc_ctx_upd_other s)
next
  case False
  let ?k = "freelist s"
  let ?t = "(upd_proc i (\<lambda>p. p\<lparr>p_kstack := ?k, p_tf := ?k + 4020, p_context := ?k + 3996\<rparr>)
    ((lockround KmemLock s)\<lparr>freelist := ld32 (pmem s) ?k\<rparr>))\<lparr>pmem := stack_image ki ?k (pmem s)\<rparr>"
  have c: "proc_ctx c ?t" by (simp add: proc_ctx_upd_other proc_ctx_lockround s)
  have eq: "wp (allocproc_stack ki i) Q s = wp (bnd clockticks (\<lambda>t. thn (set_prc i (\<lambda>p. p\<lparr>p_ctime := sint t, p_rtime := 0, p_priority := 0\<rparr>)) (
      ret (Some i)))) Q ?t" for Q
    using False by (simp add: allocproc_stack_def wp wp_kalloc proc_ctx_lock [OF s(1)] Let_def stack_image_def upd_proc_def
      KSTACKSIZE_def TF_SIZE_def CONTEXT_SIZE_def add.commute [of _ ?k])
  show ?thesis unfolding eq wp_bnd wp_clockticks [OF proc_ctx_lock [OF c]]
    using False proc_ctx_upd_other [OF proc_ctx_lockround [OF c] s(2)]
    by (simp add: wp del: upd_proc_lock pstate_lock_upd kmem_lock_upd)
qed

lemma wp_allocproc:
  fixes s :: "'a pstate_scheme"
  assumes s: "proc_ctx c s"
  shows "wp (allocproc ki) (\<lambda>r t. proc_ctx c t \<and> (case first_unused (ptab s) of
      None \<Rightarrow> r = None \<and> ptab t = ptab s \<and> nextpid t = nextpid s \<and> pmem t = pmem s \<and> freelist t = freelist s
    | Some i \<Rightarrow> nextpid t = s32 (nextpid s + 1) \<and> (if freelist s = 0
        then r = None \<and> ptab t = (ptab s)(i := no_stack (nextpid s) (ptab s i)) \<and> pmem t = pmem s \<and> freelist t = 0
        else r = Some i \<and> ptab t = (ptab s)(i := embryo (nextpid s) (freelist s) (ticks s) (ptab s i))
          \<and> pmem t = stack_image ki (freelist s) (pmem s) \<and> freelist t = ld32 (pmem s) (freelist s)))
      \<and> ticks t = ticks s \<and> pstate.more t = pstate.more s) s"
proof -
  have ff: "wp (for_find [0..<NPROC] allocproc_slot) Q (acq PtableLock s) = (case first_unused (ptab s) of
      None \<Rightarrow> Q None (acq PtableLock s) | Some i \<Rightarrow> Q (Some i) (acq PtableLock s))" for Q
    unfolding first_unused_def by (rule wp_for_find_eq) (auto simp: allocproc_slot_def wp)
  show ?thesis
  proof (cases "first_unused (ptab s)")
    case None
    then show ?thesis using proc_ctx_lockround [OF s, of PtableLock]
      by (simp add: allocproc_def wp wp_acquire ff proc_ctx_lock [OF s] lock_simps)
  next
    case (Some i)
    then have i: "i \<noteq> c" using s by (auto simp: first_unused_def find_upt_Some proc_ctx_def)
    let ?t = "(upd_proc i (\<lambda>p. p\<lparr>p_state := EMBRYO, p_pid := nextpid s\<rparr>) (lockround PtableLock s))\<lparr>nextpid := s32 (nextpid s + 1)\<rparr>"
    have c: "proc_ctx c ?t" using proc_ctx_upd_other [OF proc_ctx_lockround [OF s] i] by simp
    have "wp (allocproc ki) Q s = wp (allocproc_stack ki i) Q ?t" for Q
      using Some by (simp add: allocproc_def wp ff lock_simps proc_ctx_lock [OF s])
    then show ?thesis using Some
      by (simp, intro wp_mono [OF wp_allocproc_stack [OF c i]]) (auto simp: embryo_def no_stack_def)
  qed
qed

section \<open>Exit\<close>

definition reparent :: "nat \<Rightarrow> nat \<Rightarrow> nat option \<Rightarrow> (nat \<Rightarrow> proc) \<Rightarrow> nat \<Rightarrow> proc" where
  "reparent n i ini T = (\<lambda>q. if q < n \<and> p_parent (T q) = Some i then (T q)\<lparr>p_parent := ini\<rparr> else T q)"

definition zombie_child :: "nat \<Rightarrow> nat \<Rightarrow> (nat \<Rightarrow> proc) \<Rightarrow> bool" where
  "zombie_child n i T \<longleftrightarrow> (\<exists>q < n. p_parent (T q) = Some i \<and> p_state (T q) = ZOMBIE)"

text \<open>The table after the first \<open>n\<close> slots were visited.\<close>

definition abandoned :: "nat \<Rightarrow> nat \<Rightarrow> nat option \<Rightarrow> (nat \<Rightarrow> proc) \<Rightarrow> nat \<Rightarrow> proc" where
  "abandoned n i ini T = (if zombie_child n i T then wake_tab (chan_of ini) (reparent n i ini T) else reparent n i ini T)"

lemma wake_tab_idem: "wake_tab ch (wake_tab ch T) = wake_tab ch T"
  by (auto simp: wake_tab_def woken_def fun_eq_iff)

lemma wake_tab_keeps: "p_parent (wake_tab ch T q) = p_parent (T q)" "p_state (wake_tab ch T q) = ZOMBIE \<longleftrightarrow> p_state (T q) = ZOMBIE"
  "p_state (wake_tab ch T q) = RUNNING \<longleftrightarrow> p_state (T q) = RUNNING" "p_pgdir (wake_tab ch T q) = p_pgdir (T q)"
  by (auto simp: wake_tab_def woken_def)

lemma reparent_Suc:
  "reparent (Suc n) i ini T = (if p_parent (T n) = Some i then (reparent n i ini T)(n := (T n)\<lparr>p_parent := ini\<rparr>) else reparent n i ini T)"
  by (auto simp: reparent_def fun_eq_iff less_Suc_eq)

lemma wake_tab_parent:
  "(wake_tab ch U)(n := (wake_tab ch U n)\<lparr>p_parent := ini\<rparr>) = wake_tab ch (U(n := (U n)\<lparr>p_parent := ini\<rparr>))"
  by (auto simp: wake_tab_def woken_def fun_eq_iff)

lemma abandoned_Suc:
  assumes "p_parent (abandoned n i ini T n) = p_parent (T n)"
  shows "abandoned (Suc n) i ini T = (if p_parent (T n) = Some i then
      (let U = (abandoned n i ini T)(n := (abandoned n i ini T n)\<lparr>p_parent := ini\<rparr>) in
       if p_state (T n) = ZOMBIE then wake_tab (chan_of ini) U else U)
    else abandoned n i ini T)"
proof -
  have z: "zombie_child (Suc n) i T \<longleftrightarrow> zombie_child n i T \<or> (p_parent (T n) = Some i \<and> p_state (T n) = ZOMBIE)"
    by (auto simp: zombie_child_def less_Suc_eq)
  have r: "reparent n i ini T n = T n" by (simp add: reparent_def)
  show ?thesis unfolding abandoned_def z reparent_Suc Let_def
    by (auto simp: wake_tab_parent wake_tab_idem r)
qed

lemma wp_abandon_slot:
  "wp (abandon_slot i q) Q s = Q () (if p_parent (ptab s q) = Some i then
      (let U = (ptab s)(q := (ptab s q)\<lparr>p_parent := initproc s\<rparr>) in
       s\<lparr>ptab := if p_state (ptab s q) = ZOMBIE then wake_tab (chan_of (initproc s)) U else U\<rparr>) else s)"
  by (simp add: abandon_slot_def wp wp_wakeup1 upd_proc_def Let_def)

lemma wp_abandon:
  "wp (for_each [0..<n] (abandon_slot i)) Q s = Q () (s\<lparr>ptab := abandoned n i (initproc s) (ptab s)\<rparr>)"
proof (induction n arbitrary: Q)
  case 0
  have "abandoned 0 i (initproc s) (ptab s) = ptab s" by (simp add: abandoned_def zombie_child_def reparent_def)
  then show ?case by (simp add: wp)
next
  case (Suc n)
  let ?A = "abandoned n i (initproc s) (ptab s)"
  have r: "reparent n i (initproc s) (ptab s) n = ptab s n" by (simp add: reparent_def)
  have a: "p_parent (?A n) = p_parent (ptab s n)" "p_state (?A n) = ZOMBIE \<longleftrightarrow> p_state (ptab s n) = ZOMBIE"
    by (simp_all add: abandoned_def wake_tab_keeps r)
  show ?case unfolding abandoned_Suc [OF a(1)]
    using a by (simp add: wp_for_each_append Suc wp wp_abandon_slot Let_def)
qed

lemma wp_exit_leave:
  fixes s :: "'a pstate_scheme"
  assumes s: "proc_ctx i s"
  shows "wp (exit_leave i) (\<lambda>_ t. in_sched i t \<and> initproc t = initproc s \<and> pstate.more t = pstate.more s
    \<and> (let T = abandoned NPROC i (initproc s) (wake_tab (chan_of (p_parent (ptab s i))) (ptab s)) in
       ptab t = T(i := (T i)\<lparr>p_state := ZOMBIE, p_etime := sint (ticks s)\<rparr>))) s"
proof -
  let ?s = "acq PtableLock s"
  let ?T = "abandoned NPROC i (initproc s) (wake_tab (chan_of (p_parent (ptab s i))) (ptab s))"
  let ?t = "upd_proc i (\<lambda>p. p\<lparr>p_state := ZOMBIE\<rparr>) (?s\<lparr>ptab := ?T\<rparr>)"
  have f: "lock_free TicksLock ?t" "cli_ok ?t" using proc_ctx_lock [OF s] by (simp_all add: acq_cli_ok)
  have c: "calm ?s (lockround TicksLock ?s)" by (rule lockround_calm) (use proc_ctx_lock [OF s] acq_cli_ok in simp_all)
  have "in_sched i (upd_proc i g (lockround TicksLock ?t))" for g
    using calm_cpu [OF c] calm_locks [OF c] s by (simp add: in_sched_def proc_ctx_def)
  moreover have eq: "wp (exit_leave i) Q s = wp (bnd clockticks (\<lambda>t. set_prc i (\<lambda>p. p\<lparr>p_etime := sint t\<rparr>))) Q ?t" for Q
    by (simp add: exit_leave_def wp wp_acquire proc_ctx_lock [OF s] wp_wakeup1 wp_abandon)
  ultimately show ?thesis unfolding eq wp_bnd wp_clockticks [OF f] by (simp add: wp Let_def)
qed

section \<open>Properties\<close>

text \<open>Process numbers are positive, below the next one to be given, and not shared.\<close>

definition pids_ok :: "(nat \<Rightarrow> proc) \<Rightarrow> int \<Rightarrow> bool" where
  "pids_ok T k \<longleftrightarrow> 0 < k \<and> (\<forall>i < NPROC. p_state (T i) \<noteq> UNUSED \<longrightarrow> 0 < p_pid (T i) \<and> p_pid (T i) < k)
     \<and> (\<forall>i < NPROC. \<forall>j < NPROC. p_state (T i) \<noteq> UNUSED \<longrightarrow> p_state (T j) \<noteq> UNUSED \<longrightarrow> p_pid (T i) = p_pid (T j) \<longrightarrow> i = j)"

text \<open>C27. \<^verbatim>\<open>allocproc\<close> takes the first unused slot, gives it a number no other process has, and
  prepares a kernel stack from which the process will start in \<^verbatim>\<open>forkret\<close> and go on to
  \<^verbatim>\<open>trapret\<close>; without a free slot or a free page it returns null and no slot comes into use. The
  invariant on process numbers is kept as long as the counter does not overflow.\<close>

theorem allocproc_fresh:
  assumes s: "proc_ctx c s" and k: "pids_ok (ptab s) (nextpid s)" "nextpid s < 2 ^ 31 - 1" and q: "free_pages s qs"
  shows "wp (allocproc ki) (\<lambda>r t. proc_ctx c t \<and> pids_ok (ptab t) (nextpid t) \<and> (case r of
      None \<Rightarrow> ((\<forall>i < NPROC. p_state (ptab s i) \<noteq> UNUSED) \<or> qs = []) \<and> (\<forall>i. p_state (ptab t i) = p_state (ptab s i))
    | Some i \<Rightarrow> i < NPROC \<and> p_state (ptab s i) = UNUSED \<and> (\<forall>j < i. p_state (ptab s j) \<noteq> UNUSED)
        \<and> p_state (ptab t i) = EMBRYO \<and> p_pid (ptab t i) = nextpid s \<and> (\<forall>j. j \<noteq> i \<longrightarrow> ptab t j = ptab s j)
        \<and> p_kstack (ptab t i) = hd qs \<and> ld32 (pmem t) (p_context (ptab t i) + 16) = k_forkret ki
        \<and> ld32 (pmem t) (p_context (ptab t i) + 20) = k_trapret ki)) s"
proof (rule wp_mono [OF wp_allocproc [OF s]], goal_cases)
  case (1 r t)
  have n: "s32 (nextpid s + 1) = nextpid s + 1" using k by (intro s32_id) (simp add: in_s32_def pids_ok_def)
  show ?case
  proof (cases "first_unused (ptab s)")
    case None
    then have "\<forall>i < NPROC. p_state (ptab s i) \<noteq> UNUSED" by (simp add: first_unused_def find_upt_None)
    with 1 k None show ?thesis by simp
  next
    case (Some i)
    then have i: "i < NPROC" "p_state (ptab s i) = UNUSED" "\<forall>j < i. p_state (ptab s j) \<noteq> UNUSED"
      by (auto simp: first_unused_def find_upt_Some)
    show ?thesis
    proof (cases qs)
      case Nil
      then have "freelist s = 0" using q by (simp add: free_pages_def)
      with 1 Some i n k show ?thesis using Nil by (auto simp: no_stack_def pids_ok_def)
    next
      case (Cons p ps)
      then have p: "freelist s = p" "page_ok p" "p \<noteq> 0" using q by (auto simp: free_pages_def)
      note W = stack_image [OF p(2)]
      have "pids_ok ((ptab s)(i := embryo (nextpid s) p (ticks s) (ptab s i))) (nextpid s + 1)"
        using k(1) i by (auto simp: pids_ok_def embryo_def)
      with 1 Some i n p Cons W(1,2) [of ki "pmem s"] show ?thesis by (simp add: embryo_def add.commute [of _ p])
    qed
  qed
qed

text \<open>C28. Leaving: when \<^verbatim>\<open>exit\<close> gives up the processor the process is a zombie with its end time
  set, nothing stops the switch (the table lock is the only lock held, interrupts are off); every
  child now belongs to \<^verbatim>\<open>init\<close>; a parent asleep in \<^verbatim>\<open>wait\<close> is runnable, and so is
  \<^verbatim>\<open>init\<close> if it slept and one of the children was a zombie.\<close>

theorem exit_hands_over:
  assumes s: "proc_ctx i s"
  shows "wp (exit_leave i) (\<lambda>_ t. in_sched i t \<and> p_state (ptab t i) = ZOMBIE \<and> p_etime (ptab t i) = sint (ticks s)
    \<and> (\<forall>q < NPROC. p_parent (ptab t q) = (if p_parent (ptab s q) = Some i then initproc s else p_parent (ptab s q)))
    \<and> (\<forall>q < NPROC. q \<noteq> i \<longrightarrow> p_state (ptab t q) =
        (if p_state (ptab s q) = SLEEPING \<and> (p_chan (ptab s q) = chan_of (p_parent (ptab s i))
            \<or> p_chan (ptab s q) = chan_of (initproc s) \<and> (\<exists>z < NPROC. p_parent (ptab s z) = Some i \<and> p_state (ptab s z) = ZOMBIE))
         then RUNNABLE else p_state (ptab s q)))) s"
proof (rule wp_mono [OF wp_exit_leave [OF s]], goal_cases)
  case (1 a t)
  let ?W = "wake_tab (chan_of (p_parent (ptab s i))) (ptab s)"
  have z: "zombie_child NPROC i ?W \<longleftrightarrow> (\<exists>z < NPROC. p_parent (ptab s z) = Some i \<and> p_state (ptab s z) = ZOMBIE)"
    by (simp add: zombie_child_def wake_tab_keeps)
  have p: "p_parent (abandoned NPROC i (initproc s) ?W q) = (if p_parent (ptab s q) = Some i then initproc s else p_parent (ptab s q))" if "q < NPROC" for q
    using that by (simp add: abandoned_def wake_tab_keeps) (simp add: reparent_def wake_tab_keeps)
  have st: "p_state (abandoned NPROC i (initproc s) ?W q) =
      (if p_state (ptab s q) = SLEEPING \<and> (p_chan (ptab s q) = chan_of (p_parent (ptab s i))
            \<or> p_chan (ptab s q) = chan_of (initproc s) \<and> (\<exists>z < NPROC. p_parent (ptab s z) = Some i \<and> p_state (ptab s z) = ZOMBIE))
         then RUNNABLE else p_state (ptab s q))" if "q < NPROC" for q
    unfolding abandoned_def z using that by (auto simp: reparent_def wake_tab_def woken_def)
  from 1 p st show ?case by (auto simp: Let_def)
qed

text \<open>A state for examples: process 0 is \<^verbatim>\<open>init\<close>, asleep; process 1 waits for its child 2, which
  runs and has the zombie child 3; the other slots are unused.\<close>

definition proc_ex_tab :: "nat \<Rightarrow> proc" where
  "proc_ex_tab = (\<lambda>_. proc_zero)(
     0 := proc_zero\<lparr>p_state := SLEEPING, p_pid := 1, p_chan := ChProc 0\<rparr>,
     1 := proc_zero\<lparr>p_state := SLEEPING, p_pid := 2, p_chan := ChProc 1, p_parent := Some 0\<rparr>,
     2 := proc_zero\<lparr>p_state := RUNNING, p_pid := 3, p_pgdir := 0x200000, p_parent := Some 1\<rparr>,
     3 := proc_zero\<lparr>p_state := ZOMBIE, p_pid := 4, p_parent := Some 2\<rparr>)"

definition proc_st :: filest where
  "proc_st = file_st\<lparr>ptab := proc_ex_tab, nextpid := 5, initproc := Some 0, ticks := 70\<rparr>"

lemma proc_st_sel: "proc_ctx 2 proc_st" "ptab proc_st = proc_ex_tab" "nextpid proc_st = 5" "initproc proc_st = Some 0"
  "ticks proc_st = 70" "free_pages proc_st [0x300000]"
proof -
  have m: "pmem proc_st = (\<lambda>_. 0)" "freelist proc_st = 0x300000"
    by (simp_all add: proc_st_def file_st_def filest.defs pipest.defs fsst_boot_def fsst.defs idest_boot_def idest.defs
        pstate_boot_def pstate.defs boot_defs upd_cpu_def)
  then show "free_pages proc_st [0x300000]" by (simp add: free_pages_def page_ok_def ld32_def)
  show "proc_ctx 2 proc_st" using file_st_sel(1) by (simp add: proc_st_def proc_ctx_def proc_ex_tab_def)
qed (simp_all add: proc_st_def)

lemma proc_ex_tab_UNUSED: "p_state (proc_ex_tab i) \<noteq> UNUSED \<longleftrightarrow> i < 4"
  by (auto simp: proc_ex_tab_def proc_zero_def)

lemma less4: "i < (4 :: nat) \<longleftrightarrow> i = 0 \<or> i = 1 \<or> i = 2 \<or> i = 3"
  by auto

lemma allocproc_fresh_witness:
  "wp (allocproc \<lparr>k_trapret = 0x104000, k_forkret = 0x103000, k_initcode = 0x105000, k_initsize = 44\<rparr>)
    (\<lambda>r t. pids_ok (ptab t) (nextpid t)) proc_st"
proof -
  have "pids_ok (ptab proc_st) (nextpid proc_st)"
    unfolding pids_ok_def proc_st_sel proc_ex_tab_UNUSED less4 by (auto simp: proc_ex_tab_def)
  then show ?thesis
    by (intro wp_mono [OF allocproc_fresh [OF proc_st_sel(1) _ _ proc_st_sel(6)]]) (simp_all add: proc_st_sel)
qed

lemma exit_hands_over_witness:
  "wp (exit_leave 2) (\<lambda>_ t. p_state (ptab t 2) = ZOMBIE \<and> p_state (ptab t 1) = RUNNABLE \<and> p_state (ptab t 0) = RUNNABLE
    \<and> p_parent (ptab t 3) = Some 0) proc_st"
proof (rule wp_mono [OF exit_hands_over [OF proc_st_sel(1)]], goal_cases)
  case (1 a t)
  have "\<exists>z < NPROC. p_parent (ptab proc_st z) = Some 2 \<and> p_state (ptab proc_st z) = ZOMBIE"
    by (rule exI [of _ 3]) (simp add: proc_st_sel NPROC_def proc_ex_tab_def)
  with 1 show ?case by (auto simp: proc_st_sel proc_ex_tab_def chan_of_def NPROC_def)
qed

end
