(* ===== verification/Device.thy ===== *)
theory Device
  imports Procops
begin

text \<open>
  Interrupt controllers and timers: \<^verbatim>\<open>picirq.c\<close>, \<^verbatim>\<open>ioapic.c\<close>, \<^verbatim>\<open>lapic.c\<close>,
  \<^verbatim>\<open>timer.c\<close>, and \<^verbatim>\<open>ideinit\<close> of \<^verbatim>\<open>ide.c\<close>, which enables an interrupt. Writes to I/O ports are kept in the order in which they are made; the registers
  of the local APIC and of the I/O APIC are words that read back what was written. A register whose
  hardware side effects matter to the code (the delivery status) is one that the hardware clears.

  Shown: the mask that the kernel keeps and the masks in the two controllers agree, and
  \<^verbatim>\<open>picenable\<close> unmasks exactly one interrupt; the I/O APIC routes an enabled interrupt to its
  vector and its processor.
\<close>

section \<open>State\<close>

record devregs =
  outs :: "(nat \<times> u8) list"
  irqmask :: u16
  lapic :: "(nat \<Rightarrow> u32) option"
  ioapic :: "nat \<Rightarrow> u32"
  ismp :: bool
  ioapicid :: u32
  com1_status :: u8
  cpu_warned :: nat

record devst = filest +
  dev :: devregs

abbreviation upd_dev :: "(devregs \<Rightarrow> devregs) \<Rightarrow> ('a devst_scheme, unit) kop" where
  "upd_dev f \<equiv> modify (\<lambda>s. s\<lparr>dev := f (dev s)\<rparr>)"

definition outb :: "nat \<Rightarrow> u8 \<Rightarrow> ('a devst_scheme, unit) kop" where
  "outb port v = upd_dev (\<lambda>d. d\<lparr>outs := outs d @ [(port, v)]\<rparr>)"

section \<open>The 8259A\<close>

definition IO_PIC1 :: nat where "IO_PIC1 = 0x20"
definition IO_PIC2 :: nat where "IO_PIC2 = 0xA0"
definition IRQ_SLAVE :: nat where "IRQ_SLAVE = 2"

definition picsetmask :: "u16 \<Rightarrow> ('a devst_scheme, unit) kop" where
  "picsetmask m = seqs [
     upd_dev (\<lambda>d. d\<lparr>irqmask := m\<rparr>),
     outb (IO_PIC1 + 1) (ucast m),
     outb (IO_PIC2 + 1) (ucast (drop_bit 8 m))]"

text \<open>A shift by 32 or more is undefined.\<close>

definition picenable :: "u32 \<Rightarrow> ('a devst_scheme, unit) kop" where
  "picenable irq =
    (if 32 \<le> irq then undef
     else bnd (gets (\<lambda>s. irqmask (dev s))) (\<lambda>m. picsetmask (m AND NOT (push_bit (unat irq) 1))))"

definition picinit :: "('a devst_scheme, unit) kop" where
  "picinit = thn (seqs [
     outb (IO_PIC1 + 1) 0xFF,
     outb (IO_PIC2 + 1) 0xFF,
     outb IO_PIC1 0x11,
     outb (IO_PIC1 + 1) (ucast T_IRQ0),
     outb (IO_PIC1 + 1) (push_bit IRQ_SLAVE 1),
     outb (IO_PIC1 + 1) 3,
     outb IO_PIC2 0x11,
     outb (IO_PIC2 + 1) (ucast (T_IRQ0 + 8)),
     outb (IO_PIC2 + 1) (of_nat IRQ_SLAVE),
     outb (IO_PIC2 + 1) 3,
     outb IO_PIC1 0x68,
     outb IO_PIC1 0x0a,
     outb IO_PIC2 0x68,
     outb IO_PIC2 0x0a]) (
     bnd (gets (\<lambda>s. irqmask (dev s))) (\<lambda>m. whenk (m \<noteq> 0xFFFF) (picsetmask m)))"

section \<open>The I/O APIC\<close>

definition REG_ID :: nat where "REG_ID = 0"
definition REG_VER :: nat where "REG_VER = 1"
definition REG_TABLE :: nat where "REG_TABLE = 0x10"
definition INT_DISABLED :: u32 where "INT_DISABLED = 0x10000"

definition ioapicread :: "nat \<Rightarrow> ('a devst_scheme, u32) kop" where
  "ioapicread reg = gets (\<lambda>s. ioapic (dev s) reg)"

definition ioapicwrite :: "nat \<Rightarrow> u32 \<Rightarrow> ('a devst_scheme, unit) kop" where
  "ioapicwrite reg v = upd_dev (\<lambda>d. d\<lparr>ioapic := (ioapic d)(reg := v)\<rparr>)"

definition ioapicinit_slot :: "nat \<Rightarrow> ('a devst_scheme, unit) kop" where
  "ioapicinit_slot i = seqs [
     ioapicwrite (REG_TABLE + 2 * i) (INT_DISABLED OR (T_IRQ0 + of_nat i)),
     ioapicwrite (REG_TABLE + 2 * i + 1) 0]"

definition ioapicinit :: "('a devst_scheme, unit) kop" where
  "ioapicinit =
    bnd (gets (\<lambda>s. ismp (dev s))) (\<lambda>mp.
    if \<not> mp then ret ()
    else
    bnd (ioapicread REG_VER) (\<lambda>v.
    let maxintr = drop_bit 16 v AND 0xFF in
    bnd (ioapicread REG_ID) (\<lambda>w.
    let id = drop_bit 24 w in
    bnd (gets (\<lambda>s. ioapicid (dev s))) (\<lambda>ioid.
    thn (whenk (id \<noteq> ioid) (cprintf (''ioapicinit: id isn'' @ [CHR 0x27] @ ''t equal to ioapicid; not a MP'' @ [CHR 0x0A]) [])) (
    for_each [0..<unat maxintr + 1] ioapicinit_slot)))))"

definition ioapicenable :: "u32 \<Rightarrow> u32 \<Rightarrow> ('a devst_scheme, unit) kop" where
  "ioapicenable irq cpu =
    bnd (gets (\<lambda>s. ismp (dev s))) (\<lambda>mp.
    if \<not> mp then ret ()
    else seqs [
      ioapicwrite (REG_TABLE + 2 * unat irq) (T_IRQ0 + irq),
      ioapicwrite (REG_TABLE + 2 * unat irq + 1) (push_bit 24 cpu)])"

section \<open>The local APIC\<close>

definition LAPIC_ID :: nat where "LAPIC_ID = 0x20 div 4"
definition LAPIC_VER :: nat where "LAPIC_VER = 0x30 div 4"
definition LAPIC_TPR :: nat where "LAPIC_TPR = 0x80 div 4"
definition LAPIC_EOI :: nat where "LAPIC_EOI = 0xB0 div 4"
definition LAPIC_SVR :: nat where "LAPIC_SVR = 0xF0 div 4"
definition LAPIC_ESR :: nat where "LAPIC_ESR = 0x280 div 4"
definition LAPIC_ICRLO :: nat where "LAPIC_ICRLO = 0x300 div 4"
definition LAPIC_ICRHI :: nat where "LAPIC_ICRHI = 0x310 div 4"
definition LAPIC_TIMER :: nat where "LAPIC_TIMER = 0x320 div 4"
definition LAPIC_PCINT :: nat where "LAPIC_PCINT = 0x340 div 4"
definition LAPIC_LINT0 :: nat where "LAPIC_LINT0 = 0x350 div 4"
definition LAPIC_LINT1 :: nat where "LAPIC_LINT1 = 0x360 div 4"
definition LAPIC_ERROR :: nat where "LAPIC_ERROR = 0x370 div 4"
definition LAPIC_TICR :: nat where "LAPIC_TICR = 0x380 div 4"
definition LAPIC_TDCR :: nat where "LAPIC_TDCR = 0x3E0 div 4"

text \<open>Writing through the null pointer is undefined; the read that waits for the write to finish has
  no effect.\<close>

definition lapicw :: "nat \<Rightarrow> u32 \<Rightarrow> ('a devst_scheme, unit) kop" where
  "lapicw index v =
    bnd (gets (\<lambda>s. lapic (dev s))) (\<lambda>l.
    bnd (need l) (\<lambda>r.
    upd_dev (\<lambda>d. d\<lparr>lapic := Some (r(index := v))\<rparr>)))"

definition lapicr :: "nat \<Rightarrow> ('a devst_scheme, u32) kop" where
  "lapicr index = bnd (gets (\<lambda>s. lapic (dev s))) (\<lambda>l. bnd (need l) (\<lambda>r. ret (r index)))"

text \<open>\<open>base\<close> is the address that is printed.\<close>

definition lapicinit :: "u32 \<Rightarrow> u32 \<Rightarrow> ('a devst_scheme, unit) kop" where
  "lapicinit base c =
    thn (cprintf (''lapicinit: %d 0x%x'' @ [CHR 0x0A]) [CInt c, CInt base]) (
    bnd (gets (\<lambda>s. lapic (dev s))) (\<lambda>l.
    if l = None then ret ()
    else
    thn (seqs [
      lapicw LAPIC_SVR (0x100 OR (T_IRQ0 + IRQ_SPURIOUS)),
      lapicw LAPIC_TDCR 0xB,
      lapicw LAPIC_TIMER (0x20000 OR (T_IRQ0 + IRQ_TIMER)),
      lapicw LAPIC_TICR 10000000,
      lapicw LAPIC_LINT0 0x10000,
      lapicw LAPIC_LINT1 0x10000,
      bnd (lapicr LAPIC_VER) (\<lambda>v. whenk (4 \<le> drop_bit 16 v AND 0xFF) (lapicw LAPIC_PCINT 0x10000)),
      lapicw LAPIC_ERROR (T_IRQ0 + 19),
      lapicw LAPIC_ESR 0,
      lapicw LAPIC_ESR 0,
      lapicw LAPIC_EOI 0,
      lapicw LAPIC_ICRHI 0,
      lapicw LAPIC_ICRLO (0x80000 OR 0x500 OR 0x8000)]) (
    bnd (lapicr LAPIC_ICRLO) (\<lambda>v.
    if v AND 0x1000 \<noteq> 0 then hang
    else lapicw LAPIC_TPR 0))))"

text \<open>\<open>pc\<close> is the return address that is printed once.\<close>

definition cpunum :: "u32 \<Rightarrow> ('a devst_scheme, u32) kop" where
  "cpunum pc =
    bnd readeflags (\<lambda>ef.
    thn (whenk (ef AND FL_IF \<noteq> 0) (
      bnd (gets (\<lambda>s. cpu_warned (dev s))) (\<lambda>k.
      thn (upd_dev (\<lambda>d. d\<lparr>cpu_warned := k + 1\<rparr>)) (
      whenk (k = 0) (cprintf (''cpu called from %x with interrupts enabled'' @ [CHR 0x0A]) [CInt pc]))))) (
    bnd (gets (\<lambda>s. lapic (dev s))) (\<lambda>l.
    case l of None \<Rightarrow> ret 0 | Some r \<Rightarrow> ret (drop_bit 24 (r LAPIC_ID)))))"

definition lapiceoi :: "('a devst_scheme, unit) kop" where
  "lapiceoi = bnd (gets (\<lambda>s. lapic (dev s))) (\<lambda>l. whenk (l \<noteq> None) (lapicw LAPIC_EOI 0))"

definition IO_RTC :: nat where "IO_RTC = 0x70"

definition lapicstartap :: "u32 \<Rightarrow> u32 \<Rightarrow> ('a devst_scheme, unit) kop" where
  "lapicstartap apicid addr = seqs [
     outb IO_RTC 0xF,
     outb (IO_RTC + 1) 0x0A,
     modify (\<lambda>s. s\<lparr>pmem := st16 (pmem s) 0x467 0\<rparr>),
     modify (\<lambda>s. s\<lparr>pmem := st16 (pmem s) 0x469 (ucast (drop_bit 4 addr))\<rparr>),
     lapicw LAPIC_ICRHI (push_bit 24 apicid),
     lapicw LAPIC_ICRLO (0x500 OR 0x8000 OR 0x4000),
     lapicw LAPIC_ICRLO (0x500 OR 0x8000),
     for_each [0..<2] (\<lambda>_. seqs [
       lapicw LAPIC_ICRHI (push_bit 24 apicid),
       lapicw LAPIC_ICRLO (0x600 OR drop_bit 12 addr)])]"

section \<open>The interval timer\<close>

definition IO_TIMER1 :: nat where "IO_TIMER1 = 0x40"
definition TIMER_FREQ :: nat where "TIMER_FREQ = 1193182"

definition TIMER_DIV :: "nat \<Rightarrow> nat" where
  "TIMER_DIV x = (TIMER_FREQ + x div 2) div x"

definition timerinit :: "('a devst_scheme, unit) kop" where
  "timerinit = seqs [
     outb (IO_TIMER1 + 3) (0 OR 4 OR 0x30),
     outb IO_TIMER1 (of_nat (TIMER_DIV 100 mod 256)),
     outb IO_TIMER1 (of_nat (TIMER_DIV 100 div 256)),
     picenable IRQ_TIMER]"

section \<open>The serial port\<close>

definition COM1 :: nat where "COM1 = 0x3f8"

text \<open>The two reads that acknowledge old conditions have no effect on the kernel.\<close>

definition uartinit :: "('a devst_scheme, unit) kop" where
  "uartinit = thn (seqs [
     outb (COM1 + 2) 0,
     outb (COM1 + 3) 0x80,
     outb (COM1 + 0) (of_nat (115200 div 9600)),
     outb (COM1 + 1) 0,
     outb (COM1 + 3) 0x03,
     outb (COM1 + 4) 0,
     outb (COM1 + 1) 0x01]) (
     bnd (gets (\<lambda>s. com1_status (dev s))) (\<lambda>st.
     if st = 0xFF then ret ()
     else thn (seqs [
       modify (\<lambda>s. s\<lparr>uart := True\<rparr>),
       picenable IRQ_COM1,
       ioapicenable IRQ_COM1 0]) (
     for_each (bytes (''xv6...'' @ [CHR 0x0A])) (\<lambda>c. uartputc (uint c)))))"

section \<open>The disk controller\<close>

text \<open>\<^verbatim>\<open>ideinit\<close> of \<^verbatim>\<open>ide.c\<close>, which also enables the interrupt of the disk. \<open>status\<close> is what the reads of port
  \<^verbatim>\<open>0x1f7\<close> give while disk 1 is selected; \<open>ncpu\<close> is the number of processors.\<close>

definition ideinit :: "(nat \<Rightarrow> u8) \<Rightarrow> u32 \<Rightarrow> ('a devst_scheme, unit) kop" where
  "ideinit status ncpu =
    thn (initlock IdeLock ''ide'') (
    thn (picenable IRQ_IDE) (
    thn (ioapicenable IRQ_IDE (ncpu - 1)) (
    bnd (idewait False) (\<lambda>_.
    seqs [
      outb_ide 0x1f6 (0xe0 OR push_bit 4 1),
      whenk (\<exists>i\<in>set [0..<1000]. status i \<noteq> 0) (modify (\<lambda>s. s\<lparr>havedisk1 := True\<rparr>)),
      outb_ide 0x1f6 (0xe0 OR push_bit 4 0)]))))"

section \<open>Framing\<close>

lemma devst_lock_sel [simp]:
  "dev (acq lk s) = dev s"
  "devst.more (acq lk s) = devst.more s"
  "dev (rel lk s) = dev s"
  "devst.more (rel lk s) = devst.more s"
  "dev (lockround lk s) = dev s"
  "devst.more (lockround lk s) = devst.more s"
  by (simp_all add: acq_def rel_def lockround_def)

lemma devst_lock_upd [simp]:
  "acq lk (dev_update g_dev s) = dev_update g_dev (acq lk s)"
  "rel lk (dev_update g_dev s) = dev_update g_dev (rel lk s)"
  "lockround lk (dev_update g_dev s) = dev_update g_dev (lockround lk s)"
  by (simp_all add: acq_def rel_def lockround_def)

lemma devst_lock_inv [simp]:
  "lock_free lk (dev_update g_dev s) = lock_free lk s"
  "lock_mine lk (dev_update g_dev s) = lock_mine lk s"
  "cli_ok (dev_update g_dev s) = cli_ok s"
  by (simp_all add: lock_free_def lock_mine_def cli_ok_def)

lemma devst_calm_upd [simp]:
  "calm s (dev_update g_dev t) = calm s t"
  "calm (dev_update g_dev s) t = calm s t"
  by (simp_all add: calm_def)

lemma devst_cpu_sel [simp]:
  "dev (upd_cpu h s) = dev s"
  "devst.more (upd_cpu h s) = devst.more s"
  by (simp_all add: upd_cpu_def)

section \<open>The interrupt controllers as devices\<close>

text \<open>One 8259A, by its data sheet: a command with bit 4 set starts the initialisation, clears the mask
  and makes the next three data bytes the vector base and two configuration words; other commands
  used here leave the mask alone; a data byte outside the initialisation is the new mask.\<close>

record pic =
  icw_left :: nat
  vbase :: u8
  imr :: u8

definition pic_step :: "nat \<Rightarrow> nat \<times> u8 \<Rightarrow> pic \<Rightarrow> pic" where
  "pic_step base pv c = (case pv of (port, v) \<Rightarrow>
     if port = base then if bit v 4 then c\<lparr>icw_left := 3, imr := 0\<rparr> else c
     else if port = base + 1 then
       if icw_left c = 3 then c\<lparr>icw_left := 2, vbase := v\<rparr>
       else if icw_left c > 0 then c\<lparr>icw_left := icw_left c - 1\<rparr>
       else c\<lparr>imr := v\<rparr>
     else c)"

definition pic_after :: "nat \<Rightarrow> pic \<Rightarrow> 'a devst_scheme \<Rightarrow> pic" where
  "pic_after base c s = fold (pic_step base) (outs (dev s)) c"

text \<open>Whether the pair of controllers holds back interrupt \<open>k\<close>.\<close>

definition pic_masked :: "pic \<Rightarrow> 'a devst_scheme \<Rightarrow> nat \<Rightarrow> bool" where
  "pic_masked c s k = (if k < 8 then bit (imr (pic_after IO_PIC1 c s)) k else bit (imr (pic_after IO_PIC2 c s)) (k - 8))"

definition pics_ok :: "pic \<Rightarrow> 'a devst_scheme \<Rightarrow> bool" where
  "pics_ok c s \<longleftrightarrow> pic_after IO_PIC1 c s = \<lparr>icw_left = 0, vbase = 32, imr = ucast (irqmask (dev s))\<rparr>
     \<and> pic_after IO_PIC2 c s = \<lparr>icw_left = 0, vbase = 40, imr = ucast (drop_bit 8 (irqmask (dev s)))\<rparr>"

lemma wp_outb [wp]: "wp (outb port v) Q s = Q () (s\<lparr>dev := (dev s)\<lparr>outs := outs (dev s) @ [(port, v)]\<rparr>\<rparr>)"
  by (simp add: outb_def wp)

lemma wp_picsetmask:
  assumes "pics_ok c s"
  shows "wp (picsetmask m) (\<lambda>_ t. pics_ok c t \<and> irqmask (dev t) = m) s"
  using assms by (simp add: picsetmask_def wp pics_ok_def pic_after_def pic_step_def IO_PIC1_def IO_PIC2_def)

lemma wp_picinit:
  assumes "irqmask (dev s) \<noteq> 0xFFFF"
  shows "wp picinit (\<lambda>_ t. pics_ok c t \<and> irqmask (dev t) = irqmask (dev s)) s"
  using assms by (simp add: picinit_def picsetmask_def wp pics_ok_def pic_after_def pic_step_def IO_PIC1_def IO_PIC2_def
    IRQ_SLAVE_def T_IRQ0_def)

lemma pics_ok_masked:
  assumes "pics_ok c s" "k < 16"
  shows "pic_masked c s k = bit (irqmask (dev s)) k"
  using assms by (auto simp: pic_masked_def pics_ok_def bit_ucast_iff bit_drop_bit_eq)

definition pic_open :: "u32 \<Rightarrow> u16 \<Rightarrow> u16" where
  "pic_open q m = m AND NOT (push_bit (unat q) 1)"

lemma wp_picenables:
  "pics_ok c s \<Longrightarrow> list_all (\<lambda>q. q < 32) qs \<Longrightarrow> wp (for_each qs picenable) (\<lambda>_ t. pics_ok c t \<and> irqmask (dev t) = fold pic_open qs (irqmask (dev s))) s"
proof (induction qs arbitrary: s)
  case (Cons q qs)
  have "wp (picenable q) (\<lambda>_ t. pics_ok c t \<and> irqmask (dev t) = pic_open q (irqmask (dev s))) s"
    using Cons.prems(2) by (simp add: picenable_def wp pic_open_def wp_picsetmask [OF Cons.prems(1)] not_le [symmetric])
  then show ?case unfolding wp_for_each_Cons by (rule wp_mono) (use Cons in fastforce)
qed (simp add: wp)

lemma bit_pic_open:
  assumes "k < 16"
  shows "bit (fold pic_open qs m) k \<longleftrightarrow> bit m k \<and> k \<notin> unat ` set qs"
  using assms by (induction qs arbitrary: m) (auto simp: pic_open_def bit_and_iff bit_not_iff bit_push_bit_iff bit_exp_iff)

text \<open>The redirection table: \<^verbatim>\<open>ioapicinit\<close> leaves every entry masked, with its own vector;
  \<^verbatim>\<open>ioapicenable\<close> then opens one entry and routes it.\<close>

definition redir_off :: "'a devst_scheme \<Rightarrow> nat \<Rightarrow> bool" where
  "redir_off s i \<longleftrightarrow> ioapic (dev s) (REG_TABLE + 2 * i) = INT_DISABLED OR (T_IRQ0 + of_nat i)
     \<and> ioapic (dev s) (REG_TABLE + 2 * i + 1) = 0"

lemma wp_ioapicinit_slots: "wp (for_each [0..<n] ioapicinit_slot) (\<lambda>_ t. \<forall>i < n. redir_off t i) s"
proof (induction n)
  case (Suc n)
  have "wp (for_each [n] ioapicinit_slot) (\<lambda>_ u. \<forall>i < Suc n. redir_off u i) t" if "\<forall>i < n. redir_off t i" for t :: "'a devst_scheme"
    using that by (auto simp: wp ioapicinit_slot_def ioapicwrite_def redir_off_def less_Suc_eq)
  with Suc show ?case by (simp add: wp_for_each_append wp_mono)
qed (simp add: wp)

lemma wp_ioapicinit:
  assumes "ismp (dev s)" "drop_bit 24 (ioapic (dev s) REG_ID) = ioapicid (dev s)"
  shows "wp ioapicinit (\<lambda>_ t. \<forall>i \<le> unat (drop_bit 16 (ioapic (dev s) REG_VER) AND 0xFF). redir_off t i) s"
  using assms wp_ioapicinit_slots [of "Suc (unat (drop_bit 16 (ioapic (dev s) REG_VER) AND 0xFF))" s]
  by (simp add: ioapicinit_def ioapicread_def wp Let_def less_Suc_eq_le)

lemma wp_ioapicenable:
  assumes "ismp (dev s)"
  shows "wp (ioapicenable irq cpu) (\<lambda>_ t. ioapic (dev t) (REG_TABLE + 2 * unat irq) = T_IRQ0 + irq
    \<and> ioapic (dev t) (REG_TABLE + 2 * unat irq + 1) = push_bit 24 cpu
    \<and> (\<forall>i. i \<noteq> unat irq \<longrightarrow> redir_off s i \<longrightarrow> redir_off t i)) s"
  using assms by (auto simp: ioapicenable_def ioapicwrite_def wp redir_off_def)

text \<open>C31. After \<^verbatim>\<open>picinit\<close> and any sequence of \<^verbatim>\<open>picenable\<close> calls both controllers
  are initialised with their vector bases, whatever state they were in, and hold back exactly the
  interrupts that were not enabled; the line of the second controller is always open.\<close>

theorem picenable_opens_exactly:
  assumes "irqmask (dev s) = 0xFFFF AND NOT (push_bit IRQ_SLAVE 1)" "list_all (\<lambda>q. q < 32) irqs"
  shows "wp (thn picinit (for_each irqs picenable)) (\<lambda>_ t.
      vbase (pic_after IO_PIC1 c t) = 32 \<and> vbase (pic_after IO_PIC2 c t) = 40
      \<and> filter (\<lambda>k. \<not> pic_masked c t k) [0..<16] = filter (\<lambda>k. k = 2 \<or> of_nat k \<in> set irqs) [0..<16]) s"
proof -
  have ne: "irqmask (dev s) \<noteq> 0xFFFF" unfolding assms(1) by (simp add: IRQ_SLAVE_def)
  have q: "of_nat k \<in> set irqs \<longleftrightarrow> k \<in> unat ` set irqs" if "k < 16" for k
  proof -
    have "unat (of_nat k :: u32) = k" using that by (simp add: unat_of_nat take_bit_nat_eq_self)
    then show ?thesis by (metis image_iff word_unat_eq_iff)
  qed
  have b: "bit (0xFFFF AND NOT (push_bit IRQ_SLAVE 1) :: u16) k \<longleftrightarrow> k \<noteq> 2" if "k < 16" for k
  proof -
    have "list_all (\<lambda>k. bit (0xFFFF AND NOT (push_bit IRQ_SLAVE 1) :: u16) k \<longleftrightarrow> k \<noteq> 2) [0..<16]" by code_simp
    then show ?thesis using that by (simp add: list_all_iff)
  qed
  show ?thesis
  proof (rule wp_thnI [OF wp_picinit [OF ne, of c]], rule wp_mono [OF wp_picenables [of c]], goal_cases)
    case (3 t a u)
    then have "pic_masked c u k \<longleftrightarrow> k \<noteq> 2 \<and> of_nat k \<notin> set irqs" if "k < 16" for k
      using pics_ok_masked [of c u k] bit_pic_open [OF that, of irqs] b [OF that] q [OF that] that assms(1) by auto
    then have "filter (\<lambda>k. \<not> pic_masked c u k) [0..<16] = filter (\<lambda>k. k = 2 \<or> of_nat k \<in> set irqs) [0..<16]"
      by (intro filter_cong) auto
    with 3 show ?case by (simp add: pics_ok_def)
  qed (use assms(2) in simp_all)
qed

text \<open>A state for examples: a machine with one local APIC, before the controllers are initialised.\<close>

definition dev_zero :: devregs where
  "dev_zero = \<lparr>outs = [], irqmask = 0xFFFF AND NOT (push_bit IRQ_SLAVE 1), lapic = Some (\<lambda>_. 0), ioapic = (\<lambda>_. 0)(REG_VER := 0x170000),
     ismp = True, ioapicid = 0, com1_status = 0, cpu_warned = 0\<rparr>"

definition dev_st :: devst where
  "dev_st = filest.extend file_st (devst.fields dev_zero)"

lemma dev_st_sel: "dev dev_st = dev_zero"
  by (simp add: dev_st_def filest.defs devst.defs)

lemma picenable_opens_exactly_witness:
  "wp (thn picinit (for_each [IRQ_TIMER, IRQ_IDE] picenable)) (\<lambda>_ t.
      vbase (pic_after IO_PIC1 \<lparr>icw_left = 1, vbase = 0, imr = 0\<rparr> t) = 32 \<and> vbase (pic_after IO_PIC2 \<lparr>icw_left = 1, vbase = 0, imr = 0\<rparr> t) = 40
      \<and> filter (\<lambda>k. \<not> pic_masked \<lparr>icw_left = 1, vbase = 0, imr = 0\<rparr> t k) [0..<16] = [0, 2, 14]) dev_st"
proof -
  have "filter (\<lambda>k. k = 2 \<or> of_nat k \<in> set [IRQ_TIMER, IRQ_IDE]) [0..<16] = [0, 2, 14]" by code_simp
  moreover have "wp (thn picinit (for_each [IRQ_TIMER, IRQ_IDE] picenable)) (\<lambda>_ t.
      vbase (pic_after IO_PIC1 c t) = 32 \<and> vbase (pic_after IO_PIC2 c t) = 40
      \<and> filter (\<lambda>k. \<not> pic_masked c t k) [0..<16] = filter (\<lambda>k. k = 2 \<or> of_nat k \<in> set [IRQ_TIMER, IRQ_IDE]) [0..<16]) dev_st" for c
    by (rule picenable_opens_exactly) (simp_all add: dev_st_sel dev_zero_def IRQ_TIMER_def IRQ_IDE_def)
  ultimately show ?thesis by simp
qed

end
