(* ===== verification/Kbd.thy ===== *)
theory Kbd
  imports Prelude
begin

text \<open>
  The keyboard decoder (\<^verbatim>\<open>kbd.c\<close>, \<^verbatim>\<open>kbd.h\<close>): one scan code from the controller and the
  state of the shift keys give the next state and a character, or 0 for none.

  Shown: the state stays within its seven flags, so that the tables are only read in range and the
  result is a byte; pressing and releasing a modifier restores the state.
\<close>

unbundle bit_operations_syntax

section \<open>Constants and tables\<close>

definition SHIFT :: u32 where "SHIFT = 1"
definition CTL :: u32 where "CTL = 2"
definition ALT :: u32 where "ALT = 4"
definition CAPSLOCK :: u32 where "CAPSLOCK = 8"
definition NUMLOCK :: u32 where "NUMLOCK = 16"
definition SCROLLLOCK :: u32 where "SCROLLLOCK = 32"
definition E0ESC :: u32 where "E0ESC = 64"

text \<open>An array of 256 bytes with the first entries given in order and some others by index.\<close>

definition keytab :: "u8 list \<Rightarrow> (nat \<times> u8) list \<Rightarrow> nat \<Rightarrow> u8" where
  "keytab xs ys d = (case map_of ys d of Some c \<Rightarrow> c | None \<Rightarrow> if d < length xs then xs ! d else 0)"

definition shiftcode :: "nat \<Rightarrow> u32" where
  "shiftcode d = (if d = 0x1D \<or> d = 0x9D then CTL else if d = 0x2A \<or> d = 0x36 then SHIFT
     else if d = 0x38 \<or> d = 0xB8 then ALT else 0)"

definition togglecode :: "nat \<Rightarrow> u32" where
  "togglecode d = (if d = 0x3A then CAPSLOCK else if d = 0x45 then NUMLOCK else if d = 0x46 then SCROLLLOCK else 0)"

definition normalmap :: "nat \<Rightarrow> u8" where
  "normalmap = keytab
    [0, 27, 49, 50, 51, 52, 53, 54, 55, 56, 57, 48, 45, 61, 8, 9,
     113, 119, 101, 114, 116, 121, 117, 105, 111, 112, 91, 93, 10, 0, 97, 115,
     100, 102, 103, 104, 106, 107, 108, 59, 39, 96, 0, 92, 122, 120, 99, 118,
     98, 110, 109, 44, 46, 47, 0, 42, 0, 32, 0, 0, 0, 0, 0, 0,
     0, 0, 0, 0, 0, 0, 0, 55, 56, 57, 45, 52, 53, 54, 43, 49,
     50, 51, 48, 46, 0, 0, 0, 0]
    [(0x9C, 10), (0xB5, 47), (0xC8, 226), (0xD0, 227), (0xC9, 230), (0xD1, 231), (0xCB, 228), (0xCD, 229), (0x97, 224), (0xCF, 225), (0xD2, 232), (0xD3, 233)]"

definition shiftmap :: "nat \<Rightarrow> u8" where
  "shiftmap = keytab
    [0, 27, 33, 64, 35, 36, 37, 94, 38, 42, 40, 41, 95, 43, 8, 9,
     81, 87, 69, 82, 84, 89, 85, 73, 79, 80, 123, 125, 10, 0, 65, 83,
     68, 70, 71, 72, 74, 75, 76, 58, 34, 126, 0, 124, 90, 88, 67, 86,
     66, 78, 77, 60, 62, 63, 0, 42, 0, 32, 0, 0, 0, 0, 0, 0,
     0, 0, 0, 0, 0, 0, 0, 55, 56, 57, 45, 52, 53, 54, 43, 49,
     50, 51, 48, 46, 0, 0, 0, 0]
    [(0x9C, 10), (0xB5, 47), (0xC8, 226), (0xD0, 227), (0xC9, 230), (0xD1, 231), (0xCB, 228), (0xCD, 229), (0x97, 224), (0xCF, 225), (0xD2, 232), (0xD3, 233)]"

definition ctlmap :: "nat \<Rightarrow> u8" where
  "ctlmap = keytab
    [0, 0, 0, 0, 0, 0, 0, 0, 0, 0, 0, 0, 0, 0, 0, 0,
     17, 23, 5, 18, 20, 25, 21, 9, 15, 16, 0, 0, 13, 0, 1, 19,
     4, 6, 7, 8, 10, 11, 12, 0, 0, 0, 0, 28, 26, 24, 3, 22,
     2, 14, 13, 0, 0, 239, 0, 0]
    [(0x9C, 13), (0xB5, 239), (0xC8, 226), (0xD0, 227), (0xC9, 230), (0xD1, 231), (0xCB, 228), (0xCD, 229), (0x97, 224), (0xCF, 225), (0xD2, 232), (0xD3, 233)]"

section \<open>Decoding\<close>

text \<open>The body of \<^verbatim>\<open>kbdgetc\<close> once a byte \<open>data\<close> has been read.\<close>

definition kbd_char :: "u32 \<Rightarrow> nat \<Rightarrow> u32" where
  "kbd_char shift data =
    (let m = unat (shift AND (CTL OR SHIFT));
         c = ucast (if m = 0 then normalmap data else if m = 1 then shiftmap data else ctlmap data) :: u32 in
     if shift AND CAPSLOCK \<noteq> 0 then
       if 97 \<le> c \<and> c \<le> 122 then c - 32
       else if 65 \<le> c \<and> c \<le> 90 then c + 32
       else c
     else c)"

definition kbd_press :: "u32 \<Rightarrow> nat \<Rightarrow> u32" where
  "kbd_press shift data = (shift OR shiftcode data) XOR togglecode data"

definition kbd_step :: "u32 \<Rightarrow> u8 \<Rightarrow> u32 \<times> u32" where
  "kbd_step shift byte =
    (let data = ucast byte :: u32 in
     if data = 0xE0 then (shift OR E0ESC, 0)
     else if data AND 0x80 \<noteq> 0 then
       let data = (if shift AND E0ESC \<noteq> 0 then data else data AND 0x7F) in
       (shift AND NOT (shiftcode (unat data) OR E0ESC), 0)
     else
       let (data, shift) = (if shift AND E0ESC \<noteq> 0 then (data OR 0x80, shift AND NOT E0ESC) else (data, shift));
           shift = kbd_press shift (unat data) in
       (shift, kbd_char shift (unat data)))"

section \<open>The state\<close>

definition kbd_ok :: "u32 \<Rightarrow> bool" where
  "kbd_ok shift \<longleftrightarrow> shift < 128"

lemma kbd_ok_bits: "kbd_ok x \<longleftrightarrow> take_bit 7 x = x"
proof -
  have "take_bit 7 x = x \<longleftrightarrow> unat (take_bit 7 x) = unat x" by (simp add: word_unat_eq_iff)
  also have "\<dots> \<longleftrightarrow> take_bit 7 (unat x) = unat x" by (simp add: unsigned_take_bit_eq)
  also have "\<dots> \<longleftrightarrow> unat x < 128" by (simp add: take_bit_nat_eq_self_iff)
  finally show ?thesis by (simp add: kbd_ok_def word_less_nat_alt)
qed

lemma kbd_ok_iff: "kbd_ok x \<longleftrightarrow> (\<forall>n. 7 \<le> n \<longrightarrow> \<not> bit x n)"
proof -
  have "bit x n \<Longrightarrow> n < 32" for n by (rule bit_imp_le_length [where 'a = 32, simplified])
  then show ?thesis unfolding kbd_ok_bits bit_eq_iff bit_take_bit_iff by (auto simp: not_less [symmetric])
qed

lemma kbd_ok_ops [simp]: "kbd_ok x \<Longrightarrow> kbd_ok y \<Longrightarrow> kbd_ok (x OR y)" "kbd_ok x \<Longrightarrow> kbd_ok y \<Longrightarrow> kbd_ok (x XOR y)"
  "kbd_ok x \<Longrightarrow> kbd_ok (x AND z)"
  unfolding kbd_ok_iff by (simp_all add: bit_or_iff bit_xor_iff bit_and_iff)

lemma kbd_ok_codes [simp]: "kbd_ok (shiftcode d)" "kbd_ok (togglecode d)" "kbd_ok E0ESC"
  by (auto simp: kbd_ok_def shiftcode_def togglecode_def CTL_def SHIFT_def ALT_def CAPSLOCK_def NUMLOCK_def SCROLLLOCK_def E0ESC_def)

lemma ucast_byte: "unat (ucast (x :: u8) :: u32) < 256"
proof -
  have "unat x < 2 ^ 8" using unsigned_less [of x] by simp
  then show ?thesis by (simp add: unsigned_ucast_eq take_bit_nat_eq_self)
qed

lemma caps_byte:
  fixes c :: u32
  assumes "unat c < 256"
  shows "(if 97 \<le> c \<and> c \<le> 122 then c - 32 else if 65 \<le> c \<and> c \<le> 90 then c + 32 else c) < 256"
proof -
  have "unat (c - 32) = unat c - 32" if "97 \<le> c" using that by (subst unat_sub) (simp_all add: word_le_nat_alt)
  moreover have "unat (c + 32) = unat c + 32" if "c \<le> 90" using that by (subst unat_add_lt) (simp_all add: word_le_nat_alt)
  ultimately show ?thesis using assms by (auto simp: word_less_nat_alt word_le_nat_alt)
qed

lemma kbd_char_byte: "kbd_char shift d < 256"
  unfolding kbd_char_def Let_def
  using caps_byte [OF ucast_byte] ucast_byte by (simp add: word_less_nat_alt [of _ 256])

text \<open>Runs of the decoder.\<close>

definition kbd_run :: "u32 \<Rightarrow> u8 list \<Rightarrow> u32" where
  "kbd_run shift bs = fold (\<lambda>b shift. fst (kbd_step shift b)) bs shift"

lemma kbd_step_ok: "kbd_ok shift \<Longrightarrow> kbd_ok (fst (kbd_step shift b)) \<and> snd (kbd_step shift b) < 256"
  by (auto simp: kbd_step_def Let_def kbd_char_byte kbd_press_def)

lemma kbd_run_ok: "kbd_ok shift \<Longrightarrow> kbd_ok (kbd_run shift bs)"
  unfolding kbd_run_def by (induction bs arbitrary: shift) (simp_all add: kbd_step_ok)

text \<open>Bounds: from power-on, after any sequence of scan codes, the shift state only has flags that
  are defined and the next character is a byte, so the four character maps are never read outside
  their 256 entries and the result fits the \<^verbatim>\<open>int\<close> that the console takes.\<close>

theorem kbd_stays_in_range:
  "kbd_run 0 bs < 128 \<and> snd (kbd_step (kbd_run 0 bs) b) < 256
   \<and> unat (kbd_run 0 bs AND (CTL OR SHIFT)) < 4"
proof -
  have k: "kbd_ok (kbd_run 0 bs)" by (rule kbd_run_ok) (simp add: kbd_ok_def)
  have m: "CTL OR SHIFT = mask 2" by (simp add: CTL_def SHIFT_def mask_eq_exp_minus_1)
  have "unat (take_bit 2 (kbd_run 0 bs)) < 4"
    using take_bit_nat_less_exp [of 2 "unat (kbd_run 0 bs)"] by (simp add: unsigned_take_bit_eq)
  then show ?thesis using kbd_step_ok [OF k] k unfolding m take_bit_eq_mask [symmetric] by (simp add: kbd_ok_def)
qed

lemma and_or_clear:
  fixes a c e :: u32
  assumes "a AND c = 0" "a AND e = 0"
  shows "(a OR c) AND NOT (c OR e) = a"
proof (rule bit_word_eqI)
  fix n assume "n < LENGTH(32)"
  have "\<not> bit (a AND c) n" "\<not> bit (a AND e) n" unfolding assms by simp_all
  then show "bit ((a OR c) AND NOT (c OR e)) n = bit a n"
    using \<open>n < LENGTH(32)\<close> by (auto simp: bit_and_iff bit_or_iff bit_not_iff)
qed

lemma kbd_modifier:
  fixes d d' c shift :: u32
  assumes "ucast b = d" "d \<noteq> 0xE0" "d AND 0x80 = 0" "togglecode (unat d) = 0" "shiftcode (unat d) = c"
    and "ucast b' = d'" "d' \<noteq> 0xE0" "d' AND 0x80 \<noteq> 0" "d' AND 0x7F = d" "c AND E0ESC = 0"
    and s: "shift AND c = 0" "shift AND E0ESC = 0" and z: "\<And>x. kbd_char x (unat d) = 0"
  shows "kbd_step shift b = (shift OR c, 0) \<and> kbd_step (shift OR c) b' = (shift, 0)"
proof -
  have "(shift OR c) AND E0ESC = 0" using s(2) assms(10) by (simp add: bit.conj_disj_distrib2)
  with assms(1-10) s(2) z and_or_clear [OF s] show ?thesis by (simp add: kbd_step_def Let_def kbd_press_def)
qed

lemma modifier_char:
  assumes "d \<in> {0x1D, 0x2A, 0x36, 0x38}"
  shows "kbd_char x d = 0"
proof -
  have "normalmap d = 0" "shiftmap d = 0" "ctlmap d = 0"
    using assms by (auto simp: normalmap_def shiftmap_def ctlmap_def keytab_def)
  then show ?thesis by (simp add: kbd_char_def Let_def)
qed

text \<open>Pressing and releasing a modifier key that is not held gives no character and leaves the
  state as it was; in between exactly its flag is set.\<close>

theorem kbd_modifier_roundtrip:
  assumes "d \<in> {0x1D, 0x2A, 0x36, 0x38}" "shift AND shiftcode (unat d) = 0" "shift AND E0ESC = 0"
  shows "kbd_step shift d = (shift OR shiftcode (unat d), 0)
    \<and> kbd_step (shift OR shiftcode (unat d)) (d OR 0x80) = (shift, 0)"
proof -
  have c: "unat (ucast d :: u32) = unat d" using assms(1) by auto
  have k: "(ucast d :: u32) \<noteq> 0xE0" "ucast d AND (0x80 :: u32) = 0" "togglecode (unat (ucast d :: u32)) = 0"
    "(ucast (d OR 0x80) :: u32) \<noteq> 0xE0" "ucast (d OR 0x80) AND (0x80 :: u32) \<noteq> 0"
    "ucast (d OR 0x80) AND (0x7F :: u32) = ucast d" "shiftcode (unat d) AND E0ESC = 0"
    using assms(1) by (auto simp: togglecode_def shiftcode_def CTL_def SHIFT_def ALT_def E0ESC_def)
  show ?thesis
    by (rule kbd_modifier [OF refl k(1-3) _ refl k(4-7) assms(2,3)])
      (use assms(1) in \<open>auto simp: c intro!: modifier_char\<close>)
qed

lemma kbd_modifier_roundtrip_witness:
  "kbd_step 8 0x2A = (8 OR shiftcode 0x2A, 0) \<and> kbd_step (8 OR shiftcode 0x2A) (0x2A OR 0x80) = (8, 0)"
  using kbd_modifier_roundtrip [where d = "0x2A" and shift = 8] by (simp add: shiftcode_def SHIFT_def E0ESC_def)

end
