(* ===== verification/Console.thy ===== *)
theory Console
  imports Device Kbd
begin

text \<open>
  Console input (\<^verbatim>\<open>console.c\<close>, \<^verbatim>\<open>kbd.c\<close>, \<^verbatim>\<open>uart.c\<close>): the interrupt handler that
  edits the current line and recalls earlier ones, the device operations of the console, and the two
  sources of characters.

  The bytes waiting in the keyboard controller and in the serial port are queues of the state. Access
  to the history outside its 16 rows of 100 bytes is undefined.

  Shown: the handler implements a line editor on two lists, the bytes ready for readers and the line
  being typed; a reader gets the first line.
\<close>

section \<open>State\<close>

definition INPUT_BUF :: nat where "INPUT_BUF = 128"
definition HISTORY_SIZE :: int where "HISTORY_SIZE = 16"
definition CONSOLE :: nat where "CONSOLE = 1"

record inbuf =
  in_data :: "u8 list"
  in_r :: u32
  in_w :: u32
  in_e :: u32

record history =
  prevCmds :: "nat \<Rightarrow> nat \<Rightarrow> u8"
  indexToDim1 :: int
  indexToDim2 :: int
  currInd1 :: int
  hasInserted :: int

record consst = devst +
  input :: inbuf
  hist :: history
  kbd_shift :: u32
  kbd_data :: "u8 list"
  com1_data :: "u8 list"

abbreviation upd_in :: "(inbuf \<Rightarrow> inbuf) \<Rightarrow> ('a consst_scheme, unit) kop" where
  "upd_in f \<equiv> modify (\<lambda>s. s\<lparr>input := f (input s)\<rparr>)"

abbreviation upd_hist :: "(history \<Rightarrow> history) \<Rightarrow> ('a consst_scheme, unit) kop" where
  "upd_hist f \<equiv> modify (\<lambda>s. s\<lparr>hist := f (hist s)\<rparr>)"

definition hist_get :: "history \<Rightarrow> int \<Rightarrow> int \<Rightarrow> u8 option" where
  "hist_get h i j = (if 0 \<le> i \<and> i < HISTORY_SIZE \<and> 0 \<le> j \<and> j < 100 then Some (prevCmds h (nat i) (nat j)) else None)"

definition hist_set :: "int \<Rightarrow> int \<Rightarrow> u8 \<Rightarrow> history \<Rightarrow> history option" where
  "hist_set i j c h = (if 0 \<le> i \<and> i < HISTORY_SIZE \<and> 0 \<le> j \<and> j < 100
     then Some (h\<lparr>prevCmds := (prevCmds h)(nat i := (prevCmds h (nat i))(nat j := c))\<rparr>) else None)"

text \<open>\<^verbatim>\<open>prevCmds[i]\<close> as a string.\<close>

definition hist_row :: "history \<Rightarrow> int \<Rightarrow> u8 list" where
  "hist_row h i = map (prevCmds h (nat i)) [0..<100]"

section \<open>The input buffer\<close>

definition in_put :: "u8 \<Rightarrow> inbuf \<Rightarrow> inbuf" where
  "in_put c b = b\<lparr>in_data := (in_data b)[unat (in_e b) mod INPUT_BUF := c], in_e := in_e b + 1\<rparr>"

definition in_last :: "inbuf \<Rightarrow> u8" where
  "in_last b = in_data b ! (unat (in_e b - 1) mod INPUT_BUF)"

definition in_front :: "inbuf \<Rightarrow> u8" where
  "in_front b = in_data b ! (unat (in_r b) mod INPUT_BUF)"

definition in_pop :: "inbuf \<Rightarrow> inbuf" where
  "in_pop b = b\<lparr>in_r := in_r b + 1\<rparr>"

text \<open>Dropping the last character of the line.\<close>

definition erase_char :: "('a consst_scheme, unit) kop" where
  "erase_char = thn (upd_in (\<lambda>b. b\<lparr>in_e := in_e b - 1\<rparr>)) (consputc BACKSPACE)"

text \<open>Dropping the line: the loop of the \<^verbatim>\<open>C('U')\<close> case, used again before a recalled line is put
  in.\<close>

definition erase_line :: "('a consst_scheme, unit) kop" where
  "erase_line =
    bnd (gets input) (\<lambda>b.
    loop_fuel (unat (in_e b - in_w b) + 1) (\<lambda>_.
      bnd (gets input) (\<lambda>b.
      if in_e b \<noteq> in_w b \<and> in_last b \<noteq> 10 then thn erase_char (ret (Inl ()))
      else ret (Inr ()))) ())"

section \<open>The interrupt handler\<close>

definition recall_copy :: "int \<Rightarrow> int \<Rightarrow> ('a consst_scheme, int) kop" where
  "recall_copy row = loop_fuel 101 (\<lambda>ind.
     bnd (gets (\<lambda>s. hist_get (hist s) row ind)) (\<lambda>r.
     bnd (need r) (\<lambda>c.
     if c \<noteq> 0 then thn (upd_in (in_put c)) (ret (Inl (ind + 1)))
     else ret (Inr ind))))"

definition recall :: "int \<Rightarrow> ('a consst_scheme, int) kop" where
  "recall ind =
    bnd (gets hist) (\<lambda>h.
    if hasInserted h = 0 then ret ind
    else
      thn erase_line (
      bnd (recall_copy (currInd1 h) ind) (\<lambda>ind.
      thn (if currInd1 h \<noteq> 0
           then thn (cprintf ''%s'' [CStr (Some (hist_row h (currInd1 h)))]) (
                upd_hist (\<lambda>h. h\<lparr>currInd1 := currInd1 h - 1\<rparr>))
           else if hasInserted h < 16
           then thn (cprintf ''%s'' [CStr (Some (hist_row h 0))]) (
                upd_hist (\<lambda>h. h\<lparr>currInd1 := indexToDim1 h - 1\<rparr>))
           else thn (cprintf ''%s'' [CStr (Some (hist_row h 0))]) (
                upd_hist (\<lambda>h. h\<lparr>currInd1 := 15\<rparr>))) (
      ret ind))))"

text \<open>A character for the line.\<close>

definition type_char :: "int \<Rightarrow> ('a consst_scheme, unit) kop" where
  "type_char c =
    bnd (gets input) (\<lambda>b.
    whenk (c \<noteq> 0 \<and> in_e b - in_r b < of_nat INPUT_BUF) (
      let c = (if c = 13 then 10 else c) in
      thn (upd_in (in_put (word_of_int c))) (
      thn (consputc c) (
      bnd (gets input) (\<lambda>b.
      whenk (c = 10 \<or> c = 4 \<or> in_e b = in_r b + of_nat INPUT_BUF) (
        thn (upd_in (\<lambda>b. b\<lparr>in_w := in_e b\<rparr>)) (
        wakeup ChInput)))))))"

text \<open>The switch. The counter \<^verbatim>\<open>ind\<close> of a recall is kept for the whole interrupt.\<close>

definition consoleintr_char :: "int \<Rightarrow> int \<Rightarrow> ('a consst_scheme, int) kop" where
  "consoleintr_char c ind =
    (if c = 16 then thn procdump (ret ind)
     else if c = 21 then thn erase_line (ret ind)
     else if c = 8 \<or> c = 127 then
       thn (bnd (gets input) (\<lambda>b. whenk (in_e b \<noteq> in_w b) erase_char)) (ret ind)
     else if c = 9 \<or> c = 226 then recall ind
     else thn (type_char c) (ret ind))"

definition consoleintr :: "nat \<Rightarrow> ('a consst_scheme, int) kop \<Rightarrow> ('a consst_scheme, unit) kop" where
  "consoleintr fuel getc =
    thn (acquire InputLock) (
    thn (loop_fuel fuel (\<lambda>ind.
      bnd getc (\<lambda>c.
      if 0 \<le> c then bnd (consoleintr_char c ind) (\<lambda>ind. ret (Inl ind))
      else ret (Inr ()))) 0) (
    release InputLock))"

section \<open>Sources of characters\<close>

definition kbdgetc :: "('a consst_scheme, int) kop" where
  "kbdgetc =
    bnd (gets kbd_data) (\<lambda>ds.
    case ds of
      [] \<Rightarrow> ret (- 1)
    | d # ds \<Rightarrow>
        thn (modify (\<lambda>s. s\<lparr>kbd_data := ds\<rparr>)) (
        bnd (gets (\<lambda>s. kbd_step (kbd_shift s) d)) (\<lambda>(shift, c).
        thn (modify (\<lambda>s. s\<lparr>kbd_shift := shift\<rparr>)) (
        ret (sint c)))))"

definition kbdintr :: "nat \<Rightarrow> ('a consst_scheme, unit) kop" where
  "kbdintr fuel = consoleintr fuel kbdgetc"

definition uartgetc :: "('a consst_scheme, int) kop" where
  "uartgetc =
    bnd (gets uart) (\<lambda>u.
    if \<not> u then ret (- 1)
    else bnd (gets com1_data) (\<lambda>ds.
    case ds of
      [] \<Rightarrow> ret (- 1)
    | d # ds \<Rightarrow> thn (modify (\<lambda>s. s\<lparr>com1_data := ds\<rparr>)) (ret (uint d))))"

definition uartintr :: "nat \<Rightarrow> ('a consst_scheme, unit) kop" where
  "uartintr fuel = consoleintr fuel uartgetc"

section \<open>The console as a device\<close>

text \<open>Waiting for input: \<open>False\<close> when the process was killed, with the lock released.\<close>

definition consoleread_wait :: "nat \<Rightarrow> ('a consst_scheme, unit) kop \<Rightarrow> ('a consst_scheme, bool) kop" where
  "consoleread_wait fuel env = loop_fuel fuel (\<lambda>_.
    bnd (gets input) (\<lambda>b.
    if in_r b = in_w b then
      bnd killed (\<lambda>k.
      if k then thn (release InputLock) (ret (Inr False))
      else thn (sleep env ChInput (Some InputLock)) (ret (Inl ())))
    else ret (Inr True))) ()"

text \<open>The history of the lines read.\<close>

definition consoleread_hist :: "u8 \<Rightarrow> history \<Rightarrow> history option" where
  "consoleread_hist c h =
    (if c \<noteq> 4 \<and> c \<noteq> 10 then
       let h = (if HISTORY_SIZE \<le> indexToDim1 h then h\<lparr>indexToDim1 := 0\<rparr> else h) in
       map_option (\<lambda>h. h\<lparr>indexToDim2 := indexToDim2 h + 1\<rparr>) (hist_set (indexToDim1 h) (indexToDim2 h) c h)
     else
       map_option (\<lambda>h. h\<lparr>indexToDim2 := 0, currInd1 := indexToDim1 h, indexToDim1 := indexToDim1 h + 1,
           hasInserted := s32 (hasInserted h + 1)\<rparr>)
         (hist_set (indexToDim1 h) (indexToDim2 h) 0 h))"

definition consoleread_round ::
  "nat \<Rightarrow> ('a consst_scheme, unit) kop \<Rightarrow> int \<Rightarrow> u8 list \<Rightarrow> ('a consst_scheme, u8 list + u8 list option) kop" where
  "consoleread_round fuel env target dst =
    (let n = target - int (length dst) in
     if 0 < n then
       bnd (consoleread_wait fuel env) (\<lambda>go.
       if \<not> go then ret (Inr None)
       else
       bnd (gets (\<lambda>s. in_front (input s))) (\<lambda>c.
       thn (upd_in in_pop) (
       bnd (gets (\<lambda>s. consoleread_hist c (hist s))) (\<lambda>ho.
       bnd (need ho) (\<lambda>h.
       thn (upd_hist (\<lambda>_. h)) (
       if c = 4 then
         thn (whenk (n < target) (upd_in (\<lambda>b. b\<lparr>in_r := in_r b - 1\<rparr>))) (ret (Inr (Some dst)))
       else if c = 10 then ret (Inr (Some (dst @ [c])))
       else ret (Inl (dst @ [c]))))))))
     else ret (Inr (Some dst)))"

definition consoleread ::
  "nat \<Rightarrow> ('a consst_scheme, unit) kop \<Rightarrow> nat \<Rightarrow> u32 \<Rightarrow> ('a consst_scheme, int \<times> u8 list) kop" where
  "consoleread fuel env ip cnt =
    thn (iunlock ip) (
    thn (acquire InputLock) (
    bnd (loop_fuel (nat (sint cnt) + 1) (consoleread_round fuel env (sint cnt)) []) (\<lambda>r.
    case r of
      None \<Rightarrow> thn (ilock fuel env ip) (ret (- 1, []))
    | Some dst \<Rightarrow>
        thn (release InputLock) (
        thn (ilock fuel env ip) (
        ret (int (length dst), dst))))))"

definition consolewrite ::
  "nat \<Rightarrow> ('a consst_scheme, unit) kop \<Rightarrow> nat \<Rightarrow> u8 list \<Rightarrow> u32 \<Rightarrow> ('a consst_scheme, int) kop" where
  "consolewrite fuel env ip buf cnt =
    thn (seqs [
      iunlock ip,
      acquire ConsLock,
      for_each [0..<nat (sint cnt)] (\<lambda>i. bnd (need (Prelude.at buf i)) (\<lambda>c. consputc (uint c))),
      release ConsLock,
      ilock fuel env ip]) (
    ret (sint cnt))"

text \<open>The device switch as \<^verbatim>\<open>consoleinit\<close> leaves it.\<close>

definition console_devsw :: "nat \<Rightarrow> ('a consst_scheme, unit) kop \<Rightarrow> 'a consst_scheme devsw" where
  "console_devsw fuel env = \<lparr>
     dev_read = (\<lambda>d. if d = CONSOLE then Some (consoleread fuel env) else None),
     dev_write = (\<lambda>d. if d = CONSOLE then Some (consolewrite fuel env) else None)\<rparr>"

definition consoleinit :: "('a consst_scheme, unit) kop" where
  "consoleinit = seqs [
     initlock ConsLock ''console'',
     initlock InputLock ''input'',
     modify (\<lambda>s. s\<lparr>cons_locking := True\<rparr>),
     picenable IRQ_KBD,
     ioapicenable IRQ_KBD 0]"

section \<open>Framing\<close>

lemma consst_lock_sel [simp]:
  "input (acq lk s) = input s"
  "hist (acq lk s) = hist s"
  "kbd_shift (acq lk s) = kbd_shift s"
  "kbd_data (acq lk s) = kbd_data s"
  "com1_data (acq lk s) = com1_data s"
  "consst.more (acq lk s) = consst.more s"
  "input (rel lk s) = input s"
  "hist (rel lk s) = hist s"
  "kbd_shift (rel lk s) = kbd_shift s"
  "kbd_data (rel lk s) = kbd_data s"
  "com1_data (rel lk s) = com1_data s"
  "consst.more (rel lk s) = consst.more s"
  "input (lockround lk s) = input s"
  "hist (lockround lk s) = hist s"
  "kbd_shift (lockround lk s) = kbd_shift s"
  "kbd_data (lockround lk s) = kbd_data s"
  "com1_data (lockround lk s) = com1_data s"
  "consst.more (lockround lk s) = consst.more s"
  by (simp_all add: acq_def rel_def lockround_def)

lemma consst_lock_upd [simp]:
  "acq lk (input_update g_input s) = input_update g_input (acq lk s)"
  "acq lk (hist_update g_hist s) = hist_update g_hist (acq lk s)"
  "acq lk (kbd_shift_update g_kbd_shift s) = kbd_shift_update g_kbd_shift (acq lk s)"
  "acq lk (kbd_data_update g_kbd_data s) = kbd_data_update g_kbd_data (acq lk s)"
  "acq lk (com1_data_update g_com1_data s) = com1_data_update g_com1_data (acq lk s)"
  "rel lk (input_update g_input s) = input_update g_input (rel lk s)"
  "rel lk (hist_update g_hist s) = hist_update g_hist (rel lk s)"
  "rel lk (kbd_shift_update g_kbd_shift s) = kbd_shift_update g_kbd_shift (rel lk s)"
  "rel lk (kbd_data_update g_kbd_data s) = kbd_data_update g_kbd_data (rel lk s)"
  "rel lk (com1_data_update g_com1_data s) = com1_data_update g_com1_data (rel lk s)"
  "lockround lk (input_update g_input s) = input_update g_input (lockround lk s)"
  "lockround lk (hist_update g_hist s) = hist_update g_hist (lockround lk s)"
  "lockround lk (kbd_shift_update g_kbd_shift s) = kbd_shift_update g_kbd_shift (lockround lk s)"
  "lockround lk (kbd_data_update g_kbd_data s) = kbd_data_update g_kbd_data (lockround lk s)"
  "lockround lk (com1_data_update g_com1_data s) = com1_data_update g_com1_data (lockround lk s)"
  by (simp_all add: acq_def rel_def lockround_def)

lemma consst_lock_inv [simp]:
  "lock_free lk (input_update g_input s) = lock_free lk s"
  "lock_free lk (hist_update g_hist s) = lock_free lk s"
  "lock_free lk (kbd_shift_update g_kbd_shift s) = lock_free lk s"
  "lock_free lk (kbd_data_update g_kbd_data s) = lock_free lk s"
  "lock_free lk (com1_data_update g_com1_data s) = lock_free lk s"
  "lock_mine lk (input_update g_input s) = lock_mine lk s"
  "lock_mine lk (hist_update g_hist s) = lock_mine lk s"
  "lock_mine lk (kbd_shift_update g_kbd_shift s) = lock_mine lk s"
  "lock_mine lk (kbd_data_update g_kbd_data s) = lock_mine lk s"
  "lock_mine lk (com1_data_update g_com1_data s) = lock_mine lk s"
  "cli_ok (input_update g_input s) = cli_ok s"
  "cli_ok (hist_update g_hist s) = cli_ok s"
  "cli_ok (kbd_shift_update g_kbd_shift s) = cli_ok s"
  "cli_ok (kbd_data_update g_kbd_data s) = cli_ok s"
  "cli_ok (com1_data_update g_com1_data s) = cli_ok s"
  by (simp_all add: lock_free_def lock_mine_def cli_ok_def)

lemma consst_calm_upd [simp]:
  "calm s (input_update g_input t) = calm s t"
  "calm s (hist_update g_hist t) = calm s t"
  "calm s (kbd_shift_update g_kbd_shift t) = calm s t"
  "calm s (kbd_data_update g_kbd_data t) = calm s t"
  "calm s (com1_data_update g_com1_data t) = calm s t"
  "calm (input_update g_input s) t = calm s t"
  "calm (hist_update g_hist s) t = calm s t"
  "calm (kbd_shift_update g_kbd_shift s) t = calm s t"
  "calm (kbd_data_update g_kbd_data s) t = calm s t"
  "calm (com1_data_update g_com1_data s) t = calm s t"
  by (simp_all add: calm_def)

lemma consst_cpu_sel [simp]:
  "input (upd_cpu h s) = input s"
  "hist (upd_cpu h s) = hist s"
  "kbd_shift (upd_cpu h s) = kbd_shift s"
  "kbd_data (upd_cpu h s) = kbd_data s"
  "com1_data (upd_cpu h s) = com1_data s"
  "consst.more (upd_cpu h s) = consst.more s"
  by (simp_all add: upd_cpu_def)

section \<open>The line editor\<close>

text \<open>What the handler is for, on two lists: the bytes ready for readers and the line being typed.\<close>

definition edit :: "u8 \<Rightarrow> u8 list \<times> u8 list \<Rightarrow> u8 list \<times> u8 list" where
  "edit c = (\<lambda>(ready, line).
     if c = 21 then (ready, [])
     else if c = 8 \<or> c = 127 then (ready, butlast line)
     else if c = 0 \<or> INPUT_BUF \<le> length ready + length line then (ready, line)
     else let c = (if c = 13 then 10 else c); line = line @ [c] in
       if c = 10 \<or> c = 4 \<or> length ready + length line = INPUT_BUF then (ready @ line, []) else (ready, line))"

definition in_all :: "inbuf \<Rightarrow> u8 list" where
  "in_all b = ring_contents INPUT_BUF (in_data b) (in_r b) (in_e b)"

definition in_view :: "inbuf \<Rightarrow> u8 list \<times> u8 list" where
  "in_view b = (let k = unat (in_w b - in_r b) in (take k (in_all b), drop k (in_all b)))"

definition in_ring_ok :: "inbuf \<Rightarrow> bool" where
  "in_ring_ok b \<longleftrightarrow> ring_ok INPUT_BUF (in_data b) (in_r b) (in_e b)"

definition in_ok :: "inbuf \<Rightarrow> bool" where
  "in_ok b \<longleftrightarrow> in_ring_ok b \<and> unat (in_w b - in_r b) \<le> unat (in_e b - in_r b)
     \<and> 10 \<notin> set (snd (in_view b))"

lemma INPUT_BUF_dvd: "INPUT_BUF dvd 2 ^ 32" "INPUT_BUF < 2 ^ 32"
  by (simp_all add: INPUT_BUF_def)

lemma length_in_all [simp]: "length (in_all b) = unat (in_e b - in_r b)"
  by (simp add: in_all_def)

lemma in_ok_len: "in_ok b \<Longrightarrow> unat (in_w b - in_r b) \<le> unat (in_e b - in_r b)" "in_ok b \<Longrightarrow> unat (in_e b - in_r b) \<le> INPUT_BUF"
  "in_ok b \<Longrightarrow> length (in_data b) = INPUT_BUF"
  by (simp_all add: in_ok_def in_ring_ok_def ring_ok_def)

text \<open>The fifo laws, for the whole buffer from the read to the edit index.\<close>

interpretation iq: fifo in_ring_ok in_all INPUT_BUF in_put in_front in_pop
proof unfold_locales
  fix b c
  assume "in_ring_ok b"
  then have r: "length (in_data b) = INPUT_BUF" "unat (in_e b - in_r b) \<le> INPUT_BUF" by (simp_all add: in_ring_ok_def ring_ok_def)
  then show "length (in_all b) \<le> INPUT_BUF" by simp
  {
    assume "length (in_all b) < INPUT_BUF"
    then have lt: "unat (in_e b - in_r b) < INPUT_BUF" by simp
    note R = ring_put [OF INPUT_BUF_dvd r(1) lt, of c]
    show "in_all (in_put c b) = in_all b @ [c]" using R by (simp add: in_all_def in_put_def)
    from arg_cong [OF R, of length] lt r(1)
    show "in_ring_ok (in_put c b)"
      by (simp add: in_ring_ok_def ring_ok_def in_put_def)
  }
  assume "in_all b \<noteq> []"
  then have ne: "in_e b \<noteq> in_r b" by (metis in_all_def ring_empty)
  show "in_ring_ok (in_pop b)"
    using r ring_pop(2) [OF ne] by (simp add: in_ring_ok_def ring_ok_def in_pop_def)
  show "in_all b = in_front b # in_all (in_pop b)"
    using ring_pop(1) [OF ne] by (simp add: in_all_def in_front_def in_pop_def)
qed

lemma in_line_empty: "in_ok b \<Longrightarrow> in_e b = in_w b \<longleftrightarrow> snd (in_view b) = []"
proof -
  assume "in_ok b"
  then have "snd (in_view b) = [] \<longleftrightarrow> unat (in_e b - in_r b) = unat (in_w b - in_r b)"
    using in_ok_len(1) by (fastforce simp: in_view_def Let_def)
  also have "\<dots> \<longleftrightarrow> in_e b = in_w b" by (simp add: word_unat_eq_iff [symmetric])
  finally show ?thesis by simp
qed

lemma in_erase:
  assumes b: "in_ok b" "in_e b \<noteq> in_w b" and b'_def: "b' = b\<lparr>in_e := in_e b - 1\<rparr>"
  shows "in_ok b'" "in_view b' = (fst (in_view b), butlast (snd (in_view b)))" "in_last b = last (snd (in_view b))"
proof -
  let ?k = "unat (in_w b - in_r b)"
  have lt: "?k < unat (in_e b - in_r b)"
    using in_ok_len(1) [OF b(1)] b(2) by (simp add: le_less word_unat_eq_iff [symmetric])
  then have ne: "in_e b \<noteq> in_r b" by auto
  note R = ring_unput(1,2) [OF ne, of INPUT_BUF "in_data b"] ring_unput(3) [OF ne]
  have all: "in_all b' = butlast (in_all b)" using R(1) by (simp add: b'_def in_all_def)
  show v: "in_view b' = (fst (in_view b), butlast (snd (in_view b)))"
    using lt by (simp add: in_view_def all) (simp add: b'_def Let_def take_butlast butlast_drop)
  show "in_last b = last (snd (in_view b))"
    using R(2) lt by (simp add: in_last_def in_view_def Let_def in_all_def last_drop)
  show "in_ok b'" using b(1) R(3) lt in_ok_len(2) [OF b(1)] unfolding in_ok_def v
    by (auto simp: b'_def in_ring_ok_def ring_ok_def dest: in_set_butlastD)
qed

lemma in_put_view:
  assumes b: "in_ok b" "unat (in_e b - in_r b) < INPUT_BUF"
  shows "in_view (in_put c b) = (fst (in_view b), snd (in_view b) @ [c])" "c \<noteq> 10 \<Longrightarrow> in_ok (in_put c b)"
    "unat (in_e (in_put c b) - in_r b) = Suc (unat (in_e b - in_r b))"
proof -
  have r: "in_ring_ok b" using b(1) by (simp add: in_ok_def)
  note P = iq.put_ok [OF r, of c] iq.put_contents [OF r, of c]
  have kw: "in_w (in_put c b) = in_w b" "in_r (in_put c b) = in_r b" by (simp_all add: in_put_def)
  show v: "in_view (in_put c b) = (fst (in_view b), snd (in_view b) @ [c])"
    using P b in_ok_len(1) [OF b(1)] by (simp add: in_view_def Let_def kw)
  show l: "unat (in_e (in_put c b) - in_r b) = Suc (unat (in_e b - in_r b))"
    using arg_cong [OF P(2), of length] b(2) by (simp add: kw)
  show "in_ok (in_put c b)" if "c \<noteq> 10"
    using b that P in_ok_len(1) [OF b(1)] l unfolding in_ok_def v by (simp add: kw)
qed

lemma in_commit:
  assumes "in_ring_ok b" and b'_def: "b' = b\<lparr>in_w := in_e b\<rparr>"
  shows "in_ok b'" "in_view b' = (in_all b, [])"
proof -
  have "in_all b' = in_all b" by (simp add: b'_def in_all_def)
  then show "in_view b' = (in_all b, [])" by (simp add: in_view_def) (simp add: b'_def)
  then show "in_ok b'" using assms(1) unfolding in_ok_def by (simp add: b'_def in_ring_ok_def)
qed

section \<open>The handler implements the editor\<close>

text \<open>What the handler keeps, beside the input buffer and the states of sleepers.\<close>

definition quiet :: "'a consst_scheme \<Rightarrow> 'a consst_scheme \<Rightarrow> bool" where
  "quiet s t \<longleftrightarrow> calm s t \<and> cga_inv t \<and> \<not> panicked t \<and> uart t = uart s \<and> com1_data t = com1_data s \<and> hist t = hist s"

lemma quiet_trans: "quiet s t \<Longrightarrow> quiet t u \<Longrightarrow> quiet s u"
  unfolding quiet_def by (auto intro: calm_trans)

lemma quiet_input [simp]: "quiet s (input_update f t) = quiet s t" "quiet (input_update f s) t = quiet s t"
  by (simp_all add: quiet_def cga_inv_def)

lemma wp_consputc_quiet:
  assumes "cga_inv s" "\<not> panicked s"
  shows "wp (consputc c) (\<lambda>_ t. quiet s t \<and> input t = input s) s"
  by (rule wp_mono [OF wp_consputc [OF assms]]) (use assms in \<open>auto simp: same_but_screen_def quiet_def calm_refl\<close>)

lemma wp_erase_char:
  assumes "cga_inv s" "\<not> panicked s"
  shows "wp erase_char (\<lambda>_ t. quiet s t \<and> input t = (input s)\<lparr>in_e := in_e (input s) - 1\<rparr>) s"
  using wp_consputc_quiet [of "s\<lparr>input := (input s)\<lparr>in_e := in_e (input s) - 1\<rparr>\<rparr>" BACKSPACE] assms
  by (simp add: erase_char_def wp cga_inv_def)

lemma wp_erase_line:
  fixes s :: "'a consst_scheme"
  assumes s: "cga_inv s" "\<not> panicked s" and b: "in_ok (input s)"
  shows "wp erase_line (\<lambda>_ t. quiet s t \<and> in_ok (input t) \<and> in_view (input t) = (fst (in_view (input s)), [])) s"
proof -
  let ?I = "\<lambda>_ t. quiet s t \<and> in_ok (input t) \<and> fst (in_view (input t)) = fst (in_view (input s))"
  let ?n = "\<lambda>t. length (snd (in_view (input t)))"
  have n: "?n t = unat (in_e (input t) - in_w (input t))" if "in_ok (input t)" for t :: "'a consst_scheme"
  proof -
    let ?b = "input t"
    have "unat (in_e ?b - in_w ?b) = unat (in_e ?b - in_r ?b) - unat (in_w ?b - in_r ?b)"
      using unat_sub [of "in_w ?b - in_r ?b" "in_e ?b - in_r ?b"] in_ok_len(1) [OF that] by (simp add: word_le_nat_alt)
    then show ?thesis by (simp add: in_view_def Let_def)
  qed
  have "wp (loop_fuel (unat (in_e (input s) - in_w (input s)) + 1) (\<lambda>_. bnd (gets input) (\<lambda>b.
      if in_e b \<noteq> in_w b \<and> in_last b \<noteq> 10 then thn erase_char (ret (Inl ())) else ret (Inr ()))) ())
    (\<lambda>_ t. quiet s t \<and> in_ok (input t) \<and> in_view (input t) = (fst (in_view (input s)), [])) s"
  proof (rule wp_loop_fuel [where I = ?I and \<mu> = "\<lambda>_. ?n"], goal_cases)
    case (3 y t)
    then have t: "cga_inv t" "\<not> panicked t" by (simp_all add: quiet_def)
    show ?case
    proof (cases "in_e (input t) = in_w (input t)")
      case True
      then show ?thesis using 3 in_line_empty [of "input t"] by (auto simp: wp prod_eq_iff)
    next
      case False
      note E = in_erase [OF _ False refl] in_line_empty [of "input t"]
      have "last (snd (in_view (input t))) \<noteq> 10" using 3 E(4) False unfolding in_ok_def by (metis last_in_set)
      with 3 E False show ?thesis
        by (auto simp: wp intro!: wp_mono [OF wp_erase_char [OF t]] intro: quiet_trans)
    qed
  qed (use s b n [OF b] in \<open>simp_all add: quiet_def calm_refl\<close>)
  then show ?thesis by (simp add: erase_line_def wp)
qed

lemma in_view_len:
  assumes "in_ok b"
  shows "length (fst (in_view b)) + length (snd (in_view b)) = unat (in_e b - in_r b)" "fst (in_view b) @ snd (in_view b) = in_all b"
  using in_ok_len(1) [OF assms] by (simp_all add: in_view_def Let_def)

lemma wp_commit:
  fixes s :: "'a consst_scheme"
  assumes "lock_free PtableLock s" "cli_ok s" "cga_inv s" "\<not> panicked s"
  shows "wp (thn (upd_in (\<lambda>b. b\<lparr>in_w := in_e b\<rparr>)) (wakeup ChInput)) (\<lambda>_ t. quiet s t \<and> input t = (input s)\<lparr>in_w := in_e (input s)\<rparr>) s"
  using lockround_calm [OF assms(1,2)] assms by (simp add: wp wp_wakeup quiet_def cga_inv_def)

lemma quiet_locks: "quiet s t \<Longrightarrow> lock_free lk t = lock_free lk s" "quiet s t \<Longrightarrow> cli_ok t = cli_ok s"
  by (simp_all add: quiet_def calm_locks calm_cli_ok)

text \<open>The two outcomes of typing a character into a buffer with room.\<close>

lemma typed:
  assumes b: "in_ok b" "unat (in_e b - in_r b) < INPUT_BUF"
  shows "c = 10 \<or> c = 4 \<or> Suc (unat (in_e b - in_r b)) = INPUT_BUF \<Longrightarrow> in_ok ((in_put c b)\<lparr>in_w := in_e (in_put c b)\<rparr>)
      \<and> in_view ((in_put c b)\<lparr>in_w := in_e (in_put c b)\<rparr>) = (fst (in_view b) @ snd (in_view b) @ [c], [])"
    "\<not> (c = 10 \<or> c = 4 \<or> Suc (unat (in_e b - in_r b)) = INPUT_BUF) \<Longrightarrow> in_ok (in_put c b)
      \<and> in_view (in_put c b) = (fst (in_view b), snd (in_view b) @ [c])"
proof -
  have r: "in_ring_ok b" using b(1) by (simp add: in_ok_def)
  have P: "in_ring_ok (in_put c b)" "in_all (in_put c b) = in_all b @ [c]"
    using iq.put_ok [OF r, of c] iq.put_contents [OF r, of c] b(2) by simp_all
  show "c = 10 \<or> c = 4 \<or> Suc (unat (in_e b - in_r b)) = INPUT_BUF \<Longrightarrow> in_ok ((in_put c b)\<lparr>in_w := in_e (in_put c b)\<rparr>)
      \<and> in_view ((in_put c b)\<lparr>in_w := in_e (in_put c b)\<rparr>) = (fst (in_view b) @ snd (in_view b) @ [c], [])"
    using in_commit [OF P(1) refl] P(2) in_view_len(2) [OF b(1)] by (simp flip: append_assoc)
  show "\<not> (c = 10 \<or> c = 4 \<or> Suc (unat (in_e b - in_r b)) = INPUT_BUF) \<Longrightarrow> in_ok (in_put c b)
      \<and> in_view (in_put c b) = (fst (in_view b), snd (in_view b) @ [c])"
    using in_put_view [OF b] by blast
qed

lemma wp_type_char:
  fixes s :: "'a consst_scheme"
  assumes k: "lock_free PtableLock s" "cli_ok s" and s: "cga_inv s" "\<not> panicked s" and b: "in_ok (input s)"
    and c: "c \<noteq> 21" "c \<noteq> 8" "c \<noteq> 127"
  shows "wp (type_char (uint c)) (\<lambda>_ t. quiet s t \<and> in_ok (input t) \<and> in_view (input t) = edit c (in_view (input s))) s"
proof -
  let ?b = "input s"
  obtain x where x: "x = (if c = 13 then 10 else c)" by simp
  let ?n = "unat (in_e ?b - in_r ?b)"
  have u: "uint c = 0 \<longleftrightarrow> c = 0" "uint x = 10 \<longleftrightarrow> x = 10" "uint x = 4 \<longleftrightarrow> x = 4" "uint c = 13 \<longleftrightarrow> c = 13"
    by (simp_all add: word_uint_eq_iff)
  have ux: "(if uint c = 13 then 10 else uint c) = uint x" unfolding u(4) x by simp
  have room: "in_e ?b - in_r ?b < of_nat INPUT_BUF \<longleftrightarrow> ?n < INPUT_BUF"
    by (simp add: word_less_nat_alt INPUT_BUF_def)
  have ed: "edit c (in_view ?b) = (if c = 0 \<or> INPUT_BUF \<le> ?n then in_view ?b
    else if x = 10 \<or> x = 4 \<or> Suc ?n = INPUT_BUF then (fst (in_view ?b) @ snd (in_view ?b) @ [x], [])
    else (fst (in_view ?b), snd (in_view ?b) @ [x]))"
    using c in_view_len(1) [OF b] by (simp add: edit_def x [symmetric] Let_def split_beta)
  show ?thesis
  proof (cases "c = 0 \<or> INPUT_BUF \<le> ?n")
    case True
    then show ?thesis using s b by (auto simp: type_char_def wp u room ed quiet_def calm_refl)
  next
    case False
    then have lt: "?n < INPUT_BUF" by simp
    let ?s = "s\<lparr>input := in_put x ?b\<rparr>"
    have "wp (consputc c') (\<lambda>_. wp (bnd (gets input) (\<lambda>b. whenk (x = 10 \<or> x = 4 \<or> in_e b = in_r b + of_nat INPUT_BUF)
        (thn (upd_in (\<lambda>b. b\<lparr>in_w := in_e b\<rparr>)) (wakeup ChInput))))
      (\<lambda>_ t. quiet s t \<and> in_ok (input t) \<and> in_view (input t) = edit c (in_view ?b))) ?s" for c'
    proof (rule wp_mono [OF wp_consputc_quiet], goal_cases)
      case (3 a t)
      then have q: "quiet s t" "input t = in_put x ?b" by simp_all
      have full: "in_e (input t) = in_r (input t) + of_nat INPUT_BUF \<longleftrightarrow> Suc ?n = INPUT_BUF"
        using ring_full [OF INPUT_BUF_dvd(2)] in_put_view(3) [OF b lt, of x] by (simp add: q(2)) (simp add: in_put_def)
      note T = typed [OF b lt, of x]
      have t: "lock_free PtableLock t" "cli_ok t" "cga_inv t" "\<not> panicked t"
        using quiet_locks [OF q(1)] k q(1) by (simp_all add: quiet_def)
      show ?case
      proof (cases "x = 10 \<or> x = 4 \<or> Suc ?n = INPUT_BUF")
        case True
        show ?thesis unfolding wp_bnd wp_gets full ed wp_whenk if_P [OF True] if_not_P [OF False]
          by (rule wp_mono [OF wp_commit [OF t]]) (use quiet_trans [OF q(1)] q(2) T(1) [OF True] in simp)
      next
        case no: False
        show ?thesis unfolding wp_bnd wp_gets full ed wp_whenk if_not_P [OF no] if_not_P [OF False]
          using q T(2) [OF no] by simp
      qed
    qed (use s in \<open>simp_all add: cga_inv_def\<close>)
    then show ?thesis using False unfolding type_char_def Let_def ux
      by (simp only: wp_bnd wp_gets wp_whenk wp_thn wp_modify u room word_of_int_uint) simp
  qed
qed

lemma wp_consoleintr_char:
  fixes s :: "'a consst_scheme"
  assumes k: "lock_free PtableLock s" "cli_ok s" and s: "cga_inv s" "\<not> panicked s" and b: "in_ok (input s)"
    and c: "c \<notin> {9, 16, 226}"
  shows "wp (consoleintr_char (uint c) ind) (\<lambda>_ t. quiet s t \<and> in_ok (input t) \<and> in_view (input t) = edit c (in_view (input s))) s"
proof -
  let ?Q = "\<lambda>_ t. quiet s t \<and> in_ok (input t) \<and> in_view (input t) = edit c (in_view (input s))"
  have u: "uint c = 16 \<longleftrightarrow> c = 16" "uint c = 21 \<longleftrightarrow> c = 21" "uint c = 8 \<longleftrightarrow> c = 8" "uint c = 127 \<longleftrightarrow> c = 127"
    "uint c = 9 \<longleftrightarrow> c = 9" "uint c = 226 \<longleftrightarrow> c = 226"
    by (simp_all add: word_uint_eq_iff)
  note split = consoleintr_char_def u wp_thn wp_ret
  consider (kill) "c = 21" | (bs) "c = 8 \<or> c = 127" | (other) "c \<noteq> 21" "c \<noteq> 8" "c \<noteq> 127" by blast
  then show ?thesis
  proof cases
    case kill
    have "wp erase_line ?Q s"
      by (rule wp_mono [OF wp_erase_line [OF s b]]) (simp add: kill edit_def split_beta)
    with kill show ?thesis by (simp add: split)
  next
    case bs
    have "wp (bnd (gets input) (\<lambda>b. whenk (in_e b \<noteq> in_w b) erase_char)) ?Q s"
    proof (cases "in_e (input s) = in_w (input s)")
      case True
      then have "snd (in_view (input s)) = []" using in_line_empty [OF b] by simp
      with True bs s b show ?thesis by (auto simp: wp quiet_def calm_refl edit_def split_beta prod_eq_iff)
    next
      case False
      have "wp erase_char ?Q s"
        by (rule wp_mono [OF wp_erase_char [OF s]]) (use in_erase [OF b False refl] bs in \<open>auto simp: edit_def split_beta\<close>)
      with False show ?thesis by (simp add: wp_bnd wp_gets wp_whenk)
    qed
    with bs show ?thesis by (auto simp: split)
  next
    case other
    with c wp_type_char [OF k s b other] show ?thesis by (simp add: split)
  qed
qed

lemma wp_uart_loop:
  fixes s :: "'a consst_scheme"
  assumes "lock_free PtableLock s" "cli_ok s" "cga_inv s" "\<not> panicked s" "in_ok (input s)" "uart s"
    and "com1_data s = cs" "list_all (\<lambda>c. c \<notin> {9, 16, 226}) cs"
  shows "wp (loop_fuel (Suc (length cs)) (\<lambda>ind. bnd uartgetc (\<lambda>c.
      if 0 \<le> c then bnd (consoleintr_char c ind) (\<lambda>ind. ret (Inl ind)) else ret (Inr ()))) ind)
    (\<lambda>_ t. calm s t \<and> cga_inv t \<and> \<not> panicked t \<and> uart t \<and> com1_data t = [] \<and> hist t = hist s
      \<and> in_ok (input t) \<and> in_view (input t) = fold edit cs (in_view (input s))) s"
  using assms
proof (induction cs arbitrary: s ind)
  case Nil
  then show ?case by (simp add: wp_loop_fuel_Suc uartgetc_def wp calm_refl)
next
  case (Cons c cs)
  let ?s = "s\<lparr>com1_data := cs\<rparr>"
  have h: "lock_free PtableLock ?s" "cli_ok ?s" "cga_inv ?s" "\<not> panicked ?s" "in_ok (input ?s)"
    using Cons.prems by (simp_all add: cga_inv_def)
  have c: "c \<notin> {9, 16, 226}" "list_all (\<lambda>c. c \<notin> {9, 16, 226}) cs" using Cons.prems(8) by simp_all
  let ?Q = "\<lambda>t. calm s t \<and> cga_inv t \<and> \<not> panicked t \<and> uart t \<and> com1_data t = [] \<and> hist t = hist s
      \<and> in_ok (input t) \<and> in_view (input t) = fold edit (c # cs) (in_view (input s))"
  have "wp (consoleintr_char (uint c) ind) (\<lambda>ind. wp (loop_fuel (Suc (length cs)) (\<lambda>ind. bnd uartgetc (\<lambda>c.
      if 0 \<le> c then bnd (consoleintr_char c ind) (\<lambda>ind. ret (Inl ind)) else ret (Inr ()))) ind) (\<lambda>_. ?Q)) ?s"
  proof (rule wp_mono [OF wp_consoleintr_char [OF h c(1)]], goal_cases)
    case (1 i t)
    then have q: "quiet ?s t" "in_ok (input t)" "in_view (input t) = edit c (in_view (input s))" by simp_all
    have t: "calm s t" "cga_inv t" "\<not> panicked t" "uart t" "com1_data t = cs" "hist t = hist s"
      using q(1) Cons.prems(6) by (simp_all add: quiet_def)
    show ?case
      by (rule wp_mono [OF Cons.IH [OF _ _ t(2,3) q(2) t(4,5) c(2)]])
        (use Cons.prems(1,2) calm_locks [OF t(1)] calm_cli_ok [OF t(1)] t q calm_trans [OF t(1)] in auto)
  qed
  then show ?case using Cons.prems(6,7)
    by (simp add: wp_loop_fuel_Suc [of "Suc (length cs)"] uartgetc_def wp)
qed

text \<open>C32. The interrupt handler of the serial line is a line editor. When characters other than
  those of the history and of the process listing have arrived, it takes all of them, and the bytes
  ready for readers and the line being typed become those of the abstract editor: characters are
  appended while there is room, backspace and kill-line act on the line only, and a line is handed over
  at a newline, at an end-of-file mark or when the buffer is full.\<close>

theorem uartintr_edits:
  assumes "lock_free InputLock s" "lock_free PtableLock s" "cli_ok s" "cga_inv s" "\<not> panicked s" "in_ok (input s)" "uart s"
    and "list_all (\<lambda>c. c \<notin> {9, 16, 226}) (com1_data s)"
  shows "wp (uartintr (Suc (length (com1_data s)))) (\<lambda>_ t. in_ok (input t)
      \<and> in_view (input t) = fold edit (com1_data s) (in_view (input s))
      \<and> com1_data t = [] \<and> hist t = hist s \<and> calm s t) s"
proof -
  let ?s = "acq InputLock s"
  have h: "lock_free PtableLock ?s" "cli_ok ?s" "cga_inv ?s" "\<not> panicked ?s" "in_ok (input ?s)" "uart ?s"
    "com1_data ?s = com1_data s"
    using assms acq_cli_ok [OF assms(3)] by (simp_all add: cga_inv_def)
  show ?thesis unfolding uartintr_def consoleintr_def unfolding wp_acquire_thn [OF assms(1)] unfolding wp_thn
    by (rule wp_mono [OF wp_uart_loop [OF h assms(8)]])
      (auto simp: wp_release_calm [OF _ assms(3)] intro: calm_section [OF _ assms(1,3)])
qed

section \<open>Reading a line\<close>

lemma in_pop_view:
  assumes b: "in_ok b" and v: "fst (in_view b) = c # cs"
  shows "in_front b = c" "in_r b \<noteq> in_w b" "in_ok (in_pop b)" "in_view (in_pop b) = (cs, snd (in_view b))"
proof -
  let ?k = "unat (in_w b - in_r b)"
  have r: "in_ring_ok b" "?k \<le> unat (in_e b - in_r b)" using b by (simp_all add: in_ok_def)
  have t: "take ?k (in_all b) = c # cs" "snd (in_view b) = drop ?k (in_all b)" using v by (simp_all add: in_view_def Let_def)
  then have k: "?k = Suc (length cs)" using r(2) by (metis length_Cons length_in_all length_take min.absorb2)
  then show wr: "in_r b \<noteq> in_w b" by auto
  have ne: "in_all b \<noteq> []" using t(1) by auto
  note P = iq.pop_ok [OF r(1) ne] iq.pop_contents [OF r(1) ne]
  have k': "unat (in_w b - (in_r b + 1)) = length cs" using ring_pop(2) [OF wr [symmetric]] k by simp
  show "in_front b = c" using t(1) P(2) k by simp
  show v': "in_view (in_pop b) = (cs, snd (in_view b))"
    using t P(2) k k' by (simp add: in_view_def in_pop_def Let_def)
  have "unat (in_e b - (in_r b + 1)) = unat (in_e b - in_r b) - 1"
    using ring_pop(2) [of "in_e b" "in_r b"] r(2) k by (metis Suc_neq_Zero diff_self le_zero_eq unat_0)
  then show "in_ok (in_pop b)" using b r(2) k k' P(1) v' unfolding in_ok_def by (simp add: in_pop_def)
qed

text \<open>The history while a line is read. The next line goes to row \<open>hist_next h\<close>: a full history starts over at
  row 0, which the code does at the first byte of the line. \<open>hist_has l h\<close> when the bytes \<open>l\<close> of the line are in
  that row.\<close>

definition hist_next :: "history \<Rightarrow> int" where
  "hist_next h = (if HISTORY_SIZE \<le> indexToDim1 h then 0 else indexToDim1 h)"

definition hist_has :: "u8 list \<Rightarrow> history \<Rightarrow> bool" where
  "hist_has l h \<longleftrightarrow> 0 \<le> indexToDim1 h \<and> indexToDim2 h = int (length l) \<and> (l \<noteq> [] \<longrightarrow> indexToDim1 h < HISTORY_SIZE)
     \<and> (\<forall>j < length l. prevCmds h (nat (hist_next h)) j = l ! j)"

text \<open>The history after it: the row is the line, the next recall starts there, recall is enabled by one more line,
  and the other rows are kept.\<close>

definition hist_recorded :: "u8 list \<Rightarrow> history \<Rightarrow> history \<Rightarrow> bool" where
  "hist_recorded l h h' \<longleftrightarrow> indexToDim1 h' = hist_next h + 1 \<and> indexToDim2 h' = 0 \<and> currInd1 h' = hist_next h
     \<and> hasInserted h' = s32 (hasInserted h + 1)
     \<and> map (prevCmds h' (nat (hist_next h))) [0..<Suc (length l)] = l @ [0]
     \<and> (\<forall>i. i \<noteq> nat (hist_next h) \<longrightarrow> prevCmds h' i = prevCmds h i)"

lemma hist_next_bounds: "0 \<le> indexToDim1 h \<Longrightarrow> 0 \<le> hist_next h \<and> hist_next h < HISTORY_SIZE"
  by (simp add: hist_next_def HISTORY_SIZE_def)

lemma hist_char:
  assumes "hist_has l h" "length l < 100" "c \<noteq> 4" "c \<noteq> 10"
  obtains h' where "consoleread_hist c h = Some h'" "hist_has (l @ [c]) h'" "hist_next h' = hist_next h"
    "hasInserted h' = hasInserted h" "\<forall>i. i \<noteq> nat (hist_next h) \<longrightarrow> prevCmds h' i = prevCmds h i"
proof -
  have d: "0 \<le> hist_next h" "hist_next h < HISTORY_SIZE" using hist_next_bounds assms(1) by (auto simp: hist_has_def)
  let ?h = "h\<lparr>prevCmds := (prevCmds h)(nat (hist_next h) := (prevCmds h (nat (hist_next h)))(length l := c)),
    indexToDim1 := hist_next h, indexToDim2 := int (length l) + 1\<rparr>"
  have "consoleread_hist c h = Some ?h"
    using assms d by (simp add: consoleread_hist_def hist_set_def hist_has_def hist_next_def Let_def)
  moreover have "hist_next ?h = hist_next h" using d by (simp add: hist_next_def)
  moreover have "hist_has (l @ [c]) ?h"
    using assms(1) d calculation(2) by (auto simp: hist_has_def nth_append less_Suc_eq)
  ultimately show thesis by (intro that [of ?h]) simp_all
qed

lemma hist_newline:
  assumes "hist_has l h" "length l < 100" "indexToDim1 h < HISTORY_SIZE"
  obtains h' where "consoleread_hist 10 h = Some h'" "hist_recorded l h h'"
proof -
  have d: "hist_next h = indexToDim1 h" "0 \<le> indexToDim1 h" using assms(1,3) by (simp_all add: hist_next_def hist_has_def)
  let ?p = "(prevCmds h)(nat (indexToDim1 h) := (prevCmds h (nat (indexToDim1 h)))(length l := 0))"
  let ?h = "h\<lparr>prevCmds := ?p, indexToDim2 := 0, currInd1 := indexToDim1 h, indexToDim1 := indexToDim1 h + 1,
    hasInserted := s32 (hasInserted h + 1)\<rparr>"
  have "consoleread_hist 10 h = Some ?h"
    using assms d by (simp add: consoleread_hist_def hist_set_def hist_has_def)
  moreover have "map (?p (nat (indexToDim1 h))) [0..<Suc (length l)] = l @ [0]"
    using assms(1) d by (intro nth_equalityI) (auto simp: hist_has_def nth_append less_Suc_eq simp del: upt_Suc)
  ultimately show thesis using d by (intro that [of ?h]) (simp_all add: hist_recorded_def)
qed

lemma wp_consoleread_round:
  assumes "in_r (input s) \<noteq> in_w (input s)" "int (length dst) < target" "in_front (input s) = c" "c \<noteq> 4"
    "consoleread_hist c (hist s) = Some h"
  shows "wp (consoleread_round (Suc g) env target dst) Q s =
    Q (if c = 10 then Inr (Some (dst @ [c])) else Inl (dst @ [c])) (s\<lparr>input := in_pop (input s), hist := h\<rparr>)"
  using assms by (simp add: consoleread_round_def consoleread_wait_def wp_loop_fuel_Suc wp Let_def)

lemma wp_consoleread_loop:
  fixes s :: "'a consst_scheme"
  assumes "in_ok (input s)" "fst (in_view (input s)) = l @ 10 # rest" "4 \<notin> set l" "10 \<notin> set l"
    and "int (length dst + length l) < target" "length dst + length l < 100" "hist_has dst (hist s)" "length l < f"
    and "dst @ l = [] \<Longrightarrow> indexToDim1 (hist s) < HISTORY_SIZE"
  shows "wp (loop_fuel f (consoleread_round (Suc g) env target) dst) (\<lambda>r t. r = Some (dst @ l @ [10])
    \<and> in_ok (input t) \<and> in_view (input t) = (rest, snd (in_view (input s))) \<and> hist_recorded (dst @ l) (hist s) (hist t)
    \<and> t = s\<lparr>input := input t, hist := hist t\<rparr>) s"
  using assms
proof (induction l arbitrary: s dst f)
  case Nil
  obtain f' where f: "f = Suc f'" using Nil.prems(8) by (cases f) simp_all
  have "length dst < 100" "indexToDim1 (hist s) < HISTORY_SIZE" using Nil.prems(6,7,9) by (auto simp: hist_has_def)
  from hist_newline [OF Nil.prems(7) this] obtain h where h: "consoleread_hist 10 (hist s) = Some h" "hist_recorded dst (hist s) h" .
  have v: "fst (in_view (input s)) = 10 # rest" using Nil.prems(2) by simp
  note P = in_pop_view [OF Nil.prems(1) v]
  have "int (length dst) < target" using Nil.prems(5) by simp
  note R = wp_consoleread_round [OF P(2) this P(1) _ h(1)]
  show ?case using h(2) P(3,4) by (simp add: f wp_loop_fuel_Suc R)
next
  case (Cons c l)
  obtain f' where f: "f = Suc f'" using Cons.prems(8) by (cases f) simp_all
  have "length dst < 100" "c \<noteq> 4" "c \<noteq> 10" using Cons.prems(3,4,6) by auto
  from hist_char [OF Cons.prems(7) this] obtain h where h: "consoleread_hist c (hist s) = Some h" "hist_has (dst @ [c]) h"
    "hist_next h = hist_next (hist s)" "hasInserted h = hasInserted (hist s)"
    "\<forall>i. i \<noteq> nat (hist_next (hist s)) \<longrightarrow> prevCmds h i = prevCmds (hist s) i" .
  have v: "fst (in_view (input s)) = c # l @ 10 # rest" using Cons.prems(2) by simp
  note P = in_pop_view [OF Cons.prems(1) v]
  let ?s = "s\<lparr>input := in_pop (input s), hist := h\<rparr>"
  have "wp (loop_fuel f' (consoleread_round (Suc g) env target) (dst @ [c])) (\<lambda>r t. r = Some ((dst @ [c]) @ l @ [10])
    \<and> in_ok (input t) \<and> in_view (input t) = (rest, snd (in_view (input ?s))) \<and> hist_recorded ((dst @ [c]) @ l) (hist ?s) (hist t)
    \<and> t = ?s\<lparr>input := input t, hist := hist t\<rparr>) ?s"
    by (rule Cons.IH) (use Cons.prems h(2) P f in simp_all)
  then have "wp (loop_fuel f' (consoleread_round (Suc g) env target) (dst @ [c])) (\<lambda>r t. r = Some (dst @ (c # l) @ [10])
    \<and> in_ok (input t) \<and> in_view (input t) = (rest, snd (in_view (input s))) \<and> hist_recorded (dst @ c # l) (hist s) (hist t)
    \<and> t = s\<lparr>input := input t, hist := hist t\<rparr>) ?s"
    by (rule wp_mono) (use P h in \<open>auto simp: hist_recorded_def\<close>)
  moreover have "int (length dst) < target" using Cons.prems(5) by simp
  note R = wp_consoleread_round [OF P(2) this P(1) \<open>c \<noteq> 4\<close> h(1)]
  ultimately show ?case using \<open>c \<noteq> 10\<close> by (simp add: f wp_loop_fuel_Suc R)
qed

text \<open>The console gives up the lock of its inode while it waits. For an inode that is in memory, taking
  it back needs no disk access.\<close>

lemma upd_ino_more [simp]: "fsst.more (upd_ino ip f s) = fsst.more s"
  by (simp add: upd_ino_def)

lemma wp_iunlock:
  fixes s :: "'a fsst_scheme"
  assumes s: "lock_free IcacheLock s" "lock_free PtableLock s" "cli_ok s"
    and x: "i_flags (icache s ip) AND I_BUSY \<noteq> 0" "1 \<le> i_ref (icache s ip)"
  shows "wp (iunlock ip) (\<lambda>_ t. calm s t \<and> ptab t = wake_tab (ChInode ip) (ptab s) \<and> fsst.more t = fsst.more s
    \<and> icache t = (icache s)(ip := (icache s ip)\<lparr>i_flags := i_flags (icache s ip) AND NOT I_BUSY\<rparr>)) s"
proof -
  let ?t = "upd_ino ip (\<lambda>x. x\<lparr>i_flags := i_flags x AND NOT I_BUSY\<rparr>) (acq IcacheLock s)"
  have c: "calm (acq IcacheLock s) ?t" by (simp add: calm_refl)
  have ne: "IcacheLock \<noteq> PtableLock" by simp
  note E = section_wakeup [OF s ne c refl, of "ChInode ip"]
  have eq: "wp (iunlock ip) Q s = wp (thn (wakeup (ChInode ip)) (thn (release IcacheLock) (ret ()))) Q ?t" for Q
    using x by (simp add: iunlock_def wp wp_acquire [OF s(1)])
  show ?thesis unfolding eq E(1) wp_ret using E(2) by simp
qed

lemma wp_ilock_valid:
  fixes s :: "'a fsst_scheme"
  assumes s: "lock_free IcacheLock s" "cli_ok s"
    and x: "i_flags (icache s ip) AND I_BUSY = 0" "i_flags (icache s ip) AND I_VALID \<noteq> 0" "1 \<le> i_ref (icache s ip)"
  shows "wp (ilock (Suc n) env ip) (\<lambda>_ t. calm s t \<and> ptab t = ptab s \<and> fsst.more t = fsst.more s
    \<and> icache t = (icache s)(ip := (icache s ip)\<lparr>i_flags := i_flags (icache s ip) OR I_BUSY\<rparr>)) s"
proof -
  let ?t = "upd_ino ip (\<lambda>x. x\<lparr>i_flags := i_flags x OR I_BUSY\<rparr>) (acq IcacheLock s)"
  have c: "calm (acq IcacheLock s) ?t" by (simp add: calm_refl)
  have v: "(i_flags (icache s ip) OR I_BUSY) AND I_VALID \<noteq> 0"
    using x(2) by (simp add: bit.conj_disj_distrib2 I_BUSY_def I_VALID_def)
  show ?thesis using x v wp_release_calm [OF c s(2)] calm_section [OF c s]
    by (simp add: ilock_def ilock_load_def wp wp_acquire [OF s(1)] wp_loop_fuel_Suc)
qed

lemma consst_more: "fsst.more t = fsst.more s \<Longrightarrow> input t = input s \<and> hist t = hist s"
  by (cases s, cases t) simp

text \<open>C33. Reading a line: when a whole line of fewer than 100 bytes is ready and fits into the request, \<^verbatim>\<open>consoleread\<close>
  returns it with its newline, leaves the bytes after it and the line being typed alone, and records it in the
  history: in the next row, or in row 0 when all rows were in use, as the line that is recalled next, with one
  more line counted as inserted. The lock of the inode is given up and taken back. Excluded is an empty line
  when all rows are in use, for which the code writes beyond the last row.\<close>

theorem consoleread_line:
  assumes s: "proc_ctx i s" and b: "in_ok (input s)" "fst (in_view (input s)) = l @ 10 # rest" "4 \<notin> set l" "10 \<notin> set l"
    and n: "int (length l) < sint cnt" "length l < 100"
    and h: "0 \<le> indexToDim1 (hist s)" "indexToDim2 (hist s) = 0" "l \<noteq> [] \<or> indexToDim1 (hist s) < HISTORY_SIZE"
    and x: "i_flags (icache s ip) = I_BUSY OR I_VALID" "1 \<le> i_ref (icache s ip)"
  shows "wp (consoleread (Suc f) env ip cnt) (\<lambda>r t. r = (int (length l) + 1, l @ [10])
    \<and> in_view (input t) = (rest, snd (in_view (input s))) \<and> in_ok (input t) \<and> hist_recorded l (hist s) (hist t)
    \<and> icache t = icache s \<and> proc_ctx i t) s"
proof -
  have fl: "I_BUSY OR I_VALID AND I_BUSY \<noteq> 0" "(I_BUSY OR I_VALID) AND NOT I_BUSY = I_VALID" "I_VALID AND I_BUSY = 0"
    "I_VALID AND I_VALID \<noteq> 0" "I_VALID OR I_BUSY = I_BUSY OR I_VALID"
    by (simp_all add: I_BUSY_def I_VALID_def)
  let ?Q = "\<lambda>r t. r = (int (length l) + 1, l @ [10]) \<and> in_view (input t) = (rest, snd (in_view (input s)))
    \<and> in_ok (input t) \<and> hist_recorded l (hist s) (hist t) \<and> icache t = icache s \<and> proc_ctx i t"
  have u: "wp (iunlock ip) (\<lambda>_ t. calm s t \<and> ptab t = wake_tab (ChInode ip) (ptab s) \<and> fsst.more t = fsst.more s
    \<and> icache t = (icache s)(ip := (icache s ip)\<lparr>i_flags := I_VALID\<rparr>)) s"
    using wp_iunlock [of s ip] proc_ctx_lock [OF s] x fl by simp
  show ?thesis unfolding consoleread_def
  proof (rule wp_thnI [OF u], goal_cases)
    case (1 t)
    then have t: "proc_ctx i t" "input t = input s" "hist t = hist s"
      using proc_ctx_wake [OF s] consst_more [of t s] by auto
    let ?t = "acq InputLock t"
    have L: "wp (loop_fuel (nat (sint cnt) + 1) (consoleread_round (Suc f) env (sint cnt)) []) (\<lambda>r t. r = Some ([] @ l @ [10])
      \<and> in_ok (input t) \<and> in_view (input t) = (rest, snd (in_view (input ?t))) \<and> hist_recorded ([] @ l) (hist ?t) (hist t)
      \<and> t = ?t\<lparr>input := input t, hist := hist t\<rparr>) ?t"
      by (rule wp_consoleread_loop) (use b n h t in \<open>auto simp: hist_has_def\<close>)
    show ?case unfolding wp_acquire_thn [OF proc_ctx_lock(1) [OF t(1)]]
    proof (rule wp_bndI [OF L], goal_cases)
      case (1 r u)
      then have u: "u = ?t\<lparr>input := input u, hist := hist u\<rparr>" "r = Some (l @ [10])" by simp_all
      have c: "calm ?t u" by (subst u(1)) (simp add: calm_refl)
      let ?v = "rel InputLock u"
      have v: "calm t ?v" by (rule calm_section [OF c]) (use t(1) in simp_all)
      have k: "ptab ?v = ptab t" "icache ?v = icache t" by (simp, subst u(1), simp)+
      have pv: "proc_ctx i ?v" by (rule proc_ctx_calm [OF t(1) v]) (use t(1) k(1) in \<open>simp_all add: proc_ctx_def\<close>)
      have ic: "icache ?v = (icache s)(ip := (icache s ip)\<lparr>i_flags := I_VALID\<rparr>)"
        using k(2) \<open>calm s t \<and> _\<close> by simp
      have xs: "(icache s ip)\<lparr>i_flags := I_BUSY OR I_VALID\<rparr> = icache s ip" using x(1) by (cases "icache s ip") simp
      have "wp (ilock (Suc f) env ip) (\<lambda>_. ?Q (int (length (l @ [10])), l @ [10])) ?v"
      proof (rule wp_mono [OF wp_ilock_valid], goal_cases)
        case (6 a w)
        then have "proc_ctx i w" by (intro proc_ctx_calm [OF pv]) (use pv in \<open>simp_all add: proc_ctx_def\<close>)
        moreover have "icache w = icache s" using 6 ic fl(5) xs by (simp add: fun_eq_iff)
        ultimately show ?case using 1 6 t(2,3) consst_more [of w ?v] by simp
      qed (use pv x(2) fl ic in simp_all)
      then show ?case unfolding u(2) option.case wp_thn wp_release_calm [OF c proc_ctx_lock(2) [OF t(1)]] wp_ret .
    qed
  qed
qed

text \<open>A state for examples: the history is full, the line \<^verbatim>\<open>ls\<close> is ready, \<^verbatim>\<open>c\<close> is being typed, and more is
  arriving at the serial port.\<close>

definition in_ex :: inbuf where
  "in_ex = \<lparr>in_data = [108, 115, 10, 99] @ replicate 124 0, in_r = 0, in_w = 3, in_e = 4\<rparr>"

definition hist_ex :: history where
  "hist_ex = \<lparr>prevCmds = \<lambda>_ _. 0, indexToDim1 = 16, indexToDim2 = 0, currInd1 = 15, hasInserted = 16\<rparr>"

definition cons_st :: consst where
  "cons_st = (devst.extend dev_st (consst.fields in_ex hist_ex 0 [] [120, 8, 97, 116, 13]))\<lparr>
     icache := (icache dev_st)(5 := (icache dev_st 5)\<lparr>i_flags := I_BUSY OR I_VALID, i_ref := 1\<rparr>)\<rparr>"

lemma cons_st_sel: "proc_ctx 2 cons_st" "input cons_st = in_ex" "hist cons_st = hist_ex" "com1_data cons_st = [120, 8, 97, 116, 13]"
  "i_flags (icache cons_st 5) = I_BUSY OR I_VALID" "i_ref (icache cons_st 5) = 1" "cga_inv cons_st" "\<not> panicked cons_st" "uart cons_st"
  by (simp_all add: cons_st_def devst.defs consst.defs dev_st_def file_st_def filest.defs pipest.defs fsst_boot_def fsst.defs
      idest_boot_def idest.defs pstate_boot_def pstate.defs boot_defs proc_ctx_def lock_free_def upd_cpu_def upd_proc_def NPROC_def
      proc_zero_def cga_inv_def)

lemma in_ex_view: "in_view in_ex = ([108, 115, 10], [99])" "in_ok in_ex"
proof -
  show v: "in_view in_ex = ([108, 115, 10], [99])" by code_simp
  show "in_ok in_ex" unfolding in_ok_def v by (simp add: in_ring_ok_def ring_ok_def in_ex_def INPUT_BUF_def)
qed

lemma uartintr_edits_witness:
  "wp (uartintr 6) (\<lambda>_ t. in_ok (input t) \<and> in_view (input t) = ([108, 115, 10, 99, 97, 116, 10], []) \<and> com1_data t = []
      \<and> hist t = hist cons_st \<and> calm cons_st t) cons_st"
proof -
  have "fold edit [120, 8, 97, 116, 13] (in_view in_ex) = ([108, 115, 10, 99, 97, 116, 10], [])" unfolding in_ex_view by code_simp
  moreover have "wp (uartintr (Suc (length (com1_data cons_st)))) (\<lambda>_ t. in_ok (input t)
      \<and> in_view (input t) = fold edit (com1_data cons_st) (in_view (input cons_st))
      \<and> com1_data t = [] \<and> hist t = hist cons_st \<and> calm cons_st t) cons_st"
    by (rule uartintr_edits) (use cons_st_sel in_ex_view proc_ctx_lock [OF cons_st_sel(1)] in simp_all)
  ultimately show ?thesis by (simp add: cons_st_sel eval_nat_numeral)
qed

lemma consoleread_line_witness:
  "wp (consoleread 1 hang 5 80) (\<lambda>r t. r = (3, [108, 115, 10])
    \<and> in_view (input t) = ([], [99]) \<and> in_ok (input t) \<and> hist_recorded [108, 115] hist_ex (hist t)
    \<and> icache t = icache cons_st \<and> proc_ctx 2 t) cons_st"
proof -
  have "wp (consoleread (Suc 0) hang 5 80) (\<lambda>r t. r = (int (length [108, 115 :: u8]) + 1, [108, 115] @ [10])
    \<and> in_view (input t) = ([], snd (in_view (input cons_st))) \<and> in_ok (input t) \<and> hist_recorded [108, 115] (hist cons_st) (hist t)
    \<and> icache t = icache cons_st \<and> proc_ctx 2 t) cons_st"
    by (rule consoleread_line [OF cons_st_sel(1)])
      (simp_all add: cons_st_sel(2-) in_ex_view hist_ex_def HISTORY_SIZE_def)
  then show ?thesis by (simp add: cons_st_sel(2-) in_ex_view)
qed

end
