(* ===== verification/Syscall.thy ===== *)
theory Syscall
  imports Console
begin

text \<open>
  System call arguments (\<^verbatim>\<open>syscall.c\<close>) and the system calls on processes
  (\<^verbatim>\<open>sysproc.c\<close>).

  The kernel reads the arguments through the page table of the process, which is the one the
  processor uses; an address without a page is a fault in kernel mode, which ends in
  \<^verbatim>\<open>panic("trap")\<close>.

  Shown: \<^verbatim>\<open>fetchstr\<close> accepts exactly the strings that end within the process and returns
  them; \<^verbatim>\<open>argint\<close> reads the word at its place on the user stack.
\<close>

section \<open>User memory\<close>

definition upage :: "u32 \<Rightarrow> ('a kmem_scheme, u32) kop" where
  "upage va =
    bnd (gets (\<lambda>s. vtrans (pmem s) (cr3 (my_cpu s)) va)) (\<lambda>r.
    case r of None \<Rightarrow> panic ''trap'' | Some a \<Rightarrow> ret a)"

definition uload :: "u32 \<Rightarrow> ('a kmem_scheme, u8) kop" where
  "uload va = bnd (upage va) (\<lambda>a. gets (\<lambda>s. pmem s a))"

definition ustore :: "u32 \<Rightarrow> u8 \<Rightarrow> ('a kmem_scheme, unit) kop" where
  "ustore va c = bnd (upage va) (\<lambda>a. upd_mem (\<lambda>m. m(a := c)))"

definition ustores :: "u32 \<Rightarrow> u8 list \<Rightarrow> ('a kmem_scheme, unit) kop" where
  "ustores va bs = for_each [0..<length bs] (\<lambda>k. ustore (va + of_nat k) (bs ! k))"

primrec uloads :: "u32 \<Rightarrow> nat \<Rightarrow> ('a kmem_scheme, u8 list) kop" where
  "uloads va 0 = ret []"
| "uloads va (Suc n) = bnd (uload va) (\<lambda>c. bnd (uloads (va + 1) n) (\<lambda>cs. ret (c # cs)))"

definition uload32 :: "u32 \<Rightarrow> ('a kmem_scheme, u32) kop" where
  "uload32 va = bnd (uloads va 4) (\<lambda>bs. ret (word32 bs))"

definition ustore32 :: "u32 \<Rightarrow> u32 \<Rightarrow> ('a kmem_scheme, unit) kop" where
  "ustore32 va v = ustores va (bytes32 v)"

section \<open>Arguments\<close>

text \<open>\<open>None\<close> stands for the result \<open>-1\<close>.\<close>

definition fetchint :: "nat \<Rightarrow> u32 \<Rightarrow> ('a pstate_scheme, u32 option) kop" where
  "fetchint p addr =
    bnd (gets (\<lambda>s. p_sz (ptab s p))) (\<lambda>sz.
    if sz \<le> addr \<or> sz < addr + 4 then ret None
    else bnd (uload32 addr) (\<lambda>v. ret (Some v)))"

text \<open>The string with its terminating zero.\<close>

definition fetchstr :: "nat \<Rightarrow> u32 \<Rightarrow> ('a pstate_scheme, u8 list option) kop" where
  "fetchstr p addr =
    bnd (gets (\<lambda>s. p_sz (ptab s p))) (\<lambda>sz.
    if sz \<le> addr then ret None
    else loop_fuel (unat (sz - addr) + 1) (\<lambda>str.
      let s = addr + of_nat (length str) in
      if s < sz then
        bnd (uload s) (\<lambda>c.
        if c = 0 then ret (Inr (Some (str @ [0]))) else ret (Inl (str @ [c])))
      else ret (Inr None)) [])"

definition argint :: "nat \<Rightarrow> ('a pstate_scheme, u32 option) kop" where
  "argint n =
    bnd curproc (\<lambda>i.
    bnd (gets (\<lambda>s. tf_esp (get_tf (pmem s) (p_tf (ptab s i))))) (\<lambda>esp.
    fetchint i (esp + 4 + 4 * of_nat n)))"

definition argptr :: "nat \<Rightarrow> int \<Rightarrow> ('a pstate_scheme, u32 option) kop" where
  "argptr n len =
    bnd (argint n) (\<lambda>r.
    case r of
      None \<Rightarrow> ret None
    | Some a \<Rightarrow>
        bnd curproc (\<lambda>i.
        bnd (gets (\<lambda>s. p_sz (ptab s i))) (\<lambda>sz.
        if sz \<le> a \<or> sz \<le> a + word_of_int len then ret None
        else ret (Some a))))"

definition argstr :: "nat \<Rightarrow> ('a pstate_scheme, u8 list option) kop" where
  "argstr n =
    bnd (argint n) (\<lambda>r.
    case r of
      None \<Rightarrow> ret None
    | Some a \<Rightarrow> bnd curproc (\<lambda>i. fetchstr i a))"

text \<open>The pattern \<^verbatim>\<open>if(arg...(n, &x) < 0) return -1;\<close>.\<close>

definition with_arg :: "('s, 'b option) kop \<Rightarrow> ('b \<Rightarrow> ('s, int) kop) \<Rightarrow> ('s, int) kop" where
  "with_arg a k = bnd a (\<lambda>r. case r of None \<Rightarrow> ret (- 1) | Some x \<Rightarrow> k x)"

section \<open>System calls on processes\<close>

definition sys_fork :: "kimage \<Rightarrow> ('a filest_scheme, int) kop" where
  "sys_fork ki = fork ki"

definition sys_exit :: "nat \<Rightarrow> ('a filest_scheme, unit) kop \<Rightarrow> ('a filest_scheme, int) kop" where
  "sys_exit n env = thn (exit n env) (ret 0)"

definition sys_wait :: "nat \<Rightarrow> ('a pstate_scheme, unit) kop \<Rightarrow> ('a pstate_scheme, int) kop" where
  "sys_wait n env = wait n env"

text \<open>The two addresses are not checked.\<close>

definition sys_wait2 :: "nat \<Rightarrow> ('a pstate_scheme, unit) kop \<Rightarrow> ('a pstate_scheme, int) kop" where
  "sys_wait2 n env =
    with_arg (argint 0) (\<lambda>wt.
    with_arg (argint 1) (\<lambda>rt.
    wait2 n env (\<lambda>w r. seqs [ustore32 wt (word_of_int w), ustore32 rt (word_of_int r)])))"

definition sys_nice :: "('a pstate_scheme, int) kop" where
  "sys_nice = nice"

definition sys_kill :: "('a pstate_scheme, int) kop" where
  "sys_kill = with_arg (argint 0) (\<lambda>pid. kill (sint pid))"

definition sys_getpid :: "('a pstate_scheme, int) kop" where
  "sys_getpid = bnd curproc (\<lambda>i. gets (\<lambda>s. p_pid (ptab s i)))"

definition sys_sbrk :: "u32 \<Rightarrow> ('a pstate_scheme, int) kop" where
  "sys_sbrk ts =
    with_arg (argint 0) (\<lambda>n.
    bnd curproc (\<lambda>i.
    bnd (gets (\<lambda>s. p_sz (ptab s i))) (\<lambda>addr.
    bnd (growproc ts (sint n)) (\<lambda>r.
    if r < 0 then ret (- 1) else ret (sint addr)))))"

text \<open>The comparison is unsigned.\<close>

definition sys_sleep_round ::
  "('a pstate_scheme, unit) kop \<Rightarrow> u32 \<Rightarrow> u32 \<Rightarrow> ('a pstate_scheme, unit + int) kop" where
  "sys_sleep_round env n ticks0 =
    bnd (gets ticks) (\<lambda>t.
    if t - ticks0 < n then
      bnd killed (\<lambda>k.
      if k then thn (release TicksLock) (ret (Inr (- 1)))
      else thn (sleep env ChTicks (Some TicksLock)) (ret (Inl ())))
    else thn (release TicksLock) (ret (Inr 0)))"

definition sys_sleep :: "nat \<Rightarrow> ('a pstate_scheme, unit) kop \<Rightarrow> ('a pstate_scheme, int) kop" where
  "sys_sleep fuel env =
    with_arg (argint 0) (\<lambda>n.
    thn (acquire TicksLock) (
    bnd (gets ticks) (\<lambda>ticks0.
    loop_fuel fuel (\<lambda>_. sys_sleep_round env n ticks0) ())))"

definition sys_uptime :: "('a pstate_scheme, int) kop" where
  "sys_uptime =
    thn (acquire TicksLock) (
    bnd (gets ticks) (\<lambda>xticks.
    thn (release TicksLock) (
    ret (sint xticks))))"

section \<open>Strings from user memory\<close>

text \<open>The byte at a user address, and the bytes of a range.\<close>

definition ubyte :: "'a kmem_scheme \<Rightarrow> u32 \<Rightarrow> u8" where
  "ubyte s a = pmem s (the (vtrans (pmem s) (cr3 (my_cpu s)) a))"

definition ubytes :: "'a kmem_scheme \<Rightarrow> u32 \<Rightarrow> nat \<Rightarrow> u8 list" where
  "ubytes s a n = map (\<lambda>k. ubyte s (a + of_nat k)) [0..<n]"

definition umapped :: "'a kmem_scheme \<Rightarrow> u32 \<Rightarrow> bool" where
  "umapped s sz \<longleftrightarrow> (\<forall>a < sz. vtrans (pmem s) (cr3 (my_cpu s)) a \<noteq> None)"

lemma wp_uload: "vtrans (pmem s) (cr3 (my_cpu s)) a \<noteq> None \<Longrightarrow> wp (uload a) Q s = Q (ubyte s a) s"
  by (auto simp: uload_def upage_def wp ubyte_def split: option.split)

lemma takeWhile_take:
  assumes "k < length xs" "xs ! k = y" "y \<notin> set (take k xs)"
  shows "takeWhile (\<lambda>x. x \<noteq> y) xs = take k xs" "y \<in> set xs"
proof -
  have "takeWhile (\<lambda>x. x \<noteq> y) (take k xs @ xs ! k # drop (Suc k) xs) = take k xs"
    using assms by (subst takeWhile_append2) auto
  then show "takeWhile (\<lambda>x. x \<noteq> y) xs = take k xs" using id_take_nth_drop [OF assms(1)] by simp
  show "y \<in> set xs" using assms(1,2) by auto
qed

text \<open>C34. \<^verbatim>\<open>fetchstr\<close> ends and returns the string at the address, up to and including the first
  zero byte below the size of the process, or fails when there is none; it never reads at or above that
  size.\<close>

theorem fetchstr_within:
  fixes s :: "'a pstate_scheme"
  assumes "umapped s (p_sz (ptab s p))"
  shows "wp (fetchstr p addr) (\<lambda>r t. t = s \<and> r =
    (let bs = ubytes s addr (unat (p_sz (ptab s p)) - unat addr) in
     if 0 \<in> set bs then Some (takeWhile (\<lambda>c. c \<noteq> 0) bs @ [0]) else None)) s"
proof -
  let ?sz = "p_sz (ptab s p)"
  obtain n where n: "n = unat ?sz - unat addr" by simp
  obtain bs where bs: "bs = ubytes s addr n" by simp
  have len: "length bs = n" by (simp add: bs ubytes_def)
  show ?thesis
  proof (cases "?sz \<le> addr")
    case True
    then have "bs = []" using n len by (simp add: word_le_nat_alt)
    with True show ?thesis unfolding n [symmetric] bs [symmetric] by (simp add: fetchstr_def wp)
  next
    case False
    have un: "unat (?sz - addr) = n" using False n by (simp add: unat_sub word_le_nat_alt)
    have le: "unat addr + n = unat ?sz" using False n by (simp add: word_le_nat_alt)
    have a: "unat (addr + of_nat k) = unat addr + k" if "k \<le> n" for k
      using that le unat_lt32 [of ?sz] by (intro unat_add_of_nat) simp
    have ld: "wp (uload (addr + of_nat k)) Q s = Q (bs ! k) s" if "k < n" for k Q
      using that assms a [of k] le by (subst wp_uload) (auto simp: umapped_def word_less_nat_alt bs ubytes_def)
    let ?R = "if 0 \<in> set bs then Some (takeWhile (\<lambda>c. c \<noteq> 0) bs @ [0]) else None"
    have "wp (loop_fuel (n + 1) (\<lambda>str. let a = addr + of_nat (length str) in
        if a < ?sz then bnd (uload a) (\<lambda>c. if c = 0 then ret (Inr (Some (str @ [0]))) else ret (Inl (str @ [c])))
        else ret (Inr None)) []) (\<lambda>r t. t = s \<and> r = ?R) s"
    proof (rule wp_loop_fuel [where \<mu> = "\<lambda>str _. n - length str"
        and I = "\<lambda>str t. t = s \<and> length str \<le> n \<and> (\<forall>j < length str. str ! j = bs ! j \<and> bs ! j \<noteq> 0)"], goal_cases)
      case (3 str t)
      let ?k = "length str"
      have kn: "?k \<le> n" using 3 by simp
      have lt: "addr + of_nat ?k < ?sz \<longleftrightarrow> ?k < n" unfolding word_less_nat_alt a [OF kn] le [symmetric] by simp
      have str: "take ?k bs = str" using 3 kn len by (intro nth_equalityI) simp_all
      have nz: "0 \<notin> set str" using 3 by (auto simp: in_set_conv_nth)
      show ?case
      proof (cases "?k < n")
        case True
        show ?thesis
        proof (cases "bs ! ?k = 0")
          case z: True
          then have "takeWhile (\<lambda>c. c \<noteq> 0) bs = str" "0 \<in> set bs"
            using takeWhile_take [of ?k bs 0] True len str nz by simp_all
          with 3 True z lt ld show ?thesis by (simp add: Let_def wp)
        next
          case False
          with 3 True lt ld show ?thesis by (auto simp: Let_def wp nth_append less_Suc_eq)
        qed
      next
        case False
        then have "str = bs" using str kn len by simp
        with 3 False lt nz show ?thesis by (simp add: Let_def wp)
      qed
    qed simp_all
    with False un show ?thesis unfolding n [symmetric] bs [symmetric] by (simp add: fetchstr_def wp)
  qed
qed

section \<open>Arguments of a system call\<close>

text \<open>The \<open>n\<close>th argument of the process, read from its stack.\<close>

definition user_arg :: "'a pstate_scheme \<Rightarrow> nat \<Rightarrow> nat \<Rightarrow> u32 option" where
  "user_arg s i n =
    (let a = tf_esp (get_tf (pmem s) (p_tf (ptab s i))) + 4 + 4 * of_nat n; sz = p_sz (ptab s i) in
     if sz \<le> a \<or> sz < a + 4 then None else Some (word32 (ubytes s a 4)))"

definition user_ok :: "nat \<Rightarrow> 'a pstate_scheme \<Rightarrow> bool" where
  "user_ok i s \<longleftrightarrow> p_sz (ptab s i) \<le> USERTOP \<and> umapped s (p_sz (ptab s i))"

lemma wp_uloads:
  assumes "umapped s sz" "unat a + n \<le> unat sz"
  shows "wp (uloads a n) Q s = Q (ubytes s a n) s"
  using assms(2)
proof (induction n arbitrary: a Q)
  case (Suc n)
  have "a < sz" using Suc.prems by (simp add: word_less_nat_alt)
  then have "vtrans (pmem s) (cr3 (my_cpu s)) a \<noteq> None" using assms(1) by (simp add: umapped_def)
  moreover have "unat (a + 1) = unat a + 1" using Suc.prems unat_lt32 [of sz] by (subst unat_add_lt) simp_all
  moreover have "ubytes s a (Suc n) = ubyte s a # ubytes s (a + 1) n"
    by (simp add: ubytes_def upt_conv_Cons map_Suc_upt [symmetric] add.assoc del: upt_Suc)
  ultimately show ?case using Suc by (simp add: wp wp_uload)
qed (simp add: wp ubytes_def)

lemma wp_argint:
  assumes s: "cproc (my_cpu s) = Some i" and u: "user_ok i s"
  shows "wp (argint n) Q s = Q (user_arg s i n) s"
proof -
  let ?a = "tf_esp (get_tf (pmem s) (p_tf (ptab s i))) + 4 + 4 * of_nat n" and ?sz = "p_sz (ptab s i)"
  have "wp (uloads ?a 4) Q s = Q (ubytes s ?a 4) s" if "\<not> (?sz \<le> ?a \<or> ?sz < ?a + 4)" for Q
  proof (rule wp_uloads)
    have "unat ?sz \<le> 0xA0000" using u by (simp add: user_ok_def USERTOP_def word_le_nat_alt)
    moreover have lt: "unat ?a < unat ?sz" using that by (simp add: word_less_nat_alt not_le)
    ultimately have "unat (?a + 4) = unat ?a + 4" by (subst unat_add_lt) simp_all
    then show "unat ?a + 4 \<le> unat ?sz" using that by (simp add: word_le_nat_alt not_less)
  qed (use u in \<open>simp add: user_ok_def\<close>)
  then show ?thesis using s by (simp add: argint_def fetchint_def uload32_def wp user_arg_def Let_def)
qed

text \<open>A state for examples: 8 bytes of user memory at \<open>0x3000\<close>, its page table at \<open>0x2000\<close>, the page directory
  at \<open>0x1000\<close>; the string \<^verbatim>\<open>hi\<close> at user address 2.\<close>

definition sys_mem :: mem where
  "sys_mem = (\<lambda>_. 0)(0x1000 := 7, 0x1001 := 0x20, 0x2000 := 7, 0x2001 := 0x30, 0x3002 := 104, 0x3003 := 105)"

definition sys_st :: consst where
  "sys_st = upd_proc 2 (\<lambda>p. p\<lparr>p_sz := 8\<rparr>) (upd_cpu (\<lambda>c. c\<lparr>cr3 := 0x1000\<rparr>) (cons_st\<lparr>pmem := sys_mem\<rparr>))"

lemma vtrans_sys_mem:
  assumes "a < 4096"
  shows "vtrans sys_mem 0x1000 a = Some (0x3000 OR (a AND 0xFFF))"
proof -
  have "drop_bit 12 (unat a) = 0" "drop_bit 22 (unat a) = 0"
    using assms by (simp_all add: drop_bit_eq_div word_less_nat_alt)
  then have "unat (drop_bit 12 a) = 0" "unat (drop_bit 22 a) = 0" by (simp_all add: unat_drop_bit_eq)
  then have z: "drop_bit 12 a = 0" "drop_bit 22 a = 0" by (simp_all add: unat_eq_0)
  have "ld32 sys_mem 0x1000 = 0x2007" "ld32 sys_mem 0x2000 = 0x3007" by (simp_all add: ld32_def sys_mem_def)
  then show ?thesis by (simp add: vtrans_def pt_entry_def PDX_def PTX_def z PTE_P_def PTE_ADDR_def)
qed

lemma fetchstr_within_witness:
  "wp (fetchstr 2 2) (\<lambda>r t. t = sys_st \<and> r = Some [104, 105, 0]) sys_st"
proof -
  have sel: "pmem sys_st = sys_mem" "cr3 (my_cpu sys_st) = 0x1000" "p_sz (ptab sys_st 2) = 8"
    by (simp_all add: sys_st_def upd_cpu_def upd_proc_def)
  have "a < 4096" if "a < 8" for a :: u32 using that by (simp add: word_less_nat_alt)
  with sel have m: "umapped sys_st (p_sz (ptab sys_st 2))" by (simp add: umapped_def vtrans_sys_mem)
  have "ubyte sys_st 2 = 104" "ubyte sys_st 3 = 105" "ubyte sys_st 4 = 0"
    by (simp_all add: ubyte_def sel vtrans_sys_mem) (simp_all add: sys_mem_def)
  moreover have "[0..<6] = [0, 1, 2, 3, 4, 5]" by code_simp
  ultimately have "0 \<in> set (ubytes sys_st 2 6)" "takeWhile (\<lambda>c. c \<noteq> 0) (ubytes sys_st 2 6) = [104, 105]"
    by (simp_all add: ubytes_def)
  with fetchstr_within [OF m, of 2] sel show ?thesis by (simp add: Let_def)
qed

end
