(* ===== verification/Sysfile.thy ===== *)
theory Sysfile
  imports Syscall
begin

text \<open>
  System calls on files (\<^verbatim>\<open>sysfile.c\<close>); \<^verbatim>\<open>sys_exec\<close> is in theory \<open>Exec\<close>.

  Bytes that a system call moves to or from the process are moved as one block: all of a write is read
  from user memory before the file operation, all of a read is stored after it.

  Shown: \<^verbatim>\<open>fdalloc\<close> hands out the lowest free descriptor; \<^verbatim>\<open>sys_dup\<close> makes a second
  descriptor for the same file with its reference counted.
\<close>

section \<open>Descriptors\<close>

definition argfd :: "nat \<Rightarrow> ('a pstate_scheme, (nat \<times> nat) option) kop" where
  "argfd n =
    bnd (argint n) (\<lambda>r.
    case r of
      None \<Rightarrow> ret None
    | Some v \<Rightarrow>
        let fd = sint v in
        if fd < 0 \<or> int NOFILE \<le> fd then ret None
        else bnd curproc (\<lambda>i.
          bnd (gets (\<lambda>s. p_ofile (ptab s i) (nat fd))) (\<lambda>f.
          ret (map_option (\<lambda>f. (nat fd, f)) f))))"

definition fdalloc_slot :: "nat \<Rightarrow> nat \<Rightarrow> nat \<Rightarrow> ('a pstate_scheme, nat option) kop" where
  "fdalloc_slot i f fd =
    bnd (gets (\<lambda>s. p_ofile (ptab s i) fd)) (\<lambda>o'.
    if o' = None then
      thn (set_prc i (\<lambda>p. p\<lparr>p_ofile := (p_ofile p)(fd := Some f)\<rparr>)) (ret (Some fd))
    else ret None)"

definition fdalloc :: "nat \<Rightarrow> ('a pstate_scheme, nat option) kop" where
  "fdalloc f = bnd curproc (\<lambda>i. for_find [0..<NOFILE] (fdalloc_slot i f))"

definition sys_dup :: "('a filest_scheme, int) kop" where
  "sys_dup =
    with_arg (argfd 0) (\<lambda>(_, f).
    with_arg (fdalloc f) (\<lambda>fd.
    bnd (filedup f) (\<lambda>_.
    ret (int fd))))"

definition sys_read ::
  "nat \<Rightarrow> ('a filest_scheme, unit) kop \<Rightarrow> 'a filest_scheme devsw \<Rightarrow> ('a filest_scheme, int) kop" where
  "sys_read n env dv =
    with_arg (argfd 0) (\<lambda>(_, f).
    with_arg (argint 2) (\<lambda>cnt.
    with_arg (argptr 1 (sint cnt)) (\<lambda>p.
    bnd (fileread n env dv f (sint cnt)) (\<lambda>(r, bs).
    thn (ustores p bs) (
    ret r)))))"

definition sys_write ::
  "nat \<Rightarrow> ('a filest_scheme, unit) kop \<Rightarrow> 'a filest_scheme devsw \<Rightarrow> ('a filest_scheme, int) kop" where
  "sys_write n env dv =
    with_arg (argfd 0) (\<lambda>(_, f).
    with_arg (argint 2) (\<lambda>cnt.
    with_arg (argptr 1 (sint cnt)) (\<lambda>p.
    bnd (uloads p (nat (sint cnt))) (\<lambda>bs.
    filewrite n env dv f bs (sint cnt)))))"

definition sys_close :: "nat \<Rightarrow> ('a filest_scheme, unit) kop \<Rightarrow> ('a filest_scheme, int) kop" where
  "sys_close n env =
    with_arg (argfd 0) (\<lambda>(fd, f).
    bnd curproc (\<lambda>i.
    thn (set_prc i (\<lambda>p. p\<lparr>p_ofile := (p_ofile p)(fd := None)\<rparr>)) (
    thn (fileclose n env f) (
    ret 0))))"

text \<open>\<^verbatim>\<open>struct stat\<close> in user memory: 20 bytes with two holes that are not written.\<close>

definition ustore_stat :: "u32 \<Rightarrow> stat \<Rightarrow> ('a kmem_scheme, unit) kop" where
  "ustore_stat a st = seqs [
     ustore32 (a + 4) (st_dev st),
     ustore32 (a + 8) (st_ino st),
     ustores a (bytes16 (st_type st)),
     ustores (a + 12) (bytes16 (st_nlink st)),
     ustore32 (a + 16) (st_size st)]"

definition sys_fstat :: "nat \<Rightarrow> ('a filest_scheme, unit) kop \<Rightarrow> ('a filest_scheme, int) kop" where
  "sys_fstat n env =
    with_arg (argfd 0) (\<lambda>(_, f).
    with_arg (argptr 1 20) (\<lambda>a.
    with_arg (filestat n env f) (\<lambda>st.
    thn (ustore_stat a st) (
    ret 0))))"

section \<open>Links\<close>

definition add_nlink :: "u16 \<Rightarrow> inode \<Rightarrow> inode" where
  "add_nlink k x = x\<lparr>i_d := (i_d x)\<lparr>di_nlink := di_nlink (i_d x) + k\<rparr>\<rparr>"

definition sys_link_bad :: "nat \<Rightarrow> ('a fsst_scheme, unit) kop \<Rightarrow> nat \<Rightarrow> ('a fsst_scheme, int) kop" where
  "sys_link_bad n env ip =
    thn (seqs [
      ilock n env ip,
      set_ino ip (add_nlink (- 1)),
      iupdate n env ip,
      iunlockput n env ip]) (
    ret (- 1))"

definition sys_link ::
  "nat \<Rightarrow> ('a fsst_scheme, unit) kop \<Rightarrow> 'a fsst_scheme devsw \<Rightarrow> ('a fsst_scheme, int) kop" where
  "sys_link n env dv =
    with_arg (argstr 0) (\<lambda>old.
    with_arg (argstr 1) (\<lambda>new.
    with_arg (namei n env old) (\<lambda>ip.
    thn (ilock n env ip) (
    bnd (ino ip) (\<lambda>x.
    if di_type (i_d x) = T_DIR then thn (iunlockput n env ip) (ret (- 1))
    else
    thn (seqs [
      set_ino ip (add_nlink 1),
      iupdate n env ip,
      iunlock ip]) (
    bnd (nameiparent n env new (replicate DIRSIZ 0)) (\<lambda>(dpo, name).
    case dpo of
      None \<Rightarrow> sys_link_bad n env ip
    | Some dp \<Rightarrow>
        thn (ilock n env dp) (
        bnd (ino dp) (\<lambda>d.
        bnd (ino ip) (\<lambda>x.
        bnd (if i_dev d \<noteq> i_dev x then ret (- 1) else dirlink n env dv dp name (i_inum x)) (\<lambda>r.
        if r < 0 then thn (iunlockput n env dp) (sys_link_bad n env ip)
        else thn (seqs [iunlockput n env dp, iput n env ip]) (ret 0))))))))))))"

definition isdirempty :: "nat \<Rightarrow> ('a fsst_scheme, unit) kop \<Rightarrow> 'a fsst_scheme devsw \<Rightarrow> nat \<Rightarrow> ('a fsst_scheme, bool) kop" where
  "isdirempty n env dv dp =
    bnd (ino dp) (\<lambda>x.
    loop_fuel (unat (di_size (i_d x)) div DIRENT_SIZE + 1) (\<lambda>off.
      if off < di_size (i_d x) then
        bnd (readi n env dv dp off (of_nat DIRENT_SIZE)) (\<lambda>(r, bs).
        if r \<noteq> int DIRENT_SIZE then panic ''isdirempty: readi''
        else if de_inum (get_dirent bs 0) \<noteq> 0 then ret (Inr False)
        else ret (Inl (off + of_nat DIRENT_SIZE)))
      else ret (Inr True)) (2 * of_nat DIRENT_SIZE))"

definition sys_unlink ::
  "nat \<Rightarrow> ('a fsst_scheme, unit) kop \<Rightarrow> 'a fsst_scheme devsw \<Rightarrow> ('a fsst_scheme, int) kop" where
  "sys_unlink n env dv =
    with_arg (argstr 0) (\<lambda>path.
    bnd (nameiparent n env path (replicate DIRSIZ 0)) (\<lambda>(dpo, name).
    case dpo of
      None \<Rightarrow> ret (- 1)
    | Some dp \<Rightarrow>
      thn (ilock n env dp) (
      bnd (need (namecmp name (bytes ''.'' @ [0]))) (\<lambda>c1.
      bnd (need (namecmp name (bytes ''..'' @ [0]))) (\<lambda>c2.
      if c1 = 0 \<or> c2 = 0 then thn (iunlockput n env dp) (ret (- 1))
      else
      bnd (dirlookup n env dp name) (\<lambda>r.
      case r of
        None \<Rightarrow> thn (iunlockput n env dp) (ret (- 1))
      | Some (ip, off) \<Rightarrow>
        thn (ilock n env ip) (
        bnd (ino ip) (\<lambda>x.
        if sint (di_nlink (i_d x)) < 1 then panic ''unlink: nlink < 1''
        else
        bnd (if di_type (i_d x) = T_DIR then isdirempty n env dv ip else ret True) (\<lambda>empty.
        if \<not> empty then thn (seqs [iunlockput n env ip, iunlockput n env dp]) (ret (- 1))
        else
        bnd (writei n env dv dp (replicate DIRENT_SIZE 0) off (of_nat DIRENT_SIZE)) (\<lambda>w.
        if w \<noteq> int DIRENT_SIZE then panic ''unlink: writei''
        else
        thn (seqs [
          whenk (di_type (i_d x) = T_DIR) (seqs [set_ino dp (add_nlink (- 1)), iupdate n env dp]),
          iunlockput n env dp,
          set_ino ip (add_nlink (- 1)),
          iupdate n env ip,
          iunlockput n env ip]) (
        ret 0)))))))))))"

section \<open>Creating and opening\<close>

definition create ::
  "nat \<Rightarrow> ('a fsst_scheme, unit) kop \<Rightarrow> 'a fsst_scheme devsw \<Rightarrow> u8 list \<Rightarrow> u16 \<Rightarrow> u16 \<Rightarrow> u16 \<Rightarrow>
   ('a fsst_scheme, nat option) kop" where
  "create n env dv path type major minor =
    bnd (nameiparent n env path (replicate DIRSIZ 0)) (\<lambda>(dpo, name).
    case dpo of
      None \<Rightarrow> ret None
    | Some dp \<Rightarrow>
      thn (ilock n env dp) (
      bnd (dirlookup n env dp name) (\<lambda>r.
      case r of
        Some (ip, _) \<Rightarrow>
          thn (iunlockput n env dp) (
          thn (ilock n env ip) (
          bnd (ino ip) (\<lambda>x.
          if type = T_FILE \<and> di_type (i_d x) = T_FILE then ret (Some ip)
          else thn (iunlockput n env ip) (ret None))))
      | None \<Rightarrow>
          bnd (ino dp) (\<lambda>d.
          bnd (ialloc n env (i_dev d) type) (\<lambda>ip.
          thn (seqs [
            ilock n env ip,
            set_ino ip (\<lambda>x. x\<lparr>i_d := (i_d x)\<lparr>di_major := major, di_minor := minor, di_nlink := 1\<rparr>\<rparr>),
            iupdate n env ip]) (
          bnd (ino ip) (\<lambda>x.
          thn (whenk (type = T_DIR) (
            thn (seqs [set_ino dp (add_nlink 1), iupdate n env dp]) (
            bnd (dirlink n env dv ip (bytes ''.'' @ [0]) (i_inum x)) (\<lambda>r1.
            if r1 < 0 then panic ''create dots''
            else
            bnd (dirlink n env dv ip (bytes ''..'' @ [0]) (i_inum d)) (\<lambda>r2.
            whenk (r2 < 0) (panic ''create dots'')))))) (
          bnd (dirlink n env dv dp name (i_inum x)) (\<lambda>r.
          if r < 0 then panic ''create: dirlink''
          else thn (iunlockput n env dp) (ret (Some ip)))))))))))"

definition O_RDONLY :: u32 where "O_RDONLY = 0"
definition O_WRONLY :: u32 where "O_WRONLY = 1"
definition O_RDWR :: u32 where "O_RDWR = 2"
definition O_CREATE :: u32 where "O_CREATE = 0x200"

text \<open>The inode that is opened, locked.\<close>

definition open_inode ::
  "nat \<Rightarrow> ('a fsst_scheme, unit) kop \<Rightarrow> 'a fsst_scheme devsw \<Rightarrow> u8 list \<Rightarrow> u32 \<Rightarrow> ('a fsst_scheme, nat option) kop" where
  "open_inode n env dv path omode =
    (if omode AND O_CREATE \<noteq> 0 then create n env dv path T_FILE 0 0
     else
     bnd (namei n env path) (\<lambda>r.
     case r of
       None \<Rightarrow> ret None
     | Some ip \<Rightarrow>
         thn (ilock n env ip) (
         bnd (ino ip) (\<lambda>x.
         if di_type (i_d x) = T_DIR \<and> omode \<noteq> O_RDONLY then thn (iunlockput n env ip) (ret None)
         else ret (Some ip)))))"

definition open_file :: "nat \<Rightarrow> u32 \<Rightarrow> filerec \<Rightarrow> filerec" where
  "open_file ip omode x = x\<lparr>f_type := FD_INODE, f_ip := ip, f_off := 0,
     f_readable := (if omode AND O_WRONLY = 0 then 1 else 0),
     f_writable := (if omode AND O_WRONLY \<noteq> 0 \<or> omode AND O_RDWR \<noteq> 0 then 1 else 0)\<rparr>"

definition sys_open ::
  "nat \<Rightarrow> ('a filest_scheme, unit) kop \<Rightarrow> 'a filest_scheme devsw \<Rightarrow> ('a filest_scheme, int) kop" where
  "sys_open n env dv =
    with_arg (argstr 0) (\<lambda>path.
    with_arg (argint 1) (\<lambda>omode.
    with_arg (open_inode n env dv path omode) (\<lambda>ip.
    bnd filealloc (\<lambda>fo.
    case fo of
      None \<Rightarrow> thn (iunlockput n env ip) (ret (- 1))
    | Some f \<Rightarrow>
        bnd (fdalloc f) (\<lambda>fdo.
        case fdo of
          None \<Rightarrow> thn (seqs [fileclose n env f, iunlockput n env ip]) (ret (- 1))
        | Some fd \<Rightarrow>
            thn (seqs [
              iunlock ip,
              modify (upd_file f (open_file ip omode))]) (
            ret (int fd)))))))"

definition sys_mkdir ::
  "nat \<Rightarrow> ('a fsst_scheme, unit) kop \<Rightarrow> 'a fsst_scheme devsw \<Rightarrow> ('a fsst_scheme, int) kop" where
  "sys_mkdir n env dv =
    with_arg (argstr 0) (\<lambda>path.
    with_arg (create n env dv path T_DIR 0 0) (\<lambda>ip.
    thn (iunlockput n env ip) (
    ret 0)))"

definition sys_mknod ::
  "nat \<Rightarrow> ('a fsst_scheme, unit) kop \<Rightarrow> 'a fsst_scheme devsw \<Rightarrow> ('a fsst_scheme, int) kop" where
  "sys_mknod n env dv =
    with_arg (argstr 0) (\<lambda>path.
    with_arg (argint 1) (\<lambda>major.
    with_arg (argint 2) (\<lambda>minor.
    with_arg (create n env dv path T_DEV (ucast major) (ucast minor)) (\<lambda>ip.
    thn (iunlockput n env ip) (
    ret 0)))))"

definition sys_chdir :: "nat \<Rightarrow> ('a fsst_scheme, unit) kop \<Rightarrow> ('a fsst_scheme, int) kop" where
  "sys_chdir n env =
    with_arg (argstr 0) (\<lambda>path.
    with_arg (namei n env path) (\<lambda>ip.
    thn (ilock n env ip) (
    bnd (ino ip) (\<lambda>x.
    if di_type (i_d x) \<noteq> T_DIR then thn (iunlockput n env ip) (ret (- 1))
    else
    thn (iunlock ip) (
    bnd curproc (\<lambda>i.
    bnd (gets (\<lambda>s. p_cwd (ptab s i))) (\<lambda>cwd.
    bnd (need cwd) (\<lambda>cwd.
    thn (iput n env cwd) (
    thn (set_prc i (\<lambda>p. p\<lparr>p_cwd := Some ip\<rparr>)) (
    ret 0))))))))))"

definition sys_pipe :: "nat \<Rightarrow> ('a filest_scheme, unit) kop \<Rightarrow> ('a filest_scheme, int) kop" where
  "sys_pipe n env =
    with_arg (argptr 0 8) (\<lambda>a.
    with_arg (pipealloc n env) (\<lambda>(rf, wf).
    bnd (fdalloc rf) (\<lambda>r0.
    case r0 of
      None \<Rightarrow> thn (seqs [fileclose n env rf, fileclose n env wf]) (ret (- 1))
    | Some fd0 \<Rightarrow>
        bnd (fdalloc wf) (\<lambda>r1.
        case r1 of
          None \<Rightarrow>
            bnd curproc (\<lambda>i.
            thn (seqs [
              set_prc i (\<lambda>p. p\<lparr>p_ofile := (p_ofile p)(fd0 := None)\<rparr>),
              fileclose n env rf,
              fileclose n env wf]) (
            ret (- 1)))
        | Some fd1 \<Rightarrow>
            thn (seqs [
              ustore32 a (of_nat fd0),
              ustore32 (a + 4) (of_nat fd1)]) (
            ret 0)))))"

section \<open>Duplicating a descriptor\<close>

definition first_fd :: "proc \<Rightarrow> nat option" where
  "first_fd p = find (\<lambda>fd. p_ofile p fd = None) [0..<NOFILE]"

lemma wp_fdalloc:
  assumes "cproc (my_cpu s) = Some i"
  shows "wp (fdalloc f) Q s = (case first_fd (ptab s i) of None \<Rightarrow> Q None s
    | Some fd \<Rightarrow> Q (Some fd) (upd_proc i (\<lambda>p. p\<lparr>p_ofile := (p_ofile p)(fd := Some f)\<rparr>) s))"
proof -
  have "wp (for_find [0..<NOFILE] (fdalloc_slot i f)) Q s = (case first_fd (ptab s i) of None \<Rightarrow> Q None s
    | Some fd \<Rightarrow> Q (Some fd) (upd_proc i (\<lambda>p. p\<lparr>p_ofile := (p_ofile p)(fd := Some f)\<rparr>) s))"
    unfolding first_fd_def by (rule wp_for_find_eq) (auto simp: fdalloc_slot_def wp)
  with assms show ?thesis by (simp add: fdalloc_def wp)
qed

lemma wp_with_arg: "wp (with_arg a k) Q = wp a (\<lambda>r. case r of None \<Rightarrow> Q (- 1) | Some x \<Rightarrow> wp (k x) Q)"
  unfolding with_arg_def wp_bnd by (intro arg_cong [where f = "wp a"] ext) (simp add: wp_ret split: option.split)

lemma wp_argfd:
  assumes "cproc (my_cpu s) = Some i" "user_ok i s"
  shows "wp (argfd n) Q s = Q (case user_arg s i n of None \<Rightarrow> None | Some v \<Rightarrow>
    if sint v < 0 \<or> int NOFILE \<le> sint v then None
    else map_option (\<lambda>f. (nat (sint v), f)) (p_ofile (ptab s i) (nat (sint v)))) s"
  using assms by (simp add: argfd_def wp_bnd wp_argint wp Let_def split: option.split)

lemma wp_sys_dup:
  fixes s :: "'a filest_scheme"
  assumes s: "proc_ctx i s" "user_ok i s" and v: "user_arg s i 0 = Some v"
    and r: "\<And>f. p_ofile (ptab s i) (nat (sint v)) = Some f \<Longrightarrow> 1 \<le> f_ref (ftab s f) \<and> f_ref (ftab s f) < 2 ^ 31 - 1"
  shows "wp sys_dup (\<lambda>r t. case (if 0 \<le> sint v \<and> sint v < int NOFILE then p_ofile (ptab s i) (nat (sint v)) else None, first_fd (ptab s i)) of
      (Some f, Some fd) \<Rightarrow> r = int fd \<and> ptab t = (ptab s)(i := (ptab s i)\<lparr>p_ofile := (p_ofile (ptab s i))(fd := Some f)\<rparr>)
        \<and> ftab t = (ftab s)(f := (ftab s f)\<lparr>f_ref := f_ref (ftab s f) + 1\<rparr>) \<and> proc_ctx i t
    | _ \<Rightarrow> r = - 1 \<and> t = s) s"
proof -
  have c: "cproc (my_cpu s) = Some i" using s(1) by (simp add: proc_ctx_def)
  show ?thesis
  proof (cases "if 0 \<le> sint v \<and> sint v < int NOFILE then p_ofile (ptab s i) (nat (sint v)) else None")
    case None
    then show ?thesis unfolding sys_dup_def wp_with_arg wp_argfd [OF c s(2)] v by (auto split: if_splits)
  next
    case (Some f)
    then have f: "0 \<le> sint v" "sint v < int NOFILE" "p_ofile (ptab s i) (nat (sint v)) = Some f" by (auto split: if_splits)
    show ?thesis
    proof (cases "first_fd (ptab s i)")
      case None
      with f show ?thesis unfolding sys_dup_def wp_with_arg wp_argfd [OF c s(2)] v by (simp add: wp_with_arg wp_fdalloc [OF c])
    next
      case (Some fd)
      let ?s = "upd_proc i (\<lambda>p. p\<lparr>p_ofile := (p_ofile p)(fd := Some f)\<rparr>) s"
      have p: "proc_ctx i ?s" using s(1) by (simp add: proc_ctx_def)
      have D: "wp (filedup f) Q ?s = Q f (upd_file f (\<lambda>x. x\<lparr>f_ref := s32 (f_ref x + 1)\<rparr>) (lockround FtableLock ?s))" for Q
        using r [OF f(3)] proc_ctx_lock [OF p] by (intro wp_filedup) simp_all
      have "s32 (f_ref (ftab s f) + 1) = f_ref (ftab s f) + 1" using r [OF f(3)] by (intro s32_id) (simp add: in_s32_def)
      with f Some proc_ctx_lockround [OF p, of FtableLock] show ?thesis
        unfolding sys_dup_def wp_with_arg wp_argfd [OF c s(2)] v
        by (simp add: wp_with_arg wp_fdalloc [OF c] wp_bnd D wp_ret)
    qed
  qed
qed

text \<open>C35. \<^verbatim>\<open>dup\<close>: for an open descriptor the call returns the lowest free one, which then
  refers to the same file with one more reference; nothing else of the process or of the file table
  changes. With no free descriptor, or an argument that is not an open descriptor, it returns \<open>-1\<close> and
  changes nothing.\<close>

theorem sys_dup_shares:
  fixes s :: "'a filest_scheme"
  assumes s: "proc_ctx i s" "user_ok i s" and v: "user_arg s i 0 = Some v"
    and r: "\<And>f. p_ofile (ptab s i) (nat (sint v)) = Some f \<Longrightarrow> 1 \<le> f_ref (ftab s f) \<and> f_ref (ftab s f) < 2 ^ 31 - 1"
  shows "wp sys_dup (\<lambda>r t. case (if 0 \<le> sint v \<and> sint v < int NOFILE then p_ofile (ptab s i) (nat (sint v)) else None, first_fd (ptab s i)) of
      (Some f, Some fd) \<Rightarrow> r = int fd \<and> ptab t = (ptab s)(i := (ptab s i)\<lparr>p_ofile := (p_ofile (ptab s i))(fd := Some f)\<rparr>)
        \<and> ftab t = (ftab s)(f := (ftab s f)\<lparr>f_ref := f_ref (ftab s f) + 1\<rparr>) \<and> proc_ctx i t
    | _ \<Rightarrow> r = - 1 \<and> t = s) s"
  by (rule wp_sys_dup [OF assms])

text \<open>A state for examples: descriptor 0 of the process is open.\<close>

definition dup_st :: consst where
  "dup_st = upd_proc 2 (\<lambda>p. p\<lparr>p_ofile := [0 \<mapsto> 0], p_tf := 0x4000\<rparr>) sys_st"

lemma dup_st_sel: "proc_ctx 2 dup_st" "user_ok 2 dup_st" "user_arg dup_st 2 0 = Some 0" "p_ofile (ptab dup_st 2) = [0 \<mapsto> 0]"
  "ftab dup_st = ftab file_st"
proof -
  have sel: "pmem dup_st = sys_mem" "cr3 (my_cpu dup_st) = 0x1000" "p_sz (ptab dup_st 2) = 8"
    by (simp_all add: dup_st_def sys_st_def upd_cpu_def)
  show "proc_ctx 2 dup_st" using cons_st_sel(1) by (simp add: dup_st_def sys_st_def proc_ctx_def upd_cpu_def lock_free_def)
  have "a < 4096" if "a < 8" for a :: u32 using that by (simp add: word_less_nat_alt)
  with sel show "user_ok 2 dup_st" by (simp add: user_ok_def umapped_def vtrans_sys_mem USERTOP_def)
  show "p_ofile (ptab dup_st 2) = [0 \<mapsto> 0]" by (simp add: dup_st_def)
  show "ftab dup_st = ftab file_st"
    by (simp add: dup_st_def sys_st_def upd_cpu_def upd_proc_def cons_st_def devst.defs dev_st_def filest.defs)
  have tf: "tf_esp (get_tf sys_mem (p_tf (ptab dup_st 2))) = 0"
    by (simp add: dup_st_def get_tf_def) (simp add: ld32_def sys_mem_def)
  have "ubytes dup_st 4 4 = [0, 0, 0, 0]"
    by (simp add: ubytes_def ubyte_def sel vtrans_sys_mem upt_rec) (simp add: sys_mem_def)
  then show "user_arg dup_st 2 0 = Some 0" by (simp add: user_arg_def sel tf word32_def)
qed

lemma sys_dup_shares_witness:
  "wp sys_dup (\<lambda>r t. r = 1 \<and> p_ofile (ptab t 2) = [0 \<mapsto> 0, 1 \<mapsto> 0] \<and> f_ref (ftab t 0) = 2 \<and> proc_ctx 2 t) dup_st"
proof -
  have "first_fd (ptab dup_st 2) = Some 1"
    by (simp add: first_fd_def dup_st_sel NOFILE_def upt_rec)
  moreover have "f_ref (ftab file_st 0) = 1" by (simp add: file_st_sel)
  ultimately show ?thesis
    by (intro wp_mono [OF sys_dup_shares [OF dup_st_sel(1-3)]]) (auto simp: dup_st_sel NOFILE_def)
qed

end
