(* ===== verification/Exec.thy ===== *)
theory Exec
  imports Sysfile
begin

text \<open>
  Loading of programs: \<^verbatim>\<open>exec.c\<close>, \<^verbatim>\<open>elf.h\<close>, \<^verbatim>\<open>loaduvm\<close> of \<^verbatim>\<open>vm.c\<close> and
  \<^verbatim>\<open>sys_exec\<close> of \<^verbatim>\<open>sysfile.c\<close>.

  The code after \<^verbatim>\<open>bad:\<close> unlocks the inode in every case, also when it is reached after the
  inode was given back.

  The theory holds the model only: no property of it is proved.
\<close>

section \<open>Executable files\<close>

definition ELF_MAGIC :: u32 where "ELF_MAGIC = 0x464C457F"
definition ELF_PROG_LOAD :: u32 where "ELF_PROG_LOAD = 1"

record elfhdr =
  e_magic :: u32
  e_elf :: "u8 list"
  e_type :: u16
  e_machine :: u16
  e_version :: u32
  e_entry :: u32
  e_phoff :: u32
  e_shoff :: u32
  e_flags :: u32
  e_ehsize :: u16
  e_phentsize :: u16
  e_phnum :: u16
  e_shentsize :: u16
  e_shnum :: u16
  e_shstrndx :: u16

definition get_elfhdr :: "u8 list \<Rightarrow> elfhdr" where
  "get_elfhdr d = \<lparr>e_magic = get32 d 0, e_elf = bslice d 4 12, e_type = get16 d 16, e_machine = get16 d 18,
     e_version = get32 d 20, e_entry = get32 d 24, e_phoff = get32 d 28, e_shoff = get32 d 32, e_flags = get32 d 36,
     e_ehsize = get16 d 40, e_phentsize = get16 d 42, e_phnum = get16 d 44, e_shentsize = get16 d 46,
     e_shnum = get16 d 48, e_shstrndx = get16 d 50\<rparr>"

record proghdr =
  ph_type :: u32
  ph_offset :: u32
  ph_va :: u32
  ph_pa :: u32
  ph_filesz :: u32
  ph_memsz :: u32
  ph_flags :: u32
  ph_align :: u32

definition get_proghdr :: "u8 list \<Rightarrow> proghdr" where
  "get_proghdr d = \<lparr>ph_type = get32 d 0, ph_offset = get32 d 4, ph_va = get32 d 8, ph_pa = get32 d 12,
     ph_filesz = get32 d 16, ph_memsz = get32 d 20, ph_flags = get32 d 24, ph_align = get32 d 28\<rparr>"

section \<open>Segments\<close>

text \<open>A block of bytes in physical memory.\<close>

definition st_bytes :: "u32 \<Rightarrow> u8 list \<Rightarrow> mem \<Rightarrow> mem" where
  "st_bytes a bs m = (\<lambda>x. if unat (x - a) < length bs then bs ! unat (x - a) else m x)"

definition loaduvm ::
  "nat \<Rightarrow> ('a fsst_scheme, unit) kop \<Rightarrow> 'a fsst_scheme devsw \<Rightarrow> u32 \<Rightarrow> u32 \<Rightarrow> nat \<Rightarrow> u32 \<Rightarrow> u32 \<Rightarrow>
   ('a fsst_scheme, bool) kop" where
  "loaduvm n env dv pgdir addr ip offset sz =
    (if addr mod PGSIZE \<noteq> 0 then panic (''loaduvm: addr must be page aligned'' @ [CHR 0x0A])
     else loop_fuel (unat sz div 4096 + 2) (\<lambda>i.
       if i < sz then
         bnd (walkpgdir pgdir (addr + i) False) (\<lambda>pte.
         if pte = 0 then panic (''loaduvm: address should exist'' @ [CHR 0x0A])
         else
         bnd (gets (\<lambda>s. PTE_ADDR (ld32 (pmem s) pte))) (\<lambda>pa.
         let cnt = (if sz - i < PGSIZE then sz - i else PGSIZE) in
         bnd (readi n env dv ip (offset + i) cnt) (\<lambda>(r, bs).
         thn (upd_mem (st_bytes pa bs)) (
         if word_of_int r \<noteq> cnt then ret (Inr False)
         else ret (Inl (i + PGSIZE))))))
       else ret (Inr True)) 0)"

text \<open>The loop over the program headers: the new size, or \<open>None\<close> to go to \<^verbatim>\<open>bad\<close>.\<close>

definition exec_load ::
  "nat \<Rightarrow> ('a fsst_scheme, unit) kop \<Rightarrow> 'a fsst_scheme devsw \<Rightarrow> nat \<Rightarrow> u32 \<Rightarrow> elfhdr \<Rightarrow> ('a fsst_scheme, u32 option) kop" where
  "exec_load n env dv ip pgdir elf =
    loop_fuel (unat (e_phnum elf) + 1) (\<lambda>(i, off, sz).
      if i < unat (e_phnum elf) then
        bnd (readi n env dv ip off 32) (\<lambda>(r, bs).
        if r \<noteq> 32 then ret (Inr None)
        else let ph = get_proghdr bs in
        if ph_type ph \<noteq> ELF_PROG_LOAD then ret (Inl (i + 1, off + 32, sz))
        else if ph_memsz ph < ph_filesz ph then ret (Inr None)
        else
        bnd (allocuvm pgdir sz (ph_va ph + ph_memsz ph)) (\<lambda>sz.
        if sz = 0 then ret (Inr None)
        else
        bnd (loaduvm n env dv pgdir (ph_va ph) ip (ph_offset ph) (ph_filesz ph)) (\<lambda>ok.
        if \<not> ok then ret (Inr None)
        else ret (Inl (i + 1, off + 32, sz)))))
      else ret (Inr (Some sz))) (0, e_phoff elf, 0)"

section \<open>The stack of a new program\<close>

text \<open>The strings are given with their terminating zeros. \<open>arg_block\<close> is the loop that copies them
  downwards from \<open>sp\<close> and stores their addresses; \<open>off\<close> is \<^verbatim>\<open>mem - spbottom\<close>.\<close>

definition exec_arglen :: "u8 list list \<Rightarrow> u32" where
  "exec_arglen argv = (of_nat (sum_list (map length argv)) + 3) AND NOT 3"

definition exec_argp :: "u32 \<Rightarrow> u8 list list \<Rightarrow> u32" where
  "exec_argp sz argv = sz - exec_arglen argv - 4 * (of_nat (length argv) + 1)"

fun arg_block :: "u32 \<Rightarrow> u32 \<Rightarrow> (nat \<times> u8 list) list \<Rightarrow> u32 \<Rightarrow> mem \<Rightarrow> mem" where
  "arg_block off argp [] sp m = m"
| "arg_block off argp ((i, str) # rest) sp m =
    (let sp = sp - of_nat (length str) in
     arg_block off argp rest sp
       (st32 (st_bytes (off + sp) str m) (off + argp + 4 * of_nat i) sp))"

definition exec_stack :: "u32 \<Rightarrow> u32 \<Rightarrow> u8 list list \<Rightarrow> mem \<Rightarrow> mem" where
  "exec_stack off sz argv m =
    (let argc = length argv; argp = exec_argp sz argv;
         m = st32 m (off + argp + 4 * of_nat argc) 0;
         m = arg_block off argp (rev (enumerate 0 argv)) sz m;
         m = st32 m (off + (argp - 4)) argp;
         m = st32 m (off + (argp - 8)) (of_nat argc)
     in st32 m (off + (argp - 12)) 0xffffffff)"

text \<open>The part of the path after its last slash.\<close>

fun exec_last :: "u8 list \<Rightarrow> u8 list \<Rightarrow> u8 list" where
  "exec_last l [] = l"
| "exec_last l (c # s) = (if c = 0 then l else if c = slash then exec_last s s else exec_last l s)"

section \<open>Exec\<close>

definition exec_bad :: "nat \<Rightarrow> ('a fsst_scheme, unit) kop \<Rightarrow> nat \<Rightarrow> u32 \<Rightarrow> ('a fsst_scheme, int) kop" where
  "exec_bad n env ip pgdir =
    thn (seqs [
      whenk (pgdir \<noteq> 0) (freevm pgdir),
      iunlockput n env ip]) (
    ret (- 1))"

definition exec_commit :: "u32 \<Rightarrow> u8 list \<Rightarrow> u8 list list \<Rightarrow> u32 \<Rightarrow> u32 \<Rightarrow> u32 \<Rightarrow> ('a pstate_scheme, int) kop" where
  "exec_commit ts path argv pgdir sz entry =
    bnd curproc (\<lambda>i.
    bnd (prc i) (\<lambda>p.
    bnd (need (safestrcpy (p_name p) (exec_last path path) 16)) (\<lambda>nm.
    thn (seqs [
      set_prc i (\<lambda>p. p\<lparr>p_name := nm\<rparr>),
      set_prc i (\<lambda>p. p\<lparr>p_pgdir := pgdir\<rparr>),
      set_prc i (\<lambda>p. p\<lparr>p_sz := sz\<rparr>),
      upd_mem (\<lambda>m. st32 m (p_tf p + 56) entry),
      upd_mem (\<lambda>m. st32 m (p_tf p + 68) (exec_argp sz argv - 12)),
      switchuvm ts i,
      freevm (p_pgdir p)]) (
    ret 0))))"

text \<open>The number of bytes read is compared as an unsigned number, so that the error \<open>-1\<close> passes the
  test; the header is then not initialised.\<close>

definition exec ::
  "nat \<Rightarrow> ('a fsst_scheme, unit) kop \<Rightarrow> 'a fsst_scheme devsw \<Rightarrow> u32 \<Rightarrow> u8 list \<Rightarrow> u8 list list \<Rightarrow> ('a fsst_scheme, int) kop" where
  "exec n env dv ts path argv =
    with_arg (namei n env path) (\<lambda>ip.
    thn (ilock n env ip) (
    bnd (readi n env dv ip 0 52) (\<lambda>(r, bs).
    if word_of_int r < (52 :: u32) then exec_bad n env ip 0
    else
    bnd (need (if length bs < 52 then None else Some (get_elfhdr bs))) (\<lambda>elf.
    if e_magic elf \<noteq> ELF_MAGIC then exec_bad n env ip 0
    else
    bnd setupkvm (\<lambda>pgdir.
    if pgdir = 0 then exec_bad n env ip 0
    else
    bnd (exec_load n env dv ip pgdir elf) (\<lambda>szo.
    case szo of
      None \<Rightarrow> exec_bad n env ip pgdir
    | Some sz \<Rightarrow>
        thn (iunlockput n env ip) (
        let spbottom = PGROUNDUP sz in
        bnd (allocuvm pgdir spbottom (spbottom + PGSIZE)) (\<lambda>sz.
        if sz = 0 then exec_bad n env ip pgdir
        else
        bnd (uva2ka pgdir spbottom) (\<lambda>mem.
        thn (upd_mem (exec_stack (mem - spbottom) sz argv)) (
        exec_commit ts path argv pgdir sz (e_entry elf)))))))))))"

text \<open>The argument vector has room for 20 entries.\<close>

definition sys_exec_round :: "u32 \<Rightarrow> u8 list list \<Rightarrow> ('a pstate_scheme, u8 list list + u8 list list option) kop" where
  "sys_exec_round uargv argv =
    (if 20 \<le> length argv then ret (Inr None)
     else
     bnd curproc (\<lambda>i.
     bnd (fetchint i (uargv + 4 * of_nat (length argv))) (\<lambda>r.
     case r of
       None \<Rightarrow> ret (Inr None)
     | Some uarg \<Rightarrow>
         if uarg = 0 then ret (Inr (Some argv))
         else
         bnd (fetchstr i uarg) (\<lambda>so.
         case so of
           None \<Rightarrow> ret (Inr None)
         | Some str \<Rightarrow> ret (Inl (argv @ [str]))))))"

definition sys_exec ::
  "nat \<Rightarrow> ('a fsst_scheme, unit) kop \<Rightarrow> 'a fsst_scheme devsw \<Rightarrow> u32 \<Rightarrow> ('a fsst_scheme, int) kop" where
  "sys_exec n env dv ts =
    with_arg (argstr 0) (\<lambda>path.
    with_arg (argint 1) (\<lambda>uargv.
    with_arg (loop_fuel 21 (sys_exec_round uargv) []) (\<lambda>argv.
    exec n env dv ts path argv)))"

end
