(* ===== verification/Trap.thy ===== *)
theory Trap
  imports Exec
begin

text \<open>
  Traps (\<^verbatim>\<open>trap.c\<close>) and the dispatch of system calls (\<^verbatim>\<open>syscall.c\<close>).

  The scheduling policy is chosen when the kernel is compiled; here it is an argument of
  \<^verbatim>\<open>trap\<close>. \<open>clockcount\<close> is the static variable \<^verbatim>\<open>clockticks\<close> of \<^verbatim>\<open>trap.c\<close>.

  Shown: the gates of the interrupt table; the clock interrupt counts the tick, wakes the sleepers,
  charges the running process, and takes the processor away exactly when its quantum is used up.
\<close>

section \<open>State\<close>

record trapst = consst +
  idt :: "nat \<Rightarrow> gatedesc"
  idt_loaded :: "nat \<Rightarrow> bool"

datatype policy = PolicyRR | PolicyRR2Q | PolicyFAIR2Q | PolicyDefault

section \<open>The interrupt table\<close>

definition set_idt :: "nat \<Rightarrow> gatedesc \<Rightarrow> ('a trapst_scheme, unit) kop" where
  "set_idt i g = modify (\<lambda>s. s\<lparr>idt := (idt s)(i := g)\<rparr>)"

definition tvinit :: "(nat \<Rightarrow> u32) \<Rightarrow> ('a trapst_scheme, unit) kop" where
  "tvinit vectors = seqs [
     for_each [0..<256] (\<lambda>i. set_idt i (SETGATE False (of_nat SEG_KCODE * 8) (vectors i) 0)),
     set_idt (unat T_SYSCALL) (SETGATE True (of_nat SEG_KCODE * 8) (vectors (unat T_SYSCALL)) DPL_USER),
     initlock TicksLock ''time'']"

definition idtinit :: "('a trapst_scheme, unit) kop" where
  "idtinit = modify (\<lambda>s. s\<lparr>idt_loaded := (idt_loaded s)(this_cpu s := True)\<rparr>)"

section \<open>System calls\<close>

definition syscalls ::
  "nat \<Rightarrow> ('a consst_scheme, unit) kop \<Rightarrow> kimage \<Rightarrow> u32 \<Rightarrow> int \<Rightarrow> ('a consst_scheme, int) kop option" where
  "syscalls n env ki ts num =
    (let dv = console_devsw n env in
     if num = 1 then Some (sys_fork ki)
     else if num = 2 then Some (sys_exit n env)
     else if num = 3 then Some (sys_wait n env)
     else if num = 4 then Some (sys_pipe n env)
     else if num = 5 then Some (sys_write n env dv)
     else if num = 6 then Some (sys_read n env dv)
     else if num = 7 then Some (sys_close n env)
     else if num = 8 then Some sys_kill
     else if num = 9 then Some (sys_exec n env dv ts)
     else if num = 10 then Some (sys_open n env dv)
     else if num = 11 then Some (sys_mknod n env dv)
     else if num = 12 then Some (sys_unlink n env dv)
     else if num = 13 then Some (sys_fstat n env)
     else if num = 14 then Some (sys_link n env dv)
     else if num = 15 then Some (sys_mkdir n env dv)
     else if num = 16 then Some (sys_chdir n env)
     else if num = 17 then Some sys_dup
     else if num = 18 then Some sys_getpid
     else if num = 19 then Some (sys_sbrk ts)
     else if num = 20 then Some (sys_sleep n env)
     else if num = 21 then Some sys_uptime
     else if num = 22 then Some (sys_wait2 n env)
     else if num = 23 then Some sys_nice
     else None)"

definition set_cur_eax :: "int \<Rightarrow> ('a pstate_scheme, unit) kop" where
  "set_cur_eax v =
    bnd curproc (\<lambda>i.
    bnd (gets (\<lambda>s. p_tf (ptab s i))) (\<lambda>tf.
    upd_mem (set_eax tf (word_of_int v))))"

definition syscall ::
  "nat \<Rightarrow> ('a consst_scheme, unit) kop \<Rightarrow> kimage \<Rightarrow> u32 \<Rightarrow> ('a consst_scheme, unit) kop" where
  "syscall n env ki ts =
    bnd curproc (\<lambda>i.
    bnd (gets (\<lambda>s. sint (tf_eax (get_tf (pmem s) (p_tf (ptab s i)))))) (\<lambda>num.
    case syscalls n env ki ts num of
      Some call \<Rightarrow> bnd call set_cur_eax
    | None \<Rightarrow>
        bnd (prc i) (\<lambda>p.
        thn (cprintf (''%d %s: unknown sys call %d'' @ [CHR 0x0A])
          [CInt (word_of_int (p_pid p)), CStr (Some (p_name p)), CInt (word_of_int num)]) (
        set_cur_eax (- 1)))))"

section \<open>Traps\<close>

text \<open>\<^verbatim>\<open>if(proc && proc->killed && (tf->cs&3) == DPL_USER) exit();\<close>\<close>

definition exit_if_killed :: "nat \<Rightarrow> ('a filest_scheme, unit) kop \<Rightarrow> trapframe \<Rightarrow> ('a filest_scheme, unit) kop" where
  "exit_if_killed n env tf =
    bnd (gets (\<lambda>s. cproc (my_cpu s))) (\<lambda>po.
    case po of
      None \<Rightarrow> ret ()
    | Some i \<Rightarrow>
        bnd (gets (\<lambda>s. p_killed (ptab s i))) (\<lambda>k.
        whenk (k \<noteq> 0 \<and> ucast (tf_cs tf) AND 3 = DPL_USER) (exit n env)))"

definition trap_timer :: "('a devst_scheme, unit) kop" where
  "trap_timer =
    bnd (gets (\<lambda>s. cpu_id (my_cpu s))) (\<lambda>id.
    thn (whenk (id = 0) (seqs [
      acquire TicksLock,
      modify (\<lambda>s. s\<lparr>ticks := ticks s + 1\<rparr>),
      wakeup ChTicks,
      release TicksLock])) (
    lapiceoi))"

text \<open>\<open>cr2\<close> is the address that a page fault reports.\<close>

definition trap_other :: "u32 \<Rightarrow> trapframe \<Rightarrow> ('a pstate_scheme, unit) kop" where
  "trap_other cr2 tf =
    bnd (gets my_cpu) (\<lambda>c.
    case cproc c of
      None \<Rightarrow>
        thn (cprintf (''unexpected trap %d from cpu %d eip %x (cr2=0x%x)'' @ [CHR 0x0A])
          [CInt (tf_trapno tf), CInt (ucast (cpu_id c)), CInt (tf_eip tf), CInt cr2]) (
        panic ''trap'')
    | Some i \<Rightarrow>
        if tf_cs tf AND 3 = 0 then
          thn (cprintf (''unexpected trap %d from cpu %d eip %x (cr2=0x%x)'' @ [CHR 0x0A])
            [CInt (tf_trapno tf), CInt (ucast (cpu_id c)), CInt (tf_eip tf), CInt cr2]) (
          panic ''trap'')
        else
          bnd (prc i) (\<lambda>p.
          thn (cprintf (''pid %d %s: trap %d err %d on cpu %d eip 0x%x addr 0x%x--kill proc'' @ [CHR 0x0A])
            [CInt (word_of_int (p_pid p)), CStr (Some (p_name p)), CInt (tf_trapno tf), CInt (tf_err tf),
             CInt (ucast (cpu_id c)), CInt (tf_eip tf), CInt cr2]) (
          set_prc i (\<lambda>p. p\<lparr>p_killed := 1\<rparr>))))"

definition trap_switch :: "nat \<Rightarrow> u32 \<Rightarrow> trapframe \<Rightarrow> ('a consst_scheme, unit) kop" where
  "trap_switch n cr2 tf =
    (let no = tf_trapno tf in
     if no = T_IRQ0 + IRQ_TIMER then trap_timer
     else if no = T_IRQ0 + IRQ_IDE then seqs [ideintr, lapiceoi]
     else if no = T_IRQ0 + IRQ_KBD then seqs [kbdintr n, lapiceoi]
     else if no = T_IRQ0 + IRQ_COM1 then seqs [uartintr n, lapiceoi]
     else if no = T_IRQ0 + 7 \<or> no = T_IRQ0 + IRQ_SPURIOUS then
       bnd (gets (\<lambda>s. cpu_id (my_cpu s))) (\<lambda>id. seqs [
         cprintf (''cpu%d: spurious interrupt at %x:%x'' @ [CHR 0x0A])
           [CInt (ucast id), CInt (ucast (tf_cs tf)), CInt (tf_eip tf)],
         lapiceoi])
     else trap_other cr2 tf)"

text \<open>The end of a quantum, for the policies.\<close>

definition quantum_over :: "('a pstate_scheme, unit) kop \<Rightarrow> ('a pstate_scheme, unit) kop" where
  "quantum_over env = thn (modify (\<lambda>s. s\<lparr>clockcount := 0\<rparr>)) (yield env)"

definition trap_policy :: "policy \<Rightarrow> ('a pstate_scheme, unit) kop \<Rightarrow> nat \<Rightarrow> ('a pstate_scheme, unit) kop" where
  "trap_policy pol env i =
    (case pol of
       PolicyRR \<Rightarrow> bnd (gets clockcount) (\<lambda>c. whenk (c = QUANTA) (quantum_over env))
     | PolicyDefault \<Rightarrow> yield env
     | _ \<Rightarrow> seqs [
         bnd (gets (\<lambda>s. (clockcount s, p_priority (ptab s i)))) (\<lambda>(c, pr). whenk (c = QUANTA \<and> pr = 0) (quantum_over env)),
         bnd (gets (\<lambda>s. (clockcount s, p_priority (ptab s i)))) (\<lambda>(c, pr). whenk (c = 2 * QUANTA \<and> pr = 1) (quantum_over env))])"

definition trap_tick :: "policy \<Rightarrow> ('a pstate_scheme, unit) kop \<Rightarrow> trapframe \<Rightarrow> ('a pstate_scheme, unit) kop" where
  "trap_tick pol env tf =
    bnd (gets (\<lambda>s. cproc (my_cpu s))) (\<lambda>po.
    case po of
      None \<Rightarrow> ret ()
    | Some i \<Rightarrow>
        bnd (gets (\<lambda>s. p_state (ptab s i))) (\<lambda>st.
        whenk (st = RUNNING \<and> tf_trapno tf = T_IRQ0 + IRQ_TIMER) (seqs [
          modify (\<lambda>s. s\<lparr>clockcount := s32 (clockcount s + 1)\<rparr>),
          set_prc i (\<lambda>p. p\<lparr>p_rtime := s32 (p_rtime p + 1)\<rparr>),
          trap_policy pol env i])))"

definition trap ::
  "policy \<Rightarrow> nat \<Rightarrow> ('a consst_scheme, unit) kop \<Rightarrow> kimage \<Rightarrow> u32 \<Rightarrow> u32 \<Rightarrow> u32 \<Rightarrow> ('a consst_scheme, unit) kop" where
  "trap pol n env ki ts cr2 tfa =
    bnd (gets (\<lambda>s. get_tf (pmem s) tfa)) (\<lambda>tf.
    if tf_trapno tf = T_SYSCALL then seqs [
      bnd killed (\<lambda>k. whenk k (exit n env)),
      upd_cur (\<lambda>p. p\<lparr>p_tf := tfa\<rparr>),
      syscall n env ki ts,
      bnd killed (\<lambda>k. whenk k (exit n env))]
    else seqs [
      trap_switch n cr2 tf,
      exit_if_killed n env tf,
      trap_tick pol env tf,
      exit_if_killed n env tf])"

section \<open>The interrupt table\<close>

lemma wp_set_idts: "wp (for_each [0..<n] (\<lambda>i. set_idt i (f i))) (\<lambda>_ t. \<forall>i < n. idt t i = f i) s"
proof -
  have "wp (for_each [0..<n] (\<lambda>i. set_idt i (f i))) (\<lambda>_ t. \<forall>i < n. i \<in> set [] \<or> idt t i = f i) s"
    by (rule wp_for_each [where I = "\<lambda>js t. \<forall>i < n. i \<in> set js \<or> idt t i = f i"]) (auto simp: wp set_idt_def)
  then show ?thesis by simp
qed

definition gate_for :: "(nat \<Rightarrow> u32) \<Rightarrow> nat \<Rightarrow> gatedesc \<Rightarrow> bool" where
  "gate_for vectors i g \<longleftrightarrow> gate_offset g = vectors i \<and> gd_p g = 1 \<and> gd_s g = 0 \<and> gd_cs g = of_nat SEG_KCODE * 8
     \<and> (gd_type g, gd_dpl g) = (if i = unat T_SYSCALL then (ucast STS_TG32, ucast DPL_USER) else (ucast STS_IG32, 0))"

text \<open>The gates of the interrupt table after \<^verbatim>\<open>tvinit\<close> are well formed: every one is present and leads
  to its own vector in the kernel's code segment, the one for system calls is a trap gate that user code
  may use, and all others are interrupt gates that it may not.\<close>

theorem tvinit_gates: "wp (tvinit vectors) (\<lambda>_ t. list_all (\<lambda>i. gate_for vectors i (idt t i)) [0..<256]) s"
proof -
  let ?g = "\<lambda>i. SETGATE False (of_nat SEG_KCODE * 8) (vectors i) 0"
  have T: "unat T_SYSCALL = 64" by (simp add: T_SYSCALL_def)
  have "gate_for vectors 64 (SETGATE True (of_nat SEG_KCODE * 8) (vectors 64) DPL_USER)"
    and "i \<noteq> 64 \<Longrightarrow> gate_for vectors i (?g i)" for i
    unfolding gate_for_def gate_offset_SETGATE T by (simp_all add: SETGATE_def SEG_KCODE_def)
  then show ?thesis unfolding tvinit_def T
    by (intro wp_seqsI [OF wp_set_idts]) (auto simp: wp set_idt_def initlock_def upd_lock_def list_all_iff)
qed

section \<open>The clock interrupt\<close>

lemma wp_lapiceoi: "wp lapiceoi (\<lambda>_ t. \<exists>d. t = s\<lparr>dev := d\<rparr>) s"
proof (cases "lapic (dev s)")
  case None
  then show ?thesis by (simp add: lapiceoi_def wp exI [of _ "dev s"])
next
  case (Some r)
  then show ?thesis by (auto simp: lapiceoi_def lapicw_def wp)
qed

lemma wp_trap_timer:
  fixes s :: "'a devst_scheme"
  assumes s: "lock_free TicksLock s" "lock_free PtableLock s" "cli_ok s" and c: "cpu_id (my_cpu s) = 0"
  shows "wp trap_timer (\<lambda>_ t. calm s t \<and> ticks t = ticks s + 1 \<and> ptab t = wake_tab ChTicks (ptab s)
    \<and> clockcount t = clockcount s \<and> pmem t = pmem s) s"
proof -
  let ?t = "(acq TicksLock s)\<lparr>ticks := ticks s + 1\<rparr>"
  have ct: "calm (acq TicksLock s) ?t" by (simp add: calm_refl)
  have ne: "TicksLock \<noteq> PtableLock" by simp
  obtain u where u: "u = rel TicksLock ((lockround PtableLock ?t)\<lparr>ptab := wake_tab ChTicks (ptab ?t)\<rparr>)" by simp
  note E = section_wakeup [OF s ne ct u]
  have "wp (thn (wakeup ChTicks) (thn (release TicksLock) lapiceoi)) Q ?t = wp lapiceoi Q u" for Q by (rule E(1))
  then have eq: "wp trap_timer Q s = wp lapiceoi Q u" for Q
    using c by (simp add: trap_timer_def wp wp_acquire [OF s(1)])
  have k: "ticks u = ticks s + 1" "ptab u = wake_tab ChTicks (ptab s)" "clockcount u = clockcount s" "pmem u = pmem s"
    by (simp_all add: u)
  show ?thesis unfolding eq by (rule wp_mono [OF wp_lapiceoi]) (use E(2) k in auto)
qed

text \<open>The state in which the policy decides: the tick counted, the sleepers woken, the process charged.\<close>

definition ticked :: "nat \<Rightarrow> 'a pstate_scheme \<Rightarrow> 'a pstate_scheme \<Rightarrow> bool" where
  "ticked i s t \<longleftrightarrow> proc_ctx i t \<and> cpu_id (my_cpu t) = cpu_id (my_cpu s) \<and> ticks t = ticks s + 1 \<and> clockcount t = s32 (clockcount s + 1)
     \<and> ptab t = (wake_tab ChTicks (ptab s))(i := (ptab s i)\<lparr>p_rtime := s32 (p_rtime (ptab s i) + 1)\<rparr>) \<and> pmem t = pmem s"

lemma trap_clock:
  fixes s :: "'a consst_scheme"
  assumes s: "proc_ctx i s" "cpu_id (my_cpu s) = 0" "p_killed (ptab s i) = 0" and tf: "tf_trapno (get_tf (pmem s) tfa) = T_IRQ0 + IRQ_TIMER"
  obtains t where "ticked i s t"
    "trap pol n env ki ts cr2 tfa s = thn (trap_policy pol env i) (exit_if_killed n env (get_tf (pmem s) tfa)) t"
proof -
  let ?tf = "get_tf (pmem s) tfa"
  from wp_trap_timer [of s] s have "wp trap_timer (\<lambda>_ t. calm s t \<and> ticks t = ticks s + 1 \<and> ptab t = wake_tab ChTicks (ptab s)
    \<and> clockcount t = clockcount s \<and> pmem t = pmem s) s" by simp
  then obtain v where v: "trap_timer s = Ok () v" "calm s v" "ticks v = ticks s + 1" "ptab v = wake_tab ChTicks (ptab s)"
    "clockcount v = clockcount s" "pmem v = pmem s" by (auto simp: wp_iff)
  have pv: "proc_ctx i v" by (rule proc_ctx_wake [OF s(1) v(2,4)])
  have vi: "ptab v i = ptab s i" using s(1) v(4) by (simp add: wake_tab_def woken_def proc_ctx_def)
  have c: "cproc (my_cpu v) = Some i" "p_state (ptab v i) = RUNNING" using pv by (simp_all add: proc_ctx_def)
  have ns: "T_IRQ0 + IRQ_TIMER \<noteq> T_SYSCALL" by (simp add: T_IRQ0_def IRQ_TIMER_def T_SYSCALL_def)
  let ?t = "upd_proc i (\<lambda>p. p\<lparr>p_rtime := s32 (p_rtime p + 1)\<rparr>) (v\<lparr>clockcount := s32 (clockcount v + 1)\<rparr>)"
  have "cpu_id ((my_cpu v)\<lparr>intena := 0\<rparr>) = cpu_id ((my_cpu s)\<lparr>intena := 0\<rparr>)" using v(2) unfolding calm_def by metis
  then have "ticked i s ?t" using pv v(3-6) vi by (simp add: ticked_def proc_ctx_def) (simp add: upd_proc_def)
  moreover have "exit_if_killed n env ?tf v = Ok () v"
    using c vi s(3) by (simp add: exit_if_killed_def bnd_def gets_def whenk_def ret_def)
  then have "trap pol n env ki ts cr2 tfa s = thn (trap_policy pol env i) (exit_if_killed n env ?tf) ?t"
    using v(1) c tf ns
    by (simp add: trap_def trap_switch_def trap_tick_def seqs.simps kop_defs Let_def split: outcome.split)
  ultimately show ?thesis by (rule that)
qed

text \<open>After \<open>k\<close> ticks that did not end the quantum.\<close>

definition ran_for :: "nat \<Rightarrow> nat \<Rightarrow> 'a pstate_scheme \<Rightarrow> 'a pstate_scheme \<Rightarrow> bool" where
  "ran_for k i s t \<longleftrightarrow> proc_ctx i t \<and> cpu_id (my_cpu t) = 0 \<and> p_killed (ptab t i) = 0 \<and> pmem t = pmem s
     \<and> ticks t = ticks s + of_nat k \<and> clockcount t = int k \<and> p_rtime (ptab t i) = p_rtime (ptab s i) + int k"

lemma exit_if_not_killed: "proc_ctx i s \<Longrightarrow> p_killed (ptab s i) = 0 \<Longrightarrow> exit_if_killed n env tf s = Ok () s"
  by (simp add: exit_if_killed_def kop_defs proc_ctx_def)

lemma ticked_ran:
  assumes "ran_for k i s t" "ticked i t u" "k < nat QUANTA" "in_s32 (p_rtime (ptab s i))" "p_rtime (ptab s i) < 2 ^ 31 - QUANTA"
  shows "ran_for (Suc k) i s u"
proof -
  have "s32 (1 + int k) = 1 + int k" using assms(3) by (intro s32_id) (simp add: in_s32_def QUANTA_def)
  moreover have "s32 (1 + (p_rtime (ptab s i) + int k)) = 1 + (p_rtime (ptab s i) + int k)"
    using assms(3-5) by (intro s32_id) (simp add: in_s32_def QUANTA_def)
  ultimately show ?thesis using assms(1,2) by (simp add: ran_for_def ticked_def add.commute add.left_commute)
qed

text \<open>C36. The quantum under the policy \<^verbatim>\<open>RR\<close>: a process that starts a quantum keeps the processor
  through \<open>QUANTA - 1\<close> clock interrupts, each of which counts one tick and charges it to the process; the next
  one charges it too, starts a new quantum, and does what \<^verbatim>\<open>yield\<close> does.\<close>

theorem rr_quantum:
  fixes s :: "'a consst_scheme"
  assumes s: "proc_ctx i s" "cpu_id (my_cpu s) = 0" "p_killed (ptab s i) = 0" "clockcount s = 0"
    and tf: "tf_trapno (get_tf (pmem s) tfa) = T_IRQ0 + IRQ_TIMER"
    and r: "in_s32 (p_rtime (ptab s i))" "p_rtime (ptab s i) < 2 ^ 31 - QUANTA"
  shows "wp (for_each [0..<nat QUANTA - 1] (\<lambda>_. trap PolicyRR n env ki ts cr2 tfa)) (\<lambda>_ t.
      ran_for (nat QUANTA - 1) i s t
      \<and> (\<exists>u. ran_for 0 i (s\<lparr>ticks := ticks s + of_int QUANTA, ptab := (ptab s)(i := (ptab s i)\<lparr>p_rtime := p_rtime (ptab s i) + QUANTA\<rparr>)\<rparr>) u
          \<and> trap PolicyRR n env ki ts cr2 tfa t = thn (yield env) (exit_if_killed n env (get_tf (pmem s) tfa)) u)) s"
proof -
  let ?T = "trap PolicyRR n env ki ts cr2 tfa" and ?f = "get_tf (pmem s) tfa"
  have clock: "\<exists>u. ran_for (Suc k) i s u \<and> ?T t = thn (trap_policy PolicyRR env i) (exit_if_killed n env ?f) u"
    if "ran_for k i s t" "k < nat QUANTA" for k and t :: "'a consst_scheme"
  proof -
    have "proc_ctx i t" "cpu_id (my_cpu t) = 0" "p_killed (ptab t i) = 0" "pmem t = pmem s" using that(1) by (simp_all add: ran_for_def)
    then show ?thesis using trap_clock [of i t tfa PolicyRR n env ki ts cr2] tf ticked_ran [OF that(1) _ that(2) r] by metis
  qed
  have run: "wp (for_each [0..<k] (\<lambda>_. ?T)) (\<lambda>_. ran_for k i s) s" if "k < nat QUANTA" for k
    using that
  proof (induction k)
    case (Suc k)
    have "wp ?T (\<lambda>_. ran_for (Suc k) i s) t" if t: "ran_for k i s t" for t
    proof -
      obtain u where u: "ran_for (Suc k) i s u" "?T t = thn (trap_policy PolicyRR env i) (exit_if_killed n env ?f) u"
        using clock [OF t] Suc.prems by auto
      then have "clockcount u \<noteq> QUANTA" "exit_if_killed n env ?f u = Ok () u"
        using Suc.prems exit_if_not_killed [of i u] by (simp_all add: ran_for_def QUANTA_def)
      with u show ?thesis by (simp add: wp_def trap_policy_def kop_defs)
    qed
    with Suc show ?case by (simp add: wp_for_each_append wp wp_mono)
  qed (use s in \<open>simp add: wp ran_for_def\<close>)
  show ?thesis
  proof (rule wp_mono [OF run], goal_cases)
    case (2 a t)
    have q: "Suc (nat QUANTA - 1) = nat QUANTA" "nat QUANTA - 1 < nat QUANTA" by (simp_all add: QUANTA_def)
    then obtain u where u: "ran_for (nat QUANTA) i s u" "?T t = thn (trap_policy PolicyRR env i) (exit_if_killed n env ?f) u"
      using clock [OF 2] by auto
    then have "clockcount u = QUANTA" by (simp add: ran_for_def QUANTA_def)
    then have "?T t = thn (yield env) (exit_if_killed n env ?f) (u\<lparr>clockcount := 0\<rparr>)"
      using u(2) by (simp add: trap_policy_def quantum_over_def kop_defs)
    moreover have "ran_for 0 i (s\<lparr>ticks := ticks s + of_int QUANTA, ptab := (ptab s)(i := (ptab s i)\<lparr>p_rtime := p_rtime (ptab s i) + QUANTA\<rparr>)\<rparr>)
      (u\<lparr>clockcount := 0\<rparr>)" using u(1) by (simp add: ran_for_def proc_ctx_def QUANTA_def)
    ultimately show ?case using 2 by blast
  qed (simp add: QUANTA_def)
qed

text \<open>A state for examples: the trap frame at \<open>0x4000\<close> is that of a clock interrupt.\<close>

definition trap_st :: consst where
  "trap_st = dup_st\<lparr>pmem := sys_mem(0x4030 := 32)\<rparr>"

lemma trap_st_sel: "proc_ctx 2 trap_st" "cpu_id (my_cpu trap_st) = 0" "p_killed (ptab trap_st 2) = 0" "clockcount trap_st = 0"
  "tf_trapno (get_tf (pmem trap_st) 0x4000) = T_IRQ0 + IRQ_TIMER" "p_rtime (ptab trap_st 2) = 0"
proof -
  show "proc_ctx 2 trap_st" using dup_st_sel(1) by (simp add: trap_st_def)
  show "tf_trapno (get_tf (pmem trap_st) 0x4000) = T_IRQ0 + IRQ_TIMER"
    by (simp add: trap_st_def get_tf_def) (simp add: ld32_def sys_mem_def T_IRQ0_def IRQ_TIMER_def)
qed (simp_all add: trap_st_def dup_st_def sys_st_def cons_st_def devst.defs dev_st_def file_st_def filest.defs
    pipest.defs fsst_boot_def fsst.defs idest_boot_def idest.defs pstate_boot_def pstate.defs boot_defs upd_cpu_def upd_proc_def proc_zero_def)

lemma rr_quantum_witness:
  "wp (for_each [0..<nat QUANTA - 1] (\<lambda>_. trap PolicyRR 1 hang \<lparr>k_trapret = 0, k_forkret = 0, k_initcode = 0, k_initsize = 0\<rparr> 0 0 0x4000))
    (\<lambda>_ t. ran_for (nat QUANTA - 1) 2 trap_st t) trap_st"
  by (rule wp_mono [OF rr_quantum [OF trap_st_sel(1-5)]]) (simp_all add: trap_st_sel(6) in_s32_def QUANTA_def)

end
