(* ===== verification/Mp.thy ===== *)
theory Mp
  imports Trap
begin

text \<open>
  The discovery of the processors (\<^verbatim>\<open>mp.c\<close>, \<^verbatim>\<open>mp.h\<close>): the search for the floating pointer structure in the places
  the BIOS may have put it, the checks on the configuration table, and the walk over its entries. The tables
  are bytes of physical memory. \<open>regs\<close> are the registers of a local APIC at an address, \<open>imcr\<close> is what port
  \<^verbatim>\<open>0x23\<close> reads.

  Shown: \<^verbatim>\<open>mpsearch1\<close> returns the first structure with a right signature and checksum; without a table \<^verbatim>\<open>mpinit\<close>
  changes nothing but the screen and \<^verbatim>\<open>bcpu\<close>; on a table whose processors are numbered from 0 it ends with one
  entry in \<^verbatim>\<open>cpus\<close> for every processor, the boot processor, the I/O APIC and the local APIC of the table.
\<close>

section \<open>The tables\<close>

record mpst = trapst +
  bcpu :: nat
  ncpu :: nat

definition NCPU :: nat where "NCPU = 8"
definition MPPROC :: u8 where "MPPROC = 0"
definition MPBUS :: u8 where "MPBUS = 1"
definition MPIOAPIC :: u8 where "MPIOAPIC = 2"
definition MPIOINTR :: u8 where "MPIOINTR = 3"
definition MPLINTR :: u8 where "MPLINTR = 4"
definition MPBOOT :: u8 where "MPBOOT = 2"

definition mem_bytes :: "mem \<Rightarrow> u32 \<Rightarrow> nat \<Rightarrow> u8 list" where
  "mem_bytes m a n = map (\<lambda>i. m (a + of_nat i)) [0..<n]"

definition ld16 :: "mem \<Rightarrow> u32 \<Rightarrow> u16" where
  "ld16 m a = ucast (m a) OR push_bit 8 (ucast (m (a + 1)))"

text \<open>Fields of \<^verbatim>\<open>struct mp\<close>, 16 bytes, and of \<^verbatim>\<open>struct mpconf\<close>, 44 bytes.\<close>

definition mp_physaddr :: "mem \<Rightarrow> u32 \<Rightarrow> u32" where "mp_physaddr m p = ld32 m (p + 4)"
definition mp_imcrp :: "mem \<Rightarrow> u32 \<Rightarrow> u8" where "mp_imcrp m p = m (p + 12)"
definition conf_length :: "mem \<Rightarrow> u32 \<Rightarrow> u16" where "conf_length m c = ld16 m (c + 4)"
definition conf_version :: "mem \<Rightarrow> u32 \<Rightarrow> u8" where "conf_version m c = m (c + 6)"
definition conf_lapicaddr :: "mem \<Rightarrow> u32 \<Rightarrow> u32" where "conf_lapicaddr m c = ld32 m (c + 36)"

section \<open>The search\<close>

definition mpbcpu :: "('a mpst_scheme, nat) kop" where
  "mpbcpu = gets bcpu"

definition mp_sum :: "mem \<Rightarrow> u32 \<Rightarrow> nat \<Rightarrow> u8" where
  "mp_sum m a len = sum_list (mem_bytes m a len)"

definition mp_here :: "mem \<Rightarrow> u32 \<Rightarrow> bool" where
  "mp_here m p \<longleftrightarrow> mem_bytes m p 4 = bytes ''_MP_'' \<and> mp_sum m p 16 = 0"

definition mp_places :: "u32 \<Rightarrow> nat \<Rightarrow> u32 list" where
  "mp_places a len = takeWhile (\<lambda>p. p < a + of_nat len) (map (\<lambda>i. a + of_nat (16 * i)) [0..<(len + 15) div 16])"

definition mp_scan :: "mem \<Rightarrow> u32 \<Rightarrow> nat \<Rightarrow> u32" where
  "mp_scan m a len = (case find (mp_here m) (mp_places a len) of None \<Rightarrow> 0 | Some p \<Rightarrow> p)"

definition mpsearch1 :: "u32 \<Rightarrow> nat \<Rightarrow> ('a mpst_scheme, u32) kop" where
  "mpsearch1 a len =
    thn (cprintf (''mpsearch1 0x%x %d'' @ [CHR 0x0A]) [CInt a, CInt (of_nat len)])
    (gets (\<lambda>s. mp_scan (pmem s) a len))"

text \<open>Two words of the BIOS data area: the address of its extended area, and the size of base memory.\<close>

definition bda_ebda :: "mem \<Rightarrow> u32" where
  "bda_ebda m = push_bit 4 (push_bit 8 (ucast (m 0x40F)) OR ucast (m 0x40E))"

definition bda_base :: "mem \<Rightarrow> u32" where
  "bda_base m = (push_bit 8 (ucast (m 0x414)) OR ucast (m 0x413)) * 1024"

definition mpsearch :: "('a mpst_scheme, u32) kop" where
  "mpsearch =
    bnd (gets (\<lambda>s. bda_ebda (pmem s))) (\<lambda>p.
    bnd (if p \<noteq> 0 then mpsearch1 p 1024
         else bnd (gets (\<lambda>s. bda_base (pmem s))) (\<lambda>p.
           mpsearch1 (p - 1024) 1024)) (\<lambda>mp.
    if mp \<noteq> 0 then ret mp else mpsearch1 0xF0000 0x10000))"

definition mpconf_ok :: "mem \<Rightarrow> u32 \<Rightarrow> bool" where
  "mpconf_ok m conf \<longleftrightarrow> mem_bytes m conf 4 = bytes ''PCMP'' \<and> (conf_version m conf = 1 \<or> conf_version m conf = 4)
     \<and> mp_sum m conf (unat (conf_length m conf)) = 0"

definition mpconfig :: "('a mpst_scheme, (u32 \<times> u32) option) kop" where
  "mpconfig =
    bnd mpsearch (\<lambda>mp.
    bnd (gets pmem) (\<lambda>m.
    if mp = 0 \<or> mp_physaddr m mp = 0 then ret None
    else let conf = mp_physaddr m mp in ret (if mpconf_ok m conf then Some (mp, conf) else None)))"

section \<open>The configuration table\<close>

text \<open>\<open>Inl\<close> is the position of the next entry. An index outside \<^verbatim>\<open>cpus\<close> is undefined.\<close>

definition mpinit_entry :: "u32 \<Rightarrow> u32 \<Rightarrow> ('a mpst_scheme, u32 + unit) kop" where
  "mpinit_entry e p =
    (if \<not> p < e then ret (Inr ())
     else bnd (gets pmem) (\<lambda>m.
       if m p = MPPROC then
         bnd (gets ncpu) (\<lambda>n.
         if int n \<noteq> uint (m (p + 1)) then
           thn (cprintf ''mpinit: ncpu=%d apicpid=%d'' [CInt (of_nat n), CInt (ucast (m (p + 1)))]) (panic ''mpinit'')
         else if NCPU \<le> n then undef
         else
         thn (whenk (m (p + 3) AND MPBOOT \<noteq> 0) (modify (\<lambda>s. s\<lparr>bcpu := n\<rparr>))) (
         thn (modify (\<lambda>s. s\<lparr>cpus := (cpus s)(n := cpus s n\<lparr>cpu_id := of_nat n\<rparr>), ncpu := n + 1\<rparr>))
         (ret (Inl (p + 20)))))
       else if m p = MPIOAPIC then
         thn (upd_dev (\<lambda>d. d\<lparr>ioapicid := ucast (m (p + 1))\<rparr>)) (ret (Inl (p + 8)))
       else if m p = MPBUS \<or> m p = MPIOINTR \<or> m p = MPLINTR then ret (Inl (p + 8))
       else thn (cprintf (''mpinit: unknown config type %x'' @ [CHR 0x0A]) [CInt (ucast (m p))]) (panic ''mpinit'')))"

text \<open>A table has fewer than \<open>2 ^ 16\<close> bytes and an entry at least 8, so that the loop makes at most 8192 rounds.\<close>

definition mpinit :: "(u32 \<Rightarrow> nat \<Rightarrow> u32) \<Rightarrow> u8 \<Rightarrow> ('a mpst_scheme, unit) kop" where
  "mpinit regs imcr =
    thn (modify (\<lambda>s. s\<lparr>bcpu := 0\<rparr>)) (
    bnd mpconfig (\<lambda>r. case r of
      None \<Rightarrow> ret ()
    | Some (mp, conf) \<Rightarrow>
        bnd (gets pmem) (\<lambda>m.
        thn (upd_dev (\<lambda>d. d\<lparr>ismp := True,
          lapic := (if conf_lapicaddr m conf = 0 then None else Some (regs (conf_lapicaddr m conf)))\<rparr>)) (
        thn (loop_fuel 8193 (mpinit_entry (conf + ucast (conf_length m conf))) (conf + 44))
        (whenk (mp_imcrp m mp \<noteq> 0) (thn (outb 0x22 0x70) (outb 0x23 (imcr OR 1))))))))"

section \<open>The search, in memory\<close>

text \<open>The structure that the three places of \<^verbatim>\<open>mpsearch\<close> give, and the table it points to when the checks of
  \<^verbatim>\<open>mpconfig\<close> accept it.\<close>

definition mp_root :: "mem \<Rightarrow> u32" where
  "mp_root m =
    (let p = mp_scan m (if bda_ebda m \<noteq> 0 then bda_ebda m else bda_base m - 1024) 1024
     in if p \<noteq> 0 then p else mp_scan m 0xF0000 0x10000)"

definition mp_table :: "mem \<Rightarrow> (u32 \<times> u32) option" where
  "mp_table m =
    (let mp = mp_root m; conf = mp_physaddr m mp
     in if mp \<noteq> 0 \<and> conf \<noteq> 0 \<and> mpconf_ok m conf then Some (mp, conf) else None)"

lemma mp_scan_first:
  assumes "mp_scan m a len = p" "p \<noteq> 0"
  obtains ps qs where "mp_places a len = ps @ p # qs" "mp_here m p" "\<forall>q\<in>set ps. \<not> mp_here m q"
proof -
  have "find (mp_here m) (mp_places a len) = Some p"
    using assms by (auto simp: mp_scan_def split: option.splits)
  then obtain i where i: "i < length (mp_places a len)" "mp_here m p" "p = mp_places a len ! i"
    "\<forall>j<i. \<not> mp_here m (mp_places a len ! j)"
    by (auto simp: find_Some_iff)
  show thesis
  proof (rule that [OF _ i(2)])
    show "mp_places a len = take i (mp_places a len) @ p # drop (Suc i) (mp_places a len)"
      using i(1,3) by (simp add: id_take_nth_drop)
    show "\<forall>q\<in>set (take i (mp_places a len)). \<not> mp_here m q"
      using i(1,4) by (auto simp: in_set_conv_nth)
  qed
qed

text \<open>The machine before \<^verbatim>\<open>consoleinit\<close>: the console does not lock.\<close>

definition mp_early :: "'a conout_scheme \<Rightarrow> bool" where
  "mp_early s \<longleftrightarrow> cga_inv s \<and> \<not> panicked s \<and> \<not> cons_locking s"

lemma screen_mpst:
  assumes "same_but_screen s t"
  shows "pmem t = pmem s" "bcpu t = bcpu s" "ncpu t = ncpu s" "dev t = dev s" "cpus t = cpus s"
  using assms by (auto simp: same_but_screen_def)

lemma wp_early_cprintf:
  assumes "mp_early s" "fmt_ok (bytes fmt) args"
  shows "wp (cprintf fmt args) (\<lambda>_ t. mp_early t \<and> same_but_screen s t) s"
  by (rule wp_mono [OF wp_cprintf]) (use assms in \<open>auto simp: mp_early_def dest: same_but_screen_sel\<close>)

lemma wp_mpsearch1:
  assumes "mp_early s"
  shows "wp (mpsearch1 a len) (\<lambda>r t. r = mp_scan (pmem s) a len \<and> mp_early t \<and> same_but_screen s t) s"
  unfolding mpsearch1_def wp_thn
  by (rule wp_mono [OF wp_early_cprintf [OF assms]]) (auto simp: wp bytes_def screen_mpst)

lemma wp_mpsearch:
  assumes "mp_early s"
  shows "wp mpsearch (\<lambda>r t. r = mp_root (pmem s) \<and> mp_early t \<and> same_but_screen s t) s"
proof -
  define a where "a = (if bda_ebda (pmem s) \<noteq> 0 then bda_ebda (pmem s) else bda_base (pmem s) - 1024)"
  have "wp (bnd (mpsearch1 a 1024) (\<lambda>mp. if mp \<noteq> 0 then ret mp else mpsearch1 0xF0000 0x10000))
    (\<lambda>r t. r = mp_root (pmem s) \<and> mp_early t \<and> same_but_screen s t) s"
    unfolding wp_bnd
  proof (rule wp_mono [OF wp_mpsearch1 [OF assms]])
    fix r t assume r: "r = mp_scan (pmem s) a 1024 \<and> mp_early t \<and> same_but_screen s t"
    then have "pmem t = pmem s" by (simp add: screen_mpst)
    then show "wp (if r \<noteq> 0 then ret r else mpsearch1 0xF0000 0x10000)
      (\<lambda>r t. r = mp_root (pmem s) \<and> mp_early t \<and> same_but_screen s t) t"
      using r by (auto simp: wp_ret mp_root_def a_def [symmetric] intro: same_but_screen_trans
        intro!: wp_mono [OF wp_mpsearch1])
  qed
  then show ?thesis by (cases "bda_ebda (pmem s) = 0") (simp_all add: mpsearch_def wp a_def)
qed

lemma wp_mpconfig:
  assumes "mp_early s"
  shows "wp mpconfig (\<lambda>r t. r = mp_table (pmem s) \<and> mp_early t \<and> same_but_screen s t) s"
  unfolding mpconfig_def wp_bnd
  by (rule wp_mono [OF wp_mpsearch [OF assms]]) (auto simp: wp mp_table_def Let_def screen_mpst)

section \<open>The walk over a table\<close>

text \<open>A table as a list of entries: a processor with its identifier and flags, an I/O APIC with its identifier,
  or an entry that \<^verbatim>\<open>mpinit\<close> skips.\<close>

datatype mpentry = EProc u8 u8 | EIoapic u8 | EOther u8

fun elen :: "mpentry \<Rightarrow> nat" where
  "elen (EProc a f) = 20"
| "elen _ = 8"

fun entry_at :: "mem \<Rightarrow> u32 \<Rightarrow> mpentry \<Rightarrow> bool" where
  "entry_at m p (EProc a f) \<longleftrightarrow> m p = MPPROC \<and> m (p + 1) = a \<and> m (p + 3) = f"
| "entry_at m p (EIoapic a) \<longleftrightarrow> m p = MPIOAPIC \<and> m (p + 1) = a"
| "entry_at m p (EOther t) \<longleftrightarrow> m p = t \<and> (t = MPBUS \<or> t = MPIOINTR \<or> t = MPLINTR)"

fun entries_at :: "mem \<Rightarrow> u32 \<Rightarrow> mpentry list \<Rightarrow> u32 \<Rightarrow> bool" where
  "entries_at m p [] e \<longleftrightarrow> p = e"
| "entries_at m p (x # xs) e \<longleftrightarrow>
     unat p + elen x \<le> unat e \<and> entry_at m p x \<and> entries_at m (p + of_nat (elen x)) xs e"

definition table_at :: "mem \<Rightarrow> u32 \<Rightarrow> mpentry list \<Rightarrow> bool" where
  "table_at m conf es \<longleftrightarrow>
     44 \<le> conf_length m conf \<and> unat conf + unat (conf_length m conf) < 2 ^ 32 \<and>
     entries_at m (conf + 44) es (conf + ucast (conf_length m conf))"

fun procs :: "mpentry list \<Rightarrow> (u8 \<times> u8) list" where
  "procs [] = []"
| "procs (EProc a f # es) = (a, f) # procs es"
| "procs (_ # es) = procs es"

fun ioapics :: "mpentry list \<Rightarrow> u8 list" where
  "ioapics [] = []"
| "ioapics (EIoapic a # es) = a # ioapics es"
| "ioapics (_ # es) = ioapics es"

text \<open>The processors are numbered from 0 in the order of the table, fit into \<^verbatim>\<open>cpus\<close>, and \<open>k\<close> is the only one
  with the boot flag.\<close>

definition numbered :: "nat \<Rightarrow> (u8 \<times> u8) list \<Rightarrow> bool" where
  "numbered k ps \<longleftrightarrow> length ps \<le> NCPU \<and> k < length ps \<and>
     (\<forall>i<length ps. fst (ps ! i) = of_nat i \<and> (snd (ps ! i) AND MPBOOT \<noteq> 0 \<longleftrightarrow> i = k))"

lemma procs_append [simp]: "procs (xs @ ys) = procs xs @ procs ys"
  by (induction xs rule: procs.induct) auto

lemma ioapics_append [simp]: "ioapics (xs @ ys) = ioapics xs @ ioapics ys"
  by (induction xs rule: ioapics.induct) auto

lemma elen_ge: "8 \<le> elen x" "elen x \<le> 20"
  by (cases x; simp)+

lemma unat_entry_step: "unat p + elen x \<le> unat e \<Longrightarrow> unat (p + of_nat (elen x)) = unat p + elen x" for p e :: u32
  using unsigned_less [of e, where 'a = nat] by (intro unat_add_of_nat) simp

lemma entries_at_length: "entries_at m p es e \<Longrightarrow> unat p + 8 * length es \<le> unat e"
proof (induction es arbitrary: p)
  case (Cons x xs)
  then show ?case using unat_entry_step [of p x e] elen_ge [of x] by force
qed simp

text \<open>The state after the entries \<open>es\<close>.\<close>

definition mp_after :: "nat \<Rightarrow> mpentry list \<Rightarrow> 'a mpst_scheme \<Rightarrow> 'a mpst_scheme" where
  "mp_after k es s =
    (let n = length (procs es)
     in s\<lparr>cpus := (\<lambda>i. if i < n then cpus s i\<lparr>cpu_id := of_nat i\<rparr> else cpus s i), ncpu := n,
          bcpu := (if k < n then k else 0), dev := (dev s)\<lparr>ioapicid := last (ioapicid (dev s) # map ucast (ioapics es))\<rparr>\<rparr>)"

lemma pmem_mp_after [simp]: "pmem (mp_after k es s) = pmem s" "ncpu (mp_after k es s) = length (procs es)"
  by (simp_all add: mp_after_def Let_def)

lemma mp_after_Nil: "ncpu s = 0 \<Longrightarrow> bcpu s = 0 \<Longrightarrow> mp_after k [] s = s"
  by (simp add: mp_after_def)

lemma numberedD:
  assumes "numbered k (procs (ds @ EProc a f # xs))"
  shows "length (procs ds) < NCPU" "a = of_nat (length (procs ds))" "uint a = int (length (procs ds))"
    "f AND MPBOOT \<noteq> 0 \<longleftrightarrow> length (procs ds) = k"
proof -
  show n: "length (procs ds) < NCPU" and a: "a = of_nat (length (procs ds))"
    and "f AND MPBOOT \<noteq> 0 \<longleftrightarrow> length (procs ds) = k"
    using assms by (auto simp: numbered_def nth_append dest: spec [of _ "length (procs ds)"])
  show "uint a = int (length (procs ds))"
    using n unfolding a by (simp add: NCPU_def unsigned_of_nat take_bit_nat_eq_self_iff flip: nat_int_comparison(2))
qed

lemma mp_after_snoc:
  "mp_after k (ds @ [EProc a f]) s =
    (let t = mp_after k ds s; n = length (procs ds)
     in (if n = k then t\<lparr>bcpu := n\<rparr> else t)\<lparr>cpus := (cpus t)(n := cpus t n\<lparr>cpu_id := of_nat n\<rparr>), ncpu := n + 1\<rparr>)"
  "mp_after k (ds @ [EIoapic a]) s = (let t = mp_after k ds s in t\<lparr>dev := (dev t)\<lparr>ioapicid := ucast a\<rparr>\<rparr>)"
  "mp_after k (ds @ [EOther a]) s = mp_after k ds s"
proof -
  show "mp_after k (ds @ [EIoapic a]) s = (let t = mp_after k ds s in t\<lparr>dev := (dev t)\<lparr>ioapicid := ucast a\<rparr>\<rparr>)"
    "mp_after k (ds @ [EOther a]) s = mp_after k ds s"
    by (simp_all add: mp_after_def Let_def)
  define n where "n = length (procs ds)"
  have "(\<lambda>i. if i < Suc n then cpus s i\<lparr>cpu_id := of_nat i\<rparr> else cpus s i) =
    (\<lambda>i. if i < n then cpus s i\<lparr>cpu_id := of_nat i\<rparr> else cpus s i)(n := cpus s n\<lparr>cpu_id := of_nat n\<rparr>)"
    by (simp add: fun_eq_iff less_Suc_eq)
  then show "mp_after k (ds @ [EProc a f]) s =
    (let t = mp_after k ds s; n = length (procs ds)
     in (if n = k then t\<lparr>bcpu := n\<rparr> else t)\<lparr>cpus := (cpus t)(n := cpus t n\<lparr>cpu_id := of_nat n\<rparr>), ncpu := n + 1\<rparr>)"
    by (simp add: mp_after_def Let_def less_Suc_eq flip: n_def del: fun_upd_apply)
qed

lemma wp_mpinit_entry:
  assumes "entries_at (pmem s) p (x # xs) e" "numbered k (procs (ds @ x # xs))"
  shows "wp (mpinit_entry e p) (\<lambda>r t. r = Inl (p + of_nat (elen x)) \<and> t = mp_after k (ds @ [x]) s) (mp_after k ds s)"
proof -
  have p: "p < e" and x: "entry_at (pmem s) p x"
    using assms(1) elen_ge(1) [of x] by (auto simp: word_less_nat_alt)
  show ?thesis
  proof (cases x)
    case (EProc a f)
    then have "numbered k (procs (ds @ EProc a f # xs))" using assms(2) by simp
    note n = numberedD [OF this]
    have m: "pmem s p = MPPROC" "pmem s (p + 1) = a" "pmem s (p + 3) = f" using x EProc by simp_all
    show ?thesis unfolding EProc
      by (cases "length (procs ds) = k")
        (use p n(1,4) in \<open>simp_all add: mpinit_entry_def wp mp_after_snoc Let_def m n(3) del: fun_upd_apply procs_append\<close>)
  next
    case (EIoapic a)
    have m: "pmem s p = 2" "pmem s (p + 1) = a" using x EIoapic by (simp_all add: MPIOAPIC_def)
    show ?thesis unfolding EIoapic
      using p by (simp add: mpinit_entry_def wp mp_after_snoc Let_def MPPROC_def MPIOAPIC_def m)
  next
    case (EOther a)
    have m: "pmem s p = a" "a = MPBUS \<or> a = MPIOINTR \<or> a = MPLINTR" using x EOther by simp_all
    then have "a \<noteq> MPPROC" "a \<noteq> MPIOAPIC"
      by (auto simp: MPPROC_def MPIOAPIC_def MPBUS_def MPIOINTR_def MPLINTR_def)
    then show ?thesis unfolding EOther
      using p by (simp add: mpinit_entry_def wp mp_after_snoc m)
  qed
qed

lemma wp_mpinit_loop:
  assumes "entries_at (pmem s) p es e" "numbered k (procs (ds @ es))" "length es < fuel"
  shows "wp (loop_fuel fuel (mpinit_entry e) p) (\<lambda>_ t. t = mp_after k (ds @ es) s) (mp_after k ds s)"
  using assms
proof (induction es arbitrary: p ds fuel)
  case Nil
  then show ?case by (cases fuel) (simp_all add: wp_loop_fuel_Suc mpinit_entry_def wp)
next
  case (Cons x es)
  then obtain f where f: "fuel = Suc f" "length es < f" by (cases fuel) auto
  show ?case unfolding f(1) wp_loop_fuel_Suc
    by (rule wp_mono [OF wp_mpinit_entry [OF Cons.prems(1,2)]])
      (use Cons.IH [of "p + of_nat (elen x)" "ds @ [x]" f] Cons.prems f in auto)
qed

text \<open>Without an acceptable table the machine is one processor.\<close>

lemma mpinit_no_table:
  assumes "mp_early s" "mp_table (pmem s) = None"
  shows "wp (mpinit regs imcr) (\<lambda>_ t. same_but_screen (s\<lparr>bcpu := 0\<rparr>) t) s"
proof -
  have "mp_early (s\<lparr>bcpu := 0\<rparr>)" using assms(1) by (simp add: mp_early_def cga_inv_def)
  then show ?thesis unfolding mpinit_def wp_thn wp_modify wp_bnd
    by (rule wp_mono [OF wp_mpconfig]) (use assms(2) in \<open>simp add: wp\<close>)
qed

lemma table_at_fuel: "table_at m conf es \<Longrightarrow> length es < 8193"
proof -
  assume t: "table_at m conf es"
  then have l: "44 \<le> unat (conf_length m conf)" "unat conf + unat (conf_length m conf) < 2 ^ 32"
    by (simp_all add: table_at_def word_le_nat_alt)
  then have "unat (conf + 44) = unat conf + 44" "unat (conf + ucast (conf_length m conf)) = unat conf + unat (conf_length m conf)"
    using unat_add_of_nat [of conf 44] unat_add_of_nat [of conf "unat (conf_length m conf)"] by simp_all
  moreover have "unat (conf + 44) + 8 * length es \<le> unat (conf + ucast (conf_length m conf))"
    using t by (intro entries_at_length) (auto simp: table_at_def)
  moreover have "unat (conf_length m conf) < 2 ^ 16" using unsigned_less [of "conf_length m conf", where 'a = nat] by simp
  ultimately show ?thesis by simp
qed

text \<open>The state \<^verbatim>\<open>mpinit\<close> leaves when it finds the table: \<open>t\<close> is the state after the search.\<close>

definition mp_found :: "(u32 \<Rightarrow> nat \<Rightarrow> u32) \<Rightarrow> u32 \<Rightarrow> 'a mpst_scheme \<Rightarrow> 'a mpst_scheme" where
  "mp_found regs conf t = t\<lparr>dev := (dev t)\<lparr>ismp := True,
     lapic := (if conf_lapicaddr (pmem t) conf = 0 then None else Some (regs (conf_lapicaddr (pmem t) conf)))\<rparr>\<rparr>"

definition mp_imcr :: "u8 \<Rightarrow> u8 \<Rightarrow> 'a mpst_scheme \<Rightarrow> 'a mpst_scheme" where
  "mp_imcr imcrp imcr u = (if imcrp = 0 then u
     else u\<lparr>dev := (dev u)\<lparr>outs := outs (dev u) @ [(0x22, 0x70), (0x23, imcr OR 1)]\<rparr>\<rparr>)"

lemma wp_mpinit_table:
  assumes "mp_early s" "ncpu s = 0" "mp_table (pmem s) = Some (mp, conf)" "table_at (pmem s) conf es" "numbered k (procs es)"
  shows "wp (mpinit regs imcr) (\<lambda>_ u. \<exists>t. same_but_screen (s\<lparr>bcpu := 0\<rparr>) t
      \<and> u = mp_imcr (mp_imcrp (pmem s) mp) imcr (mp_after k es (mp_found regs conf t))) s"
proof -
  let ?e = "conf + ucast (conf_length (pmem s) conf)"
  have early: "mp_early (s\<lparr>bcpu := 0\<rparr>)" using assms(1) by (simp add: mp_early_def cga_inv_def)
  have es: "entries_at (pmem s) (conf + 44) es ?e" using assms(4) by (simp add: table_at_def)
  have walk: "wp (loop_fuel 8193 (mpinit_entry ?e) (conf + 44)) (\<lambda>_ u. u = mp_after k es t) t"
    if "pmem t = pmem s" "ncpu t = 0" "bcpu t = 0" for t :: "'a mpst_scheme"
    using wp_mpinit_loop [of t "conf + 44" es ?e k "[]" 8193] es assms(5) table_at_fuel [OF assms(4)] that
    by (simp add: mp_after_Nil)
  show ?thesis unfolding mpinit_def wp_thn wp_modify wp_bnd
  proof (rule wp_mono [OF wp_mpconfig [OF early]], goal_cases)
    case (1 r t)
    then have t: "pmem t = pmem s" "ncpu t = 0" "bcpu t = 0"
      using screen_mpst [of "s\<lparr>bcpu := 0\<rparr>" t] assms(2) by simp_all
    have "wp (loop_fuel 8193 (mpinit_entry ?e) (conf + 44)) (\<lambda>_ u. u = mp_after k es (mp_found regs conf t)) (mp_found regs conf t)"
      by (rule walk) (simp_all add: mp_found_def t)
    then have "wp (thn (loop_fuel 8193 (mpinit_entry ?e) (conf + 44))
        (whenk (mp_imcrp (pmem s) mp \<noteq> 0) (thn (outb 0x22 0x70) (outb 0x23 (imcr OR 1)))))
      (\<lambda>_ u. u = mp_imcr (mp_imcrp (pmem s) mp) imcr (mp_after k es (mp_found regs conf t))) (mp_found regs conf t)"
      unfolding wp_thn by (rule wp_mono) (simp add: wp outb_def mp_imcr_def)
    then have "wp (thn (loop_fuel 8193 (mpinit_entry ?e) (conf + 44))
        (whenk (mp_imcrp (pmem s) mp \<noteq> 0) (thn (outb 0x22 0x70) (outb 0x23 (imcr OR 1)))))
      (\<lambda>_ u. \<exists>t. same_but_screen (s\<lparr>bcpu := 0\<rparr>) t
      \<and> u = mp_imcr (mp_imcrp (pmem s) mp) imcr (mp_after k es (mp_found regs conf t))) (mp_found regs conf t)"
      by (rule wp_mono) (use 1 in blast)
    then show ?case using 1 assms(3) t(1) by (simp add: wp_bnd wp_thn wp_gets wp_modify mp_found_def)
  qed
qed

text \<open>C37. Before the console is set up, on a memory whose first floating pointer structure leads to a table that
  passes the checks and is made of whole entries, with the processors numbered from 0 in order, at most \<^verbatim>\<open>NCPU\<close>
  of them and the boot flag on the \<open>k\<close>-th only, \<^verbatim>\<open>mpinit\<close> ends and \<^verbatim>\<open>mpbcpu\<close> then answers \<open>k\<close>. It has counted the
  processors, given each entry of \<^verbatim>\<open>cpus\<close> its identifier and changed nothing else there, recorded the last I/O
  APIC and the local APIC of the table, and switched the interrupt mode exactly when the structure asks for it.
  Memory is as before.\<close>

theorem mpinit_collects:
  assumes "mp_early s" "ncpu s = 0" "mp_table (pmem s) = Some (mp, conf)" "table_at (pmem s) conf es"
    and "numbered k (procs es)" "conf_lapicaddr (pmem s) conf \<noteq> 0"
  shows "wp (thn (mpinit regs imcr) mpbcpu) (\<lambda>r t.
      r = k \<and> ncpu t = length (procs es)
      \<and> cpus t = (\<lambda>i. if i < ncpu t then cpus s i\<lparr>cpu_id := of_nat i\<rparr> else cpus s i)
      \<and> pmem t = pmem s
      \<and> dev t = (dev s)\<lparr>ismp := True, lapic := Some (regs (conf_lapicaddr (pmem s) conf)),
          ioapicid := last (ioapicid (dev s) # map ucast (ioapics es)),
          outs := outs (dev s) @ (if mp_imcrp (pmem s) mp = 0 then [] else [(0x22, 0x70), (0x23, imcr OR 1)])\<rparr>) s"
proof -
  have k: "k < length (procs es)" using assms(5) by (simp add: numbered_def)
  show ?thesis unfolding wp_thn mpbcpu_def wp_gets
  proof (rule wp_mono [OF wp_mpinit_table [OF assms(1-5)]], elim exE conjE, goal_cases)
    case (1 _ u t)
    then have t: "pmem t = pmem s" "dev t = dev s" "cpus t = cpus s"
      using screen_mpst [of "s\<lparr>bcpu := 0\<rparr>" t] by simp_all
    show ?case unfolding 1(2)
      by (simp add: mp_imcr_def mp_after_def mp_found_def Let_def t k assms(6) cong: if_cong)
  qed
qed


text \<open>A memory for examples: two processors, the second the boot processor, a bus and an I/O APIC.\<close>

definition mp_ex_bytes :: "u8 list" where
  "mp_ex_bytes =
    [95, 77, 80, 95, 0x10, 0xFC, 9, 0, 1, 4, 11, 0, 128, 0, 0, 0]
    @ [80, 67, 77, 80, 100, 0, 4, 76] @ replicate 28 0 @ [0, 0, 0xE0, 0xFE, 0, 0, 0, 0]
    @ [0, 0, 17, 1] @ replicate 16 0 @ [0, 1, 17, 3] @ replicate 16 0 @ [1, 0, 0, 0, 0, 0, 0, 0] @ [2, 2, 17, 1, 0, 0, 0, 0]"

definition mp_ex_mem :: mem where
  "mp_ex_mem a = (if 0x9FC00 \<le> a \<and> a < 0x9FC74 then mp_ex_bytes ! unat (a - 0x9FC00)
     else if a = 0x40E then 0xC0 else if a = 0x40F then 0x9F else 0)"

definition mp_ex_es :: "mpentry list" where
  "mp_ex_es = [EProc 0 1, EProc 1 3, EOther 1, EIoapic 2]"

lemma mp_ex_byte: "k < 116 \<Longrightarrow> mp_ex_mem (0x9FC00 + of_nat k) = mp_ex_bytes ! k"
proof -
  assume k: "k < 116"
  then have u: "unat (0x9FC00 + of_nat k :: u32) = 0x9FC00 + k" by (subst unat_add_of_nat) simp_all
  with k have "0x9FC00 \<le> (0x9FC00 + of_nat k :: u32)" "(0x9FC00 + of_nat k :: u32) < 0x9FC74"
    by (auto simp: word_le_nat_alt word_less_nat_alt)
  then show ?thesis using k by (simp add: mp_ex_mem_def unat_of_nat)
qed

lemma mp_ex_mem_bytes:
  "k + n \<le> 116 \<Longrightarrow> mem_bytes mp_ex_mem (0x9FC00 + of_nat k) n = take n (drop k mp_ex_bytes)"
  using mp_ex_byte by (intro nth_equalityI) (auto simp: mem_bytes_def add.assoc mp_ex_bytes_def simp flip: of_nat_add)

lemma mp_scan_here: "mp_here m a \<Longrightarrow> a < a + of_nat len \<Longrightarrow> 0 < len \<Longrightarrow> mp_scan m a len = a"
  by (simp add: mp_scan_def mp_places_def upt_conv_Cons)

lemma mp_ex_here: "mp_here mp_ex_mem 0x9FC00"
  using mp_ex_mem_bytes [of 0 4] mp_ex_mem_bytes [of 0 16]
  by (simp add: mp_here_def mp_sum_def) (simp add: mp_ex_bytes_def bytes_def)
lemma mp_ex_fields:
  "bda_ebda mp_ex_mem = 0x9FC00" "mp_physaddr mp_ex_mem 0x9FC00 = 0x9FC10" "mp_imcrp mp_ex_mem 0x9FC00 = 128"
  "conf_length mp_ex_mem 0x9FC10 = 100" "conf_version mp_ex_mem 0x9FC10 = 4" "conf_lapicaddr mp_ex_mem 0x9FC10 = 0xFEE00000"
  by (simp_all add: bda_ebda_def mp_physaddr_def mp_imcrp_def conf_length_def conf_version_def conf_lapicaddr_def
    ld32_def ld16_def mp_ex_mem_def mp_ex_bytes_def nth_append)

lemma mp_ex_table: "mp_table mp_ex_mem = Some (0x9FC00, 0x9FC10)"
proof -
  have "mpconf_ok mp_ex_mem 0x9FC10"
    using mp_ex_mem_bytes [of 16 4] mp_ex_mem_bytes [of 16 100]
    by (simp add: mpconf_ok_def mp_sum_def mp_ex_fields) (simp add: mp_ex_bytes_def bytes_def sum_list_replicate)
  moreover have "mp_root mp_ex_mem = 0x9FC00"
    using mp_scan_here [OF mp_ex_here, of 1024] by (simp add: mp_root_def mp_ex_fields)
  ultimately show ?thesis by (simp add: mp_table_def mp_ex_fields)
qed

lemma mp_ex_at: "table_at mp_ex_mem 0x9FC10 mp_ex_es"
  by (simp add: table_at_def mp_ex_fields mp_ex_es_def MPPROC_def MPBUS_def MPIOAPIC_def)
    (simp add: mp_ex_mem_def mp_ex_bytes_def nth_append)

lemma mp_ex_numbered: "numbered 1 (procs mp_ex_es)"
  by (auto simp: numbered_def mp_ex_es_def NCPU_def MPBOOT_def less_Suc_eq numeral_2_eq_2)

definition mp_ex_st :: mpst where
  "mp_ex_st = trapst.extend (consst.extend (cons_st\<lparr>cons_locking := False, pmem := mp_ex_mem\<rparr>)
     (trapst.fields (\<lambda>_. SETGATE False 0 0 0) (\<lambda>_. False))) (mpst.fields 0 0)"

lemma mp_ex_st_sel: "mp_early mp_ex_st" "ncpu mp_ex_st = 0" "pmem mp_ex_st = mp_ex_mem"
  using cons_st_sel(7,8)
  by (simp_all add: mp_early_def mp_ex_st_def trapst.defs mpst.defs consst.defs cga_inv_def)

lemma mpinit_collects_witness:
  "wp (thn (mpinit (\<lambda>_ _. 0) 0) mpbcpu) (\<lambda>r t.
      r = 1 \<and> ncpu t = 2 \<and> cpu_id (cpus t 1) = 1 \<and> ismp (dev t) \<and> ioapicid (dev t) = 2 \<and> pmem t = mp_ex_mem) mp_ex_st"
  by (rule wp_mono [OF mpinit_collects [of mp_ex_st "0x9FC00" "0x9FC10" mp_ex_es 1]])
    (simp_all add: mp_ex_st_sel mp_ex_table mp_ex_at mp_ex_fields mp_ex_numbered [simplified], simp_all add: mp_ex_es_def)

end
