(* ===== verification/Grep.thy ===== *)
theory Grep
  imports Strings
begin

text \<open>
  The pattern matcher of \<^verbatim>\<open>grep.c\<close>. Patterns and texts are strings without their terminating
  zero: the end of the list is the zero byte that the code tests for.

  Shown: the matcher decides the language of its patterns, given by a separate reading of a pattern as
  a sequence of starred and plain characters.
\<close>

section \<open>The matcher\<close>

text \<open>\<^verbatim>\<open>matchhere\<close> and \<^verbatim>\<open>matchstar\<close>, which call each other. The characters are
  \<open>42\<close> for a star, \<open>36\<close> for a dollar, \<open>46\<close> for a dot, \<open>94\<close> for a caret.\<close>

function matchhere :: "u8 list \<Rightarrow> u8 list \<Rightarrow> bool" and matchstar :: "u8 \<Rightarrow> u8 list \<Rightarrow> u8 list \<Rightarrow> bool" where
  "matchhere re str =
    (case re of
       [] \<Rightarrow> True
     | c # re' \<Rightarrow>
         if re' \<noteq> [] \<and> hd re' = 42 then matchstar c (tl re') str
         else if c = 36 \<and> re' = [] then str = []
         else if str \<noteq> [] \<and> (c = 46 \<or> c = hd str) then matchhere re' (tl str)
         else False)"
| "matchstar c re str =
    (if matchhere re str then True
     else if str \<noteq> [] \<and> (hd str = c \<or> c = 46) then matchstar c re (tl str)
     else False)"
  by pat_completeness auto
termination
  by (relation "measures [case_sum (\<lambda>(re, t). 2 * length re) (\<lambda>(c, re, t). 2 * length re + 1),
      case_sum (\<lambda>(re, t). length t) (\<lambda>(c, re, t). length t)]") (auto simp: neq_Nil_conv)

declare matchhere.simps [simp del] matchstar.simps [simp del]

text \<open>The loop of \<^verbatim>\<open>match\<close> looks at every suffix of the text, the empty one included.\<close>

primrec match_from :: "u8 list \<Rightarrow> u8 list \<Rightarrow> bool" where
  "match_from re [] = matchhere re []"
| "match_from re (c # str) = (matchhere re (c # str) \<or> match_from re str)"

definition match :: "u8 list \<Rightarrow> u8 list \<Rightarrow> bool" where
  "match re str = (if re \<noteq> [] \<and> hd re = 94 then matchhere (tl re) str else match_from re str)"

section \<open>The loop over the lines\<close>

text \<open>The inner loop of \<^verbatim>\<open>grep\<close>: the buffer, the index \<open>p\<close> and the bytes written. \<open>None\<close>: the search for a
  newline runs off the buffer, which has no zero byte to stop it.\<close>

function grep_lines :: "u8 list \<Rightarrow> u8 list \<Rightarrow> nat \<Rightarrow> u8 list \<Rightarrow> (u8 list \<times> nat \<times> u8 list) option" where
  "grep_lines pattern buf p out =
    (if length buf \<le> p then None
     else case strchr (drop p buf) 10 of
       None \<Rightarrow> None
     | Some None \<Rightarrow> Some (buf, p, out)
     | Some (Some k) \<Rightarrow>
         let line = take k (drop p buf); q = p + k in
         if match pattern line then grep_lines pattern buf (q + 1) (out @ line @ [10])
         else grep_lines pattern (buf[q := 0]) (q + 1) out)"
  by pat_completeness auto
termination by (relation "measure (\<lambda>(_, buf, p, _). length buf - p)") auto

text \<open>One round of the outer loop, with what \<^verbatim>\<open>read\<close> put into the buffer after its first \<open>m\<close> bytes.\<close>

definition grep_round :: "u8 list \<Rightarrow> u8 list \<Rightarrow> u8 list \<times> nat \<times> u8 list \<Rightarrow> (u8 list \<times> nat \<times> u8 list) option" where
  "grep_round pattern got = (\<lambda>(buf, m, out).
    let buf = take m buf @ got @ drop (m + length got) buf; m = m + length got in
    Option.bind (grep_lines pattern buf 0 out) (\<lambda>(buf, p, out).
    let m = (if p = 0 then 0 else m) in
    if 0 < m then let m = m - p in Some (take m (drop p buf) @ drop m buf, m, out)
    else Some (buf, m, out)))"

text \<open>The outer loop, over what the successive calls of \<^verbatim>\<open>read\<close> return; \<open>[]\<close> is the end of the file.\<close>

fun grep :: "u8 list \<Rightarrow> u8 list list \<Rightarrow> u8 list \<times> nat \<times> u8 list \<Rightarrow> u8 list option" where
  "grep pattern [] (buf, m, out) = Some out"
| "grep pattern (got # rest) st =
    (if got = [] then Some (snd (snd st))
     else Option.bind (grep_round pattern got st) (grep pattern rest))"

section \<open>Equations\<close>

lemma matchhere_Nil: "matchhere [] str"
  by (simp add: matchhere.simps)

lemma matchhere_star: "matchhere (c # 42 # re) str = matchstar c re str"
  by (simp add: matchhere.simps [of "c # 42 # re"])

lemma matchhere_dollar: "matchhere [36] str = (str = [])"
  by (simp add: matchhere.simps [of "[36]"])

lemma matchhere_char:
  assumes "\<not> (re \<noteq> [] \<and> hd re = 42)" "\<not> (c = 36 \<and> re = [])"
  shows "matchhere (c # re) str \<longleftrightarrow> str \<noteq> [] \<and> (c = 46 \<or> c = hd str) \<and> matchhere re (tl str)"
  unfolding matchhere.simps [of "c # re"] list.case if_not_P [OF assms(1)] if_not_P [OF assms(2)] by simp

section \<open>Patterns and their languages\<close>

text \<open>A pattern is a sequence of characters, each starred or not, and possibly a dollar at the end.\<close>

fun items :: "u8 list \<Rightarrow> (u8 \<times> bool) list \<times> bool" where
  "items [] = ([], False)"
| "items [c] = (if c = 36 then ([], True) else ([(c, False)], False))"
| "items (c # d # re) =
    (if d = 42 then map_prod (Cons (c, True)) id (items re) else map_prod (Cons (c, False)) id (items (d # re)))"

definition accepts :: "u8 \<Rightarrow> u8 \<Rightarrow> bool" where
  "accepts c x \<longleftrightarrow> c = 46 \<or> c = x"

fun lang :: "(u8 \<times> bool) list \<Rightarrow> u8 list set" where
  "lang [] = {[]}"
| "lang ((c, False) # is) = {x # w | x w. accepts c x \<and> w \<in> lang is}"
| "lang ((c, True) # is) = {u @ w | u w. list_all (accepts c) u \<and> w \<in> lang is}"

text \<open>A pattern matches at the beginning of a text: a prefix is in the language, and it is the whole text
  when there is a dollar.\<close>

definition matches :: "u8 list \<Rightarrow> u8 list \<Rightarrow> bool" where
  "matches re str \<longleftrightarrow> (\<exists>u v. str = u @ v \<and> u \<in> lang (fst (items re)) \<and> (if snd (items re) then v = [] else True))"

lemma matches_Nil: "matches [] str"
  by (simp add: matches_def)

lemma matches_dollar: "matches [36] str \<longleftrightarrow> str = []"
  by (simp add: matches_def)

lemma matches_char:
  assumes "re = [] \<Longrightarrow> c \<noteq> 36" "re \<noteq> [] \<Longrightarrow> hd re \<noteq> 42"
  shows "matches (c # re) str \<longleftrightarrow> (\<exists>x t. str = x # t \<and> accepts c x \<and> matches re t)"
proof -
  have "items (c # re) = map_prod (Cons (c, False)) id (items re)" using assms by (cases re) auto
  then show ?thesis by (auto simp: matches_def Cons_eq_append_conv) blast+
qed

lemma matches_star: "matches (c # 42 # re) str \<longleftrightarrow> (\<exists>u v. str = u @ v \<and> list_all (accepts c) u \<and> matches re v)"
proof -
  have "(\<exists>x v. str = x @ v \<and> (\<exists>u w. x = u @ w \<and> list_all (accepts c) u \<and> w \<in> L) \<and> R v) \<longleftrightarrow>
    (\<exists>u y. str = u @ y \<and> list_all (accepts c) u \<and> (\<exists>w v. y = w @ v \<and> w \<in> L \<and> R v))" for L R
    by (metis append.assoc)
  then show ?thesis by (simp add: matches_def)
qed

lemma star_Nil: "(\<exists>u v. [] = u @ v \<and> list_all (accepts c) u \<and> P v) \<longleftrightarrow> P []"
  by auto

lemma star_Cons:
  "(\<exists>u v. x # t = u @ v \<and> list_all (accepts c) u \<and> P v) \<longleftrightarrow>
    P (x # t) \<or> accepts c x \<and> (\<exists>u v. t = u @ v \<and> list_all (accepts c) u \<and> P v)"
  (is "?L \<longleftrightarrow> ?R")
proof
  assume ?L
  then obtain u v where "x # t = u @ v" "list_all (accepts c) u" "P v" by blast
  then show ?R by (cases u) auto
next
  assume ?R
  then show ?L
  proof
    assume "P (x # t)"
    then show ?L by (intro exI [of _ "[]"] exI [of _ "x # t"]) simp
  next
    assume "accepts c x \<and> (\<exists>u v. t = u @ v \<and> list_all (accepts c) u \<and> P v)"
    then obtain u v where "accepts c x" "t = u @ v" "list_all (accepts c) u" "P v" by blast
    then show ?L by (intro exI [of _ "x # u"] exI [of _ v]) simp
  qed
qed

lemma matchhere_matches:
  "matchhere re str \<longleftrightarrow> matches re str"
  and matchstar_matches: "matchstar c re str \<longleftrightarrow> (\<exists>u v. str = u @ v \<and> list_all (accepts c) u \<and> matches re v)"
proof (induction re str and c re str rule: matchhere_matchstar.induct)
  case (1 re str)
  show ?case
  proof (cases re)
    case (Cons c re')
    consider (star) "re' \<noteq> [] \<and> hd re' = 42" | (dollar) "c = 36" "re' = []" | (char) "re' = [] \<Longrightarrow> c \<noteq> 36" "re' \<noteq> [] \<Longrightarrow> hd re' \<noteq> 42"
      by auto
    then show ?thesis
    proof cases
      case star
      then obtain r where "re' = 42 # r" by (cases re') auto
      with Cons star 1 show ?thesis by (simp add: matchhere_star matches_star)
    next
      case dollar
      with Cons show ?thesis by (simp add: matchhere_dollar matches_dollar)
    next
      case char
      then have n: "\<not> (re' \<noteq> [] \<and> hd re' = 42)" "\<not> (c = 36 \<and> re' = [])" by auto
      have "matchhere re str \<longleftrightarrow> str \<noteq> [] \<and> accepts c (hd str) \<and> matchhere re' (tl str)"
        unfolding Cons matchhere_char [OF n] accepts_def ..
      also have "\<dots> \<longleftrightarrow> str \<noteq> [] \<and> accepts c (hd str) \<and> matches re' (tl str)"
        using 1(2) [OF Cons n] by (auto simp: accepts_def)
      also have "\<dots> \<longleftrightarrow> matches re str" using matches_char [OF char, of str] by (cases str) (simp_all add: Cons)
      finally show ?thesis .
    qed
  qed (simp add: matchhere_Nil matches_Nil)
next
  case (2 c re str)
  show ?case
  proof (cases str)
    case Nil
    show ?thesis using 2(1) unfolding Nil star_Nil by (simp add: matchstar.simps [of c re "[]"])
  next
    case (Cons x t)
    have "accepts c x \<longleftrightarrow> x = c \<or> c = 46" by (auto simp: accepts_def)
    then show ?thesis using 2 unfolding Cons star_Cons
      by (cases "matchhere re (x # t)"; cases "x = c \<or> c = 46") (simp_all add: matchstar.simps [of c re "x # t"])
  qed
qed

lemma match_from_matches: "match_from re str \<longleftrightarrow> (\<exists>u v. str = u @ v \<and> matches re v)"
  by (induction str) (auto simp: matchhere_matches Cons_eq_append_conv)

section \<open>The lines printed\<close>

definition plain :: "u8 list \<Rightarrow> bool" where
  "plain l \<longleftrightarrow> 0 \<notin> set l \<and> 10 \<notin> set l"

definition unlines :: "u8 list list \<Rightarrow> u8 list" where
  "unlines ls = concat (map (\<lambda>l. l @ [10]) ls)"

lemma unlines_simps [simp]: "unlines [] = []" "unlines (l # ls) = l @ 10 # unlines ls"
  by (simp_all add: unlines_def)

lemma strchr_plain_newline: "plain l \<Longrightarrow> strchr (l @ 10 # r) 10 = Some (Some (length l))"
  by (induction l) (auto simp: plain_def)

lemma strchr_plain_end: "plain l \<Longrightarrow> strchr (l @ 0 # r) 10 = Some None"
  by (induction l) (auto simp: plain_def)

text \<open>Of whole lines followed by the beginning of one more and a zero byte, the lines that match are
  printed in their order, and the loop stops at the beginning of the last one.\<close>

lemma grep_lines_prints:
  assumes "\<forall>l\<in>set ls. plain l" "plain l'"
  shows "\<exists>buf. grep_lines pattern (pre @ unlines ls @ l' @ 0 # post) (length pre) out
    = Some (buf, length pre + length (unlines ls), out @ unlines (filter (match pattern) ls))"
  using assms(1)
proof (induction ls arbitrary: pre out)
  case Nil
  then show ?case using strchr_plain_end [OF assms(2)] by (subst grep_lines.simps) simp
next
  case (Cons l ls)
  have l: "strchr (l @ 10 # unlines ls @ l' @ 0 # post) 10 = Some (Some (length l))"
    using Cons.prems by (intro strchr_plain_newline) simp
  show ?case
  proof (cases "match pattern l")
    case True
    then show ?thesis using Cons.IH [of "pre @ l @ [10]" "out @ l @ [10]"] Cons.prems
      by (subst grep_lines.simps) (simp add: l Let_def add.assoc del: grep_lines.simps)
  next
    case False
    then show ?thesis using Cons.IH [of "pre @ l @ [0]" out] Cons.prems
      by (subst grep_lines.simps) (simp add: l Let_def list_update_append add.assoc del: grep_lines.simps)
  qed
qed

text \<open>C38. The matcher is equivalent to the reading of patterns as languages: a pattern that starts with a caret
  matches a text when the rest of it matches at the beginning, any other pattern when it matches at the
  beginning of some suffix.\<close>

theorem match_decides:
  "match re str \<longleftrightarrow> (\<exists>u v. str = u @ v \<and>
    (if re \<noteq> [] \<and> hd re = 94 then u = [] \<and> matches (tl re) v else matches re v))"
  by (auto simp: match_def matchhere_matches match_from_matches)

end
