(* ===== verification/Shell.thy ===== *)
theory Shell
  imports Strings
begin

text \<open>
  The shell (\<^verbatim>\<open>sh.c\<close>): its lexer, its recursive descent parser, the search path, and what a parsed
  command runs.

  A pointer into the command line is an index into the buffer. A command keeps its words as the pairs of
  indices that the code stores, and \<^verbatim>\<open>nulterminate\<close> then ends them in the buffer; \<open>'w\<close> is the type of
  a word, so that the same type serves for commands over strings. A parser returns \<open>None\<close> when the fuel
  for its recursion is used up, \<open>Inl\<close> the message with which the code ends the process, or \<open>Inr\<close> a result and
  the new index. Each allocation is taken to succeed.

  Shown: the parser ends on every line; after it every word of the command is a string of its own in the
  buffer; and it reads back every command that is written out as a line.
\<close>

section \<open>Commands\<close>

datatype 'w cmd =
    EXEC "'w list"
  | REDIR "'w cmd" 'w int int
  | PIPE "'w cmd" "'w cmd"
  | LIST "'w cmd" "'w cmd"
  | BACK "'w cmd"

type_synonym word_at = "nat \<times> nat"

definition MAXARGS :: nat where "MAXARGS = 10"

definition sh_rdonly :: int where "sh_rdonly = 0"
definition sh_create :: int where "sh_create = 0x201"

section \<open>The lexer\<close>

definition whitespace :: "u8 list" where "whitespace = [32, 9, 13, 10, 11, 0]"
definition symbols :: "u8 list" where "symbols = [60, 124, 62, 38, 59, 40, 41, 0]"

text \<open>\<^verbatim>\<open>strchr\<close> answers a null pointer for the terminating zero too.\<close>

definition found :: "u8 list \<Rightarrow> u8 \<Rightarrow> bool" where
  "found s c \<longleftrightarrow> strchr s c \<noteq> Some None"

function skip_white :: "u8 list \<Rightarrow> nat \<Rightarrow> nat \<Rightarrow> nat" where
  "skip_white buf es s = (if s < es \<and> found whitespace (buf ! s) then skip_white buf es (s + 1) else s)"
  by pat_completeness auto
termination by (relation "measure (\<lambda>(_, es, s). es - s)") auto

function skip_word :: "u8 list \<Rightarrow> nat \<Rightarrow> nat \<Rightarrow> nat" where
  "skip_word buf es s =
    (if s < es \<and> \<not> found whitespace (buf ! s) \<and> \<not> found symbols (buf ! s) then skip_word buf es (s + 1) else s)"
  by pat_completeness auto
termination by (relation "measure (\<lambda>(_, es, s). es - s)") auto

declare skip_white.simps [simp del] skip_word.simps [simp del]

text \<open>The code of the token, its first and last index, and the index of what follows it.\<close>

definition gettoken :: "u8 list \<Rightarrow> nat \<Rightarrow> nat \<Rightarrow> u8 \<times> nat \<times> nat \<times> nat" where
  "gettoken buf es s =
    (let q = skip_white buf es s; c = buf ! q;
         (tk, eq) =
           (if c = 0 then (c, q)
            else if c \<in> {124, 40, 41, 59, 38, 60} then (c, q + 1)
            else if c = 62 then (if buf ! (q + 1) = 62 then (43, q + 2) else (c, q + 1))
            else (97, skip_word buf es q))
     in (tk, q, eq, skip_white buf es eq))"

definition peek :: "u8 list \<Rightarrow> nat \<Rightarrow> u8 list \<Rightarrow> nat \<Rightarrow> bool \<times> nat" where
  "peek buf es toks s =
    (let s = skip_white buf es s in (buf ! s \<noteq> 0 \<and> found toks (buf ! s), s))"

section \<open>The parser\<close>

type_synonym 'a parser = "nat \<Rightarrow> (string + 'a \<times> nat) option"

definition pret :: "'a \<Rightarrow> 'a parser" where
  "pret a s = Some (Inr (a, s))"

definition perr :: "string \<Rightarrow> 'a parser" where
  "perr msg s = Some (Inl msg)"

definition pbind :: "'a parser \<Rightarrow> ('a \<Rightarrow> 'b parser) \<Rightarrow> 'b parser" where
  "pbind m f s = (case m s of None \<Rightarrow> None | Some (Inl e) \<Rightarrow> Some (Inl e) | Some (Inr (a, s')) \<Rightarrow> f a s')"

definition ptok :: "u8 list \<Rightarrow> nat \<Rightarrow> (u8 \<times> word_at) parser" where
  "ptok buf es s = (case gettoken buf es s of (tk, q, eq, s') \<Rightarrow> Some (Inr ((tk, (q, eq)), s')))"

definition ppeek :: "u8 list \<Rightarrow> nat \<Rightarrow> u8 list \<Rightarrow> bool parser" where
  "ppeek buf es toks s = Some (Inr (peek buf es toks s))"

text \<open>The loops of the parser read at least one token in each round, so \<open>es + 1\<close> rounds are enough.\<close>

fun parseredirs_loop :: "u8 list \<Rightarrow> nat \<Rightarrow> nat \<Rightarrow> word_at cmd \<Rightarrow> word_at cmd parser" where
  "parseredirs_loop buf es 0 cmd = (\<lambda>s. None)"
| "parseredirs_loop buf es (Suc k) cmd =
    pbind (ppeek buf es [60, 62, 0]) (\<lambda>more.
    if \<not> more then pret cmd
    else
    pbind (ptok buf es) (\<lambda>(op, _).
    pbind (ptok buf es) (\<lambda>(tk, w).
    if tk \<noteq> 97 then perr ''missing file for redirection''
    else parseredirs_loop buf es k
      (if op = 60 then REDIR cmd w sh_rdonly 0
       else if op = 62 then REDIR cmd w sh_create 1
       else if op = 43 then REDIR cmd w sh_create 1
       else cmd))))"

definition parseredirs :: "u8 list \<Rightarrow> nat \<Rightarrow> word_at cmd \<Rightarrow> word_at cmd parser" where
  "parseredirs buf es cmd = parseredirs_loop buf es (es + 1) cmd"

text \<open>\<^verbatim>\<open>parseexec\<close> keeps a pointer to the command it fills while redirections are put around it.\<close>

primrec add_arg :: "'w \<Rightarrow> 'w cmd \<Rightarrow> 'w cmd" where
  "add_arg w (EXEC ws) = EXEC (ws @ [w])"
| "add_arg w (REDIR c f m d) = REDIR (add_arg w c) f m d"
| "add_arg w (PIPE a b) = PIPE a b"
| "add_arg w (LIST a b) = LIST a b"
| "add_arg w (BACK c) = BACK c"

fun parseargs :: "u8 list \<Rightarrow> nat \<Rightarrow> nat \<Rightarrow> nat \<Rightarrow> word_at cmd \<Rightarrow> word_at cmd parser" where
  "parseargs buf es 0 argc cmd = (\<lambda>s. None)"
| "parseargs buf es (Suc k) argc cmd =
    pbind (ppeek buf es [124, 41, 38, 59, 0]) (\<lambda>stop.
    if stop then pret cmd
    else
    pbind (ptok buf es) (\<lambda>(tk, w).
    if tk = 0 then pret cmd
    else if tk \<noteq> 97 then perr ''syntax''
    else if argc + 1 \<ge> MAXARGS then perr ''too many args''
    else
    pbind (parseredirs buf es (add_arg w cmd)) (\<lambda>cmd.
    parseargs buf es k (argc + 1) cmd)))"

fun parseback :: "u8 list \<Rightarrow> nat \<Rightarrow> nat \<Rightarrow> word_at cmd \<Rightarrow> word_at cmd parser" where
  "parseback buf es 0 cmd = (\<lambda>s. None)"
| "parseback buf es (Suc k) cmd =
    pbind (ppeek buf es [38, 0]) (\<lambda>more.
    if more then pbind (ptok buf es) (\<lambda>_. parseback buf es k (BACK cmd)) else pret cmd)"

fun parseline :: "u8 list \<Rightarrow> nat \<Rightarrow> nat \<Rightarrow> word_at cmd parser"
  and parsepipe :: "u8 list \<Rightarrow> nat \<Rightarrow> nat \<Rightarrow> word_at cmd parser"
  and parseblock :: "u8 list \<Rightarrow> nat \<Rightarrow> nat \<Rightarrow> word_at cmd parser"
  and parseexec :: "u8 list \<Rightarrow> nat \<Rightarrow> nat \<Rightarrow> word_at cmd parser" where
  "parseline buf es 0 = (\<lambda>s. None)"
| "parseline buf es (Suc n) =
    pbind (parsepipe buf es n) (\<lambda>cmd.
    pbind (parseback buf es (es + 1) cmd) (\<lambda>cmd.
    pbind (ppeek buf es [59, 0]) (\<lambda>more.
    if more then
      pbind (ptok buf es) (\<lambda>_.
      pbind (parseline buf es n) (\<lambda>rest. pret (LIST cmd rest)))
    else pret cmd)))"
| "parsepipe buf es 0 = (\<lambda>s. None)"
| "parsepipe buf es (Suc n) =
    pbind (parseexec buf es n) (\<lambda>cmd.
    pbind (ppeek buf es [124, 0]) (\<lambda>more.
    if more then
      pbind (ptok buf es) (\<lambda>_.
      pbind (parsepipe buf es n) (\<lambda>rest. pret (PIPE cmd rest)))
    else pret cmd))"
| "parseblock buf es 0 = (\<lambda>s. None)"
| "parseblock buf es (Suc n) =
    pbind (ppeek buf es [40, 0]) (\<lambda>open.
    if \<not> open then perr ''parseblock''
    else
    pbind (ptok buf es) (\<lambda>_.
    pbind (parseline buf es n) (\<lambda>cmd.
    pbind (ppeek buf es [41, 0]) (\<lambda>close.
    if \<not> close then perr ''syntax - missing )''
    else
    pbind (ptok buf es) (\<lambda>_.
    parseredirs buf es cmd)))))"
| "parseexec buf es 0 = (\<lambda>s. None)"
| "parseexec buf es (Suc n) =
    pbind (ppeek buf es [40, 0]) (\<lambda>block.
    if block then parseblock buf es n
    else
    pbind (parseredirs buf es (EXEC [])) (\<lambda>cmd.
    parseargs buf es (es + 1) 0 cmd))"

text \<open>The ends of the words are written in the order in which the code walks over the command.\<close>

primrec nulterminate :: "word_at cmd \<Rightarrow> u8 list \<Rightarrow> u8 list" where
  "nulterminate (EXEC ws) buf = fold (\<lambda>(q, eq) b. b[eq := 0]) ws buf"
| "nulterminate (REDIR c f m d) buf = (nulterminate c buf)[snd f := 0]"
| "nulterminate (PIPE a b) buf = nulterminate b (nulterminate a buf)"
| "nulterminate (LIST a b) buf = nulterminate b (nulterminate a buf)"
| "nulterminate (BACK c) buf = nulterminate c buf"

text \<open>The recursion goes down from \<^verbatim>\<open>parseline\<close> to itself in at most four calls and reads a token on the
  way; \<open>parsecmd_fuel\<close> is enough for a line of \<open>es\<close> bytes.\<close>

definition parsecmd_fuel :: "nat \<Rightarrow> nat" where "parsecmd_fuel es = 4 * es + 4"

definition parsecmd :: "u8 list \<Rightarrow> (string + word_at cmd \<times> u8 list) option" where
  "parsecmd buf =
    Option.bind (strlen buf) (\<lambda>es.
    case pbind (parseline buf es (parsecmd_fuel es)) (\<lambda>cmd. pbind (ppeek buf es [0]) (\<lambda>_. pret cmd)) 0 of
      None \<Rightarrow> None
    | Some (Inl msg) \<Rightarrow> Some (Inl msg)
    | Some (Inr (cmd, s)) \<Rightarrow>
        if s \<noteq> es then Some (Inl ''syntax'') else Some (Inr (cmd, nulterminate cmd buf)))"

section \<open>The parser ends and its words are strings\<close>

definition line_ok :: "u8 list \<Rightarrow> nat \<Rightarrow> bool" where
  "line_ok buf es \<longleftrightarrow> es < length buf \<and> buf ! es = 0 \<and> (\<forall>i<es. buf ! i \<noteq> 0)"

definition word_char :: "u8 \<Rightarrow> bool" where
  "word_char c \<longleftrightarrow> c \<noteq> 0 \<and> \<not> found whitespace c \<and> \<not> found symbols c"

definition word_ok :: "u8 list \<Rightarrow> nat \<Rightarrow> word_at \<Rightarrow> bool" where
  "word_ok buf es = (\<lambda>(q, eq). q < eq \<and> eq \<le> es \<and> (\<forall>i. q \<le> i \<and> i < eq \<longrightarrow> word_char (buf ! i))
     \<and> \<not> word_char (buf ! eq))"

abbreviation words_ok :: "u8 list \<Rightarrow> nat \<Rightarrow> word_at cmd \<Rightarrow> bool" where
  "words_ok buf es cmd \<equiv> \<forall>w\<in>set_cmd cmd. word_ok buf es w"

lemma found_simps:
  "found whitespace c \<longleftrightarrow> c \<in> {32, 9, 13, 10, 11}"
  "found symbols c \<longleftrightarrow> c \<in> {60, 124, 62, 38, 59, 40, 41}"
  by (auto simp: found_def whitespace_def symbols_def)

lemma found_lits:
  "found [60, 62, 0] c \<longleftrightarrow> c \<in> {60, 62}" "found [124, 41, 38, 59, 0] c \<longleftrightarrow> c \<in> {124, 41, 38, 59}"
  "found [38, 0] c \<longleftrightarrow> c = 38" "found [59, 0] c \<longleftrightarrow> c = 59" "found [124, 0] c \<longleftrightarrow> c = 124"
  "found [40, 0] c \<longleftrightarrow> c = 40" "found [41, 0] c \<longleftrightarrow> c = 41" "\<not> found [0] c"
  by (auto simp: found_def)

lemma skip_white_bounds:
  "s \<le> es \<Longrightarrow> s \<le> skip_white buf es s \<and> skip_white buf es s \<le> es
   \<and> (skip_white buf es s = es \<or> \<not> found whitespace (buf ! skip_white buf es s))"
proof (induction buf es s rule: skip_white.induct)
  case (1 buf es s)
  then show ?case by (subst (1 2 3 4) skip_white.simps) auto
qed

lemma skip_white_stop: "s = es \<or> \<not> found whitespace (buf ! s) \<Longrightarrow> skip_white buf es s = s"
  by (subst skip_white.simps) auto

lemma skip_word_bounds:
  "line_ok buf es \<Longrightarrow> s \<le> es \<Longrightarrow> s \<le> skip_word buf es s \<and> skip_word buf es s \<le> es
   \<and> (\<forall>i. s \<le> i \<and> i < skip_word buf es s \<longrightarrow> word_char (buf ! i)) \<and> \<not> word_char (buf ! skip_word buf es s)"
proof (induction buf es s rule: skip_word.induct)
  case (1 buf es s)
  show ?case
  proof (cases "s < es \<and> \<not> found whitespace (buf ! s) \<and> \<not> found symbols (buf ! s)")
    case True
    then have "word_char (buf ! s)" using "1.prems"(1) by (auto simp: word_char_def line_ok_def)
    then have "word_char (buf ! i)" if "s \<le> i" "i < skip_word buf es (s + 1)" for i
      using that 1 True by (cases "i = s") auto
    with 1 True show ?thesis by (subst (1 2 3 4) skip_word.simps) auto
  next
    case False
    with "1.prems" show ?thesis
      by (subst (1 2 3 4) skip_word.simps) (auto simp: word_char_def line_ok_def)
  qed
qed

lemma gettoken_bounds:
  assumes "line_ok buf es" "s \<le> es" "gettoken buf es s = (tk, q, eq, s')"
  shows "s \<le> s'" "s' \<le> es" "tk \<noteq> 0 \<Longrightarrow> s < s'" "tk = 97 \<Longrightarrow> word_ok buf es (q, eq)"
proof -
  have q: "q = skip_white buf es s" using assms(3) by (auto simp: gettoken_def Let_def split: prod.splits)
  have s: "s \<le> q" "q \<le> es" "q = es \<or> \<not> found whitespace (buf ! q)"
    using skip_white_bounds [OF assms(2), of buf] unfolding q by auto
  have lt: "q < es" if "buf ! q \<noteq> 0" using that s(2) assms(1) by (cases "q = es") (auto simp: line_ok_def)
  have nx: "Suc q < es" if "buf ! q \<noteq> 0" "buf ! Suc q \<noteq> 0"
    using lt [OF that(1)] that(2) assms(1) by (cases "Suc q = es") (auto simp: line_ok_def)
  have eq: "q \<le> eq \<and> eq \<le> es \<and> (tk \<noteq> 0 \<longrightarrow> q < eq) \<and> (tk = 97 \<longrightarrow> word_ok buf es (q, eq))"
  proof (cases "buf ! q \<in> {0, 124, 40, 41, 59, 38, 60, 62}")
    case True
    with assms(3) s(2) lt nx show ?thesis
      unfolding gettoken_def q [symmetric] by (auto simp: Let_def split: if_splits)
  next
    case False
    then have e: "tk = 97" "eq = skip_word buf es q"
      using assms(3) unfolding gettoken_def q [symmetric] by (auto simp: Let_def)
    have "word_char (buf ! q)" using False s(3) lt by (auto simp: word_char_def found_simps)
    with e skip_word_bounds [OF assms(1) s(2)] show ?thesis
      by (auto simp: word_ok_def le_less)
  qed
  have "s' = skip_white buf es eq" using assms(3) by (auto simp: gettoken_def Let_def split: prod.splits)
  then have "eq \<le> s'" "s' \<le> es" using skip_white_bounds [of eq es buf] eq by auto
  with s eq show "s \<le> s'" "s' \<le> es" "tk \<noteq> 0 \<Longrightarrow> s < s'" "tk = 97 \<Longrightarrow> word_ok buf es (q, eq)" by auto
qed

lemma peek_bounds:
  assumes "line_ok buf es" "s \<le> es" "peek buf es toks s = (b, s')"
  shows "s \<le> s'" "s' \<le> es" "b \<Longrightarrow> buf ! s' \<noteq> 0 \<and> found toks (buf ! s')" "s' = es \<or> \<not> found whitespace (buf ! s')"
  using skip_white_bounds [OF assms(2), of buf] assms(3) by (auto simp: peek_def Let_def)

text \<open>Total correctness of a parser up to error messages.\<close>

definition pwp :: "'a parser \<Rightarrow> ('a \<Rightarrow> nat \<Rightarrow> bool) \<Rightarrow> nat \<Rightarrow> bool" where
  "pwp m Q s \<longleftrightarrow> (case m s of None \<Rightarrow> False | Some (Inl e) \<Rightarrow> True | Some (Inr (a, s')) \<Rightarrow> Q a s')"

lemma pwp_bind: "pwp (pbind m f) Q s = pwp m (\<lambda>a. pwp (f a) Q) s"
  by (auto simp: pwp_def pbind_def split: option.splits sum.splits)

lemma pwp_pret: "pwp (pret a) Q s = Q a s" and pwp_perr: "pwp (perr e) Q s"
  by (simp_all add: pwp_def pret_def perr_def)

lemma pwp_mono: "pwp m Q s \<Longrightarrow> (\<And>a t. Q a t \<Longrightarrow> R a t) \<Longrightarrow> pwp m R s"
  by (auto simp: pwp_def split: option.splits sum.splits)

lemma pwp_bindI: "pwp m R s \<Longrightarrow> (\<And>a t. R a t \<Longrightarrow> pwp (f a) Q t) \<Longrightarrow> pwp (pbind m f) Q s"
  unfolding pwp_bind by (rule pwp_mono)

lemma pwp_ptok:
  assumes "line_ok buf es" "s \<le> es"
    and "\<And>tk w t. s \<le> t \<Longrightarrow> t \<le> es \<Longrightarrow> (tk \<noteq> 0 \<Longrightarrow> s < t) \<Longrightarrow> (tk = 97 \<Longrightarrow> word_ok buf es w) \<Longrightarrow> Q (tk, w) t"
  shows "pwp (ptok buf es) Q s"
proof -
  obtain tk q eq s' where g: "gettoken buf es s = (tk, q, eq, s')" by (cases "gettoken buf es s") auto
  show ?thesis using assms(3) [OF gettoken_bounds [OF assms(1,2) g]] g by (simp add: pwp_def ptok_def)
qed

text \<open>After a look ahead that answers yes, the next token is not the end of the line.\<close>

lemma pwp_ppeek:
  assumes "line_ok buf es" "s \<le> es"
    and "\<And>t. s \<le> t \<Longrightarrow> t \<le> es \<Longrightarrow> Q False t"
    and "\<And>t. s \<le> t \<Longrightarrow> t \<le> es \<Longrightarrow> (\<And>tk q eq t'. gettoken buf es t = (tk, q, eq, t') \<Longrightarrow> t < t') \<Longrightarrow> Q True t"
  shows "pwp (ppeek buf es toks) Q s"
proof -
  obtain b s' where p: "peek buf es toks s = (b, s')" by (cases "peek buf es toks s")
  note pb = peek_bounds [OF assms(1,2) p]
  have "s' < t'" if "b" "gettoken buf es s' = (tk, q, eq, t')" for tk q eq t'
  proof -
    have "skip_white buf es s' = s'" using pb(4) by (rule skip_white_stop)
    then have "tk \<noteq> 0" using that pb(3) by (auto simp: gettoken_def Let_def split: if_splits)
    then show ?thesis using gettoken_bounds(3) [OF assms(1) pb(2) that(2)] by simp
  qed
  then show ?thesis using assms(3,4) pb(1,2) p by (cases b) (auto simp: pwp_def ppeek_def)
qed

lemmas parser_simps = parseline.simps parsepipe.simps parseblock.simps parseexec.simps

declare parseredirs_loop.simps [simp del] parseargs.simps [simp del] parseback.simps [simp del]
  parser_simps [simp del]

text \<open>A look ahead followed by the token it saw.\<close>

lemma pwp_peek_tok:
  assumes "line_ok buf es" "s \<le> es"
    and "\<And>t. s \<le> t \<Longrightarrow> t \<le> es \<Longrightarrow> Q False t"
    and "\<And>t tk w t'. s \<le> t \<Longrightarrow> t < t' \<Longrightarrow> t' \<le> es \<Longrightarrow> R (tk, w) t'"
    and "\<And>t. pwp (ptok buf es) R t \<Longrightarrow> Q True t"
  shows "pwp (ppeek buf es toks) Q s"
proof (rule pwp_ppeek [OF assms(1,2)])
  show "Q False t" if "s \<le> t" "t \<le> es" for t using that by (rule assms(3))
next
  fix t assume t: "s \<le> t" "t \<le> es" "\<And>tk q eq t'. gettoken buf es t = (tk, q, eq, t') \<Longrightarrow> t < t'"
  obtain tk q eq t' where g: "gettoken buf es t = (tk, q, eq, t')" by (cases "gettoken buf es t") auto
  have "R (tk, (q, eq)) t'" using assms(4) t(1) t(3) [OF g] gettoken_bounds(2) [OF assms(1) t(2) g] by blast
  then show "Q True t" using g by (intro assms(5)) (simp add: pwp_def ptok_def)
qed

abbreviation parsed :: "u8 list \<Rightarrow> nat \<Rightarrow> nat \<Rightarrow> word_at cmd \<Rightarrow> nat \<Rightarrow> bool" where
  "parsed buf es s cmd t \<equiv> s \<le> t \<and> t \<le> es \<and> words_ok buf es cmd"

lemma parsed_from: "pwp m (parsed buf es t) t \<Longrightarrow> s \<le> t \<Longrightarrow> pwp m (parsed buf es s) t"
  by (erule pwp_mono) auto

lemma parseredirs_loop_parsed:
  "line_ok buf es \<Longrightarrow> s \<le> es \<Longrightarrow> es - s < k \<Longrightarrow> words_ok buf es cmd
   \<Longrightarrow> pwp (parseredirs_loop buf es k cmd) (parsed buf es s) s"
proof (induction k arbitrary: s cmd)
  case (Suc k)
  note ok = Suc.prems(1)
  let ?next = "\<lambda>op. pbind (ptok buf es) (\<lambda>(tk, w).
    if tk \<noteq> 97 then perr ''missing file for redirection''
    else parseredirs_loop buf es k
      (if op = 60 then REDIR cmd w sh_rdonly 0 else if op = 62 then REDIR cmd w sh_create 1
       else if op = 43 then REDIR cmd w sh_create 1 else cmd))"
  have nxt: "pwp (?next op) (parsed buf es s) t'" if t': "s < t'" "t' \<le> es" for op t'
    unfolding pwp_bind
  proof (rule pwp_ptok [OF ok t'(2)])
    fix tk :: u8 and w t assume t: "t' \<le> t" "t \<le> es" "tk = 97 \<Longrightarrow> word_ok buf es w"
    have "pwp (parseredirs_loop buf es k
       (if op = 60 then REDIR cmd w sh_rdonly 0 else if op = 62 then REDIR cmd w sh_create 1
        else if op = 43 then REDIR cmd w sh_create 1 else cmd)) (parsed buf es s) t" if "tk = 97"
      using Suc.prems t that t' by (intro parsed_from [OF Suc.IH]) auto
    then show "pwp (case (tk, w) of (tk, w) \<Rightarrow> if tk \<noteq> 97 then perr ''missing file for redirection''
      else parseredirs_loop buf es k
        (if op = 60 then REDIR cmd w sh_rdonly 0 else if op = 62 then REDIR cmd w sh_create 1
         else if op = 43 then REDIR cmd w sh_create 1 else cmd)) (parsed buf es s) t"
      by (simp add: pwp_perr)
  qed
  show ?case unfolding parseredirs_loop.simps pwp_bind
  proof (rule pwp_peek_tok [OF ok Suc.prems(2), where R = "\<lambda>(op, _). pwp (?next op) (parsed buf es s)"], goal_cases)
    case (2 t tk w t')
    show ?case unfolding prod.case by (rule nxt) (use 2 in auto)
  next
    case (3 t)
    show ?case unfolding if_not_P not_True_eq_False simp_thms if_True if_False pwp_bind
      by (rule pwp_mono [OF 3]) auto
  qed (use Suc.prems(4) in \<open>simp add: pwp_pret\<close>)
qed (simp add: parseredirs_loop.simps)

lemma parseredirs_parsed:
  "line_ok buf es \<Longrightarrow> s \<le> es \<Longrightarrow> words_ok buf es cmd \<Longrightarrow> pwp (parseredirs buf es cmd) (parsed buf es s) s"
  unfolding parseredirs_def by (rule parseredirs_loop_parsed) auto

lemma set_add_arg: "set_cmd (add_arg w c) \<subseteq> insert w (set_cmd c)"
  by (induction c) auto

lemma parseargs_parsed:
  "line_ok buf es \<Longrightarrow> s \<le> es \<Longrightarrow> es - s < k \<Longrightarrow> words_ok buf es cmd
   \<Longrightarrow> pwp (parseargs buf es k argc cmd) (parsed buf es s) s"
proof (induction k arbitrary: s cmd argc)
  case (Suc k)
  note ok = Suc.prems(1)
  let ?body = "pbind (ptok buf es) (\<lambda>(tk, w). if tk = 0 then pret cmd
      else if tk \<noteq> 97 then perr ''syntax'' else if argc + 1 \<ge> MAXARGS then perr ''too many args''
      else pbind (parseredirs buf es (add_arg w cmd)) (\<lambda>cmd. parseargs buf es k (argc + 1) cmd))"
  have body: "pwp ?body (parsed buf es s) t" if t: "s \<le> t" "t \<le> es" for t
    unfolding pwp_bind
  proof (rule pwp_ptok [OF ok t(2)])
    fix tk :: u8 and w t' assume t': "t \<le> t'" "t' \<le> es" "tk \<noteq> 0 \<Longrightarrow> t < t'" "tk = 97 \<Longrightarrow> word_ok buf es w"
    have lt: "t < t'" if "tk = 97" by (rule t'(3)) (simp add: that)
    have rest: "pwp (pbind (parseredirs buf es (add_arg w cmd)) (\<lambda>cmd. parseargs buf es k (argc + 1) cmd))
      (parsed buf es s) t'" if "tk = 97"
    proof (rule pwp_bindI [OF parseredirs_parsed [OF ok t'(2)]])
      show "words_ok buf es (add_arg w cmd)" using set_add_arg [of w cmd] t'(4) that Suc.prems(4) by auto
      fix c u assume "parsed buf es t' c u"
      then show "pwp (parseargs buf es k (argc + 1) c) (parsed buf es s) u"
        using lt [OF that] t(1) Suc.prems by (intro parsed_from [OF Suc.IH]) auto
    qed
    show "pwp (case (tk, w) of (tk, w) \<Rightarrow> if tk = 0 then pret cmd
      else if tk \<noteq> 97 then perr ''syntax'' else if argc + 1 \<ge> MAXARGS then perr ''too many args''
      else pbind (parseredirs buf es (add_arg w cmd)) (\<lambda>cmd. parseargs buf es k (argc + 1) cmd))
      (parsed buf es s) t'"
      using rest t t' Suc.prems(4) by (simp add: pwp_pret pwp_perr)
  qed
  show ?case unfolding parseargs.simps pwp_bind
    by (rule pwp_ppeek [OF ok Suc.prems(2)])
      (use Suc.prems body in \<open>auto simp: pwp_pret pwp_bind\<close>)
qed (simp add: parseargs.simps)

lemma parseback_parsed:
  "line_ok buf es \<Longrightarrow> s \<le> es \<Longrightarrow> es - s < k \<Longrightarrow> words_ok buf es cmd
   \<Longrightarrow> pwp (parseback buf es k cmd) (parsed buf es s) s"
proof (induction k arbitrary: s cmd)
  case (Suc k)
  have nxt: "pwp (parseback buf es k (BACK cmd)) (parsed buf es s) t'" if "s < t'" "t' \<le> es" for t'
    using that Suc.prems by (intro parsed_from [OF Suc.IH]) auto
  show ?case unfolding parseback.simps pwp_bind
    by (rule pwp_peek_tok [OF Suc.prems(1,2), where R = "\<lambda>_. pwp (parseback buf es k (BACK cmd)) (parsed buf es s)"])
      (use Suc.prems nxt in \<open>auto simp: pwp_pret pwp_bind\<close>)
qed (simp add: parseback.simps)

text \<open>The recursive functions, with the fuel that each of them needs from index \<open>s\<close> on.\<close>

definition parses :: "u8 list \<Rightarrow> nat \<Rightarrow> nat \<Rightarrow> nat \<Rightarrow> (nat \<Rightarrow> word_at cmd parser) \<Rightarrow> bool" where
  "parses buf es n d p \<longleftrightarrow> (\<forall>s. s \<le> es \<longrightarrow> 4 * (es - s) + d \<le> n \<longrightarrow> pwp (p n) (parsed buf es s) s)"

lemma parsesD: "parses buf es n d p \<Longrightarrow> s \<le> t \<Longrightarrow> t \<le> es \<Longrightarrow> 4 * (es - t) + d \<le> n \<Longrightarrow> pwp (p n) (parsed buf es s) t"
  by (rule parsed_from) (auto simp: parses_def)

lemma parseblock_step:
  assumes ok: "line_ok buf es" and l: "parses buf es n 4 (parseline buf es)"
  shows "parses buf es (Suc n) 1 (parseblock buf es)"
  unfolding parses_def
proof (intro allI impI)
  fix s assume s: "s \<le> es" "4 * (es - s) + 1 \<le> Suc n"
  let ?close = "\<lambda>cmd. pbind (ppeek buf es [41, 0]) (\<lambda>close. if \<not> close then perr ''syntax - missing )''
    else pbind (ptok buf es) (\<lambda>_. parseredirs buf es cmd))"
  have close: "pwp (?close cmd) (parsed buf es s) t" if "parsed buf es s cmd t" for cmd t
    unfolding pwp_bind
    by (rule pwp_peek_tok [OF ok, where R = "\<lambda>_. pwp (parseredirs buf es cmd) (parsed buf es s)"])
      (use that ok in \<open>auto simp: pwp_perr pwp_bind intro!: parsed_from [OF parseredirs_parsed]\<close>)
  have rest: "pwp (pbind (parseline buf es n) ?close) (parsed buf es s) t" if "s < t" "t \<le> es" for t
    using that s by (intro pwp_bindI [OF parsesD [OF l, of s]] close) auto
  show "pwp (parseblock buf es (Suc n)) (parsed buf es s) s"
    unfolding parseblock.simps pwp_bind [of "ppeek buf es [40, 0]"]
    by (rule pwp_peek_tok [OF ok s(1), where R = "\<lambda>_. pwp (pbind (parseline buf es n) ?close) (parsed buf es s)"])
      (use rest in \<open>auto simp: pwp_perr pwp_bind [of "ptok buf es"]\<close>)
qed

lemma parseexec_step:
  assumes ok: "line_ok buf es" and b: "parses buf es n 1 (parseblock buf es)"
  shows "parses buf es (Suc n) 2 (parseexec buf es)"
  unfolding parses_def
proof (intro allI impI)
  fix s assume s: "s \<le> es" "4 * (es - s) + 2 \<le> Suc n"
  have args: "pwp (pbind (parseredirs buf es (EXEC [])) (\<lambda>cmd. parseargs buf es (es + 1) 0 cmd)) (parsed buf es s) t"
    if "s \<le> t" "t \<le> es" for t
    by (rule pwp_bindI [OF parseredirs_parsed [OF ok that(2)]])
      (use that ok in \<open>auto intro!: parsed_from [OF parseargs_parsed]\<close>)
  have block: "pwp (parseblock buf es n) (parsed buf es s) t" if "s \<le> t" "t \<le> es" for t
    using s that by (intro parsesD [OF b]) auto
  show "pwp (parseexec buf es (Suc n)) (parsed buf es s) s"
    unfolding parseexec.simps pwp_bind [of "ppeek buf es [40, 0]"]
    by (rule pwp_ppeek [OF ok s(1)]) (use args block in auto)
qed

text \<open>A function that parses a part, looks for a separator, and goes on after it.\<close>

lemma pwp_separated:
  assumes ok: "line_ok buf es" and t: "parsed buf es s cmd t"
    and p: "\<And>u. s < u \<Longrightarrow> u \<le> es \<Longrightarrow> pwp m (parsed buf es s) u"
    and f: "\<And>c. set_cmd (f c) = set_cmd cmd \<union> set_cmd c"
  shows "pwp (pbind (ppeek buf es toks) (\<lambda>more. if more then pbind (ptok buf es) (\<lambda>_. pbind m (\<lambda>c. pret (f c)))
    else pret cmd)) (parsed buf es s) t"
proof -
  have rest: "pwp (pbind m (\<lambda>c. pret (f c))) (parsed buf es s) u" if "s < u" "u \<le> es" for u
    using t f by (intro pwp_bindI [OF p [OF that]]) (auto simp: pwp_pret)
  have "t \<le> es" using t by simp
  then show ?thesis unfolding pwp_bind [of "ppeek buf es toks"]
    by (rule pwp_peek_tok [OF ok, where R = "\<lambda>_. pwp (pbind m (\<lambda>c. pret (f c))) (parsed buf es s)"])
      (use t rest in \<open>auto simp: pwp_pret pwp_bind [of "ptok buf es"]\<close>)
qed

lemma parsepipe_step:
  assumes ok: "line_ok buf es" and e: "parses buf es n 2 (parseexec buf es)"
    and p: "parses buf es n 3 (parsepipe buf es)"
  shows "parses buf es (Suc n) 3 (parsepipe buf es)"
  unfolding parses_def
proof (intro allI impI)
  fix s assume s: "s \<le> es" "4 * (es - s) + 3 \<le> Suc n"
  show "pwp (parsepipe buf es (Suc n)) (parsed buf es s) s"
    unfolding parsepipe.simps
  proof (rule pwp_bindI [OF parsesD [OF e order.refl s(1)]])
    fix cmd t assume "parsed buf es s cmd t"
    then show "pwp (pbind (ppeek buf es [124, 0]) (\<lambda>more. if more then pbind (ptok buf es)
        (\<lambda>_. pbind (parsepipe buf es n) (\<lambda>rest. pret (PIPE cmd rest))) else pret cmd)) (parsed buf es s) t"
      by (rule pwp_separated [OF ok]) (use s in \<open>auto intro!: parsesD [OF p]\<close>)
  qed (use s in simp)
qed

lemma parseline_step:
  assumes ok: "line_ok buf es" and p: "parses buf es n 3 (parsepipe buf es)"
    and l: "parses buf es n 4 (parseline buf es)"
  shows "parses buf es (Suc n) 4 (parseline buf es)"
  unfolding parses_def
proof (intro allI impI)
  fix s assume s: "s \<le> es" "4 * (es - s) + 4 \<le> Suc n"
  have sep: "pwp (pbind (ppeek buf es [59, 0]) (\<lambda>more. if more then pbind (ptok buf es)
      (\<lambda>_. pbind (parseline buf es n) (\<lambda>rest. pret (LIST cmd rest))) else pret cmd)) (parsed buf es s) t"
    if "parsed buf es s cmd t" for cmd t
    using that by (rule pwp_separated [OF ok]) (use s in \<open>auto intro!: parsesD [OF l]\<close>)
  have bck: "pwp (parseback buf es (es + 1) cmd) (parsed buf es s) t" if "parsed buf es s cmd t" for cmd t
    using that ok by (intro parsed_from [OF parseback_parsed]) auto
  show "pwp (parseline buf es (Suc n)) (parsed buf es s) s"
    unfolding parseline.simps
    by (rule pwp_bindI [OF parsesD [OF p order.refl s(1)]], use s in simp, rule pwp_bindI [OF bck sep])
qed

lemma parse_all:
  assumes "line_ok buf es"
  shows "parses buf es n 4 (parseline buf es) \<and> parses buf es n 3 (parsepipe buf es)
    \<and> parses buf es n 1 (parseblock buf es) \<and> parses buf es n 2 (parseexec buf es)"
proof (induction n)
  case 0
  show ?case by (simp add: parses_def parser_simps)
next
  case (Suc n)
  then show ?case
    by (intro conjI parseline_step [OF assms] parsepipe_step [OF assms] parseblock_step [OF assms]
        parseexec_step [OF assms]) simp_all
qed

subsection \<open>Ending the words\<close>

lemma fold_nul: "length (fold (\<lambda>(q, eq) b. b[eq := 0]) ws buf) = length buf
   \<and> (\<forall>i<length buf. fold (\<lambda>(q, eq) b. b[eq := 0]) ws buf ! i = (if i \<in> snd ` set ws then 0 else buf ! i))"
proof (induction ws arbitrary: buf)
  case (Cons w ws)
  show ?case using Cons [of "buf[snd w := 0]"] by (cases w) (auto simp: nth_list_update)
qed simp

lemma nulterminate_nth: "length (nulterminate c buf) = length buf
   \<and> (\<forall>i<length buf. nulterminate c buf ! i = (if i \<in> snd ` set_cmd c then 0 else buf ! i))"
proof (induction c arbitrary: buf)
  case (EXEC ws)
  show ?case using fold_nul [of ws buf] by simp
next
  case (REDIR c f m d)
  have "(nulterminate c buf)[snd f := 0] ! i = (if i = snd f then 0 else nulterminate c buf ! i)"
    if "i < length buf" for i using that REDIR [of buf] by (auto simp: nth_list_update)
  then show ?case using REDIR [of buf] by simp
next
  case (PIPE a b)
  show ?case using PIPE(1) [of buf] PIPE(2) [of "nulterminate a buf"] by auto
next
  case (LIST a b)
  show ?case using LIST(1) [of buf] LIST(2) [of "nulterminate a buf"] by auto
qed simp

text \<open>The bytes of a word, and the string that starts where it does.\<close>

abbreviation bytes_of :: "u8 list \<Rightarrow> word_at \<Rightarrow> u8 list" where
  "bytes_of buf w \<equiv> take (snd w - fst w) (drop (fst w) buf)"

lemma cstr_prefix: "0 \<notin> set xs \<Longrightarrow> cstr (xs @ 0 # ys) = xs"
  by (induction xs) auto

lemma nulterminate_string:
  assumes "line_ok buf es" "words_ok buf es c" "w \<in> set_cmd c"
  shows "cstr (drop (fst w) (nulterminate c buf)) = bytes_of buf w"
    and "bytes_of buf w \<noteq> [] \<and> list_all word_char (bytes_of buf w)"
proof -
  let ?b = "nulterminate c buf"
  obtain q eq where w: "w = (q, eq)" by (cases w)
  have ok: "q < eq" "eq \<le> es" "\<And>i. q \<le> i \<Longrightarrow> i < eq \<Longrightarrow> word_char (buf ! i)" "es < length buf"
    using assms by (auto simp: word_ok_def line_ok_def w)
  have len: "length ?b = length buf" using nulterminate_nth [of c buf] by simp
  have in_word: "?b ! i = buf ! i" if "q \<le> i" "i < eq" for i
  proof -
    have "i \<notin> snd ` set_cmd c" using ok(3) [OF that] assms(2) by (auto simp: word_ok_def)
    then show ?thesis using nulterminate_nth [of c buf] that ok by simp
  qed
  have "?b ! eq = 0" using nulterminate_nth [of c buf] assms(3) ok(2,4) by (force simp: w)
  then have "drop eq ?b = 0 # drop (Suc eq) ?b" using ok(2,4) len by (metis Cons_nth_drop_Suc order.strict_trans1)
  moreover have "take (eq - q) (drop q ?b) = take (eq - q) (drop q buf)"
    using in_word ok len by (intro nth_equalityI) auto
  ultimately have "drop q ?b = take (eq - q) (drop q buf) @ 0 # drop (Suc eq) ?b"
    using append_take_drop_id [of "eq - q" "drop q ?b"] ok(1) by simp
  moreover have wc: "list_all word_char (take (eq - q) (drop q buf))"
    using ok by (auto simp: list_all_length)
  moreover have "0 \<notin> set (take (eq - q) (drop q buf))"
    using wc by (auto simp: list_all_iff word_char_def)
  ultimately show "cstr (drop (fst w) ?b) = bytes_of buf w" by (simp add: cstr_prefix w)
  show "bytes_of buf w \<noteq> [] \<and> list_all word_char (bytes_of buf w)" using wc ok by (simp add: w)
qed

lemma terminated_line: "terminated buf \<Longrightarrow> line_ok buf (length (cstr buf))"
proof (induction buf)
  case (Cons c buf)
  then show ?case by (auto simp: line_ok_def nth_Cons' less_Suc_eq_0_disj)
qed simp

lemma parsecmd_outcome:
  assumes "terminated buf"
  shows "(\<exists>msg. parsecmd buf = Some (Inl msg))
    \<or> (\<exists>cmd. parsecmd buf = Some (Inr (cmd, nulterminate cmd buf)) \<and> words_ok buf (length (cstr buf)) cmd)"
proof -
  let ?es = "length (cstr buf)"
  let ?m = "pbind (parseline buf ?es (parsecmd_fuel ?es)) (\<lambda>cmd. pbind (ppeek buf ?es [0]) (\<lambda>_. pret cmd))"
  note ok = terminated_line [OF assms]
  have "pwp ?m (parsed buf ?es 0) 0"
  proof (rule pwp_bindI)
    show "pwp (parseline buf ?es (parsecmd_fuel ?es)) (parsed buf ?es 0) 0"
      using parse_all [OF ok, of "parsecmd_fuel ?es"] by (intro parsesD) (auto simp: parsecmd_fuel_def)
    fix cmd t assume t: "parsed buf ?es 0 cmd t"
    show "pwp (pbind (ppeek buf ?es [0]) (\<lambda>_. pret cmd)) (parsed buf ?es 0) t"
      unfolding pwp_bind by (rule pwp_ppeek [OF ok]) (use t in \<open>auto simp: pwp_pret\<close>)
  qed
  then show ?thesis
    using assms by (auto simp: parsecmd_def strlen_eq pwp_def split: option.splits sum.splits)
qed

section \<open>Writing a command out as a line\<close>

datatype shtok = Word "u8 list" | Op u8

fun tok_bytes :: "shtok \<Rightarrow> u8 list" where
  "tok_bytes (Word w) = w"
| "tok_bytes (Op c) = [c]"

fun tok_code :: "shtok \<Rightarrow> u8" where
  "tok_code (Word w) = 97"
| "tok_code (Op c) = c"

fun tok_ok :: "shtok \<Rightarrow> bool" where
  "tok_ok (Word w) \<longleftrightarrow> w \<noteq> [] \<and> list_all word_char w"
| "tok_ok (Op c) \<longleftrightarrow> found symbols c"

definition enc :: "shtok list \<Rightarrow> u8 list" where
  "enc ts = concat (map (\<lambda>t. tok_bytes t @ [32]) ts)"

text \<open>\<open>pr l c\<close>: the tokens of \<open>c\<close> at level \<open>l\<close>, which is \<open>0\<close> for \<^verbatim>\<open>parseexec\<close>, \<open>1\<close> for
  \<^verbatim>\<open>parsepipe\<close>, \<open>2\<close> for the left part of a line and \<open>3\<close> for \<^verbatim>\<open>parseline\<close>. A command above its level
  gets parentheses.\<close>

definition paren :: "bool \<Rightarrow> shtok list \<Rightarrow> shtok list" where
  "paren b ts = (if b then Op 40 # ts @ [Op 41] else ts)"

definition redir_toks :: "u8 list \<Rightarrow> int \<Rightarrow> shtok list" where
  "redir_toks f m = [Op (if m = sh_rdonly then 60 else 62), Word f]"

primrec pr :: "nat \<Rightarrow> u8 list cmd \<Rightarrow> shtok list" where
  "pr l (EXEC ws) = map Word ws"
| "pr l (REDIR c f m d) = pr 0 c @ redir_toks f m"
| "pr l (PIPE a b) = paren (l < 1) (pr 0 a @ Op 124 # pr 1 b)"
| "pr l (LIST a b) = paren (l < 3) (pr 2 a @ Op 59 # pr 3 b)"
| "pr l (BACK c) = paren (l < 2) (pr 2 c @ [Op 38])"

definition unparse :: "u8 list cmd \<Rightarrow> u8 list" where
  "unparse c = enc (pr 3 c) @ [0]"

text \<open>What a line can express.\<close>

definition redir_ok :: "u8 list \<Rightarrow> int \<Rightarrow> int \<Rightarrow> bool" where
  "redir_ok f m d \<longleftrightarrow> tok_ok (Word f) \<and> (m = sh_rdonly \<and> d = 0 \<or> m = sh_create \<and> d = 1)"

primrec cmd_ok :: "u8 list cmd \<Rightarrow> bool" where
  "cmd_ok (EXEC ws) \<longleftrightarrow> length ws < MAXARGS \<and> (\<forall>w\<in>set ws. tok_ok (Word w))"
| "cmd_ok (REDIR c f m d) \<longleftrightarrow> cmd_ok c \<and> redir_ok f m d"
| "cmd_ok (PIPE a b) \<longleftrightarrow> cmd_ok a \<and> cmd_ok b"
| "cmd_ok (LIST a b) \<longleftrightarrow> cmd_ok a \<and> cmd_ok b"
| "cmd_ok (BACK c) \<longleftrightarrow> cmd_ok c"

section \<open>Reading it back\<close>

text \<open>The index of the zero at the end of the buffer.\<close>

definition eol :: "u8 list \<Rightarrow> nat" where
  "eol buf = length buf - 1"

definition toks_at :: "u8 list \<Rightarrow> nat \<Rightarrow> shtok list \<Rightarrow> bool" where
  "toks_at buf s ts \<longleftrightarrow> s < length buf \<and> drop s buf = enc ts @ [0] \<and> list_all tok_ok ts"

lemma enc_simps [simp]: "enc [] = []" "enc (t # ts) = tok_bytes t @ 32 # enc ts" "enc (ts @ us) = enc ts @ enc us"
  by (simp_all add: enc_def)

lemma tok_first: "tok_ok t \<Longrightarrow> tok_bytes t \<noteq> [] \<and> hd (tok_bytes t) \<noteq> 0 \<and> \<not> found whitespace (hd (tok_bytes t))"
  by (cases t) (auto simp: found_simps word_char_def list_all_iff)

lemma drop_nth: "s < length buf \<Longrightarrow> drop s buf = x # xs \<Longrightarrow> buf ! s = x \<and> drop (Suc s) buf = xs"
  by (metis hd_drop_conv_nth list.sel(1,3) drop_Suc tl_drop)

lemma toks_at_nth:
  assumes "toks_at buf s ts"
  shows "ts = [] \<Longrightarrow> s = eol buf \<and> buf ! s = 0"
    and "ts = t # us \<Longrightarrow> buf ! s = hd (tok_bytes t)"
    and "s \<le> eol buf"
proof -
  show "s \<le> eol buf" using assms by (auto simp: toks_at_def eol_def)
  show "buf ! s = hd (tok_bytes t)" if "ts = t # us"
    using assms that tok_first [of t] by (cases "tok_bytes t") (auto simp: toks_at_def dest: drop_nth)
  show "s = eol buf \<and> buf ! s = 0" if "ts = []"
  proof -
    have d: "s < length buf" "drop s buf = [0]" using assms that by (simp_all add: toks_at_def)
    from arg_cong [OF d(2), of length] have "length buf - s = 1" by simp
    then show ?thesis using drop_nth [OF d] d(1) by (simp add: eol_def)
  qed
qed

lemma toks_at_stop: "toks_at buf s ts \<Longrightarrow> skip_white buf (eol buf) s = s"
  using toks_at_nth [of buf s ts] tok_first [of "hd ts"]
  by (intro skip_white_stop) (cases ts; auto simp: toks_at_def)

lemma toks_at_next:
  assumes "toks_at buf s (t # ts)"
  shows "toks_at buf (s + length (tok_bytes t) + 1) ts"
    and "skip_white buf (eol buf) (s + length (tok_bytes t)) = s + length (tok_bytes t) + 1"
    and "s + length (tok_bytes t) < eol buf"
    and "take (length (tok_bytes t)) (drop s buf) = tok_bytes t"
    and "buf ! (s + length (tok_bytes t)) = 32"
proof -
  let ?e = "s + length (tok_bytes t)"
  have d: "drop s buf = tok_bytes t @ 32 # enc ts @ [0]" and s: "s < length buf" "list_all tok_ok (t # ts)"
    using assms by (simp_all add: toks_at_def)
  have len: "length buf - s = length (tok_bytes t) + length (enc ts) + 2"
    using arg_cong [OF d, of length] by simp
  then show lt: "?e < eol buf" unfolding eol_def by linarith
  have "drop ?e buf = drop (length (tok_bytes t)) (drop s buf)" by (simp add: add.commute)
  then have e: "drop ?e buf = 32 # enc ts @ [0]" by (simp add: d)
  then have e': "buf ! ?e = 32" "drop (?e + 1) buf = enc ts @ [0]" using drop_nth [of ?e buf] lt by (auto simp: eol_def)
  then show "buf ! ?e = 32" "take (length (tok_bytes t)) (drop s buf) = tok_bytes t" by (simp_all add: d)
  show n: "toks_at buf (?e + 1) ts" using e' s lt by (auto simp: toks_at_def eol_def)
  show "skip_white buf (eol buf) ?e = ?e + 1"
    using lt e'(1) toks_at_stop [OF n] by (subst skip_white.simps) (simp add: found_simps)
qed

lemma skip_word_at:
  assumes "\<forall>i<k. word_char (buf ! (q + i))" "\<not> word_char (buf ! (q + k))" "buf ! (q + k) \<noteq> 0" "q + k < es"
  shows "skip_word buf es q = q + k"
  using assms
proof (induction k arbitrary: q)
  case 0
  then show ?case by (subst skip_word.simps) (auto simp: word_char_def)
next
  case (Suc k)
  have "word_char (buf ! q)" using Suc.prems(1) by force
  moreover have "skip_word buf es (Suc q) = Suc q + k" using Suc.prems by (intro Suc.IH) auto
  ultimately show ?case using Suc.prems(4) by (subst skip_word.simps) (auto simp: word_char_def)
qed

lemma gettoken_at:
  assumes "toks_at buf s (t # ts)"
  shows "gettoken buf (eol buf) s
    = (tok_code t, s, s + length (tok_bytes t), s + length (tok_bytes t) + 1)"
proof -
  note nx = toks_at_next [OF assms] and st = toks_at_stop [OF assms] and c = toks_at_nth(2) [OF assms refl]
  have ok: "tok_ok t" using assms by (simp add: toks_at_def)
  show ?thesis
  proof (cases t)
    case (Op x)
    then have "x \<in> {60, 124, 62, 38, 59, 40, 41}" using ok by (simp add: found_simps)
    with c nx(2,5) st Op show ?thesis by (auto simp: gettoken_def Let_def)
  next
    case (Word w)
    have w: "w \<noteq> []" "list_all word_char w" using ok Word by simp_all
    have "buf ! (s + i) = w ! i" if "i < length w" for i
      using arg_cong [OF nx(4), of "\<lambda>xs. xs ! i"] nx(3) that Word by (simp add: eol_def)
    then have "\<forall>i<length w. word_char (buf ! (s + i))" using w(2) by (simp add: list_all_length)
    then have sw: "skip_word buf (eol buf) s = s + length w"
      using nx(3,5) Word by (intro skip_word_at) (auto simp: word_char_def found_simps)
    have "word_char (buf ! s)" using c w Word by (cases w) auto
    then have "buf ! s \<notin> {0, 124, 40, 41, 59, 38, 60, 62}" by (auto simp: word_char_def found_simps)
    with sw nx(2) st Word show ?thesis by (simp add: gettoken_def Let_def)
  qed
qed

lemma gettoken_end: "toks_at buf s [] \<Longrightarrow> gettoken buf (eol buf) s = (0, s, s, s)"
  using conjunct2 [OF toks_at_nth(1) [of buf s "[]", OF _ refl]] toks_at_stop [of buf s "[]"]
  by (simp add: gettoken_def Let_def)

definition sees :: "u8 list \<Rightarrow> shtok list \<Rightarrow> bool" where
  "sees toks ts = (case ts of Op c # _ \<Rightarrow> found toks c | _ \<Rightarrow> False)"

lemma peek_at:
  assumes "toks_at buf s ts" "\<And>c. found toks c \<Longrightarrow> found symbols c"
  shows "peek buf (eol buf) toks s = (sees toks ts, s)"
proof (cases ts)
  case Nil
  then show ?thesis using conjunct2 [OF toks_at_nth(1) [OF assms(1)]] toks_at_stop [OF assms(1)]
    by (simp add: peek_def sees_def Let_def)
next
  case (Cons t us)
  have t: "tok_ok t" using assms(1) Cons by (simp add: toks_at_def)
  have "\<not> found toks (hd w)" if "t = Word w" for w
    using t that assms(2) by (cases w) (auto simp: word_char_def)
  then show ?thesis using toks_at_nth(2) [OF assms(1) Cons] toks_at_stop [OF assms(1)] tok_first [OF t] Cons
    by (cases t) (simp_all add: peek_def sees_def Let_def)
qed

text \<open>Success of a parser, given enough fuel.\<close>

definition pok :: "'a parser \<Rightarrow> ('a \<Rightarrow> nat \<Rightarrow> bool) \<Rightarrow> nat \<Rightarrow> bool" where
  "pok m Q s \<longleftrightarrow> (case m s of None \<Rightarrow> True | Some (Inl e) \<Rightarrow> False | Some (Inr (a, s')) \<Rightarrow> Q a s')"

lemma pok_bind: "pok (pbind m f) Q s = pok m (\<lambda>a. pok (f a) Q) s"
  by (auto simp: pok_def pbind_def split: option.splits sum.splits)

lemma pok_pret: "pok (pret a) Q s = Q a s" and pok_none: "pok (\<lambda>s. None) Q s"
  by (simp_all add: pok_def pret_def)

lemma pok_mono: "pok m Q s \<Longrightarrow> (\<And>a t. Q a t \<Longrightarrow> R a t) \<Longrightarrow> pok m R s"
  by (auto simp: pok_def split: option.splits sum.splits)

lemma pok_bindI: "pok m R s \<Longrightarrow> (\<And>a t. R a t \<Longrightarrow> pok (f a) Q t) \<Longrightarrow> pok (pbind m f) Q s"
  unfolding pok_bind by (rule pok_mono)

definition op_set :: "u8 list \<Rightarrow> bool" where
  "op_set toks \<longleftrightarrow> (\<forall>c. found toks c \<longrightarrow> found symbols c)"

lemma op_sets [simp]:
  "op_set [60, 62, 0]" "op_set [124, 41, 38, 59, 0]" "op_set [38, 0]" "op_set [59, 0]" "op_set [124, 0]"
  "op_set [40, 0]" "op_set [41, 0]" "op_set [0]"
  by (simp_all add: op_set_def found_lits found_simps)

lemma sees_simps [simp]:
  "\<not> sees toks []" "\<not> sees toks (Word w # ts)" "sees toks (Op c # ts) = found toks c"
  by (simp_all add: sees_def)

lemma pok_peek:
  assumes "toks_at buf s ts" "op_set toks"
  shows "pok (pbind (ppeek buf (eol buf) toks) f) Q s = pok (f (sees toks ts)) Q s"
  using peek_at [OF assms(1), of toks] assms(2) by (simp add: pok_def pbind_def ppeek_def op_set_def)

lemma pok_tok:
  assumes "toks_at buf s (t # ts)"
    and "\<And>w u. toks_at buf u ts \<Longrightarrow> bytes_of buf w = tok_bytes t \<Longrightarrow> pok (f (tok_code t, w)) Q u"
  shows "pok (pbind (ptok buf (eol buf)) f) Q s"
proof -
  have "pok (f (tok_code t, (s, s + length (tok_bytes t)))) Q (s + length (tok_bytes t) + 1)"
    using toks_at_next(1,4) [OF assms(1)] by (intro assms(2)) simp_all
  then show ?thesis using gettoken_at [OF assms(1)] by (simp add: pok_def pbind_def ptok_def)
qed

lemma pok_tok_end:
  assumes "toks_at buf s []"
  shows "pok (pbind (ptok buf (eol buf)) f) Q s = pok (f (0, (s, s))) Q s"
  using gettoken_end [OF assms] by (simp add: pok_def pbind_def ptok_def)

text \<open>The command read is \<open>c\<close>, and \<open>ts\<close> is what is left of the line.\<close>

definition reads :: "u8 list \<Rightarrow> u8 list cmd \<Rightarrow> shtok list \<Rightarrow> word_at cmd \<Rightarrow> nat \<Rightarrow> bool" where
  "reads buf c ts cmd t \<longleftrightarrow> toks_at buf t ts \<and> map_cmd (bytes_of buf) cmd = c"

lemma map_add_arg: "map_cmd f (add_arg w c) = add_arg (f w) (map_cmd f c)"
  by (induction c) auto

primrec wrap :: "(u8 list \<times> int \<times> int) list \<Rightarrow> u8 list cmd \<Rightarrow> u8 list cmd" where
  "wrap [] c = c"
| "wrap (r # rs) c = wrap rs (REDIR c (fst r) (fst (snd r)) (snd (snd r)))"

definition wrap_toks :: "(u8 list \<times> int \<times> int) list \<Rightarrow> shtok list" where
  "wrap_toks rs = concat (map (\<lambda>(f, m, d). redir_toks f m) rs)"

lemma redirs_read:
  assumes "toks_at buf s (wrap_toks rs @ ts)" "\<forall>(f, m, d)\<in>set rs. redir_ok f m d" "\<not> sees [60, 62, 0] ts"
  shows "pok (parseredirs_loop buf (eol buf) k cmd) (reads buf (wrap rs (map_cmd (bytes_of buf) cmd)) ts) s"
  using assms
proof (induction rs arbitrary: s cmd k)
  case Nil
  then have "toks_at buf s ts" by (simp add: wrap_toks_def)
  then show ?case using Nil.prems(3)
    by (cases k) (simp_all add: parseredirs_loop.simps pok_none pok_peek pok_pret reads_def)
next
  case (Cons r rs)
  obtain f m d where r: "r = (f, m, d)" by (cases r)
  let ?o = "Op (if m = sh_rdonly then 60 else 62)"
  have ts: "toks_at buf s (?o # Word f # wrap_toks rs @ ts)"
    using Cons.prems(1) by (simp add: wrap_toks_def redir_toks_def r)
  have md: "m = sh_rdonly \<and> d = 0 \<or> m = sh_create \<and> d = 1" using Cons.prems(2) by (auto simp: redir_ok_def r)
  show ?case
  proof (cases k)
    case (Suc k')
    have rest: "pok (parseredirs_loop buf (eol buf) k' (REDIR cmd w m d))
        (reads buf (wrap rs (REDIR (map_cmd (bytes_of buf) cmd) (bytes_of buf w) m d)) ts) u"
      if "toks_at buf u (wrap_toks rs @ ts)" for w u m d
      using Cons.IH [OF that, of k' "REDIR cmd w m d"] Cons.prems(2,3) by (simp add: r)
    have ne: "sh_create \<noteq> sh_rdonly" by (simp add: sh_rdonly_def sh_create_def)
    show ?thesis unfolding Suc parseredirs_loop.simps r
      using ts md ne rest by (auto simp: pok_peek [OF ts] found_lits intro!: pok_tok [OF ts] pok_tok)
  qed (simp add: parseredirs_loop.simps pok_none)
qed

lemma parseredirs_read:
  assumes "toks_at buf s (wrap_toks rs @ ts)" "\<forall>(f, m, d)\<in>set rs. redir_ok f m d" "\<not> sees [60, 62, 0] ts"
  shows "pok (parseredirs buf (eol buf) cmd) (reads buf (wrap rs (map_cmd (bytes_of buf) cmd)) ts) s"
  unfolding parseredirs_def by (rule redirs_read [OF assms])

lemma args_read:
  assumes "toks_at buf s (map Word ws @ (if ws = [] then [] else wrap_toks rs) @ ts)"
    and "\<forall>(f, m, d)\<in>set rs. redir_ok f m d" "ts = [] \<or> sees [124, 41, 38, 59, 0] ts" "argc + length ws < MAXARGS"
  shows "pok (parseargs buf (eol buf) k argc cmd)
    (reads buf (wrap (if ws = [] then [] else rs) (fold add_arg ws (map_cmd (bytes_of buf) cmd))) ts) s"
  using assms
proof (induction ws arbitrary: s cmd k argc)
  case Nil
  then have ts: "toks_at buf s ts" by simp
  show ?case using Nil.prems(3) ts
    by (cases k) (auto simp: parseargs.simps pok_none pok_peek [OF ts] pok_tok_end pok_pret reads_def)
next
  case (Cons w ws)
  have ts: "toks_at buf s (Word w # map Word ws @ wrap_toks rs @ ts)" using Cons.prems(1) by simp
  have nr: "\<not> sees [60, 62, 0] ts"
    using Cons.prems(3) by (cases ts; cases "hd ts") (auto simp: found_lits)
  show ?case
  proof (cases k)
    case (Suc k')
    have red: "pok (parseredirs buf (eol buf) c)
        (reads buf (wrap (if ws = [] then rs else []) (map_cmd (bytes_of buf) c))
           (map Word ws @ (if ws = [] then [] else wrap_toks rs) @ ts)) u"
      if "toks_at buf u (map Word ws @ wrap_toks rs @ ts)" for c u
    proof (cases ws)
      case Nil
      with parseredirs_read [of buf u rs ts c] that Cons.prems(2) nr show ?thesis by simp
    next
      case (Cons v vs)
      with parseredirs_read [of buf u "[]" _ c] that show ?thesis by (simp add: wrap_toks_def)
    qed
    have rest: "pok (pbind (parseredirs buf (eol buf) (add_arg v cmd)) (\<lambda>cmd. parseargs buf (eol buf) k' (argc + 1) cmd))
        (reads buf (wrap rs (fold add_arg (w # ws) (map_cmd (bytes_of buf) cmd))) ts) u"
      if u: "toks_at buf u (map Word ws @ wrap_toks rs @ ts)" "bytes_of buf v = w" for u v
    proof (rule pok_bindI [OF red [OF u(1)]])
      fix c t assume c: "reads buf (wrap (if ws = [] then rs else []) (map_cmd (bytes_of buf) (add_arg v cmd)))
          (map Word ws @ (if ws = [] then [] else wrap_toks rs) @ ts) c t"
      then have t: "toks_at buf t (map Word ws @ (if ws = [] then [] else wrap_toks rs) @ ts)" by (simp add: reads_def)
      have cm: "map_cmd (bytes_of buf) c
          = wrap (if ws = [] then rs else []) (add_arg w (map_cmd (bytes_of buf) cmd))"
        using c u(2) by (simp add: reads_def map_add_arg)
      show "pok (parseargs buf (eol buf) k' (argc + 1) c)
          (reads buf (wrap rs (fold add_arg (w # ws) (map_cmd (bytes_of buf) cmd))) ts) t"
        using Cons.IH [OF t Cons.prems(2,3), of "argc + 1" k' c] Cons.prems(4) cm by (auto split: if_splits)
    qed
    have "argc + 1 < MAXARGS" using Cons.prems(4) by simp
    then show ?thesis unfolding Suc parseargs.simps
      using rest by (auto simp: pok_peek [OF ts] found_lits intro!: pok_tok [OF ts])
  qed (simp add: parseargs.simps pok_none)
qed

lemma fold_add_arg: "fold add_arg ws (EXEC us) = EXEC (us @ ws)"
  by (induction ws arbitrary: us) auto

text \<open>\<open>reads_to\<close>: the parser \<open>p\<close> reads \<open>c\<close> from its tokens, when they are followed by the end of the line or by one
  of the operators \<open>stop\<close>.\<close>

definition reads_to :: "(u8 list \<Rightarrow> nat \<Rightarrow> nat \<Rightarrow> word_at cmd parser) \<Rightarrow> u8 list \<Rightarrow> shtok list \<Rightarrow> u8 list cmd \<Rightarrow> bool" where
  "reads_to p stop us c \<longleftrightarrow> (\<forall>buf n s ts. toks_at buf s (us @ ts) \<longrightarrow> ts = [] \<or> sees stop ts
     \<longrightarrow> pok (p buf (eol buf) n) (reads buf c ts) s)"

lemma reads_toD: "reads_to p stop us c \<Longrightarrow> toks_at buf s (us @ ts) \<Longrightarrow> ts = [] \<or> sees stop ts
  \<Longrightarrow> pok (p buf (eol buf) n) (reads buf c ts) s"
  unfolding reads_to_def by blast

abbreviation exec_reads :: "u8 list cmd \<Rightarrow> bool" where
  "exec_reads c \<equiv> reads_to parseexec [124, 41, 38, 59, 0] (pr 0 c) c"
abbreviation pipe_reads :: "u8 list cmd \<Rightarrow> bool" where
  "pipe_reads c \<equiv> reads_to parsepipe [41, 38, 59, 0] (pr 1 c) c"
abbreviation line_reads :: "u8 list cmd \<Rightarrow> bool" where
  "line_reads c \<equiv> reads_to parseline [41, 0] (pr 3 c) c"

lemma exec_words_read:
  assumes "length ws < MAXARGS" "\<forall>(f, m, d)\<in>set rs. redir_ok f m d"
  shows "reads_to parseexec [124, 41, 38, 59, 0] (map Word ws @ wrap_toks rs) (wrap rs (EXEC ws))"
  unfolding reads_to_def
proof (intro allI impI)
  fix buf n s ts
  assume "toks_at buf s ((map Word ws @ wrap_toks rs) @ ts)" and st: "ts = [] \<or> sees [124, 41, 38, 59, 0] ts"
  then have ts: "toks_at buf s (map Word ws @ wrap_toks rs @ ts)" by simp
  have nr: "\<not> sees [60, 62, 0] ts" "\<not> sees [40, 0] ts"
    using st by (cases ts; cases "hd ts"; auto simp: found_lits)+
  have np: "\<not> sees [40, 0] (map Word ws @ wrap_toks rs @ ts)"
    using nr(2) by (cases ws; cases rs) (auto simp: wrap_toks_def redir_toks_def found_lits split: if_splits)
  have red: "pok (parseredirs buf (eol buf) (EXEC []))
      (reads buf (wrap (if ws = [] then rs else []) (EXEC [])) (map Word ws @ (if ws = [] then [] else wrap_toks rs) @ ts)) s"
  proof (cases ws)
    case Nil
    with parseredirs_read [of buf s rs ts "EXEC []"] ts assms(2) nr(1) show ?thesis by simp
  next
    case (Cons v vs)
    with parseredirs_read [of buf s "[]" _ "EXEC []"] ts show ?thesis by (simp add: wrap_toks_def)
  qed
  have all: "pok (pbind (parseredirs buf (eol buf) (EXEC [])) (\<lambda>cmd. parseargs buf (eol buf) (eol buf + 1) 0 cmd))
      (reads buf (wrap rs (EXEC ws)) ts) s"
  proof (rule pok_bindI [OF red])
    fix c t assume c: "reads buf (wrap (if ws = [] then rs else []) (EXEC []))
        (map Word ws @ (if ws = [] then [] else wrap_toks rs) @ ts) c t"
    have "toks_at buf t (map Word ws @ (if ws = [] then [] else wrap_toks rs) @ ts)"
      and cm: "map_cmd (bytes_of buf) c = wrap (if ws = [] then rs else []) (EXEC [])"
      using c by (simp_all add: reads_def)
    from args_read [OF this(1) assms(2) st, of 0 "eol buf + 1" c] assms(1) cm
    show "pok (parseargs buf (eol buf) (eol buf + 1) 0 c) (reads buf (wrap rs (EXEC ws)) ts) t"
      by (auto simp: fold_add_arg split: if_splits)
  qed
  show "pok (parseexec buf (eol buf) n) (reads buf (wrap rs (EXEC ws)) ts) s"
    using all np by (cases n) (simp_all add: parseexec.simps pok_none pok_peek [OF ts])
qed

lemma block_read:
  assumes "reads_to parseline [41, 0] us c" "\<forall>(f, m, d)\<in>set rs. redir_ok f m d"
  shows "reads_to parseexec [124, 41, 38, 59, 0] (Op 40 # us @ Op 41 # wrap_toks rs) (wrap rs c)"
  unfolding reads_to_def
proof (intro allI impI)
  fix buf n s ts
  assume "toks_at buf s ((Op 40 # us @ Op 41 # wrap_toks rs) @ ts)" and st: "ts = [] \<or> sees [124, 41, 38, 59, 0] ts"
  then have ts: "toks_at buf s (Op 40 # us @ Op 41 # wrap_toks rs @ ts)" by simp
  have nr: "\<not> sees [60, 62, 0] ts" using st by (cases ts; cases "hd ts") (auto simp: found_lits)
  have close: "pok (pbind (ppeek buf (eol buf) [41, 0]) (\<lambda>close. if \<not> close then perr ''syntax - missing )''
      else pbind (ptok buf (eol buf)) (\<lambda>_. parseredirs buf (eol buf) cmd))) (reads buf (wrap rs c) ts) t"
    if "reads buf c (Op 41 # wrap_toks rs @ ts) cmd t" for cmd t
  proof -
    have t: "toks_at buf t (Op 41 # wrap_toks rs @ ts)" and c: "map_cmd (bytes_of buf) cmd = c"
      using that by (simp_all add: reads_def)
    have "pok (parseredirs buf (eol buf) cmd) (reads buf (wrap rs c) ts) u" if "toks_at buf u (wrap_toks rs @ ts)" for u
      using parseredirs_read [OF that assms(2) nr, of cmd] c by simp
    then show ?thesis
      by (auto simp: pok_peek [OF t] found_lits intro!: pok_tok [OF t])
  qed
  have "pok (parseblock buf (eol buf) k) (reads buf (wrap rs c) ts) s" for k
    by (cases k) (auto simp: parseblock.simps pok_none pok_peek [OF ts] found_lits
        intro!: pok_tok [OF ts] pok_bindI [OF reads_toD [OF assms(1)] close])
  then show "pok (parseexec buf (eol buf) n) (reads buf (wrap rs c) ts) s"
    by (cases n) (simp_all add: parseexec.simps pok_none pok_peek [OF ts] found_lits)
qed

lemma sees_stops:
  "sees [41, 38, 59, 0] ts \<Longrightarrow> sees [124, 41, 38, 59, 0] ts \<and> \<not> sees [124, 0] ts"
  "sees [41, 0] ts \<Longrightarrow> sees [41, 38, 59, 0] ts \<and> \<not> sees [38, 0] ts \<and> \<not> sees [59, 0] ts"
  by (auto simp: sees_def found_def split: list.splits shtok.splits if_splits)

lemma sees_ops: "sees [124, 41, 38, 59, 0] (Op 124 # ts)" "sees [41, 38, 59, 0] (Op 38 # ts)"
  "sees [41, 38, 59, 0] (Op 59 # ts)" "sees [41, 0] (Op 41 # ts)" "sees [124, 0] (Op 124 # ts)"
  "sees [38, 0] (Op 38 # ts)" "sees [59, 0] (Op 59 # ts)" "\<not> sees [38, 0] (Op 59 # ts)"
  by (simp_all add: found_def)

lemma pipe_last:
  assumes "reads_to parseexec [124, 41, 38, 59, 0] us c"
  shows "reads_to parsepipe [41, 38, 59, 0] us c"
  unfolding reads_to_def
proof (intro allI impI)
  fix buf n s ts assume ts: "toks_at buf s (us @ ts)" and st: "ts = [] \<or> sees [41, 38, 59, 0] ts"
  have more: "pok (pbind (ppeek buf (eol buf) [124, 0]) (\<lambda>more. if more then k more else pret cmd)) (reads buf c ts) t"
    if r: "reads buf c ts cmd t" for cmd t k
  proof -
    have t: "toks_at buf t ts" using r by (simp add: reads_def)
    show ?thesis using r st sees_stops(1) by (auto simp: pok_peek [OF t] pok_pret)
  qed
  show "pok (parsepipe buf (eol buf) n) (reads buf c ts) s"
  proof (cases n)
    case (Suc k)
    have "ts = [] \<or> sees [124, 41, 38, 59, 0] ts" using st sees_stops(1) by blast
    from reads_toD [OF assms ts this] show ?thesis unfolding Suc parsepipe.simps by (rule pok_bindI) (rule more)
  qed (simp add: parsepipe.simps pok_none)
qed

lemma pipe_more:
  assumes "reads_to parseexec [124, 41, 38, 59, 0] us a" "reads_to parsepipe [41, 38, 59, 0] vs b"
  shows "reads_to parsepipe [41, 38, 59, 0] (us @ Op 124 # vs) (PIPE a b)"
  unfolding reads_to_def
proof (intro allI impI)
  fix buf n s ts assume "toks_at buf s ((us @ Op 124 # vs) @ ts)" and st: "ts = [] \<or> sees [41, 38, 59, 0] ts"
  then have ts: "toks_at buf s (us @ Op 124 # vs @ ts)" by simp
  show "pok (parsepipe buf (eol buf) n) (reads buf (PIPE a b) ts) s"
  proof (cases n)
    case (Suc k)
    show ?thesis unfolding Suc parsepipe.simps
    proof (rule pok_bindI [OF reads_toD [OF assms(1) ts]])
      fix cmd t assume r: "reads buf a (Op 124 # vs @ ts) cmd t"
      then have t: "toks_at buf t (Op 124 # vs @ ts)" by (simp add: reads_def)
      have rest: "pok (pbind (parsepipe buf (eol buf) k) (\<lambda>rest. pret (PIPE cmd rest))) (reads buf (PIPE a b) ts) u"
        if "toks_at buf u (vs @ ts)" for u
        by (rule pok_bindI [OF reads_toD [OF assms(2) that st]]) (use r in \<open>simp add: pok_pret reads_def\<close>)
      show "pok (pbind (ppeek buf (eol buf) [124, 0]) (\<lambda>more. if more then pbind (ptok buf (eol buf))
          (\<lambda>_. pbind (parsepipe buf (eol buf) k) (\<lambda>rest. pret (PIPE cmd rest))) else pret cmd)) (reads buf (PIPE a b) ts) t"
        using rest sees_ops by (auto simp: pok_peek [OF t] simp del: sees_simps intro!: pok_tok [OF t])
    qed (use sees_ops in blast)
  qed (simp add: parsepipe.simps pok_none)
qed

lemma parseback_read:
  "toks_at buf s (replicate j (Op 38) @ ts) \<Longrightarrow> \<not> sees [38, 0] ts
   \<Longrightarrow> pok (parseback buf (eol buf) k cmd) (reads buf ((BACK ^^ j) (map_cmd (bytes_of buf) cmd)) ts) s"
proof (induction j arbitrary: s k cmd)
  case 0
  then have t: "toks_at buf s ts" by simp
  show ?case using 0 by (cases k) (simp_all add: parseback.simps pok_none pok_peek [OF t] pok_pret reads_def)
next
  case (Suc j)
  then have t: "toks_at buf s (Op 38 # replicate j (Op 38) @ ts)" by simp
  have rest: "pok (parseback buf (eol buf) i (BACK cmd)) (reads buf ((BACK ^^ Suc j) (map_cmd (bytes_of buf) cmd)) ts) u"
    if "toks_at buf u (replicate j (Op 38) @ ts)" for u i
    using Suc.IH [OF that Suc.prems(2), of i "BACK cmd"] by (simp add: funpow_swap1)
  show ?case using rest
    by (cases k) (auto simp: parseback.simps pok_none pok_peek [OF t] found_lits simp del: funpow.simps intro!: pok_tok [OF t])
qed

lemma line_read:
  assumes p: "reads_to parsepipe [41, 38, 59, 0] us a"
    and ts: "toks_at buf s (us @ replicate j (Op 38) @ ts)" and st: "ts = [] \<or> sees [41, 0] ts \<or> (\<exists>vs. ts = Op 59 # vs)"
    and rest: "\<And>cmd t. reads buf ((BACK ^^ j) a) ts cmd t \<Longrightarrow> pok (k cmd) Q t"
  shows "pok (pbind (parsepipe buf (eol buf) n) (\<lambda>cmd. pbind (parseback buf (eol buf) i cmd) k)) Q s"
proof (rule pok_bindI [OF reads_toD [OF p ts]])
  show "replicate j (Op 38) @ ts = [] \<or> sees [41, 38, 59, 0] (replicate j (Op 38) @ ts)"
    using st sees_stops(2) by (cases j) (auto simp: found_def)
  fix cmd t assume r: "reads buf a (replicate j (Op 38) @ ts) cmd t"
  have ns: "\<not> sees [38, 0] ts" using st sees_stops(2) by (auto simp: found_lits)
  have t: "toks_at buf t (replicate j (Op 38) @ ts)" and c: "map_cmd (bytes_of buf) cmd = a"
    using r by (simp_all add: reads_def)
  show "pok (pbind (parseback buf (eol buf) i cmd) k) Q t"
    by (rule pok_bindI [OF parseback_read [OF t ns]]) (rule rest, simp add: c)
qed

lemma line_last:
  assumes "reads_to parsepipe [41, 38, 59, 0] us a"
  shows "reads_to parseline [41, 0] (us @ replicate j (Op 38)) ((BACK ^^ j) a)"
  unfolding reads_to_def
proof (intro allI impI)
  fix buf n s ts assume "toks_at buf s ((us @ replicate j (Op 38)) @ ts)" and st: "ts = [] \<or> sees [41, 0] ts"
  then have ts: "toks_at buf s (us @ replicate j (Op 38) @ ts)" by simp
  show "pok (parseline buf (eol buf) n) (reads buf ((BACK ^^ j) a) ts) s"
  proof (cases n)
    case (Suc k)
    show ?thesis unfolding Suc parseline.simps
    proof (rule line_read [OF assms ts])
      fix cmd t assume r: "reads buf ((BACK ^^ j) a) ts cmd t"
      then have t: "toks_at buf t ts" by (simp add: reads_def)
      show "pok (pbind (ppeek buf (eol buf) [59, 0]) (\<lambda>more. if more then pbind (ptok buf (eol buf))
          (\<lambda>_. pbind (parseline buf (eol buf) k) (\<lambda>rest. pret (LIST cmd rest))) else pret cmd))
          (reads buf ((BACK ^^ j) a) ts) t"
        using r st sees_stops(2) by (auto simp: pok_peek [OF t] pok_pret)
    qed (use st in blast)
  qed (simp add: parseline.simps pok_none)
qed

lemma line_more:
  assumes "reads_to parsepipe [41, 38, 59, 0] us a" "reads_to parseline [41, 0] vs b"
  shows "reads_to parseline [41, 0] (us @ replicate j (Op 38) @ Op 59 # vs) (LIST ((BACK ^^ j) a) b)"
  unfolding reads_to_def
proof (intro allI impI)
  fix buf n s ts assume "toks_at buf s ((us @ replicate j (Op 38) @ Op 59 # vs) @ ts)" and st: "ts = [] \<or> sees [41, 0] ts"
  then have ts: "toks_at buf s (us @ replicate j (Op 38) @ Op 59 # vs @ ts)" by simp
  show "pok (parseline buf (eol buf) n) (reads buf (LIST ((BACK ^^ j) a) b) ts) s"
  proof (cases n)
    case (Suc k)
    show ?thesis unfolding Suc parseline.simps
    proof (rule line_read [OF assms(1) ts])
      fix cmd t assume r: "reads buf ((BACK ^^ j) a) (Op 59 # vs @ ts) cmd t"
      then have t: "toks_at buf t (Op 59 # vs @ ts)" by (simp add: reads_def)
      have rest: "pok (pbind (parseline buf (eol buf) k) (\<lambda>rest. pret (LIST cmd rest)))
          (reads buf (LIST ((BACK ^^ j) a) b) ts) u" if "toks_at buf u (vs @ ts)" for u
        by (rule pok_bindI [OF reads_toD [OF assms(2) that st]]) (use r in \<open>simp add: pok_pret reads_def\<close>)
      show "pok (pbind (ppeek buf (eol buf) [59, 0]) (\<lambda>more. if more then pbind (ptok buf (eol buf))
          (\<lambda>_. pbind (parseline buf (eol buf) k) (\<lambda>rest. pret (LIST cmd rest))) else pret cmd))
          (reads buf (LIST ((BACK ^^ j) a) b) ts) t"
        using rest by (auto simp: pok_peek [OF t] found_lits intro!: pok_tok [OF t])
    qed blast
  qed (simp add: parseline.simps pok_none)
qed

text \<open>Every command is a stack of redirections around one that is none, and a stack of background
  markers around one that is none.\<close>

lemma wrap_append: "wrap (rs @ [(f, m, d)]) c = REDIR (wrap rs c) f m d"
  by (induction rs arbitrary: c) auto

lemma strip_redirs:
  "\<exists>rs c0. c = wrap rs c0 \<and> pr 0 c = pr 0 c0 @ wrap_toks rs \<and> (\<forall>x f m d. c0 \<noteq> REDIR x f m d)
     \<and> (rs = [] \<or> size c0 < size c) \<and> (cmd_ok c \<longrightarrow> cmd_ok c0 \<and> (\<forall>(f, m, d)\<in>set rs. redir_ok f m d))" (is "?P c")
proof -
  have base: "?P c" if "\<forall>x f m d. c \<noteq> REDIR x f m d" for c
    by (rule exI [of _ "[]"], rule exI [of _ c]) (use that in \<open>simp add: wrap_toks_def\<close>)
  show ?thesis
  proof (induction c)
    case (REDIR c f m d)
    then obtain rs c0 where c: "c = wrap rs c0" "pr 0 c = pr 0 c0 @ wrap_toks rs" "\<forall>x f m d. c0 \<noteq> REDIR x f m d"
      "rs = [] \<or> size c0 < size c" "cmd_ok c \<longrightarrow> cmd_ok c0 \<and> (\<forall>(f, m, d)\<in>set rs. redir_ok f m d)" by blast
    show ?case
      by (rule exI [of _ "rs @ [(f, m, d)]"], rule exI [of _ c0])
        (use c in \<open>auto simp: wrap_append wrap_toks_def\<close>)
  qed (rule base, simp)+
qed

lemma strip_backs:
  "\<exists>j c0. c = (BACK ^^ j) c0 \<and> pr 2 c = pr 1 c0 @ replicate j (Op 38) \<and> (j = 0 \<or> size c0 < size c)
     \<and> (cmd_ok c \<longrightarrow> cmd_ok c0)" (is "?P c")
proof -
  have base: "?P c" if "\<forall>x. c \<noteq> BACK x" for c
    by (rule exI [of _ 0], rule exI [of _ c]) (use that in \<open>cases c; simp add: paren_def\<close>)
  show ?thesis
  proof (induction c)
    case (BACK c)
    then obtain j c0 where c: "c = (BACK ^^ j) c0" "pr 2 c = pr 1 c0 @ replicate j (Op 38)" "j = 0 \<or> size c0 < size c"
      "cmd_ok c \<longrightarrow> cmd_ok c0" by blast
    show ?case
      by (rule exI [of _ "Suc j"], rule exI [of _ c0])
        (use c in \<open>auto simp: paren_def replicate_append_same\<close>)
  qed (rule base, simp)+
qed

lemma all_read: "cmd_ok c \<Longrightarrow> exec_reads c \<and> pipe_reads c \<and> line_reads c"
proof (induction "size c" arbitrary: c rule: less_induct)
  case less
  have ih: "exec_reads x" "pipe_reads x" "line_reads x" if "size x < size c" "cmd_ok x" for x
    using less.hyps that by blast+
  have pipe: "line_reads c" if "pipe_reads c" "pr 3 c = pr 1 c"
    using line_last [OF that(1), of 0] that(2) by simp
  have exec: "pipe_reads c" if "exec_reads c" "pr 1 c = pr 0 c"
    using pipe_last [OF that(1)] that(2) by simp
  have block: "exec_reads c" if "line_reads c" "pr 0 c = Op 40 # pr 3 c @ [Op 41]"
    using block_read [OF that(1), of "[]"] that(2) by (simp add: wrap_toks_def)
  show ?case
  proof (cases c)
    case (EXEC ws)
    have "exec_reads c" using exec_words_read [of ws "[]"] less.prems EXEC by (simp add: wrap_toks_def)
    with EXEC exec pipe show ?thesis by simp
  next
    case (REDIR x f m d)
    obtain rs c0 where c0: "c = wrap rs c0" "pr 0 c = pr 0 c0 @ wrap_toks rs" "\<forall>x f m d. c0 \<noteq> REDIR x f m d"
      "rs = [] \<or> size c0 < size c" "cmd_ok c0" "\<forall>(f, m, d)\<in>set rs. redir_ok f m d"
      using strip_redirs [of c] less.prems by blast
    then have lt: "size c0 < size c" using REDIR by (cases rs) auto
    have "exec_reads c"
    proof (cases c0)
      case (EXEC ws)
      with exec_words_read [of ws rs] c0 show ?thesis by simp
    qed (use block_read [OF ih(3) [OF lt c0(5)] c0(6)] c0 in \<open>simp_all add: paren_def\<close>)
    with REDIR exec pipe show ?thesis by simp
  next
    case (PIPE a b)
    have "pipe_reads c" using pipe_more [OF ih(1) [of a] ih(2) [of b]] less.prems PIPE by (simp add: paren_def)
    with PIPE pipe block show ?thesis by (simp add: paren_def)
  next
    case (LIST a b)
    obtain j a0 where a: "a = (BACK ^^ j) a0" "pr 2 a = pr 1 a0 @ replicate j (Op 38)" "j = 0 \<or> size a0 < size a" "cmd_ok a0"
      using strip_backs [of a] less.prems LIST by auto
    then have "size a0 \<le> size a" by auto
    then have "line_reads c" using line_more [OF ih(2) [of a0] ih(3) [of b], of j] less.prems LIST a by (simp add: paren_def)
    with LIST exec block show ?thesis by (simp add: paren_def)
  next
    case (BACK x)
    obtain j a0 where a: "x = (BACK ^^ j) a0" "pr 2 x = pr 1 a0 @ replicate j (Op 38)" "j = 0 \<or> size a0 < size x" "cmd_ok a0"
      using strip_backs [of x] less.prems BACK by auto
    then have "size a0 < size c" using BACK by auto
    from line_last [OF ih(2) [OF this a(4)], of "Suc j"] have "line_reads c"
      using a BACK by (simp add: paren_def flip: replicate_append_same)
    with BACK exec block show ?thesis by (simp add: paren_def)
  qed
qed

subsection \<open>Whole lines\<close>

lemma pr_ok: "cmd_ok c \<Longrightarrow> list_all tok_ok (pr l c)"
  by (induction c arbitrary: l) (auto simp: paren_def redir_toks_def redir_ok_def found_simps list_all_iff)

lemma enc_nz: "list_all tok_ok ts \<Longrightarrow> 0 \<notin> set (enc ts)"
proof (induction ts)
  case (Cons t ts)
  then show ?case by (cases t) (auto simp: word_char_def list_all_iff found_simps)
qed simp

lemma unparse_line:
  assumes "cmd_ok c"
  shows "toks_at (unparse c) 0 (pr 3 c @ [])" "terminated (unparse c)" "length (cstr (unparse c)) = eol (unparse c)"
proof -
  have ok: "list_all tok_ok (pr 3 c)" by (rule pr_ok [OF assms])
  then show "toks_at (unparse c) 0 (pr 3 c @ [])" by (simp add: toks_at_def unparse_def)
  have "terminated (xs @ [0])" for xs by (induction xs) auto
  then show "terminated (unparse c)" by (simp add: unparse_def)
  show "length (cstr (unparse c)) = eol (unparse c)"
    using cstr_prefix [OF enc_nz [OF ok], of "[]"] by (simp add: unparse_def eol_def)
qed

text \<open>The strings of a command whose words are ended in the buffer.\<close>

definition strings_of :: "u8 list \<Rightarrow> word_at cmd \<Rightarrow> u8 list cmd" where
  "strings_of buf cmd = map_cmd (\<lambda>w. cstr (drop (fst w) buf)) cmd"

lemma parsecmd_reads:
  assumes "cmd_ok c"
  shows "\<exists>cmd buf. parsecmd (unparse c) = Some (Inr (cmd, buf)) \<and> strings_of buf cmd = c"
proof -
  let ?b = "unparse c"
  note u = unparse_line [OF assms]
  have "pok (parseline ?b (eol ?b) (parsecmd_fuel (eol ?b))) (reads ?b c []) 0"
    using all_read [OF assms] u(1) by (intro reads_toD) auto
  then have "\<exists>cmd. parsecmd ?b = Some (Inr (cmd, nulterminate cmd ?b)) \<and> map_cmd (bytes_of ?b) cmd = c \<or> parsecmd ?b = None"
    using u toks_at_nth(1) [of ?b _ "[]"] toks_at_stop [of ?b _ "[]"]
    by (auto simp: parsecmd_def strlen_eq pok_def pbind_def ppeek_def peek_def pret_def reads_def
        split: option.splits sum.splits)
  moreover from parsecmd_outcome [OF u(2)] have "parsecmd ?b \<noteq> None" by auto
  ultimately obtain cmd where c: "parsecmd ?b = Some (Inr (cmd, nulterminate cmd ?b))" "map_cmd (bytes_of ?b) cmd = c"
    by blast
  then have w: "words_ok ?b (eol ?b) cmd" using parsecmd_outcome [OF u(2)] u(3) by auto
  have "strings_of (nulterminate cmd ?b) cmd = map_cmd (bytes_of ?b) cmd"
    unfolding strings_of_def
    using nulterminate_string(1) [OF _ w] terminated_line [OF u(2)] u(3) by (intro cmd.map_cong0) simp
  with c show ?thesis by auto
qed

text \<open>C24. The parser ends on every line: for every string in a buffer \<^verbatim>\<open>parsecmd\<close> returns, with an error message or
  with a command. Every word of such a command is a non-empty string of its own after the call: the bytes
  between its two indices, none of them white space or an operator, followed by a zero.\<close>

theorem parsecmd_ends:
  assumes "terminated buf"
  shows "(\<exists>msg. parsecmd buf = Some (Inl msg))
    \<or> (\<exists>cmd buf'. parsecmd buf = Some (Inr (cmd, buf')) \<and> (\<forall>w\<in>set_cmd cmd.
        cstr (drop (fst w) buf') = bytes_of buf w \<and> bytes_of buf w \<noteq> [] \<and> list_all word_char (bytes_of buf w)))"
  using parsecmd_outcome [OF assms] nulterminate_string [OF terminated_line [OF assms]] by blast

lemma parsecmd_ends_witness:
  "\<exists>cmd buf'. parsecmd [108, 115, 62, 102, 0] = Some (Inr (cmd, buf')) \<and> (\<forall>w\<in>set_cmd cmd.
     cstr (drop (fst w) buf') = bytes_of [108, 115, 62, 102, 0] w)"
proof -
  have t: "terminated [108, 115, 62, 102, 0]" by simp
  have "parsecmd [108, 115, 62, 102, 0] = Some (Inr (REDIR (EXEC [(0, 2)]) (3, 4) sh_create 1, [108, 115, 0, 102, 0]))"
    by code_simp
  then show ?thesis using parsecmd_ends [OF t] by auto
qed

text \<open>C25. The parser reads back what is written out: every command that a line can express, written with a
  space after each token and with parentheses where the levels of the grammar ask for them, is parsed to a
  command with the same structure, whose words are the same strings.\<close>

theorem parsecmd_unparse:
  assumes "cmd_ok c"
  shows "\<exists>cmd buf. parsecmd (unparse c) = Some (Inr (cmd, buf)) \<and> strings_of buf cmd = c"
  by (rule parsecmd_reads [OF assms])

lemma parsecmd_unparse_witness:
  "\<exists>cmd buf. parsecmd (unparse (PIPE (BACK (EXEC [[97], [98]])) (REDIR (EXEC [[99]]) [100] sh_rdonly 0)))
       = Some (Inr (cmd, buf))
     \<and> strings_of buf cmd = PIPE (BACK (EXEC [[97], [98]])) (REDIR (EXEC [[99]]) [100] sh_rdonly 0)"
proof -
  have "cmd_ok (PIPE (BACK (EXEC [[97], [98]])) (REDIR (EXEC [[99]]) [100] sh_rdonly 0))"
    by (simp add: MAXARGS_def redir_ok_def word_char_def found_simps)
  then show ?thesis by (rule parsecmd_unparse)
qed

end
