(* ===== verification/Shell_Run.thy ===== *)
theory Shell_Run
  imports Shell
begin

text \<open>
  What the shell does with a parsed command (\<^verbatim>\<open>runcmd\<close> of \<^verbatim>\<open>sh.c\<close>), its search path and its main loop.

  The code of a process is a tree of system calls with a continuation for every result (\<open>prog\<close>); \<^verbatim>\<open>runcmd\<close> and
  the body of the main loop are functions that give such trees, call for call as in the source. A process has
  its code, its table of descriptors and its children; \<open>pstep\<close> is one system call of one process: \<^verbatim>\<open>fork\<close> copies
  the process, \<^verbatim>\<open>wait\<close> blocks until a child has ended, \<^verbatim>\<open>exit\<close> leaves the children to \<^verbatim>\<open>init\<close>. \<^verbatim>\<open>fork\<close> and \<^verbatim>\<open>pipe\<close> may
  fail at any time. \<open>sys_step\<close> interleaves the steps of all processes. A program loaded by \<^verbatim>\<open>exec\<close> runs for
  some time and ends. \<open>shenv\<close> says which files can be opened and which can be executed.

  The specification is a language of jobs with the meaning of the operators of a command line: \<^verbatim>\<open>;\<close> starts the
  second command when the first has ended, \<^verbatim>\<open>|\<close> runs both at the same time with a pipe between them, \<^verbatim>\<open>&\<close> does not
  wait. Shown: in every interleaving the processes do what the job does, with the descriptors that the command
  asks for; a process that waits holds no end of a pipe; the shell prompts again only when the job has ended;
  and no process is stuck.
\<close>

section \<open>Descriptors\<close>

datatype shfile = Tty nat | Opened "u8 list" int | PipeR nat | PipeW nat

type_synonym fds = "nat \<Rightarrow> shfile option"

record shenv =
  can_open :: "u8 list \<Rightarrow> int \<Rightarrow> bool"
  can_exec :: "u8 list \<Rightarrow> bool"
  can_chdir :: "u8 list \<Rightarrow> bool"

text \<open>The effect of the system calls on the table of descriptors of the caller.\<close>

definition lowest :: "(nat \<Rightarrow> 'f option) \<Rightarrow> nat option" where
  "lowest fds = find (\<lambda>i. fds i = None) [0..<NOFILE]"

definition sh_close :: "nat \<Rightarrow> (nat \<Rightarrow> 'f option) \<Rightarrow> nat \<Rightarrow> 'f option" where
  "sh_close d fds = fds(d := None)"

definition sh_dup :: "nat \<Rightarrow> (nat \<Rightarrow> 'f option) \<Rightarrow> nat \<Rightarrow> 'f option" where
  "sh_dup d fds = (case fds d of None \<Rightarrow> fds | Some x \<Rightarrow> case lowest fds of None \<Rightarrow> fds | Some i \<Rightarrow> fds(i \<mapsto> x))"

definition sh_open :: "shenv \<Rightarrow> u8 list \<Rightarrow> int \<Rightarrow> fds \<Rightarrow> (nat \<times> fds) option" where
  "sh_open env f m fds =
    (if can_open env f m then map_option (\<lambda>i. (i, fds(i \<mapsto> Opened f m))) (lowest fds) else None)"

definition sh_pipe :: "nat \<Rightarrow> fds \<Rightarrow> (nat \<times> nat \<times> fds) option" where
  "sh_pipe k fds =
    Option.bind (lowest fds) (\<lambda>i. let fds = fds(i \<mapsto> PipeR k) in
    Option.bind (lowest fds) (\<lambda>j. Some (i, j, fds(j \<mapsto> PipeW k))))"

section \<open>Code and processes\<close>

datatype event =
    Run "u8 list" "u8 list list" fds
  | Ended "u8 list" "u8 list list"
  | ExecFailed "u8 list"
  | OpenFailed "u8 list"
  | ShPanic string
  | Chdir "u8 list"
  | ChdirFailed "u8 list"
  | NoPath string
  | Overrun

text \<open>\<open>Print\<close> is a message on the console; \<open>Overrun\<close> stands for a write outside a block. \<open>Prompt\<close> is the shell at
  the head of its main loop, with its search path; \<open>Program\<close> is a program that \<^verbatim>\<open>exec\<close> loaded.\<close>

datatype prog =
    SysExit
  | Print event prog
  | Close nat prog
  | Dup nat prog
  | Open "u8 list" int "nat option \<Rightarrow> prog"
  | MkPipe "(nat \<times> nat) option \<Rightarrow> prog"
  | Fork prog prog prog
  | Wait prog
  | Exec "u8 list" "u8 list list" prog
  | SetDir "u8 list" "bool \<Rightarrow> prog"
  | Prompt "u8 list list"
  | Program "u8 list" "u8 list list"

datatype shproc = ShProc prog fds "shproc list" | Zombie

text \<open>One step of a process or of one of its descendants: what it shows to the outside, the processes that it left to
  \<^verbatim>\<open>init\<close>, and the number of pipes made so far.\<close>

inductive pstep :: "shenv \<Rightarrow> shproc \<Rightarrow> nat \<Rightarrow> event option \<Rightarrow> shproc \<Rightarrow> shproc list \<Rightarrow> nat \<Rightarrow> bool" for env where
  exit: "pstep env (ShProc SysExit f ks) w None Zombie ks w"
| print: "pstep env (ShProc (Print e k) f ks) w (Some e) (ShProc k f ks) [] w"
| close: "pstep env (ShProc (Close d k) f ks) w None (ShProc k (sh_close d f) ks) [] w"
| dup: "pstep env (ShProc (Dup d k) f ks) w None (ShProc k (sh_dup d f) ks) [] w"
| open_ok: "sh_open env n m f = Some (d, f') \<Longrightarrow> pstep env (ShProc (Open n m k) f ks) w None (ShProc (k (Some d)) f' ks) [] w"
| open_fail: "sh_open env n m f = None \<Longrightarrow> pstep env (ShProc (Open n m k) f ks) w None (ShProc (k None) f ks) [] w"
| pipe_ok: "sh_pipe w f = Some (i, j, f') \<Longrightarrow> pstep env (ShProc (MkPipe k) f ks) w None (ShProc (k (Some (i, j))) f' ks) [] (w + 1)"
| pipe_fail: "pstep env (ShProc (MkPipe k) f ks) w None (ShProc (k None) f ks) [] w"
| fork_ok: "pstep env (ShProc (Fork c p q) f ks) w None (ShProc p f (ks @ [ShProc c f []])) [] w"
| fork_fail: "pstep env (ShProc (Fork c p q) f ks) w None (ShProc q f ks) [] w"
| wait_child: "pstep env (ShProc (Wait k) f (xs @ Zombie # ys)) w None (ShProc k f (xs @ ys)) [] w"
| wait_none: "pstep env (ShProc (Wait k) f []) w None (ShProc k f []) [] w"
| exec_ok: "can_exec env n \<Longrightarrow> pstep env (ShProc (Exec n argv k) f ks) w (Some (Run n argv f)) (ShProc (Program n argv) f ks) [] w"
| exec_fail: "\<not> can_exec env n \<Longrightarrow> pstep env (ShProc (Exec n argv k) f ks) w None (ShProc k f ks) [] w"
| set_dir: "pstep env (ShProc (SetDir n k) f ks) w None (ShProc (k (can_chdir env n)) f ks) [] w"
| ended: "pstep env (ShProc (Program n argv) f ks) w (Some (Ended n argv)) Zombie ks w"
| child: "pstep env k w e k' os w' \<Longrightarrow> pstep env (ShProc p f (xs @ k # ys)) w e (ShProc p f (xs @ k' # ys)) os w'"

text \<open>All processes: the first is the shell, the others have lost their parent.\<close>

inductive sys_step :: "shenv \<Rightarrow> shproc list \<times> nat \<Rightarrow> event option \<Rightarrow> shproc list \<times> nat \<Rightarrow> bool" for env where
  "pstep env p w e p' os w' \<Longrightarrow> sys_step env (xs @ p # ys, w) e (xs @ p' # ys @ os, w')"

section \<open>Running a command\<close>

definition fork1 :: "prog \<Rightarrow> prog \<Rightarrow> prog" where
  "fork1 child parent = Fork child parent (Print (ShPanic ''fork'') SysExit)"

text \<open>The entries of the search path live in blocks of 100 bytes, to which the name is appended.\<close>

fun myexec :: "u8 list \<Rightarrow> u8 list list \<Rightarrow> u8 list list \<Rightarrow> prog" where
  "myexec path argv [] = Print (ExecFailed path) SysExit"
| "myexec path argv (p # ps) =
    (if 100 \<le> length (p @ path) then Print Overrun SysExit else Exec (p @ path) argv (myexec path argv ps))"

primrec runcmd :: "u8 list list \<Rightarrow> u8 list cmd \<Rightarrow> prog" where
  "runcmd arrpath (EXEC argv) = (case argv of [] \<Rightarrow> SysExit | path # _ \<Rightarrow> myexec path argv arrpath)"
| "runcmd arrpath (REDIR c f m d) =
    Close (nat d) (Open f m (\<lambda>r. case r of None \<Rightarrow> Print (OpenFailed f) SysExit | Some _ \<Rightarrow> runcmd arrpath c))"
| "runcmd arrpath (LIST a b) = fork1 (runcmd arrpath a) (Wait (runcmd arrpath b))"
| "runcmd arrpath (PIPE a b) =
    MkPipe (\<lambda>p. case p of
      None \<Rightarrow> Print (ShPanic ''pipe'') SysExit
    | Some (p0, p1) \<Rightarrow>
        fork1 (Close 1 (Dup p1 (Close p0 (Close p1 (runcmd arrpath a))))) (
        fork1 (Close 0 (Dup p0 (Close p0 (Close p1 (runcmd arrpath b))))) (
        Close p0 (Close p1 (Wait (Wait SysExit))))))"
| "runcmd arrpath (BACK c) = fork1 (runcmd arrpath c) SysExit"

section \<open>The search path\<close>

text \<open>\<open>cap\<close> is the number of pointers that fit into the block of 4 bytes asked for. A \<open>None\<close> stands for a write
  outside a block.\<close>

fun parsepath_loop :: "nat \<Rightarrow> u8 list list \<Rightarrow> u8 list \<Rightarrow> u8 list \<Rightarrow> u8 list list option" where
  "parsepath_loop cap paths cur [] = (if 100 \<le> length cur then None else Some (paths @ [cur]))"
| "parsepath_loop cap paths cur (c # cs) =
    (if 100 \<le> length cur then None
     else if c \<noteq> 58 then parsepath_loop cap paths (cur @ [c]) cs
     else if cap \<le> length paths + 1 then None
     else parsepath_loop cap (paths @ [cur]) [] cs)"

text \<open>\<open>env\<close> holds the bytes of \<^verbatim>\<open>.env\<close>, or \<open>None\<close> when it cannot be opened. Of a file shorter than the keyword
  the rest of the buffer is compared, which is not initialised.\<close>

definition parsepath :: "nat \<Rightarrow> u8 list option \<Rightarrow> (string + u8 list list) option" where
  "parsepath cap env =
    (case env of
       None \<Rightarrow> Some (Inl ''no environment file: -1'')
     | Some env \<Rightarrow>
         if length env < 5 then None
         else if take 5 env = [80, 65, 84, 72, 61] then map_option Inr (parsepath_loop cap [] [] (drop 5 env))
         else Some (Inl ''.env isnt defined correctly''))"

fun join_path :: "u8 list list \<Rightarrow> u8 list" where
  "join_path [] = []"
| "join_path [p] = p"
| "join_path (p # ps) = p @ 58 # join_path ps"

lemma parsepath_loop_entry:
  "58 \<notin> set p \<Longrightarrow> length (cur @ p) < 100 \<Longrightarrow> parsepath_loop cap paths cur (p @ cs) = parsepath_loop cap paths (cur @ p) cs"
  by (induction p arbitrary: cur) auto

lemma parsepath_loop_join:
  "ps \<noteq> [] \<Longrightarrow> \<forall>p\<in>set ps. 58 \<notin> set p \<and> length p < 100 \<Longrightarrow> length (paths @ ps) \<le> cap
   \<Longrightarrow> parsepath_loop cap paths [] (join_path ps) = Some (paths @ ps)"
proof (induction ps arbitrary: paths rule: join_path.induct)
  case (2 p)
  then show ?case using parsepath_loop_entry [of p "[]" cap paths "[]"] by simp
next
  case (3 p q qs)
  then show ?case
    using parsepath_loop_entry [of p "[]" cap paths "58 # join_path (q # qs)"] "3.IH" [of "paths @ [p]"] by simp
qed simp

text \<open>A path of at most \<open>cap\<close> entries, each shorter than 100 bytes, is read as it is written.\<close>

lemma parsepath_join:
  assumes "ps \<noteq> []" "\<forall>p\<in>set ps. 58 \<notin> set p \<and> length p < 100" "length ps \<le> cap"
  shows "parsepath cap (Some ([80, 65, 84, 72, 61] @ join_path ps)) = Some (Inr ps)"
  using parsepath_loop_join [of ps "[]" cap] assms by (simp add: parsepath_def)

section \<open>The main loop\<close>

text \<open>\<^verbatim>\<open>gets\<close> of \<^verbatim>\<open>ulib.c\<close>: the line and the input that is left.\<close>

fun gets_loop :: "nat \<Rightarrow> u8 list \<Rightarrow> u8 list \<times> u8 list" where
  "gets_loop 0 input = ([], input)"
| "gets_loop (Suc room) [] = ([], [])"
| "gets_loop (Suc room) (c # cs) =
    (if c = 10 \<or> c = 13 then ([c], cs) else let (line, rest) = gets_loop room cs in (c # line, rest))"

definition sh_gets :: "nat \<Rightarrow> u8 list \<Rightarrow> u8 list \<times> u8 list" where
  "sh_gets n input = (let (line, rest) = gets_loop (n - 1) input in (line @ [0], rest))"

text \<open>\<open>None\<close> at the end of the input.\<close>

definition getcmd :: "nat \<Rightarrow> u8 list \<Rightarrow> (u8 list \<times> u8 list) option" where
  "getcmd nbuf input = (let (buf, rest) = sh_gets nbuf input in if hd buf = 0 then None else Some (buf, rest))"

definition sh_line :: "u8 list list \<Rightarrow> u8 list \<Rightarrow> prog" where
  "sh_line arrpath buf =
    (if take 3 buf = [99, 100, 32] then
       let dir = cstr (drop 3 (buf[length (cstr buf) - 1 := 0])) in
       SetDir dir (\<lambda>ok. if ok then Print (Chdir dir) (Prompt arrpath) else Print (ChdirFailed dir) (Prompt arrpath))
     else fork1
       (case parsecmd buf of
          None \<Rightarrow> Print Overrun SysExit
        | Some (Inl msg) \<Rightarrow> Print (ShPanic msg) SysExit
        | Some (Inr (cmd, buf)) \<Rightarrow> runcmd arrpath (strings_of buf cmd))
       (Wait (Prompt arrpath)))"

lemma gets_loop_rest: "gets_loop n input = (line, rest) \<Longrightarrow> length rest \<le> length input
   \<and> (line \<noteq> [] \<longrightarrow> length rest < length input)"
proof (induction n input arbitrary: line rule: gets_loop.induct)
  case (3 room c cs)
  then show ?case by (auto split: if_splits prod.splits)
qed auto

text \<open>Every line takes something from the input.\<close>

lemma getcmd_rest: "getcmd n input = Some (buf, rest) \<Longrightarrow> length rest < length input"
  using gets_loop_rest [of "n - 1" input] by (auto simp: getcmd_def sh_gets_def split: prod.splits if_splits)

text \<open>The main loop, while the other processes go on.\<close>

inductive sh_loop :: "shenv \<Rightarrow> shproc list \<times> nat \<times> u8 list \<Rightarrow> event option \<Rightarrow> shproc list \<times> nat \<times> u8 list \<Rightarrow> bool" for env where
  line: "getcmd 100 input = Some (buf, rest) \<Longrightarrow>
    sh_loop env (ShProc (Prompt arrpath) f [] # ps, w, input) None (ShProc (sh_line arrpath buf) f [] # ps, w, rest)"
| eof: "getcmd 100 input = None \<Longrightarrow>
    sh_loop env (ShProc (Prompt arrpath) f [] # ps, w, input) None (ShProc SysExit f [] # ps, w, input)"
| step: "sys_step env (ps, w) e (ps', w') \<Longrightarrow> sh_loop env (ps, w, input) e (ps', w', input)"

text \<open>At the start the shell opens the console until descriptors 0, 1 and 2 are taken; four rounds are enough.\<close>

definition console_name :: "u8 list" where
  "console_name = [99, 111, 110, 115, 111, 108, 101]"

primrec sh_console :: "nat \<Rightarrow> shenv \<Rightarrow> fds \<Rightarrow> fds option" where
  "sh_console 0 env fds = None"
| "sh_console (Suc k) env fds =
    (case sh_open env console_name 2 fds of
       None \<Rightarrow> Some fds
     | Some (d, fds') \<Rightarrow> if 3 \<le> d then Some (sh_close d fds') else sh_console k env fds')"

definition sh_main :: "shenv \<Rightarrow> nat \<Rightarrow> u8 list option \<Rightarrow> fds \<Rightarrow> shproc option" where
  "sh_main env cap envfile fds =
    Option.bind (sh_console 4 env fds) (\<lambda>fds. Some (ShProc
      (case parsepath cap envfile of
         None \<Rightarrow> Print Overrun SysExit
       | Some (Inl msg) \<Rightarrow> Print (NoPath msg) SysExit
       | Some (Inr arrpath) \<Rightarrow> Prompt arrpath) fds []))"

section \<open>The standard descriptors\<close>

definition std_fds :: "fds \<Rightarrow> bool" where
  "std_fds fds \<longleftrightarrow> (\<forall>i. fds i = None \<longleftrightarrow> 3 \<le> i)"

primrec redirs_std :: "'w cmd \<Rightarrow> bool" where
  "redirs_std (EXEC ws) \<longleftrightarrow> True"
| "redirs_std (REDIR c f m d) \<longleftrightarrow> redirs_std c \<and> 0 \<le> d \<and> d < 3"
| "redirs_std (PIPE a b) \<longleftrightarrow> redirs_std a \<and> redirs_std b"
| "redirs_std (LIST a b) \<longleftrightarrow> redirs_std a \<and> redirs_std b"
| "redirs_std (BACK c) \<longleftrightarrow> redirs_std c"

lemma lowest_eq: "fds i = None \<Longrightarrow> i < NOFILE \<Longrightarrow> \<forall>j<i. fds j \<noteq> None \<Longrightarrow> lowest fds = Some i"
  unfolding lowest_def find_Some_iff by (rule exI [of _ i]) simp

lemma std_close: "std_fds fds \<Longrightarrow> d < 3 \<Longrightarrow> lowest (sh_close d fds) = Some d"
  by (rule lowest_eq) (auto simp: std_fds_def sh_close_def NOFILE_def)

lemma std_set [simp]: "std_fds fds \<Longrightarrow> d < 3 \<Longrightarrow> std_fds (fds(d \<mapsto> x))"
  by (simp add: std_fds_def)

lemma lowest_SomeD: "lowest fds = Some d \<Longrightarrow> fds d = None \<and> (\<forall>j<d. fds j \<noteq> None)"
  unfolding lowest_def find_Some_iff by auto

text \<open>The console loop ends, and leaves the standard descriptors open and the others as they were.\<close>

lemma sh_console_std:
  assumes "can_open env console_name 2" "\<forall>i. 3 \<le> i \<longrightarrow> fds i = None" "k \<le> 3" "\<forall>i<k. fds i \<noteq> None" "4 - k \<le> n"
  shows "\<exists>fds'. sh_console n env fds = Some fds' \<and> std_fds fds' \<and> (\<forall>i. fds i \<noteq> None \<longrightarrow> fds' i = fds i)"
  using assms
proof (induction n arbitrary: k fds)
  case (Suc n)
  have "fds 3 = None" "(3::nat) < NOFILE" using Suc.prems(2) by (auto simp: NOFILE_def)
  then have "lowest fds \<noteq> None" unfolding lowest_def find_None_iff by auto
  then obtain d where d: "lowest fds = Some d" by blast
  note l = lowest_SomeD [OF d]
  have o: "sh_open env console_name 2 fds = Some (d, fds(d \<mapsto> Opened console_name 2))"
    using Suc.prems(1) d by (simp add: sh_open_def)
  have kd: "k \<le> d" using l Suc.prems(4) by (meson not_le)
  show ?case
  proof (cases "3 \<le> d")
    case True
    then have "fds i \<noteq> None" if "i < 3" for i using l that by (meson less_le_trans)
    then have "std_fds fds" unfolding std_fds_def using Suc.prems(2) by (meson not_le)
    then show ?thesis using True o l by (auto simp: sh_close_def fun_upd_idem)
  next
    case False
    define g where "g = fds(d \<mapsto> Opened console_name 2)"
    have "\<forall>i<Suc d. g i \<noteq> None" "\<forall>i. 3 \<le> i \<longrightarrow> g i = None" "Suc d \<le> 3" "4 - Suc d \<le> n"
      using l Suc.prems(2,5) False kd by (auto simp: g_def less_Suc_eq)
    then obtain fds' where "sh_console n env g = Some fds'" "std_fds fds'" "\<forall>i. g i \<noteq> None \<longrightarrow> fds' i = g i"
      using Suc.IH [of g "Suc d"] Suc.prems(1) by blast
    moreover have "fds i \<noteq> None \<longrightarrow> g i = fds i" for i using l by (simp add: g_def)
    ultimately show ?thesis using o False unfolding g_def [symmetric] by (intro exI [of _ fds']) auto
  qed
qed simp

lemma sh_open_std:
  "std_fds fds \<Longrightarrow> d < 3 \<Longrightarrow> sh_open env f m (sh_close d fds)
   = (if can_open env f m then Some (d, fds(d \<mapsto> Opened f m)) else None)"
  by (simp add: sh_open_def std_close) (simp add: sh_close_def)

lemma sh_pipe_std:
  assumes "std_fds fds"
  shows "sh_pipe k fds = Some (3, 4, fds(3 \<mapsto> PipeR k, 4 \<mapsto> PipeW k))"
proof -
  have "lowest fds = Some 3" "lowest (fds(3 \<mapsto> PipeR k)) = Some 4"
    using assms by (auto intro!: lowest_eq simp: std_fds_def NOFILE_def simp flip: not_None_eq)
  then show ?thesis by (simp add: sh_pipe_def)
qed

lemma pipe_end_std:
  assumes "std_fds fds" "d < 3" "p = 3 \<and> x = PipeR k \<or> p = 4 \<and> x = PipeW k"
  shows "sh_close 4 (sh_close 3 (sh_dup p (sh_close d (fds(3 \<mapsto> PipeR k, 4 \<mapsto> PipeW k))))) = fds(d \<mapsto> x)"
proof -
  let ?f = "sh_close d (fds(3 \<mapsto> PipeR k, 4 \<mapsto> PipeW k))"
  have "lowest ?f = Some d" using assms(1,2) by (intro lowest_eq) (auto simp: std_fds_def sh_close_def NOFILE_def)
  moreover have "?f p = Some x" using assms(2,3) by (auto simp: sh_close_def)
  moreover have "fds 3 = None" "fds 4 = None" using assms(1) by (auto simp: std_fds_def)
  ultimately show ?thesis using assms(2) by (auto simp: sh_dup_def sh_close_def fun_eq_iff)
qed

section \<open>Jobs\<close>

text \<open>The first entry of the search path under which the program is found, or at which the name does not fit.\<close>

definition exec_found :: "shenv \<Rightarrow> u8 list \<Rightarrow> u8 list list \<Rightarrow> u8 list option" where
  "exec_found env n ps = find (\<lambda>p. 100 \<le> length (p @ n) \<or> can_exec env (p @ n)) ps"

text \<open>What there still is to do for a command: a command to be run with given descriptors, a program that runs,
  a job with a command after it, the stages of a pipeline, a message to be printed, and the end of a process, which
  leaves jobs behind. \<open>JLine\<close>, \<open>JFg\<close> and \<open>JPrompt\<close> are the shell before, during and after the foreground job.\<close>

datatype job =
    JCmd "u8 list cmd" fds
  | JRun "u8 list" "u8 list list"
  | JSeq job "u8 list cmd" fds
  | JPipe nat "u8 list cmd" "u8 list cmd" fds
  | JHalf job nat "u8 list cmd" fds
  | JPar job job
  | JSay event "job list"
  | JLeave "job list"
  | JDone
  | JLine "u8 list cmd" fds
  | JFg job
  | JPrompt

abbreviation no_fork :: event where
  "no_fork \<equiv> ShPanic ''fork''"

inductive jstep :: "shenv \<Rightarrow> u8 list list \<Rightarrow> job \<Rightarrow> nat \<Rightarrow> event option \<Rightarrow> job \<Rightarrow> job list \<Rightarrow> nat \<Rightarrow> bool" for env path where
  nothing: "jstep env path (JCmd (EXEC []) f) w None JDone [] w"
| found: "exec_found env n path = Some p \<Longrightarrow> length (p @ n) < 100 \<Longrightarrow>
    jstep env path (JCmd (EXEC (n # as)) f) w (Some (Run (p @ n) (n # as) f)) (JRun (p @ n) (n # as)) [] w"
| too_long: "exec_found env n path = Some p \<Longrightarrow> 100 \<le> length (p @ n) \<Longrightarrow>
    jstep env path (JCmd (EXEC (n # as)) f) w (Some Overrun) (JLeave []) [] w"
| not_found: "exec_found env n path = None \<Longrightarrow>
    jstep env path (JCmd (EXEC (n # as)) f) w (Some (ExecFailed n)) (JLeave []) [] w"
| ended: "jstep env path (JRun n as) w (Some (Ended n as)) JDone [] w"
| redir: "can_open env n m \<Longrightarrow> jstep env path (JCmd (REDIR c n m d) f) w None (JCmd c (f(nat d \<mapsto> Opened n m))) [] w"
| redir_fail: "\<not> can_open env n m \<Longrightarrow> jstep env path (JCmd (REDIR c n m d) f) w None (JSay (OpenFailed n) []) [] w"
| list: "jstep env path (JCmd (LIST a b) f) w None (JSeq (JCmd a f) b f) [] w"
| list_fail: "jstep env path (JCmd (LIST a b) f) w None (JSay no_fork []) [] w"
| seq: "jstep env path j w e j' js w' \<Longrightarrow> jstep env path (JSeq j b f) w e (JSeq j' b f) js w'"
| seq_next: "jstep env path (JSeq JDone b f) w None (JCmd b f) [] w"
| pipe: "jstep env path (JCmd (PIPE a b) f) w None (JPipe w a b f) [] (w + 1)"
| pipe_fail: "jstep env path (JCmd (PIPE a b) f) w None (JSay (ShPanic ''pipe'') []) [] w"
| left: "jstep env path (JPipe k a b f) w None (JHalf (JCmd a (f(1 \<mapsto> PipeW k))) k b f) [] w"
| left_fail: "jstep env path (JPipe k a b f) w None (JSay no_fork []) [] w"
| half: "jstep env path j w e j' js w' \<Longrightarrow> jstep env path (JHalf j k b f) w e (JHalf j' k b f) js w'"
| right: "jstep env path (JHalf j k b f) w None (JPar j (JCmd b (f(0 \<mapsto> PipeR k)))) [] w"
| right_fail: "jstep env path (JHalf j k b f) w None (JSay no_fork [j]) [] w"
| par1: "jstep env path i w e i' js w' \<Longrightarrow> jstep env path (JPar i j) w e (JPar i' j) js w'"
| par2: "jstep env path j w e j' js w' \<Longrightarrow> jstep env path (JPar i j) w e (JPar i j') js w'"
| par_done: "jstep env path (JPar JDone JDone) w None (JLeave []) [] w"
| detach: "jstep env path (JCmd (BACK c) f) w None (JLeave [JCmd c f]) [] w"
| detach_fail: "jstep env path (JCmd (BACK c) f) w None (JSay no_fork []) [] w"
| say: "jstep env path (JSay e js) w (Some e) (JLeave js) [] w"
| say_child: "jstep env path j w e j' js w' \<Longrightarrow> jstep env path (JSay m (xs @ j # ys)) w e (JSay m (xs @ j' # ys)) js w'"
| leave: "jstep env path (JLeave js) w None JDone js w"
| leave_child: "jstep env path j w e j' js w' \<Longrightarrow> jstep env path (JLeave (xs @ j # ys)) w e (JLeave (xs @ j' # ys)) js w'"
| line: "jstep env path (JLine c f) w None (JFg (JCmd c f)) [] w"
| line_fail: "jstep env path (JLine c f) w None (JSay no_fork []) [] w"
| fg: "jstep env path j w e j' js w' \<Longrightarrow> jstep env path (JFg j) w e (JFg j') js w'"
| fg_done: "jstep env path (JFg JDone) w None JPrompt [] w"

text \<open>The job of the shell and the jobs in the background.\<close>

inductive jobs_step :: "shenv \<Rightarrow> u8 list list \<Rightarrow> job list \<times> nat \<Rightarrow> event option \<Rightarrow> job list \<times> nat \<Rightarrow> bool" for env path where
  "jstep env path j w e j' js w' \<Longrightarrow> jobs_step env path (xs @ j # ys, w) e (xs @ j' # ys @ js, w')"

section \<open>Traces and simulation\<close>

definition shown :: "'e option \<Rightarrow> 'e list" where
  "shown e = (case e of None \<Rightarrow> [] | Some x \<Rightarrow> [x])"

text \<open>What is seen of a run.\<close>

inductive trace :: "('s \<Rightarrow> 'e option \<Rightarrow> 's \<Rightarrow> bool) \<Rightarrow> 's \<Rightarrow> 'e list \<Rightarrow> 's \<Rightarrow> bool" for step s where
  none: "trace step s [] s"
| more: "trace step s tr t \<Longrightarrow> step t e u \<Longrightarrow> trace step s (tr @ shown e) u"

text \<open>A forward simulation, in which a silent step may be matched by no step at all.\<close>

locale simulation =
  fixes step :: "'s \<Rightarrow> 'e option \<Rightarrow> 's \<Rightarrow> bool" and spec :: "'t \<Rightarrow> 'e option \<Rightarrow> 't \<Rightarrow> bool" and match :: "'s \<Rightarrow> 't \<Rightarrow> bool"
  assumes simulate: "match s t \<Longrightarrow> step s e s' \<Longrightarrow> \<exists>t'. match s' t' \<and> (spec t e t' \<or> e = None \<and> t' = t)"
begin

lemma traces:
  assumes "trace step s tr s'" "match s t"
  shows "\<exists>t'. trace spec t tr t' \<and> match s' t'"
  using assms(1)
proof induction
  case none
  then show ?case using assms(2) trace.none [of spec t] by blast
next
  case (more tr u e v)
  then obtain t' where t: "trace spec t tr t'" "match u t'" by blast
  from simulate [OF t(2) more.hyps(2)] obtain t2 where m: "match v t2" and s: "spec t' e t2 \<or> e = None \<and> t2 = t'" by blast
  from s show ?case
  proof
    assume "spec t' e t2"
    then show ?thesis using trace.more [OF t(1)] m by blast
  next
    assume "e = None \<and> t2 = t'"
    then show ?thesis using t(1) m by (auto simp: shown_def)
  qed
qed

end

section \<open>Processes and jobs\<close>

text \<open>The steps on its own descriptors that a child makes before it runs its command.\<close>

fun lstep :: "prog \<times> fds \<Rightarrow> (prog \<times> fds) option" where
  "lstep (Close d k, f) = Some (k, sh_close d f)"
| "lstep (Dup d k, f) = Some (k, sh_dup d f)"
| "lstep _ = None"

inductive settles :: "prog \<times> fds \<Rightarrow> prog \<times> fds \<Rightarrow> bool" where
  here: "settles x x"
| later: "lstep x = Some y \<Longrightarrow> settles y z \<Longrightarrow> settles x z"

abbreviation piped :: "nat \<Rightarrow> fds \<Rightarrow> fds" where
  "piped k f \<equiv> f(3 \<mapsto> PipeR k, 4 \<mapsto> PipeW k)"

abbreviation pipe_left :: "u8 list list \<Rightarrow> u8 list cmd \<Rightarrow> prog" where
  "pipe_left path a \<equiv> Close 1 (Dup 4 (Close 3 (Close 4 (runcmd path a))))"

abbreviation pipe_right :: "u8 list list \<Rightarrow> u8 list cmd \<Rightarrow> prog" where
  "pipe_right path b \<equiv> Close 0 (Dup 3 (Close 3 (Close 4 (runcmd path b))))"

abbreviation wait_both :: prog where
  "wait_both \<equiv> Wait (Wait SysExit)"

abbreviation fork_fails :: prog where
  "fork_fails \<equiv> Print no_fork SysExit"

text \<open>A process that does a job, with one rule for each point of the code at which it can be.\<close>

inductive does :: "shenv \<Rightarrow> u8 list list \<Rightarrow> shproc \<Rightarrow> job \<Rightarrow> bool" for env path where
  d_nothing: "does env path (ShProc SysExit f []) (JCmd (EXEC []) f)"
| d_try: "exec_found env n (p # ps) = exec_found env n path \<Longrightarrow> length (p @ n) < 100 \<Longrightarrow>
    does env path (ShProc (Exec (p @ n) (n # as) (myexec n (n # as) ps)) f []) (JCmd (EXEC (n # as)) f)"
| d_not_found: "exec_found env n path = None \<Longrightarrow> does env path (ShProc (Print (ExecFailed n) SysExit) f []) (JCmd (EXEC (n # as)) f)"
| d_too_long: "exec_found env n path = Some p \<Longrightarrow> 100 \<le> length (p @ n) \<Longrightarrow>
    does env path (ShProc (Print Overrun SysExit) f []) (JCmd (EXEC (n # as)) f)"
| d_redir: "std_fds f \<Longrightarrow> redirs_std c \<Longrightarrow> nat d < 3 \<Longrightarrow>
    does env path (ShProc (runcmd path (REDIR c n m d)) f []) (JCmd (REDIR c n m d) f)"
| d_open: "std_fds f \<Longrightarrow> redirs_std c \<Longrightarrow> nat d < 3 \<Longrightarrow>
    does env path (ShProc (Open n m (\<lambda>r. case r of None \<Rightarrow> Print (OpenFailed n) SysExit | Some _ \<Rightarrow> runcmd path c)) (sh_close (nat d) f) [])
      (JCmd (REDIR c n m d) f)"
| d_list: "std_fds f \<Longrightarrow> redirs_std a \<Longrightarrow> redirs_std b \<Longrightarrow>
    does env path (ShProc (Fork (runcmd path a) (Wait (runcmd path b)) fork_fails) f []) (JCmd (LIST a b) f)"
| d_pipe: "std_fds f \<Longrightarrow> redirs_std a \<Longrightarrow> redirs_std b \<Longrightarrow> does env path (ShProc (runcmd path (PIPE a b)) f []) (JCmd (PIPE a b) f)"
| d_back: "std_fds f \<Longrightarrow> redirs_std c \<Longrightarrow> does env path (ShProc (Fork (runcmd path c) SysExit fork_fails) f []) (JCmd (BACK c) f)"
| d_child: "lstep x = Some y \<Longrightarrow> settles y (runcmd path c, f) \<Longrightarrow> std_fds f \<Longrightarrow> redirs_std c \<Longrightarrow> x = (q, g) \<Longrightarrow>
    does env path (ShProc q g []) (JCmd c f)"
| d_run: "does env path (ShProc (Program n as) f []) (JRun n as)"
| d_seq: "does env path k j \<Longrightarrow> std_fds f \<Longrightarrow> redirs_std b \<Longrightarrow> does env path (ShProc (Wait (runcmd path b)) f [k]) (JSeq j b f)"
| d_piped: "std_fds f \<Longrightarrow> redirs_std a \<Longrightarrow> redirs_std b \<Longrightarrow>
    does env path (ShProc (Fork (pipe_left path a) (Fork (pipe_right path b) (Close 3 (Close 4 wait_both)) fork_fails) fork_fails) (piped k f) [])
      (JPipe k a b f)"
| d_half: "does env path l j \<Longrightarrow> std_fds f \<Longrightarrow> redirs_std b \<Longrightarrow>
    does env path (ShProc (Fork (pipe_right path b) (Close 3 (Close 4 wait_both)) fork_fails) (piped k f) [l]) (JHalf j k b f)"
| d_close3: "does env path l i \<Longrightarrow> does env path r j \<Longrightarrow> std_fds f \<Longrightarrow>
    does env path (ShProc (Close 3 (Close 4 wait_both)) (piped k f) [l, r]) (JPar i j)"
| d_close4: "does env path l i \<Longrightarrow> does env path r j \<Longrightarrow> std_fds f \<Longrightarrow>
    does env path (ShProc (Close 4 wait_both) (f(4 \<mapsto> PipeW k)) [l, r]) (JPar i j)"
| d_par: "does env path l i \<Longrightarrow> does env path r j \<Longrightarrow> std_fds f \<Longrightarrow> does env path (ShProc wait_both f [l, r]) (JPar i j)"
| d_par1: "does env path l i \<Longrightarrow> std_fds f \<Longrightarrow> does env path (ShProc (Wait SysExit) f [l]) (JPar i JDone)"
| d_par2: "does env path r j \<Longrightarrow> std_fds f \<Longrightarrow> does env path (ShProc (Wait SysExit) f [r]) (JPar JDone j)"
| d_say: "list_all2 (does env path) ks js \<Longrightarrow> does env path (ShProc (Print e SysExit) f ks) (JSay e js)"
| d_leave: "list_all2 (does env path) ks js \<Longrightarrow> does env path (ShProc SysExit f ks) (JLeave js)"
| d_done: "does env path Zombie JDone"

text \<open>The shell itself.\<close>

inductive shell_does :: "shenv \<Rightarrow> u8 list list \<Rightarrow> shproc \<Rightarrow> job \<Rightarrow> bool" for env path where
  s_line: "std_fds f \<Longrightarrow> redirs_std c \<Longrightarrow>
    shell_does env path (ShProc (Fork (runcmd path c) (Wait (Prompt path)) fork_fails) f []) (JLine c f)"
| s_fg: "does env path k j \<Longrightarrow> std_fds f \<Longrightarrow> shell_does env path (ShProc (Wait (Prompt path)) f [k]) (JFg j)"
| s_prompt: "std_fds f \<Longrightarrow> shell_does env path (ShProc (Prompt path) f []) JPrompt"
| s_job: "does env path p j \<Longrightarrow> shell_does env path p j"

lemma does_myexec:
  "exec_found env n ps = exec_found env n path \<Longrightarrow> does env path (ShProc (myexec n (n # as) ps) f []) (JCmd (EXEC (n # as)) f)"
proof (cases ps)
  case Nil
  moreover assume "exec_found env n ps = exec_found env n path"
  ultimately show ?thesis by (auto simp: exec_found_def intro: d_not_found)
next
  case (Cons p qs)
  moreover assume e: "exec_found env n ps = exec_found env n path"
  ultimately show ?thesis
    using d_too_long [of env n path p] d_try [of env n p qs path] by (auto simp: exec_found_def not_le)
qed

lemma does_runcmd:
  assumes "std_fds f" "redirs_std c"
  shows "does env path (ShProc (runcmd path c) f []) (JCmd c f)"
proof (cases c)
  case (EXEC argv)
  then show ?thesis by (cases argv) (auto intro: d_nothing does_myexec)
next
  case (REDIR c n m d)
  then show ?thesis using assms by (auto intro!: d_redir simp del: runcmd.simps)
next
  case (PIPE a b)
  then show ?thesis using assms by (auto intro!: d_pipe simp del: runcmd.simps)
qed (use assms in \<open>auto simp: fork1_def intro: d_list d_back\<close>)

lemma does_settles:
  assumes "settles (q, g) (runcmd path c, f)" "std_fds f" "redirs_std c"
  shows "does env path (ShProc q g []) (JCmd c f)"
  using assms(1)
proof cases
  case here
  then show ?thesis using does_runcmd [OF assms(2,3), where env = env and path = path] by simp
next
  case (later y)
  then show ?thesis using d_child assms(2,3) by blast
qed

lemma settles_child: "settles (Close d (Dup p (Close 3 (Close 4 q))), g) (q, sh_close 4 (sh_close 3 (sh_dup p (sh_close d g))))"
  by (rule settles.later, rule lstep.simps)+ (rule settles.here)

lemma pipe_ends:
  assumes "std_fds f" "redirs_std c"
  shows "does env path (ShProc (pipe_left path c) (piped k f) []) (JCmd c (f(1 \<mapsto> PipeW k)))"
    and "does env path (ShProc (pipe_right path c) (piped k f) []) (JCmd c (f(0 \<mapsto> PipeR k)))"
proof -
  have l: "sh_close 4 (sh_close 3 (sh_dup 4 (sh_close 1 (piped k f)))) = f(1 \<mapsto> PipeW k)"
    by (rule pipe_end_std [OF assms(1)]) simp_all
  have r: "sh_close 4 (sh_close 3 (sh_dup 3 (sh_close 0 (piped k f)))) = f(0 \<mapsto> PipeR k)"
    by (rule pipe_end_std [OF assms(1)]) simp_all
  show "does env path (ShProc (pipe_left path c) (piped k f) []) (JCmd c (f(1 \<mapsto> PipeW k)))"
    by (rule does_settles [OF settles_child [of 1 4 "runcmd path c" "piped k f", unfolded l]]) (simp_all add: assms del: fun_upd_apply)
  show "does env path (ShProc (pipe_right path c) (piped k f) []) (JCmd c (f(0 \<mapsto> PipeR k)))"
    by (rule does_settles [OF settles_child [of 0 3 "runcmd path c" "piped k f", unfolded r]]) (simp_all add: assms del: fun_upd_apply)
qed

inductive_cases does_exitE: "does env path (ShProc SysExit f ks) j"
inductive_cases does_printE: "does env path (ShProc (Print e k) f ks) j"
inductive_cases does_closeE: "does env path (ShProc (Close d k) f ks) j"
inductive_cases does_dupE: "does env path (ShProc (Dup d k) f ks) j"
inductive_cases does_openE: "does env path (ShProc (Open n m k) f ks) j"
inductive_cases does_pipeE: "does env path (ShProc (MkPipe k) f ks) j"
inductive_cases does_forkE: "does env path (ShProc (Fork c p q) f ks) j"
inductive_cases does_waitE: "does env path (ShProc (Wait k) f ks) j"
inductive_cases does_execE: "does env path (ShProc (Exec n argv k) f ks) j"
inductive_cases does_dirE: "does env path (ShProc (SetDir n k) f ks) j"
inductive_cases does_programE: "does env path (ShProc (Program n argv) f ks) j"
inductive_cases does_promptE: "does env path (ShProc (Prompt a) f ks) j"
inductive_cases does_zombieE: "does env path Zombie j"

text \<open>The answer of a job to a step.\<close>

definition answers :: "shenv \<Rightarrow> u8 list list \<Rightarrow> (shproc \<Rightarrow> job \<Rightarrow> bool) \<Rightarrow> job \<Rightarrow> nat \<Rightarrow> event option \<Rightarrow> shproc \<Rightarrow> shproc list \<Rightarrow> nat \<Rightarrow> bool" where
  "answers env path rel j w e p' os w' \<longleftrightarrow> (\<exists>j' js. rel p' j' \<and> list_all2 (does env path) os js
     \<and> (jstep env path j w e j' js w' \<or> e = None \<and> j' = j \<and> js = [] \<and> w' = w))"

lemma answer_step:
  "jstep env path j w e j' js w' \<Longrightarrow> rel p' j' \<Longrightarrow> list_all2 (does env path) os js \<Longrightarrow> answers env path rel j w e p' os w'"
  unfolding answers_def by blast

lemma answer_none: "rel p' j \<Longrightarrow> answers env path rel j w None p' [] w"
  unfolding answers_def by auto

lemma std_unpipe:
  assumes "std_fds f"
  shows "sh_close 3 (piped k f) = f(4 \<mapsto> PipeW k)" "sh_close 4 (f(4 \<mapsto> PipeW k)) = f"
proof -
  have "f 3 = None" "f 4 = None" using assms by (simp_all add: std_fds_def)
  then show "sh_close 3 (piped k f) = f(4 \<mapsto> PipeW k)" "sh_close 4 (f(4 \<mapsto> PipeW k)) = f"
    by (auto simp: sh_close_def)
qed

lemma does_close:
  assumes "does env path (ShProc (Close d k) f ks) j"
  shows "does env path (ShProc k (sh_close d f) ks) j"
  using assms
proof (rule does_closeE, goal_cases)
  case (1 c d n m)
  then show ?case using d_open by simp
next
  case (2 c g)
  then show ?case using does_settles by simp
next
  case (3 l i r j g)
  then show ?case using d_close4 by (simp add: std_unpipe)
next
  case (4 l i r j g)
  then show ?case using d_par by (simp add: std_unpipe)
qed

lemma does_dup:
  assumes "does env path (ShProc (Dup d k) f ks) j"
  shows "does env path (ShProc k (sh_dup d f) ks) j"
  using assms by (rule does_dupE) (simp add: does_settles)

text \<open>The place of a child in the job of its parent.\<close>

lemma list_one: "xs @ k # ys = [l] \<longleftrightarrow> xs = [] \<and> ys = [] \<and> k = l" "[l] = xs @ k # ys \<longleftrightarrow> xs = [] \<and> ys = [] \<and> k = l"
  by (cases xs; auto)+

lemma list_two:
  "xs @ k # ys = [l, r] \<longleftrightarrow> xs = [] \<and> k = l \<and> ys = [r] \<or> xs = [l] \<and> k = r \<and> ys = []"
  "[l, r] = xs @ k # ys \<longleftrightarrow> xs = [] \<and> k = l \<and> ys = [r] \<or> xs = [l] \<and> k = r \<and> ys = []"
  by (cases xs; cases "tl xs"; auto)+

lemma does_context:
  assumes "does env path (ShProc p f (xs @ k # ys)) j"
  obtains jk C where "does env path k jk" "j = C jk" "\<And>k' j'. does env path k' j' \<Longrightarrow> does env path (ShProc p f (xs @ k' # ys)) (C j')"
    "\<And>w e j' js w'. jstep env path jk w e j' js w' \<Longrightarrow> jstep env path (C jk) w e (C j') js w'"
  using assms
proof cases
  case (d_seq l i b)
  then show thesis using that [of i "\<lambda>j. JSeq j b f"] does.d_seq jstep.seq by (auto simp: list_one)
next
  case (d_half l i g b k')
  then show thesis using that [of i "\<lambda>j. JHalf j k' b g"] does.d_half jstep.half by (auto simp: list_one)
next
  case (d_close3 l i r j g m)
  then show thesis using that [of i "\<lambda>i. JPar i j"] that [of j "JPar i"] does.d_close3 jstep.par1 jstep.par2 by (auto simp: list_two)
next
  case (d_close4 l i r j g m)
  then show thesis using that [of i "\<lambda>i. JPar i j"] that [of j "JPar i"] does.d_close4 jstep.par1 jstep.par2 by (auto simp: list_two)
next
  case (d_par l i r j)
  then show thesis using that [of i "\<lambda>i. JPar i j"] that [of j "JPar i"] does.d_par jstep.par1 jstep.par2 by (auto simp: list_two)
next
  case (d_par1 l i)
  then show thesis using that [of i "\<lambda>i. JPar i JDone"] does.d_par1 jstep.par1 by (auto simp: list_one)
next
  case (d_par2 r i)
  then show thesis using that [of i "JPar JDone"] does.d_par2 jstep.par2 by (auto simp: list_one)
next
  case (d_say js e)
  then obtain us i vs where "js = us @ i # vs" "list_all2 (does env path) xs us" "does env path k i" "list_all2 (does env path) ys vs"
    by (auto simp: list_all2_append1 list_all2_Cons1)
  then show thesis using d_say that [of i "\<lambda>i. JSay e (us @ i # vs)"] does.d_say jstep.say_child
    by (auto simp: list_all2_appendI)
next
  case (d_leave js)
  then obtain us i vs where "js = us @ i # vs" "list_all2 (does env path) xs us" "does env path k i" "list_all2 (does env path) ys vs"
    by (auto simp: list_all2_append1 list_all2_Cons1)
  then show thesis using d_leave that [of i "\<lambda>i. JLeave (us @ i # vs)"] does.d_leave jstep.leave_child
    by (auto simp: list_all2_appendI)
qed simp_all

text \<open>The steps of a process, one system call after the other.\<close>

abbreviation does_answers :: "shenv \<Rightarrow> u8 list list \<Rightarrow> job \<Rightarrow> nat \<Rightarrow> event option \<Rightarrow> shproc \<Rightarrow> shproc list \<Rightarrow> nat \<Rightarrow> bool" where
  "does_answers env path \<equiv> answers env path (does env path)"

lemma does_exit: "does env path (ShProc SysExit f ks) j \<Longrightarrow> does_answers env path j w None Zombie ks w"
  by (erule does_exitE) (auto intro!: d_done intro: answer_step [OF jstep.nothing] answer_step [OF jstep.leave])

lemma does_print: "does env path (ShProc (Print e k) f ks) j \<Longrightarrow> does_answers env path j w (Some e) (ShProc k f ks) [] w"
  by (erule does_printE) (auto intro!: d_leave intro: answer_step [OF jstep.not_found] answer_step [OF jstep.too_long] answer_step [OF jstep.say])

lemma does_open:
  assumes "does env path (ShProc (Open n m k) f ks) j"
  shows "sh_open env n m f = Some (d, f') \<Longrightarrow> does_answers env path j w None (ShProc (k (Some d)) f' ks) [] w"
    and "sh_open env n m f = None \<Longrightarrow> does_answers env path j w None (ShProc (k None) f ks) [] w"
proof -
  from assms obtain g c d0 where j: "j = JCmd (REDIR c n m d0) g" "f = sh_close (nat d0) g" "ks = []" "std_fds g" "redirs_std c" "nat d0 < 3"
    and k: "k = (\<lambda>r. case r of None \<Rightarrow> Print (OpenFailed n) SysExit | Some _ \<Rightarrow> runcmd path c)"
    by (rule does_openE)
  note o = sh_open_std [OF j(4,6), of env n m]
  show "sh_open env n m f = Some (d, f') \<Longrightarrow> does_answers env path j w None (ShProc (k (Some d)) f' ks) [] w"
    using o j does_runcmd [OF std_set [OF j(4,6)] j(5)]
    by (auto simp: k simp del: fun_upd_apply split: if_splits intro!: answer_step [OF jstep.redir])
  show "sh_open env n m f = None \<Longrightarrow> does_answers env path j w None (ShProc (k None) f ks) [] w"
    using o j by (auto simp: k split: if_splits intro!: answer_step [OF jstep.redir_fail] d_say)
qed

lemma does_pipe:
  assumes "does env path (ShProc (MkPipe k) f ks) j"
  shows "sh_pipe w f = Some (i, i', f') \<Longrightarrow> does_answers env path j w None (ShProc (k (Some (i, i'))) f' ks) [] (w + 1)"
    and "does_answers env path j w None (ShProc (k None) f ks) [] w"
proof -
  from assms obtain a b where j: "j = JCmd (PIPE a b) f" "ks = []" "std_fds f" "redirs_std a" "redirs_std b"
    and k: "MkPipe k = runcmd path (PIPE a b)"
    by (auto elim!: does_pipeE)
  show "sh_pipe w f = Some (i, i', f') \<Longrightarrow> does_answers env path j w None (ShProc (k (Some (i, i'))) f' ks) [] (w + 1)"
    using j k d_piped [OF j(3-5)] by (auto simp: sh_pipe_std fork1_def simp del: fun_upd_apply intro!: answer_step [OF jstep.pipe [simplified]])
  show "does_answers env path j w None (ShProc (k None) f ks) [] w"
    using j k by (auto intro!: answer_step [OF jstep.pipe_fail] d_say)
qed

lemma does_fork_ok:
  assumes "does env path (ShProc (Fork c p q) f ks) j"
  shows "does_answers env path j w None (ShProc p f (ks @ [ShProc c f []])) [] w"
  using assms
proof (rule does_forkE, goal_cases)
  case (1 a b)
  then show ?case by (auto intro!: answer_step [OF jstep.list] d_seq does_runcmd)
next
  case (2 c)
  then show ?case by (auto intro!: answer_step [OF jstep.detach] d_leave does_runcmd)
next
  case (3 g a b k)
  then show ?case using pipe_ends(1) [of g a, unfolded One_nat_def]
    by (auto simp del: fun_upd_apply intro!: answer_step [OF jstep.left [unfolded One_nat_def]] d_half)
next
  case (4 l i g b k)
  then show ?case using pipe_ends(2) [of g b] by (auto simp del: fun_upd_apply intro!: answer_step [OF jstep.right] d_close3)
qed

lemma does_fork_fail: "does env path (ShProc (Fork c p q) f ks) j \<Longrightarrow> does_answers env path j w None (ShProc q f ks) [] w"
  by (erule does_forkE) (auto intro!: d_say intro: answer_step [OF jstep.list_fail] answer_step [OF jstep.detach_fail]
    answer_step [OF jstep.left_fail] answer_step [OF jstep.right_fail])

lemma does_wait:
  assumes "does env path (ShProc (Wait k) f ks) j"
  shows "ks = xs @ Zombie # ys \<Longrightarrow> does_answers env path j w None (ShProc k f (xs @ ys)) [] w" and "ks \<noteq> []"
proof -
  show "ks = xs @ Zombie # ys \<Longrightarrow> does_answers env path j w None (ShProc k f (xs @ ys)) [] w"
    using assms
    by (rule does_waitE) (auto simp: list_one list_two elim!: does_zombieE
      intro: answer_step [OF jstep.seq_next] answer_step [OF jstep.par_done] does_runcmd d_leave
        answer_none [where rel = "does env path", OF d_par1] answer_none [where rel = "does env path", OF d_par2])
  show "ks \<noteq> []" using assms by (rule does_waitE) auto
qed

lemma does_exec:
  assumes "does env path (ShProc (Exec n argv k) f ks) j"
  shows "can_exec env n \<Longrightarrow> does_answers env path j w (Some (Run n argv f)) (ShProc (Program n argv) f ks) [] w"
    and "\<not> can_exec env n \<Longrightarrow> does_answers env path j w None (ShProc k f ks) [] w"
  using assms
  by (auto elim!: does_execE simp: exec_found_def intro!: d_run does_myexec intro: answer_step [OF jstep.found] answer_none)

lemma does_program: "does env path (ShProc (Program n argv) f ks) j \<Longrightarrow> does_answers env path j w (Some (Ended n argv)) Zombie ks w"
  by (erule does_programE) (auto intro!: d_done intro: answer_step [OF jstep.ended])


lemma does_dir: "\<not> does env path (ShProc (SetDir n k) f ks) j" "\<not> does env path (ShProc (Prompt a) f ks) j"
  by (auto elim: does_dirE does_promptE)

lemma does_step:
  "pstep env p w e p' os w' \<Longrightarrow> does env path p j \<Longrightarrow> does_answers env path j w e p' os w'"
proof (induction arbitrary: j rule: pstep.induct)
  case (close d k f ks w)
  then show ?case by (intro answer_none does_close)
next
  case (dup d k f ks w)
  then show ?case by (intro answer_none does_dup)
next
  case (pipe_ok w f i i' f' k ks)
  then show ?case by (intro does_pipe(1))
next
  case (wait_none k f w)
  then show ?case using does_wait(2) by blast
next
  case (child k w e k' os w' p f xs ys)
  from child.prems obtain jk C where c: "does env path k jk" "j = C jk"
    "\<And>k' j'. does env path k' j' \<Longrightarrow> does env path (ShProc p f (xs @ k' # ys)) (C j')"
    "\<And>w e j' js w'. jstep env path jk w e j' js w' \<Longrightarrow> jstep env path (C jk) w e (C j') js w'"
    by (rule does_context) blast
  from child.IH [OF c(1)] obtain j' js where "does env path k' j'" "list_all2 (does env path) os js"
    "jstep env path jk w e j' js w' \<or> e = None \<and> j' = jk \<and> js = [] \<and> w' = w" unfolding answers_def by blast
  then show ?case unfolding answers_def c(2) using c(3,4) by blast
qed (simp_all add: does_exit does_print does_open does_pipe does_fork_ok does_fork_fail does_wait does_exec does_dir does_program)

text \<open>The shell: it answers like a job, and at the prompt it stays.\<close>

lemma shell_step:
  assumes "shell_does env path p j" "pstep env p w e p' os w'"
  shows "answers env path (shell_does env path) j w e p' os w'"
  using assms(1)
proof cases
  case (s_line f c)
  from assms(2) [unfolded s_line(1)] show ?thesis unfolding s_line(2)
    by cases (use s_line in \<open>auto intro!: does_runcmd d_say s_fg s_job [OF d_say] intro: answer_step [OF jstep.line] answer_step [OF jstep.line_fail]\<close>)
next
  case (s_fg k i f)
  from assms(2) [unfolded s_fg(1)] have "answers env path (shell_does env path) (JFg i) w e p' os w'"
  proof cases
    case (wait_child xs ys)
    then show ?thesis using s_fg by (auto simp: list_one elim!: does_zombieE intro!: answer_step [OF jstep.fg_done] s_prompt)
  next
    case (child k2 k2' xs ys)
    then have k: "pstep env k w e k2' os w'" "p' = ShProc (Wait (Prompt path)) f [k2']" by (auto simp: list_one)
    from does_step [OF k(1) s_fg(3)] obtain i' js where i: "does env path k2' i'" "list_all2 (does env path) os js"
      "jstep env path i w e i' js w' \<or> e = None \<and> i' = i \<and> js = [] \<and> w' = w" unfolding answers_def by blast
    then show ?thesis unfolding answers_def k(2) using shell_does.s_fg [OF i(1) s_fg(4)] jstep.fg by blast
  qed
  then show ?thesis using s_fg(2) by simp
next
  case (s_prompt f)
  from assms(2) [unfolded s_prompt(1)] show ?thesis by cases auto
next
  case s_job
  from does_step [OF assms(2) this] show ?thesis unfolding answers_def using shell_does.s_job by blast
qed


text \<open>All processes and all jobs.\<close>

definition all_do :: "shenv \<Rightarrow> u8 list list \<Rightarrow> shproc list \<times> nat \<Rightarrow> job list \<times> nat \<Rightarrow> bool" where
  "all_do env path s t \<longleftrightarrow> list_all2 (shell_does env path) (fst s) (fst t) \<and> snd s = snd t"

interpretation sh_sim: simulation "sys_step env" "jobs_step env path" "all_do env path" for env path
proof
  fix s t e s'
  assume m: "all_do env path s t" and "sys_step env s e s'"
  from this(2) obtain p w p' os w' xs ys where s: "s = (xs @ p # ys, w)" "s' = (xs @ p' # ys @ os, w')" "pstep env p w e p' os w'"
    by cases
  from m obtain us j vs where t: "t = (us @ j # vs, w)" and l: "list_all2 (shell_does env path) xs us" "shell_does env path p j"
    "list_all2 (shell_does env path) ys vs"
    by (cases t) (auto simp: all_do_def s(1) list_all2_append1 list_all2_Cons1)
  from shell_step [OF l(2) s(3)] obtain j' js where j: "shell_does env path p' j'" "list_all2 (does env path) os js"
    "jstep env path j w e j' js w' \<or> e = None \<and> j' = j \<and> js = [] \<and> w' = w" unfolding answers_def by blast
  have "list_all2 (shell_does env path) os js" using j(2) by (rule list_all2_mono) (rule s_job)
  then have "all_do env path s' (us @ j' # vs @ js, w')" using l j(1) by (simp add: all_do_def s(2) list_all2_appendI)
  with j(3) show "\<exists>t'. all_do env path s' t' \<and> (jobs_step env path t e t' \<or> e = None \<and> t' = t)"
    using jobs_step.intros [of env path j w e j' js w' us vs] unfolding t by auto
qed

section \<open>Progress and the descriptors of waiting processes\<close>

text \<open>A process that waits has its standard descriptors and no others: no end of a pipe is kept from its reader.\<close>

primrec waits_std :: "shproc \<Rightarrow> bool" where
  "waits_std (ShProc p f ks) \<longleftrightarrow> ((\<exists>k. p = Wait k) \<longrightarrow> std_fds f) \<and> list_all id (map waits_std ks)"
| "waits_std Zombie \<longleftrightarrow> True"

definition stuck :: "shenv \<Rightarrow> shproc \<Rightarrow> bool" where
  "stuck env p \<longleftrightarrow> (\<forall>w e p' os w'. \<not> pstep env p w e p' os w')"

lemma stuck_child: "stuck env (ShProc p f (xs @ k # ys)) \<Longrightarrow> stuck env k"
  unfolding stuck_def using pstep.child by blast

lemma not_stuck [simp]:
  "\<not> stuck env (ShProc SysExit f ks)" "\<not> stuck env (ShProc (Print e k) f ks)" "\<not> stuck env (ShProc (Close d k) f ks)"
  "\<not> stuck env (ShProc (Dup d k) f ks)" "\<not> stuck env (ShProc (Open n m K) f ks)" "\<not> stuck env (ShProc (MkPipe L) f ks)"
  "\<not> stuck env (ShProc (Fork c p q) f ks)" "\<not> stuck env (ShProc (Exec n as k) f ks)" "\<not> stuck env (ShProc (Program n as) f ks)"
  "\<not> stuck env (ShProc (Wait k) f (xs @ Zombie # ys))"
  unfolding stuck_def
  by (blast intro: pstep.intros | cases "sh_open env n m f"; use pstep.open_ok pstep.open_fail in fastforce)+

lemma wait_progress:
  assumes "stuck env k \<longrightarrow> k = Zombie"
  shows "\<not> stuck env (ShProc (Wait p) f (k # ys))"
  using assms stuck_child [of env "Wait p" f "[]" k ys] not_stuck(10) [of env p f "[]" ys] by auto

lemma does_invariant: "does env path p j \<Longrightarrow> waits_std p \<and> (stuck env p \<longrightarrow> p = Zombie)"
proof (induction rule: does.induct)
  case (d_child x y c f q g)
  then show ?case by (cases q) (auto simp: wait_progress)
next
  case (d_say ks js e f)
  then show ?case by (auto simp: list_all2_conv_all_nth list_all_length)
next
  case (d_leave ks js f)
  then show ?case by (auto simp: list_all2_conv_all_nth list_all_length)
qed (auto simp: wait_progress)

lemma shell_invariant:
  assumes "shell_does env path p j"
  shows "waits_std p \<and> (p = Zombie \<longleftrightarrow> j = JDone) \<and> ((\<exists>f. p = ShProc (Prompt path) f []) \<longleftrightarrow> j = JPrompt)
    \<and> (stuck env p \<longrightarrow> j = JDone \<or> j = JPrompt)"
  using assms
proof cases
  case (s_fg k i f)
  then show ?thesis using does_invariant [OF s_fg(3)] by (auto simp: wait_progress)
next
  case s_job
  moreover have "j \<noteq> JPrompt" "p = Zombie \<longleftrightarrow> j = JDone" using s_job by (auto elim: does.cases)
  ultimately show ?thesis using does_invariant [OF s_job] does_dir(2) by auto
qed simp_all

section \<open>From a line to the programs it starts\<close>

lemma cmd_ok_std: "cmd_ok c \<Longrightarrow> redirs_std c"
  by (induction c) (auto simp: redir_ok_def)

lemma sh_line_cmd:
  assumes "cmd_ok c" "take 3 (unparse c) \<noteq> [99, 100, 32]"
  shows "sh_line path (unparse c) = Fork (runcmd path c) (Wait (Prompt path)) fork_fails"
  using parsecmd_reads [OF assms(1)] assms(2) by (auto simp: sh_line_def fork1_def)

text \<open>C30. From a line to the programs it starts. In a shell with its three standard descriptors open, take a line
  that writes out a command other than the built-in \<^verbatim>\<open>cd\<close>, and any interleaving of the shell and of all the
  processes it starts, in which \<^verbatim>\<open>fork\<close> and \<^verbatim>\<open>pipe\<close> may fail. What is seen of it, that is, which programs start with
  which arguments and descriptors, which end and which messages appear, is what the job of the command allows: a
  program gets its redirections and the ends of its pipes and no other descriptor, the second command of a list
  starts when the first has ended, and both sides of a pipe run. A process has ended exactly when its job is
  done, and the shell is back at its prompt exactly when its job is, for which the foreground job has to be done.
  A process that waits holds no end of a pipe, and no process is stuck before its job is done.\<close>

theorem sh_line_runs:
  assumes "cmd_ok c" "std_fds fds" "take 3 (unparse c) \<noteq> [99, 100, 32]"
    and "trace (sys_step env) ([ShProc (sh_line path (unparse c)) fds []], w) tr (ps, w')"
  shows "\<exists>js. trace (jobs_step env path) ([JLine c fds], w) tr (js, w') \<and> length js = length ps
    \<and> (\<forall>i<length ps. waits_std (ps ! i) \<and> (ps ! i = Zombie \<longleftrightarrow> js ! i = JDone)
        \<and> ((\<exists>f. ps ! i = ShProc (Prompt path) f []) \<longleftrightarrow> js ! i = JPrompt)
        \<and> (stuck env (ps ! i) \<longrightarrow> js ! i = JDone \<or> js ! i = JPrompt))"
proof -
  have "all_do env path ([ShProc (sh_line path (unparse c)) fds []], w) ([JLine c fds], w)"
    using s_line [OF assms(2) cmd_ok_std [OF assms(1)], of env path] by (simp add: all_do_def sh_line_cmd [OF assms(1,3)])
  from sh_sim.traces [OF assms(4) this] obtain js where
    "trace (jobs_step env path) ([JLine c fds], w) tr (js, w')" "length js = length ps" "\<forall>i<length ps. shell_does env path (ps ! i) (js ! i)"
    by (auto simp: all_do_def list_all2_conv_all_nth)
  then show ?thesis by (intro exI [of _ js] conjI [OF _ conjI] allI impI shell_invariant) simp_all
qed

text \<open>An example: the list of the commands \<^verbatim>\<open>a\<close> and \<^verbatim>\<open>b\<close>, up to the start of the second.\<close>

definition sh_ex_env :: shenv where
  "sh_ex_env = \<lparr>can_open = \<lambda>_ _. True, can_exec = \<lambda>_. True, can_chdir = \<lambda>_. True\<rparr>"

definition sh_ex_fds :: fds where
  "sh_ex_fds = (\<lambda>i. if i < 3 then Some (Tty i) else None)"

abbreviation sh_ex_cmd :: "u8 list cmd" where
  "sh_ex_cmd \<equiv> LIST (EXEC [[97]]) (EXEC [[98]])"

lemma sh_ex_ok: "cmd_ok sh_ex_cmd" "std_fds sh_ex_fds" "take 3 (unparse sh_ex_cmd) \<noteq> [99, 100, 32]"
  by (simp_all add: MAXARGS_def word_char_def found_simps std_fds_def sh_ex_fds_def unparse_def paren_def)

lemma trace_one:
  "trace (sys_step env) s tr ([p], w) \<Longrightarrow> pstep env p w e p' [] w' \<Longrightarrow> trace (sys_step env) s (tr @ shown e) ([p'], w')"
  using sys_step.intros [of env p w e p' "[]" w' "[]" "[]"] by (auto intro: trace.more)

lemma only_child: "pstep env k w e k' os w' \<Longrightarrow> pstep env (ShProc p f [k]) w e (ShProc p f [k']) os w'"
  using pstep.child [of env k w e k' os w' p f "[]" "[]"] by simp

lemma fork_first: "pstep env (ShProc (Fork c p q) f []) w None (ShProc p f [ShProc c f []]) [] w"
  using pstep.fork_ok [of env c p q f "[]"] by simp

lemma wait_only: "pstep env (ShProc (Wait k) f [Zombie]) w None (ShProc k f []) [] w"
  using pstep.wait_child [of env k f "[]" "[]"] by simp

lemma sh_ex_trace:
  defines "A \<equiv> \<lambda>k. ShProc (Wait (Prompt [[47]])) sh_ex_fds [k]"
  shows "trace (sys_step sh_ex_env) ([ShProc (sh_line [[47]] (unparse sh_ex_cmd)) sh_ex_fds []], 0)
    [Run [47, 97] [[97]] sh_ex_fds, Ended [47, 97] [[97]], Run [47, 98] [[98]] sh_ex_fds]
    ([A (ShProc (Program [47, 98] [[98]]) sh_ex_fds [])], 0)"
proof -
  let ?tr = "trace (sys_step sh_ex_env) ([ShProc (sh_line [[47]] (unparse sh_ex_cmd)) sh_ex_fds []], 0)"
  let ?a = "Run [47, 97] [[97]] sh_ex_fds" and ?x = "Exec [47, 97] [[97]] (Print (ExecFailed [97]) SysExit)"
    and ?y = "Exec [47, 98] [[98]] (Print (ExecFailed [98]) SysExit)"
  let ?B = "\<lambda>k. A (ShProc (Wait ?y) sh_ex_fds [k])"
  have can: "can_exec sh_ex_env n" for n by (simp add: sh_ex_env_def)
  have l: "sh_line [[47]] (unparse sh_ex_cmd) = Fork (Fork ?x (Wait ?y) fork_fails) (Wait (Prompt [[47]])) fork_fails"
    using sh_line_cmd [OF sh_ex_ok(1,3)] by (simp add: fork1_def)
  have 1: "?tr [] ([A (ShProc (Fork ?x (Wait ?y) fork_fails) sh_ex_fds [])], 0)"
    using trace_one [OF trace.none fork_first] unfolding l A_def by (simp add: shown_def)
  have 2: "?tr [] ([?B (ShProc ?x sh_ex_fds [])], 0)"
    using trace_one [OF 1 [unfolded A_def] only_child [OF fork_first]] by (simp add: shown_def A_def)
  have 3: "?tr [?a] ([?B (ShProc (Program [47, 97] [[97]]) sh_ex_fds [])], 0)"
    using trace_one [OF 2 [unfolded A_def] only_child [OF only_child [OF pstep.exec_ok [OF can]]]] by (simp add: shown_def A_def)
  have 4: "?tr [?a, Ended [47, 97] [[97]]] ([?B Zombie], 0)"
    using trace_one [OF 3 [unfolded A_def] only_child [OF only_child [OF pstep.ended]]] by (simp add: shown_def A_def)
  have 5: "?tr [?a, Ended [47, 97] [[97]]] ([A (ShProc ?y sh_ex_fds [])], 0)"
    using trace_one [OF 4 [unfolded A_def] only_child [OF wait_only]] by (simp add: shown_def A_def)
  show ?thesis
    using trace_one [OF 5 [unfolded A_def] only_child [OF pstep.exec_ok [OF can]]] by (simp add: shown_def A_def)
qed

lemma sh_line_runs_witness:
  "\<exists>js. trace (jobs_step sh_ex_env [[47]]) ([JLine sh_ex_cmd sh_ex_fds], 0)
    [Run [47, 97] [[97]] sh_ex_fds, Ended [47, 97] [[97]], Run [47, 98] [[98]] sh_ex_fds] (js, 0)"
  using sh_line_runs [OF sh_ex_ok sh_ex_trace] by blast

end
