(* ===== verification/Umalloc.thy ===== *)
theory Umalloc
  imports Machine
begin

text \<open>
  The storage allocator of user programs (\<^verbatim>\<open>umalloc.c\<close>). The headers of the blocks are two maps from
  addresses, \<open>hptr\<close> and \<open>hsize\<close>; pointer arithmetic on headers goes in steps of 8 bytes, modulo \<open>2 ^ 32\<close>.
  \<open>base\<close> is the address of the static header, \<open>lim\<close> the size up to which \<^verbatim>\<open>sbrk\<close> lets the process
  grow (\<^verbatim>\<open>USERTOP\<close>, or less when memory is short). The two loops over the free list are partial functions; \<open>None\<close> would be a loop without end.

  Shown: the free list stays a circular list in the order of addresses whose blocks neither overlap nor touch;
  \<^verbatim>\<open>free\<close> adds exactly the bytes of its block to the free ones; \<^verbatim>\<open>malloc\<close> returns, and hands out bytes that
  were free or are new.
\<close>

section \<open>The allocator\<close>

record uheap =
  hptr :: "u32 \<Rightarrow> u32"
  hsize :: "u32 \<Rightarrow> u32"
  freep :: u32
  hbrk :: u32

partial_function (option) free_search :: "uheap \<Rightarrow> u32 \<Rightarrow> u32 \<Rightarrow> u32 option" where
  "free_search h bp p =
    (if p < bp \<and> bp < hptr h p then Some p
     else if hptr h p \<le> p \<and> (p < bp \<or> bp < hptr h p) then Some p
     else free_search h bp (hptr h p))"

definition link_upper :: "u32 \<Rightarrow> u32 \<Rightarrow> uheap \<Rightarrow> uheap" where
  "link_upper bp p h =
    (let nx = hptr h p in
     if bp + 8 * hsize h bp = nx
     then h\<lparr>hsize := (hsize h)(bp := hsize h bp + hsize h nx), hptr := (hptr h)(bp := hptr h nx)\<rparr>
     else h\<lparr>hptr := (hptr h)(bp := nx)\<rparr>)"

definition link_lower :: "u32 \<Rightarrow> u32 \<Rightarrow> uheap \<Rightarrow> uheap" where
  "link_lower bp p h =
    (if p + 8 * hsize h p = bp
     then h\<lparr>hsize := (hsize h)(p := hsize h p + hsize h bp), hptr := (hptr h)(p := hptr h bp)\<rparr>
     else h\<lparr>hptr := (hptr h)(p := bp)\<rparr>)"

definition ufree :: "u32 \<Rightarrow> uheap \<Rightarrow> uheap option" where
  "ufree ap h =
    (let bp = ap - 8 in
     Option.bind (free_search h bp (freep h)) (\<lambda>p.
     Some ((link_lower bp p (link_upper bp p h))\<lparr>freep := p\<rparr>)))"

text \<open>\<^verbatim>\<open>sys_sbrk\<close> and \<^verbatim>\<open>growproc\<close> of the kernel, without the pages: the number of bytes is signed, the sums wrap.\<close>

definition usbrk :: "nat \<Rightarrow> u32 \<Rightarrow> uheap \<Rightarrow> u32 \<times> uheap" where
  "usbrk lim n h =
    (let new = hbrk h + n in
     if 0 < sint n then
       if lim < unat new then (0xffffffff, h) else (hbrk h, h\<lparr>hbrk := if hbrk h < new then new else hbrk h\<rparr>)
     else if sint n < 0 then
       let r = (if new < hbrk h then new else hbrk h) in
       if r = 0 then (0xffffffff, h) else (hbrk h, h\<lparr>hbrk := r\<rparr>)
     else (hbrk h, h))"

definition morecore :: "nat \<Rightarrow> u32 \<Rightarrow> uheap \<Rightarrow> (u32 \<times> uheap) option" where
  "morecore lim nu h =
    (let nu = (if nu < 4096 then 4096 else nu); (p, h) = usbrk lim (nu * 8) h in
     if p = 0xffffffff then Some (0, h)
     else Option.bind (ufree (p + 8) (h\<lparr>hsize := (hsize h)(p := nu)\<rparr>)) (\<lambda>h. Some (freep h, h)))"

definition malloc_take :: "u32 \<Rightarrow> u32 \<Rightarrow> u32 \<Rightarrow> uheap \<Rightarrow> u32 \<times> uheap" where
  "malloc_take nunits prevp p h =
    (if hsize h p = nunits
     then (p + 8, h\<lparr>hptr := (hptr h)(prevp := hptr h p), freep := prevp\<rparr>)
     else let left = hsize h p - nunits; q = p + 8 * left in
       (q + 8, h\<lparr>hsize := (hsize h)(p := left, q := nunits), freep := prevp\<rparr>))"

partial_function (option) malloc_loop :: "nat \<Rightarrow> u32 \<Rightarrow> u32 \<Rightarrow> u32 \<Rightarrow> uheap \<Rightarrow> (u32 \<times> uheap) option" where
  "malloc_loop lim nunits prevp p h =
    (if nunits \<le> hsize h p then Some (malloc_take nunits prevp p h)
     else if p = freep h then
       Option.bind (morecore lim nunits h) (\<lambda>(p, h).
       if p = 0 then Some (0, h) else malloc_loop lim nunits p (hptr h p) h)
     else malloc_loop lim nunits p (hptr h p) h)"

definition umalloc :: "nat \<Rightarrow> u32 \<Rightarrow> u32 \<Rightarrow> uheap \<Rightarrow> (u32 \<times> uheap) option" where
  "umalloc lim base nbytes h =
    (let nunits = (nbytes + 8 - 1) div 8 + 1;
         h = (if freep h = 0 then h\<lparr>hptr := (hptr h)(base := base), hsize := (hsize h)(base := 0), freep := base\<rparr> else h)
     in malloc_loop lim nunits (freep h) (hptr h (freep h)) h)"

section \<open>The free list\<close>

text \<open>\<open>useg f as z\<close>: the pointers lead from each address of \<open>as\<close> to the next one and from the last to \<open>z\<close>.\<close>

primrec useg :: "(u32 \<Rightarrow> u32) \<Rightarrow> u32 list \<Rightarrow> u32 \<Rightarrow> bool" where
  "useg f [] z \<longleftrightarrow> True"
| "useg f (a # as) z \<longleftrightarrow> f a = hd (as @ [z]) \<and> useg f as z"

abbreviation ubytes_of :: "uheap \<Rightarrow> u32 \<Rightarrow> nat set" where
  "ubytes_of h a \<equiv> {unat a..<unat a + 8 * unat (hsize h a)}"

definition ufree_bytes :: "uheap \<Rightarrow> u32 list \<Rightarrow> nat set" where
  "ufree_bytes h ps = (\<Union>a\<in>set ps. ubytes_of h a)"

definition uapart :: "uheap \<Rightarrow> u32 \<Rightarrow> u32 \<Rightarrow> bool" where
  "uapart h a b \<longleftrightarrow> unat a + 8 * unat (hsize h a) < unat b"

definition uinv :: "u32 \<Rightarrow> uheap \<Rightarrow> u32 list \<Rightarrow> bool" where
  "uinv base h ps \<longleftrightarrow> ps \<noteq> [] \<and> hd ps = base \<and> base \<noteq> 0 \<and> hsize h base = 0 \<and> freep h \<in> set ps
     \<and> useg (hptr h) ps base \<and> sorted_wrt (uapart h) ps
     \<and> (\<forall>a\<in>set (tl ps). 0 < hsize h a) \<and> (\<forall>a\<in>set ps. unat a + 8 * unat (hsize h a) \<le> unat (hbrk h))"

lemma useg_append: "useg f (xs @ ys) z \<longleftrightarrow> useg f xs (hd (ys @ [z])) \<and> useg f ys z"
proof (induction xs)
  case (Cons a xs)
  then show ?case by (cases xs) auto
qed simp

lemma useg_upd [simp]: "c \<notin> set as \<Longrightarrow> useg (f(c := v)) as z = useg f as z"
  by (induction as) auto

lemma uapart_less: "uapart h a b \<Longrightarrow> a < b"
  by (simp add: uapart_def word_less_nat_alt)

lemma sorted_uapart_less: "sorted_wrt (uapart h) ps \<Longrightarrow> sorted_wrt (<) ps"
  by (rule sorted_wrt_mono_rel) (auto intro: uapart_less)

lemma sorted_less_distinct: "sorted_wrt (<) (ps :: u32 list) \<Longrightarrow> distinct ps"
  by (induction ps) auto

lemmas uinv_distinct = sorted_less_distinct [OF sorted_uapart_less]

section \<open>Free\<close>

lemma search_stop:
  assumes "useg (hptr h) (p # ys) base" "p < bp" "\<forall>y\<in>set ys. bp < y" "base \<le> p"
  shows "free_search h bp p = Some p"
  using assms by (subst free_search.simps) (cases ys; auto)

lemma search_low:
  assumes "useg (hptr h) (vs @ p # ys) base" "sorted_wrt (<) (vs @ p # ys)" "\<forall>a\<in>set vs. a < bp" "p < bp"
    "\<forall>y\<in>set ys. bp < y" "base \<le> p"
  shows "free_search h bp (hd (vs @ [p])) = Some p"
  using assms
proof (induction vs)
  case Nil
  then show ?case using search_stop [of h p ys base bp] by simp
next
  case (Cons v vs)
  have nx: "hptr h v = hd (vs @ [p])" using Cons.prems(1) by (cases vs) auto
  have "v < hptr h v" "hptr h v < bp" unfolding nx using Cons.prems by (cases vs; auto)+
  then have "free_search h bp v = free_search h bp (hptr h v)"
    by (subst free_search.simps) auto
  then show ?case using Cons by (simp add: nx)
qed

lemma search_high:
  assumes "useg (hptr h) ys base" "sorted_wrt (<) ys" "\<forall>y\<in>set ys. bp < y" "base < bp" "ys \<noteq> []"
  shows "free_search h bp (hd ys) = free_search h bp base"
  using assms
proof (induction ys)
  case (Cons y ys)
  have nx: "hptr h y = hd (ys @ [base])" using Cons.prems(1) by simp
  have y: "bp < y" "base < bp" using Cons.prems by auto
  have "\<not> (hptr h y \<le> y \<and> bp < hptr h y)"
    unfolding nx using Cons.prems(2) y by (cases ys) auto
  then have "free_search h bp y = free_search h bp (hptr h y)"
    using y by (subst free_search.simps) auto
  then show ?case using Cons by (cases ys) (auto simp: nx)
qed simp

lemma search_finds:
  assumes "useg (hptr h) ps base" "sorted_wrt (<) ps" "hd ps = base" "q \<in> set ps" "ps = xs @ p # ys"
    "\<forall>a\<in>set xs. a < bp" "p < bp" "\<forall>y\<in>set ys. bp < y"
  shows "free_search h bp q = Some p"
proof -
  have b: "base \<le> p" "base < bp" using assms(2,3,5-7) by (cases xs; auto)+
  have low: "free_search h bp (hd (vs @ [p])) = Some p" if "xs = us @ vs" for us vs
    by (rule search_low [of h vs p ys base]) (use assms that b in \<open>auto simp: useg_append sorted_wrt_append\<close>)
  have bs: "free_search h bp base = Some p"
    using low [of "[]" xs] assms(3,5) by (cases xs) auto
  consider us vs where "xs = us @ q # vs" | "q = p" | us vs where "ys = us @ q # vs"
    using assms(4,5) by (auto dest: split_list)
  then show ?thesis
  proof cases
    case 1
    then show ?thesis using low [of us "q # vs"] by simp
  next
    case 2
    then show ?thesis using low [of xs "[]"] by simp
  next
    case 3
    then have "free_search h bp (hd (q # vs)) = free_search h bp base"
      by (intro search_high) (use assms b in \<open>auto simp: useg_append sorted_wrt_append\<close>)
    then show ?thesis using bs by simp
  qed
qed

text \<open>The place of an address in a sorted list.\<close>

lemma sorted_place:
  assumes "sorted_wrt (<) (ps :: u32 list)" "ps \<noteq> []" "hd ps < bp" "bp \<notin> set ps"
  shows "\<exists>xs p ys. ps = xs @ p # ys \<and> (\<forall>a\<in>set xs. a < bp) \<and> p < bp \<and> (\<forall>y\<in>set ys. bp < y)"
  using assms
proof (induction ps)
  case (Cons a ps)
  show ?case
  proof (cases "ps \<noteq> [] \<and> hd ps < bp")
    case True
    then obtain xs p ys where "ps = xs @ p # ys" "\<forall>a\<in>set xs. a < bp" "p < bp" "\<forall>y\<in>set ys. bp < y"
      using Cons by auto
    with Cons.prems(3) show ?thesis by (intro exI [of _ "a # xs"] exI [of _ p] exI [of _ ys]) simp
  next
    case False
    have "\<forall>y\<in>set ps. bp < y"
    proof (cases ps)
      case q: (Cons b qs)
      have "bp \<noteq> b" "\<not> b < bp" using False Cons.prems(4) q by auto
      then have "bp < b" by simp
      then show ?thesis using q Cons.prems(1) by (auto intro: less_trans)
    qed simp
    with Cons.prems(3) show ?thesis by (intro exI [of _ "[]"] exI [of _ a] exI [of _ ps]) simp
  qed
qed simp

text \<open>A block that can be given back: it lies above the static header and below the break, and none of its bytes
  is free.\<close>

definition ublock :: "u32 \<Rightarrow> uheap \<Rightarrow> u32 list \<Rightarrow> u32 \<Rightarrow> bool" where
  "ublock base h ps bp \<longleftrightarrow> base < bp \<and> 0 < hsize h bp \<and> unat bp + 8 * unat (hsize h bp) \<le> unat (hbrk h)
     \<and> ubytes_of h bp \<inter> ufree_bytes h ps = {}"

lemma unat_unit_step:
  fixes a :: u32
  assumes "unat a + 8 * unat n \<le> unat (b :: u32)"
  shows "unat (a + 8 * n) = unat a + 8 * unat n"
proof -
  have "unat a + 8 * unat n < 2 ^ 32" using assms unat_lt32 [of b] by linarith
  moreover from this have "unat (8 * n) = 8 * unat n" using unat_mult_lem [of 8 n] by simp
  ultimately show ?thesis by (simp add: unat_add_lt)
qed

lemma uinv_parts:
  assumes "uinv base h (xs @ p # ys)" "ublock base h (xs @ p # ys) bp" "\<forall>a\<in>set xs. a < bp" "p < bp" "\<forall>y\<in>set ys. bp < y"
  shows "bp \<notin> set (xs @ p # ys)" "unat p + 8 * unat (hsize h p) \<le> unat bp"
    "\<forall>y\<in>set ys. unat bp + 8 * unat (hsize h bp) \<le> unat y" "\<forall>y\<in>set ys. 0 < hsize h y"
    "base \<le> p" "base \<notin> set ys" "xs \<noteq> [] \<Longrightarrow> base \<in> set xs"
proof -
  let ?B = "ubytes_of h bp"
  have bpB: "unat bp \<in> ?B" using assms(2) by (simp add: ublock_def word_less_nat_alt)
  have disj: "ubytes_of h a \<inter> ?B = {}" if "a \<in> set (xs @ p # ys)" for a
  proof -
    have "?B \<inter> (\<Union>a\<in>set (xs @ p # ys). ubytes_of h a) = {}"
      using assms(2) unfolding ublock_def ufree_bytes_def by blast
    then show ?thesis using that by blast
  qed
  show "bp \<notin> set (xs @ p # ys)" using assms(3-5) by auto
  have "unat bp \<notin> ubytes_of h p" using disj [of p] bpB by auto
  moreover have "unat p < unat bp" using assms(4) by (simp add: word_less_nat_alt)
  ultimately show "unat p + 8 * unat (hsize h p) \<le> unat bp" by auto
  have tl: "set ys \<subseteq> set (tl (xs @ p # ys))" by (cases xs) auto
  show pos: "\<forall>y\<in>set ys. 0 < hsize h y" using assms(1) tl by (auto simp: uinv_def)
  show "\<forall>y\<in>set ys. unat bp + 8 * unat (hsize h bp) \<le> unat y"
  proof
    fix y assume y: "y \<in> set ys"
    have "unat y \<in> ubytes_of h y" using pos y by (simp add: word_less_nat_alt)
    then have "unat y \<notin> ?B" using disj [of y] y by auto
    moreover have "unat bp < unat y" using assms(5) y by (simp add: word_less_nat_alt)
    ultimately show "unat bp + 8 * unat (hsize h bp) \<le> unat y" by auto
  qed
  have hd: "hd (xs @ p # ys) = base" and so: "sorted_wrt (<) (xs @ p # ys)"
    using assms(1) sorted_uapart_less by (auto simp: uinv_def)
  show "base \<le> p" using hd so by (cases xs) auto
  show "base \<notin> set ys" using hd so by (cases xs) (auto dest: less_imp_neq)
  show "xs \<noteq> [] \<Longrightarrow> base \<in> set xs" using hd by (cases xs) auto
qed

lemma link_upper_spec:
  assumes "uinv base h (xs @ p # ys)" "ublock base h (xs @ p # ys) bp" "\<forall>a\<in>set xs. a < bp" "p < bp" "\<forall>y\<in>set ys. bp < y"
  obtains n ys' where "link_upper bp p h = h\<lparr>hsize := (hsize h)(bp := n), hptr := (hptr h)(bp := hd (ys' @ [base]))\<rparr>"
    "hsize h bp \<le> n" "unat bp + 8 * unat n \<le> unat (hbrk h)" "\<forall>y\<in>set ys'. unat bp + 8 * unat n < unat y"
    "useg (hptr h) ys' base" "sorted_wrt (uapart h) ys'" "set ys' \<subseteq> set ys"
    "{unat bp..<unat bp + 8 * unat n} \<union> ufree_bytes h ys' = ubytes_of h bp \<union> ufree_bytes h ys"
proof -
  note pt = uinv_parts [OF assms]
  have inv: "useg (hptr h) (p # ys) base" "sorted_wrt (uapart h) ys"
    "\<forall>y\<in>set ys. unat y + 8 * unat (hsize h y) \<le> unat (hbrk h)"
    using assms(1) by (auto simp: uinv_def useg_append sorted_wrt_append)
  have bpn: "unat bp + 8 * unat (hsize h bp) \<le> unat (hbrk h)" using assms(2) by (simp add: ublock_def)
  have cond: "bp + 8 * hsize h bp = x \<longleftrightarrow> unat bp + 8 * unat (hsize h bp) = unat x" for x
    using unat_unit_step [OF bpn] by (simp add: word_unat_eq_iff)
  show thesis
  proof (cases "\<exists>y zs. ys = y # zs \<and> unat bp + 8 * unat (hsize h bp) = unat y")
    case True
    then obtain y zs where y: "ys = y # zs" "unat bp + 8 * unat (hsize h bp) = unat y" by blast
    let ?n = "hsize h bp + hsize h y"
    have y': "unat y + 8 * unat (hsize h y) \<le> unat (hbrk h)" using inv(3) y(1) by simp
    then have "unat (hsize h bp) + unat (hsize h y) < 2 ^ 32" using y(2) unat_lt32 [of "hbrk h"] by linarith
    then have n: "unat ?n = unat (hsize h bp) + unat (hsize h y)" by (simp add: unat_add_lt)
    show thesis
    proof (rule that [where n = ?n and ys' = zs])
      show "link_upper bp p h = h\<lparr>hsize := (hsize h)(bp := ?n), hptr := (hptr h)(bp := hd (zs @ [base]))\<rparr>"
        using inv(1) y cond by (simp add: link_upper_def Let_def)
      show "hsize h bp \<le> ?n" using n by (simp add: word_le_nat_alt)
      show "unat bp + 8 * unat ?n \<le> unat (hbrk h)" using n y(2) y' by simp
      show "\<forall>z\<in>set zs. unat bp + 8 * unat ?n < unat z"
        using inv(2) n y by (auto simp: uapart_def)
      show "{unat bp..<unat bp + 8 * unat ?n} \<union> ufree_bytes h zs = ubytes_of h bp \<union> ufree_bytes h ys"
        using n y by (auto simp: ufree_bytes_def)
    qed (use inv y in auto)
  next
    case False
    have nx: "hptr h p = hd (ys @ [base])" using inv(1) by simp
    have ne: "bp + 8 * hsize h bp \<noteq> hd (ys @ [base])"
    proof (cases ys)
      case Nil
      have "unat base < unat bp" using assms(2) by (simp add: ublock_def word_less_nat_alt)
      then show ?thesis using Nil cond [of base] by simp
    qed (use False cond in auto)
    show thesis
    proof (rule that [where n = "hsize h bp" and ys' = ys])
      show "link_upper bp p h = h\<lparr>hsize := (hsize h)(bp := hsize h bp), hptr := (hptr h)(bp := hd (ys @ [base]))\<rparr>"
        using ne nx by (simp add: link_upper_def Let_def)
      show "\<forall>y\<in>set ys. unat bp + 8 * unat (hsize h bp) < unat y"
      proof
        fix y assume y: "y \<in> set ys"
        then obtain a as where ys: "ys = a # as" by (cases ys) auto
        have "unat bp + 8 * unat (hsize h bp) < unat a" using pt(3) False ys by (auto simp: le_less)
        moreover have "unat a \<le> unat y" using inv(2) y ys by (auto simp: uapart_def)
        ultimately show "unat bp + 8 * unat (hsize h bp) < unat y" by simp
      qed
    qed (use inv bpn in auto)
  qed
qed

lemma sorted_uapart_cong:
  "(\<And>a. a \<in> set ps \<Longrightarrow> hsize h' a = hsize h a) \<Longrightarrow> sorted_wrt (uapart h') ps = sorted_wrt (uapart h) ps"
  by (induction ps) (auto simp: uapart_def)

lemma ufree_bytes_cong:
  "(\<And>a. a \<in> set ps \<Longrightarrow> hsize h' a = hsize h a) \<Longrightarrow> ufree_bytes h' ps = ufree_bytes h ps"
  by (simp add: ufree_bytes_def)

lemma ufree_bytes_append [simp]: "ufree_bytes h (xs @ ys) = ufree_bytes h xs \<union> ufree_bytes h ys"
  "ufree_bytes h (x # ys) = ubytes_of h x \<union> ufree_bytes h ys"
  by (auto simp: ufree_bytes_def)

text \<open>What \<^verbatim>\<open>free\<close> makes of the free list.\<close>

definition ufreed :: "u32 \<Rightarrow> uheap \<Rightarrow> u32 list \<Rightarrow> u32 \<Rightarrow> uheap \<Rightarrow> u32 list \<Rightarrow> bool" where
  "ufreed base h ps bp h' ps' \<longleftrightarrow> uinv base h' ps' \<and> ufree_bytes h' ps' = ufree_bytes h ps \<union> ubytes_of h bp
     \<and> hbrk h' = hbrk h \<and> (\<forall>a. a \<notin> set ps \<longrightarrow> a \<noteq> bp \<longrightarrow> hsize h' a = hsize h a)
     \<and> (\<exists>a\<in>set ps'. hsize h bp \<le> hsize h' a)"

text \<open>Putting a list together again around its middle part \<open>zs\<close>.\<close>

lemma uinvI:
  assumes "hd (xs @ zs) = base" "zs \<noteq> []" "base \<noteq> 0" "hsize h base = 0" "freep h \<in> set (xs @ zs)"
    and "useg (hptr h) xs (hd zs)" "useg (hptr h) zs base"
    and "sorted_wrt (uapart h) xs" "sorted_wrt (uapart h) zs" "\<And>a. a \<in> set xs \<Longrightarrow> uapart h a (hd zs)"
    and "\<And>a. a \<in> set (xs @ zs) \<Longrightarrow> a \<noteq> base \<Longrightarrow> 0 < hsize h a"
    and "\<And>a. a \<in> set (xs @ zs) \<Longrightarrow> unat a + 8 * unat (hsize h a) \<le> unat (hbrk h)"
  shows "uinv base h (xs @ zs)"
proof -
  obtain z ws where z: "zs = z # ws" using assms(2) by (cases zs) auto
  have "uapart h a b" if "a \<in> set xs" "b \<in> set zs" for a b
    using assms(9,10) that z by (auto simp: uapart_def) (meson le_less_trans less_imp_le order.strict_trans1 le_add1 order.strict_trans)
  then have so: "sorted_wrt (uapart h) (xs @ zs)" using assms(8,9) by (auto simp: sorted_wrt_append)
  have "a \<noteq> base" if "a \<in> set (tl (xs @ zs))" for a
  proof -
    have "distinct (base # tl (xs @ zs))" using uinv_distinct [OF so] assms(1,2) by (cases "xs @ zs") auto
    then show ?thesis using that by auto
  qed
  moreover have "set (tl (xs @ zs)) \<subseteq> set (xs @ zs)" by (cases "xs @ zs") auto
  ultimately have "\<forall>a\<in>set (tl (xs @ zs)). 0 < hsize h a" using assms(11) by blast
  with so show ?thesis using assms(1-7,12) by (auto simp: uinv_def useg_append)
qed

text \<open>The state between the two links: the block \<open>bp\<close>, now of \<open>n\<close> units, is linked to \<open>ys\<close> and comes after
  \<open>p\<close>, which does not point to it yet.\<close>

definition ulinked :: "u32 \<Rightarrow> uheap \<Rightarrow> u32 list \<Rightarrow> u32 \<Rightarrow> u32 \<Rightarrow> u32 \<Rightarrow> u32 list \<Rightarrow> bool" where
  "ulinked base h xs p bp n ys \<longleftrightarrow>
     useg (hptr h) xs p \<and> useg (hptr h) ys base \<and> sorted_wrt (uapart h) xs \<and> sorted_wrt (uapart h) ys
     \<and> (\<forall>a\<in>set xs. uapart h a p) \<and> (\<forall>y\<in>set ys. unat bp + 8 * unat n < unat y)
     \<and> unat p + 8 * unat (hsize h p) \<le> unat bp \<and> unat bp + 8 * unat n \<le> unat (hbrk h)
     \<and> hd (xs @ [p]) = base \<and> base \<noteq> 0 \<and> hsize h base = 0 \<and> base < bp \<and> 0 < n \<and> distinct (bp # xs @ p # ys)
     \<and> (\<forall>a\<in>set (xs @ p # ys). a \<noteq> base \<longrightarrow> 0 < hsize h a)
     \<and> (\<forall>a\<in>set (xs @ p # ys). unat a + 8 * unat (hsize h a) \<le> unat (hbrk h))"

lemma ulinked_cong:
  assumes "ulinked base h xs p bp n ys" "\<And>a. a \<noteq> p \<Longrightarrow> a \<noteq> bp \<Longrightarrow> hsize h' a = hsize h a"
  shows "sorted_wrt (uapart h') xs" "sorted_wrt (uapart h') ys" "a \<in> set xs \<Longrightarrow> uapart h' a p"
    "ufree_bytes h' xs = ufree_bytes h xs" "ufree_bytes h' ys = ufree_bytes h ys"
proof -
  have x: "hsize h' a = hsize h a" if "a \<in> set xs" for a
    using that assms(1) by (intro assms(2)) (auto simp: ulinked_def)
  have y: "hsize h' a = hsize h a" if "a \<in> set ys" for a
    using that assms(1) by (intro assms(2)) (auto simp: ulinked_def)
  show "sorted_wrt (uapart h') xs" "sorted_wrt (uapart h') ys"
    using assms(1) sorted_uapart_cong [OF x] sorted_uapart_cong [OF y] by (simp_all add: ulinked_def)
  show "ufree_bytes h' xs = ufree_bytes h xs" "ufree_bytes h' ys = ufree_bytes h ys"
    using ufree_bytes_cong [OF x] ufree_bytes_cong [OF y] by simp_all
  show "uapart h' a p" if "a \<in> set xs" using assms(1) x [OF that] that by (simp add: ulinked_def uapart_def)
qed

lemma merge_lower:
  assumes l: "ulinked base h xs p bp n ys" and eq: "unat p + 8 * unat (hsize h p) = unat bp"
    and f: "hsize h' = (hsize h)(bp := n, p := hsize h p + n)" "freep h' = p" "hbrk h' = hbrk h"
      "hptr h' = (hptr h)(bp := hd (ys @ [base]), p := hd (ys @ [base]))"
  shows "uinv base h' (xs @ p # ys)" "n \<le> hsize h' p"
    "ufree_bytes h' (xs @ p # ys) = ufree_bytes h (xs @ p # ys) \<union> {unat bp..<unat bp + 8 * unat n}"
proof -
  note i = l [unfolded ulinked_def] and c = ulinked_cong [OF l, of h']
  let ?m = "hsize h p + n"
  have "unat (hsize h p) + unat n < 2 ^ 32" using eq i unat_lt32 [of "hbrk h"] by linarith
  then have m: "unat ?m = unat (hsize h p) + unat n" by (simp add: unat_add_lt)
  have "unat base < unat bp" using i by (simp add: word_less_nat_alt)
  then have pb: "p \<noteq> base" using eq i by auto
  show "uinv base h' (xs @ p # ys)"
  proof (rule uinvI)
    show "hd (xs @ p # ys) = base" "hsize h' base = 0" using i pb by (cases xs; auto simp: f)+
    show "useg (hptr h') xs (hd (p # ys))" "useg (hptr h') (p # ys) base" using i by (auto simp: f)
    show "uapart h' a (hd (p # ys))" if "a \<in> set xs" for a using c that by (simp add: f)
    show "sorted_wrt (uapart h') xs" using c by (simp add: f)
    have "sorted_wrt (uapart h') ys" using c by (simp add: f)
    then show "sorted_wrt (uapart h') (p # ys)" using i m eq by (auto simp: uapart_def f)
    show "0 < hsize h' a" if "a \<in> set (xs @ p # ys)" "a \<noteq> base" for a
      using i m that by (auto simp: f word_less_nat_alt)
    show "unat a + 8 * unat (hsize h' a) \<le> unat (hbrk h')" if "a \<in> set (xs @ p # ys)" for a
      using i m eq that by (auto simp: f)
  qed (use i f in auto)
  show "n \<le> hsize h' p" using m by (simp add: f word_le_nat_alt)
  have "ubytes_of h' p = ubytes_of h p \<union> {unat bp..<unat bp + 8 * unat n}" using eq m i by (auto simp: f)
  moreover have "ufree_bytes h' xs = ufree_bytes h xs" "ufree_bytes h' ys = ufree_bytes h ys" using c by (simp_all add: f)
  ultimately show "ufree_bytes h' (xs @ p # ys) = ufree_bytes h (xs @ p # ys) \<union> {unat bp..<unat bp + 8 * unat n}"
    by (simp only: ufree_bytes_append) blast
qed

lemma insert_lower:
  assumes l: "ulinked base h xs p bp n ys" and ne: "unat p + 8 * unat (hsize h p) \<noteq> unat bp"
    and f: "hsize h' = (hsize h)(bp := n)" "freep h' = p" "hbrk h' = hbrk h"
      "hptr h' = (hptr h)(bp := hd (ys @ [base]), p := bp)"
  shows "uinv base h' (xs @ p # bp # ys)"
    "ufree_bytes h' (xs @ p # bp # ys) = ufree_bytes h (xs @ p # ys) \<union> {unat bp..<unat bp + 8 * unat n}"
proof -
  note i = l [unfolded ulinked_def] and c = ulinked_cong [OF l, of h']
  show "uinv base h' (xs @ p # bp # ys)"
  proof (rule uinvI)
    show "hd (xs @ p # bp # ys) = base" "hsize h' base = 0" using i by (cases xs; auto simp: f)+
    show "useg (hptr h') xs (hd (p # bp # ys))" "useg (hptr h') (p # bp # ys) base" using i by (auto simp: f)
    show "uapart h' a (hd (p # bp # ys))" if "a \<in> set xs" for a using c that by (simp add: f)
    show "sorted_wrt (uapart h') xs" using c by (simp add: f)
    have "sorted_wrt (uapart h') ys" using c by (simp add: f)
    moreover have "unat p + 8 * unat (hsize h p) < unat bp" using i ne by simp
    ultimately show "sorted_wrt (uapart h') (p # bp # ys)" using i by (auto simp: uapart_def f)
    show "0 < hsize h' a" if "a \<in> set (xs @ p # bp # ys)" "a \<noteq> base" for a
      using i that by (auto simp: f)
    show "unat a + 8 * unat (hsize h' a) \<le> unat (hbrk h')" if "a \<in> set (xs @ p # bp # ys)" for a
      using i that by (auto simp: f)
  qed (use i f in auto)
  have "ubytes_of h' bp = {unat bp..<unat bp + 8 * unat n}" "ubytes_of h' p = ubytes_of h p" using i by (auto simp: f)
  moreover have "ufree_bytes h' xs = ufree_bytes h xs" "ufree_bytes h' ys = ufree_bytes h ys" using c by (simp_all add: f)
  ultimately show "ufree_bytes h' (xs @ p # bp # ys) = ufree_bytes h (xs @ p # ys) \<union> {unat bp..<unat bp + 8 * unat n}"
    by (simp only: ufree_bytes_append) blast
qed

lemma link_both:
  assumes inv: "uinv base h (xs @ p # ys)" and blk: "ublock base h (xs @ p # ys) bp"
    and pl: "\<forall>a\<in>set xs. a < bp" "p < bp" "\<forall>y\<in>set ys. bp < y"
  shows "\<exists>ps'. ufreed base h (xs @ p # ys) bp ((link_lower bp p (link_upper bp p h))\<lparr>freep := p\<rparr>) ps'"
proof -
  note pt = uinv_parts [OF inv blk pl]
  obtain n ys' where u: "link_upper bp p h = h\<lparr>hsize := (hsize h)(bp := n), hptr := (hptr h)(bp := hd (ys' @ [base]))\<rparr>"
    and n: "hsize h bp \<le> n" "unat bp + 8 * unat n \<le> unat (hbrk h)" "\<forall>y\<in>set ys'. unat bp + 8 * unat n < unat y"
    and ys': "useg (hptr h) ys' base" "sorted_wrt (uapart h) ys'" "set ys' \<subseteq> set ys"
    and bytes: "{unat bp..<unat bp + 8 * unat n} \<union> ufree_bytes h ys' = ubytes_of h bp \<union> ufree_bytes h ys"
    by (rule link_upper_spec [OF inv blk pl])
  have i: "useg (hptr h) xs p" "sorted_wrt (uapart h) (xs @ [p])" "hd (xs @ p # ys) = base" "hsize h base = 0" "base \<noteq> 0"
    "\<forall>a\<in>set (tl (xs @ p # ys)). 0 < hsize h a" "\<forall>a\<in>set (xs @ p # ys). unat a + 8 * unat (hsize h a) \<le> unat (hbrk h)"
    "distinct (xs @ p # ys)"
    using inv uinv_distinct [of h "xs @ p # ys"] by (auto simp: uinv_def useg_append sorted_wrt_append)
  have pos: "0 < hsize h a" if "a \<in> set (xs @ p # ys')" "a \<noteq> base" for a
  proof -
    have "a \<in> set (tl (xs @ p # ys))" using that i(3) ys'(3) by (cases xs) auto
    then show ?thesis using i(6) by blast
  qed
  have "distinct ys'" by (rule uinv_distinct [OF ys'(2)])
  then have l: "ulinked base h xs p bp n ys'"
    unfolding ulinked_def using i ys' n pt(1,2) pos blk
    by (cases xs) (auto simp: ublock_def sorted_wrt_append)
  have bp: "bp \<noteq> p" using pt(1) by auto
  have pbrk: "unat p + 8 * unat (hsize h p) \<le> unat (hbrk h)" using i(7) by simp
  have cond: "p + 8 * hsize h p = bp \<longleftrightarrow> unat p + 8 * unat (hsize h p) = unat bp"
    using unat_unit_step [OF pbrk] by (simp add: word_unat_eq_iff)
  let ?h = "(link_lower bp p (link_upper bp p h))\<lparr>freep := p\<rparr>"
  have b: "ufree_bytes h (xs @ p # ys') \<union> {unat bp..<unat bp + 8 * unat n} = ufree_bytes h (xs @ p # ys) \<union> ubytes_of h bp"
    using bytes by (simp only: ufree_bytes_append) blast
  show ?thesis
  proof (cases "unat p + 8 * unat (hsize h p) = unat bp")
    case True
    have f: "hsize ?h = (hsize h)(bp := n, p := hsize h p + n)" "freep ?h = p" "hbrk ?h = hbrk h"
      "hptr ?h = (hptr h)(bp := hd (ys' @ [base]), p := hd (ys' @ [base]))"
      unfolding link_lower_def u using True cond bp by simp_all
    note mg = merge_lower [OF l True f]
    have "ufreed base h (xs @ p # ys) bp ?h (xs @ p # ys')"
      unfolding ufreed_def using mg(1,3) b order_trans [OF n(1) mg(2)] f by auto
    then show ?thesis by blast
  next
    case False
    have f: "hsize ?h = (hsize h)(bp := n)" "freep ?h = p" "hbrk ?h = hbrk h"
      "hptr ?h = (hptr h)(bp := hd (ys' @ [base]), p := bp)"
      unfolding link_lower_def u using False cond bp by simp_all
    note ins = insert_lower [OF l False f]
    have "ufreed base h (xs @ p # ys) bp ?h (xs @ p # bp # ys')"
      unfolding ufreed_def using ins b n(1) f by auto
    then show ?thesis by blast
  qed
qed

lemma ufree_spec:
  assumes "uinv base h ps" "ublock base h ps bp"
  shows "\<exists>h' ps'. ufree (bp + 8) h = Some h' \<and> ufreed base h ps bp h' ps'"
proof -
  have so: "sorted_wrt (<) ps" "ps \<noteq> []" "hd ps < bp" "useg (hptr h) ps base" "hd ps = base" "freep h \<in> set ps"
    using assms sorted_uapart_less by (auto simp: uinv_def ublock_def)
  have "bp \<notin> set ps"
  proof
    assume "bp \<in> set ps"
    then have "ubytes_of h bp \<subseteq> ufree_bytes h ps" by (auto simp: ufree_bytes_def)
    moreover have "unat bp \<in> ubytes_of h bp" using assms(2) by (simp add: ublock_def word_less_nat_alt)
    moreover have "ubytes_of h bp \<inter> ufree_bytes h ps = {}" using assms(2) by (simp add: ublock_def)
    ultimately show False by blast
  qed
  then obtain xs p ys where p: "ps = xs @ p # ys" "\<forall>a\<in>set xs. a < bp" "p < bp" "\<forall>y\<in>set ys. bp < y"
    using sorted_place [OF so(1-3)] by blast
  have "free_search h bp (freep h) = Some p" by (rule search_finds [OF so(4,1,5,6) p])
  moreover have "\<exists>ps'. ufreed base h ps bp ((link_lower bp p (link_upper bp p h))\<lparr>freep := p\<rparr>) ps'"
    using link_both [of base h xs p ys bp] assms p by simp
  ultimately show ?thesis by (simp add: ufree_def)
qed

section \<open>Malloc\<close>

text \<open>What taking \<open>n\<close> units off the free list has to achieve: the block \<open>bp\<close> handed out has \<open>n\<close> units, its bytes
  were free and are not free any more, and no header outside the list has changed but its own.\<close>

definition utaken :: "u32 \<Rightarrow> u32 \<Rightarrow> uheap \<Rightarrow> u32 list \<Rightarrow> u32 \<Rightarrow> uheap \<Rightarrow> u32 list \<Rightarrow> bool" where
  "utaken base n h ps bp h' ps' \<longleftrightarrow> uinv base h' ps' \<and> ublock base h' ps' bp \<and> hsize h' bp = n
     \<and> ufree_bytes h' ps' \<union> ubytes_of h' bp = ufree_bytes h ps \<and> hbrk h' = hbrk h
     \<and> (\<forall>a. a \<notin> set ps \<longrightarrow> unat a \<notin> ufree_bytes h ps \<longrightarrow> hsize h' a = hsize h a)"

lemma uinv_around:
  assumes "uinv base h (xs @ q # w # ys)"
  shows "w \<noteq> base" "base < w" "hptr h w = hd (ys @ [base])" "w \<notin> set xs" "w \<noteq> q" "w \<notin> set ys" "0 < hsize h w"
    "unat w + 8 * unat (hsize h w) \<le> unat (hbrk h)" "\<forall>a\<in>set (xs @ [q]). uapart h a w" "\<forall>y\<in>set ys. uapart h w y"
proof -
  have s: "sorted_wrt (uapart h) (xs @ q # w # ys)" "hd (xs @ q # w # ys) = base" using assms by (auto simp: uinv_def)
  show "base < w" "w \<noteq> base"
    using sorted_uapart_less [OF s(1)] s(2) by (cases xs; auto)+
  show "w \<notin> set xs" "w \<noteq> q" "w \<notin> set ys" using uinv_distinct [OF s(1)] by auto
  show "0 < hsize h w" using assms by (cases xs) (auto simp: uinv_def)
  show "hptr h w = hd (ys @ [base])" "unat w + 8 * unat (hsize h w) \<le> unat (hbrk h)"
    using assms by (auto simp: uinv_def useg_append)
  show "\<forall>a\<in>set (xs @ [q]). uapart h a w" "\<forall>y\<in>set ys. uapart h w y" using s(1) by (auto simp: sorted_wrt_append)
qed

lemma take_whole:
  assumes inv: "uinv base h (xs @ q # w # ys)"
  shows "utaken base (hsize h w) h (xs @ q # w # ys) w
    (h\<lparr>hptr := (hptr h)(q := hptr h w), freep := q\<rparr>) (xs @ q # ys)"
proof -
  note a = uinv_around [OF inv]
  let ?h = "h\<lparr>hptr := (hptr h)(q := hptr h w), freep := q\<rparr>"
  have i: "useg (hptr h) (xs @ q # w # ys) base" "sorted_wrt (uapart h) (xs @ q # w # ys)" "hd (xs @ q # w # ys) = base"
    "\<forall>a\<in>set (tl (xs @ q # w # ys)). 0 < hsize h a" "hsize h base = 0" "base \<noteq> 0"
    using inv by (auto simp: uinv_def)
  have d: "distinct (xs @ q # w # ys)" by (rule uinv_distinct [OF i(2)])
  have sh: "uapart ?h = uapart h" by (simp add: uapart_def fun_eq_iff)
  have "uinv base ?h (xs @ q # ys)"
  proof (rule uinvI)
    show "hd (xs @ q # ys) = base" using i(3) by (cases xs) auto
    show "useg (hptr ?h) xs (hd (q # ys))" "useg (hptr ?h) (q # ys) base"
      using i(1) d a(3) by (auto simp: useg_append)
    show "0 < hsize ?h a" if "a \<in> set (xs @ q # ys)" "a \<noteq> base" for a
      using i(3,4) that by (cases xs) auto
    show "unat a + 8 * unat (hsize ?h a) \<le> unat (hbrk ?h)" if "a \<in> set (xs @ q # ys)" for a
      using inv that by (auto simp: uinv_def)
  qed (use i d in \<open>auto simp: sorted_wrt_append sh\<close>)
  moreover have "ubytes_of h w \<inter> ubytes_of h b = {}" if "b \<in> set (xs @ q # ys)" for b
    using that a(9,10) by (auto simp: uapart_def)
  then have "ubytes_of h w \<inter> ufree_bytes ?h (xs @ q # ys) = {}"
    unfolding ufree_bytes_def by fastforce
  ultimately show ?thesis
    unfolding utaken_def ublock_def using a(2,7,8) by (auto simp: ufree_bytes_def)
qed

text \<open>Cutting the last \<open>n\<close> units, at \<open>t\<close>, off the block \<open>w\<close>.\<close>

definition ucut :: "u32 \<Rightarrow> u32 \<Rightarrow> u32 \<Rightarrow> u32 \<Rightarrow> uheap \<Rightarrow> uheap" where
  "ucut q w t n h = h\<lparr>hsize := (hsize h)(w := hsize h w - n, t := n), freep := q\<rparr>"

lemma ucut_place:
  assumes inv: "uinv base h (xs @ q # w # ys)" and n: "0 < n" "n < hsize h w" and td: "t = w + 8 * (hsize h w - n)"
  shows "unat (hsize h w) = unat (hsize h w - n) + unat n" "unat w < unat t" "unat t + 8 * unat n = unat w + 8 * unat (hsize h w)"
    "unat t = unat w + 8 * unat (hsize h w - n)" "t \<notin> set (xs @ q # w # ys)"
    "b \<in> set (xs @ q # ys) \<Longrightarrow> hsize (ucut q w t n h) b = hsize h b" "hsize (ucut q w t n h) w = hsize h w - n"
proof -
  note a = uinv_around [OF inv]
  show l: "unat (hsize h w) = unat (hsize h w - n) + unat n"
    using n unat_sub [of n "hsize h w"] by (auto simp: word_less_nat_alt word_le_nat_alt)
  have l0: "0 < unat (hsize h w - n)" using n l by (simp add: word_less_nat_alt)
  show t: "unat t = unat w + 8 * unat (hsize h w - n)"
    unfolding td by (rule unat_unit_step [where b = "hbrk h"]) (use a(8) l in simp)
  show "unat w < unat t" "unat t + 8 * unat n = unat w + 8 * unat (hsize h w)" using t l l0 by auto
  have "unat t < unat b \<or> unat b < unat w" if "b \<in> set (xs @ q # ys)" for b
    using that a(9,10) t l by (auto simp: uapart_def)
  then have tn: "t \<noteq> b" if "b \<in> set (xs @ q # ys)" for b using that t by fastforce
  have tw: "t \<noteq> w" using t l0 by auto
  show "t \<notin> set (xs @ q # w # ys)" using tn tw by auto
  show "hsize (ucut q w t n h) b = hsize h b" if "b \<in> set (xs @ q # ys)" using that tn a(4-6) by (auto simp: ucut_def)
  show "hsize (ucut q w t n h) w = hsize h w - n" using tw by (simp add: ucut_def)
qed

lemma ucut_inv:
  assumes inv: "uinv base h (xs @ q # w # ys)" and n: "0 < n" "n < hsize h w" and td: "t = w + 8 * (hsize h w - n)"
  shows "uinv base (ucut q w t n h) (xs @ q # w # ys)"
proof -
  note a = uinv_around [OF inv] and c = ucut_place [OF assms]
  let ?ps = "(xs @ [q]) @ w # ys" and ?h = "ucut q w t n h"
  have p: "hptr ?h = hptr h" "freep ?h = q" "hbrk ?h = hbrk h" by (simp_all add: ucut_def)
  have i: "useg (hptr h) ?ps base" "sorted_wrt (uapart h) ?ps" "hd ?ps = base"
    "\<forall>a\<in>set (tl ?ps). 0 < hsize h a" "hsize h base = 0" "base \<noteq> 0"
    using inv by (auto simp: uinv_def)
  have bs: "base \<in> set (xs @ q # ys)" using i(3) by (cases xs) auto
  have "uinv base ?h ?ps"
  proof (rule uinvI)
    show "hd ?ps = base" by (rule i(3))
    show "useg (hptr ?h) (xs @ [q]) (hd (w # ys))" "useg (hptr ?h) (w # ys) base"
      using i(1) by (auto simp: useg_append p)
    show "sorted_wrt (uapart ?h) (xs @ [q])"
      using i(2) sorted_uapart_cong [of "xs @ [q]" ?h h] c(6) by (auto simp: sorted_wrt_append)
    have "sorted_wrt (uapart ?h) ys"
      using i(2) sorted_uapart_cong [of ys ?h h] c(6) by (auto simp: sorted_wrt_append)
    then show "sorted_wrt (uapart ?h) (w # ys)" using a(10) c(1,7) by (auto simp: uapart_def)
    show "uapart ?h b (hd (w # ys))" if "b \<in> set (xs @ [q])" for b
      using a(9) that c(6) [of b] by (auto simp: uapart_def)
    show "0 < hsize ?h b" if "b \<in> set ?ps" "b \<noteq> base" for b
    proof (cases "b = w")
      case True
      then show ?thesis using c(2,4,7) by (simp add: word_less_nat_alt)
    next
      case False
      then show ?thesis using that c(6) [of b] i(3,4) by (cases xs) auto
    qed
    show "unat b + 8 * unat (hsize ?h b) \<le> unat (hbrk ?h)" if "b \<in> set ?ps" for b
      using inv that c(6) [of b] a(8) c(1,7) by (cases "b = w") (auto simp: uinv_def p)
  qed (use i c(6) [OF bs] p in auto)
  then show ?thesis by simp
qed

lemma take_tail:
  assumes inv: "uinv base h (xs @ q # w # ys)" and n: "0 < n" "n < hsize h w" and td: "t = w + 8 * (hsize h w - n)"
  shows "utaken base n h (xs @ q # w # ys) t (ucut q w t n h) (xs @ q # w # ys)"
proof -
  note a = uinv_around [OF inv] and c = ucut_place [OF assms]
  let ?h = "ucut q w t n h" and ?R = "ufree_bytes h (xs @ q # ys)"
  have ht: "hsize ?h t = n" "hbrk ?h = hbrk h" by (simp_all add: ucut_def)
  have split: "ufree_bytes g (xs @ q # w # ys) = ubytes_of g w \<union> ufree_bytes g (xs @ q # ys)" for g
    by (auto simp: ufree_bytes_def)
  have rest: "ufree_bytes ?h (xs @ q # ys) = ?R"
    by (rule ufree_bytes_cong) (use c(6) in auto)
  have w: "ubytes_of h w = {unat w..<unat t} \<union> {unat t..<unat t + 8 * unat n}" "ubytes_of ?h w = {unat w..<unat t}"
    using c by auto
  have "ubytes_of h w \<inter> ubytes_of h b = {}" if "b \<in> set (xs @ q # ys)" for b
    using that a(9,10) by (auto simp: uapart_def)
  then have "ubytes_of h w \<inter> ?R = {}" unfolding ufree_bytes_def by fastforce
  then have dj: "{unat t..<unat t + 8 * unat n} \<inter> ({unat w..<unat t} \<union> ?R) = {}" unfolding w(1) by auto
  have "base < t" using a(2) c(2) by (auto simp: word_less_nat_alt)
  then have "ublock base ?h (xs @ q # w # ys) t"
    unfolding ublock_def split rest w(2) ht using dj n(1) a(8) c(3) by simp
  moreover have "ufree_bytes ?h (xs @ q # w # ys) \<union> ubytes_of ?h t = ufree_bytes h (xs @ q # w # ys)"
    unfolding split rest w ht by blast
  moreover have "hsize ?h b = hsize h b" if "b \<notin> set (xs @ q # w # ys)" "unat b \<notin> ufree_bytes h (xs @ q # w # ys)" for b
  proof -
    have "unat t \<in> ubytes_of h w" unfolding w(1) using n(1) by (simp add: word_less_nat_alt)
    then have "b \<noteq> t" using that(2) unfolding split by auto
    then show ?thesis using that(1) by (simp add: ucut_def)
  qed
  ultimately show ?thesis unfolding utaken_def using ucut_inv [OF assms] ht by blast
qed

lemma malloc_take_spec:
  assumes "uinv base h ps" "q \<in> set ps" "hptr h q = w" "0 < n" "n \<le> hsize h w"
  shows "\<exists>bp h' ps'. malloc_take n q w h = (bp + 8, h') \<and> utaken base n h ps bp h' ps'"
proof -
  obtain xs zs where ps: "ps = xs @ q # zs" using assms(2) by (auto dest: split_list)
  have "hsize h w \<noteq> 0" using assms(4,5) by auto
  then have "w \<noteq> base" using assms(1) by (auto simp: uinv_def)
  moreover have "w = hd (zs @ [base])" using assms(1,3) ps by (auto simp: uinv_def useg_append)
  ultimately obtain ys where zs: "zs = w # ys" by (cases zs) auto
  note inv = assms(1) [unfolded ps zs]
  show ?thesis
  proof (cases "hsize h w = n")
    case True
    then show ?thesis using take_whole [OF inv] unfolding ps zs malloc_take_def by (auto simp del: append_assoc)
  next
    case False
    then have "n < hsize h w" using assms(5) by simp
    from take_tail [OF inv assms(4) this refl] False show ?thesis
      unfolding ps zs malloc_take_def by (auto simp: ucut_def Let_def)
  qed
qed

text \<open>One round over the list from the block after \<^verbatim>\<open>freep\<close>, which comes last.\<close>

lemma malloc_round:
  assumes "useg (hptr h) (q # ws) (freep h)" "freep h \<notin> set ws"
  shows "(\<exists>u\<in>set (q # ws). n \<le> hsize h (hptr h u) \<and> malloc_loop lim n q (hptr h q) h = Some (malloc_take n u (hptr h u) h))
    \<or> (\<forall>w\<in>set (ws @ [freep h]). hsize h w < n) \<and>
      malloc_loop lim n q (hptr h q) h = Option.bind (morecore lim n h)
        (\<lambda>(p, h). if p = 0 then Some (0, h) else malloc_loop lim n p (hptr h p) h)"
  using assms
proof (induction ws arbitrary: q)
  case Nil
  then show ?case using malloc_loop.simps [of lim n q "hptr h q" h] by (auto simp: not_le)
next
  case (Cons w ws)
  have nx: "hptr h q = w" "w \<noteq> freep h" using Cons.prems by auto
  show ?case
  proof (cases "n \<le> hsize h w")
    case True
    then show ?thesis using nx by (auto simp: malloc_loop.simps [of lim n q w h])
  next
    case False
    then have "malloc_loop lim n q (hptr h q) h = malloc_loop lim n w (hptr h w) h"
      using nx by (simp add: malloc_loop.simps [of lim n q w h])
    then show ?thesis using Cons.IH [of w] Cons.prems False by auto
  qed
qed

text \<open>Starting at \<^verbatim>\<open>freep\<close>, a round meets every block of the list.\<close>

lemma uinv_rotate:
  assumes "uinv base h ps"
  obtains ws where "useg (hptr h) (freep h # ws) (freep h)" "freep h \<notin> set ws" "set (freep h # ws) = set ps"
proof -
  have "freep h \<in> set ps" using assms by (simp add: uinv_def)
  then obtain us vs where ps: "ps = us @ freep h # vs" by (auto dest: split_list)
  have i: "useg (hptr h) ps base" "hd ps = base" "distinct ps"
    using assms uinv_distinct [of h ps] by (auto simp: uinv_def)
  have "useg (hptr h) ((freep h # vs) @ us) (freep h)"
    using i(1,2) unfolding ps useg_append by (cases us) auto
  then show thesis using that [of "vs @ us"] i(3) ps by auto
qed

lemma malloc_from_freep:
  assumes "uinv base h ps" "0 < n"
  shows "(\<exists>bp h' ps'. malloc_loop lim n (freep h) (hptr h (freep h)) h = Some (bp + 8, h') \<and> utaken base n h ps bp h' ps')
    \<or> (\<forall>w\<in>set ps. hsize h w < n) \<and>
      malloc_loop lim n (freep h) (hptr h (freep h)) h = Option.bind (morecore lim n h)
        (\<lambda>(p, h). if p = 0 then Some (0, h) else malloc_loop lim n p (hptr h p) h)"
proof -
  obtain ws where ws: "useg (hptr h) (freep h # ws) (freep h)" "freep h \<notin> set ws" "set (freep h # ws) = set ps"
    by (rule uinv_rotate [OF assms(1)])
  from malloc_round [OF ws(1,2), of n lim] consider
      u where "u \<in> set ps" "n \<le> hsize h (hptr h u)"
        "malloc_loop lim n (freep h) (hptr h (freep h)) h = Some (malloc_take n u (hptr h u) h)"
    | "\<forall>w\<in>set (ws @ [freep h]). hsize h w < n" "malloc_loop lim n (freep h) (hptr h (freep h)) h = Option.bind (morecore lim n h)
        (\<lambda>(p, h). if p = 0 then Some (0, h) else malloc_loop lim n p (hptr h p) h)"
    using ws(3) by blast
  then show ?thesis
  proof cases
    case 1
    then show ?thesis using malloc_take_spec [OF assms(1) 1(1) refl assms(2) 1(2)] by auto
  next
    case 2
    then have "\<forall>w\<in>set ps. hsize h w < n" using ws(3) [symmetric] by simp
    with 2(2) show ?thesis by blast
  qed
qed

lemma uinv_nonnull:
  assumes "uinv base h ps"
  shows "freep h \<noteq> 0"
proof -
  have "sorted_wrt (<) ps" "hd ps = base" "base \<noteq> 0" "freep h \<in> set ps" "ps \<noteq> []"
    using assms sorted_uapart_less by (auto simp: uinv_def)
  then have "base \<le> freep h" by (cases ps) auto
  with \<open>base \<noteq> 0\<close> show ?thesis by auto
qed

text \<open>The heap between two calls: the list, and a break above the static header and below the limit.\<close>

definition uheap_ok :: "nat \<Rightarrow> u32 \<Rightarrow> uheap \<Rightarrow> u32 list \<Rightarrow> bool" where
  "uheap_ok lim base h ps \<longleftrightarrow> uinv base h ps \<and> base < hbrk h \<and> unat (hbrk h) \<le> lim \<and> lim < 2 ^ 31"

lemma usbrk_grows:
  assumes "8 * unat nu < 2 ^ 31" "0 < nu" "unat (hbrk h) \<le> lim" "lim < 2 ^ 31"
  shows "usbrk lim (nu * 8) h = (0xffffffff, h) \<or>
    usbrk lim (nu * 8) h = (hbrk h, h\<lparr>hbrk := hbrk h + nu * 8\<rparr>) \<and> hbrk h \<noteq> 0xffffffff
      \<and> unat (hbrk h + nu * 8) = unat (hbrk h) + 8 * unat nu \<and> unat (hbrk h) + 8 * unat nu \<le> lim"
proof -
  have m: "unat (nu * 8) = 8 * unat nu" using assms(1) unat_mult_lem [of nu 8] by simp
  then have i: "sint (nu * 8) = int (8 * unat nu)" using assms(1) sint_small [of "nu * 8"] by (simp only:)
  have nz: "0 < unat nu" using assms(2) by (simp add: word_less_nat_alt)
  then have s: "0 < sint (nu * 8)" unfolding i of_nat_0_less_iff by simp
  have "unat (hbrk h) + unat (nu * 8) < 2 ^ 32" unfolding m using assms(1,3,4) by simp
  then have u: "unat (hbrk h + nu * 8) = unat (hbrk h) + 8 * unat nu" using m by (simp only: unat_add_lt)
  have g: "hbrk h < hbrk h + nu * 8" unfolding word_less_nat_alt u using nz by simp
  have "hbrk h \<noteq> 0xffffffff" using assms(3,4) by auto
  then show ?thesis unfolding usbrk_def Let_def u using s g u by (cases "lim < unat (hbrk h) + 8 * unat nu") simp_all
qed

text \<open>The memory a successful \<^verbatim>\<open>sbrk\<close> adds is a block like one that was handed out before.\<close>

lemma ugrow:
  assumes ok: "uinv base h ps" "base < hbrk h" and nu: "0 < nu" "unat b = unat (hbrk h) + 8 * unat nu"
  defines "g \<equiv> h\<lparr>hbrk := b, hsize := (hsize h)(hbrk h := nu)\<rparr>"
  shows "uinv base g ps" "ublock base g ps (hbrk h)" "ufree_bytes g ps = ufree_bytes h ps"
proof -
  have i: "useg (hptr h) ps base" "sorted_wrt (uapart h) ps" "ps \<noteq> []" "hd ps = base" "base \<noteq> 0" "hsize h base = 0"
    "\<forall>a\<in>set (tl ps). 0 < hsize h a" "\<forall>a\<in>set ps. unat a + 8 * unat (hsize h a) \<le> unat (hbrk h)" "freep h \<in> set ps"
    using ok(1) by (auto simp: uinv_def)
  have pos: "a = base \<or> 0 < hsize h a" if "a \<in> set ps" for a using i(3,4,7) that by (cases ps) auto
  have ne: "a \<noteq> hbrk h" if "a \<in> set ps" for a
    using pos [OF that] i(8) that ok(2) by (auto simp: word_less_nat_alt)
  then have sz: "hsize g a = hsize h a" if "a \<in> set ps" for a using that by (simp add: g_def)
  have p: "hptr g = hptr h" "freep g = freep h" "hbrk g = b" "hsize g (hbrk h) = nu" by (simp_all add: g_def)
  show "uinv base g ps"
    unfolding uinv_def p
  proof (intro conjI ballI)
    show "hsize g base = 0" using i(3,4,6) sz [of base] by (cases ps) auto
    show "sorted_wrt (uapart g) ps" using i(2) sorted_uapart_cong [OF sz] by simp
    show "0 < hsize g a" if "a \<in> set (tl ps)" for a using i(3,7) that sz [of a] by (cases ps) auto
    show "unat a + 8 * unat (hsize g a) \<le> unat b" if "a \<in> set ps" for a
      using i(8) that sz [OF that] nu(2) by auto
  qed (use i in auto)
  show fb: "ufree_bytes g ps = ufree_bytes h ps" by (rule ufree_bytes_cong [OF sz])
  have "ubytes_of g (hbrk h) \<inter> ufree_bytes h ps = {}"
    using i(8) by (fastforce simp: ufree_bytes_def)
  then show "ublock base g ps (hbrk h)" unfolding ublock_def fb p using ok(2) nu by simp
qed

lemma morecore_spec:
  assumes ok: "uheap_ok lim base h ps" and n: "8 * unat n < 2 ^ 31" "0 < n"
  shows "morecore lim n h = Some (0, h) \<or>
    (\<exists>h' ps'. morecore lim n h = Some (freep h', h') \<and> uheap_ok lim base h' ps' \<and> freep h' \<noteq> 0 \<and> hbrk h < hbrk h'
      \<and> ufree_bytes h' ps' = ufree_bytes h ps \<union> {unat (hbrk h)..<unat (hbrk h')}
      \<and> (\<forall>a. a \<notin> set ps \<longrightarrow> a \<noteq> hbrk h \<longrightarrow> hsize h' a = hsize h a) \<and> (\<exists>a\<in>set ps'. n \<le> hsize h' a))"
proof -
  let ?nu = "if n < 4096 then 4096 else n" and ?p = "hbrk h"
  let ?g = "h\<lparr>hbrk := hbrk h + ?nu * 8, hsize := (hsize h)(?p := ?nu)\<rparr>"
  have o: "uinv base h ps" "base < ?p" "unat ?p \<le> lim" "lim < 2 ^ 31" using ok by (auto simp: uheap_ok_def)
  have nu: "8 * unat ?nu < 2 ^ 31" "n \<le> ?nu" "0 < ?nu" using n by auto
  from usbrk_grows [OF nu(1,3) o(3,4)] consider "morecore lim n h = Some (0, h)"
    | "morecore lim n h = Option.bind (ufree (?p + 8) ?g) (\<lambda>h. Some (freep h, h))"
      "unat (hbrk ?g) = unat ?p + 8 * unat ?nu" "unat (hbrk ?g) \<le> lim"
    unfolding morecore_def Let_def by fastforce
  then show ?thesis
  proof cases
    case 2
    note gr = ugrow [OF o(1,2) nu(3), of "hbrk ?g"]
    have g: "h\<lparr>hbrk := hbrk ?g, hsize := (hsize h)(?p := ?nu)\<rparr> = ?g" by simp
    have inv: "uinv base ?g ps" "ublock base ?g ps ?p" "ufree_bytes ?g ps = ufree_bytes h ps"
      using gr [OF 2(2)] unfolding g by blast+
    obtain h' ps' where h': "ufree (?p + 8) ?g = Some h'" "ufreed base ?g ps ?p h' ps'"
      using ufree_spec [OF inv(1,2)] by blast
    have lt: "?p < hbrk ?g" using 2(2) nu(3) by (simp add: word_less_nat_alt)
    have bytes: "ubytes_of ?g ?p = {unat ?p..<unat (hbrk ?g)}" using 2(2) by simp
    note fr = h'(2) [unfolded ufreed_def inv(3) bytes]
    have "freep h' \<noteq> 0" using fr uinv_nonnull by blast
    moreover have "uheap_ok lim base h' ps'"
      using fr o lt 2(3) unfolding uheap_ok_def by (metis less_trans)
    moreover have "\<exists>a\<in>set ps'. n \<le> hsize h' a" using fr nu(2) by (auto intro: order_trans)
    moreover have "hsize h' a = hsize h a" if "a \<notin> set ps" "a \<noteq> ?p" for a
      using fr that by simp
    ultimately show ?thesis using 2(1) h'(1) fr lt by auto
  qed simp
qed

lemma uinv_in_bytes:
  assumes "uinv base h ps" "a \<in> set ps" "a \<noteq> base"
  shows "unat a \<in> ufree_bytes h ps"
proof -
  have "0 < hsize h a" using assms by (cases ps) (auto simp: uinv_def)
  then have "unat a \<in> ubytes_of h a" by (simp add: word_less_nat_alt)
  then show ?thesis using assms(2) by (auto simp: ufree_bytes_def)
qed

text \<open>What a call of \<^verbatim>\<open>malloc\<close> that hands out the block \<open>bp\<close> of \<open>n\<close> units does to the heap; the break may have
  moved up.\<close>

definition ualloc :: "nat \<Rightarrow> u32 \<Rightarrow> u32 \<Rightarrow> uheap \<Rightarrow> u32 list \<Rightarrow> u32 \<Rightarrow> uheap \<Rightarrow> u32 list \<Rightarrow> bool" where
  "ualloc lim base n h ps bp h' ps' \<longleftrightarrow> uheap_ok lim base h' ps' \<and> ublock base h' ps' bp \<and> hsize h' bp = n \<and> hbrk h \<le> hbrk h'
     \<and> ufree_bytes h' ps' \<union> ubytes_of h' bp = ufree_bytes h ps \<union> {unat (hbrk h)..<unat (hbrk h')}
     \<and> (\<forall>a. base < a \<longrightarrow> a < hbrk h \<longrightarrow> unat a \<notin> ufree_bytes h ps \<longrightarrow> hsize h' a = hsize h a)"

lemma ualloc_taken:
  assumes "uheap_ok lim base h ps" "utaken base n h ps bp h' ps'"
  shows "ualloc lim base n h ps bp h' ps'"
proof -
  have t: "uinv base h' ps'" "ublock base h' ps' bp" "hsize h' bp = n" "hbrk h' = hbrk h"
    "ufree_bytes h' ps' \<union> ubytes_of h' bp = ufree_bytes h ps"
    "\<And>a. a \<notin> set ps \<Longrightarrow> unat a \<notin> ufree_bytes h ps \<Longrightarrow> hsize h' a = hsize h a"
    using assms(2) unfolding utaken_def by blast+
  have "hsize h' a = hsize h a" if "base < a" "unat a \<notin> ufree_bytes h ps" for a
    using t(6) [OF _ that(2)] uinv_in_bytes [of base h ps a] assms(1) that by (auto simp: uheap_ok_def)
  then show ?thesis unfolding ualloc_def t(4,5) using assms(1) t(1-3) t(4) by (auto simp: uheap_ok_def)
qed

lemma ualloc_grown:
  assumes inv: "uinv base h ps" and g: "hbrk h < hbrk g" "ufree_bytes g qs = ufree_bytes h ps \<union> {unat (hbrk h)..<unat (hbrk g)}"
      "\<And>a. a \<notin> set ps \<Longrightarrow> a \<noteq> hbrk h \<Longrightarrow> hsize g a = hsize h a"
    and al: "ualloc lim base n g qs bp h' ps'"
  shows "ualloc lim base n h ps bp h' ps'"
proof -
  have t: "uheap_ok lim base h' ps'" "ublock base h' ps' bp" "hsize h' bp = n" "hbrk g \<le> hbrk h'"
    "ufree_bytes h' ps' \<union> ubytes_of h' bp = ufree_bytes g qs \<union> {unat (hbrk g)..<unat (hbrk h')}"
    "\<And>a. base < a \<Longrightarrow> a < hbrk g \<Longrightarrow> unat a \<notin> ufree_bytes g qs \<Longrightarrow> hsize h' a = hsize g a"
    using al unfolding ualloc_def by blast+
  have "unat (hbrk h) \<le> unat (hbrk g)" "unat (hbrk g) \<le> unat (hbrk h')"
    using g(1) t(4) by (simp_all add: word_less_nat_alt word_le_nat_alt)
  then have "{unat (hbrk h)..<unat (hbrk g)} \<union> {unat (hbrk g)..<unat (hbrk h')} = {unat (hbrk h)..<unat (hbrk h')}" by auto
  then have bytes: "ufree_bytes h' ps' \<union> ubytes_of h' bp = ufree_bytes h ps \<union> {unat (hbrk h)..<unat (hbrk h')}"
    unfolding t(5) g(2) by (simp only: Un_assoc)
  have "hsize h' a = hsize h a" if a: "base < a" "a < hbrk h" "unat a \<notin> ufree_bytes h ps" for a
  proof -
    have "unat a \<notin> ufree_bytes g qs" using a(2,3) unfolding g(2) by (simp add: word_less_nat_alt)
    then have "hsize h' a = hsize g a" by (rule t(6) [OF a(1) less_trans [OF a(2) g(1)]])
    moreover have "a \<notin> set ps" using uinv_in_bytes [OF inv] a by auto
    ultimately show ?thesis using g(3) a(2) by simp
  qed
  moreover have "hbrk h \<le> hbrk h'" using g(1) t(4) by simp
  ultimately show ?thesis unfolding ualloc_def using t(1-3) bytes by (intro conjI) blast+
qed

lemma malloc_loop_spec:
  assumes ok: "uheap_ok lim base h ps" and n: "8 * unat n < 2 ^ 31" "0 < n"
  shows "malloc_loop lim n (freep h) (hptr h (freep h)) h = Some (0, h) \<or>
    (\<exists>bp h' ps'. malloc_loop lim n (freep h) (hptr h (freep h)) h = Some (bp + 8, h') \<and> ualloc lim base n h ps bp h' ps')"
proof -
  have inv: "uinv base h ps" using ok by (simp add: uheap_ok_def)
  consider bp h' ps' where "malloc_loop lim n (freep h) (hptr h (freep h)) h = Some (bp + 8, h')" "utaken base n h ps bp h' ps'"
    | "malloc_loop lim n (freep h) (hptr h (freep h)) h = Option.bind (morecore lim n h)
        (\<lambda>(p, h). if p = 0 then Some (0, h) else malloc_loop lim n p (hptr h p) h)"
    using malloc_from_freep [OF inv n(2)] by blast
  then show ?thesis
  proof cases
    case 1
    then show ?thesis using ualloc_taken [OF ok] by blast
  next
    case 2
    show ?thesis
    proof (cases "morecore lim n h = Some (0, h)")
      case True
      then show ?thesis using 2 by simp
    next
      case False
      then obtain g qs where g: "morecore lim n h = Some (freep g, g)" "uheap_ok lim base g qs" "freep g \<noteq> 0" "hbrk h < hbrk g"
        "ufree_bytes g qs = ufree_bytes h ps \<union> {unat (hbrk h)..<unat (hbrk g)}"
        "\<And>a. a \<notin> set ps \<Longrightarrow> a \<noteq> hbrk h \<Longrightarrow> hsize g a = hsize h a" "\<exists>a\<in>set qs. n \<le> hsize g a"
        using morecore_spec [OF ok n] by blast
      have gi: "uinv base g qs" using g(2) by (simp add: uheap_ok_def)
      obtain bp h' ps' where r: "malloc_loop lim n (freep g) (hptr g (freep g)) g = Some (bp + 8, h')" "utaken base n g qs bp h' ps'"
        using malloc_from_freep [OF gi n(2), of lim] g(7) by fastforce
      have "ualloc lim base n h ps bp h' ps'"
        by (rule ualloc_grown [OF inv g(4-6) ualloc_taken [OF g(2) r(2)]])
      moreover have "malloc_loop lim n (freep h) (hptr h (freep h)) h = Some (bp + 8, h')" using 2 g(1,3) r(1) by simp
      ultimately show ?thesis by blast
    qed
  qed
qed

definition uinit :: "u32 \<Rightarrow> uheap \<Rightarrow> uheap" where
  "uinit base h = (if freep h = 0 then h\<lparr>hptr := (hptr h)(base := base), hsize := (hsize h)(base := 0), freep := base\<rparr> else h)"

lemma malloc_units:
  assumes "unat nbytes \<le> 2 ^ 31 - 16"
  shows "unat ((nbytes + 8 - 1) div 8 + 1 :: u32) = (unat nbytes + 7) div 8 + 1"
proof -
  have e: "nbytes + 8 - 1 = nbytes + 7" by simp
  have m: "unat (nbytes + 7) = unat nbytes + 7" using assms by (simp add: unat_add_lt)
  have d: "unat ((nbytes + 8 - 1) div 8) = (unat nbytes + 7) div 8" unfolding e unat_div m by simp
  then have "unat ((nbytes + 8 - 1) div 8) + unat (1 :: u32) < 2 ^ 32" using assms by simp
  then show ?thesis using d by (simp only: unat_add_lt) simp
qed

lemma umalloc_spec:
  assumes ok: "uheap_ok lim base (uinit base h) ps" and nb: "unat nbytes \<le> 2 ^ 31 - 16"
  shows "umalloc lim base nbytes h = Some (0, uinit base h) \<or>
    (\<exists>bp h' ps' n. umalloc lim base nbytes h = Some (bp + 8, h') \<and> ualloc lim base n (uinit base h) ps bp h' ps'
       \<and> unat nbytes + 8 \<le> 8 * unat n)"
proof -
  let ?n = "(nbytes + 8 - 1) div 8 + 1"
  have n: "unat ?n = (unat nbytes + 7) div 8 + 1" by (rule malloc_units [OF nb])
  have "(unat nbytes + 7) div 8 * 8 + (unat nbytes + 7) mod 8 = unat nbytes + 7" "(unat nbytes + 7) mod 8 < 8" by simp_all
  then have q: "8 * ((unat nbytes + 7) div 8) \<le> unat nbytes + 7" "unat nbytes \<le> 8 * ((unat nbytes + 7) div 8)" by linarith+
  have n1: "8 * unat ?n < 2 ^ 31" unfolding n using nb q(1) by simp
  have n2: "0 < ?n" unfolding word_less_nat_alt n by simp
  have n3: "unat nbytes + 8 \<le> 8 * unat ?n" unfolding n using q(2) by simp
  have e: "umalloc lim base nbytes h = malloc_loop lim ?n (freep (uinit base h)) (hptr (uinit base h) (freep (uinit base h))) (uinit base h)"
    unfolding umalloc_def Let_def uinit_def ..
  show ?thesis unfolding e using malloc_loop_spec [OF ok n1 n2] n3 by blast
qed

section \<open>Sequences of calls\<close>

text \<open>A program calls \<^verbatim>\<open>malloc\<close>, and \<^verbatim>\<open>free\<close> on a pointer it still holds. \<open>L\<close> holds the pointers with the sizes
  asked for; \<open>Free i\<close> gives the \<open>i\<close>th of them back.\<close>

datatype ucall = Malloc u32 | Free nat

fun ucalls :: "nat \<Rightarrow> u32 \<Rightarrow> ucall list \<Rightarrow> (u32 \<times> u32) list \<Rightarrow> uheap \<Rightarrow> ((u32 \<times> u32) list \<times> uheap) option" where
  "ucalls lim base [] L h = Some (L, h)"
| "ucalls lim base (Malloc n # cs) L h =
    Option.bind (umalloc lim base n h) (\<lambda>(p, h). ucalls lim base cs (if p = 0 then L else (p, n) # L) h)"
| "ucalls lim base (Free i # cs) L h =
    (if i < length L then Option.bind (ufree (fst (L ! i)) h) (\<lambda>h. ucalls lim base cs (take i L @ drop (Suc i) L) h)
     else ucalls lim base cs L h)"

definition uregion :: "u32 \<times> u32 \<Rightarrow> nat set" where
  "uregion r = {unat (fst r)..<unat (fst r) + unat (snd r)}"

text \<open>The blocks of the pointers in use. Each is large enough for what was asked, and together with the free blocks
  they make up the memory from \<open>b\<close>, where the heap began, to the break.\<close>

abbreviation ublk :: "uheap \<Rightarrow> u32 \<times> u32 \<Rightarrow> nat set" where
  "ublk h r \<equiv> ubytes_of h (fst r - 8)"

definition uheld :: "nat \<Rightarrow> u32 \<Rightarrow> nat \<Rightarrow> (u32 \<times> u32) list \<Rightarrow> uheap \<Rightarrow> u32 list \<Rightarrow> bool" where
  "uheld lim base b L h ps \<longleftrightarrow> uheap_ok lim base h ps
     \<and> (\<forall>r\<in>set L. ublock base h ps (fst r - 8) \<and> unat (snd r) + 8 \<le> 8 * unat (hsize h (fst r - 8)))
     \<and> sorted_wrt (\<lambda>r r'. ublk h r \<inter> ublk h r' = {}) L
     \<and> ufree_bytes h ps \<union> (\<Union>r\<in>set L. ublk h r) = {b..<unat (hbrk h)} \<and> b \<le> unat (hbrk h)"

lemma ublock_outside:
  assumes "ublock base h ps a"
  shows "base < a" "a < hbrk h" "unat a \<notin> ufree_bytes h ps" "ubytes_of h a \<inter> (ufree_bytes h ps \<union> {unat (hbrk h)..<m}) = {}"
proof -
  have b: "base < a" "0 < unat (hsize h a)" "unat a + 8 * unat (hsize h a) \<le> unat (hbrk h)" "ubytes_of h a \<inter> ufree_bytes h ps = {}"
    using assms unfolding ublock_def word_less_nat_alt by auto
  then show "base < a" "a < hbrk h" "ubytes_of h a \<inter> (ufree_bytes h ps \<union> {unat (hbrk h)..<m}) = {}"
    by (auto simp: word_less_nat_alt)
  have "unat a \<in> ubytes_of h a" using b(2) by simp
  then show "unat a \<notin> ufree_bytes h ps" using b(4) by blast
qed

lemma uheld_cons:
  assumes held: "uheld lim base b L h ps" and al: "ualloc lim base k h ps (p - 8) h' ps'" and n: "unat n + 8 \<le> 8 * unat k"
  shows "uheld lim base b ((p, n) # L) h' ps'"
proof -
  have H: "\<And>r. r \<in> set L \<Longrightarrow> ublock base h ps (fst r - 8)"
    "\<And>r. r \<in> set L \<Longrightarrow> unat (snd r) + 8 \<le> 8 * unat (hsize h (fst r - 8))"
    "sorted_wrt (\<lambda>r r'. ublk h r \<inter> ublk h r' = {}) L"
    "ufree_bytes h ps \<union> (\<Union>r\<in>set L. ublk h r) = {b..<unat (hbrk h)}" "b \<le> unat (hbrk h)"
    using held unfolding uheld_def by blast+
  have A: "uheap_ok lim base h' ps'" "ublock base h' ps' (p - 8)" "hsize h' (p - 8) = k" "unat (hbrk h) \<le> unat (hbrk h')"
    "ufree_bytes h' ps' \<union> ubytes_of h' (p - 8) = ufree_bytes h ps \<union> {unat (hbrk h)..<unat (hbrk h')}"
    using al unfolding ualloc_def word_le_nat_alt by blast+
  have keep: "hsize h' (fst r - 8) = hsize h (fst r - 8)" if "r \<in> set L" for r
    using al ublock_outside [OF H(1) [OF that]] unfolding ualloc_def by blast
  have dis: "ublk h' r \<inter> (ufree_bytes h' ps' \<union> ubytes_of h' (p - 8)) = {}" if "r \<in> set L" for r
    unfolding A(5) keep [OF that] using ublock_outside(4) [OF H(1) [OF that]] .
  have "ublock base h' ps' (fst r - 8)" if "r \<in> set L" for r
    using H(1) [OF that] dis [OF that] A(4) unfolding ublock_def keep [OF that] by auto
  moreover have "sorted_wrt (\<lambda>r r'. ublk h' r \<inter> ublk h' r' = {}) L"
    by (rule sorted_wrt_mono_rel [OF _ H(3)]) (simp only: keep)
  moreover have "(\<Union>r\<in>set L. ublk h' r) = (\<Union>r\<in>set L. ublk h r)" by (simp only: keep cong: SUP_cong)
  moreover have "{b..<unat (hbrk h)} \<union> {unat (hbrk h)..<unat (hbrk h')} = {b..<unat (hbrk h')}" using H(5) A(4) by auto
  moreover have "unat (snd r) + 8 \<le> 8 * unat (hsize h' (fst r - 8))" if "r \<in> set L" for r
    using H(2) [OF that] unfolding keep [OF that] .
  moreover have "ufree_bytes h' ps' \<union> (ubytes_of h' (p - 8) \<union> (\<Union>r\<in>set L. ublk h r)) = {b..<unat (hbrk h)} \<union> {unat (hbrk h)..<unat (hbrk h')}"
    unfolding H(4) [symmetric] Un_assoc [symmetric] A(5) by (simp only: Un_ac)
  moreover have "ubytes_of h' (p - 8) \<inter> ublk h' r = {}" if "r \<in> set L" for r using dis [OF that] by blast
  ultimately show ?thesis
    unfolding uheld_def using A(1-4) H(5) n by simp
qed

lemma uheld_malloc:
  assumes "uheld lim base b L (uinit base h) ps" "unat n \<le> 2 ^ 31 - 16"
  shows "umalloc lim base n h = Some (0, uinit base h) \<or>
    (\<exists>p h' ps'. umalloc lim base n h = Some (p, h') \<and> uheld lim base b ((p, n) # L) h' ps')"
proof -
  have ok: "uheap_ok lim base (uinit base h) ps" using assms(1) by (simp add: uheld_def)
  show ?thesis
  proof (cases "umalloc lim base n h = Some (0, uinit base h)")
    case False
    then obtain bp h' ps' k where m: "umalloc lim base n h = Some (bp + 8, h')" "ualloc lim base k (uinit base h) ps bp h' ps'"
      "unat n + 8 \<le> 8 * unat k" using umalloc_spec [OF ok assms(2)] by blast
    have "uheld lim base b ((bp + 8, n) # L) h' ps'" by (rule uheld_cons [OF assms(1) _ m(3)]) (use m(2) in simp)
    then show ?thesis using m(1) by blast
  qed simp
qed

lemma uheld_free:
  assumes held: "uheld lim base b (X @ r # Y) h ps"
  shows "\<exists>h' ps'. ufree (fst r) h = Some h' \<and> uheld lim base b (X @ Y) h' ps'"
proof -
  let ?bp = "fst r - 8"
  have H: "uheap_ok lim base h ps" "\<And>r'. r' \<in> set (X @ r # Y) \<Longrightarrow> ublock base h ps (fst r' - 8)"
    "\<And>r'. r' \<in> set (X @ Y) \<Longrightarrow> unat (snd r') + 8 \<le> 8 * unat (hsize h (fst r' - 8))"
    "sorted_wrt (\<lambda>r r'. ublk h r \<inter> ublk h r' = {}) (X @ r # Y)"
    "ufree_bytes h ps \<union> (\<Union>r'\<in>set (X @ r # Y). ublk h r') = {b..<unat (hbrk h)}" "b \<le> unat (hbrk h)"
    using held unfolding uheld_def by auto
  have inv: "uinv base h ps" and blk: "ublock base h ps ?bp" using H(1,2) by (auto simp: uheap_ok_def)
  obtain h' ps' where f: "ufree (fst r) h = Some h'" "ufreed base h ps ?bp h' ps'"
    using ufree_spec [OF inv blk] by auto
  have F: "uinv base h' ps'" "ufree_bytes h' ps' = ufree_bytes h ps \<union> ublk h r" "hbrk h' = hbrk h"
    "\<And>a. a \<notin> set ps \<Longrightarrow> a \<noteq> ?bp \<Longrightarrow> hsize h' a = hsize h a"
    using f(2) unfolding ufreed_def by blast+
  have dis: "ublk h r' \<inter> ublk h r = {}" if "r' \<in> set (X @ Y)" for r' using H(4) that by (auto simp: sorted_wrt_append)
  have keep: "hsize h' (fst r' - 8) = hsize h (fst r' - 8)" if "r' \<in> set (X @ Y)" for r'
  proof (rule F(4))
    have o: "base < fst r' - 8" "unat (fst r' - 8) \<notin> ufree_bytes h ps" "0 < unat (hsize h (fst r' - 8))"
      using ublock_outside [OF H(2) [of r']] H(2) [of r'] that by (auto simp: ublock_def word_less_nat_alt)
    then show "fst r' - 8 \<notin> set ps" using uinv_in_bytes [OF inv] by auto
    have "unat (fst r' - 8) \<in> ublk h r'" using o(3) by simp
    then show "fst r' - 8 \<noteq> ?bp" using dis [OF that] by auto
  qed
  have "ublock base h' ps' (fst r' - 8)" if "r' \<in> set (X @ Y)" for r'
    using H(2) [of r'] dis [OF that] that unfolding ublock_def keep [OF that] F(2,3) by auto
  moreover have "sorted_wrt (\<lambda>r r'. ublk h' r \<inter> ublk h' r' = {}) (X @ Y)"
    by (rule sorted_wrt_mono_rel [where P = "\<lambda>r r'. ublk h r \<inter> ublk h r' = {}"])
      (use H(4) in \<open>auto simp: keep sorted_wrt_append\<close>)
  moreover have u: "(\<Union>r\<in>set (X @ Y). ublk h' r) = (\<Union>r\<in>set (X @ Y). ublk h r)" by (simp only: keep cong: SUP_cong)
  have "ufree_bytes h' ps' \<union> (\<Union>r\<in>set (X @ Y). ublk h' r) = {b..<unat (hbrk h')}"
    unfolding u F(2,3) H(5) [symmetric] by auto
  moreover have "uheap_ok lim base h' ps'" using H(1) F(1,3) by (simp add: uheap_ok_def)
  ultimately have "uheld lim base b (X @ Y) h' ps'" unfolding uheld_def using H(3,6) keep F(3) by simp
  then show ?thesis using f(1) by blast
qed

lemma uheld_region:
  assumes "uheld lim base b L h ps" "r \<in> set L"
  shows "uregion r \<subseteq> ublk h r" "fst r \<noteq> 0" "ublk h r \<subseteq> {b..<unat (hbrk h)}"
proof -
  have r: "unat (fst r - 8) + 8 * unat (hsize h (fst r - 8)) \<le> unat (hbrk h)" "0 < unat (hsize h (fst r - 8))"
    "unat (snd r) + 8 \<le> 8 * unat (hsize h (fst r - 8))"
    using assms unfolding uheld_def ublock_def word_less_nat_alt by auto
  then have "unat (fst r - 8) + 8 < 2 ^ 32" using unat_lt32 [of "hbrk h"] by linarith
  then have u: "unat (fst r) = unat (fst r - 8) + 8" using unat_add_lt [of "fst r - 8" 8] by simp
  then show "fst r \<noteq> 0" by auto
  show "uregion r \<subseteq> ublk h r" using u r(3) by (auto simp: uregion_def)
  show "ublk h r \<subseteq> {b..<unat (hbrk h)}" using assms unfolding uheld_def by blast
qed

lemma uinit_held: "uheld lim base b L h ps \<Longrightarrow> uinit base h = h"
  using uinv_nonnull [of base h ps] by (simp add: uheld_def uheap_ok_def uinit_def)

lemma ucalls_held:
  assumes "uheld lim base b L (uinit base h) ps" "freep h = 0 \<Longrightarrow> L = []" "\<forall>n. Malloc n \<in> set cs \<longrightarrow> unat n \<le> 2 ^ 31 - 16"
  shows "\<exists>L' h' ps'. ucalls lim base cs L h = Some (L', h') \<and> uheld lim base b L' (uinit base h') ps'"
  using assms
proof (induction cs arbitrary: L h ps)
  case (Cons c cs)
  show ?case
  proof (cases c)
    case (Malloc n)
    then consider "umalloc lim base n h = Some (0, uinit base h)"
      | p h' ps' where "umalloc lim base n h = Some (p, h')" "uheld lim base b ((p, n) # L) h' ps'"
      using uheld_malloc [OF Cons.prems(1), of n] Cons.prems(3) by auto
    then show ?thesis
    proof cases
      case 1
      have "uheld lim base b L (uinit base (uinit base h)) ps" using uinit_held [OF Cons.prems(1)] Cons.prems(1) by simp
      moreover have "freep (uinit base h) \<noteq> 0" using Cons.prems(1) uinv_nonnull by (auto simp: uheld_def uheap_ok_def)
      ultimately show ?thesis using Cons.IH [of L "uinit base h" ps] Cons.prems(3) Malloc 1 by simp
    next
      case 2
      have "p \<noteq> 0" using uheld_region(2) [OF 2(2), of "(p, n)"] by simp
      moreover have "freep h' \<noteq> 0" using 2(2) uinv_nonnull by (auto simp: uheld_def uheap_ok_def)
      ultimately show ?thesis
        using Cons.IH [of "(p, n) # L" h' ps'] uinit_held [OF 2(2)] 2 Cons.prems(3) Malloc by simp
    qed
  next
    case (Free i)
    show ?thesis
    proof (cases "i < length L")
      case True
      then have L: "L = take i L @ L ! i # drop (Suc i) L" and h: "uinit base h = h"
        using Cons.prems(2) by (auto simp: id_take_nth_drop uinit_def)
      obtain h' ps' where f: "ufree (fst (L ! i)) h = Some h'" "uheld lim base b (take i L @ drop (Suc i) L) h' ps'"
        using uheld_free [of lim base b "take i L" "L ! i" "drop (Suc i) L" h ps] Cons.prems(1) L h by auto
      moreover have "freep h' \<noteq> 0" using f(2) uinv_nonnull by (auto simp: uheld_def uheap_ok_def)
      ultimately show ?thesis
        using Cons.IH [of "take i L @ drop (Suc i) L" h' ps'] uinit_held [OF f(2)] Cons.prems(3) True Free by simp
    next
      case False
      then show ?thesis using Cons.IH [of L h ps] Cons.prems Free by simp
    qed
  qed
qed auto

lemma uinit_fresh:
  assumes "freep h = 0" "base \<noteq> 0" "base < hbrk h" "unat (hbrk h) \<le> lim" "lim < 2 ^ 31"
  shows "uheld lim base (unat (hbrk h)) [] (uinit base h) [base]"
  using assms by (simp add: uheld_def uheap_ok_def uinv_def uinit_def ufree_bytes_def word_less_nat_alt)

text \<open>C16. Whatever sequence of calls of \<^verbatim>\<open>malloc\<close> and \<^verbatim>\<open>free\<close> a program makes from the start, every call returns. The
  regions it holds at the end are apart from each other and lie in the memory \<^verbatim>\<open>sbrk\<close> has added, and that memory
  is made up of their blocks and those of a free list in which no two blocks overlap or touch.\<close>

theorem malloc_free_sound:
  assumes "freep h = 0" "base \<noteq> 0" "base < hbrk h" "unat (hbrk h) \<le> lim" "lim < 2 ^ 31"
    "\<forall>n. Malloc n \<in> set cs \<longrightarrow> unat n \<le> 2 ^ 31 - 16"
  shows "\<exists>L' h' ps. ucalls lim base cs [] h = Some (L', h')
    \<and> sorted_wrt (\<lambda>r r'. uregion r \<inter> uregion r' = {}) L'
    \<and> (\<forall>r\<in>set L'. uregion r \<subseteq> {unat (hbrk h)..<unat (hbrk h')}) \<and> unat (hbrk h') \<le> lim
    \<and> uinv base (uinit base h') ps
    \<and> ufree_bytes (uinit base h') ps \<union> (\<Union>r\<in>set L'. ubytes_of (uinit base h') (fst r - 8))
      = {unat (hbrk h)..<unat (hbrk h')}"
proof -
  obtain L' h' ps where c: "ucalls lim base cs [] h = Some (L', h')" "uheld lim base (unat (hbrk h)) L' (uinit base h') ps"
    using ucalls_held [OF uinit_fresh [OF assms(1-5)] _ assms(6)] by blast
  note R = uheld_region [OF c(2)]
  have k: "hbrk (uinit base h') = hbrk h'" by (simp add: uinit_def)
  have "sorted_wrt (\<lambda>r r'. ublk (uinit base h') r \<inter> ublk (uinit base h') r' = {}) L'" using c(2) by (simp add: uheld_def)
  then have "sorted_wrt (\<lambda>r r'. uregion r \<inter> uregion r' = {}) L'"
    by (rule sorted_wrt_mono_rel [rotated]) (use R(1) in blast)
  moreover have "\<forall>r\<in>set L'. uregion r \<subseteq> {unat (hbrk h)..<unat (hbrk h')}" using R(1,3) unfolding k by blast
  moreover have "unat (hbrk h') \<le> lim" "uinv base (uinit base h') ps"
    "ufree_bytes (uinit base h') ps \<union> (\<Union>r\<in>set L'. ublk (uinit base h') r) = {unat (hbrk h)..<unat (hbrk h')}"
    using c(2) unfolding uheld_def uheap_ok_def k by blast+
  ultimately show ?thesis using c(1) by blast
qed

definition uheap0 :: uheap where
  "uheap0 = \<lparr>hptr = (\<lambda>_. 0), hsize = (\<lambda>_. 0), freep = 0, hbrk = 0x3000\<rparr>"

theorem malloc_free_sound_witness:
  "\<exists>L' h' ps. ucalls 0xA0000 0x2ff0 [Malloc 5, Malloc 40000, Free 1, Malloc 100, Free 0] [] uheap0 = Some (L', h')
    \<and> sorted_wrt (\<lambda>r r'. uregion r \<inter> uregion r' = {}) L'
    \<and> (\<forall>r\<in>set L'. uregion r \<subseteq> {unat (hbrk uheap0)..<unat (hbrk h')}) \<and> unat (hbrk h') \<le> 0xA0000
    \<and> uinv 0x2ff0 (uinit 0x2ff0 h') ps
    \<and> ufree_bytes (uinit 0x2ff0 h') ps \<union> (\<Union>r\<in>set L'. ubytes_of (uinit 0x2ff0 h') (fst r - 8))
      = {unat (hbrk uheap0)..<unat (hbrk h')}"
  by (rule malloc_free_sound) (auto simp: uheap0_def)

end
