(* ===== verification/Mkfs.thy ===== *)
theory Mkfs
  imports Fs_Inode
begin

text \<open>
  The program that makes the file system image on the host (\<^verbatim>\<open>mkfs.c\<close>). The image is a map from sector numbers
  to bytes with the length of the file in sectors; a failed check of \<^verbatim>\<open>assert\<close> and an \<^verbatim>\<open>exit(1)\<close> are panics.
  The host has the byte order of the target. A file to copy is given by the pieces in which \<^verbatim>\<open>read\<close>
  delivers it, or by \<open>None\<close> if it cannot be opened.

  Shown: on files that fit, the program ends, and the kernel finds in the image the super block, a root
  directory with one entry for every file, in every file the bytes it was made from, and a bitmap in which
  exactly the blocks in use are marked.
\<close>

section \<open>The program\<close>

record mkst =
  img :: "u32 \<Rightarrow> u8 list"
  nsect :: nat
  freeblock :: u32
  usedblocks :: u32
  freeinode :: u32

definition mk_nblocks :: nat where "mk_nblocks = 995"
definition mk_ninodes :: nat where "mk_ninodes = 200"
definition mk_size :: nat where "mk_size = 1024"

definition xshort :: "u16 \<Rightarrow> u16" where
  "xshort x = word16 [ucast x, ucast (drop_bit 8 x)]"

definition xint :: "u32 \<Rightarrow> u32" where
  "xint x = word32 [ucast x, ucast (drop_bit 8 x), ucast (drop_bit 16 x), ucast (drop_bit 24 x)]"

definition zeroes :: "u8 list" where
  "zeroes = replicate 512 0"

definition wsect :: "u32 \<Rightarrow> u8 list \<Rightarrow> (mkst, unit) kop" where
  "wsect sec buf = modify (\<lambda>s. s\<lparr>img := (img s)(sec := buf), nsect := max (nsect s) (unat sec + 1)\<rparr>)"

definition rsect :: "u32 \<Rightarrow> (mkst, u8 list) kop" where
  "rsect sec = bnd (gets nsect) (\<lambda>n. if unat sec < n then gets (\<lambda>s. img s sec) else panic ''read'')"

definition i2b :: "u32 \<Rightarrow> u32" where
  "i2b inum = inum div IPB + 2"

definition winode :: "u32 \<Rightarrow> dinode \<Rightarrow> (mkst, unit) kop" where
  "winode inum ip = bnd (rsect (i2b inum)) (\<lambda>buf. wsect (i2b inum) (put_dinode (dinode_off inum) ip buf))"

definition rinode :: "u32 \<Rightarrow> (mkst, dinode) kop" where
  "rinode inum = bnd (rsect (i2b inum)) (\<lambda>buf. ret (get_dinode buf (dinode_off inum)))"

definition mk_ialloc :: "u16 \<Rightarrow> (mkst, u32) kop" where
  "mk_ialloc type = bnd (gets freeinode) (\<lambda>inum.
     thn (modify (\<lambda>s. s\<lparr>freeinode := freeinode s + 1\<rparr>))
     (thn (winode inum \<lparr>di_type = xshort type, di_major = 0, di_minor = 0, di_nlink = xshort 1, di_size = xint 0,
         di_addrs = replicate (NDIRECT + 1) 0\<rparr>)
     (ret inum)))"

definition mk_balloc :: "u32 \<Rightarrow> (mkst, unit) kop" where
  "mk_balloc n =
    (if sint n < 512 then wsect (of_nat mk_ninodes div IPB + 3) (fold bm_set [0..<nat (sint n)] zeroes)
     else panic ''assert'')"

text \<open>A new block, and the block of a file that \<^verbatim>\<open>iappend\<close> writes next.\<close>

definition mk_alloc :: "(mkst, u32) kop" where
  "mk_alloc = bnd (gets freeblock) (\<lambda>b.
     thn (modify (\<lambda>s. s\<lparr>freeblock := freeblock s + 1, usedblocks := usedblocks s + 1\<rparr>)) (ret b))"

definition mk_addr :: "nat \<Rightarrow> dinode \<Rightarrow> (mkst, dinode) kop" where
  "mk_addr k din =
    (if xint (di_addrs din ! k) = 0
     then bnd mk_alloc (\<lambda>b. ret (din\<lparr>di_addrs := (di_addrs din)[k := xint b]\<rparr>)) else ret din)"

definition mk_block :: "dinode \<Rightarrow> nat \<Rightarrow> (mkst, dinode \<times> u32) kop" where
  "mk_block din fbn =
    (if fbn < NDIRECT then bnd (mk_addr fbn din) (\<lambda>din. ret (din, xint (di_addrs din ! fbn)))
     else bnd (mk_addr NDIRECT din) (\<lambda>din.
       bnd (rsect (xint (di_addrs din ! NDIRECT))) (\<lambda>indirect.
       bnd (if get32 indirect (4 * (fbn - NDIRECT)) = 0
            then bnd mk_alloc (\<lambda>b. let indirect = put32 (4 * (fbn - NDIRECT)) (xint b) indirect in
              thn (wsect (xint (di_addrs din ! NDIRECT)) indirect) (ret indirect))
            else ret indirect) (\<lambda>indirect.
       ret (din, xint (get32 indirect (4 * (fbn - NDIRECT))))))))"

lemma iappend_room:
  fixes off :: u32
  shows "unat ((off div 512 + 1) * 512 - off) = 512 - unat off mod 512" "unat (off - off div 512 * 512) = unat off mod 512"
proof -
  have r: "unat (off mod 512) = unat off mod 512" by (simp add: unat_mod)
  have e: "off = off div 512 * 512 + off mod 512" by (rule div_mult_mod_eq [symmetric])
  then have "off - off div 512 * 512 = off mod 512" by (metis add_diff_cancel_left')
  then show "unat (off - off div 512 * 512) = unat off mod 512" using r by simp
  have q: "(off div 512 + 1) * 512 - off = 512 - off mod 512" by (subst (2) e) (simp add: algebra_simps)
  show "unat ((off div 512 + 1) * 512 - off) = 512 - unat off mod 512"
    unfolding q using unat_sub [of "off mod 512" 512] r by (simp add: word_le_nat_alt less_imp_le)
qed

function iappend_loop :: "dinode \<Rightarrow> u32 \<Rightarrow> u8 list \<Rightarrow> (mkst, dinode \<times> u32) kop" where
  "iappend_loop din off p =
    (if p = [] then ret (din, off)
     else let fbn = off div 512; n1 = min (length p) (unat ((fbn + 1) * 512 - off)) in
       if unat fbn < MAXFILE then
         bnd (mk_block din (unat fbn)) (\<lambda>(din, x).
         bnd (rsect x) (\<lambda>buf.
         thn (wsect x (bsplice buf (unat (off - fbn * 512)) (take n1 p)))
         (iappend_loop din (off + of_nat n1) (drop n1 p))))
       else panic ''assert'')"
  by pat_completeness auto

termination
proof (relation "measure (\<lambda>(din, off, p). length p)")
  fix din and off :: u32 and p :: "u8 list" and fbn n1 ab x y
  assume p: "p \<noteq> []" and d: "fbn = off div 512" "n1 = min (length p) (unat ((fbn + 1) * 512 - off))" "unat fbn < MAXFILE"
  have "0 < unat ((fbn + 1) * 512 - off)" using iappend_room(1) [of off] d(1) mod_less_divisor [of 512 "unat off"] by simp
  then have "0 < n1" using p d(2) by simp
  then show "((y, off + of_nat n1, drop n1 p), din, off, p) \<in> measure (\<lambda>(din, off, p). length p)" using p by simp
qed simp

declare iappend_loop.simps [simp del]

definition iappend :: "u32 \<Rightarrow> u8 list \<Rightarrow> (mkst, unit) kop" where
  "iappend inum p = bnd (rinode inum) (\<lambda>din.
     bnd (iappend_loop din (xint (di_size din)) p) (\<lambda>(din, off).
     winode inum (din\<lparr>di_size := xint off\<rparr>)))"

definition mk_dirent :: "u32 \<Rightarrow> u8 list \<Rightarrow> u8 list" where
  "mk_dirent inum name = dirent_bytes \<lparr>de_inum = xshort (ucast inum), de_name = take DIRSIZ (name @ replicate DIRSIZ 0)\<rparr>"

definition mk_file :: "u8 list \<times> u8 list list option \<Rightarrow> (mkst, unit) kop" where
  "mk_file f =
    (if 47 \<in> set (fst f) then panic ''assert''
     else case snd f of
       None \<Rightarrow> panic ''open''
     | Some pieces \<Rightarrow>
         let name = (if fst f \<noteq> [] \<and> hd (fst f) = 95 then tl (fst f) else fst f) in
         bnd (mk_ialloc T_FILE) (\<lambda>inum.
         thn (iappend ROOTINO (mk_dirent inum name)) (for_each pieces (iappend inum))))"

text \<open>The size of the root directory is rounded up. The super block is written with the 500 bytes that follow it in
  memory.\<close>

definition mk_root_size :: "(mkst, unit) kop" where
  "mk_root_size = bnd (rinode ROOTINO) (\<lambda>din.
     let off = xint (di_size din); off = (off div of_nat BSIZE + 1) * of_nat BSIZE in
     winode ROOTINO (din\<lparr>di_size := xint off\<rparr>))"

definition mk_super :: "u8 list" where
  "mk_super = bytes32 (xint (of_nat mk_size)) @ bytes32 (xint (of_nat mk_nblocks)) @ bytes32 (xint (of_nat mk_ninodes))"

definition mkfs :: "u8 list \<Rightarrow> (u8 list \<times> u8 list list option) list \<Rightarrow> (mkst, unit) kop" where
  "mkfs rest files =
    (if 512 mod DINODE_SIZE \<noteq> 0 \<or> 512 mod DIRENT_SIZE \<noteq> 0 then panic ''assert''
     else let bitblocks = mk_size div (512 * 8) + 1; used = mk_ninodes div unat IPB + 3 + bitblocks in
       thn (modify (\<lambda>s. s\<lparr>usedblocks := of_nat used, freeblock := of_nat used\<rparr>))
       (if mk_nblocks + used \<noteq> mk_size then panic ''assert''
        else thn (for_each [0..<mk_nblocks + used] (\<lambda>i. wsect (of_nat i) zeroes))
          (thn (wsect 1 (mk_super @ rest))
          (bnd (mk_ialloc T_DIR) (\<lambda>rootino.
           if rootino \<noteq> ROOTINO then panic ''assert''
           else seqs
            [iappend rootino (mk_dirent rootino [46]),
             iappend rootino (mk_dirent rootino [46, 46]),
             for_each files mk_file,
             mk_root_size,
             bnd (gets usedblocks) mk_balloc])))))"

definition mkst0 :: mkst where
  "mkst0 = \<lparr>img = (\<lambda>_. zeroes), nsect = 0, freeblock = 0, usedblocks = 0, freeinode = 1\<rparr>"

section \<open>Blocks of files\<close>

lemma xint_id [simp]: "xint x = x" "xshort y = y"
  by (simp_all only: xint_def xshort_def word_bytes flip: bytes32_def bytes16_def)

text \<open>Block \<open>k\<close> of a file in the image; \<open>MAXFILE\<close> stands for the indirect block.\<close>

definition iblk :: "(u32 \<Rightarrow> u8 list) \<Rightarrow> dinode \<Rightarrow> nat \<Rightarrow> u32" where
  "iblk I d k = (if k < NDIRECT then di_addrs d ! k else if k = MAXFILE then di_addrs d ! NDIRECT
     else get32 (I (di_addrs d ! NDIRECT)) (4 * (k - NDIRECT)))"

text \<open>\<open>dn\<close> holds the inodes \<open>1\<close> to \<open>N - 1\<close>, \<open>K\<close> the places in each for which a block has been taken. The blocks taken
  are the ones from 29 to below \<open>fb\<close>, no block is taken twice, the other places hold zero, and so do the blocks
  from \<open>fb\<close> on.\<close>

definition kset :: "nat \<Rightarrow> nat set" where
  "kset n = {..<(n + 511) div 512} \<union> (if NDIRECT * 512 < n then {MAXFILE} else {})"

definition inodes_ok :: "(u32 \<Rightarrow> u8 list) \<Rightarrow> (nat \<Rightarrow> dinode) \<Rightarrow> nat \<Rightarrow> (nat \<Rightarrow> nat set) \<Rightarrow> bool" where
  "inodes_ok I dn N K \<longleftrightarrow> (\<forall>j\<in>{1..<N}. length (di_addrs (dn j)) = NDIRECT + 1 \<and> K j \<subseteq> {..MAXFILE}
     \<and> (\<forall>k\<in>K j. NDIRECT \<le> k \<longrightarrow> MAXFILE \<in> K j)
     \<and> (\<forall>k\<in>{..MAXFILE} - K j. k < NDIRECT \<or> k = MAXFILE \<or> MAXFILE \<in> K j \<longrightarrow> iblk I (dn j) k = 0))"

definition blocks_ok :: "(u32 \<Rightarrow> u8 list) \<Rightarrow> nat \<Rightarrow> (nat \<Rightarrow> dinode) \<Rightarrow> nat \<Rightarrow> (nat \<Rightarrow> nat set) \<Rightarrow> bool" where
  "blocks_ok I fb dn N K \<longleftrightarrow> (\<forall>b. length (I b) = 512) \<and> inodes_ok I dn N K
     \<and> inj_on (\<lambda>(j, k). iblk I (dn j) k) (SIGMA j:{1..<N}. K j)
     \<and> (\<forall>j\<in>{1..<N}. \<forall>k\<in>K j. 29 \<le> unat (iblk I (dn j) k) \<and> unat (iblk I (dn j) k) < fb)
     \<and> (\<forall>b. fb \<le> unat b \<longrightarrow> I b = zeroes)"

lemma get32_zeroes: "k + 4 \<le> 512 \<Longrightarrow> get32 zeroes k = 0"
  by (simp add: get32_def zeroes_def bslice_def word32_def)

text \<open>Taking the block \<open>fb\<close> for place \<open>k\<close> of inode \<open>i\<close>.\<close>

lemma blocks_ok_insert:
  assumes ok: "blocks_ok I fb dn N K" and i: "i \<in> {1..<N}" "k \<notin> K i" and b: "unat b = fb" "29 \<le> fb"
    and new: "iblk I' (dn' i) k = b" and old: "\<And>j k'. j \<in> {1..<N} \<Longrightarrow> k' \<in> K j \<Longrightarrow> iblk I' (dn' j) k' = iblk I (dn j) k'"
    and len: "\<And>b. length (I' b) = 512" and zero: "\<And>b. fb + 1 \<le> unat b \<Longrightarrow> I' b = zeroes"
    and ino: "inodes_ok I' dn' N (K(i := insert k (K i)))"
  shows "blocks_ok I' (fb + 1) dn' N (K(i := insert k (K i)))"
proof -
  let ?f = "\<lambda>(j, k). iblk I (dn j) k" and ?f' = "\<lambda>(j, k). iblk I' (dn' j) k" and ?S = "SIGMA j:{1..<N}. K j"
  have S: "(SIGMA j:{1..<N}. (K(i := insert k (K i))) j) = insert (i, k) ?S" using i by (auto split: if_splits)
  have o: "inj_on ?f ?S" "\<And>j k. j \<in> {1..<N} \<Longrightarrow> k \<in> K j \<Longrightarrow> 29 \<le> unat (iblk I (dn j) k) \<and> unat (iblk I (dn j) k) < fb"
    using ok unfolding blocks_ok_def by blast+
  have eq: "?f' x = ?f x" if "x \<in> ?S" for x using that old by auto
  have "inj_on ?f' ?S" using o(1) inj_on_cong [of ?S ?f' ?f] eq by blast
  moreover have "?f' (i, k) \<notin> ?f' ` ?S"
  proof
    assume "?f' (i, k) \<in> ?f' ` ?S"
    then obtain j k' where "j \<in> {1..<N}" "k' \<in> K j" "b = iblk I (dn j) k'" using new old by auto
    then show False using o(2) [of j k'] b(1) by simp
  qed
  ultimately have "inj_on ?f' (insert (i, k) ?S)" unfolding inj_on_insert by blast
  moreover have "29 \<le> unat (iblk I' (dn' j) k') \<and> unat (iblk I' (dn' j) k') < fb + 1"
    if j: "j \<in> {1..<N}" "k' \<in> (K(i := insert k (K i))) j" for j k'
  proof (cases "j = i \<and> k' = k")
    case False
    then have "k' \<in> K j" using j(2) by (auto split: if_splits)
    with old [OF j(1) this] o(2) [OF j(1) this] show ?thesis by simp
  qed (use new b in auto)
  ultimately show ?thesis unfolding blocks_ok_def S using len zero ino by blast
qed

lemma inodes_ok_insert:
  assumes ok: "inodes_ok I dn N K" and i: "i \<in> {1..<N}" "K i \<subseteq> {..MAXFILE}" and k: "k \<le> MAXFILE" "NDIRECT \<le> k \<Longrightarrow> k \<noteq> MAXFILE \<Longrightarrow> MAXFILE \<in> K i"
    and len: "length (di_addrs (dn' i)) = NDIRECT + 1" and other: "\<And>j. j \<in> {1..<N} \<Longrightarrow> j \<noteq> i \<Longrightarrow> dn' j = dn j"
    and same: "\<And>j k. j \<in> {1..<N} \<Longrightarrow> j \<noteq> i \<Longrightarrow> k < NDIRECT \<or> k = MAXFILE \<or> MAXFILE \<in> K j \<Longrightarrow> iblk I' (dn j) k = iblk I (dn j) k"
    and zero: "\<And>k'. k' \<le> MAXFILE \<Longrightarrow> k' \<notin> insert k (K i) \<Longrightarrow>
      k' < NDIRECT \<or> k' = MAXFILE \<or> MAXFILE \<in> insert k (K i) \<Longrightarrow> iblk I' (dn' i) k' = 0"
  shows "inodes_ok I' dn' N (K(i := insert k (K i)))"
  unfolding inodes_ok_def
proof
  fix j assume j: "j \<in> {1..<N}"
  have o: "length (di_addrs (dn j)) = NDIRECT + 1" "K j \<subseteq> {..MAXFILE}" "\<forall>k\<in>K j. NDIRECT \<le> k \<longrightarrow> MAXFILE \<in> K j"
    "\<forall>k\<in>{..MAXFILE} - K j. k < NDIRECT \<or> k = MAXFILE \<or> MAXFILE \<in> K j \<longrightarrow> iblk I (dn j) k = 0"
    using ok j unfolding inodes_ok_def by blast+
  show "length (di_addrs (dn' j)) = NDIRECT + 1 \<and> (K(i := insert k (K i))) j \<subseteq> {..MAXFILE}
    \<and> (\<forall>x\<in>(K(i := insert k (K i))) j. NDIRECT \<le> x \<longrightarrow> MAXFILE \<in> (K(i := insert k (K i))) j)
    \<and> (\<forall>x\<in>{..MAXFILE} - (K(i := insert k (K i))) j. x < NDIRECT \<or> x = MAXFILE \<or> MAXFILE \<in> (K(i := insert k (K i))) j
        \<longrightarrow> iblk I' (dn' j) x = 0)"
  proof (cases "j = i")
    case True
    then show ?thesis using o(2,3) k len zero by auto
  next
    case False
    then show ?thesis using o other [OF j False] same [OF j False] by auto
  qed
qed

lemma iblk_addr:
  assumes "length (di_addrs d) = NDIRECT + 1" "k < NDIRECT \<or> k = MAXFILE" "a = (if k < NDIRECT then k else NDIRECT)"
  shows "iblk I (d\<lparr>di_addrs := (di_addrs d)[a := b]\<rparr>) k = b"
    "k' \<le> MAXFILE \<Longrightarrow> k' \<noteq> k \<Longrightarrow> k < NDIRECT \<or> k' < NDIRECT \<Longrightarrow>
      iblk I (d\<lparr>di_addrs := (di_addrs d)[a := b]\<rparr>) k' = iblk I d k'"
  using assms by (auto simp: iblk_def MAXFILE_def nth_list_update)

lemma blocks_ok_addr:
  assumes ok: "blocks_ok I fb dn N K" and i: "i \<in> {1..<N}" "k \<notin> K i" and b: "unat b = fb" "29 \<le> fb"
    and k: "k < NDIRECT \<or> k = MAXFILE" and a: "a = (if k < NDIRECT then k else NDIRECT)"
  defines "dn' \<equiv> dn(i := dn i\<lparr>di_addrs := (di_addrs (dn i))[a := b]\<rparr>)"
  shows "blocks_ok I (fb + 1) dn' N (K(i := insert k (K i)))"
    "j \<in> {1..<N} \<Longrightarrow> k' \<in> K j \<Longrightarrow> iblk I (dn' j) k' = iblk I (dn j) k'"
proof -
  have io: "inodes_ok I dn N K" and len: "\<And>b. length (I b) = 512" and zero: "\<And>b. fb \<le> unat b \<Longrightarrow> I b = zeroes"
    using ok unfolding blocks_ok_def by blast+
  have d: "length (di_addrs (dn i)) = NDIRECT + 1" "K i \<subseteq> {..MAXFILE}" "\<And>k. k \<in> K i \<Longrightarrow> NDIRECT \<le> k \<Longrightarrow> MAXFILE \<in> K i"
    "\<And>k. k \<le> MAXFILE \<Longrightarrow> k \<notin> K i \<Longrightarrow> k < NDIRECT \<or> k = MAXFILE \<or> MAXFILE \<in> K i \<Longrightarrow> iblk I (dn i) k = 0"
    using io i(1) unfolding inodes_ok_def by blast+
  note u = iblk_addr [OF d(1) k a]
  have sep: "k < NDIRECT \<or> k' < NDIRECT" if "k' \<in> K i" for k' using d(3) [OF that] i(2) k by (metis not_le)
  show old: "iblk I (dn' j) k' = iblk I (dn j) k'" if "j \<in> {1..<N}" "k' \<in> K j" for j k'
  proof (cases "j = i")
    case True
    then have "k' \<le> MAXFILE" "k' \<noteq> k" "k < NDIRECT \<or> k' < NDIRECT" using that(2) d(2) i(2) sep [of k'] by auto
    then show ?thesis using u(2) True by (simp add: dn'_def)
  qed (simp add: dn'_def)
  have "iblk I (dn' i) k' = 0" if "k' \<le> MAXFILE" "k' \<notin> insert k (K i)"
    "k' < NDIRECT \<or> k' = MAXFILE \<or> MAXFILE \<in> insert k (K i)" for k'
  proof (cases "k = MAXFILE \<and> NDIRECT \<le> k'")
    case True
    then have "iblk I (dn' i) k' = get32 (I b) (4 * (k' - NDIRECT))"
      using that(1,2) d(1) a k unfolding dn'_def by (auto simp: iblk_def MAXFILE_def)
    also have "I b = zeroes" using zero b(1) by simp
    also have "4 * (k' - NDIRECT) + 4 \<le> 512" using True that(1,2) by (auto simp: MAXFILE_def NDIRECT_def NINDIRECT_def)
    note get32_zeroes [OF this]
    finally show ?thesis .
  next
    case False
    then have "iblk I (dn' i) k' = iblk I (dn i) k'" using u(2) [of k'] that k unfolding dn'_def by auto
    also have "\<dots> = 0" by (rule d(4)) (use that False k in auto)
    finally show ?thesis .
  qed
  moreover have "k \<le> MAXFILE" "NDIRECT \<le> k \<Longrightarrow> k = MAXFILE" using k by (auto simp: MAXFILE_def)
  ultimately have "inodes_ok I dn' N (K(i := insert k (K i)))"
    by (intro inodes_ok_insert [OF io i(1) d(2)]) (simp_all add: dn'_def d(1))
  then show "blocks_ok I (fb + 1) dn' N (K(i := insert k (K i)))"
  proof (rule blocks_ok_insert [OF ok i b _ old, rotated -1])
    show "iblk I (dn' i) k = b" using u(1) by (simp add: dn'_def)
  qed (use len zero in auto)
qed

lemma get32_put32:
  assumes "4 * x + 4 \<le> length d" "4 * y + 4 \<le> length d"
  shows "get32 (put32 (4 * x) b d) (4 * y) = (if x = y then b else get32 d (4 * y))"
proof (cases "x = y")
  case False
  then have "4 * y + 4 \<le> 4 * x \<or> 4 * x + 4 \<le> 4 * y" by auto
  then show ?thesis using False bslice_put_other(2) [OF assms(1), of "4 * y" 4 b] by (simp add: get32_def)
qed (use assms in simp)

lemma blocks_ok_entry:
  assumes ok: "blocks_ok I fb dn N K" and i: "i \<in> {1..<N}" "k \<notin> K i" and b: "unat b = fb" "29 \<le> fb"
    and k: "NDIRECT \<le> k" "k < MAXFILE" "MAXFILE \<in> K i"
  defines "p \<equiv> di_addrs (dn i) ! NDIRECT"
  defines "I' \<equiv> I(p := put32 (4 * (k - NDIRECT)) b (I p))"
  shows "blocks_ok I' (fb + 1) dn N (K(i := insert k (K i)))"
    "j \<in> {1..<N} \<Longrightarrow> k' \<in> K j \<Longrightarrow> iblk I' (dn j) k' = iblk I (dn j) k'"
    "j \<in> {1..<N} \<Longrightarrow> k' \<in> K j \<Longrightarrow> k' < MAXFILE \<Longrightarrow> iblk I (dn j) k' \<noteq> p"
proof -
  have io: "inodes_ok I dn N K" and len: "\<And>b. length (I b) = 512" and zero: "\<And>b. fb \<le> unat b \<Longrightarrow> I b = zeroes"
    and inj: "inj_on (\<lambda>(j, k). iblk I (dn j) k) (SIGMA j:{1..<N}. K j)"
    and lt: "\<And>j k. j \<in> {1..<N} \<Longrightarrow> k \<in> K j \<Longrightarrow> unat (iblk I (dn j) k) < fb"
    using ok unfolding blocks_ok_def by blast+
  have d: "length (di_addrs (dn i)) = NDIRECT + 1" "K i \<subseteq> {..MAXFILE}"
    "\<And>k. k \<le> MAXFILE \<Longrightarrow> k \<notin> K i \<Longrightarrow> k < NDIRECT \<or> k = MAXFILE \<or> MAXFILE \<in> K i \<Longrightarrow> iblk I (dn i) k = 0"
    using io i(1) unfolding inodes_ok_def by blast+
  have p: "iblk I (dn i) MAXFILE = p" by (simp add: iblk_def p_def MAXFILE_def)
  have neq: "iblk I (dn j) k' \<noteq> p" if "j \<in> {1..<N}" "k' \<in> K j" "(j, k') \<noteq> (i, MAXFILE)" for j k'
    using inj_onD [OF inj, of "(j, k')" "(i, MAXFILE)"] that i(1) k(3) p by auto
  then show "iblk I (dn j) k' \<noteq> p" if "j \<in> {1..<N}" "k' \<in> K j" "k' < MAXFILE" for j k' using that by auto
  have other: "iblk I' (dn j) k' = iblk I (dn j) k'"
    if "j \<in> {1..<N}" "j \<noteq> i" "k' < NDIRECT \<or> k' = MAXFILE \<or> MAXFILE \<in> K j" for j k'
    using neq [of j MAXFILE] that by (auto simp: iblk_def I'_def MAXFILE_def)
  have here: "iblk I' (dn i) k' = (if k' = k then b else iblk I (dn i) k')" if "k' \<le> MAXFILE" for k'
  proof (cases "NDIRECT \<le> k' \<and> k' < MAXFILE")
    case True
    have e: "iblk J (dn i) k' = get32 (J p) (4 * (k' - NDIRECT))" for J using True by (simp add: iblk_def p_def)
    have "4 * (k - NDIRECT) + 4 \<le> length (I p)" "4 * (k' - NDIRECT) + 4 \<le> length (I p)" "k - NDIRECT = k' - NDIRECT \<longleftrightarrow> k' = k"
      using True k(1,2) len by (auto simp: MAXFILE_def NDIRECT_def NINDIRECT_def)
    then show ?thesis unfolding e I'_def by (simp add: get32_put32)
  next
    case False
    then show ?thesis using k that by (auto simp: iblk_def)
  qed
  show old: "iblk I' (dn j) k' = iblk I (dn j) k'" if "j \<in> {1..<N}" "k' \<in> K j" for j k'
  proof (cases "j = i")
    case True
    then have "k' \<le> MAXFILE" "k' \<noteq> k" using that(2) d(2) i(2) by auto
    then show ?thesis using here True by simp
  next
    case False
    have "NDIRECT \<le> k' \<Longrightarrow> MAXFILE \<in> K j" using io that unfolding inodes_ok_def by blast
    then show ?thesis using other [OF that(1) False, of k'] by (meson not_le)
  qed
  have "inodes_ok I' dn N (K(i := insert k (K i)))"
    by (rule inodes_ok_insert [OF io i(1) d(2)]) (use k other here d in auto)
  moreover have "length (I' x) = 512" for x
    using len k by (simp add: I'_def MAXFILE_def NDIRECT_def NINDIRECT_def)
  moreover have "I' x = zeroes" if "fb + 1 \<le> unat x" for x
    using zero [of x] lt [OF i(1) k(3)] p that by (auto simp: I'_def)
  ultimately show "blocks_ok I' (fb + 1) dn N (K(i := insert k (K i)))"
    by (intro blocks_ok_insert [OF ok i b _ old]) (use here k in auto)
qed

lemma blocks_ok_write:
  assumes ok: "blocks_ok I fb dn N K" and i: "i \<in> {1..<N}" "k \<in> K i" "k < MAXFILE" and l: "length buf = 512"
  defines "I' \<equiv> I(iblk I (dn i) k := buf)"
  shows "blocks_ok I' fb dn N K" "j \<in> {1..<N} \<Longrightarrow> k' \<in> K j \<Longrightarrow> iblk I' (dn j) k' = iblk I (dn j) k'"
    "j \<in> {1..<N} \<Longrightarrow> k' \<in> K j \<Longrightarrow> (j, k') \<noteq> (i, k) \<Longrightarrow> I' (iblk I (dn j) k') = I (iblk I (dn j) k')"
proof -
  let ?x = "iblk I (dn i) k"
  have io: "inodes_ok I dn N K" and len: "\<And>b. length (I b) = 512" and zero: "\<And>b. fb \<le> unat b \<Longrightarrow> I b = zeroes"
    and inj: "inj_on (\<lambda>(j, k). iblk I (dn j) k) (SIGMA j:{1..<N}. K j)"
    and lt: "\<And>j k. j \<in> {1..<N} \<Longrightarrow> k \<in> K j \<Longrightarrow> 29 \<le> unat (iblk I (dn j) k) \<and> unat (iblk I (dn j) k) < fb"
    using ok unfolding blocks_ok_def by blast+
  have neq: "iblk I (dn j) k' \<noteq> ?x" if "j \<in> {1..<N}" "k' \<in> K j" "(j, k') \<noteq> (i, k)" for j k'
    using inj_onD [OF inj, of "(j, k')" "(i, k)"] that i(1,2) by auto
  then show "I' (iblk I (dn j) k') = I (iblk I (dn j) k')" if "j \<in> {1..<N}" "k' \<in> K j" "(j, k') \<noteq> (i, k)" for j k'
    using that by (simp add: I'_def)
  have same: "iblk I' (dn j) k' = iblk I (dn j) k'" if "j \<in> {1..<N}" "k' < NDIRECT \<or> k' = MAXFILE \<or> MAXFILE \<in> K j" for j k'
  proof (cases "k' < NDIRECT \<or> k' = MAXFILE")
    case False
    then have "iblk I (dn j) MAXFILE \<noteq> ?x" using neq [of j MAXFILE] that i(3) by auto
    then show ?thesis using False by (simp add: iblk_def I'_def MAXFILE_def)
  qed (auto simp: iblk_def)
  show old: "iblk I' (dn j) k' = iblk I (dn j) k'" if "j \<in> {1..<N}" "k' \<in> K j" for j k'
  proof (rule same [OF that(1)])
    show "k' < NDIRECT \<or> k' = MAXFILE \<or> MAXFILE \<in> K j" using io that unfolding inodes_ok_def by (meson not_le)
  qed
  have "inodes_ok I' dn N K" using io same unfolding inodes_ok_def by auto
  moreover have "inj_on (\<lambda>(j, k). iblk I' (dn j) k) (SIGMA j:{1..<N}. K j)"
    using inj inj_on_cong [of "SIGMA j:{1..<N}. K j" "\<lambda>(j, k). iblk I' (dn j) k" "\<lambda>(j, k). iblk I (dn j) k"] old by auto
  moreover have "I' b = zeroes" if "fb \<le> unat b" for b using zero [OF that] lt [OF i(1,2)] that by (auto simp: I'_def)
  moreover have "length (I' b) = 512" for b using len l by (simp add: I'_def)
  ultimately show "blocks_ok I' fb dn N K" unfolding blocks_ok_def using old lt by auto
qed

section \<open>Allocation\<close>

definition mk_ok :: "mkst \<Rightarrow> (nat \<Rightarrow> dinode) \<Rightarrow> nat \<Rightarrow> (nat \<Rightarrow> nat set) \<Rightarrow> bool" where
  "mk_ok s dn N K \<longleftrightarrow> blocks_ok (img s) (unat (freeblock s)) dn N K \<and> usedblocks s = freeblock s \<and> nsect s = mk_size
     \<and> unat (freeblock s) = 29 + (\<Sum>j\<in>{1..<N}. card (K j)) \<and> unat (freeblock s) \<le> mk_size"

text \<open>What taking more blocks leaves alone: the blocks taken before and the data in them, and the blocks below 29.\<close>

definition mk_keep :: "nat \<Rightarrow> mkst \<Rightarrow> (nat \<Rightarrow> dinode) \<Rightarrow> (nat \<Rightarrow> nat set) \<Rightarrow> mkst \<Rightarrow> (nat \<Rightarrow> dinode) \<Rightarrow> bool" where
  "mk_keep N s dn K t dn' \<longleftrightarrow> freeinode t = freeinode s \<and> (\<forall>b. unat b < 29 \<longrightarrow> img t b = img s b)
     \<and> (\<forall>j\<in>{1..<N}. \<forall>k\<in>K j. iblk (img t) (dn' j) k = iblk (img s) (dn j) k
         \<and> (k < MAXFILE \<longrightarrow> img t (iblk (img s) (dn j) k) = img s (iblk (img s) (dn j) k)))"

lemma mk_keep_refl [simp]: "mk_keep N s dn K s dn"
  by (simp add: mk_keep_def)

lemma mk_keep_trans:
  assumes "mk_keep N s dn K t dn'" "mk_keep N t dn' K' u dn''" "\<And>j. j \<in> {1..<N} \<Longrightarrow> K j \<subseteq> K' j"
  shows "mk_keep N s dn K u dn''"
proof -
  have "iblk (img u) (dn'' j) k = iblk (img s) (dn j) k
      \<and> (k < MAXFILE \<longrightarrow> img u (iblk (img s) (dn j) k) = img s (iblk (img s) (dn j) k))" if "j \<in> {1..<N}" "k \<in> K j" for j k
  proof -
    have "k \<in> K' j" using assms(3) that by blast
    then have "iblk (img u) (dn'' j) k = iblk (img t) (dn' j) k"
      "k < MAXFILE \<Longrightarrow> img u (iblk (img t) (dn' j) k) = img t (iblk (img t) (dn' j) k)"
      using assms(2) that(1) unfolding mk_keep_def by blast+
    moreover have "iblk (img t) (dn' j) k = iblk (img s) (dn j) k"
      "k < MAXFILE \<Longrightarrow> img t (iblk (img s) (dn j) k) = img s (iblk (img s) (dn j) k)"
      using assms(1) that unfolding mk_keep_def by blast+
    ultimately show ?thesis by simp
  qed
  then show ?thesis using assms(1,2) unfolding mk_keep_def by simp
qed

lemma mk_ok_finite: "mk_ok s dn N K \<Longrightarrow> j \<in> {1..<N} \<Longrightarrow> finite (K j)"
  unfolding mk_ok_def blocks_ok_def inodes_ok_def by (meson finite_atMost finite_subset)

lemma card_insert_sum:
  fixes N :: nat
  assumes "i \<in> {1..<N}" "k \<notin> K i" "finite (K i)"
  shows "(\<Sum>j\<in>{1..<N}. card ((K(i := insert k (K i))) j)) = Suc (\<Sum>j\<in>{1..<N}. card (K j))"
proof -
  have "(\<Sum>j\<in>{1..<N}. card ((K(i := insert k (K i))) j)) = card (insert k (K i)) + (\<Sum>j\<in>{1..<N} - {i}. card (K j))"
    using assms(1) by (subst sum.remove [of _ i]) (auto intro!: sum.cong)
  also have "\<dots> = Suc (card (K i) + (\<Sum>j\<in>{1..<N} - {i}. card (K j)))" using assms(2,3) by simp
  also have "card (K i) + (\<Sum>j\<in>{1..<N} - {i}. card (K j)) = (\<Sum>j\<in>{1..<N}. card (K j))"
    using assms(1) by (subst (2) sum.remove [of _ i]) auto
  finally show ?thesis .
qed

lemma mk_ok_place:
  assumes "mk_ok s dn N K" "i \<in> {1..<N}"
  shows "k \<in> K i \<Longrightarrow> 29 \<le> unat (iblk (img s) (dn i) k) \<and> unat (iblk (img s) (dn i) k) < unat (freeblock s)"
    "k \<le> MAXFILE \<Longrightarrow> k \<notin> K i \<Longrightarrow> k < NDIRECT \<or> k = MAXFILE \<or> MAXFILE \<in> K i \<Longrightarrow> iblk (img s) (dn i) k = 0"
    "length (di_addrs (dn i)) = NDIRECT + 1" "K i \<subseteq> {..MAXFILE}"
  using assms unfolding mk_ok_def blocks_ok_def inodes_ok_def by blast+

lemma mk_ok_insert:
  assumes ok: "mk_ok s dn N K" and i: "i \<in> {1..<N}" "k \<notin> K i" and room: "unat (freeblock s) < mk_size"
    and bl: "blocks_ok I (unat (freeblock s) + 1) dn' N (K(i := insert k (K i)))"
  shows "mk_ok (s\<lparr>freeblock := freeblock s + 1, usedblocks := usedblocks s + 1, img := I\<rparr>) dn' N (K(i := insert k (K i)))"
proof -
  have "unat (freeblock s + 1) = unat (freeblock s) + 1" using room by (simp add: unat_add_lt mk_size_def)
  then show ?thesis
    using ok bl room card_insert_sum [of i N k K, OF i mk_ok_finite [OF ok i(1)]] unfolding mk_ok_def by simp
qed

lemma wp_mk_addr:
  assumes ok: "mk_ok s dn N K" and i: "i \<in> {1..<N}" and k: "k < NDIRECT \<or> k = MAXFILE" and a: "a = (if k < NDIRECT then k else NDIRECT)"
    and room: "unat (freeblock s) + card ({k} - K i) \<le> mk_size"
  shows "wp (mk_addr a (dn i)) (\<lambda>d t. mk_ok t (dn(i := d)) N (K(i := insert k (K i))) \<and> mk_keep N s dn K t (dn(i := d))
    \<and> d = dn i\<lparr>di_addrs := di_addrs d\<rparr> \<and> unat (freeblock t) = unat (freeblock s) + card ({k} - K i)) s"
proof (cases "k \<in> K i")
  have e: "di_addrs (dn i) ! a = iblk (img s) (dn i) k" using k a by (auto simp: iblk_def MAXFILE_def)
  {
    case True
    then have "di_addrs (dn i) ! a \<noteq> 0" using mk_ok_place(1) [OF ok i True] unfolding e by auto
    with True ok show ?thesis by (simp add: mk_addr_def wp insert_absorb)
  next
    case False
    have z: "di_addrs (dn i) ! a = 0" using mk_ok_place(2) [OF ok i, of k] False k unfolding e by (auto simp: MAXFILE_def)
    have "{k} - K i = {k}" using False by auto
    then have r: "unat (freeblock s) < mk_size" "card ({k} - K i) = 1" using room by simp_all
    have f: "29 \<le> unat (freeblock s)" "blocks_ok (img s) (unat (freeblock s)) dn N K" using ok by (auto simp: mk_ok_def)
    note ba = blocks_ok_addr [OF f(2) i False refl f(1) k a]
    have "unat (freeblock s + 1) = unat (freeblock s) + 1" using r(1) by (simp add: unat_add_lt mk_size_def)
    then show ?thesis
      using mk_ok_insert [OF ok i False r(1) ba(1)] ba(2) z r(2)
      by (simp add: mk_addr_def mk_alloc_def wp mk_keep_def)
  }
qed

lemma wp_wsect: "unat sec < nsect s \<Longrightarrow> wp (wsect sec buf) Q s = Q () (s\<lparr>img := (img s)(sec := buf)\<rparr>)"
  by (cases s) (simp add: wsect_def wp max_absorb1)

lemma wp_rsect: "unat sec < nsect s \<Longrightarrow> wp (rsect sec) Q s = Q (img s sec) s"
  by (simp add: rsect_def wp)

definition kadd :: "nat \<Rightarrow> nat set \<Rightarrow> nat set" where
  "kadd fbn A = insert fbn (if fbn < NDIRECT then A else insert MAXFILE A)"

lemma wp_mk_entry:
  assumes ok: "mk_ok s dn N K" and i: "i \<in> {1..<N}" and k: "NDIRECT \<le> k" "k < MAXFILE" "MAXFILE \<in> K i"
    and room: "unat (freeblock s) + card ({k} - K i) \<le> mk_size"
  shows "wp (bnd (rsect (di_addrs (dn i) ! NDIRECT)) (\<lambda>indirect.
       bnd (if get32 indirect (4 * (k - NDIRECT)) = 0
            then bnd mk_alloc (\<lambda>b. let indirect = put32 (4 * (k - NDIRECT)) b indirect in
              thn (wsect (di_addrs (dn i) ! NDIRECT) indirect) (ret indirect))
            else ret indirect) (\<lambda>indirect. ret (dn i, get32 indirect (4 * (k - NDIRECT))))))
     (\<lambda>(d, x) t. d = dn i \<and> x = iblk (img t) d k \<and> mk_ok t dn N (K(i := insert k (K i))) \<and> mk_keep N s dn K t dn
        \<and> unat (freeblock t) = unat (freeblock s) + card ({k} - K i)) s"
proof -
  let ?p = "di_addrs (dn i) ! NDIRECT"
  have p: "iblk (img s) (dn i) MAXFILE = ?p" by (simp add: iblk_def MAXFILE_def)
  have e: "iblk J (dn i) k = get32 (J ?p) (4 * (k - NDIRECT))" for J using k by (simp add: iblk_def)
  have rd: "unat ?p < nsect s" "29 \<le> unat ?p"
    using mk_ok_place(1) [OF ok i k(3)] ok unfolding p mk_ok_def by auto
  have f: "29 \<le> unat (freeblock s)" "blocks_ok (img s) (unat (freeblock s)) dn N K" "nsect s = mk_size" "usedblocks s = freeblock s"
    using ok by (auto simp: mk_ok_def)
  show ?thesis
  proof (cases "k \<in> K i")
    case True
    then have "get32 (img s ?p) (4 * (k - NDIRECT)) \<noteq> 0" using mk_ok_place(1) [OF ok i True] unfolding e by auto
    with True ok rd show ?thesis by (simp add: wp_rsect wp insert_absorb e)
  next
    case False
    have z: "get32 (img s ?p) (4 * (k - NDIRECT)) = 0" using mk_ok_place(2) [OF ok i, of k] False k unfolding e by simp
    have "{k} - K i = {k}" using False by auto
    then have r: "unat (freeblock s) < mk_size" "card ({k} - K i) = 1" using room by simp_all
    note be = blocks_ok_entry [OF f(2) i False refl f(1) k]
    have "unat (freeblock s + 1) = unat (freeblock s) + 1" using r(1) by (simp add: unat_add_lt mk_size_def)
    moreover have "mk_keep N s dn K (s\<lparr>freeblock := freeblock s + 1, usedblocks := usedblocks s + 1,
        img := (img s)(?p := put32 (4 * (k - NDIRECT)) (freeblock s) (img s ?p))\<rparr>) dn"
      using be(2,3) rd(2) unfolding mk_keep_def by auto
    ultimately show ?thesis
      using mk_ok_insert [OF ok i False r(1) be(1)] z r(2) rd f(3,4)
      by (simp add: wp_rsect wp_wsect mk_alloc_def wp Let_def e)
  qed
qed

lemma wp_mk_block:
  assumes ok: "mk_ok s dn N K" and i: "i \<in> {1..<N}" and k: "k < MAXFILE"
    and room: "unat (freeblock s) + card (kadd k (K i) - K i) \<le> mk_size"
  shows "wp (mk_block (dn i) k) (\<lambda>(d, x) t. mk_ok t (dn(i := d)) N (K(i := kadd k (K i))) \<and> mk_keep N s dn K t (dn(i := d))
    \<and> d = dn i\<lparr>di_addrs := di_addrs d\<rparr> \<and> x = iblk (img t) d k) s"
proof (cases "k < NDIRECT")
  case True
  have "kadd k (K i) - K i = {k} - K i" using True by (auto simp: kadd_def)
  then have "wp (mk_addr k (dn i)) (\<lambda>d t. mk_ok t (dn(i := d)) N (K(i := insert k (K i))) \<and> mk_keep N s dn K t (dn(i := d))
    \<and> d = dn i\<lparr>di_addrs := di_addrs d\<rparr> \<and> unat (freeblock t) = unat (freeblock s) + card ({k} - K i)) s"
    using room True by (intro wp_mk_addr [OF ok i]) auto
  then show ?thesis using True unfolding mk_block_def by (simp add: wp kadd_def) (erule wp_mono, simp add: iblk_def)
next
  case False
  have "kadd k (K i) - K i = ({MAXFILE} - K i) \<union> ({k} - insert MAXFILE (K i))" using False k by (auto simp: kadd_def)
  then have c: "card (kadd k (K i) - K i) = card ({MAXFILE} - K i) + card ({k} - insert MAXFILE (K i))"
    by (simp only:) (subst card_Un_disjoint; auto)
  have "wp (mk_addr NDIRECT (dn i)) (\<lambda>d t. mk_ok t (dn(i := d)) N (K(i := insert MAXFILE (K i))) \<and> mk_keep N s dn K t (dn(i := d))
    \<and> d = dn i\<lparr>di_addrs := di_addrs d\<rparr> \<and> unat (freeblock t) = unat (freeblock s) + card ({MAXFILE} - K i)) s"
    using room c by (intro wp_mk_addr [OF ok i]) (auto simp: MAXFILE_def)
  then show ?thesis
    unfolding mk_block_def if_not_P [OF False] xint_id wp_bnd
  proof (rule wp_mono, elim conjE)
    fix d t
    let ?dn = "dn(i := d)" and ?K = "K(i := insert MAXFILE (K i))"
    assume t: "mk_ok t ?dn N ?K" "mk_keep N s dn K t ?dn" "d = dn i\<lparr>di_addrs := di_addrs d\<rparr>"
      "unat (freeblock t) = unat (freeblock s) + card ({MAXFILE} - K i)"
    have "unat (freeblock t) + card ({k} - ?K i) \<le> mk_size" using room c t(4) by simp
    then have "unat (freeblock t) + card ({k} - insert MAXFILE (K i)) \<le> mk_size" by simp
    note en = wp_mk_entry [OF t(1) i, unfolded fun_upd_same wp_bnd, OF _ k _ this]
    show "wp (rsect (di_addrs d ! NDIRECT)) (\<lambda>a. wp (if get32 a (4 * (k - NDIRECT)) = 0
          then bnd mk_alloc (\<lambda>b. let indirect = put32 (4 * (k - NDIRECT)) b a
            in thn (wsect (di_addrs d ! NDIRECT) indirect) (ret indirect)) else ret a)
        (\<lambda>a. wp (ret (d, get32 a (4 * (k - NDIRECT)))) (\<lambda>(d, x) t. mk_ok t (dn(i := d)) N (K(i := kadd k (K i)))
           \<and> mk_keep N s dn K t (dn(i := d)) \<and> d = dn i\<lparr>di_addrs := di_addrs d\<rparr> \<and> x = iblk (img t) d k))) t"
    proof (rule wp_mono [OF en], goal_cases)
      case (3 a u)
      show ?case
        by (rule wp_mono [OF 3]; rule wp_mono)
          (use False t(2,3) in \<open>auto simp: kadd_def wp intro: mk_keep_trans\<close>)
    qed (use False in simp_all)
  qed
qed

section \<open>Appending\<close>

definition mk_data :: "(u32 \<Rightarrow> u8 list) \<Rightarrow> dinode \<Rightarrow> u8 list \<Rightarrow> bool" where
  "mk_data I d c \<longleftrightarrow> (\<forall>n<length c. I (iblk I d (n div 512)) ! (n mod 512) = c ! n)"

text \<open>\<open>C\<close> holds the contents of the inodes.\<close>

definition mk_fs :: "mkst \<Rightarrow> (nat \<Rightarrow> dinode) \<Rightarrow> nat \<Rightarrow> (nat \<Rightarrow> u8 list) \<Rightarrow> bool" where
  "mk_fs s dn N C \<longleftrightarrow> mk_ok s dn N (\<lambda>j. kset (length (C j))) \<and> (\<forall>j\<in>{1..<N}. mk_data (img s) (dn j) (C j))"

lemma kset_mem: "n < len \<Longrightarrow> n div 512 \<in> kset len"
proof -
  assume "n < len"
  then have "(n + 512) div 512 \<le> (len + 511) div 512" by (intro div_le_mono) simp
  then have "n div 512 < (len + 511) div 512" by simp
  then show ?thesis by (simp add: kset_def)
qed

lemma block_split:
  obtains f r :: nat where "len = 512 * f + r" "r < 512" "len div 512 = f" "len mod 512 = r"
  using that [of "len div 512" "len mod 512"] by simp

lemma block_same: "len \<le> n \<Longrightarrow> n < len + (512 - len mod 512) \<Longrightarrow> n div 512 = len div (512 :: nat)"
  by (rule block_split [of len]) (auto intro: div_nat_eqI)

lemma kset_add:
  assumes "0 < q" "q \<le> 512 - len mod 512"
  shows "kset (len + q) = kadd (len div 512) (kset len)"
proof -
  obtain f r where e: "len = 512 * f + r" "r < 512" "len div 512 = f" "len mod 512 = r" by (rule block_split)
  have "(len + q + 511) div 512 = f + 1" by (rule div_nat_eqI) (use assms e in auto)
  moreover have "(len + 511) div 512 = (if r = 0 then f else f + 1)" by (rule div_nat_eqI) (use e in auto)
  then have "insert f {..<(len + 511) div 512} = {..<f + 1}" by auto
  moreover have "NDIRECT * 512 < len + q \<longleftrightarrow> \<not> f < NDIRECT" using assms e unfolding NDIRECT_def by auto
  moreover have "NDIRECT * 512 < len \<Longrightarrow> \<not> f < NDIRECT" using e unfolding NDIRECT_def by auto
  ultimately show ?thesis unfolding kset_def kadd_def e(3) by (auto simp: insert_commute)
qed

lemma bsplice_nth:
  assumes "off + length q \<le> length d" "m < length d"
  shows "bsplice d off q ! m = (if m < off then d ! m else if m < off + length q then q ! (m - off) else d ! m)"
  using assms by (auto simp: bsplice_def nth_append)

lemma mk_data_append:
  assumes ok: "blocks_ok I fb dn N K" and i: "i \<in> {1..<N}" and c: "mk_data I (dn i) c" "\<forall>n<length c. n div 512 \<in> K i"
    and f: "f = length c div 512" "f \<in> K i" "f < MAXFILE" and q: "length q \<le> 512 - length c mod 512"
  defines "I' \<equiv> I(iblk I (dn i) f := bsplice (I (iblk I (dn i) f)) (length c mod 512) q)"
  shows "mk_data I' (dn i) (c @ q)"
    "j \<in> {1..<N} \<Longrightarrow> j \<noteq> i \<Longrightarrow> mk_data I (dn j) c' \<Longrightarrow> \<forall>n<length c'. n div 512 \<in> K j \<Longrightarrow> mk_data I' (dn j) c'"
    "blocks_ok I' fb dn N K"
proof -
  let ?x = "iblk I (dn i) f"
  have len: "length (I ?x) = 512" using ok by (simp add: blocks_ok_def)
  have r: "length c mod 512 + length q \<le> length (I ?x)" using q len mod_less_divisor [of 512 "length c"] by linarith
  then have "length (bsplice (I ?x) (length c mod 512) q) = 512" using len by simp
  note w = blocks_ok_write [OF ok i f(2,3) this, folded I'_def]
  show "blocks_ok I' fb dn N K" by (rule w(1))
  show "mk_data I' (dn j) c'" if "j \<in> {1..<N}" "j \<noteq> i" "mk_data I (dn j) c'" "\<forall>n<length c'. n div 512 \<in> K j" for j c'
    using that w(2,3) unfolding mk_data_def by simp
  have "I' (iblk I' (dn i) (n div 512)) ! (n mod 512) = (c @ q) ! n" if n: "n < length (c @ q)" for n
  proof (cases "n div 512 = f")
    case True
    have e: "n = f * 512 + n mod 512" "length c = f * 512 + length c mod 512" using True f(1) by (metis div_mult_mod_eq)+
    have "I' (iblk I' (dn i) (n div 512)) ! (n mod 512) = bsplice (I ?x) (length c mod 512) q ! (n mod 512)"
      unfolding True w(2) [OF i f(2)] by (simp add: I'_def)
    also have "\<dots> = (c @ q) ! n"
    proof (cases "n < length c")
      case less: True
      then have "n mod 512 < length c mod 512" using e by linarith
      moreover have "I ?x ! (n mod 512) = c ! n" using c(1) less unfolding mk_data_def True [symmetric] by simp
      ultimately show ?thesis using bsplice_nth [OF r, of "n mod 512"] len less by (simp add: nth_append)
    next
      case ge: False
      then have "\<not> n mod 512 < length c mod 512" "n mod 512 < length c mod 512 + length q" "n mod 512 - length c mod 512 = n - length c"
        using e n by auto
      then show ?thesis using bsplice_nth [OF r, of "n mod 512"] len ge by (simp add: nth_append)
    qed
    finally show ?thesis .
  next
    case False
    have "n < length c"
    proof (rule ccontr)
      assume "\<not> n < length c"
      then have "n div 512 = length c div 512" using n q by (intro block_same) auto
      then show False using False f(1) by simp
    qed
    moreover from this have k: "n div 512 \<in> K i" using c(2) by blast
    ultimately show ?thesis using False c(1) w(2) [OF i k] w(3) [OF i k] by (simp add: mk_data_def nth_append)
  qed
  then show "mk_data I' (dn i) (c @ q)" by (simp add: mk_data_def)
qed

lemma card_upd_sum:
  fixes N :: nat
  assumes "i \<in> {1..<N}" "K i \<subseteq> A" "finite A"
  shows "(\<Sum>j\<in>{1..<N}. card ((K(i := A)) j)) = (\<Sum>j\<in>{1..<N}. card (K j)) + card (A - K i)"
proof -
  have "(\<Sum>j\<in>{1..<N}. card ((K(i := A)) j)) = card A + (\<Sum>j\<in>{1..<N} - {i}. card (K j))"
    using assms(1) by (subst sum.remove [of _ i]) (auto intro!: sum.cong)
  moreover have "(\<Sum>j\<in>{1..<N}. card (K j)) = card (K i) + (\<Sum>j\<in>{1..<N} - {i}. card (K j))"
    using assms(1) by (subst sum.remove [of _ i]) auto
  moreover have "card A = card (K i) + card (A - K i)"
    using assms(2,3) by (metis card_Diff_subset card_mono finite_subset le_add_diff_inverse)
  ultimately show ?thesis by simp
qed

lemma finite_kset [simp]: "finite (kset n)"
  by (simp add: kset_def)

lemma kadd_more: "A \<subseteq> kadd k A"
  by (auto simp: kadd_def)

text \<open>The number of blocks all files take.\<close>

definition mk_need :: "nat \<Rightarrow> (nat \<Rightarrow> u8 list) \<Rightarrow> nat" where
  "mk_need N C = 29 + (\<Sum>j\<in>{1..<N}. card (kset (length (C j))))"

lemma mk_keep_data:
  assumes "mk_keep N s dn K t dn'" "j \<in> {1..<N}" "mk_data (img s) (dn j) c" "\<And>n. n < length c \<Longrightarrow> n div 512 \<in> K j"
    "length c \<le> MAXFILE * 512"
  shows "mk_data (img t) (dn' j) c"
  unfolding mk_data_def
proof (intro allI impI)
  fix n assume n: "n < length c"
  then have "n div 512 < MAXFILE" using assms(5) by (simp add: less_mult_imp_div_less)
  then show "img t (iblk (img t) (dn' j) (n div 512)) ! (n mod 512) = c ! n"
    using assms(1-3) assms(4) [OF n] n unfolding mk_keep_def mk_data_def by simp
qed

lemma mk_round_write:
  fixes C :: "nat \<Rightarrow> u8 list" and f i
  defines "K \<equiv> (\<lambda>j. kset (length (C j)))(i := kadd f (kset (length (C i))))"
  assumes ok: "mk_ok t dn N K" and i: "i \<in> {1..<N}" and dt: "\<forall>j\<in>{1..<N}. mk_data (img t) (dn j) (C j)"
    and f: "f = length (C i) div 512" "f < MAXFILE" and q: "q \<noteq> []" "length q \<le> 512 - length (C i) mod 512"
  shows "wp (rsect (iblk (img t) (dn i) f)) (\<lambda>buf. wp (wsect (iblk (img t) (dn i) f) (bsplice buf (length (C i) mod 512) q))
     (\<lambda>_ u. mk_fs u dn N (C(i := C i @ q)) \<and> freeinode u = freeinode t \<and> (\<forall>b. unat b < 29 \<longrightarrow> img u b = img t b))) t"
proof -
  let ?x = "iblk (img t) (dn i) f"
  have fi: "f \<in> K i" by (simp add: K_def kadd_def)
  have rd: "unat ?x < nsect t" "29 \<le> unat ?x" using mk_ok_place(1) [OF ok i fi] ok unfolding mk_ok_def by linarith+
  have bl: "blocks_ok (img t) (unat (freeblock t)) dn N K" using ok unfolding mk_ok_def by blast
  have km: "\<forall>n<length (C j). n div 512 \<in> K j" for j
    using kset_mem [of _ "length (C j)"] kadd_more by (auto simp: K_def)
  note ap = mk_data_append [OF bl i bspec [OF dt i] km f(1) fi f(2) q(2)]
  let ?u = "t\<lparr>img := (img t)(?x := bsplice (img t ?x) (length (C i) mod 512) q)\<rparr>"
  have "kset (length ((C(i := C i @ q)) j)) = K j" for j
    using kset_add [of "length q" "length (C i)"] q f(1) by (simp add: K_def)
  then have "mk_ok ?u dn N (\<lambda>j. kset (length ((C(i := C i @ q)) j)))" using ok ap(3) unfolding mk_ok_def by simp
  moreover have "mk_data (img ?u) (dn j) ((C(i := C i @ q)) j)" if "j \<in> {1..<N}" for j
    using ap(1) ap(2) [OF that _ bspec [OF dt that] km] by (cases "j = i") simp_all
  ultimately have "mk_fs ?u dn N (C(i := C i @ q))" by (simp add: mk_fs_def)
  then show ?thesis using rd by (auto simp: wp_rsect wp_wsect)
qed

lemma mk_round:
  assumes fs: "mk_fs s dn N C" and i: "i \<in> {1..<N}" and q: "q \<noteq> []" "length q \<le> 512 - length (C i) mod 512"
    and f: "f = length (C i) div 512" "f < MAXFILE" and room: "mk_need N (C(i := C i @ q)) \<le> mk_size"
    and sz: "\<And>j. j \<in> {1..<N} \<Longrightarrow> length (C j) \<le> MAXFILE * 512"
  shows "wp (mk_block (dn i) f) (\<lambda>(d, x). wp (rsect x) (\<lambda>buf. wp (wsect x (bsplice buf (length (C i) mod 512) q))
     (\<lambda>_ t. mk_fs t (dn(i := d)) N (C(i := C i @ q)) \<and> freeinode t = freeinode s
        \<and> (\<forall>b. unat b < 29 \<longrightarrow> img t b = img s b) \<and> d = dn i\<lparr>di_addrs := di_addrs d\<rparr>))) s"
proof -
  let ?K = "\<lambda>j. kset (length (C j))" and ?C = "C(i := C i @ q)"
  have ok: "mk_ok s dn N ?K" and dat: "\<And>j. j \<in> {1..<N} \<Longrightarrow> mk_data (img s) (dn j) (C j)" using fs by (auto simp: mk_fs_def)
  have ka: "kadd f (?K i) = kset (length (C i @ q))" unfolding f(1) using kset_add [of "length q" "length (C i)"] q by simp
  have Kj: "kset (length (?C j)) = (?K(i := kadd f (?K i))) j" for j using ka by simp
  have K: "(\<lambda>j. kset (length (?C j))) = ?K(i := kadd f (?K i))" by (rule ext) (rule Kj)
  have "(\<Sum>j\<in>{1..<N}. card ((?K(i := kadd f (?K i))) j)) = (\<Sum>j\<in>{1..<N}. card (?K j)) + card (kadd f (?K i) - ?K i)"
    by (rule card_upd_sum [OF i kadd_more]) (simp add: ka)
  then have "unat (freeblock s) + card (kadd f (?K i) - ?K i) \<le> mk_size"
    using room ok unfolding mk_need_def mk_ok_def Kj by simp
  from wp_mk_block [OF ok i f(2) this] show ?thesis
  proof (rule wp_mono, goal_cases)
    case (1 r t)
    obtain d x where r: "r = (d, x)" by (cases r)
    have t: "mk_ok t (dn(i := d)) N (?K(i := kadd f (?K i)))" "mk_keep N s dn ?K t (dn(i := d))" "d = dn i\<lparr>di_addrs := di_addrs d\<rparr>"
      "x = iblk (img t) d f" using 1 unfolding r by simp_all
    have dt: "\<forall>j\<in>{1..<N}. mk_data (img t) ((dn(i := d)) j) (C j)"
      using mk_keep_data [OF t(2) _ dat kset_mem sz] by blast
    have k: "freeinode t = freeinode s" "\<forall>b. unat b < 29 \<longrightarrow> img t b = img s b" using t(2) unfolding mk_keep_def by blast+
    from mk_round_write [where dn = "dn(i := d)", OF t(1) i dt f q, unfolded fun_upd_same] show ?case
      unfolding r t(4) prod.case k(1) using k(2) t(3)
      by - (erule wp_mono, erule wp_mono, simp)
  qed
qed

lemma mk_need_mono:
  assumes "i \<in> {1..<N}" "length c \<le> length c'"
  shows "mk_need N (C(i := c)) \<le> mk_need N (C(i := c'))"
  unfolding mk_need_def using assms(2)
  by (intro add_left_mono sum_mono card_mono) (auto simp: kset_def intro: div_le_mono less_le_trans)

lemma same_trans:
  "d = e\<lparr>di_addrs := di_addrs d\<rparr> \<Longrightarrow> x = d\<lparr>di_addrs := di_addrs x\<rparr> \<Longrightarrow> x = e\<lparr>di_addrs := di_addrs (x :: dinode)\<rparr>"
  by (cases d; cases e; cases x) simp

lemma iappend_loop_step:
  assumes "p \<noteq> []" "unat off div 512 < MAXFILE"
  defines "n1 \<equiv> min (length p) (512 - unat off mod 512)"
  shows "iappend_loop d off p = bnd (mk_block d (unat off div 512)) (\<lambda>(d, x).
       bnd (rsect x) (\<lambda>buf. thn (wsect x (bsplice buf (unat off mod 512) (take n1 p)))
       (iappend_loop d (off + of_nat n1) (drop n1 p))))"
    "0 < n1" "n1 \<le> length p" "n1 \<le> 512 - unat off mod 512"
proof -
  show "iappend_loop d off p = bnd (mk_block d (unat off div 512)) (\<lambda>(d, x).
       bnd (rsect x) (\<lambda>buf. thn (wsect x (bsplice buf (unat off mod 512) (take n1 p)))
       (iappend_loop d (off + of_nat n1) (drop n1 p))))"
    using assms(1,2) iappend_room [of off]
    by (subst iappend_loop.simps) (simp add: Let_def unat_div n1_def distrib_right)
qed (use assms(1) in \<open>auto simp: n1_def\<close>)

definition mk_appended :: "mkst \<Rightarrow> (nat \<Rightarrow> dinode) \<Rightarrow> nat \<Rightarrow> (nat \<Rightarrow> u8 list) \<Rightarrow> nat \<Rightarrow> u8 list \<Rightarrow> dinode \<Rightarrow> mkst \<Rightarrow> bool" where
  "mk_appended s dn N C i p d t \<longleftrightarrow> mk_fs t (dn(i := d)) N (C(i := C i @ p)) \<and> freeinode t = freeinode s
     \<and> (\<forall>b. unat b < 29 \<longrightarrow> img t b = img s b) \<and> d = dn i\<lparr>di_addrs := di_addrs d\<rparr>"

lemma mk_appended_trans:
  "mk_appended s dn N C i p d t \<Longrightarrow> mk_appended t (dn(i := d)) N (C(i := C i @ p)) i p' d' u
   \<Longrightarrow> mk_appended s dn N C i (p @ p') d' u"
  unfolding mk_appended_def using same_trans [of d "dn i" d'] by auto

lemma iappend_loop_spec:
  assumes "mk_fs s dn N C" "i \<in> {1..<N}" "unat off = length (C i)" "length (C i @ p) \<le> MAXFILE * 512"
    "mk_need N (C(i := C i @ p)) \<le> mk_size" "\<forall>j\<in>{1..<N}. length (C j) \<le> MAXFILE * 512"
  shows "wp (iappend_loop (dn i) off p) (\<lambda>(d, off') t. mk_appended s dn N C i p d t \<and> unat off' = length (C i @ p)) s"
  using assms
proof (induction "length p" arbitrary: p dn off C s rule: less_induct)
  case less
  show ?case
  proof (cases "p = []")
    case True
    then show ?thesis using less.prems by (simp add: iappend_loop.simps wp mk_appended_def)
  next
    case False
    have lt: "unat off div 512 < MAXFILE"
      using less.prems(3,4) False by (intro less_mult_imp_div_less) (cases p; simp)
    define n1 where "n1 = min (length p) (512 - unat off mod 512)"
    note st = iappend_loop_step [OF False lt, folded n1_def]
    let ?q = "take n1 p" and ?C = "C(i := C i @ take n1 p)"
    have room: "mk_need N ?C \<le> mk_size" using mk_need_mono [OF less.prems(2), of "C i @ take n1 p" "C i @ p" C] less.prems(5) by simp
    have q: "?q \<noteq> []" "length ?q \<le> 512 - length (C i) mod 512" using st(2-4) False less.prems(3) by auto
    have go: "wp (iappend_loop d (off + of_nat n1) (drop n1 p))
        (\<lambda>(d, off') t. mk_appended s dn N C i p d t \<and> unat off' = length (C i @ p)) u" if u: "mk_appended s dn N C i ?q d u" for d u
    proof -
      have "unat (off + of_nat n1) = length (?C i)"
        using less.prems(3,4) st(3) by (subst unat_add_of_nat) (auto simp: MAXFILE_def NDIRECT_def NINDIRECT_def)
      moreover have "mk_fs u (dn(i := d)) N ?C" "length (drop n1 p) < length p" "\<forall>j\<in>{1..<N}. length (?C j) \<le> MAXFILE * 512"
        using u st(2) False less.prems(4,6) by (auto simp: mk_appended_def)
      ultimately have "wp (iappend_loop ((dn(i := d)) i) (off + of_nat n1) (drop n1 p)) (\<lambda>(d', off') t.
          mk_appended u (dn(i := d)) N ?C i (drop n1 p) d' t \<and> unat off' = length (?C i @ drop n1 p)) u"
        using less.hyps [of "drop n1 p" u "dn(i := d)" ?C "off + of_nat n1"] less.prems(2,4,5) by simp
      then show ?thesis
        unfolding fun_upd_same by (rule wp_mono) (use mk_appended_trans [OF u, where p' = "drop n1 p"] in \<open>auto split: prod.splits\<close>)
    qed
    have sz: "\<And>j. j \<in> {1..<N} \<Longrightarrow> length (C j) \<le> MAXFILE * 512" using less.prems(6) by blast
    have "wp (mk_block (dn i) (unat off div 512)) (\<lambda>(d, x). wp (rsect x) (\<lambda>buf. wp (wsect x (bsplice buf (unat off mod 512) ?q))
        (\<lambda>_ t. mk_appended s dn N C i ?q d t))) s"
      unfolding less.prems(3) mk_appended_def by (rule mk_round [OF less.prems(1,2) q refl _ room sz]) (use lt less.prems(3) in simp_all)
    then show ?thesis
      unfolding st(1) wp_bnd
      by (rule wp_mono) (auto simp: wp split: prod.splits elim!: wp_mono intro: go [unfolded length_append])
  qed
qed

text \<open>Inodes on the disk: the blocks 2 to 27.\<close>

lemma i2b_low:
  assumes "j < 208"
  shows "unat (i2b (of_nat j)) = j div 8 + 2" "dinode_off (of_nat j) = j mod 8 * 64"
proof -
  have j: "unat (of_nat j :: u32) = j" using assms by (simp add: unat_of_nat)
  have "unat ((of_nat j :: u32) div 8) = j div 8" using j by (simp add: unat_div)
  moreover from this have "unat ((of_nat j :: u32) div 8) + unat (2 :: u32) < 2 ^ 32" using assms by simp
  ultimately show "unat (i2b (of_nat j)) = j div 8 + 2" by (simp add: i2b_def IPB_def unat_add_lt)
  show "dinode_off (of_nat j) = j mod 8 * 64" using j by (simp add: dinode_off_def IPB_def DINODE_SIZE_def unat_mod)
qed

definition mk_inode :: "(u32 \<Rightarrow> u8 list) \<Rightarrow> nat \<Rightarrow> dinode" where
  "mk_inode I j = get_dinode (I (i2b (of_nat j))) (dinode_off (of_nat j))"

lemma wp_rinode: "j < 208 \<Longrightarrow> nsect s = mk_size \<Longrightarrow> wp (rinode (of_nat j)) Q s = Q (mk_inode (img s) j) s"
  using i2b_low(1) [of j] by (simp add: rinode_def wp wp_rsect mk_inode_def mk_size_def)

lemma wp_winode:
  assumes j: "j < 208" and s: "nsect s = mk_size" "\<And>b. length (img s b) = 512" and d: "length (di_addrs d) = NDIRECT + 1"
  shows "wp (winode (of_nat j) d) (\<lambda>_ t. \<exists>I. t = s\<lparr>img := I\<rparr> \<and> mk_inode I j = d \<and> (\<forall>j'<208. j' \<noteq> j \<longrightarrow> mk_inode I j' = mk_inode (img s) j')
     \<and> (\<forall>b. unat b < 2 \<or> 28 \<le> unat b \<longrightarrow> I b = img s b) \<and> (\<forall>b. length (I b) = 512)) s"
proof -
  let ?b = "i2b (of_nat j)" and ?o = "dinode_off (of_nat j)"
  note u = i2b_low [OF j]
  have room: "?o + DINODE_SIZE \<le> length (img s ?b)" using u(2) s(2) mod_less_divisor [of 8 j] by (simp add: DINODE_SIZE_def)
  note pd = put_dinode [OF room d]
  let ?I = "(img s)(?b := put_dinode ?o d (img s ?b))"
  have "mk_inode ?I j' = mk_inode (img s) j'" if "j' < 208" "j' \<noteq> j" for j'
  proof (cases "i2b (of_nat j') = ?b")
    case True
    then have "j' div 8 = j div 8" using i2b_low(1) [OF that(1)] u(1) by simp
    then have "j' mod 8 \<noteq> j mod 8" using that(2) by (metis div_mult_mod_eq)
    then have "j' mod 8 * 64 + 64 \<le> ?o \<or> ?o + 64 \<le> j' mod 8 * 64" unfolding u(2) by arith
    then show ?thesis
      unfolding mk_inode_def True i2b_low(2) [OF that(1)] fun_upd_same
      by (intro get_dinode_cong pd(3)) (auto simp: DINODE_SIZE_def)
  qed (simp add: mk_inode_def)
  moreover have "unat ?b < nsect s" "2 \<le> unat ?b" "unat ?b < 28" using u(1) j s(1) by (simp_all add: mk_size_def)
  ultimately show ?thesis
    using pd(1,2) s(2) by (auto simp: winode_def wp wp_rsect wp_wsect mk_inode_def intro!: exI [of _ ?I])
qed

section \<open>The file system between two steps\<close>

lemma iblk_high:
  assumes "\<forall>b. 29 \<le> unat b \<longrightarrow> J b = I b" "di_addrs d' = di_addrs d" "k < NDIRECT \<or> k = MAXFILE \<or> 29 \<le> unat (iblk I d MAXFILE)"
  shows "iblk J d' k = iblk I d k"
  using assms by (auto simp: iblk_def MAXFILE_def)

lemma blocks_ok_cong:
  assumes ok: "blocks_ok I fb dn N K" and J: "\<forall>b. 29 \<le> unat b \<longrightarrow> J b = I b" "\<forall>b. length (J b) = 512" and fb: "29 \<le> fb"
    and d: "\<forall>j\<in>{1..<N}. di_addrs (dn' j) = di_addrs (dn j)"
  shows "blocks_ok J fb dn' N K" "j \<in> {1..<N} \<Longrightarrow> k \<in> K j \<Longrightarrow> iblk J (dn' j) k = iblk I (dn j) k"
    "j \<in> {1..<N} \<Longrightarrow> k \<in> K j \<Longrightarrow> J (iblk I (dn j) k) = I (iblk I (dn j) k)"
proof -
  have o: "inodes_ok I dn N K" "inj_on (\<lambda>(j, k). iblk I (dn j) k) (SIGMA j:{1..<N}. K j)"
    "\<And>j k. j \<in> {1..<N} \<Longrightarrow> k \<in> K j \<Longrightarrow> 29 \<le> unat (iblk I (dn j) k) \<and> unat (iblk I (dn j) k) < fb"
    "\<And>b. fb \<le> unat b \<Longrightarrow> I b = zeroes"
    using ok unfolding blocks_ok_def by blast+
  have e: "iblk J (dn' j) k = iblk I (dn j) k" if "j \<in> {1..<N}" "k < NDIRECT \<or> k = MAXFILE \<or> MAXFILE \<in> K j" for j k
    using iblk_high [OF J(1) bspec [OF d that(1)], of k] o(3) [OF that(1), of MAXFILE] that(2) by blast
  show old: "iblk J (dn' j) k = iblk I (dn j) k" if "j \<in> {1..<N}" "k \<in> K j" for j k
  proof (rule e [OF that(1)])
    show "k < NDIRECT \<or> k = MAXFILE \<or> MAXFILE \<in> K j" using o(1) that unfolding inodes_ok_def by (meson not_le)
  qed
  show "J (iblk I (dn j) k) = I (iblk I (dn j) k)" if "j \<in> {1..<N}" "k \<in> K j" for j k
    using J(1) o(3) [OF that] by simp
  have "inodes_ok J dn' N K" using o(1) e d unfolding inodes_ok_def by auto
  moreover have "inj_on (\<lambda>(j, k). iblk J (dn' j) k) (SIGMA j:{1..<N}. K j)"
    using o(2) inj_on_cong [of "SIGMA j:{1..<N}. K j" "\<lambda>(j, k). iblk J (dn' j) k" "\<lambda>(j, k). iblk I (dn j) k"] old by auto
  ultimately show "blocks_ok J fb dn' N K" unfolding blocks_ok_def using J o(3,4) old fb by auto
qed

lemma mk_fs_cong:
  assumes fs: "mk_fs s dn N C" and J: "\<forall>b. 29 \<le> unat b \<longrightarrow> J b = img s b" "\<forall>b. length (J b) = 512"
    and d: "\<forall>j\<in>{1..<N}. di_addrs (dn' j) = di_addrs (dn j)"
  shows "mk_fs (s\<lparr>img := J\<rparr>) dn' N C"
proof -
  let ?K = "\<lambda>j. kset (length (C j))"
  have o: "blocks_ok (img s) (unat (freeblock s)) dn N ?K" "29 \<le> unat (freeblock s)" using fs by (auto simp: mk_fs_def mk_ok_def)
  note c = blocks_ok_cong [OF o(1) J o(2) d]
  have "mk_ok (s\<lparr>img := J\<rparr>) dn' N ?K" using fs c(1) by (simp add: mk_fs_def mk_ok_def)
  moreover have "mk_data J (dn' j) (C j)" if "j \<in> {1..<N}" for j
    using fs that c(2) [OF that kset_mem] c(3) [OF that kset_mem] unfolding mk_fs_def mk_data_def by simp
  ultimately show ?thesis by (simp add: mk_fs_def)
qed

text \<open>\<open>N - 1\<close> inodes have been made; \<open>C\<close> and \<open>ty\<close> are their contents and types.\<close>

definition mk_sys :: "u8 list \<Rightarrow> mkst \<Rightarrow> nat \<Rightarrow> (nat \<Rightarrow> u8 list) \<Rightarrow> (nat \<Rightarrow> u16) \<Rightarrow> bool" where
  "mk_sys sb s N C ty \<longleftrightarrow> mk_fs s (mk_inode (img s)) N C \<and> freeinode s = of_nat N \<and> 1 \<le> N \<and> N \<le> 200 \<and> img s 1 = sb \<and> img s 28 = zeroes
     \<and> (\<forall>j\<in>{1..<N}. di_type (mk_inode (img s) j) = ty j \<and> di_nlink (mk_inode (img s) j) = 1
          \<and> unat (di_size (mk_inode (img s) j)) = length (C j) \<and> length (C j) \<le> MAXFILE * 512)"

lemma mk_inode_low: "j < 208 \<Longrightarrow> (\<And>b. unat b < 29 \<Longrightarrow> J b = I b) \<Longrightarrow> mk_inode J j = mk_inode I j"
  using i2b_low(1) [of j] by (simp add: mk_inode_def)

lemma mk_fs_parts:
  assumes "mk_fs s dn N C"
  shows "nsect s = mk_size" "\<And>b. length (img s b) = 512" "\<And>j. j \<in> {1..<N} \<Longrightarrow> length (di_addrs (dn j)) = NDIRECT + 1"
    "unat (freeblock s) = mk_need N C" "usedblocks s = freeblock s" "unat (freeblock s) \<le> mk_size"
  using assms unfolding mk_fs_def mk_ok_def blocks_ok_def inodes_ok_def mk_need_def by auto

lemma iappend_spec:
  assumes sys: "mk_sys sb s N C ty" and i: "i \<in> {1..<N}" and p: "length (C i @ p) \<le> MAXFILE * 512"
    and room: "mk_need N (C(i := C i @ p)) \<le> mk_size"
  shows "wp (iappend (of_nat i) p) (\<lambda>_ t. mk_sys sb t N (C(i := C i @ p)) ty) s"
proof -
  let ?dn = "mk_inode (img s)" and ?C = "C(i := C i @ p)"
  have S: "mk_fs s ?dn N C" "N \<le> 200" "unat (di_size (?dn i)) = length (C i)" "\<forall>j\<in>{1..<N}. length (C j) \<le> MAXFILE * 512"
    using sys i by (auto simp: mk_sys_def)
  have i208: "i < 208" using i S(2) by auto
  have loop: "wp (iappend_loop (?dn i) (di_size (?dn i)) p) (\<lambda>(d, off') t. mk_appended s ?dn N C i p d t \<and> unat off' = length (C i @ p)) s"
    by (rule iappend_loop_spec [OF S(1) i S(3) p room S(4)])
  have fin: "wp (winode (of_nat i) (d\<lparr>di_size := off'\<rparr>)) (\<lambda>_ u. mk_sys sb u N ?C ty) t"
    if t: "mk_appended s ?dn N C i p d t" "unat off' = length (C i @ p)" for d off' t
  proof -
    have T: "mk_fs t (?dn(i := d)) N ?C" "freeinode t = freeinode s" "\<And>b. unat b < 29 \<Longrightarrow> img t b = img s b"
      "d = ?dn i\<lparr>di_addrs := di_addrs d\<rparr>" using t(1) unfolding mk_appended_def by blast+
    note P = mk_fs_parts [OF T(1)]
    have low: "mk_inode (img t) j = ?dn j" if "j < 208" for j by (rule mk_inode_low [OF that T(3)])
    have "length (di_addrs (d\<lparr>di_size := off'\<rparr>)) = NDIRECT + 1" using P(3) [OF i] by simp
    from wp_winode [OF i208 P(1,2) this] show ?thesis
    proof (rule wp_mono, clarify)
      fix I assume I: "mk_inode I i = d\<lparr>di_size := off'\<rparr>" "\<forall>j'<208. j' \<noteq> i \<longrightarrow> mk_inode I j' = mk_inode (img t) j'"
        "\<forall>b. unat b < 2 \<or> 28 \<le> unat b \<longrightarrow> I b = img t b" "\<forall>b. length (I b) = 512"
      have in': "mk_inode I j = (if j = i then d\<lparr>di_size := off'\<rparr> else ?dn j)" if "j \<in> {1..<N}" for j
        using I(1,2) low [of j] that S(2) by auto
      have "mk_fs (t\<lparr>img := I\<rparr>) (mk_inode I) N ?C"
        by (rule mk_fs_cong [OF T(1)]) (use I(3,4) in' in auto)
      moreover have "I 1 = sb" "I 28 = zeroes" using I(3) T(3) [of 1] T(3) [of 28] sys by (auto simp: mk_sys_def)
      moreover have "di_type d = di_type (?dn i)" "di_nlink d = di_nlink (?dn i)" using T(4) by (metis dinode.select_convs dinode.surjective dinode.update_convs)+
      ultimately show "mk_sys sb (t\<lparr>img := I\<rparr>) N ?C ty"
        using sys T(2) t(2) p i in' unfolding mk_sys_def by auto
    qed
  qed
  have "nsect s = mk_size" by (rule mk_fs_parts(1) [OF S(1)])
  then show ?thesis
    unfolding iappend_def wp_bnd wp_rinode [OF i208 \<open>nsect s = mk_size\<close>] xint_id
    by - (rule wp_mono [OF loop], use fin in \<open>auto split: prod.splits\<close>)
qed

lemma kset_0 [simp]: "kset 0 = {}"
  by (simp add: kset_def)

lemma mk_fs_extend:
  assumes fs: "mk_fs s dn N C" and N: "1 \<le> N" and d: "di_addrs (dn N) = replicate (NDIRECT + 1) 0"
  shows "mk_fs s dn (Suc N) (C(N := []))"
proof -
  let ?K = "\<lambda>j. kset (length (C j))" and ?K' = "\<lambda>j. kset (length ((C(N := [])) j))"
  have ok: "blocks_ok (img s) (unat (freeblock s)) dn N ?K" using fs unfolding mk_fs_def mk_ok_def by blast
  have S: "(SIGMA j:{1..<Suc N}. ?K' j) = (SIGMA j:{1..<N}. ?K j)" using N by (auto simp: less_Suc_eq split: if_splits)
  have j: "{1..<Suc N} = insert N {1..<N}" using N by auto
  have "iblk (img s) (dn N) k = 0" if "k \<le> MAXFILE" "k < NDIRECT \<or> k = MAXFILE" for k
    using d that by (auto simp: iblk_def MAXFILE_def NDIRECT_def nth_Cons')
  then have "inodes_ok (img s) dn (Suc N) ?K'"
    using ok d unfolding blocks_ok_def inodes_ok_def j by auto
  then have "blocks_ok (img s) (unat (freeblock s)) dn (Suc N) ?K'"
    using ok unfolding blocks_ok_def S by (auto simp: less_Suc_eq)
  moreover have "(\<Sum>j\<in>{1..<Suc N}. card (?K' j)) = (\<Sum>j\<in>{1..<N}. card (?K j))" unfolding j by (auto intro: sum.cong)
  ultimately have "mk_ok s dn (Suc N) ?K'" using fs unfolding mk_fs_def mk_ok_def by simp
  moreover have "\<forall>j\<in>{1..<Suc N}. mk_data (img s) (dn j) ((C(N := [])) j)" using fs unfolding mk_fs_def j by (auto simp: mk_data_def)
  ultimately show ?thesis by (simp add: mk_fs_def)
qed

lemma mk_fs_freeinode [simp]: "mk_fs (s\<lparr>freeinode := n\<rparr>) dn N C = mk_fs s dn N C"
  by (simp add: mk_fs_def mk_ok_def)

lemma mk_ialloc_spec:
  assumes sys: "mk_sys sb s N C ty" and N: "N < 200"
  shows "wp (mk_ialloc type) (\<lambda>r t. r = of_nat N \<and> mk_sys sb t (Suc N) (C(N := [])) (ty(N := type))) s"
proof -
  let ?d = "\<lparr>di_type = type, di_major = 0, di_minor = 0, di_nlink = 1, di_size = 0, di_addrs = replicate (NDIRECT + 1) 0\<rparr>"
  let ?s = "s\<lparr>freeinode := freeinode s + 1\<rparr>"
  have S: "mk_fs s (mk_inode (img s)) N C" "freeinode s = of_nat N" "1 \<le> N" using sys by (auto simp: mk_sys_def)
  note P = mk_fs_parts [OF S(1)]
  have fs: "mk_fs ?s (mk_inode (img s)) N C" using S(1) by simp
  have n: "N < 208" "nsect ?s = mk_size" "\<And>b. length (img ?s b) = 512" "length (di_addrs ?d) = NDIRECT + 1" using N P(1,2) by simp_all
  have "wp (winode (of_nat N) ?d) (\<lambda>_ t. mk_sys sb t (Suc N) (C(N := [])) (ty(N := type))) ?s"
    using wp_winode [OF n]
  proof (rule wp_mono, clarify)
    fix I assume I: "mk_inode I N = ?d" "\<forall>j'<208. j' \<noteq> N \<longrightarrow> mk_inode I j' = mk_inode (img ?s) j'"
      "\<forall>b. unat b < 2 \<or> 28 \<le> unat b \<longrightarrow> I b = img ?s b" "\<forall>b. length (I b) = 512"
    have e: "mk_inode I j = mk_inode (img s) j" if "j \<in> {1..<N}" for j using I(2) that N by auto
    have "mk_fs (?s\<lparr>img := I\<rparr>) (mk_inode I) N C" by (rule mk_fs_cong [OF fs]) (use I(3,4) e in auto)
    then have "mk_fs (?s\<lparr>img := I\<rparr>) (mk_inode I) (Suc N) (C(N := []))" by (rule mk_fs_extend) (use S(3) I(1) in auto)
    moreover have "I 1 = sb" "I 28 = zeroes" using I(3) sys by (auto simp: mk_sys_def)
    moreover have "freeinode (?s\<lparr>img := I\<rparr>) = of_nat (Suc N)" using S(2) by simp
    ultimately show "mk_sys sb (?s\<lparr>img := I\<rparr>) (Suc N) (C(N := [])) (ty(N := type))"
      using sys N I(1) e unfolding mk_sys_def by (auto simp: less_Suc_eq)
  qed
  then show ?thesis using S(2) by (simp add: mk_ialloc_def wp)
qed

lemma kset_mono: "a \<le> b \<Longrightarrow> kset a \<subseteq> kset b"
  using div_le_mono [of "a + 511" "b + 511" 512] unfolding kset_def by auto

lemma mk_need_more:
  assumes "\<And>j. j \<in> {1..<N} \<Longrightarrow> length (C j) \<le> length (C' j)" "N \<le> N'"
  shows "mk_need N C \<le> mk_need N' C'"
proof -
  have "(\<Sum>j\<in>{1..<N}. card (kset (length (C j)))) \<le> (\<Sum>j\<in>{1..<N}. card (kset (length (C' j))))"
    by (intro sum_mono card_mono kset_mono assms(1)) simp_all
  also have "\<dots> \<le> (\<Sum>j\<in>{1..<N'}. card (kset (length (C' j))))" using assms(2) by (intro sum_mono2) auto
  finally show ?thesis by (simp add: mk_need_def)
qed

lemma mk_pieces_spec:
  assumes "mk_sys sb s N C ty" "i \<in> {1..<N}" "length (C i @ concat ps) \<le> MAXFILE * 512" "mk_need N (C(i := C i @ concat ps)) \<le> mk_size"
  shows "wp (for_each ps (iappend (of_nat i))) (\<lambda>_ t. mk_sys sb t N (C(i := C i @ concat ps)) ty) s"
  using assms
proof (induction ps arbitrary: s C)
  case (Cons p ps)
  have "mk_need N (C(i := C i @ p)) \<le> mk_need N (C(i := C i @ concat (p # ps)))" by (rule mk_need_more) auto
  then have "wp (iappend (of_nat i) p) (\<lambda>_ t. mk_sys sb t N (C(i := C i @ p)) ty) s"
    using Cons.prems by (intro iappend_spec) (auto simp del: fun_upd_apply)
  then show ?case
    unfolding wp_for_each_Cons
  proof (rule wp_mono)
    fix t assume "mk_sys sb t N (C(i := C i @ p)) ty"
    from Cons.IH [OF this] Cons.prems show "wp (for_each ps (iappend (of_nat i))) (\<lambda>_ t. mk_sys sb t N (C(i := C i @ concat (p # ps))) ty) t"
      by (simp del: fun_upd_apply add: fun_upd_same)
  qed
qed (simp add: wp fun_upd_idem)

section \<open>The image\<close>

text \<open>The name under which a file is entered and the bytes it is made from.\<close>

definition mk_entry_name :: "u8 list \<times> u8 list list option \<Rightarrow> u8 list" where
  "mk_entry_name f = (if fst f \<noteq> [] \<and> hd (fst f) = 95 then tl (fst f) else fst f)"

definition mk_bytes :: "u8 list \<times> u8 list list option \<Rightarrow> u8 list" where
  "mk_bytes f = concat (case snd f of None \<Rightarrow> [] | Some ps \<Rightarrow> ps)"

definition mk_input_ok :: "u8 list \<times> u8 list list option \<Rightarrow> bool" where
  "mk_input_ok f \<longleftrightarrow> 47 \<notin> set (fst f) \<and> snd f \<noteq> None \<and> length (mk_bytes f) \<le> MAXFILE * 512"

text \<open>The contents of the inodes once the files have been added, the first of them as inode \<open>N\<close>.\<close>

fun mk_add :: "nat \<Rightarrow> (u8 list \<times> u8 list list option) list \<Rightarrow> (nat \<Rightarrow> u8 list) \<Rightarrow> nat \<Rightarrow> u8 list" where
  "mk_add N [] C = C"
| "mk_add N (f # fs) C = mk_add (Suc N) fs (C(1 := C 1 @ mk_dirent (of_nat N) (mk_entry_name f), N := mk_bytes f))"

fun mk_ty :: "nat \<Rightarrow> (u8 list \<times> u8 list list option) list \<Rightarrow> (nat \<Rightarrow> u16) \<Rightarrow> nat \<Rightarrow> u16" where
  "mk_ty N [] ty = ty"
| "mk_ty N (f # fs) ty = mk_ty (Suc N) fs (ty(N := T_FILE))"

lemma length_mk_dirent [simp]: "length (mk_dirent i n) = 16"
  by (simp add: mk_dirent_def dirent_bytes_def DIRSIZ_def)

lemma mk_add_grows: "2 \<le> N \<Longrightarrow> j < N \<Longrightarrow> length (C j) \<le> length (mk_add N fs C j)"
proof (induction fs arbitrary: N C)
  case (Cons f fs)
  have "length (C j) \<le> length ((C(1 := C 1 @ mk_dirent (of_nat N) (mk_entry_name f), N := mk_bytes f)) j)" using Cons.prems by simp
  also have "\<dots> \<le> length (mk_add N (f # fs) C j)" unfolding mk_add.simps by (rule Cons.IH) (use Cons.prems in auto)
  finally show ?case .
qed simp

lemma mk_file_spec:
  assumes sys: "mk_sys sb s N C ty" and N: "2 \<le> N" "N < 200" and f: "mk_input_ok f" and d: "length (C 1) + 16 \<le> MAXFILE * 512"
    and room: "mk_need (Suc N) (C(1 := C 1 @ mk_dirent (of_nat N) (mk_entry_name f), N := mk_bytes f)) \<le> mk_size"
  shows "wp (mk_file f) (\<lambda>_ t. mk_sys sb t (Suc N) (C(1 := C 1 @ mk_dirent (of_nat N) (mk_entry_name f), N := mk_bytes f)) (ty(N := T_FILE))) s"
proof -
  obtain ps where ps: "snd f = Some ps" "mk_bytes f = concat ps" using f by (auto simp: mk_input_ok_def mk_bytes_def)
  let ?e = "mk_dirent (of_nat N) (mk_entry_name f)" and ?ty = "ty(N := T_FILE)" and ?Q = "\<lambda>C. \<lambda>_ t. mk_sys sb t (Suc N) C (ty(N := T_FILE))"
  define C1 where "C1 = C(N := [])"
  define C2 where "C2 = C1(1 := C1 1 @ ?e)"
  define C3 where "C3 = C2(N := C2 N @ concat ps)"
  have C3: "C(1 := C 1 @ ?e, N := mk_bytes f) = C3" using N(1) ps(2) by (auto simp: C1_def C2_def C3_def)
  have r2: "mk_need (Suc N) C2 \<le> mk_size"
  proof (rule order_trans [OF mk_need_more])
    show "length (C2 j) \<le> length (C3 j)" if "j \<in> {1..<Suc N}" for j by (simp add: C3_def)
  qed (use room C3 in simp_all)
  have a: "wp (iappend ROOTINO ?e) (?Q C2) t" if "mk_sys sb t (Suc N) C1 ?ty" for t
  proof -
    have "length (C1 1 @ ?e) \<le> MAXFILE * 512" "1 \<in> {1..<Suc N}" using d N by (simp_all add: C1_def)
    then have "wp (iappend (of_nat 1) ?e) (?Q (C1(1 := C1 1 @ ?e))) t"
      by (intro iappend_spec [OF that]) (use r2 C2_def in simp_all)
    then show ?thesis by (simp add: ROOTINO_def C2_def)
  qed
  have b: "wp (for_each ps (iappend (of_nat N))) (?Q C3) t" if "mk_sys sb t (Suc N) C2 ?ty" for t
    unfolding C3_def by (rule mk_pieces_spec [OF that])
      (use N f ps(2) room C3 in \<open>auto simp: C3_def [symmetric] mk_input_ok_def\<close>, simp add: C2_def C1_def)
  have "wp (mk_ialloc T_FILE) (\<lambda>r t. r = of_nat N \<and> mk_sys sb t (Suc N) C1 ?ty) s"
    unfolding C1_def by (rule mk_ialloc_spec [OF sys N(2)])
  then show ?thesis
    unfolding C3 using f ps(1)
    by (simp add: mk_file_def mk_input_ok_def mk_entry_name_def [symmetric] wp Let_def)
      (erule wp_mono, auto intro!: wp_mono [OF a] b)
qed

lemma mk_files_spec:
  assumes "mk_sys sb s N C ty" "2 \<le> N" "N + length fs \<le> 200" "\<forall>f\<in>set fs. mk_input_ok f"
    "length (C 1) + 16 * length fs \<le> MAXFILE * 512" "mk_need (N + length fs) (mk_add N fs C) \<le> mk_size"
  shows "wp (for_each fs mk_file) (\<lambda>_ t. mk_sys sb t (N + length fs) (mk_add N fs C) (mk_ty N fs ty)) s"
  using assms
proof (induction fs arbitrary: s N C ty)
  case (Cons f fs)
  define D where "D = C(1 := C 1 @ mk_dirent (of_nat N) (mk_entry_name f), N := mk_bytes f)"
  define T where "T = ty(N := T_FILE)"
  have D: "length (D 1) = length (C 1) + 16" using Cons.prems(2) by (simp add: D_def)
  have m: "mk_add N (f # fs) C = mk_add (Suc N) fs D" "mk_ty N (f # fs) ty = mk_ty (Suc N) fs T" by (simp_all add: D_def T_def)
  have "mk_need (Suc N) D \<le> mk_need (N + length (f # fs)) (mk_add (Suc N) fs D)"
  proof (rule mk_need_more)
    show "length (D j) \<le> length (mk_add (Suc N) fs D j)" if "j \<in> {1..<Suc N}" for j
      using mk_add_grows [of "Suc N" j D fs] that Cons.prems(2) by simp
  qed simp
  also have "\<dots> \<le> mk_size" using Cons.prems(6) m by simp
  finally have "wp (mk_file f) (\<lambda>_ t. mk_sys sb t (Suc N) D T) s"
    unfolding D_def T_def using Cons.prems by (intro mk_file_spec) (auto simp del: fun_upd_apply)
  then show ?case
    unfolding wp_for_each_Cons m
  proof (rule wp_mono)
    fix t assume t: "mk_sys sb t (Suc N) D T"
    show "wp (for_each fs mk_file) (\<lambda>_ t. mk_sys sb t (N + length (f # fs)) (mk_add (Suc N) fs D) (mk_ty (Suc N) fs T)) t"
      using Cons.IH [OF t] Cons.prems(2-6) D m by simp
  qed
qed (simp add: wp)

lemma mk_add_root: "2 \<le> N \<Longrightarrow> mk_add N fs C 1 = C 1 @ concat (map (\<lambda>k. mk_dirent (of_nat (N + k)) (mk_entry_name (fs ! k))) [0..<length fs])"
proof (induction fs arbitrary: N C)
  case (Cons f fs)
  define D where "D = C(1 := C 1 @ mk_dirent (of_nat N) (mk_entry_name f), N := mk_bytes f)"
  have "mk_add N (f # fs) C 1 = mk_add (Suc N) fs D 1" by (simp add: D_def)
  also have "\<dots> = D 1 @ concat (map (\<lambda>k. mk_dirent (of_nat (Suc N + k)) (mk_entry_name (fs ! k))) [0..<length fs])"
    using Cons.prems by (intro Cons.IH) simp
  also have "D 1 = C 1 @ mk_dirent (of_nat N) (mk_entry_name f)" using Cons.prems by (simp add: D_def)
  finally show ?case unfolding length_Cons upt_conv_Cons [OF zero_less_Suc] map_Suc_upt [symmetric] by (simp add: o_def add_ac del: upt_Suc)
qed simp

lemma mk_add_other: "j < N \<Longrightarrow> j \<noteq> 1 \<Longrightarrow> mk_add N fs C j = C j \<and> mk_ty N fs ty j = ty j"
  by (induction fs arbitrary: N C ty) auto

lemma mk_ty_root: "2 \<le> N \<Longrightarrow> mk_ty N fs ty 1 = ty 1"
  by (induction fs arbitrary: N ty) auto

lemma mk_add_file: "2 \<le> N \<Longrightarrow> k < length fs \<Longrightarrow> mk_add N fs C (N + k) = mk_bytes (fs ! k) \<and> mk_ty N fs ty (N + k) = T_FILE"
proof (induction fs arbitrary: N C ty k)
  case (Cons f fs)
  show ?case
  proof (cases k)
    case 0
    then show ?thesis using Cons.prems mk_add_other [of N "Suc N"] by simp
  next
    case (Suc m)
    then show ?thesis using Cons.prems Cons.IH [of "Suc N" m] by simp
  qed
qed simp

lemma fold_bm_set:
  assumes "n \<le> 4096"
  shows "length (fold bm_set [0..<n] zeroes) = 512 \<and> (\<forall>b<4096. bm_test (fold bm_set [0..<n] zeroes) b \<longleftrightarrow> b < n)"
  using assms
proof (induction n)
  case 0
  have "\<not> bm_test zeroes b" if "b < 4096" for b
    using that by (simp add: bm_test_def zeroes_def less_mult_imp_div_less)
  then show ?case by (simp add: zeroes_def)
next
  case (Suc n)
  then have IH: "length (fold bm_set [0..<n] zeroes) = 512" "\<And>b. b < 4096 \<Longrightarrow> bm_test (fold bm_set [0..<n] zeroes) b \<longleftrightarrow> b < n" by auto
  have r: "n < 8 * length (fold bm_set [0..<n] zeroes)" using Suc.prems IH(1) by simp
  have "bm_test (bm_set n (fold bm_set [0..<n] zeroes)) b \<longleftrightarrow> b < Suc n" if "b < 4096" for b
    using bm_upd_same(1) [OF r] bm_upd_other(1) [OF r, of b] IH(2) [OF that] by (cases "b = n") auto
  then show ?case using IH(1) by simp
qed

lemma mk_root_size_spec:
  assumes sys: "mk_sys sb s N C ty" and N: "2 \<le> N" and C: "length (C 1) < MAXFILE * 512"
  shows "wp mk_root_size (\<lambda>_ t. mk_fs t (mk_inode (img t)) N C \<and> img t 1 = sb
     \<and> (\<forall>j\<in>{1..<N}. di_type (mk_inode (img t) j) = ty j \<and> di_nlink (mk_inode (img t) j) = 1
        \<and> unat (di_size (mk_inode (img t) j)) = (if j = 1 then (length (C j) div 512 + 1) * 512 else length (C j)))) s"
proof -
  let ?d = "mk_inode (img s) 1" and ?n = "(di_size (mk_inode (img s) 1) div of_nat BSIZE + 1) * of_nat BSIZE :: u32"
  have S: "mk_fs s (mk_inode (img s)) N C" "N \<le> 200" "unat (di_size ?d) = length (C 1)" using sys N by (auto simp: mk_sys_def)
  note P = mk_fs_parts [OF S(1)]
  have lt: "length (C 1) div 512 < 140" using C by (intro less_mult_imp_div_less) (simp add: MAXFILE_def NDIRECT_def NINDIRECT_def)
  have d: "unat (di_size ?d div of_nat BSIZE) = length (C 1) div 512" using S(3) by (simp add: BSIZE_def unat_div)
  then have e: "unat (di_size ?d div of_nat BSIZE + 1) = length (C 1) div 512 + 1" using lt by (simp add: unat_add_lt)
  then have n: "unat ?n = (length (C 1) div 512 + 1) * 512"
    using lt unat_mult_lem [of "di_size ?d div of_nat BSIZE + 1" "of_nat BSIZE :: u32"] by (simp add: BSIZE_def)
  have l: "length (di_addrs (?d\<lparr>di_size := ?n\<rparr>)) = NDIRECT + 1" using P(3) [of 1] N by simp
  have r: "ROOTINO = of_nat 1" by (simp add: ROOTINO_def)
  have "wp (winode (of_nat 1) (?d\<lparr>di_size := ?n\<rparr>)) (\<lambda>_ t. mk_fs t (mk_inode (img t)) N C \<and> img t 1 = sb
     \<and> (\<forall>j\<in>{1..<N}. di_type (mk_inode (img t) j) = ty j \<and> di_nlink (mk_inode (img t) j) = 1
        \<and> unat (di_size (mk_inode (img t) j)) = (if j = 1 then (length (C j) div 512 + 1) * 512 else length (C j)))) s"
    using wp_winode [OF _ P(1,2) l]
  proof (rule wp_mono, simp, clarify)
    fix I assume I: "mk_inode I 1 = ?d\<lparr>di_size := ?n\<rparr>" "\<forall>j'<208. j' \<noteq> 1 \<longrightarrow> mk_inode I j' = mk_inode (img s) j'"
      "\<forall>b. unat b < 2 \<or> 28 \<le> unat b \<longrightarrow> I b = img s b" "\<forall>b. length (I b) = 512"
    have e: "mk_inode I j = (if j = 1 then ?d\<lparr>di_size := ?n\<rparr> else mk_inode (img s) j)" if "j \<in> {1..<N}" for j
      using I(1,2) that S(2) by auto
    have "mk_fs (s\<lparr>img := I\<rparr>) (mk_inode I) N C" by (rule mk_fs_cong [OF S(1)]) (use I(3,4) e in auto)
    moreover have "I 1 = sb" using I(3) sys by (auto simp: mk_sys_def)
    ultimately show "mk_fs (s\<lparr>img := I\<rparr>) (mk_inode (img (s\<lparr>img := I\<rparr>))) N C \<and> img (s\<lparr>img := I\<rparr>) 1 = sb
      \<and> (\<forall>j\<in>{1..<N}. di_type (mk_inode (img (s\<lparr>img := I\<rparr>)) j) = ty j \<and> di_nlink (mk_inode (img (s\<lparr>img := I\<rparr>)) j) = 1
        \<and> unat (di_size (mk_inode (img (s\<lparr>img := I\<rparr>)) j)) = (if j = 1 then (length (C j) div 512 + 1) * 512 else length (C j)))"
      using sys e n unfolding mk_sys_def by auto
  qed
  moreover have c: "(1 :: nat) < 208" by simp
  ultimately show ?thesis
    unfolding mk_root_size_def wp_bnd r wp_rinode [OF c P(1)] Let_def xint_id by blast
qed

section \<open>What the kernel finds\<close>

definition mk_disk :: "mkst \<Rightarrow> u32 \<times> u32 \<Rightarrow> u8 list" where
  "mk_disk t = (\<lambda>(dev, b). img t b)"

definition mk_ino :: "mkst \<Rightarrow> nat \<Rightarrow> inode" where
  "mk_ino t j = \<lparr>i_dev = ROOTDEV, i_inum = of_nat j, i_ref = 1, i_flags = I_VALID, i_d = disk_inode (mk_disk t) ROOTDEV (of_nat j)\<rparr>"

definition mk_contents :: "(u8 list \<times> u8 list list option) list \<Rightarrow> nat \<Rightarrow> u8 list" where
  "mk_contents files j =
    (if j = 1 then mk_dirent ROOTINO [46] @ mk_dirent ROOTINO [46, 46]
       @ concat (map (\<lambda>k. mk_dirent (of_nat (k + 2)) (mk_entry_name (files ! k))) [0..<length files])
     else mk_bytes (files ! (j - 2)))"

lemma mk_ino_inode: "i_d (mk_ino t j) = mk_inode (img t) j" "i_dev (mk_ino t j) = ROOTDEV"
  by (simp_all add: mk_ino_def disk_inode_def mk_disk_def mk_inode_def i2b_def IBLOCK_def)

lemma mk_file_block: "k < MAXFILE \<Longrightarrow> file_block (mk_disk t) (mk_ino t j) k = iblk (img t) (mk_inode (img t) j) k"
  by (simp add: file_block_def iblk_def mk_ino_inode mk_disk_def)

lemma mk_view:
  assumes fs: "mk_fs t (mk_inode (img t)) N C" and j: "j \<in> {1..<N}" "length (C j) \<le> MAXFILE * 512"
  shows "file_bytes (mk_disk t) (mk_ino t j) 0 (length (C j)) = C j"
proof (rule nth_equalityI)
  show "length (file_bytes (mk_disk t) (mk_ino t j) 0 (length (C j))) = length (C j)" by (simp add: file_bytes_def)
next
  fix n assume "n < length (file_bytes (mk_disk t) (mk_ino t j) 0 (length (C j)))"
  then have n: "n < length (C j)" by (simp add: file_bytes_def)
  then have "n div 512 < MAXFILE" using j(2) by (simp add: less_mult_imp_div_less)
  then have "file_byte (mk_disk t) (mk_ino t j) n = img t (iblk (img t) (mk_inode (img t) j) (n div 512)) ! (n mod 512)"
    by (simp add: file_byte_def BSIZE_def mk_file_block) (simp add: mk_disk_def)
  also have "\<dots> = C j ! n" using fs j(1) n unfolding mk_fs_def mk_data_def by blast
  finally show "file_bytes (mk_disk t) (mk_ino t j) 0 (length (C j)) ! n = C j ! n" using n by (simp add: file_bytes_def)
qed

lemma mk_view_blocks:
  assumes fs: "mk_fs t (mk_inode (img t)) N C" and C: "\<forall>j\<in>{1..<N}. length (C j) \<le> MAXFILE * 512"
  defines "S \<equiv> SIGMA j:{1..<N}. {..<(length (C j) + 511) div 512}"
  shows "inj_on (\<lambda>(j, k). file_block (mk_disk t) (mk_ino t j) k) S"
    "(j, k) \<in> S \<Longrightarrow> 29 \<le> unat (file_block (mk_disk t) (mk_ino t j) k) \<and> unat (file_block (mk_disk t) (mk_ino t j) k) < mk_need N C"
proof -
  have k: "k < MAXFILE" "k \<in> kset (length (C j))" if "(j, k) \<in> S" for j k
  proof -
    have "length (C j) \<le> MAXFILE * 512" using C that by (auto simp: S_def)
    then have "(length (C j) + 511) div 512 < MAXFILE + 1" by (intro less_mult_imp_div_less) simp
    then show "k < MAXFILE" "k \<in> kset (length (C j))" using that by (auto simp: S_def kset_def)
  qed
  have b: "blocks_ok (img t) (mk_need N C) (mk_inode (img t)) N (\<lambda>j. kset (length (C j)))"
    using fs mk_fs_parts(4) [OF fs] unfolding mk_fs_def mk_ok_def by auto
  let ?f = "\<lambda>(j, k). iblk (img t) (mk_inode (img t) j) k"
  have "inj_on ?f (SIGMA j:{1..<N}. kset (length (C j)))" using b unfolding blocks_ok_def by blast
  then have "inj_on ?f S" by (rule inj_on_subset) (use k(2) in \<open>auto simp: S_def\<close>)
  then show "inj_on (\<lambda>(j, k). file_block (mk_disk t) (mk_ino t j) k) S"
    using inj_on_cong [of S "\<lambda>(j, k). file_block (mk_disk t) (mk_ino t j) k" ?f] k(1) by (auto simp: mk_file_block)
  show "29 \<le> unat (file_block (mk_disk t) (mk_ino t j) k) \<and> unat (file_block (mk_disk t) (mk_ino t j) k) < mk_need N C"
    if "(j, k) \<in> S"
    using b k [OF that] that unfolding blocks_ok_def S_def by (auto simp: mk_file_block)
qed

lemma mk_clear:
  assumes "img s = (\<lambda>_. zeroes)" "nsect s = 0"
  shows "wp (for_each [0..<n] (\<lambda>i. wsect (of_nat i) zeroes)) (\<lambda>_ t. n \<le> 2 ^ 32 \<longrightarrow> t = s\<lparr>nsect := n\<rparr>) s"
proof (induction n)
  case 0
  then show ?case using assms by (simp add: wp)
next
  case (Suc n)
  have "t\<lparr>img := (img t)(of_nat n := zeroes), nsect := max (nsect t) (unat (of_nat n :: u32) + 1)\<rparr> = s\<lparr>nsect := Suc n\<rparr>"
    if "t = s\<lparr>nsect := n\<rparr>" "Suc n \<le> 2 ^ 32" for t
    using that assms by (cases s) (simp add: unat_of_nat fun_upd_idem)
  then show ?case
    unfolding upt_Suc if_P [OF le0] wp_for_each_append
    by (intro wp_mono [OF Suc.IH]) (simp add: wp wsect_def)
qed

lemma mk_start:
  assumes "length rest = 500" "s = mkst0\<lparr>usedblocks := 29, freeblock := 29, nsect := mk_size, img := (img mkst0)(1 := mk_super @ rest)\<rparr>"
  shows "mk_sys (mk_super @ rest) s 1 C ty"
proof -
  have i: "img s = (\<lambda>_. zeroes)(1 := mk_super @ rest)" "nsect s = mk_size" "freeblock s = 29" "usedblocks s = 29" "freeinode s = 1"
    unfolding assms(2) mkst0_def by simp_all
  have "length (img s b) = 512" for b using assms(1) by (simp add: i zeroes_def mk_super_def)
  moreover have "img s b = zeroes" if "29 \<le> unat b" for b using that by (auto simp: i)
  ultimately have "blocks_ok (img s) 29 (mk_inode (img s)) 1 (\<lambda>j. kset (length (C j)))"
    by (simp add: blocks_ok_def inodes_ok_def)
  then show ?thesis by (simp add: mk_sys_def mk_fs_def mk_ok_def i mk_size_def)
qed

lemma mk_balloc_spec:
  assumes fs: "mk_fs s (mk_inode (img s)) N C" and used: "mk_need N C < 512"
  shows "wp (bnd (gets usedblocks) mk_balloc) (\<lambda>_ t. t = s\<lparr>img := (img s)(28 := fold bm_set [0..<mk_need N C] zeroes)\<rparr>) s"
proof -
  note P = mk_fs_parts [OF fs]
  have u: "unat (usedblocks s) = mk_need N C" using P(4,5) by simp
  then have "sint (usedblocks s) = int (mk_need N C)" using sint_small [of "usedblocks s"] used by simp
  moreover have "unat (28 :: u32) < nsect s" using P(1) by (simp add: mk_size_def)
  ultimately show ?thesis
    using used by (simp add: wp mk_balloc_def mk_ninodes_def IPB_def wp_wsect)
qed

definition mk_image_ok :: "(u8 list \<times> u8 list list option) list \<Rightarrow> mkst \<Rightarrow> bool" where
  "mk_image_ok files t \<longleftrightarrow>
    (let N = length files + 2; C = mk_contents files; D = mk_disk t; bitmap = D (ROOTDEV, BBLOCK 0 200);
         S = (SIGMA j:{1..<N}. {..<(length (C j) + 511) div 512}) in
     get_sb (D (ROOTDEV, 1)) = \<lparr>sb_size = 1024, sb_nblocks = 995, sb_ninodes = 200\<rparr>
     \<and> (\<forall>j\<in>{1..<N}. let d = disk_inode D ROOTDEV (of_nat j) in
          di_type d = (if j = 1 then T_DIR else T_FILE) \<and> di_nlink d = 1
          \<and> unat (di_size d) = (if j = 1 then (length (C j) div BSIZE + 1) * BSIZE else length (C j))
          \<and> file_bytes D (mk_ino t j) 0 (length (C j)) = C j)
     \<and> inj_on (\<lambda>(j, k). file_block D (mk_ino t j) k) S
     \<and> (\<forall>(j, k)\<in>S. bm_test bitmap (unat (file_block D (mk_ino t j) k)))
     \<and> (\<forall>b<4096. bm_test bitmap b \<longleftrightarrow> b < mk_need N C))"

lemma mk_image_final:
  assumes fs: "mk_fs s (mk_inode (img s)) N C" and sb: "img s 1 = mk_super @ rest" and N: "N = length files + 2" "N \<le> 200"
    and C: "\<forall>j\<in>{1..<N}. C j = mk_contents files j \<and> length (C j) \<le> MAXFILE * 512" and used: "mk_need N C < 512"
    and meta: "\<forall>j\<in>{1..<N}. di_type (mk_inode (img s) j) = (if j = 1 then T_DIR else T_FILE) \<and> di_nlink (mk_inode (img s) j) = 1
        \<and> unat (di_size (mk_inode (img s) j)) = (if j = 1 then (length (C j) div 512 + 1) * 512 else length (C j))"
    and t: "t = s\<lparr>img := (img s)(28 := fold bm_set [0..<mk_need N C] zeroes)\<rparr>"
  shows "mk_image_ok files t"
proof -
  note bm = fold_bm_set [of "mk_need N C"]
  have low: "img t b = img s b" if "b \<noteq> 28" for b using that by (simp add: t)
  have ino: "mk_inode (img t) j = mk_inode (img s) j" if "j < 208" for j
  proof -
    have "i2b (of_nat j) \<noteq> 28" using i2b_low(1) [OF that] that by auto
    then show ?thesis by (simp add: mk_inode_def low)
  qed
  have "mk_fs (s\<lparr>img := img t\<rparr>) (mk_inode (img t)) N C"
  proof (rule mk_fs_cong [OF fs])
    show "\<forall>b. 29 \<le> unat b \<longrightarrow> img t b = img s b" by (auto simp: t)
    show "\<forall>b. length (img t b) = 512" using bm used mk_fs_parts(2) [OF fs] by (simp add: t)
    show "\<forall>j\<in>{1..<N}. di_addrs (mk_inode (img t) j) = di_addrs (mk_inode (img s) j)" using ino N(2) by simp
  qed
  then have ft: "mk_fs t (mk_inode (img t)) N C" by (simp add: t)
  have Cl: "\<forall>j\<in>{1..<N}. length (C j) \<le> MAXFILE * 512" using C by blast
  note vb = mk_view_blocks [OF ft Cl]
  have S: "(SIGMA j:{1..<N}. {..<(length (C j) + 511) div 512}) = (SIGMA j:{1..<N}. {..<(length (mk_contents files j) + 511) div 512})"
    using C by (intro Sigma_cong) auto
  have need: "mk_need N C = mk_need N (mk_contents files)" unfolding mk_need_def using C by (auto intro!: sum.cong)
  have b28: "mk_disk t (ROOTDEV, BBLOCK 0 200) = fold bm_set [0..<mk_need N C] zeroes"
    by (simp add: mk_disk_def BBLOCK_def IPB_def BPB_def t)
  have "get_sb (img t 1) = \<lparr>sb_size = 1024, sb_nblocks = 995, sb_ninodes = 200\<rparr>"
    by (simp add: low sb get_sb_def get32_def mk_super_def bslice_def mk_size_def mk_nblocks_def mk_ninodes_def)
  moreover have "disk_inode (mk_disk t) ROOTDEV (of_nat j) = mk_inode (img t) j" for j
    by (simp add: disk_inode_def mk_disk_def mk_inode_def i2b_def IBLOCK_def)
  moreover have "file_bytes (mk_disk t) (mk_ino t j) 0 (length (mk_contents files j)) = mk_contents files j" if "j \<in> {1..<N}" for j
    using mk_view [OF ft that bspec [OF Cl that]] bspec [OF C that] by auto
  moreover have "bm_test (fold bm_set [0..<mk_need N C] zeroes) (unat (file_block (mk_disk t) (mk_ino t j) k))"
    if "(j, k) \<in> (SIGMA j:{1..<N}. {..<(length (C j) + 511) div 512})" for j k
    using vb(2) [OF that] bm used by simp
  ultimately show ?thesis
    unfolding mk_image_ok_def Let_def N(1) [symmetric] b28 need [symmetric] S [symmetric]
    using meta ino C N(2) vb(1) bm used by (auto simp: mk_disk_def BSIZE_def)
qed

text \<open>The contents after the two entries of the root directory.\<close>

definition mk_dots :: "nat \<Rightarrow> u8 list" where
  "mk_dots = (\<lambda>_. [])(1 := mk_dirent ROOTINO [46] @ mk_dirent ROOTINO [46, 46])"

definition mk_fit :: "(u8 list \<times> u8 list list option) list \<Rightarrow> bool" where
  "mk_fit files \<longleftrightarrow> length files \<le> 198 \<and> (\<forall>f\<in>set files. mk_input_ok f) \<and> mk_need (length files + 2) (mk_contents files) < 512"

lemma mk_add_contents:
  assumes "j \<in> {1..<length files + 2}"
  shows "mk_add 2 files mk_dots j = mk_contents files j" "mk_ty 2 files ((\<lambda>_. 0)(1 := T_DIR)) j = (if j = 1 then T_DIR else T_FILE)"
proof -
  have "j = 1 \<or> (\<exists>k. j = 2 + k \<and> k < length files)" using assms by (cases "j = 1") (auto intro!: exI [of _ "j - 2"])
  then consider "j = 1" | k where "j = 2 + k" "k < length files" by blast
  then show "mk_add 2 files mk_dots j = mk_contents files j" "mk_ty 2 files ((\<lambda>_. 0)(1 := T_DIR)) j = (if j = 1 then T_DIR else T_FILE)"
    using mk_add_root [of 2 files mk_dots] mk_ty_root [of 2 files] mk_add_file [of 2 _ files]
    by (cases; simp add: mk_contents_def mk_dots_def add_ac)+
qed

lemma mk_contents_length:
  assumes "mk_fit files" "j \<in> {1..<length files + 2}"
  shows "length (mk_contents files j) \<le> MAXFILE * 512" "length (mk_contents files 1) = 16 * (length files + 2)"
proof -
  have "length (concat (map (\<lambda>k. mk_dirent (of_nat (k + 2)) (mk_entry_name (files ! k))) [0..<n])) = 16 * n" for n
    by (induction n) simp_all
  then show l: "length (mk_contents files 1) = 16 * (length files + 2)" by (simp add: mk_contents_def)
  show "length (mk_contents files j) \<le> MAXFILE * 512"
  proof (cases "j = 1")
    case True
    then show ?thesis using l assms(1) by (simp add: mk_fit_def MAXFILE_def NDIRECT_def NINDIRECT_def)
  next
    case False
    then have "files ! (j - 2) \<in> set files" using assms(2) by auto
    then show ?thesis using assms(1) False by (auto simp: mk_contents_def mk_fit_def mk_input_ok_def)
  qed
qed

text \<open>The start up to the allocation of the root inode.\<close>

lemma mkfs_boot:
  assumes "length rest = 500"
    and "\<And>t. mk_sys (mk_super @ rest) t 2 (\<lambda>_. []) ((\<lambda>_. 0)(1 := T_DIR)) \<Longrightarrow> wp (seqs
       [iappend ROOTINO (mk_dirent ROOTINO [46]), iappend ROOTINO (mk_dirent ROOTINO [46, 46]), for_each files mk_file,
        mk_root_size, bnd (gets usedblocks) mk_balloc]) Q t"
  shows "wp (mkfs rest files) Q mkst0"
proof -
  let ?s = "mkst0\<lparr>usedblocks := 29, freeblock := 29\<rparr>" and ?u = "mkst0\<lparr>usedblocks := 29, freeblock := 29, nsect := mk_size, img := (img mkst0)(1 := mk_super @ rest)\<rparr>"
  have z: "wp (for_each [0..<1024] (\<lambda>i. wsect (of_nat i) zeroes)) (\<lambda>_ t. t = ?s\<lparr>nsect := mk_size\<rparr>) ?s"
    by (rule wp_mono [OF mk_clear]) (simp_all add: mkst0_def mk_size_def)
  have "wp (mk_ialloc T_DIR) (\<lambda>r t. r = of_nat 1 \<and> mk_sys (mk_super @ rest) t (Suc 1) ((\<lambda>_. [])(1 := [])) ((\<lambda>_. 0)(1 := T_DIR))) ?u"
    by (rule mk_ialloc_spec [OF mk_start [OF assms(1) refl]]) simp
  then have i: "wp (mk_ialloc T_DIR) (\<lambda>r t. r = ROOTINO \<and> mk_sys (mk_super @ rest) t 2 (\<lambda>_. []) ((\<lambda>_. 0)(1 := T_DIR))) ?u"
    by (simp add: ROOTINO_def fun_upd_idem numeral_2_eq_2)
  have w: "wp (wsect 1 (mk_super @ rest)) R (?s\<lparr>nsect := mk_size\<rparr>) = R () ?u" for R
    by (subst wp_wsect) (simp_all add: mk_size_def)
  show ?thesis
    unfolding mkfs_def
    by (simp add: DINODE_SIZE_def DIRENT_SIZE_def mk_size_def mk_ninodes_def mk_nblocks_def IPB_def Let_def wp,
        rule wp_mono [OF z], simp only: w, rule wp_mono [OF i], auto intro: assms(2))
qed

lemma mk_dot_spec:
  assumes "mk_sys sb t 2 ((\<lambda>_. [])(1 := q)) ty" "length (q @ p) \<le> 32" "mk_need 2 ((\<lambda>_. [])(1 := q @ p)) \<le> mk_size"
  shows "wp (iappend ROOTINO p) (\<lambda>_ u. mk_sys sb u 2 ((\<lambda>_. [])(1 := q @ p)) ty) t"
  using iappend_spec [OF assms(1), of 1 p] assms(2,3)
  by (simp add: ROOTINO_def MAXFILE_def NDIRECT_def NINDIRECT_def)

text \<open>The steps after the root directory has been started.\<close>

lemma mkfs_finish:
  assumes fit: "mk_fit files" and sys: "mk_sys (mk_super @ rest) s 2 mk_dots ((\<lambda>_. 0)(1 := T_DIR))"
  shows "wp (seqs [for_each files mk_file, mk_root_size, bnd (gets usedblocks) mk_balloc]) (\<lambda>_ t. mk_image_ok files t) s"
proof -
  let ?N = "length files + 2" and ?C = "mk_add 2 files mk_dots" and ?ty = "(\<lambda>_. 0 :: u16)(1 := T_DIR)" and ?sb = "mk_super @ rest"
  have fit': "length files \<le> 198" "\<forall>f\<in>set files. mk_input_ok f" "mk_need ?N (mk_contents files) < 512" using fit by (auto simp: mk_fit_def)
  have need: "mk_need ?N ?C = mk_need ?N (mk_contents files)"
    unfolding mk_need_def using mk_add_contents(1) by (auto intro!: sum.cong)
  have cl: "\<forall>j\<in>{1..<?N}. ?C j = mk_contents files j \<and> length (?C j) \<le> MAXFILE * 512"
    using mk_add_contents(1) mk_contents_length(1) [OF fit] by simp
  have c1: "length (?C 1) < MAXFILE * 512"
    using mk_add_contents(1) [of 1 files] mk_contents_length(2) [OF fit, of 1] fit'(1) by (simp add: MAXFILE_def NDIRECT_def NINDIRECT_def)
  have "wp (for_each files mk_file) (\<lambda>_ t. mk_sys ?sb t (2 + length files) ?C (mk_ty 2 files ?ty)) s"
    by (rule mk_files_spec [OF sys]) (use fit' need in \<open>simp_all add: mk_dots_def mk_size_def MAXFILE_def NDIRECT_def NINDIRECT_def add.commute\<close>)
  then show ?thesis
  proof (rule wp_seqsI)
    fix t assume t: "mk_sys ?sb t (2 + length files) ?C (mk_ty 2 files ?ty)"
    then have t': "mk_sys ?sb t ?N ?C (mk_ty 2 files ?ty)" by (simp add: add.commute)
    show "wp (seqs [mk_root_size, bnd (gets usedblocks) mk_balloc]) (\<lambda>_ t. mk_image_ok files t) t"
    proof (rule wp_seqsI [OF mk_root_size_spec [OF t' _ c1]])
      fix u assume u: "mk_fs u (mk_inode (img u)) ?N ?C \<and> img u 1 = ?sb
        \<and> (\<forall>j\<in>{1..<?N}. di_type (mk_inode (img u) j) = mk_ty 2 files ?ty j \<and> di_nlink (mk_inode (img u) j) = 1
          \<and> unat (di_size (mk_inode (img u) j)) = (if j = 1 then (length (?C j) div 512 + 1) * 512 else length (?C j)))"
      show "wp (seqs [bnd (gets usedblocks) mk_balloc]) (\<lambda>_ t. mk_image_ok files t) u"
        unfolding wp_seqs_one
      proof (rule wp_mono [OF mk_balloc_spec [of u ?N ?C]])
        show "mk_image_ok files v" if "v = u\<lparr>img := (img u)(28 := fold bm_set [0..<mk_need ?N ?C] zeroes)\<rparr>" for v
          by (rule mk_image_final [OF conjunct1 [OF u] conjunct1 [OF conjunct2 [OF u]] refl _ cl _ _ that])
            (use fit' need u mk_add_contents(2) in simp_all)
      qed (use u fit'(3) need in simp_all)
    qed simp
  qed
qed

text \<open>C29. On files whose names have no slash, which are not too large and fit into the first 512 blocks, \<^verbatim>\<open>mkfs\<close> ends
  without a failed check. In the image the kernel finds the super block; the root directory, with an entry for itself, for
  its parent and for every file; in every file the bytes it was made from; no block in two files; and the bits
  of exactly the blocks in use set in the bitmap.\<close>

theorem mkfs_image:
  assumes fit: "mk_fit files" and rest: "length rest = 500"
  shows "wp (mkfs rest files) (\<lambda>_ t. mk_image_ok files t) mkst0"
proof -
  let ?d1 = "mk_dirent ROOTINO [46]" and ?d2 = "mk_dirent ROOTINO [46, 46]"
  have room: "mk_need 2 ((\<lambda>_. [])(1 := p)) \<le> mk_size" if "length p \<le> 32" for p
  proof -
    have l: "length (mk_contents files 1) = 16 * (length files + 2)" by (rule mk_contents_length(2) [OF fit, of 1]) simp
    have "mk_need 2 ((\<lambda>_. [])(1 := p)) \<le> mk_need (length files + 2) (mk_contents files)"
      by (rule mk_need_more) (use that l in \<open>auto simp: less_Suc_eq numeral_2_eq_2\<close>)
    then show ?thesis using fit by (simp add: mk_fit_def mk_size_def)
  qed
  show ?thesis
  proof (rule mkfs_boot [OF rest])
    fix t assume "mk_sys (mk_super @ rest) t 2 (\<lambda>_. []) ((\<lambda>_. 0)(1 := T_DIR))"
    then have t: "mk_sys (mk_super @ rest) t 2 ((\<lambda>_. [])(1 := [])) ((\<lambda>_. 0)(1 := T_DIR))" by (simp add: fun_upd_idem)
    show "wp (seqs [iappend ROOTINO ?d1, iappend ROOTINO ?d2, for_each files mk_file, mk_root_size, bnd (gets usedblocks) mk_balloc])
      (\<lambda>_ t. mk_image_ok files t) t"
    proof (rule wp_seqsI [OF mk_dot_spec [OF t]])
      fix u assume u: "mk_sys (mk_super @ rest) u 2 ((\<lambda>_. [])(1 := [] @ ?d1)) ((\<lambda>_. 0)(1 := T_DIR))"
      show "wp (seqs [iappend ROOTINO ?d2, for_each files mk_file, mk_root_size, bnd (gets usedblocks) mk_balloc])
        (\<lambda>_ t. mk_image_ok files t) u"
        by (rule wp_seqsI [OF mk_dot_spec [OF u]]) (use room mkfs_finish [OF fit] in \<open>simp_all add: mk_dots_def\<close>)
    qed (use room in simp_all)
  qed
qed

theorem mkfs_image_witness:
  "wp (mkfs (replicate 500 0) [([95, 99], Some [[1, 2], [3]]), ([100], Some [])])
     (\<lambda>_ t. mk_image_ok [([95, 99], Some [[1, 2], [3]]), ([100], Some [])] t) mkst0"
proof (rule mkfs_image)
  have "{1..<4 :: nat} = {1, 2, 3}" by auto
  then show "mk_fit [([95, 99], Some [[1, 2], [3]]), ([100], Some [])]"
    by (simp add: mk_fit_def mk_input_ok_def mk_bytes_def mk_need_def mk_contents_def kset_def MAXFILE_def NDIRECT_def NINDIRECT_def)
qed simp

end
