(* ===== verification/Spec2Isabelle.thy ===== *)
theory Spec2Isabelle
  imports Smp Mp Grep Shell_Run Umalloc Mkfs
begin

text \<open>
  A verification development for xv6 (x86) with the scheduling policies, timing system calls and
  console history of this repository.

  \<^bold>\<open>Method.\<close> Kernel code is a shallow embedding in a state monad with outcomes
  (\<open>Prelude\<close>): an operation returns a value and a state, or panics, spins forever, runs out of
  loop fuel, or uses an undefined value. \<open>wp\<close> is total correctness: a postcondition under
  \<open>wp\<close> includes that the operation returns. The state grows by extensible records, one layer
  per component, and every operation is polymorphic in the layers above it.

  \<^bold>\<open>Theories.\<close>
  \<^item> \<open>Machine\<close>: descriptors, trap frame, processor structure (\<^verbatim>\<open>mmu.h\<close>, \<^verbatim>\<open>x86.h\<close>, \<^verbatim>\<open>proc.h\<close>).
  \<^item> \<open>Spinlock\<close>, \<open>Smp\<close>: \<^verbatim>\<open>spinlock.c\<close>, sequentially and as interleaved steps of
    any number of processors; mutual exclusion.
  \<^item> \<open>Strings\<close>: \<^verbatim>\<open>string.c\<close> and the pure part of \<^verbatim>\<open>ulib.c\<close>.
  \<^item> \<open>Cprintf\<close>: console output.
  \<^item> \<open>Memory\<close>, \<open>Kalloc\<close>: words in byte memory, page macros, the page allocator.
  \<^item> \<open>Proc\<close>: the process table and the operations that switch, sleep and wake.
  \<^item> \<open>Vm\<close>: page tables and address spaces (\<^verbatim>\<open>vm.c\<close>); mapping a range changes the map from pages to
    entries on that range only, growing a process gives it zeroed frames of its own.
  \<^item> \<open>Scheduler\<close>: the three policies of \<^verbatim>\<open>scheduler\<close> and the round each of them makes.
  \<^item> \<open>Ide\<close>: the disk driver; a request is served in queue order and the caller returns.
  \<^item> \<open>Layout\<close>, \<open>Bio\<close>, \<open>Fs_Block\<close>, \<open>Fs_Inode\<close>, \<open>Fs_Dir\<close>: the file system from the bytes of a
    block up to path names (\<^verbatim>\<open>bio.c\<close>, \<^verbatim>\<open>fs.c\<close>): the cache invariant and its refinement of the
    disk, first-fit allocation of blocks, uniqueness of cached inodes, reading and writing of contents.
  \<^item> \<open>Ring\<close>, \<open>Pipe\<close>, \<open>File\<close>: byte rings, pipes and the table of open files; bytes come out of a
    pipe in the order they went in, and writers are not stuck.
  \<^item> \<open>Procops\<close>: creation and end of processes (\<^verbatim>\<open>allocproc\<close> to \<^verbatim>\<open>wait2\<close> of \<^verbatim>\<open>proc.c\<close>).
  \<^item> \<open>Device\<close>: the interrupt controllers, the timers and the serial port as register writes
    (\<^verbatim>\<open>picirq.c\<close>, \<^verbatim>\<open>ioapic.c\<close>, \<^verbatim>\<open>lapic.c\<close>, \<^verbatim>\<open>timer.c\<close>, \<^verbatim>\<open>uart.c\<close>).
  \<^item> \<open>Kbd\<close>, \<open>Console\<close>: the keyboard decoder and console input (\<^verbatim>\<open>kbd.c\<close>, \<^verbatim>\<open>console.c\<close>): line
    editing, the history of lines, and the reader; the interrupt handler refines an editor on two lists.
  \<^item> \<open>Syscall\<close>, \<open>Sysfile\<close>, \<open>Exec\<close>: arguments of system calls, the calls on processes and files, and
    the loading of programs (\<^verbatim>\<open>syscall.c\<close>, \<^verbatim>\<open>sysproc.c\<close>, \<^verbatim>\<open>sysfile.c\<close>, \<^verbatim>\<open>exec.c\<close>).
  \<^item> \<open>Trap\<close>: the interrupt table, \<^verbatim>\<open>trap\<close> under each scheduling policy, and the dispatch of system
    calls (\<^verbatim>\<open>trap.c\<close>).
  \<^item> \<open>Mp\<close>: the discovery of the processors (\<^verbatim>\<open>mp.c\<close>); what \<^verbatim>\<open>mpinit\<close> collects from a table in memory.
  \<^item> \<open>Grep\<close>: the pattern matcher of the user program \<^verbatim>\<open>grep.c\<close> and its loop over lines.
  \<^item> \<open>Shell\<close>, \<open>Shell_Run\<close>: the shell (\<^verbatim>\<open>sh.c\<close>). The parser ends on every line and reads back what is
    written out; the processes that a command starts, in every interleaving, refine a semantics of jobs.
  \<^item> \<open>Mkfs\<close>: the host program that makes the disk image (\<^verbatim>\<open>mkfs.c\<close>); the kernel finds the files in it as they were.
  \<^item> \<open>Umalloc\<close>: the storage allocator of user programs (\<^verbatim>\<open>umalloc.c\<close>); regions handed out never overlap,
    and no memory is lost.

  \<^bold>\<open>Interfaces.\<close> \<open>step_invariant\<close> (state machines), \<open>page_allocator\<close> (what a
  client of \<^verbatim>\<open>kalloc\<close> relies on), \<open>switching\<close> (what a process relies on while it is
  off the processor), \<open>block_store\<close> (what the file system relies on from the buffer cache),
  \<open>fifo\<close> (byte queues: pipes and the console buffer), \<open>simulation\<close> (runs of processes against jobs); each is interpreted on the model of the code
  that provides it.

  \<^bold>\<open>Time off the processor.\<close> An operation that calls \<^verbatim>\<open>swtch\<close> takes as argument what
  the rest of the system does until the process is switched in again.

  \<^bold>\<open>Fuel.\<close> A loop whose end depends on data takes fuel; each use says next to the definition
  how many rounds the loop of the code can make. Running out is an outcome that \<open>wp\<close> excludes.

  \<^bold>\<open>Not modelled.\<close> \<^verbatim>\<open>main.c\<close> calls the initialisers, which are modelled with their components, and starts the
  other processors through assembly code; \<^verbatim>\<open>bootmain.c\<close> runs on raw ports before the kernel is loaded. The
  assembly files: \<^verbatim>\<open>swtch.S\<close> and \<^verbatim>\<open>trapasm.S\<close> appear as the switch and the trap frame of the model. The small
  user programs consist of system calls, whose kernel side is modelled; \<^verbatim>\<open>printf.c\<close> is the formatter of the
  console once more. The test programs. \<^verbatim>\<open>consolebacked.c\<close>: an old copy of \<^verbatim>\<open>console.c\<close> that is not compiled.
\<close>

section \<open>The descriptors of the shell and those of the kernel\<close>

text \<open>The shell is modelled over tables of descriptors. The kernel gives out the same descriptor, and \<^verbatim>\<open>dup\<close> changes
  the table of the process as the model of the shell says.\<close>

lemma first_fd_lowest: "first_fd p = lowest (p_ofile p)"
  by (simp add: first_fd_def lowest_def)

lemma sys_dup_descriptors:
  assumes "proc_ctx i s" "user_ok i s" "user_arg s i 0 = Some v" "0 \<le> sint v" "sint v < int NOFILE"
    and "\<And>f. p_ofile (ptab s i) (nat (sint v)) = Some f \<Longrightarrow> 1 \<le> f_ref (ftab s f) \<and> f_ref (ftab s f) < 2 ^ 31 - 1"
  shows "wp sys_dup (\<lambda>_ t. p_ofile (ptab t i) = sh_dup (nat (sint v)) (p_ofile (ptab s i))) s"
  by (rule wp_mono [OF wp_sys_dup [OF assms(1-3,6)]])
    (use assms(4,5) in \<open>auto simp: sh_dup_def first_fd_lowest split: option.splits\<close>)

end
